(* ===== verification/Lua_Prelude.thy ===== *)
theory Lua_Prelude
  imports Main "HOL-Library.Word"
begin

text \<open>
  Shared ground of the development: the machine types of the C code, the results of
  operations that can fail, and generic lemmas on lists and words that the components use.

  A C function that can raise a Lua error (\<^verbatim>\<open>luaG_runerror\<close>, \<^verbatim>\<open>luaL_error\<close>, \<^verbatim>\<open>luaX_syntaxerror\<close>,
  \<^verbatim>\<open>luaD_throw\<close>) returns a value of type \<open>'a res\<close>: \<open>Inl\<close> carries the error status and the
  message, \<open>Inr\<close> the normal result.  Two constructors of the error type are not Lua errors:
  \<open>ErrLoop\<close> is the value of a model whose fuel has run out (the C loop has not ended yet) and
  \<open>ErrUB\<close> that of a C step without defined behaviour (a read outside a buffer, a null
  dereference).  The theorems of the components say where neither can occur.
\<close>

unbundle bit_operations_syntax

section \<open>Machine types\<close>

type_synonym lu_byte = "8 word"
type_synonym u32 = "32 word"
type_synonym u64 = "64 word"

text \<open>The contents of a Lua string: any bytes, zeros included.\<close>

type_synonym lstr = "lu_byte list"

definition lit :: "string \<Rightarrow> lstr" where
  "lit s = map (\<lambda>c. word_of_nat (of_char c)) s"

definition LUA_QL :: "string \<Rightarrow> string" where
  "LUA_QL x = CHR 0x27 # x @ [CHR 0x27]"

definition INT_MAX :: int where
  "INT_MAX = 2147483647"

definition INT_MIN :: int where
  "INT_MIN = - 2147483648"

definition MAX_INT :: int where
  "MAX_INT = INT_MAX - 2"

definition is_int :: "int \<Rightarrow> bool" where
  "is_int k \<longleftrightarrow> INT_MIN \<le> k \<and> k \<le> INT_MAX"

section \<open>Results\<close>

datatype lua_error =
    ErrRun string
  | ErrSyntax string
  | ErrLoop
  | ErrUB string

type_synonym 'a res = "lua_error + 'a"

definition ebind :: "'e + 'a \<Rightarrow> ('a \<Rightarrow> 'e + 'b) \<Rightarrow> 'e + 'b" where
  "ebind m f = (case m of Inl e \<Rightarrow> Inl e | Inr x \<Rightarrow> f x)"

lemma ebind_simps [simp]:
  "ebind (Inl e) f = Inl e"
  "ebind (Inr x) f = f x"
  by (simp_all add: ebind_def)

lemma ebind_Inr_iff: "ebind m f = Inr y \<longleftrightarrow> (\<exists>x. m = Inr x \<and> f x = Inr y)"
  by (cases m) auto

lemma ebind_Inl_iff: "ebind m f = Inl e \<longleftrightarrow> m = Inl e \<or> (\<exists>x. m = Inr x \<and> f x = Inl e)"
  by (cases m) auto

lemma ebind_assoc: "ebind (ebind m f) g = ebind m (\<lambda>x. ebind (f x) g)"
  by (cases m) auto

lemma ebind_cong [fundef_cong]:
  "m = m' \<Longrightarrow> (\<And>x. m' = Inr x \<Longrightarrow> f x = f' x) \<Longrightarrow> ebind m f = ebind m' f'"
  by (cases m') auto

text \<open>\<open>for\<close> loops over a list of indices, stopping at the first error.\<close>

fun efold :: "('i \<Rightarrow> 's \<Rightarrow> 's res) \<Rightarrow> 'i list \<Rightarrow> 's \<Rightarrow> 's res" where
  "efold f [] s = Inr s"
| "efold f (i # is) s = ebind (f i s) (efold f is)"

lemma efold_append: "efold f (xs @ ys) s = ebind (efold f xs s) (efold f ys)"
  by (induction xs arbitrary: s) (simp_all add: ebind_assoc ebind_def split: sum.split)

text \<open>The rule for a loop that keeps an invariant indexed by what is left to do.\<close>

lemma efold_rule:
  assumes "P xs s"
    and "\<And>x xs s. P (x # xs) s \<Longrightarrow> \<exists>s'. f x s = Inr s' \<and> P xs s'"
  shows "\<exists>s'. efold f xs s = Inr s' \<and> P [] s'"
  using assms(1)
proof (induction xs arbitrary: s)
  case Nil
  then show ?case by simp
next
  case (Cons x xs)
  from assms(2) [OF Cons.prems] obtain s1 where "f x s = Inr s1" "P xs s1" by blast
  with Cons.IH show ?case by simp
qed

text \<open>
  A computation that ends with a Lua error or with a result that satisfies \<open>Q\<close>: it neither runs
  out of fuel nor meets undefined behaviour.
\<close>

definition ends :: "'a res \<Rightarrow> ('a \<Rightarrow> bool) \<Rightarrow> bool" where
  "ends r Q = (case r of Inl (ErrRun m) \<Rightarrow> True | Inl (ErrSyntax m) \<Rightarrow> True | Inl _ \<Rightarrow> False | Inr x \<Rightarrow> Q x)"

lemma ends_simps [simp]:
  "ends (Inr x) Q \<longleftrightarrow> Q x" "ends (Inl (ErrRun m)) Q" "ends (Inl (ErrSyntax m)) Q"
  "\<not> ends (Inl ErrLoop) Q" "\<not> ends (Inl (ErrUB m)) Q"
  by (simp_all add: ends_def)

lemma ends_bind: "ends m P \<Longrightarrow> (\<And>x. m = Inr x \<Longrightarrow> P x \<Longrightarrow> ends (f x) Q) \<Longrightarrow> ends (ebind m f) Q"
  by (auto simp: ends_def split: sum.splits lua_error.splits)

lemma ends_weaken: "ends m P \<Longrightarrow> (\<And>x. m = Inr x \<Longrightarrow> P x \<Longrightarrow> Q x) \<Longrightarrow> ends m Q"
  by (auto simp: ends_def split: sum.splits lua_error.splits)

lemma ends_if: "(b \<Longrightarrow> ends x Q) \<Longrightarrow> (\<not> b \<Longrightarrow> ends y Q) \<Longrightarrow> ends (if b then x else y) Q"
  by simp

lemma endsD: "ends m P \<Longrightarrow> m = Inr x \<Longrightarrow> P x"
  by simp

text \<open>
  A C loop \<^verbatim>\<open>while (c) body\<close> with fuel, and its rule: an invariant indexed by a bound of the iterations
  left.
\<close>

primrec while_n :: "nat \<Rightarrow> ('s \<Rightarrow> bool) \<Rightarrow> ('s \<Rightarrow> 's res) \<Rightarrow> 's \<Rightarrow> 's res" where
  "while_n 0 c b s = (if c s then Inl ErrLoop else Inr s)"
| "while_n (Suc n) c b s = (if c s then ebind (b s) (while_n n c b) else Inr s)"

lemma while_n_ends:
  assumes "\<And>n s. I n s \<Longrightarrow> c s \<Longrightarrow> ends (b s) (\<lambda>s'. \<exists>m < n. I m s')"
  shows "I n s \<Longrightarrow> n < f \<Longrightarrow> ends (while_n f c b s) (\<lambda>s'. (\<exists>m \<le> n. I m s') \<and> \<not> c s')"
proof (induction f arbitrary: n s)
  case (Suc f)
  show ?case
  proof (cases "c s")
    case True
    with assms Suc.prems have "ends (b s) (\<lambda>s'. \<exists>m < n. I m s')" by blast
    then have "ends (ebind (b s) (while_n f c b)) (\<lambda>s'. (\<exists>m \<le> n. I m s') \<and> \<not> c s')"
    proof (rule ends_bind)
      fix s' assume "\<exists>m < n. I m s'"
      then obtain m where m: "m < n" "I m s'" by blast
      with Suc.prems have "ends (while_n f c b s') (\<lambda>s'. (\<exists>k \<le> m. I k s') \<and> \<not> c s')" by (intro Suc.IH) auto
      then show "ends (while_n f c b s') (\<lambda>s'. (\<exists>m \<le> n. I m s') \<and> \<not> c s')"
        by (rule ends_weaken) (use m in \<open>auto intro: order_trans [OF _ less_imp_le]\<close>)
    qed
    with True show ?thesis by simp
  qed (use Suc.prems in auto)
qed simp

text \<open>Operations that also change a state.\<close>

definition sret :: "'a \<Rightarrow> 's \<Rightarrow> ('s \<times> 'a) res" where
  "sret x s = Inr (s, x)"

definition sbind :: "('s \<Rightarrow> ('s \<times> 'a) res) \<Rightarrow> ('a \<Rightarrow> 's \<Rightarrow> ('s \<times> 'b) res) \<Rightarrow> 's \<Rightarrow> ('s \<times> 'b) res" where
  "sbind m f s = ebind (m s) (\<lambda>(s', x). f x s')"

lemma sbind_Inr_iff: "sbind m f s = Inr (s2, y) \<longleftrightarrow> (\<exists>s1 x. m s = Inr (s1, x) \<and> f x s1 = Inr (s2, y))"
  by (auto simp: sbind_def ebind_Inr_iff)

lemma sret_Inr_iff [simp]: "sret x s = Inr (s', y) \<longleftrightarrow> s' = s \<and> y = x"
  by (auto simp: sret_def)

section \<open>Bytes, least significant first\<close>

primrec le :: "nat \<Rightarrow> nat \<Rightarrow> lstr" where
  "le 0 v = []"
| "le (Suc n) v = word_of_nat v # le n (v div 256)"

primrec of_le :: "lstr \<Rightarrow> nat" where
  "of_le [] = 0"
| "of_le (b # bs) = unat b + 256 * of_le bs"

lemma length_le [simp]: "length (le n v) = n"
  by (induction n arbitrary: v) auto

lemma of_le_le: "of_le (le n v) = v mod 256 ^ n"
proof (induction n arbitrary: v)
  case (Suc n)
  have "unat (word_of_nat v :: lu_byte) = v mod 256" by (simp add: unsigned_of_nat take_bit_eq_mod)
  with Suc show ?case using mod_mult2_eq [of v 256 "256 ^ n"] by simp
qed simp

section \<open>Lists\<close>

lemma length_filter_upt_mono:
  "m \<le> n \<Longrightarrow> length (filter P [0..<m]) \<le> length (filter P [0..<n])"
  by (induction n) (auto simp: le_Suc_eq)

lemma count_upd_le:
  assumes "i < length xs"
  shows "length (filter P (xs[i := x])) \<le> Suc (length (filter P xs))"
proof -
  have xs: "xs = take i xs @ xs ! i # drop (Suc i) xs"
    using assms by (simp add: id_take_nth_drop)
  have u: "xs[i := x] = take i xs @ x # drop (Suc i) xs"
    using assms by (simp add: upd_conv_take_nth_drop)
  show ?thesis unfolding u by (subst (3) xs) simp
qed

lemma count_upd_same:
  assumes "i < length xs" and "P x" and "P (xs ! i)"
  shows "length (filter P (xs[i := x])) = length (filter P xs)"
proof -
  have xs: "xs = take i xs @ xs ! i # drop (Suc i) xs"
    using assms by (simp add: id_take_nth_drop)
  have u: "xs[i := x] = take i xs @ x # drop (Suc i) xs"
    using assms by (simp add: upd_conv_take_nth_drop)
  show ?thesis unfolding u using assms by (subst (3) xs) simp
qed

lemma count_lt_ex:
  "length (filter P xs) < length xs \<Longrightarrow> \<exists>i < length xs. \<not> P (xs ! i)"
  by (metis filter_True in_set_conv_nth less_irrefl)

end
