(* ===== verification/LNumber.thy ===== *)
theory LNumber
  imports Lua_Prelude
begin

text \<open>
  \<^verbatim>\<open>lua_Number\<close> of src/lua-5.1.5/src/luaconf.h: an IEEE binary64 value, modelled by its bit
  pattern, with the operations the core applies to numbers as data: comparison
  (\<^verbatim>\<open>luai_numeq\<close>, \<^verbatim>\<open>luai_numisnan\<close>), conversion from an int (\<^verbatim>\<open>cast_num\<close>) and to an int
  (\<^verbatim>\<open>lua_number2int\<close>, the portable definition, a C cast that truncates towards zero).
  The lemmas at the end are what table keys rest on: an int survives the way to a number and
  back, and numbers that compare equal convert to the same int.
\<close>

type_synonym lua_Number = u64

section \<open>Fields of a binary64 pattern\<close>

definition num_sign :: "lua_Number \<Rightarrow> nat" where
  "num_sign n = unat n div 2 ^ 63"

definition num_exp :: "lua_Number \<Rightarrow> nat" where
  "num_exp n = unat n div 2 ^ 52 mod 2 ^ 11"

definition num_man :: "lua_Number \<Rightarrow> nat" where
  "num_man n = unat n mod 2 ^ 52"

definition num_pack :: "nat \<Rightarrow> nat \<Rightarrow> nat \<Rightarrow> lua_Number" where
  "num_pack s e m = word_of_nat (s * 2 ^ 63 + e * 2 ^ 52 + m)"

definition num_iszero :: "lua_Number \<Rightarrow> bool" where
  "num_iszero n \<longleftrightarrow> num_exp n = 0 \<and> num_man n = 0"

definition luai_numisnan :: "lua_Number \<Rightarrow> bool" where
  "luai_numisnan n \<longleftrightarrow> num_exp n = 2047 \<and> num_man n \<noteq> 0"

definition luai_numeq :: "lua_Number \<Rightarrow> lua_Number \<Rightarrow> bool" where
  "luai_numeq a b \<longleftrightarrow> \<not> luai_numisnan a \<and> \<not> luai_numisnan b \<and>
     (a = b \<or> num_iszero a \<and> num_iszero b)"

text \<open>
  Order: the magnitude bits of a pattern grow with the magnitude of its value, and both zeros have
  magnitude 0.
\<close>

definition num_ord :: "lua_Number \<Rightarrow> int" where
  "num_ord n = (if num_sign n = 0 then 1 else - 1) * int (unat n mod 2 ^ 63)"

definition luai_numlt :: "lua_Number \<Rightarrow> lua_Number \<Rightarrow> bool" where
  "luai_numlt a b \<longleftrightarrow> \<not> luai_numisnan a \<and> \<not> luai_numisnan b \<and> num_ord a < num_ord b"

definition luai_numle :: "lua_Number \<Rightarrow> lua_Number \<Rightarrow> bool" where
  "luai_numle a b \<longleftrightarrow> \<not> luai_numisnan a \<and> \<not> luai_numisnan b \<and> num_ord a \<le> num_ord b"

section \<open>Conversions\<close>

text \<open>The magnitude of a finite number, rounded towards zero.\<close>

definition num_trunc :: "lua_Number \<Rightarrow> nat" where
  "num_trunc n =
     (let e = num_exp n; m = 2 ^ 52 + num_man n
      in if e < 1023 then 0
         else if e \<le> 1075 then m div 2 ^ (1075 - e)
         else m * 2 ^ (e - 1075))"

text \<open>
  \<^verbatim>\<open>(int)(d)\<close>.  Out of the range of \<^verbatim>\<open>int\<close> C leaves the value open; the model returns what the
  x86-64 instruction \<^verbatim>\<open>cvttsd2si\<close> does, and \<open>arrayindex_out_of_range\<close> (theory LTable_Inv) shows
  that the code never depends on it.
\<close>

definition number2int :: "lua_Number \<Rightarrow> int" where
  "number2int n =
     (let k = (if num_sign n = 0 then int (num_trunc n) else - int (num_trunc n))
      in if num_exp n < 2047 \<and> is_int k then k else INT_MIN)"

text \<open>The position of the leading one bit.\<close>

fun log2_nat :: "nat \<Rightarrow> nat" where
  "log2_nat n = (if n \<le> 1 then 0 else Suc (log2_nat (n div 2)))"

declare log2_nat.simps [simp del]

definition cast_num :: "int \<Rightarrow> lua_Number" where
  "cast_num k =
     (if k = 0 then 0
      else let m = nat \<bar>k\<bar>; e = log2_nat m
           in num_pack (if k < 0 then 1 else 0) (e + 1023) ((m - 2 ^ e) * 2 ^ (52 - e)))"

section \<open>Lemmas\<close>

lemma unat_num_pack:
  assumes "s < 2" "e < 2 ^ 11" "m < 2 ^ 52"
  shows "unat (num_pack s e m) = s * 2 ^ 63 + e * 2 ^ 52 + m"
proof -
  have "s * 2 ^ 63 + e * 2 ^ 52 + m < 2 ^ 64"
    using assms by simp
  moreover have "unat (word_of_nat N :: u64) = N" if "N < 2 ^ 64" for N
    using that by (simp add: unsigned_of_nat take_bit_nat_eq_self)
  ultimately show ?thesis
    unfolding num_pack_def by blast
qed

lemma num_fields_pack:
  assumes "s < 2" "e < 2 ^ 11" "m < 2 ^ 52"
  shows "num_sign (num_pack s e m) = s"
    and "num_exp (num_pack s e m) = e"
    and "num_man (num_pack s e m) = m"
proof -
  note u = unat_num_pack [OF assms]
  have "e * 2 ^ 52 + m < (2::nat) ^ 63"
    using assms(2,3) by simp
  then show "num_sign (num_pack s e m) = s"
    unfolding num_sign_def u by (simp add: div_eq_0_iff add.assoc)
  have "(s * 2 ^ 63 + e * 2 ^ 52 + m) div 2 ^ 52 = s * 2 ^ 11 + e"
    using assms(3) by simp
  then show "num_exp (num_pack s e m) = e"
    unfolding num_exp_def u using assms(2) by simp
  have "s * 2 ^ 63 + e * 2 ^ 52 + m = m + 2 ^ 52 * (s * 2 ^ 11 + e)"
    by (simp add: algebra_simps)
  then show "num_man (num_pack s e m) = m"
    unfolding num_man_def u using assms(3) by (simp only: mod_mult_self2 mod_less)
qed

lemma num_sign_lt: "num_sign n < 2"
proof -
  have "unat n < 2 ^ 64" using unsigned_less [of n] by simp
  then show ?thesis by (simp add: num_sign_def less_mult_imp_div_less)
qed

lemma log2_nat_bounds: "0 < n \<Longrightarrow> 2 ^ log2_nat n \<le> n \<and> n < 2 ^ Suc (log2_nat n)"
proof (induction n rule: log2_nat.induct)
  case (1 n)
  show ?case
  proof (cases "n \<le> 1")
    case True
    with "1.prems" show ?thesis by (simp add: log2_nat.simps)
  next
    case False
    then have "2 ^ log2_nat (n div 2) \<le> n div 2 \<and> n div 2 < 2 ^ Suc (log2_nat (n div 2))"
      by (intro "1.IH") auto
    with False show ?thesis
      by (auto simp: log2_nat.simps [of n])
  qed
qed

lemma log2_nat_le: "0 < n \<Longrightarrow> n < 2 ^ Suc k \<Longrightarrow> log2_nat n \<le> k"
proof -
  assume "0 < n" and "n < 2 ^ Suc k"
  then have "(2::nat) ^ log2_nat n < 2 ^ Suc k"
    using log2_nat_bounds le_less_trans by blast
  then have "log2_nat n < Suc k" by (simp only: power_strict_increasing_iff [OF one_less_numeral_iff [THEN iffD2]] semiring_norm)
  then show ?thesis by simp
qed

lemma zero_fields: "num_sign 0 = 0" "num_exp 0 = 0" "num_man 0 = 0"
  by (simp_all add: num_sign_def num_exp_def num_man_def)

lemma cast_num_fields:
  fixes k :: int
  defines "m \<equiv> nat \<bar>k\<bar>"
  assumes "is_int k" "k \<noteq> 0"
  shows "num_sign (cast_num k) = (if k < 0 then 1 else 0)"
    and "num_exp (cast_num k) = log2_nat m + 1023"
    and "num_man (cast_num k) = (m - 2 ^ log2_nat m) * 2 ^ (52 - log2_nat m)"
    and "log2_nat m \<le> 31"
proof -
  have m: "0 < m" "m < 2 ^ Suc 31"
    using assms by (auto simp: is_int_def INT_MIN_def INT_MAX_def)
  show e: "log2_nat m \<le> 31"
    by (rule log2_nat_le [OF m])
  have r: "m - 2 ^ log2_nat m < 2 ^ log2_nat m"
    using log2_nat_bounds [OF m(1)] by auto
  have man: "(m - 2 ^ log2_nat m) * 2 ^ (52 - log2_nat m) < 2 ^ 52"
  proof -
    have "(m - 2 ^ log2_nat m) * 2 ^ (52 - log2_nat m) < 2 ^ log2_nat m * 2 ^ (52 - log2_nat m)"
      using r by (intro mult_strict_right_mono) auto
    also have "\<dots> = 2 ^ 52"
      using e by (simp flip: power_add)
    finally show ?thesis .
  qed
  have ex: "log2_nat m + 1023 < 2 ^ 11"
    using e by simp
  have c: "cast_num k = num_pack (if k < 0 then 1 else 0) (log2_nat m + 1023)
             ((m - 2 ^ log2_nat m) * 2 ^ (52 - log2_nat m))"
    using assms by (simp add: cast_num_def Let_def)
  note f = num_fields_pack [OF _ ex man]
  show "num_sign (cast_num k) = (if k < 0 then 1 else 0)"
    unfolding c by (rule f(1)) simp
  show "num_exp (cast_num k) = log2_nat m + 1023"
    unfolding c by (rule f(2)) simp
  show "num_man (cast_num k) = (m - 2 ^ log2_nat m) * 2 ^ (52 - log2_nat m)"
    unfolding c by (rule f(3)) simp
qed

lemma num_trunc_cast:
  assumes "is_int k"
  shows "num_trunc (cast_num k) = nat \<bar>k\<bar>"
proof (cases "k = 0")
  case True
  then show ?thesis
    by (simp add: cast_num_def num_trunc_def zero_fields)
next
  case False
  define m where "m = nat \<bar>k\<bar>"
  define e where "e = log2_nat m"
  note f = cast_num_fields [OF assms False, folded m_def, folded e_def]
  have "0 < m" using False by (simp add: m_def)
  then have le: "2 ^ e \<le> m" using log2_nat_bounds e_def by blast
  have p: "(2::nat) ^ 52 = 2 ^ e * 2 ^ (52 - e)"
    using f(4) by (simp flip: power_add)
  have "2 ^ 52 + (m - 2 ^ e) * 2 ^ (52 - e) = (2 ^ e + (m - 2 ^ e)) * 2 ^ (52 - e)"
    unfolding p by (simp add: distrib_right)
  then have "2 ^ 52 + num_man (cast_num k) = m * 2 ^ (52 - e)"
    using le f(3) by simp
  moreover have "1075 - num_exp (cast_num k) = 52 - e"
    using f(2,4) by simp
  ultimately show ?thesis
    using f(2,4) by (simp add: num_trunc_def m_def)
qed

lemma num_exp_cast: "is_int k \<Longrightarrow> num_exp (cast_num k) < 2047"
  using cast_num_fields(2,4) [of k]
  by (cases "k = 0") (auto simp: cast_num_def zero_fields)

lemma cast_num_not_nan [simp]: "is_int k \<Longrightarrow> \<not> luai_numisnan (cast_num k)"
  using num_exp_cast [of k] by (auto simp: luai_numisnan_def)

lemma number2int_cast [simp]:
  assumes "is_int k"
  shows "number2int (cast_num k) = k"
proof -
  have "num_sign (cast_num k) = (if k < 0 then 1 else 0)"
    using cast_num_fields(1) [OF assms] by (cases "k = 0") (auto simp: cast_num_def zero_fields)
  then show ?thesis
    using assms num_exp_cast [OF assms]
    by (auto simp: number2int_def Let_def num_trunc_cast)
qed

lemma number2int_is_int: "is_int (number2int n)"
  by (auto simp: number2int_def Let_def is_int_def INT_MIN_def INT_MAX_def)

lemma number2int_zero: "num_iszero a \<Longrightarrow> number2int a = 0"
  by (simp add: num_iszero_def number2int_def num_trunc_def is_int_def INT_MIN_def INT_MAX_def)

lemma luai_numeq_refl: "\<not> luai_numisnan a \<Longrightarrow> luai_numeq a a"
  by (simp add: luai_numeq_def)

lemma luai_numeq_sym: "luai_numeq a b \<longleftrightarrow> luai_numeq b a"
  by (auto simp: luai_numeq_def)

lemma luai_numeq_trans: "luai_numeq a b \<Longrightarrow> luai_numeq b c \<Longrightarrow> luai_numeq a c"
  by (auto simp: luai_numeq_def)

lemma luai_numeq_number2int: "luai_numeq a b \<Longrightarrow> number2int a = number2int b"
  by (auto simp: luai_numeq_def number2int_zero)

lemma luai_numeq_cast_iff [simp]:
  "is_int j \<Longrightarrow> is_int k \<Longrightarrow> luai_numeq (cast_num j) (cast_num k) \<longleftrightarrow> j = k"
  by (metis cast_num_not_nan luai_numeq_number2int luai_numeq_refl number2int_cast)

lemma num_iszero_cast_0 [simp]: "cast_num 0 = 0" "luai_numeq 0 0"
  by (simp_all add: cast_num_def luai_numeq_def luai_numisnan_def zero_fields)

text \<open>The order agrees with equality.\<close>

lemma num_ord_eq: "num_ord a = num_ord b \<longleftrightarrow> a = b \<or> num_iszero a \<and> num_iszero b"
proof -
  have z: "num_iszero n \<longleftrightarrow> unat n mod 2 ^ 63 = 0" for n
  proof -
    have "unat n mod 2 ^ 63 = num_exp n * 2 ^ 52 + num_man n"
      using mod_mult2_eq [of "unat n" "2 ^ 52" "2 ^ 11"] by (simp add: num_exp_def num_man_def)
    then show ?thesis by (auto simp: num_iszero_def)
  qed
  have w: "unat n = num_sign n * 2 ^ 63 + unat n mod 2 ^ 63" for n by (simp add: num_sign_def)
  have s: "num_sign n = 0 \<or> num_sign n = 1" for n using num_sign_lt [of n] by linarith
  have "a = b" if "num_sign a = num_sign b" "unat a mod 2 ^ 63 = unat b mod 2 ^ 63"
  proof -
    have "unat a = unat b" using w [of a] w [of b] that by simp
    then show ?thesis by (simp only: word_unat_eq_iff)
  qed
  then show ?thesis using s [of a] s [of b] unfolding z num_ord_def by auto
qed

lemma luai_numle_less_eq: "luai_numle a b \<longleftrightarrow> luai_numlt a b \<or> luai_numeq a b"
  using num_ord_eq [of a b] by (auto simp: luai_numle_def luai_numlt_def luai_numeq_def order_le_less)

end
