(* ===== verification/LObject.thy ===== *)
theory LObject
  imports LNumber
begin

text \<open>
  The data model of src/lua-5.1.5/src/lobject.h and the generic functions of lobject.c.

  A string object is represented by its contents: strings are immutable and interned, so the
  address comparison of the C code is equality of contents; theory LString models the string
  table with addresses and proves exactly that.  The other collectable objects are represented
  by their address.  Dead keys (\<^verbatim>\<open>LUA_TDEADKEY\<close>) occur as keys of table nodes only.
\<close>

type_synonym ptr = u64

datatype GCObject =
    GStr lstr
  | GTable ptr
  | GFunction ptr
  | GUserdata ptr
  | GThread ptr

datatype TValue =
    VNil
  | VBoolean int
  | VLightUserdata ptr
  | VNumber lua_Number
  | VGC GCObject
  | VDeadKey GCObject

section \<open>Tags\<close>

fun gctype :: "GCObject \<Rightarrow> int" where
  "gctype (GStr _) = 4"
| "gctype (GTable _) = 5"
| "gctype (GFunction _) = 6"
| "gctype (GUserdata _) = 7"
| "gctype (GThread _) = 8"

fun ttype :: "TValue \<Rightarrow> int" where
  "ttype VNil = 0"
| "ttype (VBoolean _) = 1"
| "ttype (VLightUserdata _) = 2"
| "ttype (VNumber _) = 3"
| "ttype (VGC g) = gctype g"
| "ttype (VDeadKey _) = 11"

fun ttisnil :: "TValue \<Rightarrow> bool" where
  "ttisnil VNil = True"
| "ttisnil _ = False"

fun ttisnumber :: "TValue \<Rightarrow> bool" where
  "ttisnumber (VNumber _) = True"
| "ttisnumber _ = False"

fun iscollectable :: "TValue \<Rightarrow> bool" where
  "iscollectable (VGC _) = True"
| "iscollectable (VDeadKey _) = True"
| "iscollectable _ = False"

fun l_isfalse :: "TValue \<Rightarrow> bool" where
  "l_isfalse VNil = True"
| "l_isfalse (VBoolean b) = (b = 0)"
| "l_isfalse _ = False"

lemma ttisnil_iff [simp]: "ttisnil v \<longleftrightarrow> v = VNil"
  by (cases v) auto

lemma ttisnil_ttype: "ttisnil v \<longleftrightarrow> ttype v = 0"
  by (cases v rule: ttype.cases; simp) (metis GCObject.exhaust gctype.simps zero_neq_numeral)

section \<open>Raw equality\<close>

fun luaO_rawequalObj :: "TValue \<Rightarrow> TValue \<Rightarrow> bool" where
  "luaO_rawequalObj VNil VNil = True"
| "luaO_rawequalObj (VNumber a) (VNumber b) = luai_numeq a b"
| "luaO_rawequalObj (VBoolean a) (VBoolean b) = (a = b)"
| "luaO_rawequalObj (VLightUserdata a) (VLightUserdata b) = (a = b)"
| "luaO_rawequalObj (VGC a) (VGC b) = (gctype a = gctype b \<and> a = b)"
| "luaO_rawequalObj (VDeadKey a) (VDeadKey b) = (a = b)"
| "luaO_rawequalObj _ _ = False"

lemma rawequal_ttype: "luaO_rawequalObj a b \<Longrightarrow> ttype a = ttype b"
  by (cases "(a, b)" rule: luaO_rawequalObj.cases) auto

text \<open>NaN is the only value that is not equal to itself.\<close>

definition isnan :: "TValue \<Rightarrow> bool" where
  "isnan v = (case v of VNumber n \<Rightarrow> luai_numisnan n | _ \<Rightarrow> False)"

lemma rawequal_refl_iff: "luaO_rawequalObj a a \<longleftrightarrow> \<not> isnan a"
  by (cases a) (auto simp: isnan_def luai_numeq_def)

lemma rawequal_sym: "luaO_rawequalObj a b \<longleftrightarrow> luaO_rawequalObj b a"
  by (cases "(a, b)" rule: luaO_rawequalObj.cases) (auto simp: luai_numeq_sym)

lemma rawequal_trans: "luaO_rawequalObj a b \<Longrightarrow> luaO_rawequalObj b c \<Longrightarrow> luaO_rawequalObj a c"
  by (cases "(a, b)" rule: luaO_rawequalObj.cases; cases c) (auto intro: luai_numeq_trans)

lemma rawequal_nil [simp]: "luaO_rawequalObj VNil v \<longleftrightarrow> v = VNil" "luaO_rawequalObj v VNil \<longleftrightarrow> v = VNil"
  by (cases v; simp)+

section \<open>Floating point bytes\<close>

text \<open>
  \<^verbatim>\<open>luaO_int2fb\<close> works on \<^verbatim>\<open>unsigned int\<close>: the increment before the shift wraps.
\<close>

function int2fb_loop :: "u32 \<Rightarrow> nat \<Rightarrow> u32 \<times> nat" where
  "int2fb_loop x e = (if 16 \<le> x then int2fb_loop (drop_bit (Suc 0) (x + 1)) (Suc e) else (x, e))"
  by pat_completeness auto

lemma unat_half_succ:
  assumes "unat (x :: u32) < 4294967295"
  shows "unat (drop_bit (Suc 0) (x + 1)) = (unat x + 1) div 2"
proof -
  have "unat (x + 1) = unat x + 1"
    using assms by (simp add: unat_word_ariths)
  then show ?thesis
    by (simp only: unat_drop_bit_eq) (simp add: drop_bit_Suc)
qed

lemma unat_half_succ_less:
  assumes "16 \<le> (x :: u32)"
  shows "unat (drop_bit (Suc 0) (x + 1)) < unat x"
proof (cases "unat x < 4294967295")
  case False
  then have "unat x = unat (4294967295 :: u32)"
    using unsigned_less [of x, where 'a = nat] by simp
  then have "x = 4294967295" by (simp only: word_unat_eq_iff)
  then show ?thesis by simp
next
  case True
  moreover have "16 \<le> unat x" using assms by (simp add: word_le_nat_alt)
  ultimately show ?thesis by (simp add: unat_half_succ)
qed

termination int2fb_loop
  by (relation "measure (\<lambda>(x, e). unat x)") (auto simp: unat_half_succ_less)

declare int2fb_loop.simps [simp del]

definition luaO_int2fb :: "u32 \<Rightarrow> int" where
  "luaO_int2fb x =
     (let (x, e) = int2fb_loop x 0
      in if unat x < 8 then uint x else or (push_bit 3 (int e + 1)) (uint x - 8))"

definition luaO_fb2int :: "int \<Rightarrow> int" where
  "luaO_fb2int x =
     (let e = and (drop_bit 3 x) 31
      in if e = 0 then x else push_bit (nat (e - 1)) (and x 7 + 8))"

text \<open>
  The loop keeps \<open>x * 2^e\<close> at or above the value it started from and adds less than \<open>2^e\<close>.
\<close>

lemma int2fb_loop_spec:
  assumes "int2fb_loop x e = (m, e')" "unat x < 4294967295" "e \<le> 29" "unat x \<le> 2 ^ (32 - e)"
  shows "e \<le> e' \<and> unat m < 16 \<and> (e < e' \<longrightarrow> 8 \<le> unat m) \<and> e' \<le> 29
    \<and> unat x * 2 ^ e \<le> unat m * 2 ^ e'
    \<and> unat m * 2 ^ e' + 2 ^ e \<le> unat x * 2 ^ e + 2 ^ e'"
  using assms
proof (induction x e arbitrary: m e' rule: int2fb_loop.induct)
  case (1 x e)
  show ?case
  proof (cases "16 \<le> x")
    case False
    with "1.prems"(1) have "m = x" "e' = e"
      by (auto simp: int2fb_loop.simps [of x e])
    with False "1.prems" show ?thesis
      by (simp add: not_le word_less_nat_alt)
  next
    case True
    define y where "y = drop_bit (Suc 0) (x + 1)"
    have y: "unat y = (unat x + 1) div 2"
      using "1.prems"(2) by (simp add: y_def unat_half_succ)
    have x16: "16 \<le> unat x"
      using True by (simp add: word_le_nat_alt)
    have call: "int2fb_loop y (Suc e) = (m, e')"
      using "1.prems"(1) True by (simp add: int2fb_loop.simps [of x e] y_def)
    have "e \<noteq> 29" using x16 "1.prems"(4) by auto
    with "1.prems"(3) have e: "e \<le> 28" by simp
    then have "(2::nat) ^ (32 - e) = 2 * 2 ^ (32 - Suc e)"
      by (simp flip: power_Suc add: Suc_diff_Suc)
    with y "1.prems"(4) have "unat y \<le> 2 ^ (32 - Suc e)" by simp
    moreover have "unat y < 4294967295" using y "1.prems"(2) x16 by simp
    ultimately have IH: "Suc e \<le> e' \<and> unat m < 16 \<and> (Suc e < e' \<longrightarrow> 8 \<le> unat m) \<and> e' \<le> 29
      \<and> unat y * 2 ^ Suc e \<le> unat m * 2 ^ e'
      \<and> unat m * 2 ^ e' + 2 ^ Suc e \<le> unat y * 2 ^ Suc e + 2 ^ e'"
      using "1.IH" [OF True, folded y_def] call e by (simp add: y_def)
    have m8: "8 \<le> unat m"
    proof (cases "Suc e < e'")
      case False
      with IH have "e' = Suc e" by simp
      then have "unat y * 2 ^ e' \<le> unat m * 2 ^ e'" using IH by simp
      then have "unat y \<le> unat m" by simp
      with y x16 show ?thesis by simp
    qed (use IH in simp)
    have "unat x * 2 ^ e \<le> (unat y * 2) * 2 ^ e"
      using y by (intro mult_right_mono) auto
    also have "\<dots> \<le> unat m * 2 ^ e'"
      using IH by (simp add: mult.assoc)
    finally have "unat x * 2 ^ e \<le> unat m * 2 ^ e'" .
    moreover have "(unat y * 2) * 2 ^ e \<le> (unat x + 1) * 2 ^ e"
      using y by (intro mult_right_mono) auto
    ultimately show ?thesis
      using IH m8 by (auto simp: algebra_simps)
  qed
qed

lemma fb2int_small: "0 \<le> x \<Longrightarrow> x < 8 \<Longrightarrow> luaO_fb2int x = x"
  by (simp add: luaO_fb2int_def drop_bit_eq_div)

lemma or_shift3: "0 \<le> r \<Longrightarrow> r < 8 \<Longrightarrow> or (push_bit 3 q) r = q * 8 + (r :: int)"
proof -
  assume r: "0 \<le> r" "r < 8"
  then have t: "r = take_bit 3 r" by (simp add: take_bit_int_eq_self)
  have "and (push_bit 3 q) r = 0"
    by (subst t, rule bit_eqI) (auto simp: bit_and_iff bit_push_bit_iff bit_take_bit_iff)
  then show ?thesis
    by (simp add: disjunctive_add_eq_or [symmetric] push_bit_eq_mult)
qed

lemma fb2int_pack:
  assumes "0 < e" "e \<le> 31" "0 \<le> r" "r < 8"
  shows "luaO_fb2int (int e * 8 + r) = (r + 8) * 2 ^ (e - 1)"
proof -
  have "and (drop_bit 3 (int e * 8 + r)) 31 = (int e * 8 + r) div 8 mod 32"
    using take_bit_eq_mask [of 5 "drop_bit 3 (int e * 8 + r)"]
    by (simp add: drop_bit_eq_div take_bit_eq_mod mask_eq_exp_minus_1)
  also have "\<dots> = int e" using assms by simp
  finally have e: "and (drop_bit 3 (int e * 8 + r)) 31 = int e" .
  have "and (int e * 8 + r) 7 = (int e * 8 + r) mod 8"
    using take_bit_eq_mask [of 3 "int e * 8 + r"]
    by (simp add: take_bit_eq_mod mask_eq_exp_minus_1)
  then have "and (int e * 8 + r) 7 = r" using assms by simp
  with e assms show ?thesis
    by (simp add: luaO_fb2int_def Let_def push_bit_eq_mult nat_diff_distrib')
qed

text \<open>
  Converting to a floating point byte and back rounds up, by at most one part in seven; the byte fits in eight bits.
\<close>

lemma int2fb_value:
  assumes "int2fb_loop x 0 = (m, e)" "unat x < 4294967295"
  shows "luaO_int2fb x = (if unat m < 8 then int (unat m) else int (Suc e) * 8 + (int (unat m) - 8))"
    and "luaO_fb2int (luaO_int2fb x) = int (unat m * 2 ^ e)"
proof -
  from int2fb_loop_spec [OF assms] have s: "unat m < 16" "0 < e \<longrightarrow> 8 \<le> unat m" "e \<le> 29"
    using assms(2) by auto
  show v: "luaO_int2fb x = (if unat m < 8 then int (unat m) else int (Suc e) * 8 + (int (unat m) - 8))"
  proof (cases "unat m < 8")
    case False
    then have "or (push_bit 3 (int e + 1)) (uint m - 8) = (int e + 1) * 8 + (uint m - 8)"
      using s(1) by (intro or_shift3) (unfold uint_nat, linarith+)
    with False show ?thesis by (simp add: luaO_int2fb_def assms(1))
  qed (simp add: luaO_int2fb_def assms(1))
  show "luaO_fb2int (luaO_int2fb x) = int (unat m * 2 ^ e)"
  proof (cases "unat m < 8")
    case True
    with s have "e = 0" by auto
    with True show ?thesis by (simp add: v fb2int_small del: of_nat_unat)
  next
    case False
    then show ?thesis
      using s fb2int_pack [of "Suc e" "int (unat m) - 8"] by (simp add: v del: of_nat_unat)
  qed
qed

lemma int2fb_rounds_up:
  assumes "unat x < 4294967295"
  shows "uint x \<le> luaO_fb2int (luaO_int2fb x)"
    and "7 * luaO_fb2int (luaO_int2fb x) \<le> 8 * uint x"
    and "0 \<le> luaO_int2fb x \<and> luaO_int2fb x < 256"
proof -
  obtain m e where l: "int2fb_loop x 0 = (m, e)" by (cases "int2fb_loop x 0")
  note v = int2fb_value [OF l assms]
  from int2fb_loop_spec [OF l assms] have s: "unat m < 16" "0 < e \<longrightarrow> 8 \<le> unat m" "e \<le> 29"
    "unat x \<le> unat m * 2 ^ e" "unat m * 2 ^ e + 1 \<le> unat x + 2 ^ e"
    using assms by auto
  show "uint x \<le> luaO_fb2int (luaO_int2fb x)"
    using s(4) unfolding v(2) by (metis of_nat_le_iff uint_nat)
  have "7 * (unat m * 2 ^ e) \<le> 8 * unat x"
  proof (cases "e = 0")
    case True
    with s show ?thesis by simp
  next
    case False
    with s have "8 * 2 ^ e \<le> unat m * 2 ^ e" by simp
    with s(5) show ?thesis by linarith
  qed
  then have "int (7 * (unat m * 2 ^ e)) \<le> int (8 * unat x)"
    by (simp only: of_nat_le_iff)
  then show "7 * luaO_fb2int (luaO_int2fb x) \<le> 8 * uint x"
    unfolding v(2) by simp
  show "0 \<le> luaO_int2fb x \<and> luaO_int2fb x < 256"
    using s unfolding v(1) by (auto simp del: of_nat_unat)
qed

section \<open>Base two logarithm\<close>

definition log_2 :: "int list" where
  "log_2 =
  [0, 1, 2, 2, 3, 3, 3, 3, 4, 4, 4, 4, 4, 4, 4, 4,
   5, 5, 5, 5, 5, 5, 5, 5, 5, 5, 5, 5, 5, 5, 5, 5,
   6, 6, 6, 6, 6, 6, 6, 6, 6, 6, 6, 6, 6, 6, 6, 6,
   6, 6, 6, 6, 6, 6, 6, 6, 6, 6, 6, 6, 6, 6, 6, 6,
   7, 7, 7, 7, 7, 7, 7, 7, 7, 7, 7, 7, 7, 7, 7, 7,
   7, 7, 7, 7, 7, 7, 7, 7, 7, 7, 7, 7, 7, 7, 7, 7,
   7, 7, 7, 7, 7, 7, 7, 7, 7, 7, 7, 7, 7, 7, 7, 7,
   7, 7, 7, 7, 7, 7, 7, 7, 7, 7, 7, 7, 7, 7, 7, 7,
   8, 8, 8, 8, 8, 8, 8, 8, 8, 8, 8, 8, 8, 8, 8, 8,
   8, 8, 8, 8, 8, 8, 8, 8, 8, 8, 8, 8, 8, 8, 8, 8,
   8, 8, 8, 8, 8, 8, 8, 8, 8, 8, 8, 8, 8, 8, 8, 8,
   8, 8, 8, 8, 8, 8, 8, 8, 8, 8, 8, 8, 8, 8, 8, 8,
   8, 8, 8, 8, 8, 8, 8, 8, 8, 8, 8, 8, 8, 8, 8, 8,
   8, 8, 8, 8, 8, 8, 8, 8, 8, 8, 8, 8, 8, 8, 8, 8,
   8, 8, 8, 8, 8, 8, 8, 8, 8, 8, 8, 8, 8, 8, 8, 8,
   8, 8, 8, 8, 8, 8, 8, 8, 8, 8, 8, 8, 8, 8, 8, 8]"

function log2_loop :: "u32 \<Rightarrow> int \<Rightarrow> int" where
  "log2_loop x l =
     (if 256 \<le> x then log2_loop (drop_bit 8 x) (l + 8) else l + log_2 ! unat x)"
  by pat_completeness auto

lemma unat_shr8: "unat (drop_bit 8 (x :: u32)) = unat x div 256"
  unfolding unat_drop_bit_eq by (simp add: drop_bit_eq_div)

termination log2_loop
  by (relation "measure (\<lambda>(x, l). unat x)") (auto simp: unat_shr8 word_le_nat_alt)

declare log2_loop.simps [simp del]

definition luaO_log2 :: "u32 \<Rightarrow> int" where
  "luaO_log2 x = log2_loop x (- 1)"

definition ceillog2 :: "int \<Rightarrow> int" where
  "ceillog2 x = luaO_log2 (word_of_int (x - 1)) + 1"

lemma log_2_length: "length log_2 = 256"
  by (simp add: log_2_def)

lemma log_2_row:
  "list_all (\<lambda>(i, v). 1 \<le> v \<and> 2 ^ nat (v - 1) \<le> i \<and> i < 2 ^ nat v) (zip [1..<256] (tl log_2))"
  by code_simp

lemma log_2_bounds:
  assumes "0 < i" "i < 256"
  shows "1 \<le> log_2 ! i" "2 ^ nat (log_2 ! i - 1) \<le> i" "i < 2 ^ nat (log_2 ! i)"
proof -
  have "(i, log_2 ! i) \<in> set (zip [1..<256] (tl log_2))"
    using assms by (auto simp: in_set_zip nth_tl log_2_length intro!: exI [of _ "i - 1"])
  with log_2_row have "1 \<le> log_2 ! i \<and> 2 ^ nat (log_2 ! i - 1) \<le> i \<and> i < 2 ^ nat (log_2 ! i)"
    unfolding list_all_iff by blast
  then show "1 \<le> log_2 ! i" "2 ^ nat (log_2 ! i - 1) \<le> i" "i < 2 ^ nat (log_2 ! i)"
    by simp_all
qed

lemma log2_loop_spec:
  assumes "0 < unat x"
  shows "\<exists>k. log2_loop x l = l + 1 + int k \<and> 2 ^ k \<le> unat x \<and> unat x < 2 ^ Suc k"
  using assms
proof (induction x l rule: log2_loop.induct)
  case (1 x l)
  show ?case
  proof (cases "256 \<le> x")
    case False
    then have lt: "unat x < 256" by (simp add: word_le_nat_alt)
    note b = log_2_bounds [OF "1.prems" lt]
    obtain k where k: "log_2 ! unat x = 1 + int k"
      using b(1) by (metis add.commute diff_add_cancel nonneg_int_cases diff_ge_0_iff_ge)
    then have "nat (log_2 ! unat x - 1) = k" "nat (log_2 ! unat x) = Suc k" by simp_all
    with b k False show ?thesis
      by (intro exI [of _ k]) (simp add: log2_loop.simps [of x l])
  next
    case True
    then have "256 \<le> unat x" by (simp add: word_le_nat_alt)
    moreover from this have "0 < unat (drop_bit 8 x)"
      by (simp add: unat_shr8 div_greater_zero_iff)
    ultimately obtain k where k: "log2_loop (drop_bit 8 x) (l + 8) = l + 8 + 1 + int k"
      "2 ^ k \<le> unat x div 256" "unat x div 256 < 2 ^ Suc k"
      using "1.IH" [OF True] by (auto simp: unat_shr8)
    then have "2 ^ k * 256 \<le> unat x" "unat x < 2 ^ Suc k * 256"
      by (simp_all add: less_eq_div_iff_mult_less_eq div_less_iff_less_mult)
    then show ?thesis
      using True k(1) by (intro exI [of _ "k + 8"]) (simp add: log2_loop.simps [of x l] power_add)
  qed
qed

lemma luaO_log2_0: "luaO_log2 0 = - 1"
  by (simp add: luaO_log2_def log2_loop.simps log_2_def)

text \<open>
  \<^verbatim>\<open>ceillog2\<close> of a positive int is the least exponent of a power of two that reaches it.
\<close>

lemma ceillog2_spec:
  assumes "1 \<le> x" "x \<le> 2 ^ 31"
  shows "0 \<le> ceillog2 x" "ceillog2 x \<le> 31" "x \<le> 2 ^ nat (ceillog2 x)"
    and "1 \<le> ceillog2 x \<Longrightarrow> 2 ^ nat (ceillog2 x - 1) < x"
proof -
  have w: "unat (word_of_int w :: u32) = nat w" if "0 \<le> w" "w < 2 ^ 32" for w
    using that by (simp add: unsigned_of_int take_bit_int_eq_self)
  have u: "unat (word_of_int (x - 1) :: u32) = nat (x - 1)"
    using assms by (intro w) auto
  have "0 \<le> ceillog2 x \<and> ceillog2 x \<le> 31 \<and> x \<le> 2 ^ nat (ceillog2 x) \<and>
    (1 \<le> ceillog2 x \<longrightarrow> 2 ^ nat (ceillog2 x - 1) < x)"
  proof (cases "x = 1")
    case True
    then show ?thesis by (simp add: ceillog2_def luaO_log2_0)
  next
    case False
    with assms u have pos: "0 < unat (word_of_int (x - 1) :: u32)" by simp
    from log2_loop_spec [OF this, of "- 1"] obtain k
      where k: "luaO_log2 (word_of_int (x - 1)) = int k"
        "2 ^ k \<le> nat (x - 1)" "nat (x - 1) < 2 ^ Suc k"
      unfolding u luaO_log2_def by auto
    have c: "ceillog2 x = int (Suc k)" using k(1) by (simp add: ceillog2_def)
    have "nat (x - 1) < 2 ^ 31" using assms by simp
    with k(2) have "(2::nat) ^ k < 2 ^ 31" by (rule le_less_trans)
    then have "k < 31" by (simp only: power_strict_increasing_iff [OF one_less_numeral_iff [THEN iffD2]] semiring_norm)
    moreover have "int (2 ^ k) \<le> x - 1" "x - 1 < int (2 ^ Suc k)"
      using k(2,3) assms by linarith+
    ultimately show ?thesis unfolding c by (auto simp: nat_add_distrib)
  qed
  then show "0 \<le> ceillog2 x" "ceillog2 x \<le> 31" "x \<le> 2 ^ nat (ceillog2 x)"
    "1 \<le> ceillog2 x \<Longrightarrow> 2 ^ nat (ceillog2 x - 1) < x"
    by blast+
qed

end
