(* ===== verification/LString.thy ===== *)
theory LString
  imports LObject "HOL-Library.Multiset"
begin

text \<open>
  The string table of src/lua-5.1.5/src/lstring.c: a vector of buckets, each a chain of string
  objects.  An object has an address; \<^verbatim>\<open>luaS_newlstr\<close> returns the object that already holds the
  contents, resurrecting it when the collector had condemned it, or links a new one.  The
  address of a new block comes from the allocator and is a parameter of the model.

  The result used everywhere else is \<open>strings_interned\<close>: two strings of the table have the same
  address exactly when they have the same contents.
\<close>

section \<open>String objects and the table\<close>

record TString =
  ts_addr :: ptr
  ts_marked :: lu_byte
  ts_reserved :: lu_byte
  ts_hash :: u32
  ts_str :: lstr

record stringtable =
  st_hash :: "TString list list"
  st_nuse :: nat
  st_size :: nat

record global_State =
  strt :: stringtable
  currentwhite :: lu_byte
  gcstate :: nat

definition GCSsweepstring :: nat where
  "GCSsweepstring = 2"

definition WHITEBITS :: lu_byte where
  "WHITEBITS = 3"

definition otherwhite :: "global_State \<Rightarrow> lu_byte" where
  "otherwhite g = currentwhite g XOR WHITEBITS"

definition isdead :: "global_State \<Rightarrow> TString \<Rightarrow> bool" where
  "isdead g v \<longleftrightarrow> ts_marked v AND otherwhite g AND WHITEBITS \<noteq> 0"

definition changewhite :: "TString \<Rightarrow> TString" where
  "changewhite v = v\<lparr>ts_marked := ts_marked v XOR WHITEBITS\<rparr>"

definition luaC_white :: "global_State \<Rightarrow> lu_byte" where
  "luaC_white g = currentwhite g AND WHITEBITS"

text \<open>\<^verbatim>\<open>lmod\<close>: the remainder by a power of two.\<close>

definition lmod :: "u32 \<Rightarrow> nat \<Rightarrow> nat" where
  "lmod s sz = unat (s AND word_of_nat (sz - 1))"

section \<open>Operations\<close>

text \<open>The hash reads at most about 32 characters of a long string.\<close>

function hash_loop :: "lstr \<Rightarrow> nat \<Rightarrow> nat \<Rightarrow> u32 \<Rightarrow> u32" where
  "hash_loop str step l1 h =
     (if step = 0 \<or> l1 < step then h
      else hash_loop str step (l1 - step)
             (h XOR (push_bit 5 h + drop_bit 2 h + ucast (str ! (l1 - 1)))))"
  by pat_completeness auto
termination by (relation "measure (\<lambda>(str, step, l1, h). l1)") auto

declare hash_loop.simps [simp del]

definition luaS_hash :: "lstr \<Rightarrow> u32" where
  "luaS_hash str =
     (let l = length str in hash_loop str (l div 32 + 1) l (word_of_nat l))"

text \<open>Re-chaining one old bucket: each node goes to the front of its new bucket.\<close>

fun rehash_bucket :: "nat \<Rightarrow> TString list \<Rightarrow> TString list list \<Rightarrow> TString list list" where
  "rehash_bucket newsize [] nh = nh"
| "rehash_bucket newsize (p # ps) nh =
     (let h1 = lmod (ts_hash p) newsize
      in rehash_bucket newsize ps (nh[h1 := p # nh ! h1]))"

definition luaS_resize :: "global_State \<Rightarrow> nat \<Rightarrow> global_State" where
  "luaS_resize g newsize =
     (if gcstate g = GCSsweepstring then g
      else let tb = strt g;
               newhash = fold (rehash_bucket newsize) (st_hash tb) (replicate newsize [])
           in g\<lparr>strt := tb\<lparr>st_hash := newhash, st_size := newsize\<rparr>\<rparr>)"

definition newlstr :: "global_State \<Rightarrow> ptr \<Rightarrow> lstr \<Rightarrow> u32 \<Rightarrow> global_State \<times> TString" where
  "newlstr g addr str h =
     (let ts = \<lparr>ts_addr = addr, ts_marked = luaC_white g, ts_reserved = 0,
                ts_hash = h, ts_str = str\<rparr>;
          tb = strt g;
          h1 = lmod h (st_size tb);
          tb' = tb\<lparr>st_hash := (st_hash tb)[h1 := ts # st_hash tb ! h1],
                   st_nuse := st_nuse tb + 1\<rparr>;
          g' = g\<lparr>strt := tb'\<rparr>
      in (if st_nuse tb' > st_size tb' \<and> int (st_size tb') \<le> MAX_INT div 2
          then luaS_resize g' (st_size tb' * 2) else g', ts))"

text \<open>
  The search of one bucket: \<open>Some\<close> of the bucket with the object resurrected if it was dead,
  and the object.
\<close>

fun find_bucket :: "global_State \<Rightarrow> lstr \<Rightarrow> TString list \<Rightarrow> (TString list \<times> TString) option" where
  "find_bucket g str [] = None"
| "find_bucket g str (ts # b) =
     (if length (ts_str ts) = length str \<and> str = ts_str ts
      then let ts' = (if isdead g ts then changewhite ts else ts) in Some (ts' # b, ts')
      else map_option (\<lambda>(b', r). (ts # b', r)) (find_bucket g str b))"

definition luaS_newlstr :: "global_State \<Rightarrow> ptr \<Rightarrow> lstr \<Rightarrow> global_State \<times> TString" where
  "luaS_newlstr g addr str =
     (let h = luaS_hash str; tb = strt g; i = lmod h (st_size tb)
      in case find_bucket g str (st_hash tb ! i) of
           Some (b, ts) \<Rightarrow> (g\<lparr>strt := tb\<lparr>st_hash := (st_hash tb)[i := b]\<rparr>\<rparr>, ts)
         | None \<Rightarrow> newlstr g addr str h)"

section \<open>The invariant\<close>

definition strings :: "stringtable \<Rightarrow> TString list" where
  "strings tb = concat (st_hash tb)"

definition hash_ok :: "TString \<Rightarrow> bool" where
  "hash_ok ts \<longleftrightarrow> ts_hash ts = luaS_hash (ts_str ts)"

definition buckets_ok :: "nat \<Rightarrow> TString list list \<Rightarrow> bool" where
  "buckets_ok n bs \<longleftrightarrow> length bs = n \<and>
     (\<forall>i < n. \<forall>ts \<in> set (bs ! i). hash_ok ts \<and> lmod (ts_hash ts) n = i)"

definition strt_inv :: "stringtable \<Rightarrow> bool" where
  "strt_inv tb \<longleftrightarrow>
     (\<exists>k < 31. st_size tb = 2 ^ k) \<and>
     buckets_ok (st_size tb) (st_hash tb) \<and>
     distinct (map ts_str (strings tb)) \<and>
     distinct (map ts_addr (strings tb)) \<and>
     st_nuse tb = length (strings tb)"

section \<open>Lemmas\<close>

lemma lmod_less: "0 < sz \<Longrightarrow> sz \<le> 2 ^ 31 \<Longrightarrow> lmod s sz < sz"
proof -
  assume s: "0 < sz" "sz \<le> 2 ^ 31"
  have "unat (s AND word_of_nat (sz - 1)) \<le> unat (word_of_nat (sz - 1) :: u32)"
    by (simp add: word_and_le1 flip: word_le_nat_alt)
  also have "\<dots> = sz - 1"
    using s by (simp add: unsigned_of_nat take_bit_nat_eq_self del: of_nat_diff)
  finally show ?thesis using s by (simp add: lmod_def)
qed

lemma mset_concat_upd:
  assumes "i < length bs"
  shows "mset (concat (bs[i := x # bs ! i])) = add_mset x (mset (concat bs))"
  using assms by (induction bs arbitrary: i) (auto split: nat.split)

lemma set_concat_upd:
  assumes "i < length bs" "f ` set b = f ` set (bs ! i)"
  shows "f ` set (concat (bs[i := b])) = f ` set (concat bs)"
  using assms
proof (induction bs arbitrary: i)
  case (Cons c bs)
  then show ?case by (cases i) (auto simp: image_Un)
qed simp

lemma map_concat_upd:
  assumes "i < length bs" "map f b = map f (bs ! i)"
  shows "map f (concat (bs[i := b])) = map f (concat bs)"
  using assms
proof (induction bs arbitrary: i)
  case (Cons c bs)
  then show ?case by (cases i) auto
qed simp

text \<open>Rehashing keeps the objects and puts each where its hash says.\<close>

lemma rehash_bucket_spec:
  assumes "0 < n" "n \<le> 2 ^ 31" "buckets_ok n nh" "\<forall>ts \<in> set b. hash_ok ts"
  shows "buckets_ok n (rehash_bucket n b nh) \<and>
    mset (concat (rehash_bucket n b nh)) = mset b + mset (concat nh)"
  using assms(3,4)
proof (induction b arbitrary: nh)
  case (Cons p b)
  define h where "h = lmod (ts_hash p) n"
  have h: "h < length nh" "length nh = n"
    using Cons.prems(1) lmod_less [OF assms(1,2)] by (auto simp: h_def buckets_ok_def)
  have "buckets_ok n (nh[h := p # nh ! h])"
    using Cons.prems h by (auto simp: buckets_ok_def nth_list_update h_def)
  with Cons.IH Cons.prems(2) h(1) show ?case
    by (simp add: Let_def mset_concat_upd flip: h_def)
qed simp

lemma rehash_all_spec:
  assumes "0 < n" "n \<le> 2 ^ 31" "buckets_ok n nh" "\<forall>ts \<in> set (concat bs). hash_ok ts"
  shows "buckets_ok n (fold (rehash_bucket n) bs nh) \<and>
    mset (concat (fold (rehash_bucket n) bs nh)) = mset (concat bs) + mset (concat nh)"
  using assms(3,4)
proof (induction bs arbitrary: nh)
  case (Cons b bs)
  from rehash_bucket_spec [OF assms(1,2) Cons.prems(1), of b] Cons.prems(2)
  have "buckets_ok n (rehash_bucket n b nh)"
    "mset (concat (rehash_bucket n b nh)) = mset b + mset (concat nh)" by auto
  with Cons.IH Cons.prems(2) show ?case by simp
qed simp

lemma buckets_ok_hash: "buckets_ok n bs \<Longrightarrow> ts \<in> set (concat bs) \<Longrightarrow> hash_ok ts"
  by (fastforce simp: buckets_ok_def in_set_conv_nth [where xs = bs])

lemma buckets_ok_empty: "buckets_ok n (replicate n [])"
  by (simp add: buckets_ok_def)

lemma mset_distinct_map:
  "mset xs = mset ys \<Longrightarrow> distinct (map f xs) = distinct (map f ys)"
  by (metis mset_eq_imp_distinct_iff mset_map)

lemma luaS_resize_inv:
  assumes "strt_inv (strt g)" "k < 31"
  shows "strt_inv (strt (luaS_resize g (2 ^ k)))"
    and "mset (strings (strt (luaS_resize g (2 ^ k)))) = mset (strings (strt g))"
proof -
  have n: "0 < (2::nat) ^ k" "(2::nat) ^ k \<le> 2 ^ 31"
    using assms(2) power_increasing [of k 31 "2::nat"] by simp_all
  have hs: "\<forall>ts \<in> set (concat (st_hash (strt g))). hash_ok ts"
    using assms(1) buckets_ok_hash unfolding strt_inv_def by blast
  note r = rehash_all_spec [OF n buckets_ok_empty hs]
  show m: "mset (strings (strt (luaS_resize g (2 ^ k)))) = mset (strings (strt g))"
    using r by (simp add: luaS_resize_def strings_def Let_def)
  let ?t = "strt (luaS_resize g (2 ^ k))"
  have "st_nuse ?t = st_nuse (strt g)"
    by (simp add: luaS_resize_def Let_def)
  moreover have "(\<exists>k < 31. st_size ?t = 2 ^ k) \<and> buckets_ok (st_size ?t) (st_hash ?t)"
    using assms r by (auto simp: luaS_resize_def Let_def strt_inv_def)
  moreover have "length (strings ?t) = length (strings (strt g))"
    using arg_cong [OF m, of size] by simp
  ultimately show "strt_inv ?t"
    using assms(1) mset_distinct_map [OF m, of ts_str] mset_distinct_map [OF m, of ts_addr]
    by (simp add: strt_inv_def)
qed

definition addr_fresh :: "ptr \<Rightarrow> stringtable \<Rightarrow> bool" where
  "addr_fresh addr tb \<longleftrightarrow> addr \<notin> ts_addr ` set (strings tb)"

lemma strt_inv_bucket:
  assumes "strt_inv tb"
  shows "lmod h (st_size tb) < length (st_hash tb)" "length (st_hash tb) = st_size tb"
proof -
  from assms obtain k where k: "k < 31" "st_size tb = 2 ^ k"
    by (auto simp: strt_inv_def)
  then have "st_size tb \<le> 2 ^ 31"
    using power_increasing [of k 31 "2::nat"] by simp
  with k show "lmod h (st_size tb) < length (st_hash tb)" "length (st_hash tb) = st_size tb"
    using assms lmod_less [of "st_size tb" h] by (auto simp: strt_inv_def buckets_ok_def)
qed

lemma strings_upd_mset:
  "i < length (st_hash tb) \<Longrightarrow>
   mset (strings (tb\<lparr>st_hash := (st_hash tb)[i := x # st_hash tb ! i], st_nuse := n\<rparr>)) =
   add_mset x (mset (strings tb))"
  by (simp add: strings_def mset_concat_upd)

text \<open>Linking a new object.\<close>

lemma link_inv:
  assumes inv: "strt_inv tb" and fresh: "addr_fresh (ts_addr ts) tb"
    and new: "ts_str ts \<notin> ts_str ` set (strings tb)" and hash: "hash_ok ts"
  defines "i \<equiv> lmod (ts_hash ts) (st_size tb)"
  shows "strt_inv (tb\<lparr>st_hash := (st_hash tb)[i := ts # st_hash tb ! i], st_nuse := st_nuse tb + 1\<rparr>)"
    (is "strt_inv ?t")
proof -
  note b = strt_inv_bucket [OF inv]
  have i: "i < length (st_hash tb)" using b(1) by (simp add: i_def)
  note m = strings_upd_mset [OF i, where x = ts and n = "st_nuse tb + 1"]
  have d: "distinct (map f (strings ?t)) \<longleftrightarrow> f ts \<notin> f ` set (strings tb) \<and> distinct (map f (strings tb))" for f
  proof -
    have "mset (strings ?t) = mset (ts # strings tb)" using m by simp
    from mset_distinct_map [OF this, of f] show ?thesis by simp
  qed
  have "buckets_ok (st_size tb) ((st_hash tb)[i := ts # st_hash tb ! i])"
    using inv hash i by (auto simp: strt_inv_def buckets_ok_def nth_list_update i_def)
  moreover have "length (strings ?t) = Suc (length (strings tb))"
    using arg_cong [OF m, of size] by simp
  ultimately show ?thesis
    using inv fresh new d [of ts_str] d [of ts_addr]
    by (simp add: strt_inv_def addr_fresh_def)
qed

lemma newlstr_spec:
  assumes inv: "strt_inv (strt g)" and fresh: "addr_fresh addr (strt g)"
    and new: "str \<notin> ts_str ` set (strings (strt g))"
    and r: "newlstr g addr str (luaS_hash str) = (g', ts)"
  shows "strt_inv (strt g') \<and> mset (strings (strt g')) = add_mset ts (mset (strings (strt g)))
    \<and> ts_addr ts = addr \<and> ts_str ts = str \<and> ts_marked ts = luaC_white g
    \<and> currentwhite g' = currentwhite g"
proof -
  define tb where "tb = strt g"
  define i where "i = lmod (luaS_hash str) (st_size tb)"
  define tb' where "tb' = tb\<lparr>st_hash := (st_hash tb)[i := ts # st_hash tb ! i], st_nuse := st_nuse tb + 1\<rparr>"
  have ts: "ts = \<lparr>ts_addr = addr, ts_marked = luaC_white g, ts_reserved = 0,
                ts_hash = luaS_hash str, ts_str = str\<rparr>"
    using r by (auto simp: newlstr_def Let_def)
  have g': "g' = (if st_nuse tb' > st_size tb' \<and> int (st_size tb') \<le> MAX_INT div 2
          then luaS_resize (g\<lparr>strt := tb'\<rparr>) (st_size tb' * 2) else g\<lparr>strt := tb'\<rparr>)"
    using r by (auto simp: newlstr_def Let_def tb'_def tb_def i_def)
  have inv': "strt_inv tb'"
    using link_inv [of tb ts] assms(1-3) unfolding tb'_def
    by (simp add: tb_def i_def ts hash_ok_def)
  have m': "mset (strings tb') = add_mset ts (mset (strings tb))"
    unfolding tb'_def using inv by (intro strings_upd_mset) (simp add: i_def tb_def strt_inv_bucket(1))
  have cw: "currentwhite g' = currentwhite g"
    unfolding g' by (simp add: luaS_resize_def Let_def)
  have "strt_inv (strt g') \<and> mset (strings (strt g')) = mset (strings tb')"
  proof (cases "st_nuse tb' > st_size tb' \<and> int (st_size tb') \<le> MAX_INT div 2")
    case False
    then have "strt g' = tb'" unfolding g' by auto
    with inv' show ?thesis by simp
  next
    case True
    obtain k where k: "k < 31" "st_size tb' = 2 ^ k"
      using inv' by (auto simp: strt_inv_def)
    have "k \<noteq> 30" using True k by (auto simp: MAX_INT_def INT_MAX_def)
    with k have k': "Suc k < 31" "st_size tb' * 2 = 2 ^ Suc k" by auto
    have "strt (g\<lparr>strt := tb'\<rparr>) = tb'" by simp
    with luaS_resize_inv [of "g\<lparr>strt := tb'\<rparr>", OF _ k'(1)] inv' True show ?thesis
      unfolding g' k'(2) by auto
  qed
  with m' cw ts show ?thesis by (simp add: tb_def)
qed

text \<open>Finding an object changes at most its mark.\<close>

lemma find_bucket_Some:
  assumes "find_bucket g str b = Some (b', ts)"
  shows "map ts_str b' = map ts_str b \<and> map ts_addr b' = map ts_addr b \<and> map ts_hash b' = map ts_hash b"
    and "ts \<in> set b'"
    and "\<exists>ts0 \<in> set b. ts_str ts0 = str \<and> ts = (if isdead g ts0 then changewhite ts0 else ts0)"
proof -
  have "map ts_str b' = map ts_str b \<and> map ts_addr b' = map ts_addr b \<and> map ts_hash b' = map ts_hash b
    \<and> ts \<in> set b'
    \<and> (\<exists>ts0 \<in> set b. ts_str ts0 = str \<and> ts = (if isdead g ts0 then changewhite ts0 else ts0))"
    using assms
  proof (induction b arbitrary: b')
    case (Cons t b)
    show ?case
    proof (cases "str = ts_str t")
      case True
      with Cons.prems show ?thesis by (auto simp: Let_def changewhite_def)
    next
      case False
      with Cons.prems obtain b1 where "find_bucket g str b = Some (b1, ts)" "b' = t # b1"
        by auto
      with Cons.IH show ?thesis by auto
    qed
  qed simp
  then show "map ts_str b' = map ts_str b \<and> map ts_addr b' = map ts_addr b \<and> map ts_hash b' = map ts_hash b"
    and "ts \<in> set b'"
    and "\<exists>ts0 \<in> set b. ts_str ts0 = str \<and> ts = (if isdead g ts0 then changewhite ts0 else ts0)"
    by blast+
qed

lemma changewhite_simps [simp]:
  "ts_str (changewhite v) = ts_str v" "ts_addr (changewhite v) = ts_addr v"
  "ts_hash (changewhite v) = ts_hash v" "ts_marked (changewhite v) = ts_marked v XOR WHITEBITS"
  by (simp_all add: changewhite_def)

lemma find_bucket_None: "find_bucket g str b = None \<longleftrightarrow> str \<notin> ts_str ` set b"
  by (induction b) (auto simp: Let_def)

lemma buckets_ok_map:
  assumes "buckets_ok n bs" "i < n" "map ts_str b = map ts_str (bs ! i)" "map ts_hash b = map ts_hash (bs ! i)"
  shows "buckets_ok n (bs[i := b])"
proof -
  have "hash_ok ts \<and> lmod (ts_hash ts) n = i" if "ts \<in> set b" for ts
  proof -
    from that obtain j where j: "j < length b" "ts = b ! j" by (auto simp: in_set_conv_nth)
    have l: "length b = length (bs ! i)" using assms(3) map_eq_imp_length_eq by blast
    have "ts_str ts = ts_str (bs ! i ! j)" "ts_hash ts = ts_hash (bs ! i ! j)"
      using assms(3,4) j l by (metis nth_map)+
    moreover have "bs ! i ! j \<in> set (bs ! i)" using j l by simp
    then have "hash_ok (bs ! i ! j) \<and> lmod (ts_hash (bs ! i ! j)) n = i"
      using assms(1,2) unfolding buckets_ok_def by blast
    ultimately show ?thesis by (metis hash_ok_def)
  qed
  then show ?thesis
    using assms(1,2) by (auto simp: buckets_ok_def nth_list_update)
qed

text \<open>A string is stored in the bucket its hash names, so searching that bucket decides.\<close>

lemma string_in_bucket:
  assumes "strt_inv tb" "ts \<in> set (strings tb)"
  shows "ts \<in> set (st_hash tb ! lmod (luaS_hash (ts_str ts)) (st_size tb))"
proof -
  from assms(2) obtain i where i: "i < length (st_hash tb)" "ts \<in> set (st_hash tb ! i)"
    by (auto simp: strings_def in_set_conv_nth [where xs = "st_hash tb"])
  with assms(1) have "hash_ok ts" "lmod (ts_hash ts) (st_size tb) = i"
    by (auto simp: strt_inv_def buckets_ok_def)
  with i(2) show ?thesis by (simp add: hash_ok_def)
qed

text \<open>The collector has one current white; a dead object carries the other one.\<close>

definition white_ok :: "global_State \<Rightarrow> bool" where
  "white_ok g \<longleftrightarrow> luaC_white g = 1 \<or> luaC_white g = 2"

lemma and_3: "(x :: lu_byte) AND 3 = of_bool (bit x 0) + 2 * of_bool (bit x 1)"
proof -
  have "x AND 3 = take_bit 2 x"
    by (simp add: take_bit_eq_mask mask_eq_exp_minus_1)
  also have "\<dots> = of_bool (bit x 0) + 2 * of_bool (bit x 1)"
    by (simp add: numeral_2_eq_2 take_bit_Suc bit_0 bit_Suc mod_2_eq_odd)
  finally show ?thesis .
qed

lemma and_3_zero_iff: "(x :: lu_byte) AND 3 = 0 \<longleftrightarrow> \<not> bit x 0 \<and> \<not> bit x 1"
  unfolding and_3 by (cases "bit x 0"; cases "bit x 1"; simp)

lemma bit_3: "bit (3 :: lu_byte) n \<longleftrightarrow> n = 0 \<or> n = 1"
  by (cases n) (auto simp: bit_Suc bit_1_iff)

lemma isdead_iff:
  "isdead g v \<longleftrightarrow> bit (ts_marked v) 0 \<and> \<not> bit (currentwhite g) 0 \<or>
     bit (ts_marked v) 1 \<and> \<not> bit (currentwhite g) 1"
  by (simp add: isdead_def otherwhite_def WHITEBITS_def and_3_zero_iff flip: and.assoc)
    (simp add: bit_simps bit_3)

lemma white_ok_iff: "white_ok g \<longleftrightarrow> bit (currentwhite g) 0 \<noteq> bit (currentwhite g) 1"
  unfolding white_ok_def luaC_white_def WHITEBITS_def and_3
  by (cases "bit (currentwhite g) 0"; cases "bit (currentwhite g) 1"; simp)

lemma changewhite_not_dead: "white_ok g \<Longrightarrow> isdead g v \<Longrightarrow> \<not> isdead g (changewhite v)"
  by (auto simp: isdead_iff white_ok_iff WHITEBITS_def bit_simps bit_3)

lemma new_not_dead: "ts_marked v = luaC_white g \<Longrightarrow> \<not> isdead g v"
  by (auto simp: isdead_iff luaC_white_def WHITEBITS_def bit_simps)

section \<open>Properties\<close>

text \<open>The state after a call: the invariant, the object returned and the other strings.\<close>

lemma newlstr_result:
  assumes inv: "strt_inv (strt g)" and fresh: "addr_fresh addr (strt g)"
    and r: "luaS_newlstr g addr str = (g', ts)"
  shows "strt_inv (strt g') \<and> ts \<in> set (strings (strt g')) \<and> ts_str ts = str
    \<and> currentwhite g' = currentwhite g
    \<and> (\<forall>s0 \<in> set (strings (strt g)). \<exists>s1 \<in> set (strings (strt g')).
          ts_str s1 = ts_str s0 \<and> ts_addr s1 = ts_addr s0)
    \<and> (white_ok g \<longrightarrow> \<not> isdead g' ts)"
proof -
  define tb where "tb = strt g"
  define i where "i = lmod (luaS_hash str) (st_size tb)"
  have i: "i < length (st_hash tb)" "length (st_hash tb) = st_size tb"
    using strt_inv_bucket [of tb] inv by (simp_all add: tb_def i_def)
  show ?thesis
  proof (cases "find_bucket g str (st_hash tb ! i)")
    case None
    have new: "str \<notin> ts_str ` set (strings tb)"
    proof
      assume "str \<in> ts_str ` set (strings tb)"
      then obtain t where "t \<in> set (strings tb)" "ts_str t = str" by auto
      then have "t \<in> set (st_hash tb ! i)"
        using string_in_bucket [of tb t] inv by (simp add: tb_def i_def)
      with None \<open>ts_str t = str\<close> show False by (auto simp: find_bucket_None)
    qed
    have "newlstr g addr str (luaS_hash str) = (g', ts)"
      using r None by (simp add: luaS_newlstr_def Let_def tb_def i_def)
    from newlstr_spec [OF inv fresh new [unfolded tb_def] this]
    have s: "strt_inv (strt g')" "mset (strings (strt g')) = add_mset ts (mset (strings (strt g)))"
      "ts_str ts = str" "ts_marked ts = luaC_white g" "currentwhite g' = currentwhite g" by auto
    have "set (strings (strt g')) = insert ts (set (strings (strt g)))"
      using arg_cong [OF s(2), of set_mset] by simp
    moreover have "\<not> isdead g' ts"
      using new_not_dead [of ts g'] s(4,5) by (simp add: luaC_white_def)
    ultimately show ?thesis using s by auto
  next
    case (Some p)
    obtain b where f: "find_bucket g str (st_hash tb ! i) = Some (b, ts)"
      and g': "g' = g\<lparr>strt := tb\<lparr>st_hash := (st_hash tb)[i := b]\<rparr>\<rparr>"
      using r Some by (cases p) (auto simp: luaS_newlstr_def Let_def tb_def i_def)
    note fs = find_bucket_Some [OF f]
    have m: "map f (strings (strt g')) = map f (strings tb)" if "map f b = map f (st_hash tb ! i)" for f
      unfolding g' using map_concat_upd [OF i(1) that] by (simp add: strings_def)
    have ms: "map ts_str (strings (strt g')) = map ts_str (strings tb)"
      "map ts_addr (strings (strt g')) = map ts_addr (strings tb)"
      using fs(1) by (auto intro: m)
    have "buckets_ok (st_size tb) ((st_hash tb)[i := b])"
      using fs(1) inv i by (intro buckets_ok_map) (auto simp: strt_inv_def tb_def)
    moreover have "length (strings (strt g')) = length (strings tb)"
      using ms(1) map_eq_imp_length_eq by blast
    ultimately have inv': "strt_inv (strt g')"
      using inv ms by (simp add: strt_inv_def tb_def g')
    have mem: "ts \<in> set (strings (strt g'))"
      using fs(2) i by (auto simp: g' strings_def set_conv_nth [where xs = "(st_hash tb)[i := b]"])
    have same: "\<exists>s1 \<in> set (strings (strt g')). ts_str s1 = ts_str s0 \<and> ts_addr s1 = ts_addr s0"
      if "s0 \<in> set (strings tb)" for s0
    proof -
      from that obtain j where j: "j < length (strings tb)" "s0 = strings tb ! j"
        by (auto simp: in_set_conv_nth)
      then have "ts_str (strings (strt g') ! j) = ts_str s0" "ts_addr (strings (strt g') ! j) = ts_addr s0"
        "j < length (strings (strt g'))"
        using ms \<open>length (strings (strt g')) = _\<close> by (metis nth_map)+
      then show ?thesis by (metis nth_mem)
    qed
    have str: "ts_str ts = str" using fs(3) by (auto split: if_splits)
    obtain ts0 where "ts = (if isdead g ts0 then changewhite ts0 else ts0)"
      using fs(3) by blast
    then have "white_ok g \<Longrightarrow> \<not> isdead g ts"
      by (cases "isdead g ts0") (simp_all add: changewhite_not_dead)
    moreover have "isdead g' ts = isdead g ts" by (simp add: isdead_def otherwhite_def g')
    moreover have "currentwhite g' = currentwhite g" by (simp add: g')
    ultimately show ?thesis
      using inv' mem same str unfolding tb_def by blast
  qed
qed

text \<open>Contents decide addresses, and addresses contents.\<close>

lemma strings_interned_table:
  assumes "strt_inv tb" "s \<in> set (strings tb)" "t \<in> set (strings tb)"
  shows "ts_addr s = ts_addr t \<longleftrightarrow> ts_str s = ts_str t"
  using assms by (auto simp: strt_inv_def distinct_map dest: inj_onD)

end
