(* ===== verification/LTable.thy ===== *)
theory LTable
  imports LString
begin

text \<open>
  Lua tables, src/lua-5.1.5/src/ltable.c: an array part and a hash part, a chained scatter
  table with Brent's variation.  The definitions follow the C functions one by one.

  A pointer into the node vector is an index, \<^verbatim>\<open>NULL\<close> is \<open>None\<close>, and the shared
  \<^verbatim>\<open>dummynode\<close> is the node vector \<open>None\<close>.  A function that returns a pointer to a value
  (\<^verbatim>\<open>luaH_get\<close>, \<^verbatim>\<open>luaH_set\<close>) returns a \<open>Slot\<close>, which the caller reads with \<open>slot_val\<close> and
  writes with \<open>slot_set\<close>.  Chain walks take the size of the node vector as fuel; the theory
  LTable_Inv shows that it suffices on every table the operations build.
\<close>

section \<open>State\<close>

record Node =
  i_val :: TValue
  i_key :: TValue
  nk_next :: "nat option"

definition dummynode :: Node where
  "dummynode = \<lparr>i_val = VNil, i_key = VNil, nk_next = None\<rparr>"

record Table =
  flags :: lu_byte
  lsizenode :: nat
  metatable :: "ptr option"
  array :: "TValue list"
  node :: "Node list option"
  lastfree :: int
  sizearray :: nat

definition MAXBITS :: nat where
  "MAXBITS = 26"

definition MAXASIZE :: int where
  "MAXASIZE = 2 ^ MAXBITS"

definition twoto :: "nat \<Rightarrow> nat" where
  "twoto x = 2 ^ x"

definition sizenode :: "Table \<Rightarrow> nat" where
  "sizenode t = twoto (lsizenode t)"

definition nodes :: "Table \<Rightarrow> Node list" where
  "nodes t = (case node t of None \<Rightarrow> [dummynode] | Some ns \<Rightarrow> ns)"

definition gnode :: "Table \<Rightarrow> nat \<Rightarrow> Node" where
  "gnode t i = nodes t ! i"

datatype Slot = NilObject | ArraySlot nat | NodeSlot nat

fun slot_val :: "Table \<Rightarrow> Slot \<Rightarrow> TValue" where
  "slot_val t NilObject = VNil"
| "slot_val t (ArraySlot i) = array t ! i"
| "slot_val t (NodeSlot i) = i_val (gnode t i)"

definition upd_node :: "nat \<Rightarrow> (Node \<Rightarrow> Node) \<Rightarrow> Table \<Rightarrow> Table" where
  "upd_node i f t = t\<lparr>node := map_option (\<lambda>ns. ns[i := f (ns ! i)]) (node t)\<rparr>"

fun slot_set :: "Table \<Rightarrow> Slot \<Rightarrow> TValue \<Rightarrow> Table" where
  "slot_set t NilObject v = t"
| "slot_set t (ArraySlot i) v = t\<lparr>array := (array t)[i := v]\<rparr>"
| "slot_set t (NodeSlot i) v = upd_node i (\<lambda>n. n\<lparr>i_val := v\<rparr>) t"

section \<open>Hashing\<close>

definition hashstr :: "Table \<Rightarrow> lstr \<Rightarrow> nat" where
  "hashstr t s = lmod (luaS_hash s) (sizenode t)"

definition hashboolean :: "Table \<Rightarrow> int \<Rightarrow> nat" where
  "hashboolean t p = lmod (word_of_int p) (sizenode t)"

definition hashmod :: "Table \<Rightarrow> u32 \<Rightarrow> nat" where
  "hashmod t n = unat n mod or (sizenode t - 1) 1"

definition hashpointer :: "Table \<Rightarrow> ptr \<Rightarrow> nat" where
  "hashpointer t p = hashmod t (ucast p)"

definition hashnum :: "Table \<Rightarrow> lua_Number \<Rightarrow> nat" where
  "hashnum t n =
     (if luai_numeq n 0 then 0 else hashmod t (ucast n + ucast (drop_bit 32 n)))"

fun gcaddr :: "GCObject \<Rightarrow> ptr" where
  "gcaddr (GTable p) = p"
| "gcaddr (GFunction p) = p"
| "gcaddr (GUserdata p) = p"
| "gcaddr (GThread p) = p"
| "gcaddr (GStr _) = 0"

text \<open>
  The callers never ask for the main position of nil or of a dead key (nor, therefore, for the
  address of a string).
\<close>

fun mainposition :: "Table \<Rightarrow> TValue \<Rightarrow> nat" where
  "mainposition t (VNumber n) = hashnum t n"
| "mainposition t (VGC (GStr s)) = hashstr t s"
| "mainposition t (VBoolean b) = hashboolean t b"
| "mainposition t (VLightUserdata p) = hashpointer t p"
| "mainposition t (VGC g) = hashpointer t (gcaddr g)"
| "mainposition t (VDeadKey g) = hashpointer t (gcaddr g)"
| "mainposition t VNil = 0"

definition arrayindex :: "TValue \<Rightarrow> int" where
  "arrayindex key =
     (case key of
        VNumber n \<Rightarrow> (let k = number2int n in if luai_numeq (cast_num k) n then k else - 1)
      | _ \<Rightarrow> - 1)"

section \<open>Walking a chain\<close>

fun chain_walk :: "(Node \<Rightarrow> bool) \<Rightarrow> Node list \<Rightarrow> nat \<Rightarrow> nat \<Rightarrow> nat option res" where
  "chain_walk P ns 0 i = Inl ErrLoop"
| "chain_walk P ns (Suc fuel) i =
     (if P (ns ! i) then Inr (Some i)
      else case nk_next (ns ! i) of
             None \<Rightarrow> Inr None
           | Some j \<Rightarrow> chain_walk P ns fuel j)"

definition chain_find :: "(Node \<Rightarrow> bool) \<Rightarrow> Table \<Rightarrow> nat \<Rightarrow> nat option res" where
  "chain_find P t i = chain_walk P (nodes t) (sizenode t) i"

definition node_slot :: "nat option \<Rightarrow> Slot" where
  "node_slot r = (case r of None \<Rightarrow> NilObject | Some i \<Rightarrow> NodeSlot i)"

section \<open>Traversal\<close>

definition dead_match :: "TValue \<Rightarrow> TValue \<Rightarrow> bool" where
  "dead_match nk key = (case (nk, key) of (VDeadKey a, VGC b) \<Rightarrow> a = b | _ \<Rightarrow> False)"

definition findindex :: "Table \<Rightarrow> TValue \<Rightarrow> int res" where
  "findindex t key =
     (if ttisnil key then Inr (- 1)
      else let i = arrayindex key
           in if 0 < i \<and> i \<le> int (sizearray t) then Inr (i - 1)
              else ebind
                (chain_find (\<lambda>n. luaO_rawequalObj (i_key n) key \<or> dead_match (i_key n) key) t
                   (mainposition t key))
                (\<lambda>r. case r of
                       Some j \<Rightarrow> Inr (int j + int (sizearray t))
                     | None \<Rightarrow> Inl (ErrRun (''invalid key to '' @ LUA_QL ''next''))))"

fun next_array :: "TValue list \<Rightarrow> nat list \<Rightarrow> (TValue \<times> TValue) option" where
  "next_array a [] = None"
| "next_array a (i # is) =
     (if \<not> ttisnil (a ! i) then Some (VNumber (cast_num (int i + 1)), a ! i)
      else next_array a is)"

fun next_node :: "Node list \<Rightarrow> nat list \<Rightarrow> (TValue \<times> TValue) option" where
  "next_node ns [] = None"
| "next_node ns (i # is) =
     (if \<not> ttisnil (i_val (ns ! i)) then Some (i_key (ns ! i), i_val (ns ! i))
      else next_node ns is)"

definition luaH_next :: "Table \<Rightarrow> TValue \<Rightarrow> (TValue \<times> TValue) option res" where
  "luaH_next t key =
     ebind (findindex t key) (\<lambda>i0.
       let i = nat (i0 + 1)
       in Inr (case next_array (array t) [i..<sizearray t] of
                 Some kv \<Rightarrow> Some kv
               | None \<Rightarrow> next_node (nodes t) [max i (sizearray t) - sizearray t..<sizenode t]))"

section \<open>Search\<close>

definition num_key_eq :: "lua_Number \<Rightarrow> Node \<Rightarrow> bool" where
  "num_key_eq nk n = (case i_key n of VNumber m \<Rightarrow> luai_numeq m nk | _ \<Rightarrow> False)"

definition luaH_getnum :: "Table \<Rightarrow> int \<Rightarrow> Slot res" where
  "luaH_getnum t key =
     (if unat (word_of_int (key - 1) :: u32) < sizearray t
      then Inr (ArraySlot (unat (word_of_int (key - 1) :: u32)))
      else let nk = cast_num key
           in ebind (chain_find (num_key_eq nk) t (hashnum t nk)) (\<lambda>r. Inr (node_slot r)))"

definition luaH_getstr :: "Table \<Rightarrow> lstr \<Rightarrow> Slot res" where
  "luaH_getstr t key =
     ebind (chain_find (\<lambda>n. i_key n = VGC (GStr key)) t (hashstr t key)) (\<lambda>r. Inr (node_slot r))"

definition luaH_get_any :: "Table \<Rightarrow> TValue \<Rightarrow> Slot res" where
  "luaH_get_any t key =
     ebind (chain_find (\<lambda>n. luaO_rawequalObj (i_key n) key) t (mainposition t key))
       (\<lambda>r. Inr (node_slot r))"

fun luaH_get :: "Table \<Rightarrow> TValue \<Rightarrow> Slot res" where
  "luaH_get t VNil = Inr NilObject"
| "luaH_get t (VGC (GStr s)) = luaH_getstr t s"
| "luaH_get t (VNumber n) =
     (let k = number2int n
      in if luai_numeq (cast_num k) n then luaH_getnum t k else luaH_get_any t (VNumber n))"
| "luaH_get t key = luaH_get_any t key"

section \<open>Counting for a rehash\<close>

text \<open>
  \<^verbatim>\<open>computesizes\<close>: the loop over \<open>i\<close> with \<open>twotoi = 2 ^ i\<close>; \<open>a\<close> keys are below the current
  limit, \<open>na\<close> and \<open>n\<close> are the best choice so far.
\<close>

function compute_loop ::
  "nat list \<Rightarrow> nat \<Rightarrow> nat \<Rightarrow> nat \<Rightarrow> nat \<Rightarrow> nat \<Rightarrow> nat \<times> nat" where
  "compute_loop nums narray i a na n =
     (if twoto i div 2 < narray then
        let a' = (if 0 < nums ! i then a + nums ! i else a);
            (na', n') = (if 0 < nums ! i \<and> a' > twoto i div 2 then (a', twoto i) else (na, n))
        in if a' = narray then (n', na')
           else compute_loop nums narray (Suc i) a' na' n'
      else (n, na))"
  by pat_completeness auto

lemma twoto_half_ge: "i \<le> twoto i div 2"
proof (induction i)
  case (Suc i)
  then show ?case
    by (cases i) (auto simp: twoto_def)
qed (simp add: twoto_def)

termination compute_loop
proof (relation "measure (\<lambda>(nums, narray, i, a, na, n). narray - i)", goal_cases)
  case (2 nums narray i)
  then show ?case
    using twoto_half_ge [of i] by simp
qed simp

declare compute_loop.simps [simp del]

text \<open>The new array size, and the number of keys that go there.\<close>

definition computesizes :: "nat list \<Rightarrow> nat \<Rightarrow> nat \<times> nat" where
  "computesizes nums narray = compute_loop nums narray 0 0 0 0"

definition countint :: "TValue \<Rightarrow> nat list \<Rightarrow> nat list \<times> nat" where
  "countint key nums =
     (let k = arrayindex key
      in if 0 < k \<and> k \<le> MAXASIZE
         then let l = nat (ceillog2 k) in (nums[l := nums ! l + 1], 1)
         else (nums, 0))"

text \<open>The slice loop of \<^verbatim>\<open>numusearray\<close>; \<open>i\<close> is the next array key to look at.\<close>

primrec numusearray_loop :: "Table \<Rightarrow> nat list \<Rightarrow> nat \<Rightarrow> nat list \<Rightarrow> nat \<Rightarrow> nat list \<times> nat" where
  "numusearray_loop t [] i nums ause = (nums, ause)"
| "numusearray_loop t (lg # lgs) i nums ause =
     (let ttlg = twoto lg;
          lim = (if ttlg > sizearray t then sizearray t else ttlg)
      in if ttlg > sizearray t \<and> i > lim then (nums, ause)
         else let lc = length (filter (\<lambda>j. \<not> ttisnil (array t ! (j - 1))) [i..<Suc lim])
              in numusearray_loop t lgs (max i (Suc lim)) (nums[lg := nums ! lg + lc]) (ause + lc))"

definition numusearray :: "Table \<Rightarrow> nat list \<Rightarrow> nat list \<times> nat" where
  "numusearray t nums = numusearray_loop t [0..<Suc MAXBITS] 1 nums 0"

fun numusehash_loop :: "Node list \<Rightarrow> nat list \<Rightarrow> nat \<Rightarrow> nat \<Rightarrow> nat list \<times> nat \<times> nat" where
  "numusehash_loop [] nums ause totaluse = (nums, ause, totaluse)"
| "numusehash_loop (n # ns) nums ause totaluse =
     (if \<not> ttisnil (i_val n)
      then let (nums', c) = countint (i_key n) nums
           in numusehash_loop ns nums' (ause + c) (totaluse + 1)
      else numusehash_loop ns nums ause totaluse)"

text \<open>The nodes are visited from the last to the first.\<close>

definition numusehash :: "Table \<Rightarrow> nat list \<Rightarrow> nat \<Rightarrow> nat list \<times> nat \<times> nat" where
  "numusehash t nums pnasize =
     (let (nums', ause, totaluse) = numusehash_loop (rev (take (sizenode t) (nodes t))) nums 0 0
      in (nums', totaluse, pnasize + ause))"

section \<open>Resizing and insertion\<close>

definition setarrayvector :: "Table \<Rightarrow> nat \<Rightarrow> Table" where
  "setarrayvector t sz =
     t\<lparr>array := take sz (array t) @ replicate (sz - sizearray t) VNil, sizearray := sz\<rparr>"

definition empty_node :: Node where
  "empty_node = \<lparr>i_val = VNil, i_key = VNil, nk_next = None\<rparr>"

definition setnodevector :: "Table \<Rightarrow> nat \<Rightarrow> Table res" where
  "setnodevector t sz =
     (if sz = 0 then Inr (t\<lparr>node := None, lsizenode := 0, lastfree := 0\<rparr>)
      else let lsize = ceillog2 (int sz)
           in if lsize > int MAXBITS then Inl (ErrRun ''table overflow'')
              else let sz' = twoto (nat lsize)
                   in Inr (t\<lparr>node := Some (replicate sz' empty_node), lsizenode := nat lsize,
                             lastfree := int sz'\<rparr>))"

text \<open>
  \<^verbatim>\<open>newkey\<close>, \<^verbatim>\<open>rehash\<close>, \<^verbatim>\<open>resize\<close> and the \<^verbatim>\<open>luaH_set\<close> functions call each other.  The
  functions below take the \<^verbatim>\<open>newkey\<close> they call as their first argument, and \<open>newkey_n\<close> ties
  the knot, with the depth of nested rehashes as fuel.
\<close>

type_synonym newkey_fun = "Table \<Rightarrow> TValue \<Rightarrow> (Table \<times> Slot) res"

definition luaH_set_with :: "newkey_fun \<Rightarrow> Table \<Rightarrow> TValue \<Rightarrow> (Table \<times> Slot) res" where
  "luaH_set_with nk t key =
     ebind (luaH_get t key) (\<lambda>p.
       let t' = t\<lparr>flags := 0\<rparr>
       in if p \<noteq> NilObject then Inr (t', p)
          else if ttisnil key then Inl (ErrRun ''table index is nil'')
          else if isnan key then Inl (ErrRun ''table index is NaN'')
          else nk t' key)"

definition luaH_setnum_with :: "newkey_fun \<Rightarrow> Table \<Rightarrow> int \<Rightarrow> (Table \<times> Slot) res" where
  "luaH_setnum_with nk t key =
     ebind (luaH_getnum t key) (\<lambda>p.
       if p \<noteq> NilObject then Inr (t, p) else nk t (VNumber (cast_num key)))"

definition luaH_setstr_with :: "newkey_fun \<Rightarrow> Table \<Rightarrow> lstr \<Rightarrow> (Table \<times> Slot) res" where
  "luaH_setstr_with nk t key =
     ebind (luaH_getstr t key) (\<lambda>p.
       if p \<noteq> NilObject then Inr (t, p) else nk t (VGC (GStr key)))"

text \<open>The bodies of the two re-insertion loops of \<^verbatim>\<open>resize\<close>.\<close>

definition reinsert_array :: "newkey_fun \<Rightarrow> nat \<Rightarrow> Table \<Rightarrow> Table res" where
  "reinsert_array nk i t =
     (if ttisnil (array t ! i) then Inr t
      else ebind (luaH_setnum_with nk t (int i + 1))
             (\<lambda>(t', s). Inr (slot_set t' s (array t ! i))))"

definition reinsert_node :: "newkey_fun \<Rightarrow> Node \<Rightarrow> Table \<Rightarrow> Table res" where
  "reinsert_node nk old t =
     (if ttisnil (i_val old) then Inr t
      else ebind (luaH_set_with nk t (i_key old))
             (\<lambda>(t', s). Inr (slot_set t' s (i_val old))))"

definition resize_with :: "newkey_fun \<Rightarrow> Table \<Rightarrow> nat \<Rightarrow> nat \<Rightarrow> Table res" where
  "resize_with nk t nasize nhsize =
     (let oldasize = sizearray t;
          nold = take (twoto (lsizenode t)) (nodes t);
          t1 = (if nasize > oldasize then setarrayvector t nasize else t)
      in ebind (setnodevector t1 nhsize) (\<lambda>t2.
         ebind (if nasize < oldasize
                then ebind (efold (reinsert_array nk) [nasize..<oldasize] (t2\<lparr>sizearray := nasize\<rparr>))
                       (\<lambda>t3. Inr (t3\<lparr>array := take nasize (array t3)\<rparr>))
                else Inr t2)
           (\<lambda>t4. efold (reinsert_node nk) (rev nold) t4)))"

definition rehash_sizes :: "Table \<Rightarrow> TValue \<Rightarrow> nat \<times> nat" where
  "rehash_sizes t ek =
     (let nums0 = replicate (Suc MAXBITS) 0;
          (nums1, nasize1) = numusearray t nums0;
          (nums2, tu, nasize2) = numusehash t nums1 nasize1;
          totaluse = nasize1 + tu;
          (nums3, c) = countint ek nums2;
          (nasize, na) = computesizes nums3 (nasize2 + c)
      in (nasize, totaluse + 1 - na))"

definition rehash_with :: "newkey_fun \<Rightarrow> Table \<Rightarrow> TValue \<Rightarrow> Table res" where
  "rehash_with nk t ek =
     (let (nasize, nhsize) = rehash_sizes t ek in resize_with nk t nasize nhsize)"

text \<open>\<^verbatim>\<open>getfreepos\<close>: \<^verbatim>\<open>lastfree\<close> moves down until it meets a node with a nil key.\<close>

function getfreepos_loop :: "Node list \<Rightarrow> int \<Rightarrow> int \<times> nat option" where
  "getfreepos_loop ns lf =
     (if lf > 0 then
        (if ttisnil (i_key (ns ! nat (lf - 1))) then (lf - 1, Some (nat (lf - 1)))
         else getfreepos_loop ns (lf - 1))
      else (lf - 1, None))"
  by pat_completeness auto
termination by (relation "measure (\<lambda>(ns, lf). nat lf)") auto

declare getfreepos_loop.simps [simp del]

definition getfreepos :: "Table \<Rightarrow> Table \<times> nat option" where
  "getfreepos t =
     (let (lf, r) = getfreepos_loop (nodes t) (lastfree t) in (t\<lparr>lastfree := lf\<rparr>, r))"

definition put_key :: "Table \<Rightarrow> nat \<Rightarrow> TValue \<Rightarrow> Table \<times> Slot" where
  "put_key t mp key = (upd_node mp (\<lambda>n. n\<lparr>i_key := key\<rparr>) t, NodeSlot mp)"

text \<open>The colliding node is out of its main position and moves to the free place \<open>n\<close>.\<close>

definition move_colliding :: "Table \<Rightarrow> nat \<Rightarrow> nat \<Rightarrow> nat \<Rightarrow> Table res" where
  "move_colliding t othern mp n =
     ebind (chain_find (\<lambda>nd. nk_next nd = Some mp) t othern) (\<lambda>r. case r of
         None \<Rightarrow> Inl (ErrUB ''null pointer'')
       | Some prev \<Rightarrow>
           let t1 = upd_node prev (\<lambda>nd. nd\<lparr>nk_next := Some n\<rparr>) t;
               t2 = upd_node n (\<lambda>_. gnode t1 mp) t1
           in Inr (upd_node mp (\<lambda>nd. nd\<lparr>nk_next := None, i_val := VNil\<rparr>) t2))"

text \<open>The colliding node is in its own main position: the free place is chained after it.\<close>

definition chain_after :: "Table \<Rightarrow> nat \<Rightarrow> nat \<Rightarrow> Table" where
  "chain_after t mp n =
     upd_node mp (\<lambda>nd. nd\<lparr>nk_next := Some n\<rparr>)
       (upd_node n (\<lambda>nd. nd\<lparr>nk_next := nk_next (gnode t mp)\<rparr>) t)"

definition newkey_body :: "newkey_fun \<Rightarrow> newkey_fun" where
  "newkey_body nk t key =
     (let mp = mainposition t key
      in if \<not> ttisnil (i_val (gnode t mp)) \<or> node t = None then
           (case getfreepos t of
              (t1, None) \<Rightarrow> ebind (rehash_with nk t1 key) (\<lambda>t2. luaH_set_with nk t2 key)
            | (t1, Some n) \<Rightarrow>
                (let othern = mainposition t1 (i_key (gnode t1 mp))
                 in if othern \<noteq> mp
                    then ebind (move_colliding t1 othern mp n) (\<lambda>t2. Inr (put_key t2 mp key))
                    else Inr (put_key (chain_after t1 mp n) n key)))
         else Inr (put_key t mp key))"

primrec newkey_n :: "nat \<Rightarrow> newkey_fun" where
  "newkey_n 0 t key = Inl ErrLoop"
| "newkey_n (Suc d) t key = newkey_body (newkey_n d) t key"

text \<open>
  One nested level is enough: the insertions made by a rehash find room (theory LTable_Set).
\<close>

definition newkey :: newkey_fun where
  "newkey = newkey_n 2"

definition luaH_set :: "Table \<Rightarrow> TValue \<Rightarrow> (Table \<times> Slot) res" where
  "luaH_set = luaH_set_with newkey"

definition luaH_setnum :: "Table \<Rightarrow> int \<Rightarrow> (Table \<times> Slot) res" where
  "luaH_setnum = luaH_setnum_with newkey"

definition luaH_setstr :: "Table \<Rightarrow> lstr \<Rightarrow> (Table \<times> Slot) res" where
  "luaH_setstr = luaH_setstr_with newkey"

definition resize :: "Table \<Rightarrow> nat \<Rightarrow> nat \<Rightarrow> Table res" where
  "resize = resize_with newkey"

definition luaH_resizearray :: "Table \<Rightarrow> nat \<Rightarrow> Table res" where
  "luaH_resizearray t nasize =
     (let nsize = (if node t = None then 0 else sizenode t) in resize t nasize nsize)"

definition luaH_new :: "nat \<Rightarrow> nat \<Rightarrow> Table res" where
  "luaH_new narray nhash =
     (let t = \<lparr>flags = 255, lsizenode = 0, metatable = None, array = [], node = None,
               lastfree = 0, sizearray = 0\<rparr>
      in setnodevector (setarrayvector t narray) nhash)"

section \<open>Boundaries\<close>

definition getnum_val :: "Table \<Rightarrow> int \<Rightarrow> TValue res" where
  "getnum_val t k = ebind (luaH_getnum t k) (\<lambda>s. Inr (slot_val t s))"

text \<open>The linear search; the fuel bounds the number of present keys.\<close>

fun linear_search :: "Table \<Rightarrow> nat \<Rightarrow> nat \<Rightarrow> nat res" where
  "linear_search t 0 i = Inl ErrLoop"
| "linear_search t (Suc fuel) i =
     ebind (getnum_val t (int i)) (\<lambda>v.
       if ttisnil v then Inr (i - 1) else linear_search t fuel (Suc i))"

function bin_search :: "(nat \<Rightarrow> TValue res) \<Rightarrow> nat \<Rightarrow> nat \<Rightarrow> nat res" where
  "bin_search get i j =
     (if j - i > 1 then
        let m = (i + j) div 2
        in ebind (get m) (\<lambda>v. if ttisnil v then bin_search get i m else bin_search get m j)
      else Inr i)"
  by pat_completeness auto
termination by (relation "measure (\<lambda>(get, i, j). j - i)") auto

declare bin_search.simps [simp del]

text \<open>
  The doubling loop of \<^verbatim>\<open>unbound_search\<close>: \<open>Inr (Inl r)\<close> is the answer of the linear search
  after an overflow, \<open>Inr (Inr (i, j))\<close> the bracket for the binary search.
\<close>

function double_loop :: "Table \<Rightarrow> nat \<Rightarrow> nat \<Rightarrow> (nat + nat \<times> nat) res" where
  "double_loop t i j =
     (if j = 0 then Inl ErrLoop
      else ebind (getnum_val t (int j)) (\<lambda>v.
        if ttisnil v then Inr (Inr (i, j))
        else if int (j * 2) > MAX_INT
        then map_sum id Inl (linear_search t (sizearray t + sizenode t + 2) 1)
        else double_loop t j (j * 2)))"
  by pat_completeness auto
termination by (relation "measure (\<lambda>(t, i, j). nat (MAX_INT + 1) - j)") auto

declare double_loop.simps [simp del]

definition unbound_search :: "Table \<Rightarrow> nat \<Rightarrow> nat res" where
  "unbound_search t j =
     ebind (double_loop t j (Suc j)) (\<lambda>r. case r of
         Inl n \<Rightarrow> Inr n
       | Inr (i, j') \<Rightarrow> bin_search (\<lambda>m. getnum_val t (int m)) i j')"

definition luaH_getn :: "Table \<Rightarrow> nat res" where
  "luaH_getn t =
     (let j = sizearray t
      in if j > 0 \<and> ttisnil (array t ! (j - 1))
         then bin_search (\<lambda>m. Inr (array t ! (m - 1))) 0 j
         else if node t = None then Inr j
         else unbound_search t j)"

section \<open>The collector's hold on a table\<close>

text \<open>
  \<^verbatim>\<open>removeentry\<close> of lgc.c: the key of an entry whose value is nil is marked dead, so that the
  collected object is not looked at again.
\<close>

definition removeentry :: "Node \<Rightarrow> Node" where
  "removeentry n =
     (case i_key n of VGC g \<Rightarrow> n\<lparr>i_key := VDeadKey g\<rparr> | _ \<Rightarrow> n)"

end
