(* ===== verification/LTable_Inv.thy ===== *)
theory LTable_Inv
  imports LTable
begin

text \<open>
  The invariant of the hash part of a table, and what it gives for look-ups.

  The node vector is a set of disjoint, acyclic chains (\<open>chains_ok\<close>).  Every node with a live
  key is on the chain that starts at the main position of its key, and, the invariant that the
  comment at the head of ltable.c states, if a key is not in its main position then the key
  that occupies that position is in its own (\<open>keys_ok\<close>).  The second half of the theory shows
  that a search returns the one node whose key is equal to the key looked for.
\<close>

section \<open>Chains\<close>

inductive reach :: "(nat \<Rightarrow> nat option) \<Rightarrow> nat \<Rightarrow> nat \<Rightarrow> bool" for f where
  reach_refl: "reach f i i"
| reach_step: "reach f i j \<Longrightarrow> f j = Some k \<Longrightarrow> reach f i k"

inductive_cases reach_lastE: "reach f i k"

lemma reach_Cons: "f i = Some j \<Longrightarrow> reach f j k \<Longrightarrow> reach f i k"
  by (rotate_tac, induction rule: reach.induct) (auto intro: reach.intros)

lemma reach_unfold: "reach f i k \<longleftrightarrow> k = i \<or> (\<exists>j. f i = Some j \<and> reach f j k)"
proof
  assume "reach f i k"
  then show "k = i \<or> (\<exists>j. f i = Some j \<and> reach f j k)"
    by (induction rule: reach.induct) (auto intro: reach.intros)
qed (auto intro: reach.intros reach_Cons)

definition ranked :: "(nat \<Rightarrow> nat option) \<Rightarrow> bool" where
  "ranked f \<longleftrightarrow> (\<exists>r :: nat \<Rightarrow> nat. \<forall>i j. f i = Some j \<longrightarrow> r j < r i)"

text \<open>Linking a fresh node \<open>n\<close> right after \<open>m\<close>.\<close>

definition link_after :: "(nat \<Rightarrow> nat option) \<Rightarrow> nat \<Rightarrow> nat \<Rightarrow> nat \<Rightarrow> nat option" where
  "link_after f m n = f(n := f m, m := Some n)"

lemma reach_link_after:
  assumes "reach f i j" "f n = None" "m \<noteq> n"
  shows "reach (link_after f m n) i j"
  using assms
proof (induction rule: reach.induct)
  case (reach_step i j k)
  show ?case
  proof (cases "j = m")
    case True
    have "reach (link_after f m n) i n"
      by (rule reach.reach_step [OF reach_step.IH]) (use reach_step.prems True in \<open>auto simp: link_after_def\<close>)
    then show ?thesis
      by (rule reach.reach_step) (use reach_step True in \<open>auto simp: link_after_def\<close>)
  next
    case False
    with reach_step have "link_after f m n j = Some k"
      by (auto simp: link_after_def)
    with reach_step show ?thesis by (blast intro: reach.reach_step)
  qed
qed (rule reach.intros)

lemma ranked_link_after:
  assumes "ranked f" "f n = None" "\<forall>a. f a \<noteq> Some n" "m \<noteq> n"
  shows "ranked (link_after f m n)"
proof -
  from assms(1) obtain r :: "nat \<Rightarrow> nat" where r: "\<And>i j. f i = Some j \<Longrightarrow> r j < r i"
    by (auto simp: ranked_def)
  define r' where "r' k = (if k = n then 2 * r m else 2 * r k + 1)" for k
  have "r' j < r' i" if e: "link_after f m n i = Some j" for i j
  proof (cases "i = m")
    case True
    with e have "j = n" by (simp add: link_after_def)
    with True assms(4) show ?thesis by (simp add: r'_def)
  next
    case False
    define i0 where "i0 = (if i = n then m else i)"
    have f: "f i0 = Some j" using e False by (auto simp: link_after_def i0_def split: if_splits)
    then have "j \<noteq> n" using assms(3) by blast
    with r [OF f] False show ?thesis by (auto simp: r'_def i0_def split: if_splits)
  qed
  then show ?thesis unfolding ranked_def by blast
qed

text \<open>Taking \<open>m\<close> out of the chain after \<open>p\<close> and putting the fresh node \<open>n\<close> in its place.\<close>

definition swap_node :: "(nat \<Rightarrow> nat option) \<Rightarrow> nat \<Rightarrow> nat \<Rightarrow> nat \<Rightarrow> nat \<Rightarrow> nat option" where
  "swap_node f p m n = f(p := Some n, n := f m, m := None)"

lemma reach_swap_node:
  assumes "reach f i j" "i \<noteq> m" "f n = None" "f p = Some m" "\<forall>a. f a = Some m \<longrightarrow> a = p"
    "\<forall>a. f a \<noteq> Some n" "p \<noteq> m" "n \<noteq> m" "p \<noteq> n"
  shows "reach (swap_node f p m n) i (if j = m then n else j)"
  using assms
proof (induction rule: reach.induct)
  case (reach_step i j k)
  let ?g = "swap_node f p m n"
  have IH: "reach ?g i (if j = m then n else j)" by (rule reach_step.IH [OF reach_step.prems])
  consider "k = m" | "k \<noteq> m" "j = m" | "k \<noteq> m" "j \<noteq> m" by blast
  then show ?case
  proof cases
    case 1
    then have "j = p" using reach_step.hyps(2) reach_step.prems(4) by blast
    then have "?g j = Some n" "j \<noteq> m" using reach_step.prems(6,8) by (simp_all add: swap_node_def)
    with IH have "reach ?g i n" by (auto intro: reach.reach_step)
    with 1 show ?thesis by simp
  next
    case 2
    then have "?g n = Some k" using reach_step.hyps(2) reach_step.prems(7) by (simp add: swap_node_def)
    with IH 2 show ?thesis by (simp add: reach.reach_step)
  next
    case 3
    moreover have "j \<noteq> p" using 3(1) reach_step.hyps(2) reach_step.prems(3) by auto
    moreover have "j \<noteq> n" using reach_step.hyps(2) reach_step.prems(2) by auto
    ultimately have "?g j = Some k" using reach_step.hyps(2) by (simp add: swap_node_def)
    with IH 3 show ?thesis by (simp add: reach.reach_step)
  qed
next
  case (reach_refl i)
  show ?case using reach_refl.prems(1) by (simp add: reach.reach_refl)
qed

lemma ranked_swap_node:
  assumes "ranked f" "f p = Some m" "f n = None" "\<forall>a. f a = Some m \<longrightarrow> a = p"
    "\<forall>a. f a \<noteq> Some n" "p \<noteq> m" "n \<noteq> m" "p \<noteq> n"
  shows "ranked (swap_node f p m n)"
proof -
  from assms(1) obtain r :: "nat \<Rightarrow> nat" where r: "\<And>i j. f i = Some j \<Longrightarrow> r j < r i"
    by (auto simp: ranked_def)
  define r' where "r' = r(n := r m)"
  have "r' j < r' i" if e: "swap_node f p m n i = Some j" for i j
  proof (cases "i = p")
    case True
    with e assms(6,8) have "j = n" by (simp add: swap_node_def)
    with True r [OF assms(2)] assms(8) show ?thesis by (simp add: r'_def)
  next
    case False
    have "i \<noteq> m" using e by (auto simp: swap_node_def)
    define i0 where "i0 = (if i = n then m else i)"
    have f: "f i0 = Some j" using e False \<open>i \<noteq> m\<close> by (auto simp: swap_node_def i0_def split: if_splits)
    then have "j \<noteq> n" using assms(5) by blast
    with r [OF f] show ?thesis by (auto simp: r'_def i0_def split: if_splits)
  qed
  then show ?thesis unfolding ranked_def by blast
qed

section \<open>The invariant of the node vector\<close>

definition nx :: "Node list \<Rightarrow> nat \<Rightarrow> nat option" where
  "nx ns i = (if i < length ns then nk_next (ns ! i) else None)"

fun is_dead :: "TValue \<Rightarrow> bool" where
  "is_dead (VDeadKey _) = True"
| "is_dead _ = False"

definition live :: "TValue \<Rightarrow> bool" where
  "live k \<longleftrightarrow> k \<noteq> VNil \<and> \<not> is_dead k"

definition chains_ok :: "Node list \<Rightarrow> bool" where
  "chains_ok ns \<longleftrightarrow>
     (\<forall>i j. nx ns i = Some j \<longrightarrow> j < length ns \<and> i_key (ns ! i) \<noteq> VNil \<and> i_key (ns ! j) \<noteq> VNil) \<and>
     (\<forall>i i' j. nx ns i = Some j \<longrightarrow> nx ns i' = Some j \<longrightarrow> i = i') \<and>
     ranked (nx ns)"

text \<open>\<open>mp\<close> is the main position of a key.\<close>

definition key_ok :: "(TValue \<Rightarrow> nat) \<Rightarrow> Node list \<Rightarrow> nat \<Rightarrow> bool" where
  "key_ok mp ns i \<longleftrightarrow> (let k = i_key (ns ! i); m = mp k; k' = i_key (ns ! m)
     in \<not> isnan k \<and> m < length ns \<and> reach (nx ns) m i \<and> k' \<noteq> VNil \<and> (live k' \<longrightarrow> mp k' = m))"

definition keys_ok :: "(TValue \<Rightarrow> nat) \<Rightarrow> Node list \<Rightarrow> bool" where
  "keys_ok mp ns \<longleftrightarrow>
     (\<forall>i < length ns. \<not> live (i_key (ns ! i)) \<longrightarrow> i_val (ns ! i) = VNil) \<and>
     (\<forall>i < length ns. live (i_key (ns ! i)) \<longrightarrow> key_ok mp ns i) \<and>
     (\<forall>i < length ns. \<forall>j < length ns. live (i_key (ns ! i)) \<longrightarrow>
        luaO_rawequalObj (i_key (ns ! i)) (i_key (ns ! j)) \<longrightarrow> i = j)"

definition nodes_ok :: "(TValue \<Rightarrow> nat) \<Rightarrow> Node list \<Rightarrow> bool" where
  "nodes_ok mp ns \<longleftrightarrow> chains_ok ns \<and> keys_ok mp ns"

text \<open>What a node vector holds for a key.\<close>

definition hget :: "Node list \<Rightarrow> TValue \<Rightarrow> TValue" where
  "hget ns k = (case find (\<lambda>n. luaO_rawequalObj (i_key n) k) ns of None \<Rightarrow> VNil | Some n \<Rightarrow> i_val n)"

definition has_key :: "Node list \<Rightarrow> TValue \<Rightarrow> bool" where
  "has_key ns k \<longleftrightarrow> (\<exists>i < length ns. luaO_rawequalObj (i_key (ns ! i)) k)"

lemma live_rawequal: "luaO_rawequalObj a b \<Longrightarrow> live b \<Longrightarrow> live a"
  by (cases "(a, b)" rule: luaO_rawequalObj.cases) (auto simp: live_def)

lemma keys_unique:
  assumes "keys_ok mp ns" "i < length ns" "j < length ns" "live k"
    "luaO_rawequalObj (i_key (ns ! i)) k" "luaO_rawequalObj (i_key (ns ! j)) k"
  shows "i = j"
proof -
  have "luaO_rawequalObj (i_key (ns ! i)) (i_key (ns ! j))"
    using assms(5,6) rawequal_sym rawequal_trans by blast
  moreover have "live (i_key (ns ! i))" using assms(4,5) live_rawequal by blast
  ultimately show ?thesis using assms(1-3) by (auto simp: keys_ok_def)
qed

lemma hget_none: "\<not> has_key ns k \<Longrightarrow> hget ns k = VNil"
  by (auto simp: hget_def has_key_def find_Some_iff split: option.split)

lemma hget_some:
  assumes "keys_ok mp ns" "i < length ns" "live k" "luaO_rawequalObj (i_key (ns ! i)) k"
  shows "hget ns k = i_val (ns ! i)"
proof (cases "find (\<lambda>n. luaO_rawequalObj (i_key n) k) ns")
  case None
  with assms show ?thesis by (auto simp: find_None_iff)
next
  case (Some n)
  then obtain j where "j < length ns" "luaO_rawequalObj (i_key (ns ! j)) k" "n = ns ! j"
    by (auto simp: find_Some_iff)
  with Some assms keys_unique show ?thesis unfolding hget_def by fastforce
qed

section \<open>Searching a chain\<close>

lemma chain_walk_total:
  fixes r :: "nat \<Rightarrow> nat"
  assumes "\<And>i j. nx ns i = Some j \<Longrightarrow> r j < r i \<and> j < length ns"
    and "i < length ns" "card {k. k < length ns \<and> r k \<le> r i} \<le> fuel"
  shows "\<exists>res. chain_walk P ns fuel i = Inr res \<and>
    (\<forall>j. res = Some j \<longrightarrow> reach (nx ns) i j \<and> j < length ns \<and> P (ns ! j)) \<and>
    (res = None \<longrightarrow> (\<forall>j. reach (nx ns) i j \<longrightarrow> \<not> P (ns ! j)))"
  using assms(2,3)
proof (induction fuel arbitrary: i)
  case 0
  have "i \<in> {k. k < length ns \<and> r k \<le> r i}" using 0 by simp
  moreover have "finite {k. k < length ns \<and> r k \<le> r i}" by simp
  ultimately show ?case using 0 by (metis card_eq_0_iff empty_iff le_zero_eq)
next
  case (Suc fuel)
  show ?case
  proof (cases "P (ns ! i)")
    case True
    with Suc show ?thesis by (auto intro: reach_refl)
  next
    case False
    show ?thesis
    proof (cases "nk_next (ns ! i)")
      case None
      then have "reach (nx ns) i j \<longleftrightarrow> j = i" for j
        by (subst reach_unfold) (auto simp: nx_def)
      with None False show ?thesis by auto
    next
      case (Some j)
      then have nxt: "nx ns i = Some j" using Suc.prems(1) by (simp add: nx_def)
      note rj = assms(1) [OF nxt]
      have "{k. k < length ns \<and> r k \<le> r j} \<subset> {k. k < length ns \<and> r k \<le> r i}"
      proof (rule psubsetI)
        show "{k. k < length ns \<and> r k \<le> r j} \<subseteq> {k. k < length ns \<and> r k \<le> r i}"
        proof
          fix k assume "k \<in> {k. k < length ns \<and> r k \<le> r j}"
          then have "k < length ns" "r k \<le> r j" by simp_all
          moreover have "r j \<le> r i" using rj by simp
          ultimately show "k \<in> {k. k < length ns \<and> r k \<le> r i}" by simp
        qed
        have "i \<in> {k. k < length ns \<and> r k \<le> r i} - {k. k < length ns \<and> r k \<le> r j}"
          using rj Suc.prems(1) by simp
        then show "{k. k < length ns \<and> r k \<le> r j} \<noteq> {k. k < length ns \<and> r k \<le> r i}" by blast
      qed
      then have "card {k. k < length ns \<and> r k \<le> r j} < card {k. k < length ns \<and> r k \<le> r i}"
        by (intro psubset_card_mono) auto
      with Suc.prems(2) have "card {k. k < length ns \<and> r k \<le> r j} \<le> fuel" by simp
      from Suc.IH [OF conjunct2 [OF rj] this] obtain res where res: "chain_walk P ns fuel j = Inr res"
        "\<forall>k. res = Some k \<longrightarrow> reach (nx ns) j k \<and> k < length ns \<and> P (ns ! k)"
        "res = None \<longrightarrow> (\<forall>k. reach (nx ns) j k \<longrightarrow> \<not> P (ns ! k))" by blast
      have "reach (nx ns) i k \<longleftrightarrow> k = i \<or> reach (nx ns) j k" for k
        unfolding reach_unfold [of "nx ns" i k] by (simp add: nxt)
      then have "(\<forall>k. res = Some k \<longrightarrow> reach (nx ns) i k \<and> k < length ns \<and> P (ns ! k)) \<and>
        (res = None \<longrightarrow> (\<forall>k. reach (nx ns) i k \<longrightarrow> \<not> P (ns ! k)))"
        using res(2,3) False by metis
      moreover have "chain_walk P ns (Suc fuel) i = Inr res" using res(1) Some False by simp
      ultimately show ?thesis by blast
    qed
  qed
qed

lemma chain_find_total:
  assumes "chains_ok (nodes t)" "length (nodes t) = sizenode t" "i < sizenode t"
  shows "\<exists>res. chain_find P t i = Inr res \<and>
    (\<forall>j. res = Some j \<longrightarrow> reach (nx (nodes t)) i j \<and> j < length (nodes t) \<and> P (nodes t ! j)) \<and>
    (res = None \<longrightarrow> (\<forall>j. reach (nx (nodes t)) i j \<longrightarrow> \<not> P (nodes t ! j)))"
proof -
  from assms(1) obtain r :: "nat \<Rightarrow> nat" where r: "\<And>i j. nx (nodes t) i = Some j \<Longrightarrow> r j < r i"
    by (auto simp: chains_ok_def ranked_def)
  have "card {k. k < length (nodes t) \<and> r k \<le> r i} \<le> card {..<length (nodes t)}"
    by (rule card_mono) auto
  then show ?thesis
    unfolding chain_find_def using assms r
    by (intro chain_walk_total [where r = r]) (auto simp: chains_ok_def)
qed

section \<open>Main positions\<close>

lemma hashmod_less:
  assumes "sizenode t = 2 ^ l"
  shows "hashmod t n < sizenode t"
proof (cases l)
  case 0
  with assms show ?thesis by (simp add: hashmod_def)
next
  case (Suc m)
  have "(1::nat) \<le> 2 ^ m" by simp
  then have "0 < sizenode t - 1" unfolding assms Suc power_Suc by linarith
  moreover have "or (sizenode t - 1) 1 = sizenode t - 1"
    using assms Suc by (simp add: or_Suc_0_eq)
  ultimately have "unat n mod or (sizenode t - 1) 1 < sizenode t - 1" by (metis mod_less_divisor)
  then show ?thesis by (simp add: hashmod_def)
qed

lemma mainposition_less:
  assumes "lsizenode t \<le> MAXBITS"
  shows "mainposition t k < sizenode t"
proof -
  have s: "sizenode t = 2 ^ lsizenode t" by (simp add: sizenode_def twoto_def)
  have "(2::nat) ^ lsizenode t \<le> 2 ^ 31"
    using assms by (intro power_increasing) (auto simp: MAXBITS_def)
  then have l: "lmod x (sizenode t) < sizenode t" for x
    using lmod_less [of "sizenode t" x] s by simp
  show ?thesis
    using l hashmod_less [OF s] s
    by (cases "(t, k)" rule: mainposition.cases)
      (auto simp: hashnum_def hashstr_def hashboolean_def hashpointer_def)
qed

text \<open>Keys that are equal for the language have the same main position: zero has two patterns.\<close>

lemma hashnum_numeq: "luai_numeq a b \<Longrightarrow> hashnum t a = hashnum t b"
proof -
  assume e: "luai_numeq a b"
  then have "luai_numeq a 0 \<longleftrightarrow> luai_numeq b 0"
    using luai_numeq_sym luai_numeq_trans by blast
  moreover have "a = b \<or> luai_numeq a 0"
    using e zero_fields by (auto simp: luai_numeq_def num_iszero_def luai_numisnan_def)
  ultimately show ?thesis by (auto simp: hashnum_def)
qed

lemma mainposition_rawequal: "luaO_rawequalObj a b \<Longrightarrow> mainposition t a = mainposition t b"
  by (cases "(a, b)" rule: luaO_rawequalObj.cases) (auto simp: hashnum_numeq)

lemma arrayindex_rawequal: "luaO_rawequalObj a b \<Longrightarrow> arrayindex a = arrayindex b"
proof (cases "(a, b)" rule: luaO_rawequalObj.cases)
  case (2 x y)
  assume "luaO_rawequalObj a b"
  with 2 have e: "luai_numeq x y" by simp
  then have "luai_numeq (cast_num (number2int x)) x \<longleftrightarrow> luai_numeq (cast_num (number2int x)) y"
    using luai_numeq_sym luai_numeq_trans by blast
  with e 2 luai_numeq_number2int [OF e] show ?thesis by (simp add: arrayindex_def)
qed (auto simp: arrayindex_def)

lemma arrayindex_cast [simp]: "is_int k \<Longrightarrow> arrayindex (VNumber (cast_num k)) = k"
  by (simp add: arrayindex_def luai_numeq_refl)

lemma arrayindex_is_int: "is_int (arrayindex k)"
  using number2int_is_int
  by (auto simp: arrayindex_def Let_def is_int_def INT_MIN_def INT_MAX_def split: TValue.split)

lemma arrayindex_pos:
  assumes "0 < arrayindex k"
  shows "luaO_rawequalObj (VNumber (cast_num (arrayindex k))) k"
  using assms by (auto simp: arrayindex_def Let_def split: TValue.splits if_splits)

text \<open>
  A number outside the range of \<^verbatim>\<open>int\<close> is no array index, whatever the C cast returns for it:
  the check that follows the cast rejects every int.
\<close>

lemma arrayindex_out_of_range:
  assumes "\<And>k. is_int k \<Longrightarrow> \<not> luai_numeq (cast_num k) n" "is_int k"
  shows "arrayindex (VNumber n) = - 1" "\<not> luai_numeq (cast_num k) n"
  using assms number2int_is_int by (auto simp: arrayindex_def Let_def)

section \<open>Free places\<close>

lemma getfreepos_loop_spec:
  assumes "getfreepos_loop ns lf = (lf', r)"
  shows "case r of
      Some n \<Rightarrow> int n = lf' \<and> int n < lf \<and> i_key (ns ! n) = VNil \<and> (\<forall>i. n < i \<and> int i < lf \<longrightarrow> i_key (ns ! i) \<noteq> VNil)
    | None \<Rightarrow> lf' \<le> lf \<and> (\<forall>i. int i < lf \<longrightarrow> i_key (ns ! i) \<noteq> VNil)"
  using assms
proof (induction ns lf rule: getfreepos_loop.induct)
  case (1 ns lf)
  show ?case
  proof (cases "lf > 0 \<and> i_key (ns ! nat (lf - 1)) \<noteq> VNil")
    case False
    with "1.prems" show ?thesis
      by (auto simp: getfreepos_loop.simps [of ns lf] split: if_splits)
  next
    case True
    then have "getfreepos_loop ns (lf - 1) = (lf', r)"
      using "1.prems" by (simp add: getfreepos_loop.simps [of ns lf])
    note IH = "1.IH" [OF _ _ this]
    have top: "i_key (ns ! i) \<noteq> VNil" if "int i = lf - 1" for i
      using True that by (metis nat_int)
    have split: "int i < lf \<Longrightarrow> int i < lf - 1 \<or> int i = lf - 1" for i by linarith
    show ?thesis
    proof (cases r)
      case None
      with IH True top split show ?thesis by fastforce
    next
      case (Some n)
      with IH True top split show ?thesis by fastforce
    qed
  qed
qed

section \<open>The invariant of a table\<close>

definition in_array :: "Table \<Rightarrow> TValue \<Rightarrow> bool" where
  "in_array t k \<longleftrightarrow> 0 < arrayindex k \<and> arrayindex k \<le> int (sizearray t)"

text \<open>
  \<open>tinv0\<close> holds at every point of the operations, also inside \<^verbatim>\<open>resize\<close>, where the array
  vector is longer than \<^verbatim>\<open>sizearray\<close>; \<open>tinv\<close> holds between them.
\<close>

definition tinv0 :: "Table \<Rightarrow> bool" where
  "tinv0 t \<longleftrightarrow>
     sizearray t \<le> length (array t) \<and> int (sizearray t) \<le> MAXASIZE \<and>
     lsizenode t \<le> MAXBITS \<and> length (nodes t) = sizenode t \<and>
     nodes_ok (mainposition t) (nodes t) \<and>
     (\<forall>i < length (nodes t). live (i_key (nodes t ! i)) \<longrightarrow> \<not> in_array t (i_key (nodes t ! i))) \<and>
     lastfree t \<le> int (length (nodes t)) \<and>
     (node t = None \<longrightarrow> lastfree t \<le> 0) \<and>
     (node t \<noteq> None \<longrightarrow> (\<forall>i < length (nodes t). lastfree t \<le> int i \<longrightarrow> i_key (nodes t ! i) \<noteq> VNil))"

definition tinv :: "Table \<Rightarrow> bool" where
  "tinv t \<longleftrightarrow> tinv0 t \<and> sizearray t = length (array t)"

text \<open>The value a table holds for a key: the abstract view of a table as a function.\<close>

definition tval :: "Table \<Rightarrow> TValue \<Rightarrow> TValue" where
  "tval t k = (if in_array t k then array t ! nat (arrayindex k - 1) else hget (nodes t) k)"

definition slot_for :: "Table \<Rightarrow> TValue \<Rightarrow> Slot \<Rightarrow> bool" where
  "slot_for t k s \<longleftrightarrow>
     (case s of
        NilObject \<Rightarrow> \<not> in_array t k \<and> \<not> has_key (nodes t) k
      | ArraySlot j \<Rightarrow> in_array t k \<and> j = nat (arrayindex k - 1)
      | NodeSlot i \<Rightarrow> \<not> in_array t k \<and> i < length (nodes t) \<and> luaO_rawequalObj (i_key (nodes t ! i)) k)"

lemma tinv0_keys: "tinv0 t \<Longrightarrow> keys_ok (mainposition t) (nodes t)"
  by (simp add: tinv0_def nodes_ok_def)

lemma slot_for_val:
  assumes "tinv0 t" "live k" "slot_for t k s"
  shows "slot_val t s = tval t k"
  using assms hget_some [OF tinv0_keys [OF assms(1)]]
  by (cases s) (auto simp: slot_for_def tval_def gnode_def hget_none)

section \<open>Look-ups\<close>

lemma chain_find_key:
  assumes inv: "tinv0 t" and k: "live k"
    and P: "\<And>n. P n \<longleftrightarrow> luaO_rawequalObj (i_key n) k"
  shows "\<exists>r. chain_find P t (mainposition t k) = Inr r \<and>
    (case r of Some i \<Rightarrow> i < length (nodes t) \<and> luaO_rawequalObj (i_key (nodes t ! i)) k
     | None \<Rightarrow> \<not> has_key (nodes t) k)"
proof -
  have c: "chains_ok (nodes t)" "length (nodes t) = sizenode t" and kk: "keys_ok (mainposition t) (nodes t)"
    and m: "mainposition t k < sizenode t"
    using inv mainposition_less by (auto simp: tinv0_def nodes_ok_def)
  from chain_find_total [OF c m, of P] obtain r where r: "chain_find P t (mainposition t k) = Inr r"
    "\<forall>j. r = Some j \<longrightarrow> j < length (nodes t) \<and> P (nodes t ! j)"
    "r = None \<longrightarrow> (\<forall>j. reach (nx (nodes t)) (mainposition t k) j \<longrightarrow> \<not> P (nodes t ! j))"
    by blast
  show ?thesis
  proof (cases r)
    case (Some i)
    with r P show ?thesis by auto
  next
    case None
    have "\<not> has_key (nodes t) k"
    proof
      assume "has_key (nodes t) k"
      then obtain i where i: "i < length (nodes t)" "luaO_rawequalObj (i_key (nodes t ! i)) k"
        by (auto simp: has_key_def)
      then have "live (i_key (nodes t ! i))" using k live_rawequal by blast
      with kk i(1) have "key_ok (mainposition t) (nodes t) i" by (auto simp: keys_ok_def)
      then have "reach (nx (nodes t)) (mainposition t k) i"
        using mainposition_rawequal [OF i(2), of t] by (simp add: key_ok_def Let_def)
      with r(3) None P i(2) show False by blast
    qed
    with r(1) None show ?thesis by auto
  qed
qed

lemma getnum_index:
  assumes "is_int k" "n \<le> 2 ^ 26"
  shows "unat (word_of_int (k - 1) :: u32) < n \<longleftrightarrow> 0 < k \<and> k \<le> int n"
    and "0 < k \<Longrightarrow> unat (word_of_int (k - 1) :: u32) = nat (k - 1)"
proof -
  have "unat (word_of_int w :: u32) = nat (w mod 2 ^ 32)" for w
    by (simp add: unsigned_of_int take_bit_eq_mod)
  then have u: "unat (word_of_int (k - 1) :: u32) = nat ((k - 1) mod 2 ^ 32)" .
  have p: "(k - 1) mod 2 ^ 32 = (if 0 < k then k - 1 else k - 1 + 2 ^ 32)"
  proof (cases "0 < k")
    case True
    with assms(1) show ?thesis by (simp add: is_int_def INT_MAX_def)
  next
    case False
    have "(k - 1) mod 2 ^ 32 = (k - 1 + 2 ^ 32) mod 2 ^ 32" by (simp only: mod_add_self2)
    also have "\<dots> = k - 1 + 2 ^ 32"
      using False assms(1) by (intro mod_pos_pos_trivial) (auto simp: is_int_def INT_MIN_def)
    finally show ?thesis using False by simp
  qed
  show "unat (word_of_int (k - 1) :: u32) < n \<longleftrightarrow> 0 < k \<and> k \<le> int n"
    using assms unfolding u p by (auto simp: is_int_def INT_MIN_def nat_less_iff)
  show "0 < k \<Longrightarrow> unat (word_of_int (k - 1) :: u32) = nat (k - 1)"
    unfolding u p by simp
qed

lemma MAXASIZE_nat: "int n \<le> MAXASIZE \<longleftrightarrow> n \<le> 2 ^ 26"
  by (simp add: MAXASIZE_def MAXBITS_def)

lemma live_simps [simp]:
  "live (VNumber n)" "live (VBoolean b)" "live (VLightUserdata p)" "live (VGC g)"
  "\<not> live VNil" "\<not> live (VDeadKey g)"
  by (simp_all add: live_def)

lemma node_slot_for:
  assumes "\<not> in_array t k"
    and "case r of Some i \<Rightarrow> i < length (nodes t) \<and> luaO_rawequalObj (i_key (nodes t ! i)) k
       | None \<Rightarrow> \<not> has_key (nodes t) k"
  shows "slot_for t k (node_slot r)"
  using assms by (auto simp: slot_for_def node_slot_def split: option.splits)

lemma luaH_getnum_slot:
  assumes "tinv0 t" "is_int k"
  shows "\<exists>s. luaH_getnum t k = Inr s \<and> slot_for t (VNumber (cast_num k)) s"
proof (cases "in_array t (VNumber (cast_num k))")
  case True
  then have "0 < k" "k \<le> int (sizearray t)" using assms(2) by (auto simp: in_array_def)
  with True getnum_index [OF assms(2), of "sizearray t"] assms show ?thesis
    by (auto simp: luaH_getnum_def slot_for_def tinv0_def MAXASIZE_nat)
next
  case False
  then have "\<not> unat (word_of_int (k - 1) :: u32) < sizearray t"
    using getnum_index(1) [OF assms(2), of "sizearray t"] assms
    by (auto simp: in_array_def tinv0_def MAXASIZE_nat)
  moreover have P: "num_key_eq (cast_num k) n \<longleftrightarrow> luaO_rawequalObj (i_key n) (VNumber (cast_num k))" for n
    by (cases "i_key n") (auto simp: num_key_eq_def)
  moreover obtain r where "chain_find (num_key_eq (cast_num k)) t (hashnum t (cast_num k)) = Inr r"
    "case r of Some i \<Rightarrow> i < length (nodes t) \<and> luaO_rawequalObj (i_key (nodes t ! i)) (VNumber (cast_num k))
     | None \<Rightarrow> \<not> has_key (nodes t) (VNumber (cast_num k))"
    using chain_find_key [OF assms(1) _ P] by auto
  ultimately show ?thesis
    using False by (auto simp: luaH_getnum_def intro: node_slot_for)
qed

lemma luaH_get_any_slot:
  assumes "tinv0 t" "live k" "\<not> in_array t k"
  shows "\<exists>s. luaH_get_any t k = Inr s \<and> slot_for t k s"
  using chain_find_key [OF assms(1,2), of "\<lambda>n. luaO_rawequalObj (i_key n) k"] assms(3)
  by (auto simp: luaH_get_any_def intro: node_slot_for)

lemma luaH_getstr_slot:
  assumes "tinv0 t"
  shows "\<exists>s. luaH_getstr t key = Inr s \<and> slot_for t (VGC (GStr key)) s"
proof -
  have "i_key n = VGC (GStr key) \<longleftrightarrow> luaO_rawequalObj (i_key n) (VGC (GStr key))" for n
    by (cases "i_key n") auto
  from chain_find_key [OF assms _ this] obtain r where
    "chain_find (\<lambda>n. i_key n = VGC (GStr key)) t (hashstr t key) = Inr r"
    "case r of Some i \<Rightarrow> i < length (nodes t) \<and> luaO_rawequalObj (i_key (nodes t ! i)) (VGC (GStr key))
     | None \<Rightarrow> \<not> has_key (nodes t) (VGC (GStr key))" by auto
  then show ?thesis
    by (auto simp: luaH_getstr_def in_array_def arrayindex_def intro!: node_slot_for)
qed

lemma slot_for_rawequal:
  assumes "luaO_rawequalObj a b" "slot_for t a s"
  shows "slot_for t b s"
proof -
  have "in_array t a \<longleftrightarrow> in_array t b" "arrayindex a = arrayindex b"
    using arrayindex_rawequal [OF assms(1)] by (auto simp: in_array_def)
  moreover have "luaO_rawequalObj x a \<longleftrightarrow> luaO_rawequalObj x b" for x
    using assms(1) rawequal_trans rawequal_sym by blast
  ultimately show ?thesis using assms(2) by (auto simp: slot_for_def has_key_def split: Slot.splits)
qed

text \<open>Every search ends and returns the slot of the key.\<close>

lemma luaH_get_slot:
  assumes inv: "tinv0 t" and k: "live k"
  shows "\<exists>s. luaH_get t k = Inr s \<and> slot_for t k s"
proof (cases k)
  case (VNumber n)
  show ?thesis
  proof (cases "luai_numeq (cast_num (number2int n)) n")
    case True
    then have "luaO_rawequalObj (VNumber (cast_num (number2int n))) k" using VNumber by simp
    note e = slot_for_rawequal [OF this]
    from luaH_getnum_slot [OF inv number2int_is_int [of n]] True VNumber e
    show ?thesis by (auto simp: Let_def)
  next
    case False
    then have "\<not> in_array t k" using VNumber by (simp add: in_array_def arrayindex_def Let_def)
    with False VNumber luaH_get_any_slot [OF inv k] show ?thesis by (simp add: Let_def)
  qed
next
  case (VGC g)
  then show ?thesis
    using luaH_getstr_slot [OF inv] luaH_get_any_slot [OF inv k]
    by (cases g) (auto simp: in_array_def arrayindex_def)
qed (use k luaH_get_any_slot [OF inv k] in \<open>auto simp: in_array_def arrayindex_def\<close>)

lemma luaH_get_val:
  assumes "tinv0 t" "live k"
  shows "\<exists>s. luaH_get t k = Inr s \<and> slot_val t s = tval t k"
  using luaH_get_slot [OF assms] slot_for_val [OF assms] by blast

end
