(* ===== verification/LTable_Ins.thy ===== *)
theory LTable_Ins
  imports LTable_Inv
begin

text \<open>
  Inserting a key into a hash part that has room: \<^verbatim>\<open>newkey\<close> without its rehash branch.  The
  three ways in which it rewires the node vector are treated first at the level of the nodes
  (\<open>put_ok\<close>, \<open>after_ok\<close>, \<open>move_ok\<close>): each keeps the invariant and what is stored under every
  key.  The last section lifts this to tables (\<open>newkey_room\<close>).
\<close>

section \<open>Rewiring the node vector\<close>

lemma chains_okD:
  assumes "chains_ok ns" "nx ns i = Some j"
  shows "i < length ns" "j < length ns" "i_key (ns ! i) \<noteq> VNil" "i_key (ns ! j) \<noteq> VNil"
proof -
  show "i < length ns" using assms(2) by (simp add: nx_def split: if_splits)
  show "j < length ns" "i_key (ns ! i) \<noteq> VNil" "i_key (ns ! j) \<noteq> VNil"
    using assms unfolding chains_ok_def by blast+
qed

lemma key_ok_live: "keys_ok mp ns \<Longrightarrow> i < length ns \<Longrightarrow> live (i_key (ns ! i)) \<Longrightarrow> key_ok mp ns i"
  by (simp add: keys_ok_def)

text \<open>
  Nodes may move and the entry of a key whose value is nil may be lost, but what is stored
  stays stored; \<open>v\<close> is the node of the new key.
\<close>

lemma hget_moved:
  fixes ns ns' :: "Node list"
  assumes ok: "keys_ok mp ns" "keys_ok mp ns'" and q: "live q"
    and v: "v < length ns'" "i_key (ns' ! v) = key" "i_val (ns' ! v) = VNil" "\<not> has_key ns key"
    and fwd: "\<And>i. i < length ns \<Longrightarrow> i_val (ns ! i) \<noteq> VNil \<Longrightarrow>
      \<exists>j < length ns'. i_key (ns' ! j) = i_key (ns ! i) \<and> i_val (ns' ! j) = i_val (ns ! i)"
    and bwd: "\<And>j. j < length ns' \<Longrightarrow> j \<noteq> v \<Longrightarrow> live (i_key (ns' ! j)) \<Longrightarrow>
      \<exists>i < length ns. i_key (ns ! i) = i_key (ns' ! j) \<and> i_val (ns ! i) = i_val (ns' ! j)"
  shows "hget ns' q = hget ns q"
proof (cases "has_key ns' q")
  case True
  then obtain j where j: "j < length ns'" "luaO_rawequalObj (i_key (ns' ! j)) q"
    by (auto simp: has_key_def)
  then have val: "hget ns' q = i_val (ns' ! j)" using hget_some [OF ok(2)] q by blast
  show ?thesis
  proof (cases "j = v")
    case True
    with j v(2) have "luaO_rawequalObj key q" by simp
    with v(4) have "\<not> has_key ns q"
      unfolding has_key_def using rawequal_sym rawequal_trans by blast
    with val True v(3) show ?thesis by (simp add: hget_none)
  next
    case False
    with bwd j live_rawequal [OF j(2) q] obtain i
      where "i < length ns" "i_key (ns ! i) = i_key (ns' ! j)" "i_val (ns ! i) = i_val (ns' ! j)" by blast
    with hget_some [OF ok(1) _ q] j(2) val show ?thesis by metis
  qed
next
  case False
  then have "hget ns q = VNil"
  proof (cases "has_key ns q")
    case True
    then obtain i where i: "i < length ns" "luaO_rawequalObj (i_key (ns ! i)) q"
      by (auto simp: has_key_def)
    have "i_val (ns ! i) = VNil"
      using fwd [OF i(1)] i(2) False unfolding has_key_def by metis
    with hget_some [OF ok(1) i(1) q i(2)] show ?thesis by simp
  qed (simp add: hget_none)
  with False show ?thesis by (simp add: hget_none)
qed

text \<open>The new key goes to its main position, whose value is nil.\<close>

lemma put_ok:
  fixes ns ns' :: "Node list"
  assumes ok: "nodes_ok mp ns" and m: "m < length ns" "i_val (ns ! m) = VNil" "mp key = m"
    and key: "live key" "\<not> isnan key" "\<not> has_key ns key"
    and len: "length ns' = length ns" and nx': "nx ns' = nx ns"
    and ks: "\<And>i. i < length ns \<Longrightarrow> i_key (ns' ! i) = (if i = m then key else i_key (ns ! i))"
    and vs: "\<And>i. i < length ns \<Longrightarrow> i_val (ns' ! i) = i_val (ns ! i)"
  shows "nodes_ok mp ns' \<and> (\<forall>k. live k \<longrightarrow> hget ns' k = hget ns k)"
proof -
  have c: "chains_ok ns" and k: "keys_ok mp ns" using ok by (auto simp: nodes_ok_def)
  have c': "chains_ok ns'"
    using c key(1) unfolding chains_ok_def nx' len
    by (metis ks live_simps(5) nx_def option.distinct(1))
  have fresh: "\<not> luaO_rawequalObj (i_key (ns ! i)) key" if "i < length ns" for i
    using key(3) that by (auto simp: has_key_def)
  have k1: "key_ok mp ns' i" if i: "i < length ns" and l: "live (i_key (ns' ! i))" for i
  proof (cases "i = m")
    case True
    then show ?thesis
      using ks [OF i] m key len by (auto simp: key_ok_def Let_def reach_refl)
  next
    case False
    then have "key_ok mp ns i" using key_ok_live [OF k i] l ks [OF i] by simp
    moreover from this have "mp (i_key (ns ! i)) < length ns" by (simp add: key_ok_def Let_def)
    ultimately show ?thesis
      using ks [OF i] False ks [of "mp (i_key (ns ! i))"] m(3) key(1) len
      by (auto simp: key_ok_def Let_def nx' split: if_splits)
  qed
  have u: "i = j" if "i < length ns" "j < length ns" "live (i_key (ns' ! i))"
    "luaO_rawequalObj (i_key (ns' ! i)) (i_key (ns' ! j))" for i j
    using that ks k fresh rawequal_sym unfolding keys_ok_def by (metis (full_types))
  have k': "keys_ok mp ns'"
    unfolding keys_ok_def len using k1 u k vs ks m(2) by (auto simp: keys_ok_def)
  have "hget ns' q = hget ns q" if q: "live q" for q
    by (rule hget_moved [OF k k' q, where v = m and key = key]) (use m key(3) len ks vs in auto)
  with c' k' show ?thesis by (simp add: nodes_ok_def)
qed

text \<open>The free node \<open>n\<close> is chained after the main position \<open>m\<close>, whose key is at home there.\<close>

lemma after_ok:
  fixes ns ns' :: "Node list"
  assumes ok: "nodes_ok mp ns" and m: "m < length ns" "mp key = m" "mp (i_key (ns ! m)) = m"
      "i_key (ns ! m) \<noteq> VNil"
    and n: "n < length ns" "i_key (ns ! n) = VNil"
    and key: "live key" "\<not> isnan key" "\<not> has_key ns key"
    and len: "length ns' = length ns" and nx': "nx ns' = link_after (nx ns) m n"
    and ks: "\<And>i. i < length ns \<Longrightarrow> i_key (ns' ! i) = (if i = n then key else i_key (ns ! i))"
    and vs: "\<And>i. i < length ns \<Longrightarrow> i_val (ns' ! i) = i_val (ns ! i)"
  shows "nodes_ok mp ns' \<and> (\<forall>k. live k \<longrightarrow> hget ns' k = hget ns k)"
proof -
  have c: "chains_ok ns" and k: "keys_ok mp ns" using ok by (auto simp: nodes_ok_def)
  have mn: "m \<noteq> n" using m(4) n(2) by auto
  have free: "nx ns n = None" "\<forall>a. nx ns a \<noteq> Some n"
    using c n unfolding chains_ok_def by (metis not_None_eq, metis)
  have valn: "i_val (ns ! n) = VNil" using k n by (simp add: keys_ok_def)
  have fresh: "\<not> luaO_rawequalObj (i_key (ns ! i)) key" if "i < length ns" for i
    using key(3) that by (auto simp: has_key_def)
  have c': "chains_ok ns'"
  proof -
    have e: "j < length ns \<and> i_key (ns' ! i) \<noteq> VNil \<and> i_key (ns' ! j) \<noteq> VNil"
      if step: "nx ns' i = Some j" for i j
    proof -
      consider "i = m" "j = n" | "i = n" "nx ns m = Some j" | "nx ns i = Some j" "i \<noteq> m" "i \<noteq> n"
        using step unfolding nx' link_after_def fun_upd_apply by (metis option.inject)
      then show ?thesis
        using c free m n key(1) mn ks unfolding chains_ok_def
        by cases (metis live_simps(5) nx_def option.distinct(1))+
    qed
    have "i = i'" if "nx ns' i = Some j" "nx ns' i' = Some j" for i i' j
      using that free(2) c mn unfolding chains_ok_def nx' link_after_def
      by (metis fun_upd_apply option.inject)
    with e show ?thesis
      using ranked_link_after [of "nx ns" n m] c free mn by (auto simp: chains_ok_def nx' len)
  qed
  have k1: "key_ok mp ns' i" if i: "i < length ns" and l: "live (i_key (ns' ! i))" for i
  proof (cases "i = n")
    case True
    have "reach (nx ns') m n"
      by (rule reach_step [OF reach_refl]) (use mn in \<open>simp add: nx' link_after_def\<close>)
    with True ks m mn n key len show ?thesis by (simp add: key_ok_def Let_def)
  next
    case False
    then have o: "key_ok mp ns i" using key_ok_live [OF k i] l ks [OF i] by simp
    then have "mp (i_key (ns ! i)) < length ns" "mp (i_key (ns ! i)) \<noteq> n"
      using n(2) by (auto simp: key_ok_def Let_def)
    with o show ?thesis
      using ks [OF i] False ks [of "mp (i_key (ns ! i))"] len reach_link_after [where f = "nx ns" and m = m and n = n, OF _ free(1) mn]
      by (auto simp: key_ok_def Let_def nx')
  qed
  have u: "i = j" if "i < length ns" "j < length ns" "live (i_key (ns' ! i))"
    "luaO_rawequalObj (i_key (ns' ! i)) (i_key (ns' ! j))" for i j
    using that ks k fresh rawequal_sym unfolding keys_ok_def by (metis (full_types))
  have k': "keys_ok mp ns'"
    unfolding keys_ok_def len using k1 u k vs ks valn by (auto simp: keys_ok_def)
  have "hget ns' q = hget ns q" if q: "live q" for q
    by (rule hget_moved [OF k k' q, where v = n and key = key]) (use n key(3) len ks vs valn in auto)
  with c' k' show ?thesis by (simp add: nodes_ok_def)
qed

text \<open>
  The node in the main position \<open>m\<close> of the new key is not at home there: it moves to the free
  node \<open>n\<close>, and its predecessor \<open>p\<close> is redirected.
\<close>

lemma move_ok:
  fixes ns ns' :: "Node list"
  assumes ok: "nodes_ok mp ns" and m: "m < length ns" "mp key = m" "mp (i_key (ns ! m)) \<noteq> m"
      "live (i_key (ns ! m))"
    and p: "nx ns p = Some m"
    and n: "n < length ns" "i_key (ns ! n) = VNil"
    and key: "live key" "\<not> isnan key" "\<not> has_key ns key"
    and len: "length ns' = length ns" and nx': "nx ns' = swap_node (nx ns) p m n"
    and ks: "\<And>i. i < length ns \<Longrightarrow>
      i_key (ns' ! i) = (if i = m then key else if i = n then i_key (ns ! m) else i_key (ns ! i))"
    and vs: "\<And>i. i < length ns \<Longrightarrow>
      i_val (ns' ! i) = (if i = m then VNil else if i = n then i_val (ns ! m) else i_val (ns ! i))"
  shows "nodes_ok mp ns' \<and> (\<forall>k. live k \<longrightarrow> hget ns' k = hget ns k)"
proof -
  have c: "chains_ok ns" and k: "keys_ok mp ns" using ok by (auto simp: nodes_ok_def)
  have mn: "n \<noteq> m" using m(4) n(2) by auto
  have free: "nx ns n = None" "\<forall>a. nx ns a \<noteq> Some n"
    using c n unfolding chains_ok_def by (metis not_None_eq, metis)
  have pm: "p \<noteq> m"
    using c p unfolding chains_ok_def ranked_def by (metis less_irrefl)
  have pn: "p \<noteq> n" using p free(1) by auto
  have uniq: "\<forall>a. nx ns a = Some m \<longrightarrow> a = p" using c p unfolding chains_ok_def by blast
  have plen: "p < length ns" using p by (auto simp: nx_def split: if_splits)
  have valn: "i_val (ns ! n) = VNil" using k n by (simp add: keys_ok_def)
  have fresh: "\<not> luaO_rawequalObj (i_key (ns ! i)) key" if "i < length ns" for i
    using key(3) that by (auto simp: has_key_def)
  note rs = reach_swap_node [OF _ _ free(1) p uniq free(2) pm mn pn, folded nx']
  have c': "chains_ok ns'"
  proof -
    have e: "j < length ns \<and> i_key (ns' ! i) \<noteq> VNil \<and> i_key (ns' ! j) \<noteq> VNil"
      if step: "nx ns' i = Some j" for i j
    proof -
      have nn: "i_key (ns ! p) \<noteq> VNil" "i_key (ns ! m) \<noteq> VNil" "key \<noteq> VNil"
        using c p m(4) key(1) unfolding chains_ok_def by (auto simp: live_def)
      consider "i = p" "j = n" | "i = n" "nx ns m = Some j" | "nx ns i = Some j" "i \<noteq> m" "i \<noteq> n" "i \<noteq> p"
        using step unfolding nx' swap_node_def fun_upd_apply by (metis option.inject option.distinct(1))
      then show ?thesis
      proof cases
        case 1
        then show ?thesis using nn n plen ks mn pm pn by simp
      next
        case 2
        with chains_okD [OF c] have "j < length ns" "i_key (ns ! j) \<noteq> VNil" by blast+
        with 2 nn ks n(1) show ?thesis by simp
      next
        case 3
        with chains_okD [OF c] have "i < length ns" "j < length ns" "i_key (ns ! j) \<noteq> VNil"
          "i_key (ns ! i) \<noteq> VNil" by blast+
        with nn ks show ?thesis by simp
      qed
    qed
    have "i = i'" if "nx ns' i = Some j" "nx ns' i' = Some j" for i i' j
      using that free(2) c mn pm pn unfolding chains_ok_def nx' swap_node_def
      by (metis fun_upd_apply option.inject option.distinct(1))
    with e show ?thesis
      using ranked_swap_node [OF _ p free(1) uniq free(2) pm mn pn] c by (auto simp: chains_ok_def nx' len)
  qed
  have homeless: "mp (i_key (ns ! i)) \<noteq> m" if "i < length ns" "live (i_key (ns ! i))" for i
    using key_ok_live [OF k that] m(3,4) by (auto simp: key_ok_def Let_def)
  have k1: "key_ok mp ns' i" if i: "i < length ns" and l: "live (i_key (ns' ! i))" for i
  proof (cases "i = m")
    case True
    with ks m key len show ?thesis by (auto simp: key_ok_def Let_def reach_refl)
  next
    case False
    define i0 where "i0 = (if i = n then m else i)"
    have i0: "i0 < length ns" "i_key (ns' ! i) = i_key (ns ! i0)" "live (i_key (ns ! i0))"
      "(if i0 = m then n else i0) = i"
      using ks [OF i] False i l m(1) by (auto simp: i0_def)
    have o: "key_ok mp ns i0" using key_ok_live [OF k i0(1,3)] .
    define h where "h = mp (i_key (ns ! i0))"
    have h: "h < length ns" "h \<noteq> n" "h \<noteq> m"
      using o n(2) homeless [OF i0(1,3)] by (auto simp: key_ok_def Let_def h_def)
    have "reach (nx ns') h i"
      using rs [of h i0] o h(3) i0(4) by (simp add: key_ok_def Let_def h_def)
    moreover have "i_key (ns' ! h) = i_key (ns ! h)" using ks [OF h(1)] h by simp
    ultimately show ?thesis
      using o h i0(2) len by (simp add: key_ok_def Let_def h_def)
  qed
  have u: "i = j" if "i < length ns" "j < length ns" "live (i_key (ns' ! i))"
    "luaO_rawequalObj (i_key (ns' ! i)) (i_key (ns' ! j))" for i j
  proof -
    define f where "f x = (if x = n then m else x)" for x
    have f: "f x < length ns" "x \<noteq> m \<Longrightarrow> i_key (ns' ! x) = i_key (ns ! f x)" if "x < length ns" for x
      using ks [OF that] that m(1) by (auto simp: f_def)
    show ?thesis
    proof (cases "i = m \<or> j = m")
      case True
      then show ?thesis
        using that f ks m(1) fresh rawequal_sym by metis
    next
      case False
      then have "f i = f j"
        using that f k unfolding keys_ok_def by metis
      with False show ?thesis by (auto simp: f_def split: if_splits)
    qed
  qed
  have k': "keys_ok mp ns'"
    unfolding keys_ok_def len using k1 u k vs ks valn m(4) by (auto simp: keys_ok_def)
  have "hget ns' q = hget ns q" if q: "live q" for q
  proof (rule hget_moved [OF k k' q, where v = m and key = key])
    fix i assume "i < length ns" "i_val (ns ! i) \<noteq> VNil"
    then show "\<exists>j<length ns'. i_key (ns' ! j) = i_key (ns ! i) \<and> i_val (ns' ! j) = i_val (ns ! i)"
      using ks vs len n valn mn by (intro exI [of _ "if i = m then n else i"]) auto
  next
    fix j assume "j < length ns'" "j \<noteq> m"
    then show "\<exists>i<length ns. i_key (ns ! i) = i_key (ns' ! j) \<and> i_val (ns ! i) = i_val (ns' ! j)"
      using ks vs len m(1) by (intro exI [of _ "if j = n then m else j"]) auto
  qed (use m key(3) len ks vs in auto)
  with c' k' show ?thesis by (simp add: nodes_ok_def)
qed

section \<open>Tables\<close>

lemma mainposition_cong: "lsizenode t = lsizenode t' \<Longrightarrow> mainposition t = mainposition t'"
proof (rule ext)
  fix k assume "lsizenode t = lsizenode t'"
  then show "mainposition t k = mainposition t' k"
    by (cases "(t, k)" rule: mainposition.cases)
      (auto simp: hashnum_def hashstr_def hashboolean_def hashpointer_def hashmod_def sizenode_def)
qed

lemma upd_node_frame [simp]:
  "array (upd_node i f t) = array t" "sizearray (upd_node i f t) = sizearray t"
  "lsizenode (upd_node i f t) = lsizenode t" "lastfree (upd_node i f t) = lastfree t"
  "metatable (upd_node i f t) = metatable t" "flags (upd_node i f t) = flags t"
  "node (upd_node i f t) = None \<longleftrightarrow> node t = None"
  by (simp_all add: upd_node_def)

lemma nodes_upd_node [simp]:
  "node t \<noteq> None \<Longrightarrow> nodes (upd_node i f t) = (nodes t)[i := f (nodes t ! i)]"
  by (auto simp: upd_node_def nodes_def)

lemma in_array_cong: "sizearray t = sizearray t' \<Longrightarrow> in_array t = in_array t'"
  by (auto simp: in_array_def)

definition keycount :: "Node list \<Rightarrow> nat" where
  "keycount ns = card {i. i < length ns \<and> i_key (ns ! i) \<noteq> VNil}"

lemma keycount_step:
  assumes "length ns' = length ns"
    and "\<And>i. i < length ns \<Longrightarrow> i \<noteq> x \<Longrightarrow> i_key (ns' ! i) \<noteq> VNil \<Longrightarrow> i_key (ns ! i) \<noteq> VNil"
  shows "keycount ns' \<le> Suc (keycount ns)"
proof -
  have "{i. i < length ns' \<and> i_key (ns' ! i) \<noteq> VNil} \<subseteq> insert x {i. i < length ns \<and> i_key (ns ! i) \<noteq> VNil}"
    using assms by auto
  then have "keycount ns' \<le> card (insert x {i. i < length ns \<and> i_key (ns ! i) \<noteq> VNil})"
    unfolding keycount_def by (intro card_mono) auto
  also have "\<dots> \<le> Suc (keycount ns)" unfolding keycount_def by (rule card_insert_le_m1) auto
  finally show ?thesis .
qed

lemma keycount_less_ex: "keycount ns < length ns \<Longrightarrow> \<exists>i < length ns. i_key (ns ! i) = VNil"
proof (rule ccontr)
  assume k: "keycount ns < length ns" and "\<not> (\<exists>i < length ns. i_key (ns ! i) = VNil)"
  then have "{i. i < length ns \<and> i_key (ns ! i) \<noteq> VNil} = {..<length ns}" by auto
  with k show False by (simp add: keycount_def)
qed

text \<open>What an insertion leaves alone.\<close>

definition same_frame :: "Table \<Rightarrow> Table \<Rightarrow> bool" where
  "same_frame t t' \<longleftrightarrow> array t' = array t \<and> sizearray t' = sizearray t \<and> lsizenode t' = lsizenode t \<and>
     metatable t' = metatable t \<and> flags t' = flags t \<and> (node t' = None \<longleftrightarrow> node t = None)"

definition inserted :: "Table \<Rightarrow> TValue \<Rightarrow> Table \<Rightarrow> nat \<Rightarrow> bool" where
  "inserted t key t' i \<longleftrightarrow> tinv0 t' \<and> same_frame t t' \<and> i < length (nodes t') \<and>
     i_key (nodes t' ! i) = key \<and> keycount (nodes t') \<le> Suc (keycount (nodes t)) \<and>
     (\<forall>k. live k \<longrightarrow> tval t' k = tval t k)"

lemma insertedI:
  assumes inv: "tinv0 t" and fr: "same_frame t t'" and len: "length (nodes t') = length (nodes t)"
    and ok: "nodes_ok (mainposition t) (nodes t') \<and> (\<forall>k. live k \<longrightarrow> hget (nodes t') k = hget (nodes t) k)"
    and key: "\<not> in_array t key"
    and ks: "\<And>i. i < length (nodes t) \<Longrightarrow> i \<noteq> v \<Longrightarrow> i \<noteq> m \<Longrightarrow> i_key (nodes t' ! i) = i_key (nodes t ! i)"
    and kv: "i_key (nodes t' ! v) = key \<or> (\<exists>j < length (nodes t). i_key (nodes t' ! v) = i_key (nodes t ! j))"
    and km: "i_key (nodes t' ! m) = key" and m: "m < length (nodes t)" and lk: "live key"
    and old: "m \<noteq> v \<Longrightarrow> i_key (nodes t ! m) \<noteq> VNil"
    and lf: "lastfree t' \<le> lastfree t" and n: "node t \<noteq> None"
    and free: "\<And>i. i < length (nodes t) \<Longrightarrow> lastfree t' \<le> int i \<Longrightarrow> i_key (nodes t' ! i) \<noteq> VNil"
  shows "inserted t key t' m"
proof -
  have na: "\<not> in_array t (i_key (nodes t' ! i))" if "i < length (nodes t)" "live (i_key (nodes t' ! i))" for i
    using inv ks [OF that(1)] kv km key that unfolding tinv0_def by metis
  have "tinv0 t'"
    using inv fr len ok na free lf n mainposition_cong [of t' t] in_array_cong [of t' t]
    by (auto simp: tinv0_def same_frame_def sizenode_def)
  moreover have "keycount (nodes t') \<le> Suc (keycount (nodes t))"
    by (rule keycount_step [OF len, where x = v]) (use ks old in metis)
  moreover have "tval t' k = tval t k" if "live k" for k
    using ok fr that in_array_cong [of t' t] by (auto simp: tval_def same_frame_def)
  ultimately show ?thesis using fr m km len by (auto simp: inserted_def)
qed

lemma nx_upd:
  "i < length ns \<Longrightarrow> nx (ns[i := n]) j = (if j = i then nk_next n else nx ns j)"
  by (auto simp: nx_def)

lemma getfreepos_frame:
  assumes "getfreepos t = (t1, r)"
  shows "t1 = t\<lparr>lastfree := fst (getfreepos_loop (nodes t) (lastfree t))\<rparr>"
    "r = snd (getfreepos_loop (nodes t) (lastfree t))"
  using assms by (auto simp: getfreepos_def Let_def split: prod.splits)

lemma getfreepos_Some:
  assumes inv: "tinv0 t" and n: "node t \<noteq> None" and r: "getfreepos t = (t1, Some n)"
  shows "t1 = t\<lparr>lastfree := int n\<rparr>" "n < length (nodes t)" "i_key (nodes t ! n) = VNil"
    "int n < lastfree t"
    "\<And>i. i < length (nodes t) \<Longrightarrow> n < i \<Longrightarrow> i_key (nodes t ! i) \<noteq> VNil"
proof -
  obtain lf where l: "getfreepos_loop (nodes t) (lastfree t) = (lf, Some n)"
    using getfreepos_frame(2) [OF r] by (metis prod.collapse)
  from getfreepos_loop_spec [OF l] have s: "int n = lf" "int n < lastfree t" "i_key (nodes t ! n) = VNil"
    "\<forall>i. n < i \<and> int i < lastfree t \<longrightarrow> i_key (nodes t ! i) \<noteq> VNil" by auto
  show "t1 = t\<lparr>lastfree := int n\<rparr>" using getfreepos_frame(1) [OF r] l s(1) by simp
  show "n < length (nodes t)" using s(2) inv by (auto simp: tinv0_def)
  show "i_key (nodes t ! n) = VNil" "int n < lastfree t" using s by auto
  show "i_key (nodes t ! i) \<noteq> VNil" if "i < length (nodes t)" "n < i" for i
    using s(4) that inv n by (cases "int i < lastfree t") (auto simp: tinv0_def)
qed

lemma getfreepos_room:
  assumes inv: "tinv0 t" and n: "node t \<noteq> None" and room: "keycount (nodes t) < length (nodes t)"
  shows "\<exists>t1 n. getfreepos t = (t1, Some n)"
proof -
  from keycount_less_ex [OF room] obtain i where i: "i < length (nodes t)" "i_key (nodes t ! i) = VNil" by blast
  then have "int i < lastfree t" using inv n by (fastforce simp: tinv0_def)
  obtain lf r where l: "getfreepos_loop (nodes t) (lastfree t) = (lf, r)" by fastforce
  from getfreepos_loop_spec [OF l] i \<open>int i < lastfree t\<close> have "r \<noteq> None"
    by (auto split: option.splits)
  with l show ?thesis by (auto simp: getfreepos_def)
qed

lemma has_key_at: "i < length ns \<Longrightarrow> luaO_rawequalObj (i_key (ns ! i)) k \<Longrightarrow> has_key ns k"
  by (auto simp: has_key_def)

lemma newkey_put:
  assumes inv: "tinv0 t" and n: "node t \<noteq> None" and key: "live key" "\<not> isnan key"
    and new: "\<not> in_array t key" "\<not> has_key (nodes t) key"
    and m: "m = mainposition t key" "i_val (nodes t ! m) = VNil"
    and t': "put_key t m key = (t', s)"
  shows "inserted t key t' m \<and> s = NodeSlot m \<and> i_val (nodes t' ! m) = VNil"
proof -
  have ml: "m < length (nodes t)" using inv m(1) mainposition_less by (auto simp: tinv0_def)
  have nt': "nodes t' = (nodes t)[m := (nodes t ! m)\<lparr>i_key := key\<rparr>]" "s = NodeSlot m"
    using t' n by (auto simp: put_key_def)
  have fr: "same_frame t t'" "lastfree t' = lastfree t" using t' by (auto simp: put_key_def same_frame_def)
  have "nodes_ok (mainposition t) (nodes t')
    \<and> (\<forall>k. live k \<longrightarrow> hget (nodes t') k = hget (nodes t) k)"
    by (rule put_ok [where m = m and key = key])
      (use inv ml m key new nt' in \<open>auto simp: tinv0_def nth_list_update nx_upd fun_eq_iff nx_def\<close>)
  moreover have "i_key (nodes t' ! i) \<noteq> VNil" if "i < length (nodes t)" "lastfree t' \<le> int i" for i
    using that inv n key nt' fr ml by (auto simp: tinv0_def nth_list_update live_def)
  ultimately have "inserted t key t' m"
    by (intro insertedI [where v = m]) (use inv fr nt' new ml key n in auto)
  with nt' ml m(2) show ?thesis by simp
qed

lemma newkey_after:
  assumes inv: "tinv0 t" and n: "node t \<noteq> None" and key: "live key" "\<not> isnan key"
    and new: "\<not> in_array t key" "\<not> has_key (nodes t) key"
    and m: "m = mainposition t key" "i_val (nodes t ! m) \<noteq> VNil"
    and home: "mainposition t (i_key (nodes t ! m)) = m"
    and g: "getfreepos t = (t1, Some f)" and t': "put_key (chain_after t1 m f) f key = (t', s)"
  shows "inserted t key t' f \<and> s = NodeSlot f \<and> i_val (nodes t' ! f) = VNil"
proof -
  note f = getfreepos_Some [OF inv n g]
  have ml: "m < length (nodes t)" using inv m(1) mainposition_less by (auto simp: tinv0_def)
  have lm: "live (i_key (nodes t ! m))" using inv ml m(2) by (auto simp: tinv0_def nodes_ok_def keys_ok_def)
  have mf: "m \<noteq> f" using lm f(3) by auto
  have t1: "nodes t1 = nodes t" "node t1 \<noteq> None" using f(1) n by (auto simp: nodes_def)
  define ns' where "ns' = (nodes t)[f := (nodes t ! f)\<lparr>nk_next := nk_next (nodes t ! m), i_key := key\<rparr>,
      m := (nodes t ! m)\<lparr>nk_next := Some f\<rparr>]"
  have nt': "nodes t' = ns'" "s = NodeSlot f"
    using t' t1 mf ml f(2) by (auto simp: put_key_def chain_after_def ns'_def gnode_def list_update_swap)
  have fr: "same_frame t t'" "lastfree t' = int f"
    using t' f(1) by (auto simp: put_key_def chain_after_def same_frame_def)
  have valf: "i_val (nodes t ! f) = VNil"
    using inv f(2,3) by (auto simp: tinv0_def nodes_ok_def keys_ok_def)
  have "nx ns' = link_after (nx (nodes t)) m f"
    using mf ml f(2) by (auto simp: fun_eq_iff ns'_def nx_upd link_after_def) (auto simp: nx_def)
  then have "nodes_ok (mainposition t) ns' \<and> (\<forall>k. live k \<longrightarrow> hget ns' k = hget (nodes t) k)"
    by (intro after_ok [where m = m and n = f and key = key])
      (use inv ml m home lm f key new mf in \<open>auto simp: tinv0_def ns'_def nth_list_update live_def\<close>)
  moreover have "i_key (ns' ! i) \<noteq> VNil" if "i < length (nodes t)" "int f \<le> int i" for i
    using that f(5) [of i] key lm ml f(2) by (auto simp: ns'_def nth_list_update live_def)
  ultimately have "inserted t key t' f"
    by (intro insertedI [where v = f])
      (use inv fr nt' new ml key n f mf in \<open>auto simp: ns'_def nth_list_update\<close>)
  with nt' f(2) mf valf show ?thesis by (simp add: ns'_def)
qed

lemma newkey_move:
  assumes inv: "tinv0 t" and n: "node t \<noteq> None" and key: "live key" "\<not> isnan key"
    and new: "\<not> in_array t key" "\<not> has_key (nodes t) key"
    and m: "m = mainposition t key" "i_val (nodes t ! m) \<noteq> VNil"
    and away: "othern = mainposition t (i_key (nodes t ! m))" "othern \<noteq> m"
    and g: "getfreepos t = (t1, Some f)"
  shows "\<exists>t2. move_colliding t1 othern m f = Inr t2 \<and>
    (\<exists>t'. put_key t2 m key = (t', NodeSlot m) \<and> inserted t key t' m \<and> i_val (nodes t' ! m) = VNil)"
proof -
  note f = getfreepos_Some [OF inv n g]
  have ml: "m < length (nodes t)" using inv m(1) mainposition_less by (auto simp: tinv0_def)
  have ok: "chains_ok (nodes t)" "keys_ok (mainposition t) (nodes t)" "length (nodes t) = sizenode t"
    using inv by (auto simp: tinv0_def nodes_ok_def)
  have lm: "live (i_key (nodes t ! m))" using ok(2) ml m(2) by (auto simp: keys_ok_def)
  have mf: "m \<noteq> f" using lm f(3) by auto
  have t1: "nodes t1 = nodes t" "node t1 \<noteq> None" "sizenode t1 = sizenode t"
    using f(1) n by (auto simp: nodes_def sizenode_def)
  have ol: "othern < sizenode t" unfolding away(1) using inv mainposition_less by (auto simp: tinv0_def)
  have "reach (nx (nodes t)) othern m"
    using key_ok_live [OF ok(2) ml lm] away(1) by (simp add: key_ok_def Let_def)
  then obtain p where p: "reach (nx (nodes t)) othern p" "nx (nodes t) p = Some m"
    using away(2) by (auto elim: reach_lastE)
  then have pn: "nk_next (nodes t ! p) = Some m" by (simp add: nx_def split: if_splits)
  obtain r where r: "chain_find (\<lambda>nd. nk_next nd = Some m) t1 othern = Inr r"
    "\<forall>j. r = Some j \<longrightarrow> j < length (nodes t) \<and> nk_next (nodes t ! j) = Some m"
    "r = None \<longrightarrow> (\<forall>j. reach (nx (nodes t)) othern j \<longrightarrow> nk_next (nodes t ! j) \<noteq> Some m)"
    using chain_find_total [of t1 othern "\<lambda>nd. nk_next nd = Some m"] ok t1 ol by auto
  with p(1) pn obtain q where "r = Some q" by fastforce
  with r have q: "chain_find (\<lambda>nd. nk_next nd = Some m) t1 othern = Inr (Some q)"
    "q < length (nodes t)" "nx (nodes t) q = Some m" by (auto simp: nx_def)
  have qm: "q \<noteq> m" using q(3) ok(1) unfolding chains_ok_def ranked_def by (metis less_irrefl)
  have qf: "q \<noteq> f" using chains_okD(3) [OF ok(1) q(3)] f(3) by auto
  define ns2 where "ns2 = (nodes t)[q := (nodes t ! q)\<lparr>nk_next := Some f\<rparr>, f := nodes t ! m,
      m := (nodes t ! m)\<lparr>nk_next := None, i_val := VNil\<rparr>]"
  define t2 where "t2 = upd_node m (\<lambda>nd. nd\<lparr>nk_next := None, i_val := VNil\<rparr>)
     (upd_node f (\<lambda>_. nodes t ! m) (upd_node q (\<lambda>nd. nd\<lparr>nk_next := Some f\<rparr>) t1))"
  have mv: "move_colliding t1 othern m f = Inr t2"
    using q(1) qm t1 by (simp add: move_colliding_def t2_def Let_def gnode_def)
  have nt2: "nodes t2 = ns2" "node t2 \<noteq> None"
    using t1 qm mf ml by (auto simp: t2_def ns2_def nth_list_update)
  define ns' where "ns' = ns2[m := (ns2 ! m)\<lparr>i_key := key\<rparr>]"
  define t' where "t' = upd_node m (\<lambda>n. n\<lparr>i_key := key\<rparr>) t2"
  have nt': "nodes t' = ns'" using nt2 by (simp add: t'_def ns'_def)
  have fr: "same_frame t t'" "lastfree t' = int f"
    using f(1) by (auto simp: t'_def t2_def same_frame_def)
  have len: "length ns' = length (nodes t)" by (simp add: ns'_def ns2_def)
  have ks: "i_key (ns' ! i) = (if i = m then key else if i = f then i_key (nodes t ! m) else i_key (nodes t ! i))"
    and vs: "i_val (ns' ! i) = (if i = m then VNil else if i = f then i_val (nodes t ! m) else i_val (nodes t ! i))"
    if "i < length (nodes t)" for i
    using that qm qf mf q(2) ml f(2) by (auto simp: ns'_def ns2_def nth_list_update)
  have "nx ns' = swap_node (nx (nodes t)) q m f"
    using qm qf mf ml f(2) q(2)
    by (auto simp: fun_eq_iff ns'_def ns2_def nx_upd swap_node_def) (auto simp: nx_def)
  then have "nodes_ok (mainposition t) ns' \<and> (\<forall>k. live k \<longrightarrow> hget ns' k = hget (nodes t) k)"
    by (intro move_ok [where m = m and n = f and p = q and key = key])
      (use inv ml m away lm f key new q(3) len ks vs in \<open>auto simp: tinv0_def\<close>)
  moreover have "i_key (ns' ! i) \<noteq> VNil" if "i < length (nodes t)" "int f \<le> int i" for i
    using that f(5) [of i] key lm ks [OF that(1)] by (auto simp: live_def)
  ultimately have "inserted t key t' m"
    by (intro insertedI [where v = f])
      (use inv fr nt' new ml key n f mf ks len lm in \<open>auto simp: live_def\<close>)
  moreover have "i_val (nodes t' ! m) = VNil" using vs [OF ml] nt' by simp
  ultimately show ?thesis using mv by (auto simp: put_key_def t'_def)
qed

text \<open>A new key finds its place without a rehash when the vector has a node without a key.\<close>

lemma newkey_room:
  assumes inv: "tinv0 t" and n: "node t \<noteq> None" and key: "live key" "\<not> isnan key"
    and new: "\<not> in_array t key" "\<not> has_key (nodes t) key"
    and room: "keycount (nodes t) < length (nodes t)"
  shows "\<exists>t' i. newkey_body nk t key = Inr (t', NodeSlot i) \<and> inserted t key t' i
    \<and> i_val (nodes t' ! i) = VNil"
proof -
  define m where "m = mainposition t key"
  obtain t1 f where g: "getfreepos t = (t1, Some f)"
    using getfreepos_room [OF inv n room] by blast
  have t1: "nodes t1 = nodes t" "mainposition t1 = mainposition t"
    using getfreepos_Some(1) [OF inv n g] by (auto simp: nodes_def intro: mainposition_cong)
  consider (put) "i_val (nodes t ! m) = VNil"
    | (after) "i_val (nodes t ! m) \<noteq> VNil" "mainposition t (i_key (nodes t ! m)) = m"
    | (move) "i_val (nodes t ! m) \<noteq> VNil" "mainposition t (i_key (nodes t ! m)) \<noteq> m" by blast
  then show ?thesis
  proof cases
    case put
    obtain t' s where p: "put_key t m key = (t', s)" by fastforce
    from newkey_put [OF inv n key new m_def put p] p put n show ?thesis
      by (auto simp: newkey_body_def Let_def gnode_def simp flip: m_def)
  next
    case after
    obtain t' s where p: "put_key (chain_after t1 m f) f key = (t', s)" by fastforce
    from newkey_after [OF inv n key new m_def after g p] p after g t1 show ?thesis
      by (auto simp: newkey_body_def Let_def gnode_def simp flip: m_def)
  next
    case move
    from newkey_move [OF inv n key new m_def move(1) refl move(2) g] move g t1 show ?thesis
      by (auto simp: newkey_body_def Let_def gnode_def simp flip: m_def)
  qed
qed

end
