(* ===== verification/LTable_Set.thy ===== *)
theory LTable_Set
  imports LTable_Ins
begin

text \<open>
  Storing a value under a key: the pointer that a look-up or an insertion returns is written
  through, and the table is then the old one with the value under the key (\<open>stored\<close>).  The
  lemmas \<open>set_room\<close> and \<open>setnum_room\<close> say this of \<^verbatim>\<open>luaH_set\<close> and \<^verbatim>\<open>luaH_setnum\<close> on a table
  that has room for the key, so that no rehash happens.
\<close>

section \<open>Writing to a slot\<close>

lemma arrayindex_inj:
  assumes "0 < arrayindex a" "arrayindex a = arrayindex b"
  shows "luaO_rawequalObj a b"
  using arrayindex_pos [of a] arrayindex_pos [of b] assms rawequal_sym rawequal_trans by metis

lemma tval_rawequal:
  assumes "luaO_rawequalObj a b"
  shows "tval t a = tval t b"
proof -
  have "in_array t a \<longleftrightarrow> in_array t b" "arrayindex a = arrayindex b"
    using arrayindex_rawequal [OF assms] by (auto simp: in_array_def)
  moreover have "luaO_rawequalObj x a \<longleftrightarrow> luaO_rawequalObj x b" for x
    using assms rawequal_trans rawequal_sym by blast
  ultimately show ?thesis by (simp add: tval_def hget_def)
qed

text \<open>\<open>stored t key v t'\<close>: the table \<open>t'\<close> is \<open>t\<close> with \<open>v\<close> under \<open>key\<close>.\<close>

definition stored :: "Table \<Rightarrow> TValue \<Rightarrow> TValue \<Rightarrow> Table \<Rightarrow> bool" where
  "stored t key v t' \<longleftrightarrow>
     tinv0 t' \<and> length (array t') = length (array t) \<and> sizearray t' = sizearray t \<and>
     drop (sizearray t) (array t') = drop (sizearray t) (array t) \<and>
     lsizenode t' = lsizenode t \<and> metatable t' = metatable t \<and> (node t' = None \<longleftrightarrow> node t = None) \<and>
     (\<forall>k. live k \<longrightarrow> tval t' k = (if luaO_rawequalObj key k then v else tval t k))"

lemma keys_ok_val:
  assumes "keys_ok mp ns" "i < length ns" "live (i_key (ns ! i))"
  shows "keys_ok mp (ns[i := (ns ! i)\<lparr>i_val := v\<rparr>])"
proof -
  let ?ns = "ns[i := (ns ! i)\<lparr>i_val := v\<rparr>]"
  have k: "i_key (?ns ! j) = i_key (ns ! j)" if "j < length ns" for j
    using that assms(2) by (simp add: nth_list_update)
  have n: "nx ?ns = nx ns" using assms(2) by (auto simp: nx_upd fun_eq_iff) (auto simp: nx_def)
  have "key_ok mp ?ns j" if "j < length ns" "live (i_key (ns ! j))" for j
  proof -
    have o: "key_ok mp ns j" using key_ok_live [OF assms(1) that] .
    then have "mp (i_key (ns ! j)) < length ns" by (simp add: key_ok_def Let_def)
    with o k that n show ?thesis by (simp add: key_ok_def Let_def)
  qed
  then show ?thesis
    using assms k by (auto simp: keys_ok_def nth_list_update)
qed

lemma hget_upd_val:
  assumes "keys_ok mp ns" "i < length ns" "live key" "luaO_rawequalObj (i_key (ns ! i)) key" "live k"
  shows "hget (ns[i := (ns ! i)\<lparr>i_val := v\<rparr>]) k = (if luaO_rawequalObj key k then v else hget ns k)"
proof -
  let ?ns = "ns[i := (ns ! i)\<lparr>i_val := v\<rparr>]"
  have ok': "keys_ok mp ?ns"
    using keys_ok_val [OF assms(1,2)] live_rawequal [OF assms(4,3)] by blast
  have k: "i_key (?ns ! j) = i_key (ns ! j)" if "j < length ns" for j
    using that assms(2) by (simp add: nth_list_update)
  show ?thesis
  proof (cases "has_key ns k")
    case False
    then have "\<not> has_key ?ns k" "\<not> luaO_rawequalObj key k"
      using k assms(2,4) rawequal_trans by (auto simp: has_key_def)
    with False show ?thesis by (simp add: hget_none)
  next
    case True
    then obtain j where j: "j < length ns" "luaO_rawequalObj (i_key (ns ! j)) k"
      by (auto simp: has_key_def)
    have "hget ?ns k = i_val (?ns ! j)"
      using hget_some [OF ok' _ assms(5), of j] j k by simp
    moreover have "luaO_rawequalObj key k \<longleftrightarrow> i = j"
    proof
      assume "luaO_rawequalObj key k"
      with assms(4) have "luaO_rawequalObj (i_key (ns ! i)) k" using rawequal_trans by blast
      then show "i = j" using keys_unique [OF assms(1,2) j(1) assms(5)] j(2) by blast
    next
      assume "i = j"
      with j(2) assms(4) show "luaO_rawequalObj key k" using rawequal_sym rawequal_trans by blast
    qed
    moreover have "hget ns k = i_val (ns ! j)" by (rule hget_some [OF assms(1) j(1) assms(5) j(2)])
    ultimately show ?thesis using j(1) by (auto simp: nth_list_update)
  qed
qed

lemma slot_set_stored:
  assumes inv: "tinv0 t" and key: "live key" and s: "slot_for t key s" "s \<noteq> NilObject"
  shows "stored t key v (slot_set t s v) \<and> keycount (nodes (slot_set t s v)) = keycount (nodes t)
    \<and> flags (slot_set t s v) = flags t"
proof (cases s)
  case NilObject
  with s show ?thesis by simp
next
  case (ArraySlot j)
  let ?t = "slot_set t s v"
  have j: "in_array t key" "j = nat (arrayindex key - 1)" "j < sizearray t"
    using s ArraySlot by (auto simp: slot_for_def in_array_def)
  have jl: "j < length (array t)" using j(3) inv by (simp add: tinv0_def)
  have n: "nodes ?t = nodes t" by (simp add: ArraySlot nodes_def)
  have ia: "in_array ?t = in_array t" and mp: "mainposition ?t = mainposition t"
    using in_array_cong [of ?t t] mainposition_cong [of ?t t] by (simp_all add: ArraySlot)
  have "tinv0 ?t" using inv by (simp add: tinv0_def n ia mp) (simp add: ArraySlot sizenode_def)
  moreover have "tval ?t k = (if luaO_rawequalObj key k then v else tval t k)" if "live k" for k
  proof (cases "in_array t k")
    case True
    have p: "0 < arrayindex k" "0 < arrayindex key" using True j(1) by (auto simp: in_array_def)
    have "luaO_rawequalObj key k \<longleftrightarrow> arrayindex k = arrayindex key"
      using arrayindex_rawequal arrayindex_inj p by metis
    moreover have "arrayindex k = arrayindex key \<longleftrightarrow> nat (arrayindex k - 1) = j"
      using p j(2) by linarith
    ultimately have "luaO_rawequalObj key k \<longleftrightarrow> nat (arrayindex k - 1) = j" by blast
    moreover have "array ?t = (array t)[j := v]" by (simp add: ArraySlot)
    ultimately show ?thesis using True jl by (simp add: tval_def ia nth_list_update eq_commute)
  next
    case False
    then have "\<not> luaO_rawequalObj key k"
      using j(1) arrayindex_rawequal [of key k] by (auto simp: in_array_def)
    with False show ?thesis by (simp add: tval_def ia n)
  qed
  ultimately show ?thesis using n j(3) by (auto simp: stored_def ArraySlot)
next
  case (NodeSlot i)
  let ?t = "slot_set t s v"
  have i: "\<not> in_array t key" "i < length (nodes t)" "luaO_rawequalObj (i_key (nodes t ! i)) key"
    using s NodeSlot by (auto simp: slot_for_def)
  have lk: "live (i_key (nodes t ! i))" using live_rawequal [OF i(3) key] .
  have nn: "node t \<noteq> None"
  proof
    assume "node t = None"
    with i(2) lk show False by (simp add: nodes_def dummynode_def)
  qed
  have n: "nodes ?t = (nodes t)[i := (nodes t ! i)\<lparr>i_val := v\<rparr>]" using nn by (simp add: NodeSlot)
  have ks: "i_key (nodes ?t ! j) = i_key (nodes t ! j)" if "j < length (nodes t)" for j
    using that i(2) by (simp only: n nth_list_update) simp
  have ia: "in_array ?t = in_array t" and mp: "mainposition ?t = mainposition t"
    using in_array_cong [of ?t t] mainposition_cong [of ?t t] by (simp_all add: NodeSlot)
  have k: "keys_ok (mainposition t) (nodes t)" and c: "chains_ok (nodes t)"
    using inv by (auto simp: tinv0_def nodes_ok_def)
  have nxe: "nx (nodes ?t) = nx (nodes t)"
    unfolding n using i(2) by (auto simp: nx_upd fun_eq_iff) (auto simp: nx_def)
  have c': "chains_ok (nodes ?t)"
    using c ks chains_okD(1) [OF c] chains_okD(2) [OF c] unfolding chains_ok_def nxe by (simp add: n)
  have k': "keys_ok (mainposition t) (nodes ?t)"
    unfolding n by (rule keys_ok_val [OF k i(2) lk])
  have fr: "length (nodes ?t) = length (nodes t)" "sizearray ?t = sizearray t"
    "array ?t = array t" "lsizenode ?t = lsizenode t" "lastfree ?t = lastfree t"
    "node ?t = None \<longleftrightarrow> node t = None" "sizenode ?t = sizenode t"
    by (simp add: n) (simp_all add: NodeSlot sizenode_def)
  with c' k' have "tinv0 ?t"
    using inv ks by (simp add: tinv0_def ia mp nodes_ok_def)
  moreover have "tval ?t q = (if luaO_rawequalObj key q then v else tval t q)" if "live q" for q
  proof (cases "in_array t q")
    case True
    then have "\<not> luaO_rawequalObj key q"
      using i(1) arrayindex_rawequal [of key q] by (auto simp: in_array_def)
    with True show ?thesis by (simp add: tval_def ia) (simp add: NodeSlot)
  next
    case False
    then show ?thesis
      using hget_upd_val [OF k i(2) key i(3) that] by (simp add: tval_def ia n)
  qed
  moreover have "keycount (nodes ?t) = keycount (nodes t)"
    unfolding keycount_def using ks fr(1) by (intro arg_cong [where f = card]) auto
  ultimately show ?thesis using fr by (auto simp: stored_def) (auto simp: NodeSlot)
qed

section \<open>Storing when there is room\<close>

definition has_room :: "Table \<Rightarrow> TValue \<Rightarrow> bool" where
  "has_room t key \<longleftrightarrow> in_array t key \<or> has_key (nodes t) key \<or>
     node t \<noteq> None \<and> keycount (nodes t) < length (nodes t)"

text \<open>A pointer obtained by \<^verbatim>\<open>luaH_set\<close> or \<^verbatim>\<open>newkey\<close> and written through.\<close>

definition write_to :: "(Table \<times> Slot) res \<Rightarrow> TValue \<Rightarrow> Table res" where
  "write_to r v = ebind r (\<lambda>(t, s). Inr (slot_set t s v))"

lemma stored_flags: "stored t key v t' \<longleftrightarrow> stored (t\<lparr>flags := f\<rparr>) key v t'"
  by (auto simp: stored_def tval_def nodes_def in_array_def)

lemma tinv0_flags [simp]: "tinv0 (t\<lparr>flags := f\<rparr>) \<longleftrightarrow> tinv0 t"
  using mainposition_cong [of "t\<lparr>flags := f\<rparr>" t]
  by (auto simp: tinv0_def nodes_def in_array_def sizenode_def)

lemma nodes_flags [simp]: "nodes (t\<lparr>flags := f\<rparr>) = nodes t"
  by (simp add: nodes_def)

lemma slot_for_flags [simp]: "slot_for (t\<lparr>flags := f\<rparr>) k s \<longleftrightarrow> slot_for t k s"
  by (auto simp: slot_for_def in_array_def split: Slot.split)

lemma inserted_slot:
  assumes "inserted t key t' i" "\<not> in_array t key" "\<not> isnan key"
  shows "slot_for t' key (NodeSlot i)"
  using assms in_array_cong [of t' t]
  by (auto simp: inserted_def slot_for_def same_frame_def rawequal_refl_iff)

text \<open>The pointer for a key: found, or made by \<^verbatim>\<open>newkey\<close> in the room there is.\<close>

lemma get_or_new_room:
  assumes inv: "tinv0 t" and key: "live key" "\<not> isnan key" and room: "has_room t key"
    and s: "slot_for t key s"
    and r: "r = (if s \<noteq> NilObject then Inr (t, s) else newkey_body nk t key)"
  shows "\<exists>t'. write_to r v = Inr t' \<and> stored t key v t' \<and> flags t' = flags t \<and>
    keycount (nodes t') \<le> (if in_array t key then keycount (nodes t) else Suc (keycount (nodes t)))"
proof (cases "s = NilObject")
  case False
  then show ?thesis
    using slot_set_stored [OF inv key(1) s, of v] by (auto simp: r write_to_def)
next
  case True
  then have new: "\<not> in_array t key" "\<not> has_key (nodes t) key" using s by (auto simp: slot_for_def)
  with room have rm: "node t \<noteq> None" "keycount (nodes t) < length (nodes t)" by (auto simp: has_room_def)
  obtain t1 i where nk: "newkey_body nk t key = Inr (t1, NodeSlot i)" "inserted t key t1 i"
    using newkey_room [OF inv rm(1) key new rm(2)] by blast
  note sl = inserted_slot [OF nk(2) new(1) key(2)]
  have i1: "tinv0 t1" "same_frame t t1" "keycount (nodes t1) \<le> Suc (keycount (nodes t))"
    "\<forall>k. live k \<longrightarrow> tval t1 k = tval t k" using nk(2) by (auto simp: inserted_def)
  from slot_set_stored [OF i1(1) key(1) sl, of v] i1 True nk(1) new show ?thesis
    by (auto simp: r write_to_def stored_def same_frame_def)
qed

lemma set_room:
  assumes inv: "tinv0 t" and key: "live key" "\<not> isnan key" and room: "has_room t key"
  shows "\<exists>t'. write_to (luaH_set_with (newkey_body nk) t key) v = Inr t' \<and> stored t key v t' \<and>
    keycount (nodes t') \<le> (if in_array t key then keycount (nodes t) else Suc (keycount (nodes t)))"
proof -
  obtain s where s: "luaH_get t key = Inr s" "slot_for t key s"
    using luaH_get_slot [OF inv key(1)] by blast
  have r: "has_room (t\<lparr>flags := 0\<rparr>) key" "in_array (t\<lparr>flags := 0\<rparr>) = in_array t"
    using room in_array_cong [of "t\<lparr>flags := 0\<rparr>" t] by (auto simp: has_room_def)
  have "luaH_set_with (newkey_body nk) t key =
    (if s \<noteq> NilObject then Inr (t\<lparr>flags := 0\<rparr>, s) else newkey_body nk (t\<lparr>flags := 0\<rparr>) key)"
    using s(1) key by (auto simp: luaH_set_with_def Let_def live_def)
  with get_or_new_room [OF _ key r(1), where s = s and nk = nk and v = v] inv s(2) r(2) show ?thesis
    using stored_flags [of t key v _ 0] by auto
qed

lemma setnum_room:
  assumes inv: "tinv0 t" and k: "is_int k" and room: "has_room t (VNumber (cast_num k))"
  shows "\<exists>t'. write_to (luaH_setnum_with (newkey_body nk) t k) v = Inr t' \<and>
    stored t (VNumber (cast_num k)) v t' \<and>
    keycount (nodes t') \<le>
      (if in_array t (VNumber (cast_num k)) then keycount (nodes t) else Suc (keycount (nodes t)))"
proof -
  obtain s where s: "luaH_getnum t k = Inr s" "slot_for t (VNumber (cast_num k)) s"
    using luaH_getnum_slot [OF inv k] by blast
  have "luaH_setnum_with (newkey_body nk) t k =
    (if s \<noteq> NilObject then Inr (t, s) else newkey_body nk t (VNumber (cast_num k)))"
    using s(1) by (auto simp: luaH_setnum_with_def)
  with get_or_new_room [OF inv _ _ room s(2), where nk = nk and v = v] k show ?thesis
    by (auto simp: isnan_def)
qed

end
