(* ===== verification/LTable_Resize.thy ===== *)
theory LTable_Resize
  imports LTable_Set
begin

text \<open>
  \<^verbatim>\<open>resize\<close> keeps the contents of a table.  Its two loops re-insert the entries of the old
  table; \<open>filling\<close> is their invariant: what is still to be inserted fits, and every other key
  already has its value.
\<close>

section \<open>The entries of a table\<close>

definition arr_items :: "TValue list \<Rightarrow> nat list \<Rightarrow> (TValue \<times> TValue) list" where
  "arr_items a is =
     map (\<lambda>i. (VNumber (cast_num (int i + 1)), a ! i)) (filter (\<lambda>i. a ! i \<noteq> VNil) is)"

definition node_items :: "Node list \<Rightarrow> (TValue \<times> TValue) list" where
  "node_items ns = map (\<lambda>n. (i_key n, i_val n)) (filter (\<lambda>n. i_val n \<noteq> VNil) ns)"

text \<open>All entries of a table, in the order of a traversal.\<close>

definition entries :: "Table \<Rightarrow> (TValue \<times> TValue) list" where
  "entries t = arr_items (array t) [0..<sizearray t] @ node_items (nodes t)"

lemma length_entries_le: "length (entries t) \<le> sizearray t + length (nodes t)"
  using add_mono [OF length_filter_le [of "\<lambda>i. array t ! i \<noteq> VNil" "[0..<sizearray t]"]
    length_filter_le [of "\<lambda>n. i_val n \<noteq> VNil" "nodes t"]]
  by (simp add: entries_def arr_items_def node_items_def)

definition fits_array :: "nat \<Rightarrow> TValue \<Rightarrow> bool" where
  "fits_array n k \<longleftrightarrow> 0 < arrayindex k \<and> arrayindex k \<le> int n"

text \<open>The entries that need a node when the array part has \<open>n\<close> places.\<close>

definition outside :: "nat \<Rightarrow> (TValue \<times> TValue) list \<Rightarrow> nat" where
  "outside n es = length (filter (\<lambda>(k, v). \<not> fits_array n k) es)"

lemma in_array_fits: "in_array t k \<longleftrightarrow> fits_array (sizearray t) k"
  by (simp add: in_array_def fits_array_def)

lemma outside_simps [simp]:
  "outside n [] = 0"
  "outside n ((k, v) # es) = (if fits_array n k then outside n es else Suc (outside n es))"
  "outside n (xs @ ys) = outside n xs + outside n ys"
  by (simp_all add: outside_def)

lemma outside_rev: "outside n (rev es) = outside n es"
  by (simp add: outside_def flip: rev_filter)

lemma node_items_rev: "node_items (rev ns) = rev (node_items ns)"
  by (simp add: node_items_def rev_map rev_filter)

lemma small_is_int: "j < n \<Longrightarrow> int n \<le> MAXASIZE \<Longrightarrow> is_int (int j + 1)"
  by (simp add: is_int_def INT_MIN_def INT_MAX_def MAXASIZE_def MAXBITS_def)

lemma entries_sound:
  assumes inv: "tinv t" and e: "(k, v) \<in> set (entries t)"
  shows "live k \<and> \<not> isnan k \<and> v \<noteq> VNil \<and> tval t k = v"
proof -
  have inv0: "tinv0 t" and sz: "int (sizearray t) \<le> MAXASIZE" using inv by (auto simp: tinv_def tinv0_def)
  from e consider (arr) j where "j < sizearray t" "array t ! j \<noteq> VNil" "v = array t ! j"
      "k = VNumber (cast_num (int j + 1))"
    | (node) i where "i < length (nodes t)" "i_val (nodes t ! i) \<noteq> VNil" "k = i_key (nodes t ! i)"
      "v = i_val (nodes t ! i)"
    by (auto simp: entries_def arr_items_def node_items_def in_set_conv_nth)
  then show ?thesis
  proof cases
    case arr
    have "arrayindex k = int j + 1" using arr small_is_int [OF arr(1) sz] by simp
    then have "tval t k = v" using arr by (simp add: tval_def in_array_def)
    with arr small_is_int [OF arr(1) sz] show ?thesis by (simp add: isnan_def)
  next
    case node
    have ok: "keys_ok (mainposition t) (nodes t)" using inv0 by (rule tinv0_keys)
    have l: "live k" using ok node unfolding keys_ok_def by blast
    then have nn: "\<not> isnan k" using key_ok_live [OF ok node(1)] node(3) by (simp add: key_ok_def Let_def)
    have "\<not> in_array t k" using inv0 node l by (simp add: tinv0_def)
    moreover have "hget (nodes t) k = v"
      using hget_some [OF ok node(1) l] node nn by (simp add: rawequal_refl_iff)
    ultimately show ?thesis using l nn node by (simp add: tval_def)
  qed
qed

lemma entries_complete:
  assumes inv: "tinv t" and k: "live k" "tval t k \<noteq> VNil"
  shows "\<exists>k'. (k', tval t k) \<in> set (entries t) \<and> luaO_rawequalObj k' k"
proof (cases "in_array t k")
  case True
  let ?j = "nat (arrayindex k - 1)"
  have j: "?j < sizearray t" "int ?j + 1 = arrayindex k" using True by (auto simp: in_array_def)
  have "(VNumber (cast_num (int ?j + 1)), tval t k) \<in> set (entries t)"
    using j k(2) True by (force simp: entries_def arr_items_def tval_def)
  moreover have "luaO_rawequalObj (VNumber (cast_num (int ?j + 1))) k"
    using arrayindex_pos [of k] True unfolding j(2) by (simp add: in_array_def)
  ultimately show ?thesis by blast
next
  case False
  then have v: "tval t k = hget (nodes t) k" by (simp add: tval_def)
  with k have "has_key (nodes t) k" using hget_none by metis
  then obtain i where i: "i < length (nodes t)" "luaO_rawequalObj (i_key (nodes t ! i)) k"
    by (auto simp: has_key_def)
  have "tval t k = i_val (nodes t ! i)"
    using hget_some [OF tinv0_keys i(1) k(1) i(2)] inv v by (simp add: tinv_def)
  moreover from this have "(i_key (nodes t ! i), i_val (nodes t ! i)) \<in> set (node_items (nodes t))"
    using i(1) k(2) by (auto simp: node_items_def)
  ultimately show ?thesis using i(2) by (auto simp: entries_def)
qed

section \<open>The re-insertion loops\<close>

definition capacity :: "Table \<Rightarrow> nat" where
  "capacity t = (if node t = None then 0 else length (nodes t))"

definition filling :: "(TValue \<Rightarrow> TValue) \<Rightarrow> nat \<Rightarrow> nat \<Rightarrow> nat \<Rightarrow> (TValue \<times> TValue) list \<Rightarrow> Table \<Rightarrow> bool" where
  "filling F sz cap c es t \<longleftrightarrow>
     tinv0 t \<and> sizearray t = sz \<and> capacity t = cap \<and> keycount (nodes t) + outside sz es \<le> c \<and> c \<le> cap \<and>
     (\<forall>(k, v) \<in> set es. live k \<and> \<not> isnan k \<and> F k = v) \<and>
     (\<forall>q. live q \<longrightarrow> (\<exists>(k, v) \<in> set es. luaO_rawequalObj k q) \<or> tval t q = F q)"

lemma capacity_stored: "stored t key v t' \<Longrightarrow> tinv0 t \<Longrightarrow> capacity t' = capacity t"
  by (simp add: stored_def capacity_def tinv0_def sizenode_def)

lemma filling_step:
  assumes fl: "filling F sz cap c ((k, v) # es) t" and F: "\<And>a b. luaO_rawequalObj a b \<Longrightarrow> F a = F b"
    and st: "stored t k v t'"
    and kc: "keycount (nodes t') \<le> (if in_array t k then keycount (nodes t) else Suc (keycount (nodes t)))"
  shows "filling F sz cap c es t'"
proof -
  have a: "tval t' q = F q" if q: "live q" and no: "\<not> (\<exists>(k', v') \<in> set es. luaO_rawequalObj k' q)" for q
  proof (cases "luaO_rawequalObj k q")
    case True
    then have "tval t' q = v" using st q by (simp add: stored_def)
    moreover have "F k = v" using fl by (simp add: filling_def)
    ultimately show ?thesis using F [OF True] by simp
  next
    case False
    have "(\<exists>(k', v') \<in> set ((k, v) # es). luaO_rawequalObj k' q) \<or> tval t q = F q"
      using fl q unfolding filling_def by blast
    then have "tval t q = F q" using no False by auto
    then show ?thesis using st q False by (simp add: stored_def)
  qed
  have b: "tinv0 t" "sizearray t = sz" "capacity t = cap" "c \<le> cap"
    "\<forall>(k, v) \<in> set es. live k \<and> \<not> isnan k \<and> F k = v"
    using fl by (auto simp: filling_def)
  have "keycount (nodes t') + outside sz es \<le> c"
    using fl kc by (simp add: filling_def in_array_fits split: if_splits)
  moreover have "capacity t' = cap" using capacity_stored [OF st b(1)] b(3) by simp
  moreover have "tinv0 t'" "sizearray t' = sz" using st b(2) by (simp_all add: stored_def)
  ultimately show ?thesis unfolding filling_def using a b(4,5) by blast
qed

lemma filling_room:
  assumes "filling F sz cap c ((k, v) # es) t"
  shows "has_room t k" "live k" "\<not> isnan k" "tinv0 t"
  using assms by (auto simp: filling_def has_room_def in_array_fits capacity_def split: if_splits)

lemma reinsert_node_step:
  assumes fl: "filling F sz cap c (node_items (n # ns)) t"
    and F: "\<And>a b. luaO_rawequalObj a b \<Longrightarrow> F a = F b"
  shows "\<exists>t'. reinsert_node (newkey_body nk) n t = Inr t' \<and> filling F sz cap c (node_items ns) t' \<and>
    length (array t') = length (array t) \<and> metatable t' = metatable t"
proof (cases "i_val n = VNil")
  case True
  with fl show ?thesis by (simp add: reinsert_node_def node_items_def)
next
  case False
  then have fl': "filling F sz cap c ((i_key n, i_val n) # node_items ns) t"
    using fl by (simp add: node_items_def)
  note r = filling_room [OF fl']
  obtain t' where t': "write_to (luaH_set_with (newkey_body nk) t (i_key n)) (i_val n) = Inr t'"
    "stored t (i_key n) (i_val n) t'"
    "keycount (nodes t') \<le> (if in_array t (i_key n) then keycount (nodes t) else Suc (keycount (nodes t)))"
    using set_room [OF r(4) r(2,3,1), of nk "i_val n"] by blast
  have "reinsert_node (newkey_body nk) n t = Inr t'"
    using t'(1) False by (simp add: reinsert_node_def write_to_def)
  with filling_step [OF fl' F t'(2,3)] t'(2) show ?thesis by (auto simp: stored_def)
qed

lemma reinsert_nodes:
  assumes fl: "filling F sz cap c (node_items ns) t"
    and F: "\<And>a b. luaO_rawequalObj a b \<Longrightarrow> F a = F b"
  shows "\<exists>t'. efold (reinsert_node (newkey_body nk)) ns t = Inr t' \<and> filling F sz cap c [] t' \<and>
    length (array t') = length (array t) \<and> metatable t' = metatable t"
proof -
  let ?P = "\<lambda>ns t'. filling F sz cap c (node_items ns) t' \<and> length (array t') = length (array t) \<and>
    metatable t' = metatable t"
  have "\<exists>t'. efold (reinsert_node (newkey_body nk)) ns t = Inr t' \<and> ?P [] t'"
  proof (rule efold_rule)
    show "?P ns t" using fl by simp
    fix n ns' t1
    assume P: "?P (n # ns') t1"
    then have "filling F sz cap c (node_items (n # ns')) t1" by blast
    from reinsert_node_step [OF this F] P
    show "\<exists>t'. reinsert_node (newkey_body nk) n t1 = Inr t' \<and> ?P ns' t'" by metis
  qed
  then show ?thesis by (simp add: node_items_def)
qed

lemma reinsert_array_step:
  assumes fl: "filling F sz cap c (arr_items (array t) (i # is) @ es) t"
    and F: "\<And>a b. luaO_rawequalObj a b \<Longrightarrow> F a = F b"
    and i: "sz \<le> i" "i < n" "int n \<le> MAXASIZE"
  shows "\<exists>t'. reinsert_array (newkey_body nk) i t = Inr t' \<and>
    filling F sz cap c (arr_items (array t) is @ es) t' \<and>
    drop sz (array t') = drop sz (array t) \<and> length (array t') = length (array t) \<and>
    metatable t' = metatable t"
proof (cases "array t ! i = VNil")
  case True
  with fl show ?thesis by (simp add: reinsert_array_def arr_items_def)
next
  case False
  let ?k = "VNumber (cast_num (int i + 1))" and ?v = "array t ! i"
  have fl': "filling F sz cap c ((?k, ?v) # arr_items (array t) is @ es) t"
    using fl False by (simp add: arr_items_def)
  note r = filling_room [OF fl']
  obtain t' where t': "write_to (luaH_setnum_with (newkey_body nk) t (int i + 1)) ?v = Inr t'"
    "stored t ?k ?v t'"
    "keycount (nodes t') \<le> (if in_array t ?k then keycount (nodes t) else Suc (keycount (nodes t)))"
    using setnum_room [OF r(4) small_is_int [OF i(2,3)] r(1), of nk ?v] by blast
  have "reinsert_array (newkey_body nk) i t = Inr t'"
    using t'(1) False by (simp add: reinsert_array_def write_to_def)
  moreover have "sizearray t = sz" using fl by (simp add: filling_def)
  ultimately show ?thesis using filling_step [OF fl' F t'(2,3)] t'(2) by (auto simp: stored_def)
qed

lemma arr_items_cong:
  assumes "drop sz (array t') = drop sz (array t)" "length (array t') = length (array t)"
    "sz \<le> length (array t)" "\<forall>i \<in> set is. sz \<le> i"
  shows "arr_items (array t') is = arr_items (array t) is"
proof -
  have e: "array t' ! i = array t ! i" if "i \<in> set is" for i
    using assms nth_drop [of sz "array t'" "i - sz"] nth_drop [of sz "array t" "i - sz"] that by simp
  then have "filter (\<lambda>i. array t' ! i \<noteq> VNil) is = filter (\<lambda>i. array t ! i \<noteq> VNil) is"
    by (intro filter_cong) auto
  with e show ?thesis by (simp add: arr_items_def)
qed

lemma reinsert_arrays:
  assumes "filling F sz cap c (arr_items (array t) is @ es) t"
    and F: "\<And>a b. luaO_rawequalObj a b \<Longrightarrow> F a = F b"
    and "\<forall>i \<in> set is. sz \<le> i \<and> i < n" "int n \<le> MAXASIZE"
  shows "\<exists>t'. efold (reinsert_array (newkey_body nk)) is t = Inr t' \<and> filling F sz cap c es t' \<and>
    length (array t') = length (array t) \<and> metatable t' = metatable t"
  using assms(1,3)
proof (induction "is" arbitrary: t)
  case Nil
  then show ?case by (simp add: arr_items_def)
next
  case (Cons i "is")
  have i: "sz \<le> i" "i < n" and js: "\<forall>i \<in> set is. sz \<le> i \<and> i < n" using Cons.prems by auto
  obtain t1 where t1: "reinsert_array (newkey_body nk) i t = Inr t1"
    "filling F sz cap c (arr_items (array t) is @ es) t1" "drop sz (array t1) = drop sz (array t)"
    "length (array t1) = length (array t)" "metatable t1 = metatable t"
    using reinsert_array_step [OF Cons.prems(1) F i assms(4)] by blast
  have "sz \<le> length (array t)" using Cons.prems(1) by (auto simp: filling_def tinv0_def)
  then have "arr_items (array t1) is = arr_items (array t) is"
    using arr_items_cong t1(3,4) js by blast
  then obtain t' where "efold (reinsert_array (newkey_body nk)) is t1 = Inr t'" "filling F sz cap c es t'"
    "length (array t') = length (array t1)" "metatable t' = metatable t1"
    using Cons.IH [OF _ js] t1(2) by metis
  with t1 show ?case by simp
qed

section \<open>Resizing\<close>

lemma empty_nodes_ok: "nodes_ok mp (replicate n empty_node)"
  by (auto simp: nodes_ok_def chains_ok_def keys_ok_def nx_def empty_node_def live_def ranked_def)

lemma nodes_ok_dummy: "nodes_ok mp [dummynode]"
  using empty_nodes_ok [of mp 1] by (simp add: empty_node_def dummynode_def)

lemma ceillog2_le:
  assumes "1 \<le> x" "x \<le> 2 ^ 31"
  shows "nat (ceillog2 x) \<le> l \<longleftrightarrow> x \<le> 2 ^ l"
proof
  assume "nat (ceillog2 x) \<le> l"
  then have "(2::int) ^ nat (ceillog2 x) \<le> 2 ^ l" by (intro power_increasing) auto
  with ceillog2_spec(3) [OF assms] show "x \<le> 2 ^ l" by linarith
next
  assume x: "x \<le> 2 ^ l"
  show "nat (ceillog2 x) \<le> l"
  proof (rule ccontr)
    assume n: "\<not> nat (ceillog2 x) \<le> l"
    then have "2 ^ nat (ceillog2 x - 1) < x" using ceillog2_spec(4) [OF assms] by linarith
    moreover have "(2::int) ^ l \<le> 2 ^ nat (ceillog2 x - 1)" using n by (intro power_increasing) auto
    ultimately show False using x by linarith
  qed
qed

definition fresh_table :: "Table \<Rightarrow> bool" where
  "fresh_table t \<longleftrightarrow> tinv0 t \<and> (\<forall>k. hget (nodes t) k = VNil) \<and> keycount (nodes t) = 0"

lemma setnodevector_cases:
  assumes a: "sizearray t \<le> length (array t)" "int (sizearray t) \<le> MAXASIZE" and n: "n \<le> 2 ^ 30"
  shows "setnodevector t n = Inl (ErrRun ''table overflow'') \<and> 2 ^ MAXBITS < n \<or>
    (\<exists>t'. setnodevector t n = Inr t' \<and> fresh_table t' \<and> n \<le> capacity t' \<and> array t' = array t \<and>
      sizearray t' = sizearray t \<and> metatable t' = metatable t)"
proof (cases "n = 0")
  case True
  then show ?thesis
    using a nodes_ok_dummy
    by (auto simp: setnodevector_def fresh_table_def tinv0_def nodes_def sizenode_def twoto_def hget_def
        keycount_def dummynode_def capacity_def live_def)
next
  case False
  define l where "l = nat (ceillog2 (int n))"
  have c: "0 \<le> ceillog2 (int n)" "n \<le> 2 ^ l"
    using ceillog2_spec [of "int n"] False n by (auto simp: l_def simp flip: of_nat_power of_nat_le_iff)
  show ?thesis
  proof (cases "ceillog2 (int n) > int MAXBITS")
    case True
    then have "\<not> nat (ceillog2 (int n)) \<le> MAXBITS" by simp
    moreover have "1 \<le> int n" "int n \<le> 2 ^ 31" using False n by auto
    ultimately have "\<not> int n \<le> 2 ^ MAXBITS" using ceillog2_le by blast
    then have "2 ^ MAXBITS < n" by (simp flip: of_nat_power of_nat_le_iff)
    with True False show ?thesis by (simp add: setnodevector_def Let_def)
  next
    case le: False
    let ?t = "t\<lparr>node := Some (replicate (twoto l) empty_node), lsizenode := l, lastfree := int (twoto l)\<rparr>"
    have "setnodevector t n = Inr ?t" using False le by (simp add: setnodevector_def l_def Let_def)
    moreover have "l \<le> MAXBITS" using le c(1) by (simp add: l_def)
    then have "tinv0 ?t"
      using a empty_nodes_ok
      by (auto simp: tinv0_def nodes_def sizenode_def empty_node_def live_def)
    moreover have "hget (nodes ?t) k = VNil" for k
      by (auto simp: hget_def nodes_def find_Some_iff empty_node_def split: option.split)
    moreover have "keycount (nodes ?t) = 0" by (simp add: keycount_def nodes_def empty_node_def)
    ultimately show ?thesis using c(2) by (auto simp: fresh_table_def capacity_def nodes_def twoto_def)
  qed
qed

lemma fresh_no_live: "fresh_table t \<Longrightarrow> i < length (nodes t) \<Longrightarrow> \<not> live (i_key (nodes t ! i))"
  by (auto simp: fresh_table_def keycount_def live_def card_eq_0_iff)

lemma fresh_shrink:
  assumes "fresh_table t" "n \<le> sizearray t"
  shows "fresh_table (t\<lparr>sizearray := n\<rparr>)"
proof -
  have "nodes (t\<lparr>sizearray := n\<rparr>) = nodes t" "mainposition (t\<lparr>sizearray := n\<rparr>) = mainposition t"
    by (auto simp: nodes_def intro: mainposition_cong)
  with assms fresh_no_live [OF assms(1)] show ?thesis
    by (auto simp: fresh_table_def tinv0_def sizenode_def)
qed

lemma outside_old:
  assumes "int (sizearray t) \<le> MAXASIZE"
  shows "outside n (arr_items (array t) [n..<sizearray t] @ node_items (rev (nodes t))) = outside n (entries t)"
proof -
  have low: "outside n (arr_items (array t) [0..<m]) = 0" if "m \<le> n" "m \<le> sizearray t" for m
    unfolding outside_def using that assms small_is_int [of _ "sizearray t"]
    by (auto simp: arr_items_def fits_array_def filter_empty_conv)
  have "outside n (arr_items (array t) [0..<sizearray t]) = outside n (arr_items (array t) [n..<sizearray t])"
  proof (cases "n \<le> sizearray t")
    case True
    then have "[0..<sizearray t] = [0..<n] @ [n..<sizearray t]"
      using upt_add_eq_append [of 0 n "sizearray t - n"] by simp
    with low [of n] True show ?thesis by (simp add: arr_items_def)
  next
    case False
    with low [of "sizearray t"] show ?thesis by (simp add: arr_items_def)
  qed
  then show ?thesis by (simp add: entries_def node_items_rev outside_rev)
qed

lemma filling_start:
  assumes inv: "tinv t" and fr: "fresh_table u" and sz: "sizearray u = n"
    and arr: "\<And>i. i < n \<Longrightarrow> array u ! i = (if i < sizearray t then array t ! i else VNil)"
    and c: "outside n (entries t) \<le> c" "c \<le> capacity u"
  shows "filling (tval t) n (capacity u) c
    (arr_items (array t) [n..<sizearray t] @ node_items (rev (nodes t))) u"
proof -
  let ?es = "arr_items (array t) [n..<sizearray t] @ node_items (rev (nodes t))"
  have bound: "int (sizearray t) \<le> MAXASIZE" using inv by (simp add: tinv_def tinv0_def)
  have sub: "set ?es \<subseteq> set (entries t)" by (auto simp: entries_def node_items_rev arr_items_def)
  have "(\<exists>(k, v) \<in> set ?es. luaO_rawequalObj k q) \<or> tval u q = tval t q" if q: "live q" for q
  proof (cases "in_array u q")
    case True
    let ?i = "nat (arrayindex q - 1)"
    have i: "?i < n" "tval u q = array u ! ?i" using True sz by (auto simp: in_array_def tval_def)
    show ?thesis
    proof (cases "?i < sizearray t")
      case True
      then have "in_array t q" using \<open>in_array u q\<close> by (auto simp: in_array_def)
      with i arr True show ?thesis by (simp add: tval_def)
    next
      case False
      then have u: "tval u q = VNil" "\<not> in_array t q" using i arr by (auto simp: in_array_def)
      show ?thesis
      proof (cases "tval t q = VNil")
        case ne: False
        then obtain k where k: "(k, tval t q) \<in> set (entries t)" "luaO_rawequalObj k q"
          using entries_complete [OF inv q] by blast
        have "\<not> (k, tval t q) \<in> set (arr_items (array t) [0..<sizearray t])"
        proof
          assume "(k, tval t q) \<in> set (arr_items (array t) [0..<sizearray t])"
          then obtain j where "j < sizearray t" "k = VNumber (cast_num (int j + 1))"
            by (auto simp: arr_items_def)
          with small_is_int [OF _ bound, of j] arrayindex_rawequal [OF k(2)] u(2)
          show False by (simp add: in_array_def)
        qed
        with k show ?thesis by (force simp: entries_def node_items_rev)
      qed (use u in simp)
    qed
  next
    case False
    then have u: "tval u q = VNil" using fr by (simp add: tval_def fresh_table_def)
    show ?thesis
    proof (cases "tval t q = VNil")
      case ne: False
      then obtain k where k: "(k, tval t q) \<in> set (entries t)" "luaO_rawequalObj k q"
        using entries_complete [OF inv q] by blast
      have "(k, tval t q) \<in> set ?es"
      proof (cases "(k, tval t q) \<in> set (node_items (nodes t))")
        case no: False
        with k obtain j where j: "j < sizearray t" "k = VNumber (cast_num (int j + 1))"
          "tval t q = array t ! j" by (auto simp: entries_def arr_items_def)
        with small_is_int [OF _ bound, of j] arrayindex_rawequal [OF k(2)] False sz
        have "n \<le> j" by (simp add: in_array_def)
        with j ne show ?thesis by (auto simp: arr_items_def)
      qed (simp add: node_items_rev)
      with k show ?thesis by blast
    qed (use u in simp)
  qed
  moreover have "\<forall>(k, v) \<in> set ?es. live k \<and> \<not> isnan k \<and> tval t k = v"
    using sub entries_sound [OF inv] by blast
  moreover have "keycount (nodes u) + outside n ?es \<le> c"
    using fr c(1) outside_old [OF bound, of n] by (simp add: fresh_table_def)
  ultimately show ?thesis using fr sz c(2) unfolding filling_def by (auto simp: fresh_table_def)
qed

lemma filling_truncate:
  assumes "filling F sz cap c es t"
  shows "filling F sz cap c es (t\<lparr>array := take sz (array t)\<rparr>)"
proof -
  let ?t = "t\<lparr>array := take sz (array t)\<rparr>"
  have sz: "sizearray t = sz" "sz \<le> length (array t)" using assms by (auto simp: filling_def tinv0_def)
  have n: "nodes ?t = nodes t" "mainposition ?t = mainposition t" "in_array ?t = in_array t"
    by (auto simp: nodes_def intro: mainposition_cong in_array_cong)
  have "tval ?t q = tval t q" for q
    using sz by (auto simp: tval_def n in_array_def)
  moreover have "tinv0 ?t" using assms sz by (simp add: filling_def tinv0_def n sizenode_def)
  moreover have "capacity ?t = capacity t" by (simp add: capacity_def n)
  ultimately show ?thesis using assms by (simp add: filling_def n)
qed

text \<open>A resize to sizes that suffice keeps the contents and leaves the room that was asked for.\<close>

lemma resize_keeps:
  assumes inv: "tinv t" and na: "int nasize \<le> MAXASIZE" and nh: "nhsize \<le> 2 ^ 30"
    and c: "outside nasize (entries t) \<le> nhsize"
  shows "resize_with (newkey_body nk) t nasize nhsize = Inl (ErrRun ''table overflow'') \<and>
      2 ^ MAXBITS < nhsize \<or>
    (\<exists>t'. resize_with (newkey_body nk) t nasize nhsize = Inr t' \<and> tinv t' \<and> sizearray t' = nasize \<and>
      metatable t' = metatable t \<and> (\<forall>k. live k \<longrightarrow> tval t' k = tval t k) \<and> nhsize \<le> capacity t' \<and>
      keycount (nodes t') \<le> outside nasize (entries t))"
proof -
  define old where "old = sizearray t"
  define es where "es = arr_items (array t) [nasize..<old] @ node_items (rev (nodes t))"
  have bound: "int old \<le> MAXASIZE" "length (array t) = old" "length (nodes t) = sizenode t"
    using inv by (auto simp: tinv_def tinv0_def old_def)
  have nold: "take (twoto (lsizenode t)) (nodes t) = nodes t" using bound(3) by (simp add: sizenode_def)
  define t1 where "t1 = (if nasize > old then setarrayvector t nasize else t)"
  have t1: "sizearray t1 = max nasize old" "length (array t1) = max nasize old" "metatable t1 = metatable t"
    "\<And>i. i < max nasize old \<Longrightarrow> array t1 ! i = (if i < old then array t ! i else VNil)"
    using bound(2) by (auto simp: t1_def setarrayvector_def old_def nth_append)
  have rw: "luaO_rawequalObj a b \<Longrightarrow> tval t a = tval t b" for a b by (rule tval_rawequal)
  consider (err) "setnodevector t1 nhsize = Inl (ErrRun ''table overflow'')" "2 ^ MAXBITS < nhsize"
    | (ok) t2 where "setnodevector t1 nhsize = Inr t2" "fresh_table t2" "nhsize \<le> capacity t2"
      "array t2 = array t1" "sizearray t2 = sizearray t1" "metatable t2 = metatable t1"
  proof -
    have "sizearray t1 \<le> length (array t1)" "int (sizearray t1) \<le> MAXASIZE"
      using t1(1,2) na bound(1) by (simp_all add: max_def)
    from setnodevector_cases [OF this nh] show thesis using that by blast
  qed
  then show ?thesis
  proof cases
    case err
    then show ?thesis by (simp add: resize_with_def Let_def old_def t1_def)
  next
    case ok
    define u where "u = t2\<lparr>sizearray := nasize\<rparr>"
    have u: "fresh_table u" "sizearray u = nasize" "array u = array t1" "capacity u = capacity t2"
      "metatable u = metatable t"
      using ok t1 fresh_shrink [OF ok(2), of nasize] by (auto simp: u_def capacity_def nodes_def)
    have start: "filling (tval t) nasize (capacity t2) (outside nasize (entries t)) es u"
      unfolding es_def old_def u(4) [symmetric]
      by (rule filling_start [OF inv u(1,2)]) (use u t1(4) ok(3) c old_def in auto)
    have fl: "\<exists>t4. (if nasize < old
        then ebind (efold (reinsert_array (newkey_body nk)) [nasize..<old] u)
               (\<lambda>t3. Inr (t3\<lparr>array := take nasize (array t3)\<rparr>))
        else Inr t2) = Inr t4 \<and>
      filling (tval t) nasize (capacity t2) (outside nasize (entries t)) (node_items (rev (nodes t))) t4 \<and>
      length (array t4) = nasize \<and> metatable t4 = metatable t"
    proof (cases "nasize < old")
      case False
      then have e: "u = t2" using ok(5) t1(1) by (simp add: u_def)
      have "es = node_items (rev (nodes t))" using False by (simp add: es_def arr_items_def)
      with False start show ?thesis unfolding e using ok(4,6) t1(2,3) by simp
    next
      case True
      then have "arr_items (array u) [nasize..<old] = arr_items (array t) [nasize..<old]"
        using u(3) by (simp add: t1_def)
      then have "filling (tval t) nasize (capacity t2) (outside nasize (entries t))
          (arr_items (array u) [nasize..<old] @ node_items (rev (nodes t))) u"
        using start by (simp add: es_def)
      moreover have js: "\<forall>i \<in> set [nasize..<old]. nasize \<le> i \<and> i < old" by simp
      ultimately obtain t3
        where t3: "efold (reinsert_array (newkey_body nk)) [nasize..<old] u = Inr t3"
          "filling (tval t) nasize (capacity t2) (outside nasize (entries t)) (node_items (rev (nodes t))) t3"
          "length (array t3) = length (array u)" "metatable t3 = metatable u"
        using reinsert_arrays [where F = "tval t", OF _ rw js bound(1)] by blast
      with filling_truncate [OF t3(2)] True u t1 show ?thesis by simp
    qed
    then obtain t4 where t4: "(if nasize < old
        then ebind (efold (reinsert_array (newkey_body nk)) [nasize..<old] u)
               (\<lambda>t3. Inr (t3\<lparr>array := take nasize (array t3)\<rparr>))
        else Inr t2) = Inr t4"
      "filling (tval t) nasize (capacity t2) (outside nasize (entries t)) (node_items (rev (nodes t))) t4"
      "length (array t4) = nasize" "metatable t4 = metatable t" by blast
    obtain t' where t': "efold (reinsert_node (newkey_body nk)) (rev (nodes t)) t4 = Inr t'"
      "filling (tval t) nasize (capacity t2) (outside nasize (entries t)) [] t'"
      "length (array t') = length (array t4)" "metatable t' = metatable t4"
      using reinsert_nodes [OF t4(2) rw] by blast
    have "resize_with (newkey_body nk) t nasize nhsize =
      ebind (if nasize < old
        then ebind (efold (reinsert_array (newkey_body nk)) [nasize..<old] u)
               (\<lambda>t3. Inr (t3\<lparr>array := take nasize (array t3)\<rparr>))
        else Inr t2) (\<lambda>t4. efold (reinsert_node (newkey_body nk)) (rev (nodes t)) t4)"
      unfolding resize_with_def Let_def nold old_def [symmetric] t1_def [symmetric] ok(1) ebind_simps
        u_def by (rule refl)
    then have "resize_with (newkey_body nk) t nasize nhsize = Inr t'"
      by (simp only: t4(1) ebind_simps t'(1))
    with t' t4 ok(3) show ?thesis by (auto simp: filling_def tinv_def)
  qed
qed

end
