(* ===== verification/LTable_Rehash.thy ===== *)
theory LTable_Rehash
  imports LTable_Resize
begin

text \<open>
  The sizes that \<^verbatim>\<open>rehash\<close> chooses.  \<^verbatim>\<open>numusearray\<close>, \<^verbatim>\<open>numusehash\<close> and \<^verbatim>\<open>countint\<close> count the
  integer keys in slices of powers of two; the counts are exact, \<^verbatim>\<open>computesizes\<close> picks the
  largest array that is more than half full, and the hash part is given a node for every other
  entry and for the new key.
\<close>

section \<open>Slices\<close>

definition bucket :: "nat \<Rightarrow> TValue \<Rightarrow> bool" where
  "bucket l k \<longleftrightarrow> fits_array (2 ^ MAXBITS) k \<and> nat (ceillog2 (arrayindex k)) = l"

definition cnt :: "('a \<Rightarrow> bool) \<Rightarrow> 'a list \<Rightarrow> nat" where
  "cnt P xs = length (filter P xs)"

lemma cnt_simps [simp]:
  "cnt P [] = 0"
  "cnt P (x # xs) = (if P x then Suc (cnt P xs) else cnt P xs)"
  "cnt P (xs @ ys) = cnt P xs + cnt P ys"
  "cnt P (rev xs) = cnt P xs"
  by (simp_all add: cnt_def flip: rev_filter)

lemma fits_array_mono: "fits_array m k \<Longrightarrow> m \<le> n \<Longrightarrow> fits_array n k"
  by (simp add: fits_array_def)

lemma bucket_sum_one:
  assumes "j \<le> MAXBITS"
  shows "(\<Sum>l<Suc j. if bucket l k then 1 else 0 :: nat) = (if fits_array (2 ^ j) k then 1 else 0)"
proof (cases "fits_array (2 ^ MAXBITS) k")
  case True
  then have "nat (ceillog2 (arrayindex k)) \<le> j \<longleftrightarrow> arrayindex k \<le> 2 ^ j"
    by (intro ceillog2_le) (auto simp: fits_array_def MAXBITS_def)
  moreover have "0 < arrayindex k" using True by (simp add: fits_array_def)
  ultimately have "fits_array (2 ^ j) k \<longleftrightarrow> nat (ceillog2 (arrayindex k)) < Suc j"
    by (auto simp: fits_array_def)
  then show ?thesis using True by (simp add: bucket_def)
next
  case False
  then have "\<not> fits_array (2 ^ j) k"
    using fits_array_mono [of "2 ^ j" k "2 ^ MAXBITS"] assms by (auto simp: power_increasing)
  with False show ?thesis by (simp add: bucket_def)
qed

lemma bucket_sum:
  assumes "j \<le> MAXBITS"
  shows "(\<Sum>l<Suc j. cnt (bucket l) K) = cnt (fits_array (2 ^ j)) K"
proof (induction K)
  case (Cons k K)
  have "(\<Sum>l<Suc j. cnt (bucket l) (k # K)) =
    (\<Sum>l<Suc j. (if bucket l k then 1 else 0) + cnt (bucket l) K)"
    by (intro sum.cong) auto
  also have "\<dots> = (if fits_array (2 ^ j) k then 1 else 0) + cnt (fits_array (2 ^ j)) K"
    unfolding sum.distrib Cons.IH bucket_sum_one [OF assms] ..
  finally show ?case by simp
qed simp

text \<open>The counters hold the number of keys in every slice.\<close>

definition counts :: "nat list \<Rightarrow> TValue list \<Rightarrow> bool" where
  "counts nums K \<longleftrightarrow> length nums = Suc MAXBITS \<and> (\<forall>l \<le> MAXBITS. nums ! l = cnt (bucket l) K)"

lemma countint_counts:
  assumes "counts nums K" "countint k nums = (nums', c)"
  shows "counts nums' (k # K)" "c = (if fits_array (2 ^ MAXBITS) k then 1 else 0)"
proof -
  let ?l = "nat (ceillog2 (arrayindex k))"
  have m: "0 < arrayindex k \<and> arrayindex k \<le> MAXASIZE \<longleftrightarrow> fits_array (2 ^ MAXBITS) k"
    by (simp add: fits_array_def MAXASIZE_def)
  have l: "?l \<le> MAXBITS" if "fits_array (2 ^ MAXBITS) k"
    using that ceillog2_le [of "arrayindex k" MAXBITS] by (simp add: fits_array_def MAXBITS_def)
  show "c = (if fits_array (2 ^ MAXBITS) k then 1 else 0)" "counts nums' (k # K)"
    using assms l by (auto simp: countint_def Let_def m counts_def bucket_def nth_list_update split: if_splits)
qed

lemma numusehash_loop_counts:
  assumes "counts nums K" "numusehash_loop ns nums a u = (nums', a', u')"
  shows "counts nums' (rev (map fst (node_items ns)) @ K) \<and>
    a' = a + cnt (fits_array (2 ^ MAXBITS)) (map fst (node_items ns)) \<and> u' = u + length (node_items ns)"
  using assms
proof (induction ns arbitrary: nums K a u)
  case Nil
  then show ?case by (simp add: node_items_def)
next
  case (Cons n ns)
  show ?case
  proof (cases "i_val n = VNil")
    case True
    with Cons.IH [OF Cons.prems(1)] Cons.prems(2) show ?thesis by (simp add: node_items_def)
  next
    case False
    obtain nums1 c where c: "countint (i_key n) nums = (nums1, c)" by fastforce
    note k = countint_counts [OF Cons.prems(1) c]
    have "numusehash_loop ns nums1 (a + c) (u + 1) = (nums', a', u')"
      using Cons.prems(2) False c by simp
    from Cons.IH [OF k(1) this] False k(2) show ?thesis by (simp add: node_items_def)
  qed
qed

section \<open>The slices of the array part\<close>

lemma filter_upt_between:
  assumes "a \<le> lo" "lo \<le> hi" "hi \<le> b"
  shows "filter (\<lambda>j. Q j \<and> lo \<le> j \<and> j < hi) [a..<b] = filter Q [lo..<hi]"
proof -
  have "[a..<b] = [a..<lo] @ [lo..<hi] @ [hi..<b]"
    using assms upt_add_eq_append [of a lo "b - lo"] upt_add_eq_append [of lo hi "b - hi"] by simp
  moreover have "filter (\<lambda>j. Q j \<and> lo \<le> j \<and> j < hi) [a..<lo] = []"
    "filter (\<lambda>j. Q j \<and> lo \<le> j \<and> j < hi) [hi..<b] = []"
    by (simp_all add: filter_empty_conv)
  moreover have "filter (\<lambda>j. Q j \<and> lo \<le> j \<and> j < hi) [lo..<hi] = filter Q [lo..<hi]"
    by (intro filter_cong) auto
  ultimately show ?thesis by simp
qed

text \<open>The first array key of slice \<open>l\<close>, cut off at the end of the array.\<close>

definition slice_start :: "nat \<Rightarrow> nat \<Rightarrow> nat" where
  "slice_start sz l = (if l = 0 then 1 else Suc (min (2 ^ (l - 1)) sz))"

lemma bucket_slice:
  assumes "1 \<le> j" "j \<le> sz" "sz \<le> 2 ^ MAXBITS"
  shows "bucket l (VNumber (cast_num (int j))) \<longleftrightarrow> slice_start sz l \<le> j \<and> j < Suc (min (2 ^ l) sz)"
proof -
  have i: "is_int (int j)"
    using small_is_int [of "j - 1" sz] assms by (simp add: MAXASIZE_nat MAXBITS_def)
  have c: "nat (ceillog2 (int j)) \<le> m \<longleftrightarrow> j \<le> 2 ^ m" for m
    using ceillog2_le [of "int j" m] assms by (simp add: MAXBITS_def flip: of_nat_power of_nat_le_iff)
  have "bucket l (VNumber (cast_num (int j))) \<longleftrightarrow> nat (ceillog2 (int j)) = l"
    using i assms by (simp add: bucket_def fits_array_def flip: of_nat_power of_nat_le_iff)
  also have "\<dots> \<longleftrightarrow> nat (ceillog2 (int j)) \<le> l \<and> (l = 0 \<or> \<not> nat (ceillog2 (int j)) \<le> l - 1)" by auto
  finally show ?thesis using assms unfolding c slice_start_def by auto
qed

definition arr_keys :: "Table \<Rightarrow> TValue list" where
  "arr_keys t = map fst (arr_items (array t) [0..<sizearray t])"

lemma arr_keys_count:
  "cnt P (arr_keys t) =
    length (filter (\<lambda>j. array t ! (j - 1) \<noteq> VNil \<and> P (VNumber (cast_num (int j)))) [1..<Suc (sizearray t)])"
proof -
  have "[1..<Suc n] = map Suc [0..<n]" for n by (simp add: map_Suc_upt)
  then show ?thesis
    by (simp add: arr_keys_def cnt_def arr_items_def filter_map o_def conj_commute add.commute)
qed

lemma slice_start_le: "slice_start sz l \<le> Suc (min (2 ^ l) sz)"
proof (cases l)
  case (Suc m)
  have "min ((2::nat) ^ m) sz \<le> min (2 ^ l) sz" unfolding Suc by (intro min.mono power_increasing) auto
  then show ?thesis by (simp add: Suc slice_start_def)
qed (simp add: slice_start_def)

lemma slice_count:
  assumes "sizearray t \<le> 2 ^ MAXBITS"
  shows "length (filter (\<lambda>j. array t ! (j - 1) \<noteq> VNil)
      [slice_start (sizearray t) l..<Suc (min (2 ^ l) (sizearray t))]) = cnt (bucket l) (arr_keys t)"
proof -
  have "filter (\<lambda>j. array t ! (j - 1) \<noteq> VNil \<and> bucket l (VNumber (cast_num (int j)))) [1..<Suc (sizearray t)]
    = filter (\<lambda>j. array t ! (j - 1) \<noteq> VNil \<and> slice_start (sizearray t) l \<le> j \<and>
        j < Suc (min (2 ^ l) (sizearray t))) [1..<Suc (sizearray t)]"
    using bucket_slice [of _ "sizearray t"] assms by (intro filter_cong) auto
  also have "\<dots> = filter (\<lambda>j. array t ! (j - 1) \<noteq> VNil)
      [slice_start (sizearray t) l..<Suc (min (2 ^ l) (sizearray t))]"
    by (intro filter_upt_between slice_start_le) (auto simp: slice_start_def)
  finally show ?thesis by (simp add: arr_keys_count)
qed

lemma numusearray_loop_counts:
  assumes sz: "sizearray t \<le> 2 ^ MAXBITS"
    and r: "numusearray_loop t [l..<Suc MAXBITS] (slice_start (sizearray t) l) nums a = (nums', a')"
    and l: "l \<le> Suc MAXBITS" and n: "length nums = Suc MAXBITS"
    and lo: "\<forall>j < l. nums ! j = cnt (bucket j) (arr_keys t)"
    and hi: "\<forall>j. l \<le> j \<longrightarrow> j \<le> MAXBITS \<longrightarrow> nums ! j = 0"
    and a: "a = (\<Sum>j<l. cnt (bucket j) (arr_keys t))"
  shows "counts nums' (arr_keys t) \<and> a' = (\<Sum>j<Suc MAXBITS. cnt (bucket j) (arr_keys t))"
  using r l n lo hi a
proof (induction "Suc MAXBITS - l" arbitrary: l nums a)
  case 0
  then have "l = Suc MAXBITS" by simp
  with 0 show ?case by (simp add: counts_def)
next
  case (Suc d)
  then have l: "[l..<Suc MAXBITS] = l # [Suc l..<Suc MAXBITS]" "l \<le> MAXBITS" by (auto simp: upt_conv_Cons)
  let ?sz = "sizearray t" let ?c = "cnt (bucket l) (arr_keys t)"
  have lim: "(if twoto l > ?sz then ?sz else twoto l) = min (2 ^ l) ?sz" by (simp add: twoto_def)
  show ?case
  proof (cases "twoto l > ?sz \<and> slice_start ?sz l > min (2 ^ l) ?sz")
    case True
    then have r: "nums' = nums" "a' = a" using Suc.prems(1) l lim by (auto simp: Let_def)
    have z: "cnt (bucket j) (arr_keys t) = 0" if "l \<le> j" for j
    proof -
      have "[slice_start ?sz j..<Suc (min (2 ^ j) ?sz)] = []"
      proof (cases "j = l")
        case False
        then have "(2::nat) ^ l \<le> 2 ^ (j - 1)" using that by (intro power_increasing) auto
        then have "?sz < 2 ^ (j - 1)" using True unfolding twoto_def by linarith
        then have "min (2 ^ (j - 1)) ?sz = ?sz" by simp
        with False that show ?thesis by (simp add: slice_start_def)
      qed (use True in \<open>simp add: twoto_def min_def split: if_splits\<close>)
      with slice_count [OF sz, of j] show ?thesis by simp
    qed
    have "(\<Sum>j<Suc MAXBITS. cnt (bucket j) (arr_keys t)) = (\<Sum>j<l. cnt (bucket j) (arr_keys t))"
      using z l(2) by (intro sum.mono_neutral_right) auto
    moreover have "nums ! j = cnt (bucket j) (arr_keys t)" if "j \<le> MAXBITS" for j
      using Suc.prems(4,5) z [of j] that by (cases "j < l") auto
    ultimately show ?thesis using r Suc.prems(3,6) by (simp add: counts_def)
  next
    case False
    have nx: "max (slice_start ?sz l) (Suc (min (2 ^ l) ?sz)) = slice_start ?sz (Suc l)"
      using slice_start_le [of ?sz l] by (simp add: slice_start_def max_def)
    have "numusearray_loop t [Suc l..<Suc MAXBITS] (slice_start ?sz (Suc l)) (nums[l := ?c]) (a + ?c) = (nums', a')"
      using Suc.prems(1) False Suc.prems(5) l
      by (simp add: Let_def lim nx slice_count [OF sz, unfolded One_nat_def] del: upt_Suc)
    from Suc.hyps(1) [OF _ this] Suc.hyps(2) Suc.prems l(2) show ?thesis
      by (auto simp: nth_list_update)
  qed
qed

lemma arr_keys_fit:
  assumes "sizearray t \<le> 2 ^ MAXBITS"
  shows "cnt (fits_array (2 ^ MAXBITS)) (arr_keys t) = length (arr_keys t)"
  using assms small_is_int [of _ "sizearray t"]
  by (auto simp: arr_keys_def cnt_def arr_items_def fits_array_def filter_id_conv MAXASIZE_nat MAXBITS_def
      intro!: arg_cong [where f = length])

lemma numusearray_counts:
  assumes sz: "sizearray t \<le> 2 ^ MAXBITS"
    and r: "numusearray t (replicate (Suc MAXBITS) 0) = (nums, a)"
  shows "counts nums (arr_keys t) \<and> a = length (arr_keys t)"
proof -
  have "counts nums (arr_keys t) \<and> a = (\<Sum>j<Suc MAXBITS. cnt (bucket j) (arr_keys t))"
    by (rule numusearray_loop_counts [OF sz, of 0])
      (use r in \<open>auto simp: numusearray_def slice_start_def simp del: upt_Suc replicate_Suc\<close>)
  then show ?thesis using bucket_sum [of MAXBITS "arr_keys t"] arr_keys_fit [OF sz] by simp
qed

section \<open>The best array size\<close>

text \<open>\<open>usage nums l\<close>: how many keys lie in \<open>1..2 ^ l\<close>.\<close>

definition usage :: "nat list \<Rightarrow> nat \<Rightarrow> nat" where
  "usage nums l = sum_list (take (Suc l) nums)"

definition sizes_ok :: "nat list \<Rightarrow> nat \<Rightarrow> nat \<times> nat \<Rightarrow> bool" where
  "sizes_ok nums i r \<longleftrightarrow> (case r of (n, na) \<Rightarrow>
     (n = 0 \<and> na = 0 \<or> (\<exists>l < i. n = 2 ^ l \<and> na = usage nums l \<and> n div 2 < na)) \<and>
     (\<forall>l < i. 0 < nums ! l \<longrightarrow> 2 ^ l div 2 < usage nums l \<longrightarrow> 2 ^ l \<le> n))"

lemma sizes_ok_extend:
  assumes "sizes_ok nums i r" "i \<le> j" "\<And>l. i \<le> l \<Longrightarrow> l < j \<Longrightarrow> 0 < nums ! l \<Longrightarrow>
    2 ^ l div 2 < usage nums l \<Longrightarrow> 2 ^ l \<le> fst r"
  shows "sizes_ok nums j r"
proof -
  have "2 ^ l \<le> fst r" if "l < j" "0 < nums ! l" "2 ^ l div 2 < usage nums l" for l
    using assms that by (cases "l < i") (auto simp: sizes_ok_def split: prod.splits)
  moreover have "fst r = 0 \<and> snd r = 0 \<or>
    (\<exists>l < j. fst r = 2 ^ l \<and> snd r = usage nums l \<and> fst r div 2 < snd r)"
    using assms(1,2) less_le_trans unfolding sizes_ok_def by (fastforce split: prod.splits)
  ultimately show ?thesis by (simp add: sizes_ok_def case_prod_beta)
qed

lemma sum_take_le: "sum_list (take i nums) \<le> sum_list (nums :: nat list)"
  by (metis append_take_drop_id le_add1 sum_list_append)

lemma sum_take_zero:
  assumes "sum_list (take i nums) = sum_list (nums :: nat list)" "i \<le> l" "l < length nums"
  shows "nums ! l = 0"
proof -
  have "sum_list (drop i nums) = 0"
    using assms(1) by (metis append_take_drop_id add_cancel_left_right sum_list_append)
  moreover have "drop i nums ! (l - i) = nums ! l" "l - i < length (drop i nums)"
    using assms by auto
  then have "nums ! l \<in> set (drop i nums)" by (metis nth_mem)
  ultimately show ?thesis by (simp add: sum_list_eq_0_iff)
qed

lemma compute_loop_ok:
  assumes "sizes_ok nums i (n, na)" "narray = sum_list nums" "a = sum_list (take i nums)"
    "a < narray \<or> narray = 0" "i \<le> length nums"
  shows "sizes_ok nums (length nums) (compute_loop nums narray i a na n)"
  using assms
proof (induction nums narray i a na n rule: compute_loop.induct)
  case (1 nums narray i a na n)
  show ?case
  proof (cases "twoto i div 2 < narray")
    case False
    have "2 ^ l \<le> fst (n, na)" if l: "i \<le> l" "2 ^ l div 2 < usage nums l" for l
    proof -
      have "(2::nat) ^ i \<le> 2 ^ l" using l(1) by (intro power_increasing) auto
      then have "(2::nat) ^ i div 2 \<le> 2 ^ l div 2" by (rule div_le_mono)
      with False l(2) sum_take_le [of "Suc l" nums] 1(3) show ?thesis
        by (simp add: twoto_def usage_def)
    qed
    then have "sizes_ok nums (length nums) (n, na)" by (intro sizes_ok_extend [OF 1(2,6)]) blast
    with False show ?thesis by (subst compute_loop.simps) simp
  next
    case True
    then have n0: "a < sum_list nums" using 1(3,5) by linarith
    then have i: "i < length nums" using 1(4,6) by (cases "i = length nums") auto
    define a' where "a' = a + nums ! i"
    let ?up = "0 < nums ! i \<and> a' > twoto i div 2"
    define na' where "na' = (if ?up then a' else na)"
    define n' where "n' = (if ?up then twoto i else n)"
    have a': "a' = usage nums i" "a' = sum_list (take (Suc i) nums)"
      using i 1(4) by (simp_all add: a'_def usage_def take_Suc_conv_app_nth)
    have step: "compute_loop nums narray i a na n =
      (if a' = narray then (n', na') else compute_loop nums narray (Suc i) a' na' n')"
      using True by (subst compute_loop.simps) (simp add: Let_def a'_def na'_def n'_def)
    have nn: "2 ^ l \<le> n'" if "2 ^ l \<le> n" for l
    proof (cases ?up)
      case up: True
      from that 1(2) obtain m where "m < i" "n = 2 ^ m" by (auto simp: sizes_ok_def)
      then have "n \<le> 2 ^ i" by (simp add: power_increasing)
      with that have "2 ^ l \<le> (2::nat) ^ i" by (rule order_trans)
      with up show ?thesis by (simp add: n'_def twoto_def)
    qed (use that in \<open>auto simp: n'_def\<close>)
    have ok: "sizes_ok nums (Suc i) (n', na')"
    proof -
      have "n' = 0 \<and> na' = 0 \<or> (\<exists>l < Suc i. n' = 2 ^ l \<and> na' = usage nums l \<and> n' div 2 < na')"
      proof (cases ?up)
        case up: True
        then show ?thesis using a'(1) by (auto simp: n'_def na'_def twoto_def)
      next
        case no: False
        then have "n' = n" "na' = na" by (auto simp: n'_def na'_def)
        with 1(2) show ?thesis unfolding sizes_ok_def using less_SucI by auto
      qed
      moreover have "2 ^ l \<le> n'" if "l < Suc i" "0 < nums ! l" "2 ^ l div 2 < usage nums l" for l
      proof (cases "l = i")
        case True
        with that a'(1) show ?thesis by (simp add: n'_def twoto_def)
      next
        case False
        with that 1(2) have "2 ^ l \<le> n" by (simp add: sizes_ok_def)
        then show ?thesis by (rule nn)
      qed
      ultimately show ?thesis by (simp add: sizes_ok_def)
    qed
    show ?thesis
    proof (cases "a' = narray")
      case fin: True
      then have z: "nums ! l = 0" if "Suc i \<le> l" "l < length nums" for l
        using sum_take_zero [OF _ that] a'(2) 1(3) by simp
      have "sizes_ok nums (length nums) (n', na')"
        by (rule sizes_ok_extend [OF ok]) (use z i in auto)
      with step fin show ?thesis by simp
    next
      case more: False
      have "a' < narray" using more sum_take_le [of "Suc i" nums] a'(2) 1(3) by simp
      then have "sizes_ok nums (length nums) (compute_loop nums narray (Suc i) a' na' n')"
        using ok a'(2) 1(3) i
        by (intro 1(1) [OF True, of a' "(na', n')" na' n']) (auto simp: a'_def na'_def n'_def)
      with step more show ?thesis by simp
    qed
  qed
qed

text \<open>
  \<^verbatim>\<open>computesizes\<close> returns the largest power of two \<open>n\<close> such that more than half of the slots
  \<open>1..n\<close> are in use and a key lies in the upper half, with the number of keys that go there.
\<close>

lemma computesizes_ok:
  "sizes_ok nums (length nums) (computesizes nums (sum_list nums))"
  unfolding computesizes_def
  by (rule compute_loop_ok) (auto simp: sizes_ok_def sum_list_eq_0_iff)

lemma counts_usage:
  assumes "counts nums K" "l \<le> MAXBITS"
  shows "usage nums l = cnt (fits_array (2 ^ l)) K"
proof -
  have "usage nums l = (\<Sum>j<Suc l. nums ! j)"
    using assms by (simp add: usage_def counts_def sum_list_sum_nth atLeast0LessThan min_def)
  also have "\<dots> = (\<Sum>j<Suc l. cnt (bucket j) K)" using assms by (intro sum.cong) (auto simp: counts_def)
  finally show ?thesis using bucket_sum [OF assms(2)] by simp
qed

section \<open>The sizes chosen by a rehash\<close>

lemma outside_cnt: "outside n es + cnt (fits_array n) (map fst es) = length es"
  by (induction es) (auto simp: outside_def)

lemma cnt_perm_rev: "cnt P (k # rev xs @ ys) = cnt P (k # ys @ xs)"
  by simp

lemma rehash_sizes_ok:
  assumes sz: "sizearray t \<le> 2 ^ MAXBITS" and n: "length (nodes t) = sizenode t"
    and r: "rehash_sizes t ek = (nasize, nhsize)"
  shows "nasize \<le> 2 ^ MAXBITS \<and>
    nhsize = outside nasize (entries t) + (if fits_array nasize ek then 0 else 1)"
proof -
  obtain nums1 na1 where c1: "numusearray t (replicate (Suc MAXBITS) 0) = (nums1, na1)" by fastforce
  note k1 = numusearray_counts [OF sz c1]
  obtain nums2 a2 u2 where c2: "numusehash_loop (rev (nodes t)) nums1 0 0 = (nums2, a2, u2)"
    using prod_cases3 by blast
  let ?N = "map fst (node_items (nodes t))"
  have k2: "counts nums2 (?N @ arr_keys t)" "a2 = cnt (fits_array (2 ^ MAXBITS)) ?N"
    "u2 = length (node_items (nodes t))"
    using numusehash_loop_counts [OF conjunct1 [OF k1] c2] by (simp_all add: node_items_rev flip: rev_map)
  obtain nums3 c3 where c3: "countint ek nums2 = (nums3, c3)" by fastforce
  note k3 = countint_counts [OF k2(1) c3]
  let ?K = "ek # ?N @ arr_keys t"
  have len: "length nums3 = Suc MAXBITS" using k3(1) by (simp add: counts_def)
  note all = arr_keys_fit [OF sz]
  have "sum_list nums3 = usage nums3 MAXBITS" using len by (simp add: usage_def)
  also have "\<dots> = na1 + a2 + c3"
    using counts_usage [OF k3(1), of MAXBITS] k1 k2(2) k3(2) all by simp
  finally have sum: "na1 + a2 + c3 = sum_list nums3" by simp
  obtain na where cs: "computesizes nums3 (sum_list nums3) = (nasize, na)"
    "nhsize = na1 + u2 + 1 - na"
    using r n c1 c2 c3 sum
    by (auto simp: rehash_sizes_def numusehash_def Let_def sizenode_def simp del: replicate_Suc split: prod.splits)
  have "nasize = 0 \<and> na = 0 \<or> (\<exists>l < Suc MAXBITS. nasize = 2 ^ l \<and> na = usage nums3 l)"
    using computesizes_ok [of nums3] cs(1) len by (auto simp: sizes_ok_def)
  then have "nasize \<le> 2 ^ MAXBITS \<and> na = cnt (fits_array nasize) ?K"
  proof
    assume "nasize = 0 \<and> na = 0"
    moreover have "\<not> fits_array 0 k" for k by (simp add: fits_array_def)
    ultimately show ?thesis by (simp add: cnt_def)
  next
    assume "\<exists>l < Suc MAXBITS. nasize = 2 ^ l \<and> na = usage nums3 l"
    then show ?thesis using counts_usage [OF k3(1)] by (auto intro: power_increasing)
  qed
  moreover have "outside nasize (entries t) + cnt (fits_array nasize) (?N @ arr_keys t) = na1 + u2"
    using outside_cnt [of nasize "entries t"] k1 k2(3) by (simp add: entries_def arr_keys_def)
  ultimately show ?thesis using cs(2) by auto
qed

end
