(* ===== verification/LTable_Ops.thy ===== *)
theory LTable_Ops
  imports LTable_Rehash
begin

text \<open>
  The operations of ltable.c as a client sees them.  Every operation keeps \<open>tinv\<close>; a store
  changes the value of its key and of no other; the only error on a good key is the overflow of
  the node vector, and one level of nested rehashing (\<open>newkey = newkey_n 2\<close>) is always enough.
\<close>

section \<open>Inserting a new key\<close>

text \<open>What a returned pointer is good for: the key's slot in a table with the same contents.\<close>

definition slot_ready :: "Table \<Rightarrow> TValue \<Rightarrow> Table \<times> Slot \<Rightarrow> bool" where
  "slot_ready t key r \<longleftrightarrow> (case r of (t', s) \<Rightarrow>
     tinv t' \<and> slot_for t' key s \<and> s \<noteq> NilObject \<and> metatable t' = metatable t \<and>
     (\<forall>k. live k \<longrightarrow> tval t' k = tval t k))"

definition table_overflow :: lua_error where
  "table_overflow = ErrRun ''table overflow''"

lemma inserted_ready:
  assumes "inserted t key t' i" "tinv t" "\<not> in_array t key" "\<not> isnan key"
  shows "slot_ready t key (t', NodeSlot i)"
  using assms inserted_slot [OF assms(1,3,4)]
  by (auto simp: slot_ready_def inserted_def same_frame_def tinv_def)

lemma newkey_room_ready:
  assumes inv: "tinv t" and key: "live key" "\<not> isnan key" and new: "\<not> in_array t key" "\<not> has_key (nodes t) key"
    and room: "node t \<noteq> None" "keycount (nodes t) < length (nodes t)"
  shows "\<exists>r. newkey_body nk t key = Inr r \<and> slot_ready t key r"
proof -
  have "tinv0 t" using inv by (simp add: tinv_def)
  from newkey_room [OF this room(1) key new room(2), of nk] inserted_ready [OF _ inv new(1) key(2)]
  show ?thesis by blast
qed

lemma set_room_ready:
  assumes inv: "tinv t" and key: "live key" "\<not> isnan key" and room: "has_room t key"
  shows "\<exists>r. luaH_set_with (newkey_body nk) t key = Inr r \<and> slot_ready t key r"
proof -
  let ?t = "t\<lparr>flags := 0\<rparr>"
  have inv0: "tinv0 t" "tinv ?t" using inv by (simp_all add: tinv_def)
  obtain s where s: "luaH_get t key = Inr s" "slot_for t key s"
    using luaH_get_slot [OF inv0(1) key(1)] by blast
  have e: "luaH_set_with (newkey_body nk) t key =
    (if s \<noteq> NilObject then Inr (?t, s) else newkey_body nk ?t key)"
    using s(1) key by (auto simp: luaH_set_with_def Let_def live_def)
  have v: "tval ?t k = tval t k" for k by (auto simp: tval_def nodes_def in_array_def)
  show ?thesis
  proof (cases "s = NilObject")
    case False
    with e s(2) inv0(2) v show ?thesis by (simp add: slot_ready_def)
  next
    case True
    then have "\<not> in_array ?t key" "\<not> has_key (nodes ?t) key" "node ?t \<noteq> None"
      "keycount (nodes ?t) < length (nodes ?t)"
      using s(2) room by (auto simp: slot_for_def has_room_def in_array_def)
    from newkey_room_ready [OF inv0(2) key this, of nk] e True v show ?thesis
      by (auto simp: slot_ready_def)
  qed
qed

lemma getfreepos_None:
  assumes inv: "tinv t" and g: "getfreepos t = (t1, None)"
  shows "tinv t1" "tval t1 k = tval t k" "metatable t1 = metatable t" "in_array t1 = in_array t"
    "nodes t1 = nodes t"
proof -
  obtain lf where l: "getfreepos_loop (nodes t) (lastfree t) = (lf, None)" "t1 = t\<lparr>lastfree := lf\<rparr>"
    using getfreepos_frame [OF g] by (metis prod.collapse)
  from getfreepos_loop_spec [OF l(1)] have s: "lf \<le> lastfree t"
    "\<forall>i. int i < lastfree t \<longrightarrow> i_key (nodes t ! i) \<noteq> VNil" by auto
  show n: "nodes t1 = nodes t" and ia: "in_array t1 = in_array t" and "metatable t1 = metatable t"
    by (auto simp: l(2) nodes_def in_array_def)
  have mp: "mainposition t1 = mainposition t" by (rule mainposition_cong) (simp add: l(2))
  have all: "i_key (nodes t ! i) \<noteq> VNil" if "i < length (nodes t)" "node t \<noteq> None" for i
    using that s inv unfolding tinv_def tinv0_def by (meson linorder_not_less)
  show "tval t1 k = tval t k" unfolding tval_def n ia by (simp add: l(2))
  show "tinv t1"
    using inv s all unfolding tinv_def tinv0_def n ia mp by (simp add: l(2) sizenode_def) linarith
qed

text \<open>A rehash makes room for the new key, or the node vector would be too long.\<close>

lemma rehash_room:
  assumes inv: "tinv t" and key: "live key" "\<not> isnan key"
  shows "rehash_with (newkey_body nk) t key = Inl table_overflow \<or>
    (\<exists>t'. rehash_with (newkey_body nk) t key = Inr t' \<and> tinv t' \<and> has_room t' key \<and>
      metatable t' = metatable t \<and> (\<forall>k. live k \<longrightarrow> tval t' k = tval t k))"
proof -
  obtain na nh where r: "rehash_sizes t key = (na, nh)" by fastforce
  have sz: "sizearray t \<le> 2 ^ MAXBITS" "length (nodes t) = sizenode t" "lsizenode t \<le> MAXBITS"
    "sizearray t = length (array t)"
    using inv by (simp_all add: tinv_def tinv0_def MAXASIZE_nat MAXBITS_def)
  have nl: "length (nodes t) \<le> 2 ^ MAXBITS"
    unfolding sz(2) sizenode_def twoto_def using sz(3) by (intro power_increasing) auto
  note ok = rehash_sizes_ok [OF sz(1,2) r]
  note length_entries_le [of t]
  then have "outside na (entries t) \<le> 2 ^ MAXBITS + 2 ^ MAXBITS"
    using sz nl outside_cnt [of na "entries t"] by linarith
  then have nh: "nh \<le> 2 ^ 30" "outside na (entries t) \<le> nh" using ok by (simp_all add: MAXBITS_def)
  have na: "int na \<le> MAXASIZE" using ok by (simp add: MAXASIZE_nat MAXBITS_def)
  have e: "rehash_with (newkey_body nk) t key = resize_with (newkey_body nk) t na nh"
    by (simp add: rehash_with_def r)
  from resize_keeps [OF inv na nh, of nk] show ?thesis
  proof
    assume "\<exists>t'. resize_with (newkey_body nk) t na nh = Inr t' \<and> tinv t' \<and> sizearray t' = na \<and>
      metatable t' = metatable t \<and> (\<forall>k. live k \<longrightarrow> tval t' k = tval t k) \<and> nh \<le> capacity t' \<and>
      keycount (nodes t') \<le> outside na (entries t)"
    then obtain t' where t': "resize_with (newkey_body nk) t na nh = Inr t'" "tinv t'" "sizearray t' = na"
      "metatable t' = metatable t" "\<forall>k. live k \<longrightarrow> tval t' k = tval t k" "nh \<le> capacity t'"
      "keycount (nodes t') \<le> outside na (entries t)" by blast
    have "has_room t' key"
      using ok t'(3,6,7) by (auto simp: has_room_def in_array_fits capacity_def split: if_splits)
    with t' e show ?thesis by auto
  qed (use e in \<open>simp add: table_overflow_def\<close>)
qed

lemma newkey_n_Suc: "newkey_n (Suc d) = newkey_body (newkey_n d)"
  by (intro ext) simp

lemma newkey_ready:
  assumes inv: "tinv t" and key: "live key" "\<not> isnan key" and new: "\<not> in_array t key" "\<not> has_key (nodes t) key"
  shows "newkey_body (newkey_body nk) t key = Inl table_overflow \<or>
    (\<exists>r. newkey_body (newkey_body nk) t key = Inr r \<and> slot_ready t key r)"
proof -
  define m where "m = mainposition t key"
  have inv0: "tinv0 t" using inv by (simp add: tinv_def)
  show ?thesis
  proof (cases "i_val (nodes t ! m) = VNil \<and> node t \<noteq> None")
    case True
    obtain t' s where p: "put_key t m key = (t', s)" by fastforce
    with newkey_put [OF inv0 _ key new m_def _ p] True have "inserted t key t' m" "s = NodeSlot m" by auto
    with inserted_ready [OF _ inv new(1) key(2)] p True show ?thesis
      by (auto simp: newkey_body_def Let_def gnode_def simp flip: m_def)
  next
    case full: False
    obtain t1 f where g: "getfreepos t = (t1, f)" by fastforce
    show ?thesis
    proof (cases f)
      case None
      note g1 = getfreepos_None [OF inv g [unfolded None]]
      have e: "newkey_body (newkey_body nk) t key =
        ebind (rehash_with (newkey_body nk) t1 key) (\<lambda>t2. luaH_set_with (newkey_body nk) t2 key)"
        using full g None by (simp add: newkey_body_def [of "newkey_body nk"] Let_def gnode_def flip: m_def)
      from rehash_room [OF g1(1) key, of nk] show ?thesis
      proof
        assume "\<exists>t'. rehash_with (newkey_body nk) t1 key = Inr t' \<and> tinv t' \<and> has_room t' key \<and>
          metatable t' = metatable t1 \<and> (\<forall>k. live k \<longrightarrow> tval t' k = tval t1 k)"
        then obtain t2 where t2: "rehash_with (newkey_body nk) t1 key = Inr t2" "tinv t2" "has_room t2 key"
          "metatable t2 = metatable t1" "\<forall>k. live k \<longrightarrow> tval t2 k = tval t1 k" by blast
        from set_room_ready [OF t2(2) key t2(3), of nk] e t2 g1(2,3) show ?thesis
          by (auto simp: slot_ready_def)
      qed (use e in simp)
    next
      case (Some n)
      have nn: "node t \<noteq> None"
      proof
        assume n: "node t = None"
        obtain lf where l: "getfreepos_loop (nodes t) (lastfree t) = (lf, Some n)"
          using getfreepos_frame(2) [OF g] Some by (metis prod.collapse)
        have "int n < lastfree t" using getfreepos_loop_spec [OF l] by auto
        moreover have "lastfree t \<le> 0" using inv0 n by (simp add: tinv0_def)
        ultimately show False by simp
      qed
      note f = getfreepos_Some(2,3) [OF inv0 nn g [unfolded Some]]
      have "{i. i < length (nodes t) \<and> i_key (nodes t ! i) \<noteq> VNil} \<subset> {..<length (nodes t)}" using f by auto
      then have "keycount (nodes t) < length (nodes t)"
        unfolding keycount_def by (metis card_lessThan finite_lessThan psubset_card_mono)
      from newkey_room_ready [OF inv key new nn this] show ?thesis by blast
    qed
  qed
qed

section \<open>The store functions\<close>

lemma newkey_ops:
  "luaH_set = luaH_set_with (newkey_body (newkey_body (newkey_n 0)))"
  "luaH_setnum = luaH_setnum_with (newkey_body (newkey_body (newkey_n 0)))"
  "luaH_setstr = luaH_setstr_with (newkey_body (newkey_body (newkey_n 0)))"
  "resize = resize_with (newkey_body (newkey_body (newkey_n 0)))"
  by (simp_all add: luaH_set_def luaH_setnum_def luaH_setstr_def resize_def newkey_def newkey_n_Suc
      numeral_2_eq_2)

text \<open>The common part: the pointer found by a look-up, or that of the new key.\<close>

lemma found_or_new:
  assumes inv: "tinv t" and key: "live key" "\<not> isnan key" and s: "slot_for t key s"
    and r: "r = (if s \<noteq> NilObject then Inr (t, s) else newkey_body (newkey_body nk) t key)"
  shows "r = Inl table_overflow \<and> tval t key = VNil \<or> (\<exists>p. r = Inr p \<and> slot_ready t key p)"
proof (cases "s = NilObject")
  case True
  then have n: "\<not> in_array t key" "\<not> has_key (nodes t) key" using s by (auto simp: slot_for_def)
  then have "tval t key = VNil" by (simp add: tval_def hget_none)
  with newkey_ready [OF inv key n, of nk] r True show ?thesis by auto
next
  case False
  with assms show ?thesis by (auto simp: slot_ready_def)
qed

lemma luaH_set_ready:
  assumes inv: "tinv t" and key: "live key" "\<not> isnan key"
  shows "luaH_set t key = Inl table_overflow \<and> tval t key = VNil \<or>
    (\<exists>p. luaH_set t key = Inr p \<and> slot_ready t key p)"
proof -
  let ?t = "t\<lparr>flags := 0\<rparr>"
  have inv0: "tinv0 t" "tinv ?t" using inv by (simp_all add: tinv_def)
  obtain s where s: "luaH_get t key = Inr s" "slot_for t key s"
    using luaH_get_slot [OF inv0(1) key(1)] by blast
  have v: "tval ?t k = tval t k" for k by (auto simp: tval_def nodes_def in_array_def)
  have "luaH_set t key =
    (if s \<noteq> NilObject then Inr (?t, s) else newkey_body (newkey_body (newkey_n 0)) ?t key)"
    using s(1) key by (auto simp: newkey_ops luaH_set_with_def Let_def live_def)
  from found_or_new [OF inv0(2) key _ this] s(2) v show ?thesis by (auto simp: slot_ready_def)
qed

lemma luaH_setnum_ready:
  assumes inv: "tinv t" and k: "is_int k"
  shows "luaH_setnum t k = Inl table_overflow \<and> tval t (VNumber (cast_num k)) = VNil \<or>
    (\<exists>p. luaH_setnum t k = Inr p \<and> slot_ready t (VNumber (cast_num k)) p)"
proof -
  obtain s where s: "luaH_getnum t k = Inr s" "slot_for t (VNumber (cast_num k)) s"
    using luaH_getnum_slot [OF _ k] inv by (auto simp: tinv_def)
  have "luaH_setnum t k = (if s \<noteq> NilObject then Inr (t, s)
    else newkey_body (newkey_body (newkey_n 0)) t (VNumber (cast_num k)))"
    using s(1) by (auto simp: newkey_ops luaH_setnum_with_def)
  from found_or_new [OF inv _ _ s(2) this] k show ?thesis by (simp add: isnan_def)
qed

lemma luaH_setstr_ready:
  assumes inv: "tinv t"
  shows "luaH_setstr t k = Inl table_overflow \<and> tval t (VGC (GStr k)) = VNil \<or>
    (\<exists>p. luaH_setstr t k = Inr p \<and> slot_ready t (VGC (GStr k)) p)"
proof -
  obtain s where s: "luaH_getstr t k = Inr s" "slot_for t (VGC (GStr k)) s"
    using luaH_getstr_slot inv by (auto simp: tinv_def)
  have "luaH_setstr t k = (if s \<noteq> NilObject then Inr (t, s)
    else newkey_body (newkey_body (newkey_n 0)) t (VGC (GStr k)))"
    using s(1) by (auto simp: newkey_ops luaH_setstr_with_def)
  from found_or_new [OF inv _ _ s(2) this] show ?thesis by (simp add: isnan_def)
qed

text \<open>Writing through the pointer.\<close>

definition updated :: "Table \<Rightarrow> TValue \<Rightarrow> TValue \<Rightarrow> Table \<Rightarrow> bool" where
  "updated t key v t' \<longleftrightarrow> tinv t' \<and> metatable t' = metatable t \<and>
     (\<forall>k. live k \<longrightarrow> tval t' k = (if luaO_rawequalObj key k then v else tval t k))"

lemma write_ready:
  assumes "slot_ready t key p" "live key"
  shows "\<exists>t'. write_to (Inr p) v = Inr t' \<and> updated t key v t'"
proof -
  obtain t1 s where p: "p = (t1, s)" by fastforce
  with assms have r: "tinv t1" "slot_for t1 key s" "s \<noteq> NilObject" "metatable t1 = metatable t"
    "\<forall>k. live k \<longrightarrow> tval t1 k = tval t k" by (auto simp: slot_ready_def)
  have "stored t1 key v (slot_set t1 s v)"
    using slot_set_stored [OF _ assms(2) r(2,3), of v] r(1) by (simp add: tinv_def)
  with r p show ?thesis by (auto simp: write_to_def updated_def stored_def tinv_def)
qed

lemma write_cases:
  assumes "r = Inl table_overflow \<and> tval t key = VNil \<or> (\<exists>p. r = Inr p \<and> slot_ready t key p)" "live key"
  shows "write_to r v = Inl table_overflow \<and> tval t key = VNil \<or>
    (\<exists>t'. write_to r v = Inr t' \<and> updated t key v t')"
  using assms(1)
proof
  assume "\<exists>p. r = Inr p \<and> slot_ready t key p"
  with write_ready [OF _ assms(2)] show ?thesis by blast
qed (simp add: write_to_def)

lemma luaH_set_write:
  assumes "tinv t" "live key" "\<not> isnan key"
  shows "write_to (luaH_set t key) v = Inl table_overflow \<and> tval t key = VNil \<or>
    (\<exists>t'. write_to (luaH_set t key) v = Inr t' \<and> updated t key v t')"
  by (rule write_cases [OF luaH_set_ready [OF assms] assms(2)])

lemma luaH_setnum_write:
  assumes "tinv t" "is_int k"
  shows "write_to (luaH_setnum t k) v = Inl table_overflow \<and> tval t (VNumber (cast_num k)) = VNil \<or>
    (\<exists>t'. write_to (luaH_setnum t k) v = Inr t' \<and> updated t (VNumber (cast_num k)) v t')"
  by (rule write_cases [OF luaH_setnum_ready [OF assms]]) simp

lemma luaH_setstr_write:
  assumes "tinv t"
  shows "write_to (luaH_setstr t k) v = Inl table_overflow \<and> tval t (VGC (GStr k)) = VNil \<or>
    (\<exists>t'. write_to (luaH_setstr t k) v = Inr t' \<and> updated t (VGC (GStr k)) v t')"
  by (rule write_cases [OF luaH_setstr_ready [OF assms]]) simp

lemma luaH_set_bad_key:
  "luaH_set t VNil = Inl (ErrRun ''table index is nil'')"
  by (simp add: newkey_ops luaH_set_with_def)

lemma luaH_set_nan:
  assumes "tinv t" "isnan key"
  shows "luaH_set t key = Inl (ErrRun ''table index is NaN'')"
proof -
  have inv: "tinv0 t" using assms(1) by (simp add: tinv_def)
  obtain n where n: "key = VNumber n" "luai_numisnan n" using assms(2) by (cases key) (auto simp: isnan_def)
  obtain s where s: "luaH_get t key = Inr s" "slot_for t key s"
    using luaH_get_slot [OF inv, of key] n(1) by auto
  have "\<not> luaO_rawequalObj x key" for x
    using n rawequal_refl_iff rawequal_sym rawequal_trans assms(2) by metis
  then have "\<not> has_key (nodes t) key" "\<not> in_array t key"
    using arrayindex_pos [of key] by (auto simp: has_key_def in_array_def)
  then have "s = NilObject" using s(2) by (cases s) (auto simp: slot_for_def has_key_def)
  with s(1) n assms(2) show ?thesis by (simp add: newkey_ops luaH_set_with_def)
qed

section \<open>Creation and resizing\<close>

lemma luaH_new_ok:
  assumes "int narray \<le> MAXASIZE" "nhash \<le> 2 ^ 26"
  shows "\<exists>t. luaH_new narray nhash = Inr t \<and> tinv t \<and> sizearray t = narray \<and> metatable t = None \<and>
    nhash \<le> capacity t \<and> (\<forall>k. tval t k = VNil)"
proof -
  let ?t0 = "\<lparr>flags = 255, lsizenode = 0, metatable = None, array = [], node = None,
    lastfree = 0, sizearray = 0\<rparr>"
  let ?t = "setarrayvector ?t0 narray"
  have a: "sizearray ?t = narray" "array ?t = replicate narray VNil" "metatable ?t = None"
    by (simp_all add: setarrayvector_def)
obtain t where t: "setnodevector ?t nhash = Inr t" "fresh_table t" "nhash \<le> capacity t" "array t = array ?t"
      "sizearray t = sizearray ?t" "metatable t = metatable ?t"
    using setnodevector_cases [of ?t nhash] a assms by (auto simp: MAXBITS_def)
  have "tval t k = VNil" for k
    using t(2,4,5) a by (auto simp: tval_def fresh_table_def in_array_def)
  with t a show ?thesis by (auto simp: luaH_new_def Let_def tinv_def fresh_table_def)
qed

lemma luaH_resizearray_ok:
  assumes inv: "tinv t" and n: "int n \<le> MAXASIZE" "sizearray t \<le> n"
  shows "\<exists>t'. luaH_resizearray t n = Inr t' \<and> tinv t' \<and> sizearray t' = n \<and> metatable t' = metatable t \<and>
    (\<forall>k. live k \<longrightarrow> tval t' k = tval t k)"
proof -
  define h where "h = (if node t = None then 0 else sizenode t)"
  have sz: "length (nodes t) = sizenode t" "lsizenode t \<le> MAXBITS" "int (sizearray t) \<le> MAXASIZE"
    using inv by (simp_all add: tinv_def tinv0_def)
  have s: "sizenode t \<le> 2 ^ 26"
    unfolding sizenode_def twoto_def using sz(2) by (intro power_increasing) (auto simp: MAXBITS_def)
  have "outside n (arr_items (array t) [0..<sizearray t]) = 0"
    unfolding outside_def using small_is_int [OF _ sz(3)] n(2)
    by (auto simp: arr_items_def fits_array_def filter_empty_conv)
  moreover have "outside n (node_items (nodes t)) \<le> h"
  proof (cases "node t")
    case None
    then show ?thesis by (simp add: nodes_def node_items_def dummynode_def)
  next
    case (Some ns)
    have "outside n (node_items (nodes t)) \<le> length (node_items (nodes t))" by (simp add: outside_def)
    also have "\<dots> \<le> length (nodes t)" by (simp add: node_items_def)
    finally show ?thesis using Some sz(1) by (simp add: h_def)
  qed
  ultimately have o: "outside n (entries t) \<le> h" by (simp add: entries_def)
  have h: "h \<le> 2 ^ 30" "\<not> 2 ^ MAXBITS < h" using s by (simp_all add: h_def MAXBITS_def)
  note r = resize_keeps [OF inv n(1) h(1) o, of "newkey_body (newkey_n 0)", folded newkey_ops(4)]
  from r h(2) show ?thesis by (auto simp: luaH_resizearray_def Let_def simp flip: h_def)
qed

end
