(* ===== verification/LTable_Iter.thy ===== *)
theory LTable_Iter
  imports LTable_Ops
begin

text \<open>
  Traversal (\<^verbatim>\<open>luaH_next\<close>), the length operator (\<^verbatim>\<open>luaH_getn\<close>) and the collector's
  \<^verbatim>\<open>removeentry\<close>.
\<close>

section \<open>Traversal\<close>

definition first :: "'a list \<Rightarrow> 'a option" where
  "first xs = (case xs of [] \<Rightarrow> None | x # _ \<Rightarrow> Some x)"

lemma first_append: "first (xs @ ys) = (case first xs of Some x \<Rightarrow> Some x | None \<Rightarrow> first ys)"
  by (cases xs) (auto simp: first_def)

lemma next_array_first: "next_array a is = first (arr_items a is)"
  by (induction "is") (auto simp: arr_items_def first_def)

lemma next_node_first: "next_node ns is = first (node_items (map ((!) ns) is))"
  by (induction "is") (auto simp: node_items_def first_def)

text \<open>The entries from position \<open>i\<close> on; nodes come after the array.\<close>

definition entries_from :: "Table \<Rightarrow> nat \<Rightarrow> (TValue \<times> TValue) list" where
  "entries_from t i =
     arr_items (array t) [i..<sizearray t] @ node_items (drop (i - sizearray t) (nodes t))"

lemma map_nth_drop: "map ((!) xs) [m..<length xs] = drop m xs"
  by (metis drop_map drop_upt map_nth plus_nat.add_0)

lemma luaH_next_from:
  assumes len: "length (nodes t) = sizenode t" and f: "findindex t key = Inr i0"
  shows "luaH_next t key = Inr (first (entries_from t (nat (i0 + 1))))"
proof -
  have m: "max m s - s = m - s" for m s :: nat by simp
  show ?thesis
    unfolding luaH_next_def f ebind_simps Let_def next_array_first next_node_first m len [symmetric]
      map_nth_drop entries_from_def first_append by (rule refl)
qed

lemma entries_from_0: "entries_from t 0 = entries t"
  by (simp add: entries_from_def entries_def)

text \<open>The position of a key that was met before, also when its entry was cleared since.\<close>

lemma findindex_array:
  assumes "in_array t k"
  shows "findindex t k = Inr (arrayindex k - 1)"
proof -
  have "k \<noteq> VNil" using assms by (auto simp: in_array_def arrayindex_def)
  with assms show ?thesis by (simp add: findindex_def in_array_def Let_def)
qed

lemma findindex_node:
  assumes inv: "tinv0 t" and i: "i < length (nodes t)" and k: "luaO_rawequalObj (i_key (nodes t ! i)) k" "live k"
    and dead: "\<And>n. n \<in> set (nodes t) \<Longrightarrow> \<not> dead_match (i_key n) k"
  shows "findindex t k = Inr (int i + int (sizearray t))"
proof -
  let ?P = "\<lambda>n. luaO_rawequalObj (i_key n) k \<or> dead_match (i_key n) k"
  have c: "chains_ok (nodes t)" "length (nodes t) = sizenode t" and ok: "keys_ok (mainposition t) (nodes t)"
    and m: "mainposition t k < sizenode t"
    using inv mainposition_less by (auto simp: tinv0_def nodes_ok_def)
  have l: "live (i_key (nodes t ! i))" using live_rawequal [OF k] .
  then have "reach (nx (nodes t)) (mainposition t k) i"
    using key_ok_live [OF ok i] mainposition_rawequal [OF k(1)] by (simp add: key_ok_def Let_def)
  with chain_find_total [OF c m, of ?P] k(1) obtain j where
    j: "chain_find ?P t (mainposition t k) = Inr (Some j)" "j < length (nodes t)" "?P (nodes t ! j)"
    by (metis not_Some_eq)
  have "luaO_rawequalObj (i_key (nodes t ! j)) k" using j(2,3) dead by (meson nth_mem)
  then have "j = i" using keys_unique [OF ok j(2) i k(2)] k(1) by blast
  moreover have "\<not> in_array t (i_key (nodes t ! i))" using inv i l by (simp add: tinv0_def)
  then have "\<not> in_array t k" using arrayindex_rawequal [OF k(1)] by (simp add: in_array_def)
  ultimately show ?thesis
    using j(1) k(2) by (auto simp: findindex_def in_array_def Let_def live_def)
qed

text \<open>
  The successor of an entry is the next entry in the list: a traversal that starts at nil and
  follows \<^verbatim>\<open>luaH_next\<close> visits the entries one by one, in the order of \<open>entries\<close>.
\<close>

lemma arr_items_split:
  assumes "arr_items a [m..<n] = xs @ (k, v) # ys"
  shows "\<exists>i. m \<le> i \<and> i < n \<and> k = VNumber (cast_num (int i + 1)) \<and> arr_items a [Suc i..<n] = ys"
  using assms
proof (induction "n - m" arbitrary: m xs)
  case 0
  then show ?case by (simp add: arr_items_def)
next
  case (Suc d)
  then have m: "[m..<n] = m # [Suc m..<n]" by (simp add: upt_conv_Cons)
  show ?case
  proof (cases "a ! m \<noteq> VNil \<and> xs = []")
    case True
    with Suc.prems m Suc.hyps(2) show ?thesis by (intro exI [of _ m]) (auto simp: arr_items_def)
  next
    case False
    with Suc.prems m have "\<exists>xs'. arr_items a [Suc m..<n] = xs' @ (k, v) # ys"
      by (cases xs) (auto simp: arr_items_def split: if_splits)
    with Suc.hyps obtain i where "Suc m \<le> i \<and> i < n \<and> k = VNumber (cast_num (int i + 1)) \<and>
      arr_items a [Suc i..<n] = ys" by fastforce
    then show ?thesis by (intro exI [of _ i]) auto
  qed
qed

lemma node_items_split:
  assumes "node_items ns = xs @ (k, v) # ys"
  shows "\<exists>i < length ns. i_key (ns ! i) = k \<and> i_val (ns ! i) = v \<and> v \<noteq> VNil \<and> node_items (drop (Suc i) ns) = ys"
  using assms
proof (induction ns arbitrary: xs)
  case Nil
  then show ?case by (simp add: node_items_def)
next
  case (Cons n ns)
  show ?case
  proof (cases "i_val n \<noteq> VNil \<and> xs = []")
    case True
    with Cons.prems show ?thesis by (intro exI [of _ 0]) (auto simp: node_items_def)
  next
    case False
    with Cons.prems have "\<exists>xs'. node_items ns = xs' @ (k, v) # ys"
      by (cases xs) (auto simp: node_items_def split: if_splits)
    with Cons.IH show ?thesis by fastforce
  qed
qed

lemma luaH_next_entry:
  assumes inv: "tinv t" and e: "entries t = xs @ (k, v) # ys"
    and dead: "\<And>n. n \<in> set (nodes t) \<Longrightarrow> \<not> dead_match (i_key n) k"
  shows "luaH_next t k = Inr (first ys)"
proof -
  have inv0: "tinv0 t" and len: "length (nodes t) = sizenode t" and sz: "int (sizearray t) \<le> MAXASIZE"
    using inv by (auto simp: tinv_def tinv0_def)
  have lk: "live k" "\<not> isnan k" using entries_sound [OF inv, of k v] e by auto
  let ?A = "arr_items (array t) [0..<sizearray t]" and ?N = "node_items (nodes t)"
  consider (arr) ys1 where "?A = xs @ (k, v) # ys1" "ys = ys1 @ ?N"
    | (node) xs2 where "?N = xs2 @ (k, v) # ys"
  proof -
    from e obtain us where "xs = ?A @ us \<and> ?N = us @ (k, v) # ys \<or> ?A = xs @ us \<and> us @ ?N = (k, v) # ys"
      unfolding entries_def append_eq_append_conv2 by metis
    then show thesis using arr node by (cases us) auto
  qed
  then show ?thesis
  proof cases
    case arr
    from arr_items_split [OF arr(1)] obtain i where i: "i < sizearray t"
      "k = VNumber (cast_num (int i + 1))" "arr_items (array t) [Suc i..<sizearray t] = ys1" by blast
    have ai: "arrayindex k = int i + 1" using i small_is_int [OF i(1) sz] by simp
    then have "findindex t k = Inr (int i)"
      using findindex_array [of t k] i(1) by (simp add: in_array_def)
    from luaH_next_from [OF len this] i arr(2) show ?thesis
      by (simp add: entries_from_def nat_add_distrib)
  next
    case node
    from node_items_split [OF node] obtain i where i: "i < length (nodes t)" "i_key (nodes t ! i) = k"
      "node_items (drop (Suc i) (nodes t)) = ys" by blast
    have "findindex t k = Inr (int i + int (sizearray t))"
      by (rule findindex_node [OF inv0 i(1) _ lk(1) dead]) (use i(2) lk(2) in \<open>auto simp: rawequal_refl_iff\<close>)
    from luaH_next_from [OF len this] i show ?thesis
      by (simp add: entries_from_def nat_add_distrib arr_items_def)
  qed
qed

lemma luaH_next_first:
  assumes "tinv t"
  shows "luaH_next t VNil = Inr (first (entries t))"
proof -
  have "length (nodes t) = sizenode t" using assms by (simp add: tinv_def tinv0_def)
  from luaH_next_from [OF this, of VNil "- 1"] show ?thesis
    by (simp add: findindex_def entries_from_0)
qed

text \<open>The whole traversal.\<close>

fun traverse :: "nat \<Rightarrow> Table \<Rightarrow> TValue \<Rightarrow> (TValue \<times> TValue) list res" where
  "traverse 0 t k = Inl ErrLoop"
| "traverse (Suc fuel) t k =
     ebind (luaH_next t k) (\<lambda>r. case r of
         None \<Rightarrow> Inr []
       | Some (k', v') \<Rightarrow> ebind (traverse fuel t k') (\<lambda>rest. Inr ((k', v') # rest)))"

lemma traverse_entries:
  assumes inv: "tinv t" and dead: "\<And>n. n \<in> set (nodes t) \<Longrightarrow> \<not> is_dead (i_key n)"
  shows "traverse (Suc (length (entries t))) t VNil = Inr (entries t)"
proof -
  have dm: "\<not> dead_match (i_key n) k" if "n \<in> set (nodes t)" for n k
    using dead [OF that] by (cases "i_key n") (auto simp: dead_match_def)
  have suffix: "traverse (Suc (length ys)) t k = Inr ys" if "entries t = xs @ (k, v) # ys" for xs k v ys
    using that
  proof (induction ys arbitrary: xs k v)
    case Nil
    with luaH_next_entry [OF inv Nil dm] show ?case by (simp add: first_def)
  next
    case (Cons y ys)
    obtain k' v' where y: "y = (k', v')" by fastforce
    have "entries t = (xs @ [(k, v)]) @ (k', v') # ys" using Cons.prems y by simp
    from Cons.IH [OF this] luaH_next_entry [OF inv Cons.prems dm] y show ?case
      by (simp add: first_def)
  qed
  show ?thesis
  proof (cases "entries t")
    case Nil
    with luaH_next_first [OF inv] show ?thesis by (simp add: first_def)
  next
    case (Cons y ys)
    obtain k' v' where y: "y = (k', v')" by fastforce
    with Cons suffix [of "[]" k' v' ys] luaH_next_first [OF inv] show ?thesis by (simp add: first_def)
  qed
qed

section \<open>The length operator\<close>

definition tnum :: "Table \<Rightarrow> nat \<Rightarrow> TValue" where
  "tnum t n = tval t (VNumber (cast_num (int n)))"

text \<open>A border: a present index whose successor is absent, or 0 when 1 is absent.\<close>

definition border :: "Table \<Rightarrow> nat \<Rightarrow> bool" where
  "border t n \<longleftrightarrow> (n = 0 \<or> tnum t n \<noteq> VNil) \<and> tnum t (Suc n) = VNil"

lemma getnum_val_tnum:
  assumes "tinv0 t" "int n \<le> INT_MAX"
  shows "getnum_val t (int n) = Inr (tnum t n)"
proof -
  have "is_int (int n)" using assms(2) by (simp add: is_int_def INT_MIN_def)
  from luaH_getnum_slot [OF assms(1) this] obtain s where
    "luaH_getnum t (int n) = Inr s" "slot_for t (VNumber (cast_num (int n))) s" by blast
  with slot_for_val [OF assms(1)] show ?thesis by (simp add: getnum_val_def tnum_def)
qed

lemma tnum_array:
  assumes "0 < n" "n \<le> sizearray t" "int (sizearray t) \<le> MAXASIZE"
  shows "tnum t n = array t ! (n - 1)"
proof -
  have "is_int (int n)" using small_is_int [of "n - 1" "sizearray t"] assms by simp
  with assms show ?thesis by (simp add: tnum_def tval_def in_array_def nat_diff_distrib')
qed

lemma bin_search_border:
  assumes "i < j" "\<And>m. i < m \<Longrightarrow> m < j \<Longrightarrow> get m = Inr (g m)" "g j = VNil"
  shows "\<exists>n. bin_search get i j = Inr n \<and> i \<le> n \<and> n < j \<and> (n = i \<or> g n \<noteq> VNil) \<and> g (Suc n) = VNil"
  using assms
proof (induction get i j rule: bin_search.induct)
  case (1 get i j)
  show ?case
  proof (cases "j - i > 1")
    case False
    with 1(3,5) have "j = Suc i" by simp
    with 1(5) False show ?thesis by (subst bin_search.simps) simp
  next
    case True
    let ?m = "(i + j) div 2"
    have m: "i < ?m" "?m < j" using True by auto
    have g: "get ?m = Inr (g ?m)" using 1(4) m by blast
    show ?thesis
    proof (cases "g ?m = VNil")
      case nil: True
      then obtain n where "bin_search get i ?m = Inr n" "i \<le> n" "n < ?m" "n = i \<or> g n \<noteq> VNil" "g (Suc n) = VNil"
        using 1(1) [OF True refl g] 1(4) m by fastforce
      with True g nil m show ?thesis by (subst bin_search.simps) (auto simp: Let_def)
    next
      case val: False
      then obtain n where n: "bin_search get ?m j = Inr n" "?m \<le> n" "n < j" "n = ?m \<or> g n \<noteq> VNil" "g (Suc n) = VNil"
        using 1(2) [OF True refl g] 1(4,5) m by fastforce
      then have "g n \<noteq> VNil" using val by auto
      with True g val m n show ?thesis by (subst bin_search.simps) (auto simp: Let_def)
    qed
  qed
qed

text \<open>A table cannot hold more integers than it has places.\<close>

lemma present_bound:
  assumes inv: "tinv t" and n: "int n \<le> INT_MAX" and p: "\<forall>m. 1 \<le> m \<and> m \<le> n \<longrightarrow> tnum t m \<noteq> VNil"
  shows "n \<le> sizearray t + length (nodes t)"
proof -
  let ?key = "\<lambda>m. VNumber (cast_num (int m))"
  have "\<exists>k. k \<in> fst ` set (entries t) \<and> luaO_rawequalObj k (?key m)" if "m \<in> {1..n}" for m
    using entries_complete [OF inv, of "?key m"] p that by (force simp: tnum_def)
  then obtain f where f: "f m \<in> fst ` set (entries t)" "luaO_rawequalObj (f m) (?key m)" if "m \<in> {1..n}" for m
    by metis
  have ai: "arrayindex (f m) = int m" if "m \<in> {1..n}" for m
    using arrayindex_rawequal [OF f(2) [OF that]] that n by (simp add: is_int_def INT_MIN_def)
  have "inj_on f {1..n}" using ai by (metis inj_onI of_nat_eq_iff)
  then have "card {1..n} \<le> card (fst ` set (entries t))"
    using f(1) by (intro card_inj_on_le) auto
  also have "\<dots> \<le> length (entries t)" by (metis card_length length_map list.set_map)
  also have "\<dots> \<le> sizearray t + length (nodes t)"
    using add_mono [OF length_filter_le [of "\<lambda>i. array t ! i \<noteq> VNil" "[0..<sizearray t]"]
      length_filter_le [of "\<lambda>n. i_val n \<noteq> VNil" "nodes t"]]
    by (simp add: entries_def arr_items_def node_items_def)
  finally show ?thesis by simp
qed

lemma sizes_bound:
  assumes "tinv t"
  shows "sizearray t \<le> 2 ^ 26" "length (nodes t) \<le> 2 ^ 26" "length (nodes t) = sizenode t"
proof -
  have s: "int (sizearray t) \<le> MAXASIZE" "lsizenode t \<le> MAXBITS" "length (nodes t) = sizenode t"
    using assms by (auto simp: tinv_def tinv0_def)
  show "sizearray t \<le> 2 ^ 26" using s(1) by (simp add: MAXASIZE_nat)
  show "length (nodes t) = sizenode t" by (fact s(3))
  show "length (nodes t) \<le> 2 ^ 26"
    unfolding s(3) sizenode_def twoto_def using s(2) by (intro power_increasing) (auto simp: MAXBITS_def)
qed

lemma linear_search_border:
  assumes inv: "tinv t" and i: "1 \<le> i" "sizearray t + length (nodes t) + 1 < i + fuel"
    and p: "\<forall>m. 1 \<le> m \<and> m < i \<longrightarrow> tnum t m \<noteq> VNil" and hi: "int i \<le> INT_MAX"
  shows "\<exists>n. linear_search t fuel i = Inr n \<and> border t n"
  using i p hi
proof (induction fuel arbitrary: i)
  case 0
  have "int (i - 1) \<le> INT_MAX" using 0 by simp
  then have "i - 1 \<le> sizearray t + length (nodes t)" by (rule present_bound [OF inv]) (use 0 in auto)
  with 0 show ?case by linarith
next
  case (Suc fuel)
  have g: "getnum_val t (int i) = Inr (tnum t i)"
    using inv Suc.prems(4) by (intro getnum_val_tnum) (simp_all add: tinv_def)
  show ?case
  proof (cases "tnum t i = VNil")
    case True
    have "border t (i - 1)" using Suc.prems True by (auto simp: border_def)
    with g True show ?thesis by simp
  next
    case False
    have all: "\<forall>m. 1 \<le> m \<and> m < Suc i \<longrightarrow> tnum t m \<noteq> VNil"
      using Suc.prems(3) False by (auto simp: less_Suc_eq)
    have "i \<le> sizearray t + length (nodes t)"
      by (rule present_bound [OF inv Suc.prems(4)]) (use all in auto)
    then have "int (Suc i) \<le> INT_MAX" using sizes_bound [OF inv] by (simp add: INT_MAX_def)
    with Suc.IH [of "Suc i"] Suc.prems(2) all obtain n where "linear_search t fuel (Suc i) = Inr n" "border t n"
      by auto
    with g False show ?thesis by auto
  qed
qed

lemma double_loop_border:
  assumes inv: "tinv t" and "i < j" "int j \<le> MAX_INT" "i = 0 \<or> tnum t i \<noteq> VNil"
  shows "(\<exists>n. double_loop t i j = Inr (Inl n) \<and> border t n) \<or>
    (\<exists>i' j'. double_loop t i j = Inr (Inr (i', j')) \<and> i' < j' \<and> int j' \<le> MAX_INT \<and>
      (i' = 0 \<or> tnum t i' \<noteq> VNil) \<and> tnum t j' = VNil)"
  using assms
proof (induction t i j rule: double_loop.induct)
  case (1 t i j)
  have j: "j \<noteq> 0" "int j \<le> INT_MAX" using 1(3,4) by (auto simp: MAX_INT_def)
  have g: "getnum_val t (int j) = Inr (tnum t j)"
    using 1(2) j(2) by (intro getnum_val_tnum) (simp_all add: tinv_def)
  show ?case
  proof (cases "tnum t j = VNil")
    case True
    with g j 1(3-5) show ?thesis by (subst (1 2) double_loop.simps) auto
  next
    case val: False
    show ?thesis
    proof (cases "int (j * 2) > MAX_INT")
      case True
      have "sizearray t + length (nodes t) + 1 < 1 + (sizearray t + sizenode t + 2)"
        using sizes_bound(3) [OF 1(2)] by simp
      from linear_search_border [OF 1(2) _ this] obtain n
        where "linear_search t (sizearray t + sizenode t + 2) 1 = Inr n" "border t n"
        by (auto simp: INT_MAX_def)
      with g j val True show ?thesis by (subst (1 2) double_loop.simps) (simp add: map_sum_def)
    next
      case False
      have "j < j * 2" using j(1) by simp
      moreover have "\<not> ttisnil (tnum t j)" using val by simp
      note IH = 1(1) [OF j(1) g this False 1(2)]
      ultimately have
        "(\<exists>n. double_loop t j (j * 2) = Inr (Inl n) \<and> border t n) \<or>
         (\<exists>i' j'. double_loop t j (j * 2) = Inr (Inr (i', j')) \<and> i' < j' \<and> int j' \<le> MAX_INT \<and>
          (i' = 0 \<or> tnum t i' \<noteq> VNil) \<and> tnum t j' = VNil)"
        using IH False val by (simp add: linorder_not_less)
      moreover have "double_loop t i j = double_loop t j (j * 2)"
        using g j val False by (subst double_loop.simps) simp
      ultimately show ?thesis by simp
    qed
  qed
qed

lemma luaH_getn_border:
  assumes inv: "tinv t"
  shows "\<exists>n. luaH_getn t = Inr n \<and> border t n"
proof -
  have inv0: "tinv0 t" and sz: "int (sizearray t) \<le> MAXASIZE" using inv by (auto simp: tinv_def tinv0_def)
  let ?j = "sizearray t"
  have last: "tnum t ?j = array t ! (?j - 1)" if "0 < ?j" using tnum_array that sz by blast
  have beyond: "\<not> in_array t (VNumber (cast_num (int (Suc ?j))))"
    using sz by (simp add: in_array_def is_int_def INT_MIN_def INT_MAX_def MAXASIZE_def MAXBITS_def)
  consider (arr) "0 < ?j" "array t ! (?j - 1) = VNil"
    | (full) "\<not> (0 < ?j \<and> array t ! (?j - 1) = VNil)" "node t = None"
    | (hash) "\<not> (0 < ?j \<and> array t ! (?j - 1) = VNil)" "node t \<noteq> None"
    by (cases "0 < ?j \<and> array t ! (?j - 1) = VNil"; cases "node t = None") simp_all
  then show ?thesis
  proof cases
    case arr
    have "\<exists>n. bin_search (\<lambda>m. Inr (array t ! (m - 1))) 0 ?j = Inr n \<and> 0 \<le> n \<and> n < ?j \<and>
      (n = 0 \<or> tnum t n \<noteq> VNil) \<and> tnum t (Suc n) = VNil"
      by (rule bin_search_border) (use arr last sz tnum_array in auto)
    with arr show ?thesis by (auto simp: luaH_getn_def border_def Let_def)
  next
    case full
    then have "tnum t (Suc ?j) = VNil"
      using beyond by (simp add: tnum_def tval_def nodes_def hget_def dummynode_def)
    with full last show ?thesis by (auto simp: luaH_getn_def border_def Let_def)
  next
    case hash
    have p: "?j = 0 \<or> tnum t ?j \<noteq> VNil" using hash(1) last by auto
    have "int (Suc ?j) \<le> MAX_INT"
      using sz by (simp add: MAX_INT_def INT_MAX_def MAXASIZE_def MAXBITS_def)
    from double_loop_border [OF inv lessI this p] show ?thesis
    proof
      assume "\<exists>n. double_loop t ?j (Suc ?j) = Inr (Inl n) \<and> border t n"
      with hash show ?thesis by (auto simp: luaH_getn_def Let_def unbound_search_def)
    next
      assume "\<exists>i' j'. double_loop t ?j (Suc ?j) = Inr (Inr (i', j')) \<and> i' < j' \<and> int j' \<le> MAX_INT \<and>
        (i' = 0 \<or> tnum t i' \<noteq> VNil) \<and> tnum t j' = VNil"
      then obtain i' j' where d: "double_loop t ?j (Suc ?j) = Inr (Inr (i', j'))" "i' < j'"
        "int j' \<le> MAX_INT" "i' = 0 \<or> tnum t i' \<noteq> VNil" "tnum t j' = VNil" by blast
      have "getnum_val t (int m) = Inr (tnum t m)" if "m < j'" for m
        using that d(3) by (intro getnum_val_tnum [OF inv0]) (simp add: MAX_INT_def)
      with bin_search_border [OF d(2), of "\<lambda>m. getnum_val t (int m)" "tnum t"] d(5) obtain n
        where n: "bin_search (\<lambda>m. getnum_val t (int m)) i' j' = Inr n" "n = i' \<or> tnum t n \<noteq> VNil"
          "tnum t (Suc n) = VNil" by blast
      with d(1,4) hash show ?thesis
        by (auto simp: luaH_getn_def Let_def unbound_search_def border_def)
    qed
  qed
qed

section \<open>Dead keys\<close>

text \<open>Marking the key of an empty entry dead changes nothing that a client can see.\<close>

definition remove_at :: "Table \<Rightarrow> nat \<Rightarrow> Table" where
  "remove_at t i = upd_node i removeentry t"

lemma removeentry_frame: "i_val (removeentry n) = i_val n" "nk_next (removeentry n) = nk_next n"
  "i_key (removeentry n) = VNil \<longleftrightarrow> i_key n = VNil"
  "i_key (removeentry n) = i_key n \<or> \<not> live (i_key (removeentry n)) \<and> i_key (removeentry n) \<noteq> VNil"
  by (auto simp: removeentry_def live_def split: TValue.split)

lemma remove_at_ok:
  assumes inv: "tinv t" and i: "i < length (nodes t)" "i_val (nodes t ! i) = VNil"
  shows "tinv (remove_at t i) \<and> (\<forall>k. live k \<longrightarrow> tval (remove_at t i) k = tval t k)"
proof (cases "node t")
  case None
  then have "remove_at t i = t" by (cases t) (simp add: remove_at_def upd_node_def)
  then show ?thesis using inv by simp
next
  case (Some ns)
  let ?t = "remove_at t i"
  have ns: "nodes t = ns" using Some by (simp add: nodes_def)
  define ns' where "ns' = ns[i := removeentry (ns ! i)]"
  have n: "nodes ?t = ns'" "node ?t = Some ns'" using Some by (auto simp: remove_at_def upd_node_def nodes_def ns'_def)
  have len: "length ns' = length ns" by (simp add: ns'_def)
  have vs: "i_val (ns' ! j) = i_val (ns ! j)" and nn: "i_key (ns' ! j) = VNil \<longleftrightarrow> i_key (ns ! j) = VNil"
    and ks: "i_key (ns' ! j) = i_key (ns ! j) \<or> j = i \<and> \<not> live (i_key (ns' ! j)) \<and> i_key (ns' ! j) \<noteq> VNil"
    if "j < length ns" for j
    using that removeentry_frame [of "ns ! i"] i(1) ns by (auto simp: ns'_def nth_list_update)
  have nxe: "nx ns' = nx ns"
    using i(1) ns removeentry_frame by (auto simp: fun_eq_iff nx_def ns'_def nth_list_update)
  have c: "chains_ok ns" and k: "keys_ok (mainposition t) ns" using inv ns by (auto simp: tinv_def tinv0_def nodes_ok_def)
  have "chains_ok ns'"
    using c nn chains_okD [OF c] unfolding chains_ok_def nxe len by metis
  have lv: "i_key (ns' ! j) = i_key (ns ! j)" if "j < length ns" "live (i_key (ns' ! j))" for j
    using ks that by blast
  have ko: "key_ok (mainposition t) ns' j" if j: "j < length ns" "live (i_key (ns' ! j))" for j
  proof -
    have "key_ok (mainposition t) ns j" using key_ok_live [OF k j(1)] lv [OF j] j(2) by simp
    moreover from this have "mainposition t (i_key (ns ! j)) < length ns" by (simp add: key_ok_def Let_def)
    ultimately show ?thesis
      using lv [OF j] nn lv unfolding key_ok_def Let_def nxe len by metis
  qed
  have "keys_ok (mainposition t) ns'"
    unfolding keys_ok_def len
  proof (intro conjI allI impI)
    show "i_val (ns' ! j) = VNil" if "j < length ns" "\<not> live (i_key (ns' ! j))" for j
      using that ks [of j] vs [of j] k i(2) ns unfolding keys_ok_def by metis
    show "a = b" if "a < length ns" "b < length ns" "live (i_key (ns' ! a))"
      "luaO_rawequalObj (i_key (ns' ! a)) (i_key (ns' ! b))" for a b
    proof -
      have "live (i_key (ns' ! b))" using that(3,4) live_rawequal rawequal_sym by blast
      with that lv k show ?thesis unfolding keys_ok_def by metis
    qed
  qed (use ko in blast)
  have fr: "array ?t = array t" "sizearray ?t = sizearray t" "lsizenode ?t = lsizenode t"
    "lastfree ?t = lastfree t" by (simp_all add: remove_at_def upd_node_def)
  have ia: "in_array ?t = in_array t" and mp: "mainposition ?t = mainposition t"
    using in_array_cong [of ?t t] mainposition_cong [of ?t t] fr by simp_all
  have h: "hget ns' q = hget ns q" if q: "live q" for q
  proof (cases "has_key ns' q")
    case True
    then obtain j where j: "j < length ns" "luaO_rawequalObj (i_key (ns' ! j)) q"
      by (auto simp: has_key_def len)
    then have "i_key (ns' ! j) = i_key (ns ! j)" using lv live_rawequal q by blast
    with j hget_some [OF \<open>keys_ok (mainposition t) ns'\<close> _ q j(2)] hget_some [OF k j(1) q] vs len
    show ?thesis by simp
  next
    case False
    have "hget ns q = VNil"
    proof (cases "has_key ns q")
      case True
      then obtain j where j: "j < length ns" "luaO_rawequalObj (i_key (ns ! j)) q" by (auto simp: has_key_def)
      with False have "i_key (ns' ! j) \<noteq> i_key (ns ! j)" by (auto simp: has_key_def len)
      with ks [OF j(1)] i(2) ns hget_some [OF k j(1) q j(2)] show ?thesis by simp
    qed (simp add: hget_none)
    with False show ?thesis by (simp add: hget_none)
  qed
  have "tval ?t q = tval t q" if "live q" for q
    using h [OF that] by (simp add: tval_def ia n ns fr)
  moreover have "\<not> in_array t (i_key (ns' ! j))" if "j < length ns" "live (i_key (ns' ! j))" for j
    using lv [OF that] inv that by (simp add: tinv_def tinv0_def ns)
  then have "tinv ?t"
    using inv nn \<open>chains_ok ns'\<close> \<open>keys_ok (mainposition t) ns'\<close>
    by (simp add: tinv_def tinv0_def nodes_ok_def fr ia mp n ns len sizenode_def Some)
  ultimately show ?thesis by blast
qed

end
