(* ===== verification/LTM.thy ===== *)
theory LTM
  imports LTable_Iter
begin

text \<open>
  Tag methods, src/lua-5.1.5/src/ltm.c and ltm.h, and the objects they are found through: the
  tables of the heap, the metatables of userdata and those of the basic types (\<^verbatim>\<open>G(L)->mt\<close>).
  A metatable caches in its \<^verbatim>\<open>flags\<close> the events it has no method for.
\<close>

section \<open>Events\<close>

datatype TMS =
    TM_INDEX | TM_NEWINDEX | TM_GC | TM_MODE | TM_EQ | TM_ADD | TM_SUB | TM_MUL | TM_DIV | TM_MOD
  | TM_POW | TM_UNM | TM_LEN | TM_LT | TM_LE | TM_CONCAT | TM_CALL

definition events :: "TMS list" where
  "events = [TM_INDEX, TM_NEWINDEX, TM_GC, TM_MODE, TM_EQ, TM_ADD, TM_SUB, TM_MUL, TM_DIV, TM_MOD,
     TM_POW, TM_UNM, TM_LEN, TM_LT, TM_LE, TM_CONCAT, TM_CALL]"

definition event_names :: "string list" where
  "event_names = [''__index'', ''__newindex'', ''__gc'', ''__mode'', ''__eq'', ''__add'', ''__sub'',
     ''__mul'', ''__div'', ''__mod'', ''__pow'', ''__unm'', ''__len'', ''__lt'', ''__le'', ''__concat'',
     ''__call'']"

definition tm_num :: "TMS \<Rightarrow> nat" where
  "tm_num e = length (takeWhile (\<lambda>x. x \<noteq> e) events)"

definition tmname :: "TMS \<Rightarrow> lstr" where
  "tmname e = lit (event_names ! tm_num e)"

section \<open>Objects\<close>

record lstate =
  heap :: "ptr \<Rightarrow> Table option"
  umeta :: "ptr \<Rightarrow> ptr option"
  gmt :: "int \<Rightarrow> ptr option"

definition table_at :: "lstate \<Rightarrow> ptr \<Rightarrow> Table res" where
  "table_at S p = (case heap S p of None \<Rightarrow> Inl (ErrUB ''dangling table'') | Some t \<Rightarrow> Inr t)"

definition set_table :: "ptr \<Rightarrow> Table \<Rightarrow> lstate \<Rightarrow> lstate" where
  "set_table p t S = S\<lparr>heap := (heap S)(p \<mapsto> t)\<rparr>"

definition getstr_val :: "Table \<Rightarrow> lstr \<Rightarrow> TValue res" where
  "getstr_val t s = ebind (luaH_getstr t s) (\<lambda>sl. Inr (slot_val t sl))"

section \<open>Looking up a method\<close>

definition luaT_gettm :: "Table \<Rightarrow> TMS \<Rightarrow> (Table \<times> TValue option) res" where
  "luaT_gettm et e =
     ebind (getstr_val et (tmname e)) (\<lambda>tm.
       if ttisnil tm then Inr (et\<lparr>flags := flags et OR push_bit (tm_num e) 1\<rparr>, None)
       else Inr (et, Some tm))"

definition fasttm :: "lstate \<Rightarrow> ptr option \<Rightarrow> TMS \<Rightarrow> (lstate \<times> TValue option) res" where
  "fasttm S et e =
     (case et of
        None \<Rightarrow> Inr (S, None)
      | Some p \<Rightarrow>
          ebind (table_at S p) (\<lambda>t.
            if flags t AND push_bit (tm_num e) 1 \<noteq> 0 then Inr (S, None)
            else ebind (luaT_gettm t e) (\<lambda>(t', tm). Inr (set_table p t' S, tm))))"

definition obj_metatable :: "lstate \<Rightarrow> TValue \<Rightarrow> ptr option res" where
  "obj_metatable S v =
     (case v of
        VGC (GTable p) \<Rightarrow> ebind (table_at S p) (\<lambda>t. Inr (metatable t))
      | VGC (GUserdata p) \<Rightarrow> Inr (umeta S p)
      | _ \<Rightarrow> Inr (gmt S (ttype v)))"

definition luaT_gettmbyobj :: "lstate \<Rightarrow> TValue \<Rightarrow> TMS \<Rightarrow> TValue res" where
  "luaT_gettmbyobj S v e =
     ebind (obj_metatable S v) (\<lambda>mt. case mt of
         None \<Rightarrow> Inr VNil
       | Some p \<Rightarrow> ebind (table_at S p) (\<lambda>t. getstr_val t (tmname e)))"

section \<open>The cache\<close>

text \<open>The cache is right when a flag is set only for an event without a method.\<close>

definition cache_ok :: "Table \<Rightarrow> bool" where
  "cache_ok t \<longleftrightarrow>
     (\<forall>e \<in> {TM_INDEX, TM_NEWINDEX, TM_GC, TM_MODE, TM_EQ}.
        bit (flags t) (tm_num e) \<longrightarrow> tval t (VGC (GStr (tmname e))) = VNil)"

text \<open>A new table comes with all flags set: it is empty.\<close>

definition heap_ok :: "lstate \<Rightarrow> bool" where
  "heap_ok S \<longleftrightarrow> (\<forall>p t. heap S p = Some t \<longrightarrow> tinv t \<and> cache_ok t)"

lemma events_num: "events ! tm_num e = e"
  by (cases e) (simp_all add: tm_num_def events_def)

lemma tm_num_inj: "tm_num e = tm_num e' \<longleftrightarrow> e = e'"
  by (metis events_num)

lemma tm_num_fast: "e \<in> {TM_INDEX, TM_NEWINDEX, TM_GC, TM_MODE, TM_EQ} \<Longrightarrow> tm_num e < 8"
  by (auto simp: tm_num_def events_def)

lemma flag_bit: "(f AND push_bit n 1 :: lu_byte) \<noteq> 0 \<longleftrightarrow> bit f n" if "n < 8" for f n
proof -
  have "f AND push_bit n 1 = (if bit f n then push_bit n 1 else 0)"
    by (rule bit_word_eqI) (auto simp: bit_simps)
  moreover have "bit (push_bit n 1 :: lu_byte) n" using that by (simp only: bit_push_bit_iff) (simp add: possible_bit_def)
  then have "push_bit n 1 \<noteq> (0 :: lu_byte)" by (metis bit_0_eq bot_apply bot_bool_def)
  ultimately show ?thesis by simp
qed

lemma getstr_val_tval: "tinv0 t \<Longrightarrow> getstr_val t s = Inr (tval t (VGC (GStr s)))"
  using luaH_getstr_slot [of t s] slot_for_val [of t "VGC (GStr s)"] by (auto simp: getstr_val_def)

text \<open>With a good cache the fast look-up is the plain one; it only adds to the cache.\<close>

definition same_heap :: "lstate \<Rightarrow> lstate \<Rightarrow> bool" where
  "same_heap S S' \<longleftrightarrow> umeta S' = umeta S \<and> gmt S' = gmt S \<and>
     (\<forall>p. map_option (\<lambda>t. t\<lparr>flags := 0\<rparr>) (heap S' p) = map_option (\<lambda>t. t\<lparr>flags := 0\<rparr>) (heap S p))"

lemma tval_flags [simp]: "tval (t\<lparr>flags := f\<rparr>) k = tval t k"
  by (auto simp: tval_def nodes_def in_array_def)

lemma cache_add:
  assumes "cache_ok t" "tval t (VGC (GStr (tmname e))) = VNil"
  shows "cache_ok (t\<lparr>flags := flags t OR push_bit (tm_num e) 1\<rparr>)"
proof -
  have "e' = e" if "bit (push_bit (tm_num e) 1 :: lu_byte) (tm_num e')" for e'
  proof -
    have "tm_num e \<le> tm_num e'" "tm_num e' = tm_num e" using that by (auto simp: bit_simps)
    then show ?thesis by (simp add: tm_num_inj)
  qed
  then show ?thesis using assms by (auto simp: cache_ok_def bit_or_iff)
qed

lemma fasttm_lookup:
  assumes ok: "heap_ok S" and e: "e \<in> {TM_INDEX, TM_NEWINDEX, TM_GC, TM_MODE, TM_EQ}"
    and p: "heap S p = Some t"
  shows "\<exists>S'. fasttm S (Some p) e = Inr (S', let v = tval t (VGC (GStr (tmname e))) in if v = VNil then None else Some v)
    \<and> heap_ok S' \<and> same_heap S S'"
proof (cases "bit (flags t) (tm_num e)")
  case True
  moreover from this have "tval t (VGC (GStr (tmname e))) = VNil"
    using ok e p by (auto simp: heap_ok_def cache_ok_def)
  ultimately show ?thesis using p ok flag_bit [OF tm_num_fast [OF e], of "flags t"]
    by (simp add: fasttm_def table_at_def same_heap_def)
next
  case False
  have t: "tinv t" "cache_ok t" using ok p by (auto simp: heap_ok_def)
  then have g: "getstr_val t (tmname e) = Inr (tval t (VGC (GStr (tmname e))))"
    by (intro getstr_val_tval) (simp add: tinv_def)
  have f: "fasttm S (Some p) e = ebind (luaT_gettm t e) (\<lambda>(t', tm). Inr (set_table p t' S, tm))"
    using False p flag_bit [OF tm_num_fast [OF e], of "flags t"] by (simp add: fasttm_def table_at_def)
  show ?thesis
  proof (cases "tval t (VGC (GStr (tmname e))) = VNil")
    case True
    let ?t = "t\<lparr>flags := flags t OR push_bit (tm_num e) 1\<rparr>"
    have "heap_ok (set_table p ?t S)" "same_heap S (set_table p ?t S)"
      using ok p t cache_add [OF t(2) True] by (auto simp: heap_ok_def set_table_def same_heap_def tinv_def)
    with True g show ?thesis by (simp add: f luaT_gettm_def)
  next
    case nn: False
    have "set_table p t S = S" using p by (simp add: set_table_def fun_upd_idem)
    with nn g ok show ?thesis by (simp add: f luaT_gettm_def same_heap_def)
  qed
qed

lemma fasttm_none: "fasttm S None e = Inr (S, None)"
  by (simp add: fasttm_def)

end
