(* ===== verification/LCtype.thy ===== *)
theory LCtype
  imports Lua_Prelude
begin

text \<open>
  The character classes of \<^verbatim>\<open>ctype.h\<close> in the C locale, which the interpreter starts in, and the reads
  of a C buffer that holds a string and its terminating zero.
\<close>

definition ch :: "char \<Rightarrow> lu_byte" where
  "ch c = word_of_nat (of_char c)"

declare ch_def [simp]

definition isupper :: "lu_byte \<Rightarrow> bool" where "isupper c \<longleftrightarrow> ch CHR ''A'' \<le> c \<and> c \<le> ch CHR ''Z''"
definition islower :: "lu_byte \<Rightarrow> bool" where "islower c \<longleftrightarrow> ch CHR ''a'' \<le> c \<and> c \<le> ch CHR ''z''"
definition isdigit :: "lu_byte \<Rightarrow> bool" where "isdigit c \<longleftrightarrow> ch CHR ''0'' \<le> c \<and> c \<le> ch CHR ''9''"
definition isalpha :: "lu_byte \<Rightarrow> bool" where "isalpha c \<longleftrightarrow> isupper c \<or> islower c"
definition isalnum :: "lu_byte \<Rightarrow> bool" where "isalnum c \<longleftrightarrow> isalpha c \<or> isdigit c"
definition isspace :: "lu_byte \<Rightarrow> bool" where "isspace c \<longleftrightarrow> c = 32 \<or> 9 \<le> c \<and> c \<le> 13"
definition iscntrl :: "lu_byte \<Rightarrow> bool" where "iscntrl c \<longleftrightarrow> c < 32 \<or> c = 127"
definition ispunct :: "lu_byte \<Rightarrow> bool" where "ispunct c \<longleftrightarrow> 32 < c \<and> c < 127 \<and> \<not> isalnum c"
definition isxdigit :: "lu_byte \<Rightarrow> bool" where
  "isxdigit c \<longleftrightarrow> isdigit c \<or> ch CHR ''A'' \<le> c \<and> c \<le> ch CHR ''F'' \<or> ch CHR ''a'' \<le> c \<and> c \<le> ch CHR ''f''"

definition tolower :: "lu_byte \<Rightarrow> lu_byte" where "tolower c = (if isupper c then c + 32 else c)"
definition toupper :: "lu_byte \<Rightarrow> lu_byte" where "toupper c = (if islower c then c - 32 else c)"

lemmas ctype_defs = isupper_def islower_def isdigit_def isalpha_def isalnum_def isspace_def iscntrl_def
  ispunct_def isxdigit_def tolower_def toupper_def

text \<open>Reading at an offset: the byte, the terminator, or a read outside the buffer.\<close>

definition rd :: "lstr \<Rightarrow> nat \<Rightarrow> lu_byte res" where
  "rd s i = (if i < length s then Inr (s ! i) else if i = length s then Inr 0
             else Inl (ErrUB ''read outside the string''))"

lemma rd_ends: "i \<le> length s \<Longrightarrow> ends (rd s i) (\<lambda>c. c \<noteq> 0 \<longrightarrow> i < length s \<and> c = s ! i)"
  by (auto simp: rd_def)

lemma rd_nonzero: "rd s i = Inr c \<Longrightarrow> c \<noteq> 0 \<Longrightarrow> i < length s \<and> c = s ! i"
  by (auto simp: rd_def split: if_splits)

lemma rd_at: "i < length s \<Longrightarrow> rd s i = Inr (s ! i)" "rd s (length s) = Inr 0"
  by (simp_all add: rd_def)

lemma rd_ok: "i \<le> length s \<Longrightarrow> \<exists>c. rd s i = Inr c"
  by (auto simp: rd_def)

end
