(* ===== verification/LVM.thy ===== *)
theory LVM
  imports LTM LCtype
begin

text \<open>
  The operations of the virtual machine on values, src/lua-5.1.5/src/lvm.c, with the conversions of
  lobject.c.  What is outside the repository is a record of functions, \<open>host\<close>: the C library
  (\<^verbatim>\<open>strcoll\<close>, \<^verbatim>\<open>strtod\<close>, \<^verbatim>\<open>strtoul\<close>, \<^verbatim>\<open>sprintf\<close> with \<^verbatim>\<open>LUA_NUMBER_FMT\<close>) and the arithmetic of the
  processor.  A call of a Lua or C function (\<^verbatim>\<open>luaD_call\<close> with one result) is a function on the
  state too: it may change the heap.  The messages of \<^verbatim>\<open>luaG_typeerror\<close> leave out the name of the
  variable.
\<close>

section \<open>The host\<close>

record host =
  h_call :: "TValue \<Rightarrow> TValue list \<Rightarrow> lstate \<Rightarrow> (lstate \<times> TValue) res"
  h_strcoll :: "lstr \<Rightarrow> lstr \<Rightarrow> int"
  h_strtod :: "lstr \<Rightarrow> lua_Number \<times> nat"
  h_strtoul16 :: "lstr \<Rightarrow> lua_Number \<times> nat"
  h_num2str :: "lua_Number \<Rightarrow> lstr"
  h_arith :: "TMS \<Rightarrow> lua_Number \<Rightarrow> lua_Number \<Rightarrow> lua_Number"

text \<open>A C string: the bytes before the first zero.\<close>

definition cstr :: "lstr \<Rightarrow> lstr" where
  "cstr s = takeWhile (\<lambda>c. c \<noteq> 0) s"

definition char_at :: "lstr \<Rightarrow> nat \<Rightarrow> lu_byte" where
  "char_at s i = (if i < length s then s ! i else 0)"

section \<open>Conversions\<close>

definition luaO_str2d :: "host \<Rightarrow> lstr \<Rightarrow> lua_Number option" where
  "luaO_str2d H s0 =
     (let s = cstr s0; (r, k) = h_strtod H s
      in if k = 0 then None
         else let (r, k) = (if char_at s k = 0x78 \<or> char_at s k = 0x58 then h_strtoul16 H s else (r, k))
              in if dropWhile isspace (drop k s) = [] then Some r else None)"

definition luaV_tonumber :: "host \<Rightarrow> TValue \<Rightarrow> lua_Number option" where
  "luaV_tonumber H v =
     (case v of VNumber n \<Rightarrow> Some n | VGC (GStr s) \<Rightarrow> luaO_str2d H s | _ \<Rightarrow> None)"

text \<open>\<^verbatim>\<open>tostring\<close>: the string a value is, or is converted to in place.\<close>

definition tostring :: "host \<Rightarrow> TValue \<Rightarrow> lstr option" where
  "tostring H v =
     (case v of VGC (GStr s) \<Rightarrow> Some s | VNumber n \<Rightarrow> Some (h_num2str H n) | _ \<Rightarrow> None)"

definition ttisstring :: "TValue \<Rightarrow> bool" where
  "ttisstring v = (case v of VGC (GStr _) \<Rightarrow> True | _ \<Rightarrow> False)"

definition ttisfunction :: "TValue \<Rightarrow> bool" where
  "ttisfunction v = (case v of VGC (GFunction _) \<Rightarrow> True | _ \<Rightarrow> False)"

section \<open>Errors\<close>

definition luaT_typenames :: "string list" where
  "luaT_typenames = [''nil'', ''boolean'', ''userdata'', ''number'', ''string'', ''table'', ''function'',
     ''userdata'', ''thread'', ''proto'', ''upval'']"

definition type_name :: "TValue \<Rightarrow> string" where
  "type_name v = luaT_typenames ! nat (ttype v)"

definition luaG_typeerror :: "TValue \<Rightarrow> string \<Rightarrow> lua_error" where
  "luaG_typeerror v op = ErrRun (''attempt to '' @ op @ '' a '' @ type_name v @ '' value'')"

definition luaG_concaterror :: "TValue \<Rightarrow> TValue \<Rightarrow> lua_error" where
  "luaG_concaterror p1 p2 = luaG_typeerror (if ttisstring p1 \<or> ttisnumber p1 then p2 else p1) ''concatenate''"

definition luaG_aritherror :: "host \<Rightarrow> TValue \<Rightarrow> TValue \<Rightarrow> lua_error" where
  "luaG_aritherror H p1 p2 =
     luaG_typeerror (if luaV_tonumber H p1 = None then p1 else p2) ''perform arithmetic on''"

text \<open>\<^verbatim>\<open>t1[2] == t2[2]\<close> compares the third characters of the type names.\<close>

definition luaG_ordererror :: "TValue \<Rightarrow> TValue \<Rightarrow> lua_error" where
  "luaG_ordererror p1 p2 =
     (let t1 = type_name p1; t2 = type_name p2
      in if t1 ! 2 = t2 ! 2 then ErrRun (''attempt to compare two '' @ t1 @ '' values'')
         else ErrRun (''attempt to compare '' @ t1 @ '' with '' @ t2))"

section \<open>Tag-method calls\<close>

definition call_binTM ::
  "host \<Rightarrow> lstate \<Rightarrow> TValue \<Rightarrow> TValue \<Rightarrow> TMS \<Rightarrow> (lstate \<times> TValue option) res" where
  "call_binTM H S p1 p2 e =
     ebind (luaT_gettmbyobj S p1 e) (\<lambda>tm1.
     ebind (if ttisnil tm1 then luaT_gettmbyobj S p2 e else Inr tm1) (\<lambda>tm.
       if ttisnil tm then Inr (S, None)
       else ebind (h_call H tm [p1, p2] S) (\<lambda>(S', r). Inr (S', Some r))))"

definition get_compTM ::
  "lstate \<Rightarrow> ptr option \<Rightarrow> ptr option \<Rightarrow> TMS \<Rightarrow> (lstate \<times> TValue option) res" where
  "get_compTM S mt1 mt2 e =
     ebind (fasttm S mt1 e) (\<lambda>(S1, tm1). case tm1 of
         None \<Rightarrow> Inr (S1, None)
       | Some t1 \<Rightarrow>
           if mt1 = mt2 then Inr (S1, Some t1)
           else ebind (fasttm S1 mt2 e) (\<lambda>(S2, tm2). case tm2 of
                    None \<Rightarrow> Inr (S2, None)
                  | Some t2 \<Rightarrow> Inr (S2, if luaO_rawequalObj t1 t2 then Some t1 else None)))"

text \<open>\<open>None\<close> is the result -1: no method, or different ones.\<close>

definition call_orderTM ::
  "host \<Rightarrow> lstate \<Rightarrow> TValue \<Rightarrow> TValue \<Rightarrow> TMS \<Rightarrow> (lstate \<times> bool option) res" where
  "call_orderTM H S p1 p2 e =
     ebind (luaT_gettmbyobj S p1 e) (\<lambda>tm1.
       if ttisnil tm1 then Inr (S, None)
       else ebind (luaT_gettmbyobj S p2 e) (\<lambda>tm2.
         if \<not> luaO_rawequalObj tm1 tm2 then Inr (S, None)
         else ebind (h_call H tm1 [p1, p2] S) (\<lambda>(S', r). Inr (S', Some (\<not> l_isfalse r)))))"

section \<open>Indexing\<close>

definition MAXTAGLOOP :: nat where "MAXTAGLOOP = 100"

text \<open>What follows when a key is not in a table, or the value is no table.\<close>

definition raw_get :: "lstate \<Rightarrow> TValue \<Rightarrow> TValue \<Rightarrow> (lstate \<times> (TValue, TValue) sum) res" where
  "raw_get S t key =
     (case t of
        VGC (GTable p) \<Rightarrow>
          ebind (table_at S p) (\<lambda>h.
          ebind (luaH_get h key) (\<lambda>sl.
            if \<not> ttisnil (slot_val h sl) then Inr (S, Inr (slot_val h sl))
            else ebind (fasttm S (metatable h) TM_INDEX) (\<lambda>(S', tm). case tm of
                     None \<Rightarrow> Inr (S', Inr VNil)
                   | Some f \<Rightarrow> Inr (S', Inl f))))
      | _ \<Rightarrow>
          ebind (luaT_gettmbyobj S t TM_INDEX) (\<lambda>tm.
            if ttisnil tm then Inl (luaG_typeerror t ''index'') else Inr (S, Inl tm)))"

fun gettable_loop :: "nat \<Rightarrow> host \<Rightarrow> lstate \<Rightarrow> TValue \<Rightarrow> TValue \<Rightarrow> (lstate \<times> TValue) res" where
  "gettable_loop 0 H S t key = Inl (ErrRun ''loop in gettable'')"
| "gettable_loop (Suc n) H S t key =
     ebind (raw_get S t key) (\<lambda>(S', r). case r of
         Inr v \<Rightarrow> Inr (S', v)
       | Inl tm \<Rightarrow>
           if ttisfunction tm then h_call H tm [t, key] S'
           else gettable_loop n H S' tm key)"

definition luaV_gettable :: "host \<Rightarrow> lstate \<Rightarrow> TValue \<Rightarrow> TValue \<Rightarrow> (lstate \<times> TValue) res" where
  "luaV_gettable = gettable_loop MAXTAGLOOP"

text \<open>A primitive set creates the key; the value is written unless there is a tag method.\<close>

definition raw_set :: "lstate \<Rightarrow> TValue \<Rightarrow> TValue \<Rightarrow> TValue \<Rightarrow> (lstate \<times> TValue option) res" where
  "raw_set S t key val =
     (case t of
        VGC (GTable p) \<Rightarrow>
          ebind (table_at S p) (\<lambda>h.
          ebind (luaH_set h key) (\<lambda>(h', sl).
            let S1 = set_table p h' S;
                store = (\<lambda>S. ebind (table_at S p) (\<lambda>h. Inr (set_table p ((slot_set h sl val)\<lparr>flags := 0\<rparr>) S, None)))
            in if \<not> ttisnil (slot_val h' sl) then store S1
               else ebind (fasttm S1 (metatable h') TM_NEWINDEX) (\<lambda>(S2, tm). case tm of
                        None \<Rightarrow> store S2
                      | Some f \<Rightarrow> Inr (S2, Some f))))
      | _ \<Rightarrow>
          ebind (luaT_gettmbyobj S t TM_NEWINDEX) (\<lambda>tm.
            if ttisnil tm then Inl (luaG_typeerror t ''index'') else Inr (S, Some tm)))"

fun settable_loop :: "nat \<Rightarrow> host \<Rightarrow> lstate \<Rightarrow> TValue \<Rightarrow> TValue \<Rightarrow> TValue \<Rightarrow> lstate res" where
  "settable_loop 0 H S t key val = Inl (ErrRun ''loop in settable'')"
| "settable_loop (Suc n) H S t key val =
     ebind (raw_set S t key val) (\<lambda>(S', r). case r of
         None \<Rightarrow> Inr S'
       | Some tm \<Rightarrow>
           if ttisfunction tm then ebind (h_call H tm [t, key, val] S') (\<lambda>(S2, _). Inr S2)
           else settable_loop n H S' tm key val)"

definition luaV_settable :: "host \<Rightarrow> lstate \<Rightarrow> TValue \<Rightarrow> TValue \<Rightarrow> TValue \<Rightarrow> lstate res" where
  "luaV_settable = settable_loop MAXTAGLOOP"

section \<open>Comparison\<close>

text \<open>
  \<^verbatim>\<open>l_strcmp\<close> compares the pieces between zeros one by one.  Each step drops a piece and its zero,
  so the rest gets shorter.
\<close>

function l_strcmp :: "host \<Rightarrow> lstr \<Rightarrow> lstr \<Rightarrow> int" where
  "l_strcmp H l r =
     (let temp = h_strcoll H (cstr l) (cstr r)
      in if temp \<noteq> 0 then temp
         else let len = length (cstr l)
              in if len = length r then (if len = length l then 0 else 1)
                 else if len = length l then - 1
                 else l_strcmp H (drop (Suc len) l) (drop (Suc len) r))"
  by pat_completeness auto
termination
proof (relation "measure (\<lambda>(H, l, r). length l)")
  fix H :: host and l r :: lstr and temp :: int and len :: nat
  assume "len = length (cstr l)" "len \<noteq> length l"
  then have "len < length l" using length_takeWhile_le [of "\<lambda>c. c \<noteq> 0" l] by (simp add: cstr_def)
  then show "((H, drop (Suc len) l, drop (Suc len) r), H, l, r) \<in> measure (\<lambda>(H, l, r). length l)" by simp
qed simp

declare l_strcmp.simps [simp del]

definition luaV_lessthan :: "host \<Rightarrow> lstate \<Rightarrow> TValue \<Rightarrow> TValue \<Rightarrow> (lstate \<times> bool) res" where
  "luaV_lessthan H S l r =
     (if ttype l \<noteq> ttype r then Inl (luaG_ordererror l r)
      else case (l, r) of
             (VNumber a, VNumber b) \<Rightarrow> Inr (S, luai_numlt a b)
           | (VGC (GStr a), VGC (GStr b)) \<Rightarrow> Inr (S, l_strcmp H a b < 0)
           | _ \<Rightarrow> ebind (call_orderTM H S l r TM_LT) (\<lambda>(S', res). case res of
                    Some b \<Rightarrow> Inr (S', b)
                  | None \<Rightarrow> Inl (luaG_ordererror l r)))"

definition lessequal :: "host \<Rightarrow> lstate \<Rightarrow> TValue \<Rightarrow> TValue \<Rightarrow> (lstate \<times> bool) res" where
  "lessequal H S l r =
     (if ttype l \<noteq> ttype r then Inl (luaG_ordererror l r)
      else case (l, r) of
             (VNumber a, VNumber b) \<Rightarrow> Inr (S, luai_numle a b)
           | (VGC (GStr a), VGC (GStr b)) \<Rightarrow> Inr (S, l_strcmp H a b \<le> 0)
           | _ \<Rightarrow> ebind (call_orderTM H S l r TM_LE) (\<lambda>(S', res). case res of
                    Some b \<Rightarrow> Inr (S', b)
                  | None \<Rightarrow> ebind (call_orderTM H S' r l TM_LT) (\<lambda>(S2, res). case res of
                        Some b \<Rightarrow> Inr (S2, \<not> b)
                      | None \<Rightarrow> Inl (luaG_ordererror l r))))"

text \<open>Equality of two values of the same type, with the method of \<^verbatim>\<open>__eq\<close> for tables and userdata.\<close>

definition equal_by_tm ::
  "host \<Rightarrow> lstate \<Rightarrow> ptr option \<Rightarrow> ptr option \<Rightarrow> TValue \<Rightarrow> TValue \<Rightarrow> (lstate \<times> bool) res" where
  "equal_by_tm H S mt1 mt2 t1 t2 =
     ebind (get_compTM S mt1 mt2 TM_EQ) (\<lambda>(S', tm). case tm of
         None \<Rightarrow> Inr (S', False)
       | Some f \<Rightarrow> ebind (h_call H f [t1, t2] S') (\<lambda>(S2, r). Inr (S2, \<not> l_isfalse r)))"

definition luaV_equalval :: "host \<Rightarrow> lstate \<Rightarrow> TValue \<Rightarrow> TValue \<Rightarrow> (lstate \<times> bool) res" where
  "luaV_equalval H S t1 t2 =
     (case (t1, t2) of
        (VGC (GUserdata p), VGC (GUserdata q)) \<Rightarrow>
          if p = q then Inr (S, True) else equal_by_tm H S (umeta S p) (umeta S q) t1 t2
      | (VGC (GTable p), VGC (GTable q)) \<Rightarrow>
          if p = q then Inr (S, True)
          else ebind (table_at S p) (\<lambda>h1. ebind (table_at S q) (\<lambda>h2.
                 equal_by_tm H S (metatable h1) (metatable h2) t1 t2))
      | _ \<Rightarrow> Inr (S, luaO_rawequalObj t1 t2))"

definition equalobj :: "host \<Rightarrow> lstate \<Rightarrow> TValue \<Rightarrow> TValue \<Rightarrow> (lstate \<times> bool) res" where
  "equalobj H S t1 t2 = (if ttype t1 = ttype t2 then luaV_equalval H S t1 t2 else Inr (S, False))"

section \<open>Arithmetic\<close>

definition Arith :: "host \<Rightarrow> lstate \<Rightarrow> TValue \<Rightarrow> TValue \<Rightarrow> TMS \<Rightarrow> (lstate \<times> TValue) res" where
  "Arith H S rb rc op =
     (case (luaV_tonumber H rb, luaV_tonumber H rc) of
        (Some nb, Some nc) \<Rightarrow> Inr (S, VNumber (h_arith H op nb nc))
      | _ \<Rightarrow> ebind (call_binTM H S rb rc op) (\<lambda>(S', r). case r of
               Some v \<Rightarrow> Inr (S', v)
             | None \<Rightarrow> Inl (luaG_aritherror H rb rc)))"

section \<open>Concatenation\<close>

definition MAX_SIZET :: nat where "MAX_SIZET = 2 ^ 64 - 3"

text \<open>
  The stack is a list with the top first.  \<open>collect\<close> takes the values below the top as long as they
  are strings or numbers and counts their length in \<open>len\<close>; the strings come back first to last.
\<close>

fun collect :: "host \<Rightarrow> TValue list \<Rightarrow> nat \<Rightarrow> lstr list \<Rightarrow> (lstr list \<times> TValue list) res" where
  "collect H [] len acc = Inr (acc, [])"
| "collect H (v # vs) len acc =
     (case tostring H v of
        None \<Rightarrow> Inr (acc, v # vs)
      | Some s \<Rightarrow>
          if length s \<ge> MAX_SIZET - len then Inl (ErrRun ''string length overflow'')
          else collect H vs (len + length s) (s # acc))"

definition concat_step :: "host \<Rightarrow> lstate \<Rightarrow> TValue \<Rightarrow> TValue \<Rightarrow> TValue list \<Rightarrow> (lstate \<times> TValue list) res" where
  "concat_step H S v1 v2 rest =
     (case (tostring H v2, tostring H v1) of
        (Some s2, Some s1) \<Rightarrow>
          if s1 = [] then Inr (S, VGC (GStr s2) # rest)
          else ebind (collect H (v2 # rest) (length s1) [s1]) (\<lambda>(ss, rest').
                 Inr (S, VGC (GStr (concat ss)) # rest'))
      | _ \<Rightarrow> ebind (call_binTM H S v2 v1 TM_CONCAT) (\<lambda>(S', r). case r of
               Some v \<Rightarrow> Inr (S', v # rest)
             | None \<Rightarrow> Inl (luaG_concaterror v2 v1)))"

lemma collect_length: "collect H vs len acc = Inr (ss, rest) \<Longrightarrow> length rest \<le> length vs"
  by (induction H vs len acc rule: collect.induct) (auto split: option.splits if_splits)

lemma collect_first:
  "collect H (v # vs) len acc = Inr (ss, rest) \<Longrightarrow> tostring H v \<noteq> None \<Longrightarrow> length rest \<le> length vs"
  using collect_length by (auto split: if_splits)

lemma concat_step_length: "concat_step H S v1 v2 rest = Inr (S', vs) \<Longrightarrow> length vs \<le> Suc (length rest)"
  by (auto simp: concat_step_def ebind_Inr_iff split: option.splits if_splits simp del: collect.simps
      dest!: collect_first)

function luaV_concat :: "host \<Rightarrow> lstate \<Rightarrow> TValue list \<Rightarrow> (lstate \<times> TValue) res" where
  "luaV_concat H S [] = Inl (ErrUB ''empty stack'')"
| "luaV_concat H S [v] = Inr (S, v)"
| "luaV_concat H S (v1 # v2 # rest) =
     (case concat_step H S v1 v2 rest of
        Inl e \<Rightarrow> Inl e
      | Inr (S', vs) \<Rightarrow> luaV_concat H S' vs)"
  by pat_completeness auto
termination
  by (relation "measure (\<lambda>(H, S, vs). length vs)") (auto dest: concat_step_length simp: less_Suc_eq_le)

section \<open>Lemmas\<close>

subsection \<open>Concatenation\<close>

definition the_str :: "host \<Rightarrow> TValue \<Rightarrow> lstr" where
  "the_str H v = (case tostring H v of Some s \<Rightarrow> s | None \<Rightarrow> [])"

lemma tostring_str [simp]: "tostring H (VGC (GStr s)) = Some s"
  by (simp add: tostring_def)

lemma collect_strings:
  assumes "list_all (\<lambda>v. tostring H v \<noteq> None) vs" "len + sum_list (map (length \<circ> the_str H) vs) < MAX_SIZET"
  shows "collect H vs len acc = Inr (rev (map (the_str H) vs) @ acc, [])"
  using assms by (induction vs arbitrary: len acc) (auto simp: the_str_def)

lemma luaV_concat_strings:
  assumes "list_all (\<lambda>v. tostring H v \<noteq> None) vs" "sum_list (map (length \<circ> the_str H) vs) < MAX_SIZET"
    and "2 \<le> length vs"
  shows "luaV_concat H S vs = Inr (S, VGC (GStr (concat (rev (map (the_str H) vs)))))"
  using assms
proof (induction H S vs rule: luaV_concat.induct)
  case (3 H S v1 v2 rest)
  from "3.prems"(1) obtain s1 s2 where s: "tostring H v1 = Some s1" "tostring H v2 = Some s2"
    and r: "list_all (\<lambda>v. tostring H v \<noteq> None) rest" by auto
  then have t: "the_str H v1 = s1" "the_str H v2 = s2" by (simp_all add: the_str_def)
  show ?case
  proof (cases "s1 = []")
    case True
    then have step: "concat_step H S v1 v2 rest = Inr (S, VGC (GStr s2) # rest)"
      using s by (simp add: concat_step_def)
    show ?thesis
    proof (cases rest)
      case Nil
      with step t True show ?thesis by simp
    next
      case (Cons v3 vs)
      have "luaV_concat H S (VGC (GStr s2) # rest) =
        Inr (S, VGC (GStr (concat (rev (map (the_str H) (VGC (GStr s2) # rest))))))"
        by (rule "3.IH" [OF step refl]) (use r "3.prems"(2) t Cons True in \<open>auto simp: the_str_def\<close>)
      moreover have "the_str H (VGC (GStr s2)) = s2" by (simp add: the_str_def)
      ultimately show ?thesis using step t True by simp
    qed
  next
    case False
    have "collect H (v2 # rest) (length s1) [s1] = Inr (rev (map (the_str H) (v2 # rest)) @ [s1], [])"
      by (rule collect_strings) (use r s "3.prems"(2) t in \<open>auto simp: add.assoc o_def\<close>)
    with s False t show ?thesis by (simp add: concat_step_def del: collect.simps)
  qed
qed simp_all

subsection \<open>Order\<close>

text \<open>The byte order on whole strings.\<close>

fun lex_less :: "lstr \<Rightarrow> lstr \<Rightarrow> bool" where
  "lex_less _ [] = False"
| "lex_less [] (y # ys) = True"
| "lex_less (x # xs) (y # ys) = (x < y \<or> x = y \<and> lex_less xs ys)"

definition c_collation :: "host \<Rightarrow> bool" where
  "c_collation H \<longleftrightarrow> (\<forall>a b. 0 \<notin> set a \<longrightarrow> 0 \<notin> set b \<longrightarrow>
     (h_strcoll H a b = 0 \<longleftrightarrow> a = b) \<and> (h_strcoll H a b < 0 \<longleftrightarrow> lex_less a b))"

lemma cstr_no_zero: "0 \<notin> set (cstr s)"
  by (auto simp: cstr_def dest: set_takeWhileD)

lemma cstr_rest: "s = cstr s \<or> (\<exists>t. s = cstr s @ 0 # t)"
proof -
  have "s = takeWhile (\<lambda>c. c \<noteq> 0) s @ dropWhile (\<lambda>c. c \<noteq> 0) s" by simp
  moreover have "dropWhile (\<lambda>c. c \<noteq> 0) s = [] \<or> (\<exists>t. dropWhile (\<lambda>c. c \<noteq> 0) s = 0 # t)"
    using hd_dropWhile [of "\<lambda>c. c \<noteq> (0::lu_byte)" s] by (cases "dropWhile (\<lambda>c. c \<noteq> 0) s") auto
  ultimately show ?thesis unfolding cstr_def by (metis append_Nil2)
qed

lemma lex_less_prefix: "lex_less (a @ x) (a @ y) \<longleftrightarrow> lex_less x y"
  by (induction a) auto

lemma lex_less_pieces:
  assumes "0 \<notin> set a" "0 \<notin> set b" "a \<noteq> b" "x = [] \<or> (\<exists>x'. x = 0 # x')" "y = [] \<or> (\<exists>y'. y = 0 # y')"
  shows "lex_less (a @ x) (b @ y) \<longleftrightarrow> lex_less a b"
  using assms
proof (induction a b rule: lex_less.induct)
  case (1 a)
  then show ?case by (cases a) (auto simp: word_gt_0)
next
  case (2 b bs)
  then show ?case by (auto simp: word_gt_0)
qed auto

lemma l_strcmp_lex:
  assumes "c_collation H"
  shows "(l_strcmp H l r = 0 \<longleftrightarrow> l = r) \<and> (l_strcmp H l r < 0 \<longleftrightarrow> lex_less l r)"
  using assms
proof (induction H l r rule: l_strcmp.induct)
  case (1 H l r)
  let ?a = "cstr l" and ?b = "cstr r"
  have coll: "(h_strcoll H ?a ?b = 0 \<longleftrightarrow> ?a = ?b) \<and> (h_strcoll H ?a ?b < 0 \<longleftrightarrow> lex_less ?a ?b)"
    using "1.prems" cstr_no_zero by (simp add: c_collation_def)
  obtain x y where x: "l = ?a @ x" "x = [] \<or> (\<exists>x'. x = 0 # x')" and y: "r = ?b @ y" "y = [] \<or> (\<exists>y'. y = 0 # y')"
    using cstr_rest [of l] cstr_rest [of r] by (metis append_Nil2)
  show ?case
  proof (cases "?a = ?b")
    case False
    have "l \<noteq> r" using False by auto
    moreover have "lex_less l r \<longleftrightarrow> lex_less ?a ?b"
      using lex_less_pieces [OF cstr_no_zero cstr_no_zero False x(2) y(2)] x(1) y(1) by metis
    ultimately show ?thesis using coll False by (simp add: l_strcmp.simps [of H l r] Let_def)
  next
    case True
    then have z: "h_strcoll H ?a ?b = 0" using coll by simp
    have lens: "length ?a = length l \<longleftrightarrow> x = []" "length ?a = length r \<longleftrightarrow> y = []"
      using x(1) y(1) True by (metis append_Nil2 append_eq_append_conv)+
    have eqv: "l = r \<longleftrightarrow> x = y" "lex_less l r \<longleftrightarrow> lex_less x y"
      using x(1) y(1) True lex_less_prefix by (metis append_same_eq same_append_eq)+
    show ?thesis
    proof (cases "x = [] \<or> y = []")
      case True
      with z lens eqv x(2) y(2) show ?thesis
        by (auto simp: l_strcmp.simps [of H l r] Let_def)
    next
      case nn: False
      then obtain x' y' where xy: "x = 0 # x'" "y = 0 # y'" using x(2) y(2) by auto
      have d: "drop (Suc (length ?a)) l = x'" "drop (Suc (length ?a)) r = y'"
        using x(1) y(1) xy True by (metis append_eq_conv_conj drop_Suc_Cons drop_drop drop0 add.commute plus_1_eq_Suc)+
      have st: "l_strcmp H l r = l_strcmp H x' y'"
        using z nn lens d by (subst l_strcmp.simps) (simp add: Let_def)
      have "(l_strcmp H x' y' = 0 \<longleftrightarrow> x' = y') \<and> (l_strcmp H x' y' < 0 \<longleftrightarrow> lex_less x' y')"
        using "1.IH" [OF refl _ refl] z nn lens d "1.prems" by simp
      with st eqv xy show ?thesis by simp
    qed
  qed
qed

subsection \<open>Indexing\<close>

lemma raw_get_table:
  assumes ok: "heap_ok S" and p: "heap S p = Some t" and key: "live key"
  shows "tval t key \<noteq> VNil \<Longrightarrow> raw_get S (VGC (GTable p)) key = Inr (S, Inr (tval t key))"
    and "tval t key = VNil \<Longrightarrow> metatable t = None \<Longrightarrow> raw_get S (VGC (GTable p)) key = Inr (S, Inr VNil)"
    and "tval t key = VNil \<Longrightarrow> metatable t = Some m \<Longrightarrow> heap S m = Some mt \<Longrightarrow>
      \<exists>S'. heap_ok S' \<and> same_heap S S' \<and> raw_get S (VGC (GTable p)) key =
        Inr (S', let f = tval mt (VGC (GStr (tmname TM_INDEX))) in if f = VNil then Inr VNil else Inl f)"
proof -
  have inv: "tinv0 t" using ok p by (simp add: heap_ok_def tinv_def)
  obtain s where s: "luaH_get t key = Inr s" "slot_val t s = tval t key"
    using luaH_get_slot [OF inv key] slot_for_val [OF inv key] by metis
  show "tval t key \<noteq> VNil \<Longrightarrow> raw_get S (VGC (GTable p)) key = Inr (S, Inr (tval t key))"
    "tval t key = VNil \<Longrightarrow> metatable t = None \<Longrightarrow> raw_get S (VGC (GTable p)) key = Inr (S, Inr VNil)"
    using s p by (simp_all add: raw_get_def table_at_def fasttm_none)
  assume n: "tval t key = VNil" "metatable t = Some m" "heap S m = Some mt"
  obtain S' where "fasttm S (Some m) TM_INDEX = Inr (S', let v = tval mt (VGC (GStr (tmname TM_INDEX)))
    in if v = VNil then None else Some v)" "heap_ok S'" "same_heap S S'"
    using fasttm_lookup [OF ok _ n(3), of TM_INDEX] by auto
  with s p n show "\<exists>S'. heap_ok S' \<and> same_heap S S' \<and> raw_get S (VGC (GTable p)) key =
        Inr (S', let f = tval mt (VGC (GStr (tmname TM_INDEX))) in if f = VNil then Inr VNil else Inl f)"
    by (auto simp: raw_get_def table_at_def Let_def split: if_splits)
qed

text \<open>Storing in a table without metatable, and reading back.\<close>

lemma luaV_settable_plain:
  assumes ok: "heap_ok S" and p: "heap S p = Some t" "metatable t = None" and key: "live key" "\<not> isnan key"
  shows "luaV_settable H S (VGC (GTable p)) key v = Inl table_overflow \<and> tval t key = VNil \<or>
    (\<exists>t'. luaV_settable H S (VGC (GTable p)) key v = Inr (set_table p t' S) \<and> updated t key v t' \<and> flags t' = 0)"
proof -
  have inv: "tinv t" using ok p by (simp add: heap_ok_def)
  from luaH_set_ready [OF inv key] show ?thesis
  proof
    assume "luaH_set t key = Inl table_overflow \<and> tval t key = VNil"
    then show ?thesis using p by (simp add: luaV_settable_def MAXTAGLOOP_def numeral_eq_Suc raw_set_def table_at_def)
  next
    assume "\<exists>r. luaH_set t key = Inr r \<and> slot_ready t key r"
    then obtain h sl where h: "luaH_set t key = Inr (h, sl)" "slot_ready t key (h, sl)" by auto
    then have "metatable h = None" using p by (simp add: slot_ready_def)
    let ?t = "(slot_set h sl v)\<lparr>flags := 0\<rparr>"
    have "set_table p ?t (set_table p h S) = set_table p ?t S" by (simp add: set_table_def)
    with h p have "raw_set S (VGC (GTable p)) key v = Inr (set_table p ?t S, None)"
      using \<open>metatable h = None\<close>
      by (simp add: raw_set_def table_at_def fasttm_none set_table_def Let_def)
    then have e: "luaV_settable H S (VGC (GTable p)) key v = Inr (set_table p ?t S)"
      by (simp add: luaV_settable_def MAXTAGLOOP_def numeral_eq_Suc)
    obtain t' where "write_to (Inr (h, sl)) v = Inr t'" "updated t key v t'"
      using write_ready [OF h(2) key(1)] by blast
    then have "updated t key v ?t"
      by (auto simp: write_to_def updated_def tinv_def)
    with e show ?thesis by auto
  qed
qed

lemma luaV_gettable_plain:
  assumes ok: "heap_ok S" and p: "heap S p = Some t" and key: "live key" and m: "metatable t = None"
  shows "luaV_gettable H S (VGC (GTable p)) key = Inr (S, tval t key)"
  using raw_get_table(1,2) [OF ok p key] m
  by (cases "tval t key = VNil") (simp_all add: luaV_gettable_def MAXTAGLOOP_def numeral_eq_Suc)

text \<open>A table that is its own \<^verbatim>\<open>__index\<close>: the loop is cut after \<^verbatim>\<open>MAXTAGLOOP\<close> rounds.\<close>

lemma gettable_loop_self:
  assumes ok: "heap_ok S" and p: "heap S p = Some t" and key: "live key" and m: "metatable t = Some p"
    and nil: "tval t key = VNil" and self: "tval t (VGC (GStr (tmname TM_INDEX))) = VGC (GTable p)"
  shows "gettable_loop n H S (VGC (GTable p)) key = Inl (ErrRun ''loop in gettable'')"
  using ok p m nil self
proof (induction n arbitrary: S t)
  case (Suc n)
  from raw_get_table(3) [OF Suc.prems(1,2) key Suc.prems(4,3,2)] Suc.prems(5) obtain S' where
    S': "heap_ok S'" "same_heap S S'" "raw_get S (VGC (GTable p)) key = Inr (S', Inl (VGC (GTable p)))"
    by auto
  then obtain t' where t': "heap S' p = Some t'" "t'\<lparr>flags := 0\<rparr> = t\<lparr>flags := 0\<rparr>"
    using Suc.prems(2) by (auto simp: same_heap_def dest!: spec [of _ p])
  have "tval t' k = tval t k" for k
  proof -
    have "tval (t'\<lparr>flags := 0\<rparr>) k = tval (t\<lparr>flags := 0\<rparr>) k" using t'(2) by simp
    then show ?thesis by simp
  qed
  moreover have "metatable t' = metatable t"
    using arg_cong [OF t'(2), of metatable] by simp
  ultimately show ?case using Suc.IH [OF S'(1) t'(1)] Suc.prems S'(3) by (simp add: ttisfunction_def)
qed simp

end
