(* ===== verification/LTabLib.thy ===== *)
theory LTabLib
  imports LVM "HOL-Library.Multiset"
begin

text \<open>
  The table library, src/lua-5.1.5/src/ltablib.c, on the integer keys of a table
  (\<^verbatim>\<open>lua_rawgeti\<close>, \<^verbatim>\<open>lua_rawseti\<close>).  The functions that only move elements take the two accesses
  as arguments; the locale \<open>int_array\<close> holds what they rely on, and the tables of theory LTable
  are an interpretation.  The arguments are given after the checks of lauxlib
  (\<^verbatim>\<open>luaL_checktype\<close>, \<^verbatim>\<open>luaL_checkint\<close>).
\<close>

section \<open>Access\<close>

type_synonym 't getter = "'t \<Rightarrow> int \<Rightarrow> TValue res"
type_synonym 't setter = "'t \<Rightarrow> int \<Rightarrow> TValue \<Rightarrow> 't res"

definition rawgeti :: "Table getter" where
  "rawgeti t n = getnum_val t n"

definition rawseti :: "Table setter" where
  "rawseti t n v = write_to (luaH_setnum t n) v"

section \<open>Insertion and removal\<close>

text \<open>\<^verbatim>\<open>for (i = e; i > pos; i--) t[i] = t[i-1]\<close>.\<close>

definition move_up :: "'t getter \<Rightarrow> 't setter \<Rightarrow> int \<Rightarrow> int \<Rightarrow> 't \<Rightarrow> 't res" where
  "move_up geti seti e pos t = efold (\<lambda>i t. ebind (geti t (i - 1)) (seti t i)) (rev [pos + 1..e]) t"

text \<open>\<^verbatim>\<open>for ( ; pos < e; pos++) t[pos] = t[pos+1]\<close>.\<close>

definition move_down :: "'t getter \<Rightarrow> 't setter \<Rightarrow> int \<Rightarrow> int \<Rightarrow> 't \<Rightarrow> 't res" where
  "move_down geti seti pos e t = efold (\<lambda>i t. ebind (geti t (i + 1)) (seti t i)) [pos..e - 1] t"

text \<open>\<open>gettop\<close> is the number of arguments, \<open>pos\<close> the position if there is one.\<close>

definition tinsert :: "nat \<Rightarrow> Table \<Rightarrow> int \<Rightarrow> TValue \<Rightarrow> Table res" where
  "tinsert gettop t pos v =
     ebind (luaH_getn t) (\<lambda>n.
       let e = int n + 1
       in if gettop = 2 then rawseti t e v
          else if gettop = 3 then
            ebind (move_up rawgeti rawseti (if e < pos then pos else e) pos t) (\<lambda>t. rawseti t pos v)
          else Inl (ErrRun (''wrong number of arguments to '' @ LUA_QL ''insert'')))"

definition tremove :: "Table \<Rightarrow> int option \<Rightarrow> (Table \<times> TValue option) res" where
  "tremove t pos =
     ebind (luaH_getn t) (\<lambda>n.
       let e = int n; pos = (case pos of None \<Rightarrow> e | Some p \<Rightarrow> p)
       in if \<not> (1 \<le> pos \<and> pos \<le> e) then Inr (t, None)
          else ebind (rawgeti t pos) (\<lambda>result.
               ebind (move_down rawgeti rawseti pos e t) (\<lambda>t.
               ebind (rawseti t e VNil) (\<lambda>t. Inr (t, Some result)))))"

section \<open>Iteration and concatenation\<close>

text \<open>The callback may change the table; it stops the loop with a value that is not nil.\<close>

type_synonym callback = "TValue \<Rightarrow> TValue \<Rightarrow> Table \<Rightarrow> (Table \<times> TValue) res"

fun foreachi_loop :: "callback \<Rightarrow> int list \<Rightarrow> Table \<Rightarrow> (Table \<times> TValue) res" where
  "foreachi_loop f [] t = Inr (t, VNil)"
| "foreachi_loop f (i # is) t =
     ebind (rawgeti t i) (\<lambda>v.
     ebind (f (VNumber (cast_num i)) v t) (\<lambda>(t, r).
       if \<not> ttisnil r then Inr (t, r) else foreachi_loop f is t))"

definition foreachi :: "callback \<Rightarrow> Table \<Rightarrow> (Table \<times> TValue) res" where
  "foreachi f t = ebind (luaH_getn t) (\<lambda>n. foreachi_loop f [1..int n] t)"

fun foreach_loop :: "nat \<Rightarrow> callback \<Rightarrow> TValue \<Rightarrow> Table \<Rightarrow> (Table \<times> TValue) res" where
  "foreach_loop 0 f k t = Inl ErrLoop"
| "foreach_loop (Suc n) f k t =
     ebind (luaH_next t k) (\<lambda>r. case r of
         None \<Rightarrow> Inr (t, VNil)
       | Some (k', v) \<Rightarrow>
           ebind (f k' v t) (\<lambda>(t, r). if \<not> ttisnil r then Inr (t, r) else foreach_loop n f k' t))"

fun maxn_loop :: "nat \<Rightarrow> Table \<Rightarrow> TValue \<Rightarrow> lua_Number \<Rightarrow> lua_Number res" where
  "maxn_loop 0 t k mx = Inl ErrLoop"
| "maxn_loop (Suc n) t k mx =
     ebind (luaH_next t k) (\<lambda>r. case r of
         None \<Rightarrow> Inr mx
       | Some (k', _) \<Rightarrow>
           maxn_loop n t k' (case k' of VNumber v \<Rightarrow> (if luai_numlt mx v then v else mx) | _ \<Rightarrow> mx))"

text \<open>A key is visited once: the fuel is one more than the number of slots.\<close>

definition maxn :: "Table \<Rightarrow> lua_Number res" where
  "maxn t = maxn_loop (Suc (sizearray t + length (nodes t))) t VNil 0"

definition unlit :: "lstr \<Rightarrow> string" where
  "unlit s = map (\<lambda>c. char_of (unat c)) s"

definition addfield :: "host \<Rightarrow> Table \<Rightarrow> int \<Rightarrow> lstr \<Rightarrow> lstr res" where
  "addfield H t i b =
     ebind (rawgeti t i) (\<lambda>v. case tostring H v of
         None \<Rightarrow> Inl (ErrRun (''invalid value ('' @ type_name v @ '') at index '' @ unlit (h_num2str H (cast_num i)) @
             '' in table for '' @ LUA_QL ''concat''))
       | Some s \<Rightarrow> Inr (b @ s))"

definition tconcat :: "host \<Rightarrow> Table \<Rightarrow> lstr \<Rightarrow> int \<Rightarrow> int \<Rightarrow> lstr res" where
  "tconcat H t sep i j =
     ebind (efold (\<lambda>k b. ebind (addfield H t k b) (\<lambda>b. Inr (b @ sep))) [i..j - 1] []) (\<lambda>b.
       if i \<le> j then addfield H t j b else Inr b)"

section \<open>Sorting\<close>

text \<open>
  The comparison of two elements (\<^verbatim>\<open>sort_comp\<close>): an argument; the default is \<open>lua_lessthan\<close>.  It is
  taken not to change the table.
\<close>

type_synonym comparison = "TValue \<Rightarrow> TValue \<Rightarrow> bool res"

text \<open>\<^verbatim>\<open>set2\<close>: the top of the stack goes to \<open>i\<close>, the value below to \<open>j\<close>.\<close>

definition set2 :: "'t setter \<Rightarrow> int \<Rightarrow> int \<Rightarrow> TValue \<Rightarrow> TValue \<Rightarrow> 't \<Rightarrow> 't res" where
  "set2 seti i j a below t = ebind (seti t i a) (\<lambda>t. seti t j below)"

definition invalid_order :: lua_error where
  "invalid_order = ErrRun ''invalid order function for sorting''"

text \<open>\<^verbatim>\<open>while (lua_rawgeti(L, 1, ++i), sort_comp(L, -1, -2))\<close>: the index it stops at and its value.\<close>

function scan_up :: "'t getter \<Rightarrow> comparison \<Rightarrow> 't \<Rightarrow> TValue \<Rightarrow> int \<Rightarrow> int \<Rightarrow> (int \<times> TValue) res" where
  "scan_up geti cmp t P u i =
     (case ebind (geti t (i + 1)) (\<lambda>x. ebind (cmp x P) (\<lambda>b. Inr (x, b))) of
        Inl e \<Rightarrow> Inl e
      | Inr (x, b) \<Rightarrow>
          if b then (if u < i + 1 then Inl invalid_order else scan_up geti cmp t P u (i + 1))
          else Inr (i + 1, x))"
  by pat_completeness auto
termination
  by (relation "measure (\<lambda>(geti, cmp, t, P, u, i). nat (u + 1 - i))") auto

function scan_down :: "'t getter \<Rightarrow> comparison \<Rightarrow> 't \<Rightarrow> TValue \<Rightarrow> int \<Rightarrow> int \<Rightarrow> (int \<times> TValue) res" where
  "scan_down geti cmp t P l j =
     (case ebind (geti t (j - 1)) (\<lambda>x. ebind (cmp P x) (\<lambda>b. Inr (x, b))) of
        Inl e \<Rightarrow> Inl e
      | Inr (x, b) \<Rightarrow>
          if b then (if j - 1 < l then Inl invalid_order else scan_down geti cmp t P l (j - 1))
          else Inr (j - 1, x))"
  by pat_completeness auto
termination
  by (relation "measure (\<lambda>(geti, cmp, t, P, l, j). nat (j + 1 - l))") auto

declare scan_up.simps [simp del] scan_down.simps [simp del]

lemma scan_up_gt: "scan_up geti cmp t P u i = Inr (i', x) \<Longrightarrow> i < i'"
proof (induction geti cmp t P u i rule: scan_up.induct)
  case (1 geti cmp t P u i)
  then show ?case
    by (fastforce simp: scan_up.simps [of geti cmp t P u i] split: sum.splits if_splits)
qed

lemma scan_down_less: "scan_down geti cmp t P l j = Inr (j', x) \<Longrightarrow> j' < j"
proof (induction geti cmp t P l j rule: scan_down.induct)
  case (1 geti cmp t P l j)
  then show ?case
    by (fastforce simp: scan_down.simps [of geti cmp t P l j] split: sum.splits if_splits)
qed

text \<open>The loop that partitions \<open>l..u\<close> around the pivot: the table and the final \<open>i\<close>.\<close>

definition scans ::
  "'t getter \<Rightarrow> comparison \<Rightarrow> 't \<Rightarrow> TValue \<Rightarrow> int \<Rightarrow> int \<Rightarrow> int \<Rightarrow> int \<Rightarrow> (int \<times> TValue \<times> int \<times> TValue) res" where
  "scans geti cmp t P l u i j =
     ebind (scan_up geti cmp t P u i) (\<lambda>(i, x).
     ebind (scan_down geti cmp t P l j) (\<lambda>(j, y). Inr (i, x, j, y)))"

function partition_loop ::
  "'t getter \<Rightarrow> 't setter \<Rightarrow> comparison \<Rightarrow> TValue \<Rightarrow> int \<Rightarrow> int \<Rightarrow> 't \<Rightarrow> int \<Rightarrow> int \<Rightarrow> ('t \<times> int) res" where
  "partition_loop geti seti cmp P l u t i j =
     (case scans geti cmp t P l u i j of
        Inl e \<Rightarrow> Inl e
      | Inr (i', x, j', y) \<Rightarrow>
          if j' < i' then Inr (t, i')
          else (case set2 seti i' j' y x t of
                  Inl e \<Rightarrow> Inl e
                | Inr t' \<Rightarrow> partition_loop geti seti cmp P l u t' i' j'))"
  by pat_completeness auto
termination
  by (relation "measure (\<lambda>(geti, seti, cmp, P, l, u, t, i, j). nat (j - i))")
    (auto simp: scans_def ebind_Inr_iff dest!: scan_up_gt scan_down_less)

declare partition_loop.simps [simp del]

text \<open>
  The first part of a round: the median of the first, middle and last element goes to the middle.
  \<open>None\<close> as the new middle means that the two or three elements are sorted (\<^verbatim>\<open>break\<close>).
\<close>

definition swap_if :: "'t setter \<Rightarrow> bool \<Rightarrow> int \<Rightarrow> int \<Rightarrow> TValue \<Rightarrow> TValue \<Rightarrow> 't \<Rightarrow> 't res" where
  "swap_if seti b i j a below t = (if b then set2 seti i j a below t else Inr t)"

definition median3 :: "'t getter \<Rightarrow> 't setter \<Rightarrow> comparison \<Rightarrow> int \<Rightarrow> int \<Rightarrow> 't \<Rightarrow> ('t \<times> int option) res" where
  "median3 geti seti cmp l u t =
     ebind (geti t l) (\<lambda>al. ebind (geti t u) (\<lambda>au.
     ebind (cmp au al) (\<lambda>b. ebind (swap_if seti b l u au al t) (\<lambda>t.
       if u - l = 1 then Inr (t, None)
       else if \<not> is_int (l + u) then Inl (ErrUB ''overflow of l+u'')
       else let i = (l + u) div 2 in
         ebind (geti t i) (\<lambda>ai. ebind (geti t l) (\<lambda>al.
         ebind (cmp ai al) (\<lambda>b.
         ebind (if b then set2 seti i l al ai t
                else ebind (geti t u) (\<lambda>au. ebind (cmp au ai) (\<lambda>b. swap_if seti b i u au ai t))) (\<lambda>t.
           Inr (t, if u - l = 2 then None else Some i)))))))))"

text \<open>The rest of the round: partition around the middle; the final place of the pivot.\<close>

definition partition_round ::
  "'t getter \<Rightarrow> 't setter \<Rightarrow> comparison \<Rightarrow> int \<Rightarrow> int \<Rightarrow> int \<Rightarrow> 't \<Rightarrow> ('t \<times> int) res" where
  "partition_round geti seti cmp l u i t =
     ebind (geti t i) (\<lambda>P. ebind (geti t (u - 1)) (\<lambda>x.
     ebind (set2 seti i (u - 1) x P t) (\<lambda>t.
     ebind (partition_loop geti seti cmp P l u t l (u - 1)) (\<lambda>(t, i).
     ebind (geti t (u - 1)) (\<lambda>x. ebind (geti t i) (\<lambda>y.
     ebind (set2 seti (u - 1) i y x t) (\<lambda>t. Inr (t, i))))))))"

text \<open>
  The recursion goes into the smaller part and the loop goes on with the larger.  With an order
  function that is no order the rounds may go on for ever; the fuel counts them.
\<close>

fun auxsort :: "nat \<Rightarrow> 't getter \<Rightarrow> 't setter \<Rightarrow> comparison \<Rightarrow> int \<Rightarrow> int \<Rightarrow> 't \<Rightarrow> 't res" where
  "auxsort 0 geti seti cmp l u t = Inl ErrLoop"
| "auxsort (Suc n) geti seti cmp l u t =
     (if l < u then
        ebind (median3 geti seti cmp l u t) (\<lambda>(t, m). case m of
            None \<Rightarrow> Inr t
          | Some i \<Rightarrow>
              ebind (partition_round geti seti cmp l u i t) (\<lambda>(t, i).
                if i - l < u - i
                then ebind (auxsort n geti seti cmp l (i - 1) t) (auxsort n geti seti cmp (i + 1) u)
                else ebind (auxsort n geti seti cmp (i + 1) u t) (auxsort n geti seti cmp l (i - 1))))
      else Inr t)"

definition sort_default :: "host \<Rightarrow> lstate \<Rightarrow> comparison" where
  "sort_default H S a b = ebind (luaV_lessthan H S a b) (\<lambda>(_, r). Inr r)"

definition table_sort :: "nat \<Rightarrow> comparison \<Rightarrow> Table \<Rightarrow> Table res" where
  "table_sort fuel cmp t = ebind (luaH_getn t) (\<lambda>n. auxsort fuel rawgeti rawseti cmp 1 (int n) t)"

section \<open>Arrays\<close>

text \<open>
  The interface the functions rely on: the values at the \<^verbatim>\<open>int\<close> keys.  A store may fail when the
  key is new.
\<close>

locale int_array =
  fixes geti :: "'t getter" and seti :: "'t setter" and good :: "'t \<Rightarrow> bool" and val :: "'t \<Rightarrow> int \<Rightarrow> TValue"
  assumes get: "good t \<Longrightarrow> is_int i \<Longrightarrow> geti t i = Inr (val t i)"
    and set: "good t \<Longrightarrow> is_int i \<Longrightarrow> seti t i v = Inl table_overflow \<and> val t i = VNil \<or>
      (\<exists>t'. seti t i v = Inr t' \<and> good t' \<and> val t' = (val t)(i := v))"
begin

lemma set_present:
  assumes "good t" "is_int i" "val t i \<noteq> VNil"
  shows "\<exists>t'. seti t i v = Inr t' \<and> good t' \<and> val t' = (val t)(i := v)"
  using set [OF assms(1,2), of v] assms(3) by auto

lemma move_up_val:
  assumes "good t" "is_int pos" "is_int e" "pos \<le> e"
  shows "move_up geti seti e pos t = Inl table_overflow \<or>
    (\<exists>t'. move_up geti seti e pos t = Inr t' \<and> good t' \<and>
      val t' = (\<lambda>k. if pos < k \<and> k \<le> e then val t (k - 1) else val t k))"
  using assms
proof (induction "nat (e - pos)" arbitrary: e t)
  case 0
  then show ?case by (auto simp: move_up_def fun_eq_iff intro: exI [of _ t])
next
  case (Suc n)
  have e: "[pos + 1..e] = [pos + 1..e - 1] @ [e]" using Suc.hyps(2) upto_rec2 [of "pos + 1" e] by simp
  have ie: "is_int (e - 1)" using Suc.prems Suc.hyps(2) by (simp add: is_int_def)
  have step: "move_up geti seti e pos t = ebind (seti t e (val t (e - 1))) (\<lambda>t. move_up geti seti (e - 1) pos t)"
    using get [OF Suc.prems(1) ie] by (simp add: move_up_def e)
  from set [OF Suc.prems(1,3), of "val t (e - 1)"] show ?case
  proof
    assume "\<exists>t'. seti t e (val t (e - 1)) = Inr t' \<and> good t' \<and> val t' = (val t)(e := val t (e - 1))"
    then obtain t1 where t1: "seti t e (val t (e - 1)) = Inr t1" "good t1" "val t1 = (val t)(e := val t (e - 1))"
      by blast
    have "n = nat (e - 1 - pos)" "pos \<le> e - 1" using Suc.hyps(2) by simp_all
    from Suc.hyps(1) [OF this(1) t1(2) Suc.prems(2) ie this(2)] show ?case
      using step t1 \<open>pos \<le> e - 1\<close> by (auto simp: fun_eq_iff)
  qed (use step in simp)
qed

lemma move_down_val:
  assumes "good t" "is_int pos" "is_int e" "pos \<le> e"
  shows "move_down geti seti pos e t = Inl table_overflow \<or>
    (\<exists>t'. move_down geti seti pos e t = Inr t' \<and> good t' \<and>
      val t' = (\<lambda>k. if pos \<le> k \<and> k < e then val t (k + 1) else val t k))"
  using assms
proof (induction "nat (e - pos)" arbitrary: pos t)
  case 0
  then show ?case by (auto simp: move_down_def fun_eq_iff intro: exI [of _ t])
next
  case (Suc n)
  have e: "[pos..e - 1] = pos # [pos + 1..e - 1]" using Suc.hyps(2) by (simp add: upto_rec1)
  have ip: "is_int (pos + 1)" using Suc.prems Suc.hyps(2) by (simp add: is_int_def)
  have step: "move_down geti seti pos e t = ebind (seti t pos (val t (pos + 1))) (\<lambda>t. move_down geti seti (pos + 1) e t)"
    using get [OF Suc.prems(1) ip] by (simp add: move_down_def e)
  from set [OF Suc.prems(1,2), of "val t (pos + 1)"] show ?case
  proof
    assume "\<exists>t'. seti t pos (val t (pos + 1)) = Inr t' \<and> good t' \<and> val t' = (val t)(pos := val t (pos + 1))"
    then obtain t1 where t1: "seti t pos (val t (pos + 1)) = Inr t1" "good t1"
      "val t1 = (val t)(pos := val t (pos + 1))" by blast
    have "n = nat (e - (pos + 1))" "pos + 1 \<le> e" using Suc.hyps(2) by simp_all
    note IH = Suc.hyps(1) [OF this(1) t1(2) ip Suc.prems(3) this(2)]
    have "(\<lambda>k. if pos + 1 \<le> k \<and> k < e then val t1 (k + 1) else val t1 k) =
      (\<lambda>k. if pos \<le> k \<and> k < e then val t (k + 1) else val t k)"
    proof
      fix k show "(if pos + 1 \<le> k \<and> k < e then val t1 (k + 1) else val t1 k) =
        (if pos \<le> k \<and> k < e then val t (k + 1) else val t k)"
        using \<open>pos + 1 \<le> e\<close> unfolding t1(3) by (cases "k = pos") auto
    qed
    with IH step t1(1) show ?case by simp
  qed (use step in simp)
qed

end

section \<open>Sorted ranges\<close>

definition seg :: "(int \<Rightarrow> 'a) \<Rightarrow> int \<Rightarrow> int \<Rightarrow> 'a multiset" where
  "seg v l u = image_mset v (mset_set {l..u})"

lemma in_seg: "x \<in># seg v l u \<longleftrightarrow> (\<exists>k. l \<le> k \<and> k \<le> u \<and> x = v k)"
  by (auto simp: seg_def)

lemma in_segI: "l \<le> k \<Longrightarrow> k \<le> u \<Longrightarrow> v k \<in># seg v l u"
  by (auto simp: in_seg)

lemma seg_cong: "(\<And>k. l \<le> k \<Longrightarrow> k \<le> u \<Longrightarrow> v k = v' k) \<Longrightarrow> seg v l u = seg v' l u"
  unfolding seg_def by (rule image_mset_cong) auto

lemma seg_split:
  assumes "l \<le> i" "i \<le> u"
  shows "seg v l u = seg v l (i - 1) + {#v i#} + seg v (i + 1) u"
proof -
  have "{l..u} = {l..i - 1} \<union> insert i {i + 1..u}" using assms by auto
  then have "mset_set {l..u} = mset_set {l..i - 1} + mset_set (insert i {i + 1..u})"
    by (simp add: mset_set_Union)
  then show ?thesis by (simp add: seg_def)
qed

lemma seg_swap:
  assumes "l \<le> i" "i \<le> u" "l \<le> j" "j \<le> u"
  shows "seg (v(i := v j, j := v i)) l u = seg v l u"
proof (cases "i = j")
  case False
  have s: "mset_set {l..u} = {#i, j#} + mset_set ({l..u} - {i, j})"
  proof -
    have "{l..u} = {i, j} \<union> ({l..u} - {i, j})" using assms by auto
    then have "mset_set {l..u} = mset_set {i, j} + mset_set ({l..u} - {i, j})"
      by (metis Diff_disjoint finite.emptyI finite.insertI finite_Diff finite_atLeastAtMost_int mset_set_Union)
    with False show ?thesis by (simp add: add_mset_commute)
  qed
  have "image_mset (v(i := v j, j := v i)) (mset_set ({l..u} - {i, j})) = image_mset v (mset_set ({l..u} - {i, j}))"
    by (rule image_mset_cong) auto
  with False show ?thesis by (simp add: seg_def s add_mset_commute)
qed simp

definition in_order :: "(TValue \<Rightarrow> TValue \<Rightarrow> bool) \<Rightarrow> (int \<Rightarrow> TValue) \<Rightarrow> int \<Rightarrow> int \<Rightarrow> bool" where
  "in_order lt v l u \<longleftrightarrow> (\<forall>k m. l \<le> k \<and> k < m \<and> m \<le> u \<longrightarrow> \<not> lt (v m) (v k))"

text \<open>A rearrangement of a range.\<close>

definition rearranged :: "(int \<Rightarrow> TValue) \<Rightarrow> (int \<Rightarrow> TValue) \<Rightarrow> int \<Rightarrow> int \<Rightarrow> bool" where
  "rearranged v v' l u \<longleftrightarrow> seg v' l u = seg v l u \<and> (\<forall>k. k < l \<or> u < k \<longrightarrow> v' k = v k)"

lemma rearranged_refl: "rearranged v v l u"
  by (simp add: rearranged_def)

lemma rearranged_trans: "rearranged v v' l u \<Longrightarrow> rearranged v' v'' l u \<Longrightarrow> rearranged v v'' l u"
  by (simp add: rearranged_def)

lemma rearranged_swap:
  "l \<le> i \<Longrightarrow> i \<le> u \<Longrightarrow> l \<le> j \<Longrightarrow> j \<le> u \<Longrightarrow> rearranged v (v(i := v j, j := v i)) l u"
  by (auto simp: rearranged_def seg_swap)

lemma rearranged_set: "rearranged v v' l u \<Longrightarrow> (\<forall>k. l \<le> k \<and> k \<le> u \<longrightarrow> v k \<in> D) \<Longrightarrow> l \<le> k \<Longrightarrow> k \<le> u \<Longrightarrow> v' k \<in> D"
  unfolding rearranged_def using in_seg [of "v' k" v' l u] in_seg [of "v' k" v l u] by auto

lemma rearranged_sub:
  assumes "rearranged v v' l' u'" "l \<le> l'" "u' \<le> u"
  shows "rearranged v v' l u"
proof (cases "l' \<le> u'")
  case False
  then have "v' = v" using assms(1) by (auto simp: rearranged_def fun_eq_iff)
  then show ?thesis by (simp add: rearranged_refl)
next
  case True
  have split: "{l..u} = ({l..l' - 1} \<union> {l'..u'}) \<union> {u' + 1..u}" using assms(2,3) True by auto
  have "seg w l u = seg w l (l' - 1) + seg w l' u' + seg w (u' + 1) u" for w :: "int \<Rightarrow> TValue"
  proof -
    have "mset_set {l..u} = mset_set ({l..l' - 1} \<union> {l'..u'}) + mset_set {u' + 1..u}"
      unfolding split by (rule mset_set_Union) (use True in auto)
    also have "mset_set ({l..l' - 1} \<union> {l'..u'}) = mset_set {l..l' - 1} + mset_set {l'..u'}"
      by (rule mset_set_Union) auto
    finally show ?thesis by (simp add: seg_def)
  qed
  moreover have "seg v' l (l' - 1) = seg v l (l' - 1)" "seg v' (u' + 1) u = seg v (u' + 1) u"
    using assms(1) by (auto simp: rearranged_def intro!: seg_cong)
  ultimately show ?thesis using assms by (auto simp: rearranged_def)
qed

section \<open>Correctness of the sort\<close>

text \<open>A comparison that computes a strict weak order on a set of values.\<close>

locale order_function =
  fixes cmp :: comparison and lt :: "TValue \<Rightarrow> TValue \<Rightarrow> bool" and D :: "TValue set"
  assumes cmp: "x \<in> D \<Longrightarrow> y \<in> D \<Longrightarrow> cmp x y = Inr (lt x y)"
    and asym: "x \<in> D \<Longrightarrow> y \<in> D \<Longrightarrow> lt x y \<Longrightarrow> \<not> lt y x"
    and negtrans: "x \<in> D \<Longrightarrow> y \<in> D \<Longrightarrow> z \<in> D \<Longrightarrow> \<not> lt x y \<Longrightarrow> \<not> lt y z \<Longrightarrow> \<not> lt x z"
    and no_nil: "VNil \<notin> D"

locale sortable = int_array geti seti good val + order_function cmp lt D
  for geti :: "'t getter" and seti :: "'t setter" and good :: "'t \<Rightarrow> bool" and val :: "'t \<Rightarrow> int \<Rightarrow> TValue"
    and cmp :: comparison and lt :: "TValue \<Rightarrow> TValue \<Rightarrow> bool" and D :: "TValue set"
begin

lemma set2_val:
  assumes "good t" "is_int i" "is_int j" "val t i \<noteq> VNil" "val t j \<noteq> VNil" "x \<noteq> VNil"
  shows "\<exists>t'. set2 seti i j x y t = Inr t' \<and> good t' \<and> val t' = (val t)(i := x, j := y)"
proof -
  obtain t1 where t1: "seti t i x = Inr t1" "good t1" "val t1 = (val t)(i := x)"
    using set_present [OF assms(1,2,4)] by blast
  have "val t1 j \<noteq> VNil" using assms(5,6) t1(3) by simp
  from set_present [OF t1(2) assms(3) this, of y] t1 show ?thesis by (auto simp: set2_def)
qed

text \<open>The two inner loops stop at the first element that is not below (above) the pivot.\<close>

lemma scan_up_val:
  assumes "good t" "P \<in> D" "i < k" "k \<le> u" "\<not> lt (val t k) P"
    and "\<And>m. i < m \<Longrightarrow> m \<le> u \<Longrightarrow> is_int m \<and> val t m \<in> D"
  shows "\<exists>i'. scan_up geti cmp t P u i = Inr (i', val t i') \<and> i < i' \<and> i' \<le> k \<and> \<not> lt (val t i') P \<and>
    (\<forall>m. i < m \<and> m < i' \<longrightarrow> lt (val t m) P)"
  using assms
proof (induction "nat (k - i)" arbitrary: i rule: less_induct)
  case less
  have i1: "is_int (i + 1)" "val t (i + 1) \<in> D" using less.prems(3,4,6) by auto
  have e: "scan_up geti cmp t P u i =
    (if lt (val t (i + 1)) P then (if u < i + 1 then Inl invalid_order else scan_up geti cmp t P u (i + 1))
     else Inr (i + 1, val t (i + 1)))"
    by (subst scan_up.simps) (simp add: get [OF less.prems(1) i1(1)] cmp [OF i1(2) less.prems(2)])
  show ?case
  proof (cases "lt (val t (i + 1)) P")
    case False
    with e less.prems(3) show ?thesis by (intro exI [of _ "i + 1"]) auto
  next
    case True
    then have "i + 1 < k" using less.prems(3,5) by (cases "i + 1 = k") auto
    then obtain i' where "scan_up geti cmp t P u (i + 1) = Inr (i', val t i')" "i + 1 < i'" "i' \<le> k"
      "\<not> lt (val t i') P" "\<forall>m. i + 1 < m \<and> m < i' \<longrightarrow> lt (val t m) P"
      using less.hyps [of "i + 1"] less.prems by auto
    moreover have "lt (val t m) P" if "i < m" "m < i'" for m
      using that True calculation(5) by (cases "m = i + 1") auto
    ultimately show ?thesis using e True less.prems(3,4) by auto
  qed
qed

lemma scan_down_val:
  assumes "good t" "P \<in> D" "k < j" "l \<le> k" "\<not> lt P (val t k)"
    and "\<And>m. m < j \<Longrightarrow> l \<le> m \<Longrightarrow> is_int m \<and> val t m \<in> D"
  shows "\<exists>j'. scan_down geti cmp t P l j = Inr (j', val t j') \<and> j' < j \<and> k \<le> j' \<and> \<not> lt P (val t j') \<and>
    (\<forall>m. j' < m \<and> m < j \<longrightarrow> lt P (val t m))"
  using assms
proof (induction "nat (j - k)" arbitrary: j rule: less_induct)
  case less
  have j1: "is_int (j - 1)" "val t (j - 1) \<in> D" using less.prems(3,4,6) by auto
  have e: "scan_down geti cmp t P l j =
    (if lt P (val t (j - 1)) then (if j - 1 < l then Inl invalid_order else scan_down geti cmp t P l (j - 1))
     else Inr (j - 1, val t (j - 1)))"
    by (subst scan_down.simps) (simp add: get [OF less.prems(1) j1(1)] cmp [OF less.prems(2) j1(2)])
  show ?case
  proof (cases "lt P (val t (j - 1))")
    case False
    with e less.prems(3) show ?thesis by (intro exI [of _ "j - 1"]) auto
  next
    case True
    then have "k < j - 1" using less.prems(3,5) by (cases "j - 1 = k") auto
    then obtain j' where "scan_down geti cmp t P l (j - 1) = Inr (j', val t j')" "j' < j - 1" "k \<le> j'"
      "\<not> lt P (val t j')" "\<forall>m. j' < m \<and> m < j - 1 \<longrightarrow> lt P (val t m)"
      using less.hyps [of "j - 1"] less.prems by auto
    moreover have "lt P (val t m)" if "j' < m" "m < j" for m
      using that True calculation(5) by (cases "m = j - 1") auto
    ultimately show ?thesis using e True less.prems(3,4) by auto
  qed
qed

text \<open>What a range of the array is good for.\<close>

definition range_ok :: "(int \<Rightarrow> TValue) \<Rightarrow> int \<Rightarrow> int \<Rightarrow> bool" where
  "range_ok v l u \<longleftrightarrow> (\<forall>m. l \<le> m \<and> m \<le> u \<longrightarrow> is_int m \<and> v m \<in> D)"

lemma range_ok_rearranged: "range_ok v l u \<Longrightarrow> rearranged v v' l u \<Longrightarrow> range_ok v' l u"
  unfolding range_ok_def using rearranged_set [of v v' l u D] by blast

lemma range_ok_at: "range_ok v l u \<Longrightarrow> l \<le> m \<Longrightarrow> m \<le> u \<Longrightarrow> is_int m \<and> v m \<in> D \<and> v m \<noteq> VNil"
  unfolding range_ok_def using no_nil by metis

lemma swap_val:
  assumes "good t" "range_ok (val t) l u" "l \<le> i" "i \<le> u" "l \<le> j" "j \<le> u"
  shows "\<exists>t'. set2 seti i j (val t j) (val t i) t = Inr t' \<and> good t' \<and>
    val t' = (val t)(i := val t j, j := val t i) \<and> rearranged (val t) (val t') l u \<and> range_ok (val t') l u"
  using set2_val [OF assms(1), of i j "val t j" "val t i"] range_ok_at [OF assms(2), of i]
    range_ok_at [OF assms(2), of j] rearranged_swap [OF assms(3-6), of "val t"] assms
    range_ok_rearranged [OF assms(2) rearranged_swap [OF assms(3-6)]]
  by auto

text \<open>Partitioning around the pivot in \<open>u - 1\<close>.\<close>

lemma partition_loop_val:
  assumes "good t" "range_ok (val t) l u" "P \<in> D" "l \<le> i" "i \<le> j" "i \<le> u - 2" "l + 1 \<le> j" "j \<le> u - 1"
    and "val t (u - 1) = P" "\<forall>m. l \<le> m \<and> m \<le> i \<longrightarrow> \<not> lt P (val t m)"
    and "\<forall>m. j \<le> m \<and> m \<le> u \<longrightarrow> \<not> lt (val t m) P"
  shows "\<exists>t' k. partition_loop geti seti cmp P l u t i j = Inr (t', k) \<and> good t' \<and> l < k \<and> k \<le> u - 1 \<and>
    rearranged (val t) (val t') l u \<and> val t' (u - 1) = P \<and>
    (\<forall>m. l \<le> m \<and> m < k \<longrightarrow> \<not> lt P (val t' m)) \<and> (\<forall>m. k \<le> m \<and> m \<le> u \<longrightarrow> \<not> lt (val t' m) P)"
  using assms
proof (induction "nat (j - i)" arbitrary: i j t rule: less_induct)
  case less
  note r = range_ok_at [OF less.prems(2)]
  define k where "k = (if i < j then j else i + 1)"
  define k' where "k' = (if i < j then i else j - 1)"
  have k: "i < k" "k \<le> u" "\<not> lt (val t k) P" using less.prems(4-8,11) by (auto simp: k_def)
  have k': "k' < j" "l \<le> k'" "\<not> lt P (val t k')" using less.prems(4-8,10) by (auto simp: k'_def)
  obtain i' where i': "scan_up geti cmp t P u i = Inr (i', val t i')" "i < i'" "i' \<le> k" "\<not> lt (val t i') P"
    "\<forall>m. i < m \<and> m < i' \<longrightarrow> lt (val t m) P"
    using scan_up_val [OF less.prems(1,3) k] r less.prems(4) by auto
  obtain j' where j': "scan_down geti cmp t P l j = Inr (j', val t j')" "j' < j" "k' \<le> j'" "\<not> lt P (val t j')"
    "\<forall>m. j' < m \<and> m < j \<longrightarrow> lt P (val t m)"
    using scan_down_val [OF less.prems(1,3) k'] r less.prems(8) by auto
  have bounds: "l < i'" "i' \<le> u - 1" "l \<le> j'" "j' \<le> u - 2"
    using i'(2,3) j'(2,3) k'(2) less.prems(4-8) by (auto simp: k_def split: if_splits)
  have sc: "scans geti cmp t P l u i j = Inr (i', val t i', j', val t j')"
    using i'(1) j'(1) by (simp add: scans_def)
  have low: "\<not> lt P (val t m)" if "l \<le> m" "m < i'" for m
    using that less.prems(3,10) i'(5) asym r [of m] bounds(2) by (cases "m \<le> i") auto
  have high: "\<not> lt (val t m) P" if "j' < m" "m \<le> u" for m
    using that less.prems(3,11) j'(5) asym r [of m] bounds(3) by (cases "j \<le> m") auto
  show ?case
  proof (cases "j' < i'")
    case True
    then have "partition_loop geti seti cmp P l u t i j = Inr (t, i')"
      by (subst partition_loop.simps) (simp add: sc)
    moreover have "\<forall>m. i' \<le> m \<and> m \<le> u \<longrightarrow> \<not> lt (val t m) P" using high True by auto
    ultimately show ?thesis using less.prems(1,9) bounds low rearranged_refl by blast
  next
    case False
    from swap_val [OF less.prems(1,2), of i' j'] bounds False obtain t1 where
      t1: "set2 seti i' j' (val t j') (val t i') t = Inr t1" "good t1"
      "val t1 = (val t)(i' := val t j', j' := val t i')" "rearranged (val t) (val t1) l u" "range_ok (val t1) l u"
      by auto
    have step: "partition_loop geti seti cmp P l u t i j = partition_loop geti seti cmp P l u t1 i' j'"
      using False by (subst partition_loop.simps) (simp add: sc t1(1))
    have P1: "val t1 (u - 1) = P" using t1(3) less.prems(9) False bounds by auto
    have low1: "\<forall>m. l \<le> m \<and> m \<le> i' \<longrightarrow> \<not> lt P (val t1 m)"
    proof (intro allI impI)
      fix m assume m: "l \<le> m \<and> m \<le> i'"
      consider "m = i'" "i' \<noteq> j'" | "m = i'" "i' = j'" | "m < i'" using m by linarith
      then show "\<not> lt P (val t1 m)" using m False j'(4) low unfolding t1(3) by cases auto
    qed
    have high1: "\<forall>m. j' \<le> m \<and> m \<le> u \<longrightarrow> \<not> lt (val t1 m) P"
    proof (intro allI impI)
      fix m assume m: "j' \<le> m \<and> m \<le> u"
      consider "m = j'" | "j' < m" using m by linarith
      then show "\<not> lt (val t1 m) P" using m False i'(4) high unfolding t1(3) by cases auto
    qed
    have "nat (j' - i') < nat (j - i)" using i'(2) j'(2) False by simp
    from less.hyps [OF this t1(2,5) less.prems(3) _ _ _ _ _ P1 low1 high1] bounds False
    obtain t' k where "partition_loop geti seti cmp P l u t1 i' j' = Inr (t', k)" "good t'" "l < k" "k \<le> u - 1"
      "rearranged (val t1) (val t') l u" "val t' (u - 1) = P" "\<forall>m. l \<le> m \<and> m < k \<longrightarrow> \<not> lt P (val t' m)"
      "\<forall>m. k \<le> m \<and> m \<le> u \<longrightarrow> \<not> lt (val t' m) P" by auto
    then show ?thesis using step rearranged_trans [OF t1(4)] by auto
  qed
qed

lemma partition_round_val:
  assumes "good t" "range_ok (val t) l u" "l < i" "i < u - 1"
    and "\<not> lt (val t i) (val t l)" "\<not> lt (val t u) (val t i)"
  shows "\<exists>t' k. partition_round geti seti cmp l u i t = Inr (t', k) \<and> good t' \<and> l < k \<and> k < u \<and>
    rearranged (val t) (val t') l u \<and>
    (\<forall>m. l \<le> m \<and> m < k \<longrightarrow> \<not> lt (val t' k) (val t' m)) \<and> (\<forall>m. k < m \<and> m \<le> u \<longrightarrow> \<not> lt (val t' m) (val t' k))"
proof -
  let ?P = "val t i"
  note r = range_ok_at [OF assms(2)]
  have g: "geti t i = Inr ?P" "geti t (u - 1) = Inr (val t (u - 1))"
    using get [OF assms(1)] r [of i] r [of "u - 1"] assms(3,4) by auto
  from swap_val [OF assms(1,2), of i "u - 1"] assms(3,4) obtain t1 where
    t1: "set2 seti i (u - 1) (val t (u - 1)) ?P t = Inr t1" "good t1"
    "val t1 = (val t)(i := val t (u - 1), u - 1 := ?P)" "rearranged (val t) (val t1) l u" "range_ok (val t1) l u"
    by auto
  have P: "?P \<in> D" using r [of i] assms(3,4) by auto
  have irr: "\<not> lt ?P ?P" using asym [OF P P] by blast
  have low: "\<forall>m. l \<le> m \<and> m \<le> l \<longrightarrow> \<not> lt ?P (val t1 m)" using assms(3-5) unfolding t1(3) by auto
  have high: "\<forall>m. u - 1 \<le> m \<and> m \<le> u \<longrightarrow> \<not> lt (val t1 m) ?P"
  proof (intro allI impI)
    fix m assume "u - 1 \<le> m \<and> m \<le> u"
    then have "m = u - 1 \<or> m = u" by linarith
    then show "\<not> lt (val t1 m) ?P" using assms(4,6) irr unfolding t1(3) by auto
  qed
  have "val t1 (u - 1) = ?P" by (simp add: t1(3))
  from partition_loop_val [OF t1(2,5) P _ _ _ _ _ this low high] assms(3,4) obtain t2 k where
    t2: "partition_loop geti seti cmp ?P l u t1 l (u - 1) = Inr (t2, k)" "good t2" "l < k" "k \<le> u - 1"
    "rearranged (val t1) (val t2) l u" "val t2 (u - 1) = ?P" "\<forall>m. l \<le> m \<and> m < k \<longrightarrow> \<not> lt ?P (val t2 m)"
    "\<forall>m. k \<le> m \<and> m \<le> u \<longrightarrow> \<not> lt (val t2 m) ?P" by auto
  have r2: "range_ok (val t2) l u" by (rule range_ok_rearranged [OF t1(5) t2(5)])
  have g2: "geti t2 (u - 1) = Inr ?P" "geti t2 k = Inr (val t2 k)"
    using get [OF t2(2)] range_ok_at [OF r2, of "u - 1"] range_ok_at [OF r2, of k] t2(3,4,6) by auto
  from swap_val [OF t2(2) r2, of "u - 1" k] t2(3,4,6) obtain t3 where
    t3: "set2 seti (u - 1) k (val t2 k) ?P t2 = Inr t3" "good t3"
    "val t3 = (val t2)(u - 1 := val t2 k, k := ?P)" "rearranged (val t2) (val t3) l u" by auto
  have "partition_round geti seti cmp l u i t = Inr (t3, k)"
    by (simp add: partition_round_def g t1(1) t2(1) g2 t3(1))
  moreover have "val t3 k = ?P" by (simp add: t3(3))
  moreover have "\<not> lt ?P (val t3 m)" if "l \<le> m" "m < k" for m
    using that t2(4,7) unfolding t3(3) by auto
  moreover have "\<not> lt (val t3 m) ?P" if "k < m" "m \<le> u" for m
    using that t2(8) unfolding t3(3) by (cases "m = u - 1") (use t2(4) in auto)
  moreover have "rearranged (val t) (val t3) l u"
    by (rule rearranged_trans [OF t1(4) rearranged_trans [OF t2(5) t3(4)]])
  ultimately show ?thesis using t2(3,4) t3(2) by auto
qed

lemma median3_val:
  assumes "good t" "range_ok (val t) l u" "l < u" "is_int (l + u)"
  shows "\<exists>t' m. median3 geti seti cmp l u t = Inr (t', m) \<and> good t' \<and> rearranged (val t) (val t') l u \<and>
    (case m of None \<Rightarrow> in_order lt (val t') l u
     | Some i \<Rightarrow> l < i \<and> i < u - 1 \<and> \<not> lt (val t' i) (val t' l) \<and> \<not> lt (val t' u) (val t' i))"
proof -
  note r = range_ok_at [OF assms(2)]
  let ?al = "val t l" and ?au = "val t u"
  have D: "?al \<in> D" "?au \<in> D" "is_int l" "is_int u" using r [of l] r [of u] assms(3) by auto
  have g: "geti t l = Inr ?al" "geti t u = Inr ?au" using get [OF assms(1)] D by auto
  have "\<exists>t1. swap_if seti (lt ?au ?al) l u ?au ?al t = Inr t1 \<and> good t1 \<and> rearranged (val t) (val t1) l u \<and>
    \<not> lt (val t1 u) (val t1 l)"
  proof (cases "lt ?au ?al")
    case True
    with swap_val [OF assms(1,2), of l u] assms(3) asym [OF D(2,1)] show ?thesis
      by (auto simp: swap_if_def)
  qed (use assms(1) rearranged_refl in \<open>simp add: swap_if_def\<close>)
  then obtain t1 where t1: "swap_if seti (lt ?au ?al) l u ?au ?al t = Inr t1" "good t1"
    "rearranged (val t) (val t1) l u" "\<not> lt (val t1 u) (val t1 l)" by blast
  have ok1: "range_ok (val t1) l u" by (rule range_ok_rearranged [OF assms(2) t1(3)])
  show ?thesis
  proof (cases "u - l = 1")
    case True
    then have "median3 geti seti cmp l u t = Inr (t1, None)"
      by (simp add: median3_def g cmp [OF D(2,1)] t1(1))
    moreover have "k = l \<and> m = u" if "l \<le> k" "k < m" "m \<le> u" for k m using that True by linarith
    then have "in_order lt (val t1) l u" using t1(4) by (auto simp: in_order_def)
    ultimately show ?thesis using t1 by (intro exI [of _ t1] exI [of _ None]) simp
  next
    case False
    define i where "i = (l + u) div 2"
    have i: "l < i" "i < u" "u - l \<noteq> 2 \<Longrightarrow> i < u - 1" using False assms(3) by (auto simp: i_def)
    note r1 = range_ok_at [OF ok1]
    let ?l = "val t1 l" and ?i = "val t1 i" and ?u = "val t1 u"
    have D1: "?l \<in> D" "?i \<in> D" "?u \<in> D" using r1 [of l] r1 [of i] r1 [of u] i by auto
    have g1: "geti t1 l = Inr ?l" "geti t1 i = Inr ?i" "geti t1 u = Inr ?u"
      using get [OF t1(2)] r1 [of l] r1 [of i] r1 [of u] i by auto
    have "\<exists>t2. (if lt ?i ?l then set2 seti i l ?l ?i t1 else swap_if seti (lt ?u ?i) i u ?u ?i t1) = Inr t2 \<and>
      good t2 \<and> rearranged (val t1) (val t2) l u \<and> \<not> lt (val t2 i) (val t2 l) \<and> \<not> lt (val t2 u) (val t2 i)"
    proof -
      consider "lt ?i ?l" | "\<not> lt ?i ?l" "lt ?u ?i" | "\<not> lt ?i ?l" "\<not> lt ?u ?i" by blast
      then show ?thesis
      proof cases
        case 1
        with swap_val [OF t1(2) ok1, of i l] i asym [OF D1(2,1)] t1(4) show ?thesis by auto
      next
        case 2
        with swap_val [OF t1(2) ok1, of i u] i asym [OF D1(3,2)] t1(4) show ?thesis by (auto simp: swap_if_def)
      qed (use t1(2) rearranged_refl in \<open>simp add: swap_if_def\<close>)
    qed
    then obtain t2 where t2: "(if lt ?i ?l then set2 seti i l ?l ?i t1 else swap_if seti (lt ?u ?i) i u ?u ?i t1) = Inr t2"
      "good t2" "rearranged (val t1) (val t2) l u" "\<not> lt (val t2 i) (val t2 l)" "\<not> lt (val t2 u) (val t2 i)"
      by blast
    have e: "median3 geti seti cmp l u t = Inr (t2, if u - l = 2 then None else Some i)"
      using False t2(1) assms(4)
      by (simp add: median3_def g cmp [OF D(2,1)] t1(1) Let_def g1 cmp [OF D1(2,1)] cmp [OF D1(3,2)]
          flip: i_def split: if_splits)
    have "in_order lt (val t2) l u" if "u - l = 2"
    proof -
      have ok2: "range_ok (val t2) l u" by (rule range_ok_rearranged [OF ok1 t2(3)])
      have "val t2 l \<in> D" "val t2 i \<in> D" "val t2 u \<in> D"
        using range_ok_at [OF ok2, of l] range_ok_at [OF ok2, of i] range_ok_at [OF ok2, of u] i by auto
      then have "\<not> lt (val t2 u) (val t2 l)" using negtrans t2(4,5) by blast
      moreover have "k = l \<and> (m = i \<or> m = u) \<or> k = i \<and> m = u" if "l \<le> k" "k < m" "m \<le> u" for k m
        using that \<open>u - l = 2\<close> by (auto simp: i_def)
      ultimately show ?thesis using t2(4,5) by (force simp: in_order_def)
    qed
    then show ?thesis using e t2 rearranged_trans [OF t1(3) t2(3)] i
      by (intro exI [of _ t2] exI [of _ "if u - l = 2 then None else Some i"]) auto
  qed
qed

text \<open>Two sorted parts around a pivot are sorted.\<close>

lemma in_order_join:
  assumes ok: "range_ok v l u" and k: "l < k" "k < u"
    and low: "\<forall>m. l \<le> m \<and> m < k \<longrightarrow> \<not> lt (v k) (v m)" and high: "\<forall>m. k < m \<and> m \<le> u \<longrightarrow> \<not> lt (v m) (v k)"
    and s1: "seg w l (k - 1) = seg v l (k - 1)" "in_order lt w l (k - 1)"
    and s2: "seg w (k + 1) u = seg v (k + 1) u" "in_order lt w (k + 1) u" and wk: "w k = v k"
  shows "in_order lt w l u"
  unfolding in_order_def
proof (intro allI impI)
  fix a b assume ab: "l \<le> a \<and> a < b \<and> b \<le> u"
  note r = range_ok_at [OF ok]
  have vk: "v k \<in> D" "\<not> lt (v k) (v k)" using r [of k] k asym [of "v k" "v k"] by auto
  have L: "w m \<in> D \<and> \<not> lt (v k) (w m)" if "l \<le> m" "m < k" for m
  proof -
    have "w m \<in># seg v l (k - 1)" using that s1(1) in_segI [of l m "k - 1" w] by simp
    then obtain n where "l \<le> n" "n \<le> k - 1" "w m = v n" by (auto simp: in_seg)
    then show ?thesis using low r [of n] k by auto
  qed
  have H: "w m \<in> D \<and> \<not> lt (w m) (v k)" if "k < m" "m \<le> u" for m
  proof -
    have "w m \<in># seg v (k + 1) u" using that s2(1) in_segI [of "k + 1" m u w] by simp
    then obtain n where "k + 1 \<le> n" "n \<le> u" "w m = v n" by (auto simp: in_seg)
    then show ?thesis using high r [of n] k by auto
  qed
  consider "b < k" | "k < a" | "a < k" "b = k" | "a = k" "k < b" | "a < k" "k < b" using ab by linarith
  then show "\<not> lt (w b) (w a)"
  proof cases
    case 1 then show ?thesis using s1(2) ab by (auto simp: in_order_def)
  next
    case 2 then show ?thesis using s2(2) ab by (auto simp: in_order_def)
  next
    case 3 then show ?thesis using L [of a] ab wk by simp
  next
    case 4 then show ?thesis using H [of b] ab wk by simp
  next
    case 5 then show ?thesis using L [of a] H [of b] ab negtrans [of "w b" "v k" "w a"] vk by auto
  qed
qed

text \<open>Sorting both parts, in either order.\<close>

lemma in_order_parts:
  assumes ok: "range_ok v l u" and k: "l < k" "k < u"
    and low: "\<forall>m. l \<le> m \<and> m < k \<longrightarrow> \<not> lt (v k) (v m)" and high: "\<forall>m. k < m \<and> m \<le> u \<longrightarrow> \<not> lt (v m) (v k)"
    and parts: "a = l \<and> b = k - 1 \<and> a' = k + 1 \<and> b' = u \<or> a = k + 1 \<and> b = u \<and> a' = l \<and> b' = k - 1"
    and r1: "rearranged v v1 a b" "in_order lt v1 a b" and r2: "rearranged v1 v2 a' b'" "in_order lt v2 a' b'"
  shows "rearranged v v2 l u \<and> in_order lt v2 l u"
proof -
  have out: "v2 m = v1 m" if "m < a' \<or> b' < m" for m using r2(1) that by (auto simp: rearranged_def)
  have out1: "v1 m = v m" if "m < a \<or> b < m" for m using r1(1) that by (auto simp: rearranged_def)
  have same: "v2 m = v1 m" if "a \<le> m" "m \<le> b" for m using out [of m] that parts k by auto
  have "seg v2 a b = seg v1 a b" by (rule seg_cong) (use same in auto)
  then have first: "seg v2 a b = seg v a b" "in_order lt v2 a b"
    using r1 same by (auto simp: rearranged_def in_order_def)
  have "seg v1 a' b' = seg v a' b'" by (rule seg_cong, rule out1) (use parts k in auto)
  then have second: "seg v2 a' b' = seg v a' b'" using r2(1) by (simp add: rearranged_def)
  have "v2 k = v k" using out [of k] out1 [of k] parts by auto
  then have "in_order lt v2 l u"
    using parts first second r2(2) by (intro in_order_join [OF ok k low high]) auto
  moreover have "rearranged v v1 l u" "rearranged v1 v2 l u"
    using rearranged_sub [OF r1(1), of l u] rearranged_sub [OF r2(1), of l u] parts k by auto
  ultimately show ?thesis using rearranged_trans by blast
qed

lemma auxsort_val:
  assumes "good t" "range_ok (val t) l u" "l \<le> u + 1" "nat (u + 1 - l) < n" "is_int (u + u)" "0 \<le> l"
  shows "\<exists>t'. auxsort n geti seti cmp l u t = Inr t' \<and> good t' \<and> rearranged (val t) (val t') l u \<and>
    in_order lt (val t') l u"
  using assms
proof (induction n arbitrary: l u t)
  case (Suc n)
  show ?case
  proof (cases "l < u")
    case False
    then have "auxsort (Suc n) geti seti cmp l u t = Inr t" "in_order lt (val t) l u"
      by (auto simp: in_order_def)
    with Suc.prems(1) rearranged_refl show ?thesis by blast
  next
    case True
    have "is_int (l + u)" using Suc.prems(5,6) True by (auto simp: is_int_def INT_MIN_def)
    from median3_val [OF Suc.prems(1,2) True this] obtain t1 m where
      t1: "median3 geti seti cmp l u t = Inr (t1, m)" "good t1" "rearranged (val t) (val t1) l u"
      "case m of None \<Rightarrow> in_order lt (val t1) l u
       | Some i \<Rightarrow> l < i \<and> i < u - 1 \<and> \<not> lt (val t1 i) (val t1 l) \<and> \<not> lt (val t1 u) (val t1 i)" by blast
    have ok1: "range_ok (val t1) l u" by (rule range_ok_rearranged [OF Suc.prems(2) t1(3)])
    show ?thesis
    proof (cases m)
      case None
      with t1 True show ?thesis by simp
    next
      case (Some i)
      from partition_round_val [OF t1(2) ok1, of i] t1(4) Some obtain t2 k where
        t2: "partition_round geti seti cmp l u i t1 = Inr (t2, k)" "good t2" "l < k" "k < u"
        "rearranged (val t1) (val t2) l u" "\<forall>m. l \<le> m \<and> m < k \<longrightarrow> \<not> lt (val t2 k) (val t2 m)"
        "\<forall>m. k < m \<and> m \<le> u \<longrightarrow> \<not> lt (val t2 m) (val t2 k)" by auto
      have ok2: "range_ok (val t2) l u" by (rule range_ok_rearranged [OF ok1 t2(5)])
      have part: "\<exists>t'. auxsort n geti seti cmp a b s = Inr t' \<and> good t' \<and> rearranged (val s) (val t') a b \<and>
          in_order lt (val t') a b"
        if "good s" "range_ok (val s) l u" "a = l \<and> b = k - 1 \<or> a = k + 1 \<and> b = u" for s a b
        using that t2(3,4) Suc.prems(4-6)
        by (intro Suc.IH) (auto simp: range_ok_def is_int_def INT_MIN_def)
      define a b a' b' where "a = (if k - l < u - k then l else k + 1)" "b = (if k - l < u - k then k - 1 else u)"
        "a' = (if k - l < u - k then k + 1 else l)" "b' = (if k - l < u - k then u else k - 1)"
      note ab = this
      have parts: "a = l \<and> b = k - 1 \<and> a' = k + 1 \<and> b' = u \<or> a = k + 1 \<and> b = u \<and> a' = l \<and> b' = k - 1"
        by (simp add: ab)
      then have p: "a = l \<and> b = k - 1 \<or> a = k + 1 \<and> b = u" "a' = l \<and> b' = k - 1 \<or> a' = k + 1 \<and> b' = u"
        and le: "l \<le> a" "b \<le> u" using t2(3,4) by auto
      from part [OF t2(2) ok2 p(1)] obtain t3 where
        t3: "auxsort n geti seti cmp a b t2 = Inr t3" "good t3" "rearranged (val t2) (val t3) a b"
        "in_order lt (val t3) a b" by blast
      have ok3: "range_ok (val t3) l u" by (rule range_ok_rearranged [OF ok2 rearranged_sub [OF t3(3) le]])
      from part [OF t3(2) ok3 p(2)] obtain t4 where
        t4: "auxsort n geti seti cmp a' b' t3 = Inr t4" "good t4" "rearranged (val t3) (val t4) a' b'"
        "in_order lt (val t4) a' b'" by blast
      have "auxsort (Suc n) geti seti cmp l u t = Inr t4"
        using True t1(1) Some t2(1) t3(1) t4(1) by (simp add: ab split: if_splits)
      moreover have "rearranged (val t2) (val t4) l u \<and> in_order lt (val t4) l u"
        by (rule in_order_parts [OF ok2 t2(3,4,6,7) parts t3(3,4) t4(3,4)])
      ultimately show ?thesis
        using t4(2) rearranged_trans [OF t1(3) rearranged_trans [OF t2(5)]] by blast
    qed
  qed
qed simp

end

section \<open>Tables as arrays\<close>

definition ival :: "Table \<Rightarrow> int \<Rightarrow> TValue" where
  "ival t k = (if is_int k then tval t (VNumber (cast_num k)) else VNil)"

lemma rawgeti_ival:
  assumes "tinv t" "is_int i"
  shows "rawgeti t i = Inr (ival t i)"
proof -
  have inv: "tinv0 t" using assms(1) by (simp add: tinv_def)
  from luaH_getnum_slot [OF inv assms(2)] obtain s where
    "luaH_getnum t i = Inr s" "slot_for t (VNumber (cast_num i)) s" by blast
  with slot_for_val [OF inv] assms(2) show ?thesis by (simp add: rawgeti_def getnum_val_def ival_def)
qed

lemma rawseti_ival:
  assumes "tinv t" "is_int i"
  shows "rawseti t i v = Inl table_overflow \<and> ival t i = VNil \<or>
    (\<exists>t'. rawseti t i v = Inr t' \<and> tinv t' \<and> ival t' = (ival t)(i := v))"
  using luaH_setnum_write [OF assms, of v]
proof
  assume "\<exists>t'. write_to (luaH_setnum t i) v = Inr t' \<and> updated t (VNumber (cast_num i)) v t'"
  then obtain t' where t': "rawseti t i v = Inr t'" "updated t (VNumber (cast_num i)) v t'"
    by (auto simp: rawseti_def)
  have "ival t' k = ((ival t)(i := v)) k" for k
    using t'(2) assms(2) by (auto simp: ival_def updated_def)
  with t' show ?thesis by (auto simp: updated_def)
qed (use assms(2) in \<open>simp add: rawseti_def ival_def\<close>)

interpretation tab: int_array rawgeti rawseti tinv ival
  by unfold_locales (auto dest: rawgeti_ival rawseti_ival)

section \<open>The operations on the sequence of a table\<close>

definition elems :: "Table \<Rightarrow> nat \<Rightarrow> TValue list" where
  "elems t n = map (ival t) [1..int n]"

lemma elems_nth: "i < n \<Longrightarrow> elems t n ! i = ival t (int i + 1)"
  by (simp add: elems_def add.commute)

lemma length_elems [simp]: "length (elems t n) = n"
  by (simp add: elems_def)

lemma tinsert_elems:
  assumes inv: "tinv t" and n: "luaH_getn t = Inr n" "int n < INT_MAX" and pos: "1 \<le> pos" "pos \<le> int n + 1"
  shows "tinsert 3 t pos v = Inl table_overflow \<or>
    (\<exists>t'. tinsert 3 t pos v = Inr t' \<and> tinv t' \<and>
      elems t' (Suc n) = take (nat pos - 1) (elems t n) @ v # drop (nat pos - 1) (elems t n) \<and>
      (\<forall>k. k < 1 \<or> int n + 1 < k \<longrightarrow> ival t' k = ival t k))"
proof -
  have i: "is_int pos" "is_int (int n + 1)" using n(2) pos by (auto simp: is_int_def INT_MIN_def)
  have e: "tinsert 3 t pos v = ebind (move_up rawgeti rawseti (int n + 1) pos t) (\<lambda>t. rawseti t pos v)"
    using n(1) pos by (simp add: tinsert_def)
  from tab.move_up_val [OF inv i pos(2)] show ?thesis
  proof
    assume "\<exists>t'. move_up rawgeti rawseti (int n + 1) pos t = Inr t' \<and> tinv t' \<and>
      ival t' = (\<lambda>k. if pos < k \<and> k \<le> int n + 1 then ival t (k - 1) else ival t k)"
    then obtain t1 where t1: "move_up rawgeti rawseti (int n + 1) pos t = Inr t1" "tinv t1"
      "ival t1 = (\<lambda>k. if pos < k \<and> k \<le> int n + 1 then ival t (k - 1) else ival t k)" by blast
    from rawseti_ival [OF t1(2) i(1), of v] show ?thesis
    proof
      assume "\<exists>t'. rawseti t1 pos v = Inr t' \<and> tinv t' \<and> ival t' = (ival t1)(pos := v)"
      then obtain t' where t': "rawseti t1 pos v = Inr t'" "tinv t'" "ival t' = (ival t1)(pos := v)" by blast
      have "elems t' (Suc n) = take (nat pos - 1) (elems t n) @ v # drop (nat pos - 1) (elems t n)"
      proof (rule nth_equalityI)
        show "length (elems t' (Suc n)) = length (take (nat pos - 1) (elems t n) @ v # drop (nat pos - 1) (elems t n))"
          using pos by simp
        fix m assume m: "m < length (elems t' (Suc n))"
        consider "int m + 1 < pos" | "int m + 1 = pos" | "pos < int m + 1" by linarith
        then show "elems t' (Suc n) ! m = (take (nat pos - 1) (elems t n) @ v # drop (nat pos - 1) (elems t n)) ! m"
        proof cases
          case 3
          let ?p = "nat pos - 1"
          have "length (take ?p (elems t n)) = ?p" "\<not> m < ?p" "m - ?p = Suc (m - Suc ?p)" "?p + (m - Suc ?p) = m - 1"
            "m - 1 < n" using 3 m pos by auto
          then have "(take ?p (elems t n) @ v # drop ?p (elems t n)) ! m = ival t (int (m - 1) + 1)"
            by (simp add: nth_append elems_nth)
          moreover have "int (m - 1) + 1 = int m" using 3 pos by simp
          moreover have "elems t' (Suc n) ! m = ival t (int m)" using 3 m by (simp add: elems_nth t'(3) t1(3))
          ultimately show ?thesis by simp
        qed (use m pos in \<open>auto simp: nth_append elems_nth t'(3) t1(3) min_def\<close>)
      qed
      with e t1 t' pos show ?thesis by auto
    qed (use e t1 in simp)
  qed (use e in simp)
qed

lemma tremove_elems:
  assumes inv: "tinv t" and n: "luaH_getn t = Inr n" "int n \<le> INT_MAX" and pos: "1 \<le> pos" "pos \<le> int n"
  shows "tremove t (Some pos) = Inl table_overflow \<or>
    (\<exists>t'. tremove t (Some pos) = Inr (t', Some (elems t n ! (nat pos - 1))) \<and> tinv t' \<and>
      elems t' (n - 1) = take (nat pos - 1) (elems t n) @ drop (nat pos) (elems t n) \<and> ival t' (int n) = VNil \<and>
      (\<forall>k. k < 1 \<or> int n < k \<longrightarrow> ival t' k = ival t k))"
proof -
  have i: "is_int pos" "is_int (int n)" using n(2) pos by (auto simp: is_int_def INT_MIN_def)
  have e: "tremove t (Some pos) =
    ebind (move_down rawgeti rawseti pos (int n) t) (\<lambda>t. ebind (rawseti t (int n) VNil) (\<lambda>t. Inr (t, Some (ival t0 pos))))"
    if "t0 = t" for t0
    using n(1) pos that by (simp add: tremove_def rawgeti_ival [OF inv i(1)] Let_def)
  from tab.move_down_val [OF inv i pos(2)] show ?thesis
  proof
    assume "\<exists>t'. move_down rawgeti rawseti pos (int n) t = Inr t' \<and> tinv t' \<and>
      ival t' = (\<lambda>k. if pos \<le> k \<and> k < int n then ival t (k + 1) else ival t k)"
    then obtain t1 where t1: "move_down rawgeti rawseti pos (int n) t = Inr t1" "tinv t1"
      "ival t1 = (\<lambda>k. if pos \<le> k \<and> k < int n then ival t (k + 1) else ival t k)" by blast
    from rawseti_ival [OF t1(2) i(2), of VNil] show ?thesis
    proof
      assume "\<exists>t'. rawseti t1 (int n) VNil = Inr t' \<and> tinv t' \<and> ival t' = (ival t1)(int n := VNil)"
      then obtain t' where t': "rawseti t1 (int n) VNil = Inr t'" "tinv t'" "ival t' = (ival t1)(int n := VNil)"
        by blast
      have "elems t' (n - 1) = take (nat pos - 1) (elems t n) @ drop (nat pos) (elems t n)"
      proof (rule nth_equalityI)
        show "length (elems t' (n - 1)) = length (take (nat pos - 1) (elems t n) @ drop (nat pos) (elems t n))"
          using pos by auto
        fix m assume m: "m < length (elems t' (n - 1))"
        show "elems t' (n - 1) ! m = (take (nat pos - 1) (elems t n) @ drop (nat pos) (elems t n)) ! m"
        proof (cases "int m + 1 < pos")
          case False
          let ?p = "nat pos - 1"
          have "length (take ?p (elems t n)) = ?p" "\<not> m < ?p" "nat pos + (m - ?p) = m + 1" "m + 1 < n"
            using False m pos by auto
          then have "(take ?p (elems t n) @ drop (nat pos) (elems t n)) ! m = ival t (int (m + 1) + 1)"
            by (simp add: nth_append elems_nth)
          moreover have "elems t' (n - 1) ! m = ival t (int (m + 1) + 1)"
            using False m pos \<open>m + 1 < n\<close> by (simp add: elems_nth t'(3) t1(3) add.commute)
          ultimately show ?thesis by simp
        qed (use m pos in \<open>auto simp: nth_append elems_nth t'(3) t1(3) min_def\<close>)
      qed
      moreover have "elems t n ! (nat pos - 1) = ival t pos" using pos by (simp add: elems_nth of_nat_diff)
      ultimately show ?thesis using e [OF refl] t1 t' pos by auto
    qed (use e [OF refl] t1 in simp)
  qed (use e [OF refl] in simp)
qed

section \<open>The default order\<close>

definition num_set :: "TValue set" where
  "num_set = {VNumber n | n. \<not> luai_numisnan n}"

definition str_set :: "TValue set" where
  "str_set = {VGC (GStr s) | s. True}"

definition default_lt :: "TValue \<Rightarrow> TValue \<Rightarrow> bool" where
  "default_lt a b = (case (a, b) of
     (VNumber x, VNumber y) \<Rightarrow> luai_numlt x y
   | (VGC (GStr x), VGC (GStr y)) \<Rightarrow> lex_less x y
   | _ \<Rightarrow> False)"

interpretation num_order: order_function "sort_default H S" default_lt num_set for H S
  by unfold_locales (auto simp: sort_default_def luaV_lessthan_def default_lt_def num_set_def luai_numlt_def)

interpretation num_sort: sortable rawgeti rawseti tinv ival "sort_default H S" default_lt num_set for H S
  by unfold_locales

lemma lex_less_asym: "lex_less a b \<Longrightarrow> \<not> lex_less b a"
  by (induction a b rule: lex_less.induct) auto

lemma lex_less_total: "\<not> lex_less a b \<Longrightarrow> \<not> lex_less b a \<Longrightarrow> a = b"
proof (induction a b rule: lex_less.induct)
  case (1 a) then show ?case by (cases a) auto
qed auto

lemma lex_less_trans: "lex_less a b \<Longrightarrow> lex_less b c \<Longrightarrow> lex_less a c"
proof (induction a b arbitrary: c rule: lex_less.induct)
  case (2 y ys) then show ?case by (cases c) auto
next
  case (3 x xs y ys) then show ?case by (cases c) auto
qed auto

lemma str_order: "c_collation H \<Longrightarrow> order_function (sort_default H S) default_lt str_set"
proof
  assume H: "c_collation H"
  show "sort_default H S x y = Inr (default_lt x y)" if "x \<in> str_set" "y \<in> str_set" for x y
    using that l_strcmp_lex [OF H] by (auto simp: sort_default_def luaV_lessthan_def default_lt_def str_set_def)
qed (auto simp: str_set_def default_lt_def dest: lex_less_asym, metis lex_less_total lex_less_trans)

text \<open>\<open>table.sort\<close> with any order function.\<close>

lemma table_sort_val:
  assumes "order_function cmp lt D" "tinv t" "luaH_getn t = Inr n" "n < fuel" "2 * int n \<le> INT_MAX"
    and "\<forall>k. 1 \<le> k \<and> k \<le> int n \<longrightarrow> ival t k \<in> D"
  shows "\<exists>t'. table_sort fuel cmp t = Inr t' \<and> tinv t' \<and> mset (elems t' n) = mset (elems t n) \<and>
    sorted_wrt (\<lambda>x y. \<not> lt y x) (elems t' n) \<and> (\<forall>k. k < 1 \<or> int n < k \<longrightarrow> ival t' k = ival t k)"
proof -
  have s: "sortable rawgeti rawseti tinv ival cmp lt D"
    using assms(1) tab.int_array_axioms by (simp add: sortable_def)
  have ok: "sortable.range_ok D (ival t) 1 (int n)"
    using assms(5,6) by (auto simp: sortable.range_ok_def [OF s] is_int_def INT_MIN_def)
  obtain t' where t': "auxsort fuel rawgeti rawseti cmp 1 (int n) t = Inr t'" "tinv t'"
    "rearranged (ival t) (ival t') 1 (int n)" "in_order lt (ival t') 1 (int n)"
    using sortable.auxsort_val [OF s assms(2) ok, of fuel] assms(4,5)
    by (auto simp: is_int_def INT_MIN_def)
  have m: "mset (elems t n) = seg (ival t) 1 (int n)" for t
    using mset_set_set [OF distinct_upto [of 1 "int n"]] by (simp add: elems_def seg_def)
  have "sorted_wrt (\<lambda>x y. \<not> lt y x) (elems t' n)"
    using t'(4) by (auto simp: sorted_wrt_iff_nth_less elems_nth in_order_def)
  with t' m assms(3) show ?thesis by (auto simp: table_sort_def rearranged_def)
qed

section \<open>Concatenation and the largest index\<close>

fun join :: "lstr \<Rightarrow> lstr list \<Rightarrow> lstr" where
  "join sep [] = []"
| "join sep [s] = s"
| "join sep (s # s' # ss) = s @ sep @ join sep (s' # ss)"

lemma join_snoc: "join sep (ss @ [s]) = concat (map (\<lambda>x. x @ sep) ss) @ s"
  by (induction sep ss rule: join.induct) auto

lemma tconcat_join:
  assumes inv: "tinv t" and i: "is_int i" "is_int j"
    and str: "\<And>k. i \<le> k \<Longrightarrow> k \<le> j \<Longrightarrow> tostring H (ival t k) \<noteq> None"
  shows "tconcat H t sep i j = Inr (join sep (map (\<lambda>k. the_str H (ival t k)) [i..j]))"
proof -
  have add: "addfield H t k b = Inr (b @ the_str H (ival t k))" if "i \<le> k" "k \<le> j" for k b
  proof -
    have "is_int k" using that i by (auto simp: is_int_def)
    with str [OF that] show ?thesis by (auto simp: addfield_def rawgeti_ival [OF inv] the_str_def)
  qed
  let ?f = "\<lambda>k b. ebind (addfield H t k b) (\<lambda>b. Inr (b @ sep))"
  have "efold ?f ks b = Inr (b @ concat (map (\<lambda>k. the_str H (ival t k) @ sep) ks))"
    if "\<forall>k \<in> set ks. i \<le> k \<and> k \<le> j" for ks b
    using that by (induction ks arbitrary: b) (auto simp: add)
  then have loop: "efold ?f [i..j - 1] [] = Inr (concat (map (\<lambda>k. the_str H (ival t k) @ sep) [i..j - 1]))"
    by simp
  show ?thesis
  proof (cases "i \<le> j")
    case True
    then have "[i..j] = [i..j - 1] @ [j]" by (rule upto_rec2)
    with True loop add show ?thesis by (simp add: tconcat_def join_snoc o_def)
  next
    case False
    with loop show ?thesis by (simp add: tconcat_def)
  qed
qed

definition max_key :: "TValue \<times> TValue \<Rightarrow> lua_Number \<Rightarrow> lua_Number" where
  "max_key e mx = (case fst e of VNumber v \<Rightarrow> (if luai_numlt mx v then v else mx) | _ \<Rightarrow> mx)"

lemma maxn_loop_traverse:
  "traverse n t k = Inr es \<Longrightarrow> n \<le> m \<Longrightarrow> maxn_loop m t k mx = Inr (fold max_key es mx)"
proof (induction n arbitrary: m k es mx)
  case (Suc n)
  then obtain m' where m: "m = Suc m'" "n \<le> m'" by (cases m) auto
  from Suc.prems(1) obtain r where r: "luaH_next t k = Inr r" by (auto simp: ebind_Inr_iff)
  show ?case
  proof (cases r)
    case None
    with Suc.prems(1) r m(1) show ?thesis by simp
  next
    case (Some kv)
    obtain k' v' where kv: "kv = (k', v')" by (cases kv)
    with Suc.prems(1) r Some obtain es' where es: "traverse n t k' = Inr es'" "es = (k', v') # es'"
      by (auto simp: ebind_Inr_iff)
    show ?thesis using Suc.IH [OF es(1) m(2)] r Some kv es(2) m(1) by (simp add: max_key_def)
  qed
qed simp

lemma maxn_entries:
  assumes "tinv t" "\<And>n. n \<in> set (nodes t) \<Longrightarrow> \<not> is_dead (i_key n)"
  shows "maxn t = Inr (fold max_key (entries t) 0)"
proof -
  from maxn_loop_traverse [OF traverse_entries [OF assms]] length_entries_le show ?thesis
    by (simp add: maxn_def del: maxn_loop.simps)
qed

end
