(* ===== verification/LStrMatch.thy ===== *)
theory LStrMatch
  imports LCtype LNumber
begin

text \<open>
  The pattern matcher of src/lua-5.1.5/src/lstrlib.c.

  Pointers into the subject and into the pattern are offsets; both end in a zero byte, as every
  Lua string does, and a read beyond it is the error \<open>ErrUB\<close>.  The subject (\<^verbatim>\<open>src_init\<close>, \<^verbatim>\<open>src_end\<close>) and
  the pattern do not change during a match: they are arguments, and the record holds the rest of
  \<^verbatim>\<open>MatchState\<close>.  A \<^verbatim>\<open>capture\<close> entry that has not been written is \<open>None\<close>.

  \<^verbatim>\<open>match\<close> calls itself through the functions that expand and capture.  \<open>do_match\<close> is its body
  iterated; every call is further in the pattern, so the length of the pattern is fuel enough
  (\<open>do_match_ends\<close>).  The limit of the C stack is not modelled.
\<close>

section \<open>Captures\<close>

abbreviation L_ESC :: lu_byte where "L_ESC \<equiv> ch CHR ''%''"

definition LUA_MAXCAPTURES :: nat where "LUA_MAXCAPTURES = 32"

definition CAP_UNFINISHED :: int where "CAP_UNFINISHED = - 1"
definition CAP_POSITION :: int where "CAP_POSITION = - 2"

record Capture =
  cap_init :: nat
  cap_len :: int

record MatchState =
  ms_level :: nat
  ms_capture :: "Capture option list"

definition new_state :: MatchState where
  "new_state = \<lparr>ms_level = 0, ms_capture = replicate LUA_MAXCAPTURES None\<rparr>"

definition get_capture :: "MatchState \<Rightarrow> nat \<Rightarrow> Capture res" where
  "get_capture ms l =
     (if l < length (ms_capture ms)
      then (case ms_capture ms ! l of Some c \<Rightarrow> Inr c | None \<Rightarrow> Inl (ErrUB ''unset capture''))
      else Inl (ErrUB ''capture index''))"

definition check_capture :: "MatchState \<Rightarrow> lu_byte \<Rightarrow> nat res" where
  "check_capture ms c =
     (let l = int (unat c) - int (unat (ch CHR ''1''))
      in if l < 0 \<or> int (ms_level ms) \<le> l then Inl (ErrRun ''invalid capture index'')
         else ebind (get_capture ms (nat l)) (\<lambda>cap.
           if cap_len cap = CAP_UNFINISHED then Inl (ErrRun ''invalid capture index'') else Inr (nat l)))"

primrec close_loop :: "MatchState \<Rightarrow> nat \<Rightarrow> nat res" where
  "close_loop ms 0 = Inl (ErrRun ''invalid pattern capture'')"
| "close_loop ms (Suc level) =
     ebind (get_capture ms level) (\<lambda>cap.
       if cap_len cap = CAP_UNFINISHED then Inr level else close_loop ms level)"

definition capture_to_close :: "MatchState \<Rightarrow> nat res" where
  "capture_to_close ms = close_loop ms (ms_level ms)"

section \<open>Single characters\<close>

text \<open>The loop of \<^verbatim>\<open>classend\<close> that looks for the closing bracket.\<close>

function bracket_end :: "lstr \<Rightarrow> nat \<Rightarrow> nat res" where
  "bracket_end pat p =
     ebind (rd pat p) (\<lambda>c.
       if c = 0 then Inl (ErrRun (''malformed pattern (missing '' @ LUA_QL '']'' @ '')''))
       else ebind (rd pat (p + 1)) (\<lambda>d.
         let q = (if c = L_ESC \<and> d \<noteq> 0 then p + 2 else p + 1)
         in ebind (rd pat q) (\<lambda>e. if e = ch CHR '']'' then Inr (q + 1) else bracket_end pat q)))"
  by pat_completeness auto
termination
  by (relation "measure (\<lambda>(pat, p). length pat - p)") (auto dest: rd_nonzero)

definition classend :: "lstr \<Rightarrow> nat \<Rightarrow> nat res" where
  "classend pat p =
     ebind (rd pat p) (\<lambda>c.
       if c = L_ESC then
         ebind (rd pat (p + 1)) (\<lambda>d.
           if d = 0 then Inl (ErrRun (''malformed pattern (ends with '' @ LUA_QL ''%'' @ '')'')) else Inr (p + 2))
       else if c = ch CHR ''['' then
         ebind (rd pat (p + 1)) (\<lambda>d. bracket_end pat (if d = ch CHR ''^'' then p + 2 else p + 1))
       else Inr (p + 1))"

definition match_class :: "lu_byte \<Rightarrow> lu_byte \<Rightarrow> bool" where
  "match_class c cl =
     (let l = tolower cl; signed = (\<lambda>res. if islower cl then res else \<not> res)
      in if l = ch CHR ''a'' then signed (isalpha c)
         else if l = ch CHR ''c'' then signed (iscntrl c)
         else if l = ch CHR ''d'' then signed (isdigit c)
         else if l = ch CHR ''l'' then signed (islower c)
         else if l = ch CHR ''p'' then signed (ispunct c)
         else if l = ch CHR ''s'' then signed (isspace c)
         else if l = ch CHR ''u'' then signed (isupper c)
         else if l = ch CHR ''w'' then signed (isalnum c)
         else if l = ch CHR ''x'' then signed (isxdigit c)
         else if l = ch CHR ''z'' then signed (c = 0)
         else cl = c)"

text \<open>The elements of a set from \<open>p\<close> up to the closing bracket at \<open>ec\<close>.\<close>

function bracket_loop :: "lu_byte \<Rightarrow> lstr \<Rightarrow> bool \<Rightarrow> nat \<Rightarrow> nat \<Rightarrow> bool res" where
  "bracket_loop c pat sig p ec =
     (if p < ec then
        ebind (rd pat p) (\<lambda>x.
          if x = L_ESC then
            ebind (rd pat (p + 1)) (\<lambda>y. if match_class c y then Inr sig else bracket_loop c pat sig (p + 2) ec)
          else ebind (rd pat (p + 1)) (\<lambda>y.
            if y = ch CHR ''-'' \<and> p + 2 < ec then
              ebind (rd pat (p + 2)) (\<lambda>z. if x \<le> c \<and> c \<le> z then Inr sig else bracket_loop c pat sig (p + 3) ec)
            else if x = c then Inr sig
            else bracket_loop c pat sig (p + 1) ec))
      else Inr (\<not> sig))"
  by pat_completeness auto
termination
  by (relation "measure (\<lambda>(c, pat, sig, p, ec). ec - p)") auto

declare bracket_end.simps [simp del] bracket_loop.simps [simp del]

definition matchbracketclass :: "lu_byte \<Rightarrow> lstr \<Rightarrow> nat \<Rightarrow> nat \<Rightarrow> bool res" where
  "matchbracketclass c pat p ec =
     ebind (rd pat (p + 1)) (\<lambda>d.
       if d = ch CHR ''^'' then bracket_loop c pat False (p + 2) ec else bracket_loop c pat True (p + 1) ec)"

definition singlematch :: "lu_byte \<Rightarrow> lstr \<Rightarrow> nat \<Rightarrow> nat \<Rightarrow> bool res" where
  "singlematch c pat p ep =
     ebind (rd pat p) (\<lambda>x.
       if x = ch CHR ''.'' then Inr True
       else if x = L_ESC then ebind (rd pat (p + 1)) (\<lambda>y. Inr (match_class c y))
       else if x = ch CHR ''['' then matchbracketclass c pat p (ep - 1)
       else Inr (x = c))"

section \<open>Balanced strings\<close>

function balance_loop :: "lstr \<Rightarrow> lu_byte \<Rightarrow> lu_byte \<Rightarrow> nat \<Rightarrow> nat \<Rightarrow> nat option" where
  "balance_loop src b e cont s =
     (if s < length src then
        (if src ! s = e then (if cont = 1 then Some (s + 1) else balance_loop src b e (cont - 1) (s + 1))
         else if src ! s = b then balance_loop src b e (cont + 1) (s + 1)
         else balance_loop src b e cont (s + 1))
      else None)"
  by pat_completeness auto
termination
  by (relation "measure (\<lambda>(src, b, e, cont, s). length src - s)") auto

declare balance_loop.simps [simp del]

definition matchbalance :: "lstr \<Rightarrow> lstr \<Rightarrow> nat \<Rightarrow> nat \<Rightarrow> nat option res" where
  "matchbalance src pat s p =
     ebind (rd pat p) (\<lambda>b. ebind (if b = 0 then Inr 0 else rd pat (p + 1)) (\<lambda>e.
       if b = 0 \<or> e = 0 then Inl (ErrRun ''unbalanced pattern'')
       else ebind (rd src s) (\<lambda>c.
         if c \<noteq> b then Inr None else Inr (balance_loop src b e 1 (s + 1)))))"

section \<open>The matcher\<close>

text \<open>A match from an offset of the subject and an offset of the pattern: where it ends.\<close>

type_synonym matcher = "MatchState \<Rightarrow> nat \<Rightarrow> nat \<Rightarrow> (MatchState \<times> nat option) res"

text \<open>Trying another way after a match that failed.\<close>

definition or_else ::
  "(MatchState \<times> nat option) res \<Rightarrow> (MatchState \<Rightarrow> (MatchState \<times> nat option) res) \<Rightarrow> (MatchState \<times> nat option) res" where
  "or_else m f = ebind m (\<lambda>(ms, r). case r of Some e \<Rightarrow> Inr (ms, Some e) | None \<Rightarrow> f ms)"

function max_count :: "lstr \<Rightarrow> lstr \<Rightarrow> nat \<Rightarrow> nat \<Rightarrow> nat \<Rightarrow> nat res" where
  "max_count src pat s p ep =
     (if s < length src then
        ebind (singlematch (src ! s) pat p ep) (\<lambda>b.
          if b then ebind (max_count src pat (s + 1) p ep) (\<lambda>i. Inr (Suc i)) else Inr 0)
      else Inr 0)"
  by pat_completeness auto
termination
  by (relation "measure (\<lambda>(src, pat, s, p, ep). length src - s)") auto

primrec max_try :: "matcher \<Rightarrow> MatchState \<Rightarrow> nat \<Rightarrow> nat \<Rightarrow> nat \<Rightarrow> (MatchState \<times> nat option) res" where
  "max_try m ms s q 0 = m ms s q"
| "max_try m ms s q (Suc i) = or_else (m ms (s + Suc i) q) (\<lambda>ms'. max_try m ms' s q i)"

definition max_expand ::
  "matcher \<Rightarrow> lstr \<Rightarrow> lstr \<Rightarrow> MatchState \<Rightarrow> nat \<Rightarrow> nat \<Rightarrow> nat \<Rightarrow> (MatchState \<times> nat option) res" where
  "max_expand m src pat ms s p ep =
     ebind (max_count src pat s p ep) (\<lambda>i. max_try m ms s (ep + 1) i)"

function min_expand ::
  "matcher \<Rightarrow> lstr \<Rightarrow> lstr \<Rightarrow> MatchState \<Rightarrow> nat \<Rightarrow> nat \<Rightarrow> nat \<Rightarrow> (MatchState \<times> nat option) res" where
  "min_expand m src pat ms s p ep =
     (case m ms s (ep + 1) of
        Inl e \<Rightarrow> Inl e
      | Inr (ms', Some e) \<Rightarrow> Inr (ms', Some e)
      | Inr (ms', None) \<Rightarrow>
          if s < length src then
            ebind (singlematch (src ! s) pat p ep) (\<lambda>b.
              if b then min_expand m src pat ms' (s + 1) p ep else Inr (ms', None))
          else Inr (ms', None))"
  by pat_completeness auto
termination
  by (relation "measure (\<lambda>(m, src, pat, ms, s, p, ep). length src - s)") auto

declare max_count.simps [simp del] min_expand.simps [simp del]

definition start_capture :: "matcher \<Rightarrow> MatchState \<Rightarrow> nat \<Rightarrow> nat \<Rightarrow> int \<Rightarrow> (MatchState \<times> nat option) res" where
  "start_capture m ms s p what =
     (let level = ms_level ms
      in if LUA_MAXCAPTURES \<le> level then Inl (ErrRun ''too many captures'')
         else or_else (m (ms\<lparr>ms_capture := (ms_capture ms)[level := Some \<lparr>cap_init = s, cap_len = what\<rparr>],
                            ms_level := level + 1\<rparr>) s p)
                (\<lambda>ms'. Inr (ms'\<lparr>ms_level := ms_level ms' - 1\<rparr>, None)))"

definition end_capture :: "matcher \<Rightarrow> MatchState \<Rightarrow> nat \<Rightarrow> nat \<Rightarrow> (MatchState \<times> nat option) res" where
  "end_capture m ms s p =
     ebind (capture_to_close ms) (\<lambda>l. ebind (get_capture ms l) (\<lambda>cap.
       or_else (m (ms\<lparr>ms_capture := (ms_capture ms)[l := Some (cap\<lparr>cap_len := int s - int (cap_init cap)\<rparr>)]\<rparr>) s p)
         (\<lambda>ms'. ebind (get_capture ms' l) (\<lambda>cap'.
            Inr (ms'\<lparr>ms_capture := (ms_capture ms')[l := Some (cap'\<lparr>cap_len := CAP_UNFINISHED\<rparr>)]\<rparr>, None)))))"

text \<open>The length is converted to \<^verbatim>\<open>size_t\<close>: that of a position capture becomes very large.\<close>

definition match_capture :: "lstr \<Rightarrow> MatchState \<Rightarrow> nat \<Rightarrow> lu_byte \<Rightarrow> nat option res" where
  "match_capture src ms s c =
     ebind (check_capture ms c) (\<lambda>l. ebind (get_capture ms l) (\<lambda>cap.
       let len = unat (word_of_int (cap_len cap) :: u64)
       in if length src - s < len then Inr None
          else if length src < cap_init cap + len then Inl (ErrUB ''capture outside the subject'')
          else Inr (if take len (drop (cap_init cap) src) = take len (drop s src) then Some (s + len) else None)))"

text \<open>An item of the pattern, with what may follow it (the label \<^verbatim>\<open>dflt\<close>).\<close>

definition match_item :: "matcher \<Rightarrow> lstr \<Rightarrow> lstr \<Rightarrow> MatchState \<Rightarrow> nat \<Rightarrow> nat \<Rightarrow> (MatchState \<times> nat option) res" where
  "match_item m src pat ms s p =
     ebind (classend pat p) (\<lambda>ep.
     ebind (if s < length src then singlematch (src ! s) pat p ep else Inr False) (\<lambda>b.
     ebind (rd pat ep) (\<lambda>q.
       if q = ch CHR ''?'' then
         or_else (if b then m ms (s + 1) (ep + 1) else Inr (ms, None)) (\<lambda>ms'. m ms' s (ep + 1))
       else if q = ch CHR ''*'' then max_expand m src pat ms s p ep
       else if q = ch CHR ''+'' then (if b then max_expand m src pat ms (s + 1) p ep else Inr (ms, None))
       else if q = ch CHR ''-'' then min_expand m src pat ms s p ep
       else if \<not> b then Inr (ms, None)
       else m ms (s + 1) ep)))"

definition match_frontier ::
  "matcher \<Rightarrow> lstr \<Rightarrow> lstr \<Rightarrow> MatchState \<Rightarrow> nat \<Rightarrow> nat \<Rightarrow> (MatchState \<times> nat option) res" where
  "match_frontier m src pat ms s p =
     ebind (rd pat p) (\<lambda>c.
       if c \<noteq> ch CHR ''['' then Inl (ErrRun (''missing '' @ LUA_QL ''['' @ '' after '' @ LUA_QL ''%f'' @ '' in pattern''))
       else ebind (classend pat p) (\<lambda>ep.
            ebind (if s = 0 then Inr 0 else rd src (s - 1)) (\<lambda>previous.
            ebind (matchbracketclass previous pat p (ep - 1)) (\<lambda>b1.
              if b1 then Inr (ms, None)
              else ebind (rd src s) (\<lambda>c. ebind (matchbracketclass c pat p (ep - 1)) (\<lambda>b2.
                     if \<not> b2 then Inr (ms, None) else m ms s ep))))))"

definition match_body :: "matcher \<Rightarrow> lstr \<Rightarrow> lstr \<Rightarrow> MatchState \<Rightarrow> nat \<Rightarrow> nat \<Rightarrow> (MatchState \<times> nat option) res" where
  "match_body m src pat ms s p =
     ebind (rd pat p) (\<lambda>c.
       if c = ch CHR ''('' then
         ebind (rd pat (p + 1)) (\<lambda>d.
           if d = ch CHR '')'' then start_capture m ms s (p + 2) CAP_POSITION
           else start_capture m ms s (p + 1) CAP_UNFINISHED)
       else if c = ch CHR '')'' then end_capture m ms s (p + 1)
       else if c = L_ESC then
         ebind (rd pat (p + 1)) (\<lambda>d.
           if d = ch CHR ''b'' then
             ebind (matchbalance src pat s (p + 2)) (\<lambda>r. case r of
                 None \<Rightarrow> Inr (ms, None)
               | Some s' \<Rightarrow> m ms s' (p + 4))
           else if d = ch CHR ''f'' then match_frontier m src pat ms s (p + 2)
           else if isdigit d then
             ebind (match_capture src ms s d) (\<lambda>r. case r of
                 None \<Rightarrow> Inr (ms, None)
               | Some s' \<Rightarrow> m ms s' (p + 2))
           else match_item m src pat ms s p)
       else if c = 0 then Inr (ms, Some s)
       else if c = ch CHR ''$'' then
         ebind (rd pat (p + 1)) (\<lambda>d.
           if d = 0 then Inr (ms, if s = length src then Some s else None)
           else match_item m src pat ms s p)
       else match_item m src pat ms s p)"

primrec match_n :: "nat \<Rightarrow> lstr \<Rightarrow> lstr \<Rightarrow> matcher" where
  "match_n 0 src pat ms s p = Inl ErrLoop"
| "match_n (Suc d) src pat ms s p = match_body (match_n d src pat) src pat ms s p"

definition do_match :: "lstr \<Rightarrow> lstr \<Rightarrow> matcher" where
  "do_match src pat = match_n (length pat + 1) src pat"

section \<open>Every read is inside\<close>

lemma rd_endsI: "i \<le> length s \<Longrightarrow> ends (rd s i) (\<lambda>c. rd s i = Inr c \<and> (c \<noteq> 0 \<longrightarrow> i < length s))"
  by (auto simp: rd_def)

lemma bracket_end_ends: "p \<le> length pat \<Longrightarrow> ends (bracket_end pat p) (\<lambda>ep. p < ep \<and> ep \<le> length pat)"
proof (induction "length pat - p" arbitrary: p rule: less_induct)
  case less
  have step: "ends (ebind (rd pat q) (\<lambda>e. if e = ch CHR '']'' then Inr (q + 1) else bracket_end pat q))
      (\<lambda>ep. p < ep \<and> ep \<le> length pat)" if "p < q" "q \<le> length pat" for q
  proof (rule ends_bind [OF rd_endsI [OF that(2)]])
    fix e assume "rd pat q = Inr e" and e: "rd pat q = Inr e \<and> (e \<noteq> 0 \<longrightarrow> q < length pat)"
    have "length pat - q < length pat - p" using that by simp
    from less.hyps [OF this that(2)] that e
    show "ends (if e = ch CHR '']'' then Inr (q + 1) else bracket_end pat q) (\<lambda>ep. p < ep \<and> ep \<le> length pat)"
      by (auto elim!: ends_weaken)
  qed
  show ?case
  proof (subst bracket_end.simps, rule ends_bind [OF rd_endsI [OF less.prems]])
    fix c assume "rd pat p = Inr c" and c: "rd pat p = Inr c \<and> (c \<noteq> 0 \<longrightarrow> p < length pat)"
    show "ends (if c = 0 then Inl (ErrRun (''malformed pattern (missing '' @ LUA_QL '']'' @ '')''))
       else ebind (rd pat (p + 1)) (\<lambda>d.
         let q = (if c = L_ESC \<and> d \<noteq> 0 then p + 2 else p + 1)
         in ebind (rd pat q) (\<lambda>e. if e = ch CHR '']'' then Inr (q + 1) else bracket_end pat q)))
       (\<lambda>ep. p < ep \<and> ep \<le> length pat)"
    proof (cases "c = 0")
      case False
      with c have p: "p + 1 \<le> length pat" by simp
      show ?thesis
        by (simp only: False if_False Let_def, rule ends_bind [OF rd_endsI [OF p]], rule step)
          (use p in auto)
    qed simp
  qed
qed

lemma classend_ends:
  "p < length pat \<Longrightarrow> ends (classend pat p) (\<lambda>ep. p < ep \<and> ep \<le> length pat)"
  by (auto simp: classend_def intro!: ends_bind [OF rd_endsI] ends_weaken [OF bracket_end_ends] dest: rd_nonzero
      split: if_splits)

lemma bracket_loop_ends: "ec < length pat \<Longrightarrow> ends (bracket_loop c pat sig p ec) (\<lambda>b. True)"
proof (induction "ec - p" arbitrary: p rule: less_induct)
  case less
  then have "p < ec \<Longrightarrow> p < q \<Longrightarrow> ends (bracket_loop c pat sig q ec) (\<lambda>b. True)" for q by simp
  then show ?case
    by (subst bracket_loop.simps) (use less.prems in \<open>intro ends_if ends_bind [OF rd_endsI]; simp\<close>)
qed

lemma matchbracketclass_ends:
  "p < length pat \<Longrightarrow> ec < length pat \<Longrightarrow> ends (matchbracketclass c pat p ec) (\<lambda>b. True)"
  by (auto simp: matchbracketclass_def intro!: ends_bind [OF rd_endsI] bracket_loop_ends)

lemma singlematch_ends:
  "p < length pat \<Longrightarrow> p < ep \<Longrightarrow> ep \<le> length pat \<Longrightarrow> ends (singlematch c pat p ep) (\<lambda>b. True)"
  by (auto simp: singlematch_def intro!: ends_bind [OF rd_endsI] matchbracketclass_ends)

section \<open>Captures stay inside the subject\<close>

definition capture_ok :: "lstr \<Rightarrow> nat \<Rightarrow> Capture option \<Rightarrow> bool" where
  "capture_ok src s c \<longleftrightarrow> (case c of None \<Rightarrow> False | Some c \<Rightarrow>
     cap_init c \<le> length src \<and>
     (if cap_len c = CAP_UNFINISHED then cap_init c \<le> s
      else cap_len c = CAP_POSITION \<or> 0 \<le> cap_len c \<and> int (cap_init c) + cap_len c \<le> int (length src)))"

definition caps_ok :: "lstr \<Rightarrow> MatchState \<Rightarrow> nat \<Rightarrow> bool" where
  "caps_ok src ms s \<longleftrightarrow>
     ms_level ms \<le> LUA_MAXCAPTURES \<and> length (ms_capture ms) = LUA_MAXCAPTURES \<and>
     list_all (capture_ok src s) (take (ms_level ms) (ms_capture ms))"

text \<open>
  What a call of the matcher promises: a match ends between its start and the end of the subject,
  with good captures; a failure leaves the captures it found as they were.
\<close>

definition match_post :: "lstr \<Rightarrow> MatchState \<Rightarrow> nat \<Rightarrow> MatchState \<times> nat option \<Rightarrow> bool" where
  "match_post src ms s x \<longleftrightarrow> (case x of
       (ms', None) \<Rightarrow> ms_level ms' = ms_level ms \<and> length (ms_capture ms') = length (ms_capture ms) \<and>
         take (ms_level ms) (ms_capture ms') = take (ms_level ms) (ms_capture ms)
     | (ms', Some e) \<Rightarrow> s \<le> e \<and> e \<le> length src \<and> caps_ok src ms' e)"

lemma capture_ok_mono: "capture_ok src s c \<Longrightarrow> s \<le> s' \<Longrightarrow> capture_ok src s' c"
  by (auto simp: capture_ok_def split: option.splits)

lemma caps_ok_mono: "caps_ok src ms s \<Longrightarrow> s \<le> s' \<Longrightarrow> caps_ok src ms s'"
  by (auto simp: caps_ok_def list_all_iff intro: capture_ok_mono)

lemma caps_ok_failed: "caps_ok src ms s \<Longrightarrow> match_post src ms s0 (ms', None) \<Longrightarrow> caps_ok src ms' s"
  by (simp add: caps_ok_def match_post_def)

lemma match_post_fail [simp]: "match_post src ms s (ms, None)"
  by (simp add: match_post_def)

lemma match_post_chain:
  "match_post src ms s0 (ms', None) \<Longrightarrow> s \<le> s1 \<Longrightarrow> match_post src ms' s1 x \<Longrightarrow> match_post src ms s x"
  by (auto simp: match_post_def split: prod.splits option.splits)

lemma match_post_later: "s \<le> s1 \<Longrightarrow> match_post src ms s1 x \<Longrightarrow> match_post src ms s x"
  by (auto simp: match_post_def split: prod.splits option.splits)

definition sound_from :: "lstr \<Rightarrow> lstr \<Rightarrow> nat \<Rightarrow> matcher \<Rightarrow> bool" where
  "sound_from src pat k m \<longleftrightarrow> (\<forall>ms s p. caps_ok src ms s \<longrightarrow> s \<le> length src \<longrightarrow> k \<le> p \<longrightarrow> p \<le> length pat \<longrightarrow>
     ends (m ms s p) (match_post src ms s))"

lemma sound_fromD:
  "sound_from src pat k m \<Longrightarrow> caps_ok src ms s \<Longrightarrow> s \<le> length src \<Longrightarrow> k \<le> p \<Longrightarrow> p \<le> length pat \<Longrightarrow>
   ends (m ms s p) (match_post src ms s)"
  by (simp add: sound_from_def)

lemma sound_from_mono: "sound_from src pat k m \<Longrightarrow> k \<le> k' \<Longrightarrow> sound_from src pat k' m"
  by (auto simp: sound_from_def)

lemma or_else_ends:
  assumes "ends m (match_post src ms s)"
    and "\<And>ms'. match_post src ms s (ms', None) \<Longrightarrow> ends (f ms') (match_post src ms s)"
  shows "ends (or_else m f) (match_post src ms s)"
  unfolding or_else_def by (rule ends_bind [OF assms(1)]) (auto split: option.splits intro: assms(2))

lemma max_try_ends:
  assumes "sound_from src pat k m" "caps_ok src ms s" "s + i \<le> length src" "k \<le> q" "q \<le> length pat"
  shows "ends (max_try m ms s q i) (match_post src ms s)"
  using assms(2,3)
proof (induction i arbitrary: ms)
  case 0
  then show ?case using sound_fromD [OF assms(1)] assms(4,5) by simp
next
  case (Suc i)
  from Suc.prems have "caps_ok src ms (s + Suc i)" by (auto intro: caps_ok_mono)
  then have "ends (m ms (s + Suc i) q) (match_post src ms (s + Suc i))"
    using sound_fromD [OF assms(1)] Suc.prems assms(4,5) by blast
  then have "ends (m ms (s + Suc i) q) (match_post src ms s)"
    by (rule ends_weaken) (auto intro: match_post_later [of _ "s + Suc i"])
  then show ?case
  proof (simp only: max_try.simps, rule or_else_ends)
    fix ms' assume f: "match_post src ms s (ms', None)"
    have "ends (max_try m ms' s q i) (match_post src ms' s)"
      using Suc.IH [OF caps_ok_failed [OF Suc.prems(1) f]] Suc.prems(2) by simp
    then show "ends (max_try m ms' s q i) (match_post src ms s)"
      by (rule ends_weaken) (auto intro: match_post_chain [OF f])
  qed
qed

lemma max_count_ends:
  assumes "p < length pat" "p < ep" "ep \<le> length pat" "s \<le> length src"
  shows "ends (max_count src pat s p ep) (\<lambda>i. s + i \<le> length src)"
  using assms(4)
proof (induction "length src - s" arbitrary: s rule: less_induct)
  case less
  show ?case
    by (subst max_count.simps)
      (use less in \<open>auto intro!: ends_if ends_bind [OF singlematch_ends [OF assms(1-3)]]
         ends_bind [OF less.hyps [of "Suc s"]]\<close>)
qed

lemma max_expand_ends:
  assumes "sound_from src pat k m" "caps_ok src ms s" "s \<le> length src" "k \<le> ep + 1" "ep + 1 \<le> length pat"
    and "p < length pat" "p < ep"
  shows "ends (max_expand m src pat ms s p ep) (match_post src ms s)"
  unfolding max_expand_def
  by (rule ends_bind [OF max_count_ends]) (use assms in \<open>auto intro!: max_try_ends\<close>)

lemma min_expand_ends:
  assumes "sound_from src pat k m" "caps_ok src ms s" "s \<le> length src" "k \<le> ep + 1" "ep + 1 \<le> length pat"
    and "p < length pat" "p < ep"
  shows "ends (min_expand m src pat ms s p ep) (match_post src ms s)"
  using assms(2,3)
proof (induction "length src - s" arbitrary: s ms rule: less_induct)
  case less
  have e: "ends (m ms s (ep + 1)) (match_post src ms s)"
    using sound_fromD [OF assms(1) less.prems assms(4,5)] .
  show ?case
  proof (cases "m ms s (ep + 1)")
    case (Inl x)
    with e show ?thesis by (subst min_expand.simps) (auto simp: ends_def split: lua_error.splits)
  next
    case (Inr x)
    obtain ms' r where x: "x = (ms', r)" by fastforce
    show ?thesis
    proof (cases r)
      case (Some y)
      with Inr x e show ?thesis by (subst min_expand.simps) simp
    next
      case None
      with Inr x e have f: "match_post src ms s (ms', None)" by simp
      have rec: "ends (min_expand m src pat ms' (s + 1) p ep) (match_post src ms s)" if "s < length src"
      proof (rule ends_weaken)
        show "ends (min_expand m src pat ms' (s + 1) p ep) (match_post src ms' (s + 1))"
          using less.hyps [of "s + 1" ms'] that caps_ok_mono [OF caps_ok_failed [OF less.prems(1) f], of "s + 1"]
          by simp
      qed (auto intro: match_post_chain [OF f, of s "s + 1"])
      show ?thesis using f rec assms(5-7)
        by (subst min_expand.simps)
          (auto simp: Inr [unfolded x None, simplified] intro!: ends_bind [OF singlematch_ends])
    qed
  qed
qed

lemma caps_entry:
  assumes "caps_ok src ms s" "l < ms_level ms"
  obtains c where "ms_capture ms ! l = Some c" "get_capture ms l = Inr c" "capture_ok src s (Some c)"
proof -
  from assms have l: "l < length (ms_capture ms)" by (simp add: caps_ok_def)
  have "capture_ok src s (take (ms_level ms) (ms_capture ms) ! l)"
    using assms l by (auto simp: caps_ok_def list_all_length)
  then have k: "capture_ok src s (ms_capture ms ! l)" using assms(2) by simp
  then obtain c where "ms_capture ms ! l = Some c" by (auto simp: capture_ok_def split: option.splits)
  with that k l show thesis by (simp add: get_capture_def)
qed

lemma check_capture_ends:
  "caps_ok src ms s \<Longrightarrow> ends (check_capture ms c) (\<lambda>l. l < ms_level ms \<and>
     (\<exists>cap. get_capture ms l = Inr cap \<and> cap_len cap \<noteq> CAP_UNFINISHED \<and> capture_ok src s (Some cap)))"
proof -
  assume c: "caps_ok src ms s"
  define l where "l = int (unat c) - int (unat (ch CHR ''1''))"
  show ?thesis
  proof (cases "l < 0 \<or> int (ms_level ms) \<le> l")
    case True
    then show ?thesis by (simp only: check_capture_def Let_def flip: l_def) simp
  next
    case False
    then have "nat l < ms_level ms" by auto
    with c obtain cap where "get_capture ms (nat l) = Inr cap" "capture_ok src s (Some cap)" by (rule caps_entry)
    with False \<open>nat l < ms_level ms\<close> show ?thesis by (simp only: check_capture_def Let_def flip: l_def) simp
  qed
qed

lemma close_loop_ends:
  assumes "caps_ok src ms s" "n \<le> ms_level ms"
  shows "ends (close_loop ms n) (\<lambda>l. l < ms_level ms \<and>
     (\<exists>cap. get_capture ms l = Inr cap \<and> cap_len cap = CAP_UNFINISHED \<and> capture_ok src s (Some cap)))"
  using assms(2)
proof (induction n)
  case (Suc n)
  from assms(1) obtain c where "get_capture ms n = Inr c" "capture_ok src s (Some c)"
    by (rule caps_entry) (use Suc.prems in auto)
  with Suc show ?case by auto
qed simp

lemma caps_ok_set:
  "caps_ok src ms s \<Longrightarrow> capture_ok src s (Some c) \<Longrightarrow>
   caps_ok src (ms\<lparr>ms_capture := (ms_capture ms)[l := Some c]\<rparr>) s"
  by (cases "l < length (ms_capture ms)") (auto simp: caps_ok_def list_all_length nth_list_update)

lemma start_capture_ends:
  assumes m: "sound_from src pat k m" and c: "caps_ok src ms s" and s: "s \<le> length src"
    and p: "k \<le> p" "p \<le> length pat" and what: "what = CAP_UNFINISHED \<or> what = CAP_POSITION"
  shows "ends (start_capture m ms s p what) (match_post src ms s)"
proof (cases "LUA_MAXCAPTURES \<le> ms_level ms")
  case True
  then show ?thesis by (simp add: start_capture_def)
next
  case False
  define ms1 where "ms1 = ms\<lparr>ms_capture := (ms_capture ms)[ms_level ms := Some \<lparr>cap_init = s, cap_len = what\<rparr>],
    ms_level := ms_level ms + 1\<rparr>"
  have "caps_ok src ms1 s"
    using c False s what
    by (auto simp: ms1_def caps_ok_def list_all_length nth_list_update less_Suc_eq capture_ok_def)
  then have e: "ends (m ms1 s p) (match_post src ms1 s)" using sound_fromD [OF m] s p by blast
  have undo: "match_post src ms s (ms'\<lparr>ms_level := ms_level ms' - 1\<rparr>, None)"
    if "match_post src ms1 s (ms', None)" for ms'
  proof -
    from that have t: "take (Suc (ms_level ms)) (ms_capture ms') =
        take (Suc (ms_level ms)) ((ms_capture ms)[ms_level ms := Some \<lparr>cap_init = s, cap_len = what\<rparr>])"
      by (simp add: match_post_def ms1_def)
    from arg_cong [OF this, of "take (ms_level ms)"]
    have "take (ms_level ms) (ms_capture ms') = take (ms_level ms) (ms_capture ms)" by (simp add: min_def)
    with that show ?thesis by (simp add: match_post_def ms1_def)
  qed
  have "ends (or_else (m ms1 s p) (\<lambda>ms'. Inr (ms'\<lparr>ms_level := ms_level ms' - 1\<rparr>, None))) (match_post src ms s)"
    unfolding or_else_def
    by (rule ends_bind [OF e]) (auto simp: undo [unfolded One_nat_def] match_post_def [of _ _ _ "(_, Some _)"] split: option.splits)
  with False show ?thesis by (simp add: start_capture_def Let_def ms1_def)
qed

lemma end_capture_ends:
  assumes m: "sound_from src pat k m" and c: "caps_ok src ms s" and s: "s \<le> length src"
    and p: "k \<le> p" "p \<le> length pat"
  shows "ends (end_capture m ms s p) (match_post src ms s)"
  unfolding end_capture_def capture_to_close_def
proof (rule ends_bind [OF close_loop_ends [OF c order_refl]])
  fix l assume "l < ms_level ms \<and>
     (\<exists>cap. get_capture ms l = Inr cap \<and> cap_len cap = CAP_UNFINISHED \<and> capture_ok src s (Some cap))"
  then obtain cap where l: "l < ms_level ms" "get_capture ms l = Inr cap" "cap_len cap = CAP_UNFINISHED"
    "capture_ok src s (Some cap)" by blast
  then have lc: "l < length (ms_capture ms)" "ms_capture ms ! l = Some cap"
    by (auto simp: get_capture_def split: if_splits option.splits)
  define ms1 where "ms1 = ms\<lparr>ms_capture := (ms_capture ms)[l := Some (cap\<lparr>cap_len := int s - int (cap_init cap)\<rparr>)]\<rparr>"
  have "caps_ok src ms1 s"
    unfolding ms1_def by (rule caps_ok_set [OF c]) (use l s in \<open>auto simp: capture_ok_def CAP_UNFINISHED_def\<close>)
  then have e: "ends (m ms1 s p) (match_post src ms1 s)" using sound_fromD [OF m] s p by blast
  have undo: "ends (ebind (get_capture ms' l) (\<lambda>cap'.
      Inr (ms'\<lparr>ms_capture := (ms_capture ms')[l := Some (cap'\<lparr>cap_len := CAP_UNFINISHED\<rparr>)]\<rparr>, None)))
      (match_post src ms s)" if f: "match_post src ms1 s (ms', None)" for ms'
  proof -
    have t: "take (ms_level ms) (ms_capture ms') = take (ms_level ms) (ms_capture ms1)"
      "length (ms_capture ms') = length (ms_capture ms)" "ms_level ms' = ms_level ms"
      using f by (simp_all add: match_post_def ms1_def)
    have "ms_capture ms' ! l = Some (cap\<lparr>cap_len := int s - int (cap_init cap)\<rparr>)"
      using arg_cong [OF t(1), of "\<lambda>xs. xs ! l"] l(1) lc(1) by (simp add: ms1_def)
    moreover have "cap\<lparr>cap_len := CAP_UNFINISHED\<rparr> = cap" using l(3) by simp
    moreover have "take (ms_level ms) ((ms_capture ms')[l := Some cap]) = take (ms_level ms) (ms_capture ms)"
    proof -
      have "(take (ms_level ms) (ms_capture ms))[l := Some cap] = take (ms_level ms) (ms_capture ms)"
        by (rule list_update_same_conv [THEN iffD2]) (use l(1) lc in simp_all)
      with t(1) show ?thesis by (simp add: ms1_def take_update_swap)
    qed
    ultimately show ?thesis using t lc(1) by (simp add: get_capture_def match_post_def)
  qed
  have "ends (or_else (m ms1 s p) (\<lambda>ms'. ebind (get_capture ms' l) (\<lambda>cap'.
      Inr (ms'\<lparr>ms_capture := (ms_capture ms')[l := Some (cap'\<lparr>cap_len := CAP_UNFINISHED\<rparr>)]\<rparr>, None))))
      (match_post src ms s)"
    unfolding or_else_def
    by (rule ends_bind [OF e]) (auto simp: undo match_post_def [of _ _ _ "(_, Some _)"] split: option.splits)
  then show "ends (ebind (get_capture ms l) (\<lambda>cap.
       or_else (m (ms\<lparr>ms_capture := (ms_capture ms)[l := Some (cap\<lparr>cap_len := int s - int (cap_init cap)\<rparr>)]\<rparr>) s p)
         (\<lambda>ms'. ebind (get_capture ms' l) (\<lambda>cap'.
            Inr (ms'\<lparr>ms_capture := (ms_capture ms')[l := Some (cap'\<lparr>cap_len := CAP_UNFINISHED\<rparr>)]\<rparr>, None)))))
      (match_post src ms s)"
    by (simp add: l(2) ms1_def)
qed

lemma match_capture_ends:
  assumes c: "caps_ok src ms s" and s: "s \<le> length src" "length src < 2 ^ 63"
  shows "ends (match_capture src ms s d) (\<lambda>r. \<forall>e. r = Some e \<longrightarrow> s \<le> e \<and> e \<le> length src)"
  unfolding match_capture_def
proof (rule ends_bind [OF check_capture_ends [OF c]])
  fix l assume "l < ms_level ms \<and>
     (\<exists>cap. get_capture ms l = Inr cap \<and> cap_len cap \<noteq> CAP_UNFINISHED \<and> capture_ok src s (Some cap))"
  then obtain cap where l: "get_capture ms l = Inr cap" "cap_len cap \<noteq> CAP_UNFINISHED" "capture_ok src s (Some cap)"
    by blast
  show "ends (ebind (get_capture ms l) (\<lambda>cap.
       let len = unat (word_of_int (cap_len cap) :: u64)
       in if length src - s < len then Inr None
          else if length src < cap_init cap + len then Inl (ErrUB ''capture outside the subject'')
          else Inr (if take len (drop (cap_init cap) src) = take len (drop s src) then Some (s + len) else None)))
     (\<lambda>r. \<forall>e. r = Some e \<longrightarrow> s \<le> e \<and> e \<le> length src)"
  proof (cases "cap_len cap = CAP_POSITION")
    case True
    then have "unat (word_of_int (cap_len cap) :: u64) = 18446744073709551614" by (simp add: CAP_POSITION_def)
    with s l show ?thesis by (simp add: Let_def)
  next
    case False
    with l have k: "0 \<le> cap_len cap" "int (cap_init cap) + cap_len cap \<le> int (length src)"
      by (auto simp: capture_ok_def)
    with s(2) have "nat (cap_len cap) < 2 ^ 64" by simp
    with k have "unat (word_of_int (cap_len cap) :: u64) = nat (cap_len cap)"
      by (simp add: unsigned_of_int take_bit_int_eq_self nat_less_iff)
    with k l s show ?thesis by (auto simp: Let_def)
  qed
qed

lemma balance_loop_bounds: "balance_loop src b e n s = Some r \<Longrightarrow> s < r \<and> r \<le> length src"
proof (induction "length src - s" arbitrary: n s rule: less_induct)
  case less
  then have "balance_loop src b e n' (s + 1) = Some r \<Longrightarrow> s < length src \<Longrightarrow> s < r \<and> r \<le> length src" for n'
    using less.hyps [of "s + 1" n'] by fastforce
  with less.prems show ?case by (subst (asm) balance_loop.simps) (auto split: if_splits)
qed

lemma matchbalance_ends:
  "p \<le> length pat \<Longrightarrow> s \<le> length src \<Longrightarrow>
   ends (matchbalance src pat s p) (\<lambda>r. \<forall>e. r = Some e \<longrightarrow> s \<le> e \<and> e \<le> length src \<and> p + 2 \<le> length pat)"
  by (auto simp: matchbalance_def intro!: ends_bind [OF rd_endsI] dest!: balance_loop_bounds)

section \<open>The matcher ends\<close>

lemma match_item_ends:
  assumes m: "sound_from src pat (p + 1) m" and c: "caps_ok src ms s" and s: "s \<le> length src" and p: "p < length pat"
  shows "ends (match_item m src pat ms s p) (match_post src ms s)"
  unfolding match_item_def
proof (rule ends_bind [OF classend_ends [OF p]])
  fix ep assume ep: "p < ep \<and> ep \<le> length pat"
  have single: "ends (if s < length src then singlematch (src ! s) pat p ep else Inr False) (\<lambda>b. b \<longrightarrow> s < length src)"
    using ep p by (auto intro: ends_weaken [OF singlematch_ends])
  have step: "ends (m ms (s + 1) q) (match_post src ms s)" if "p < q" "q \<le> length pat" "s < length src" for q
  proof (rule ends_weaken)
    show "ends (m ms (s + 1) q) (match_post src ms (s + 1))"
      by (rule sound_fromD [OF m caps_ok_mono [OF c]]) (use that in auto)
  qed (auto intro: match_post_later [of s "s + 1"])
  have more: "ends (max_expand m src pat ms (s + 1) p ep) (match_post src ms s)"
    if "s < length src" "ep + 1 \<le> length pat"
  proof (rule ends_weaken)
    show "ends (max_expand m src pat ms (s + 1) p ep) (match_post src ms (s + 1))"
      by (rule max_expand_ends [OF m caps_ok_mono [OF c]]) (use that ep in auto)
  qed (auto intro: match_post_later [of s "s + 1"])
  have opt: "ends (or_else (if b then m ms (s + 1) (ep + 1) else Inr (ms, None)) (\<lambda>ms'. m ms' s (ep + 1)))
      (match_post src ms s)" if "ep < length pat" "b \<longrightarrow> s < length src" for b
  proof (rule or_else_ends)
    show "ends (if b then m ms (s + 1) (ep + 1) else Inr (ms, None)) (match_post src ms s)"
      using step that ep by simp
    fix ms' assume f: "match_post src ms s (ms', None)"
    have "ends (m ms' s (ep + 1)) (match_post src ms' s)"
      by (rule sound_fromD [OF m caps_ok_failed [OF c f] s]) (use that ep in auto)
    then show "ends (m ms' s (ep + 1)) (match_post src ms s)"
      by (rule ends_weaken) (rule match_post_chain [OF f order_refl])
  qed
  show "ends (ebind (if s < length src then singlematch (src ! s) pat p ep else Inr False) (\<lambda>b.
     ebind (rd pat ep) (\<lambda>q.
       if q = ch CHR ''?'' then
         or_else (if b then m ms (s + 1) (ep + 1) else Inr (ms, None)) (\<lambda>ms'. m ms' s (ep + 1))
       else if q = ch CHR ''*'' then max_expand m src pat ms s p ep
       else if q = ch CHR ''+'' then (if b then max_expand m src pat ms (s + 1) p ep else Inr (ms, None))
       else if q = ch CHR ''-'' then min_expand m src pat ms s p ep
       else if \<not> b then Inr (ms, None)
       else m ms (s + 1) ep))) (match_post src ms s)"
    by (rule ends_bind [OF single], rule ends_bind [OF rd_endsI], use ep in simp,
        intro ends_if opt max_expand_ends [OF m c s] min_expand_ends [OF m c s] more step)
      (use ep p in \<open>auto split: if_splits\<close>)
qed

lemma match_frontier_ends:
  assumes m: "sound_from src pat p m" and c: "caps_ok src ms s" and s: "s \<le> length src" and p: "p \<le> length pat"
  shows "ends (match_frontier m src pat ms s p) (match_post src ms s)"
  unfolding match_frontier_def
proof (rule ends_bind [OF rd_endsI [OF p]], rule ends_if)
  fix x assume "rd pat p = Inr x \<and> (x \<noteq> 0 \<longrightarrow> p < length pat)" "\<not> x \<noteq> ch CHR ''[''"
  then have p: "p < length pat" by auto
  have next_: "ends (m ms s ep) (match_post src ms s)" if "p < ep \<and> ep \<le> length pat" for ep
    using sound_fromD [OF m c s] that by simp
  show "ends (ebind (classend pat p) (\<lambda>ep.
            ebind (if s = 0 then Inr 0 else rd src (s - 1)) (\<lambda>previous.
            ebind (matchbracketclass previous pat p (ep - 1)) (\<lambda>b1.
              if b1 then Inr (ms, None)
              else ebind (rd src s) (\<lambda>c. ebind (matchbracketclass c pat p (ep - 1)) (\<lambda>b2.
                     if \<not> b2 then Inr (ms, None) else m ms s ep)))))) (match_post src ms s)"
  proof (rule ends_bind [OF classend_ends [OF p]], rule ends_bind [where P = "\<lambda>c. True"],
      goal_cases)
    case 1
    then show ?case using s by (auto simp: rd_def)
  next
    case (2 ep)
    show ?case
      by (rule ends_bind [OF matchbracketclass_ends [OF p]])
        (use 2 s p in \<open>auto intro!: ends_bind [OF rd_endsI] ends_bind [OF matchbracketclass_ends] next_\<close>)
  qed
qed simp

lemma match_body_ends:
  assumes m: "sound_from src pat (p + 1) m" and c: "caps_ok src ms s" and s: "s \<le> length src" "length src < 2 ^ 63"
    and p: "p \<le> length pat"
  shows "ends (match_body m src pat ms s p) (match_post src ms s)"
proof -
  note m' = sound_from_mono [OF m]
  have cont: "ends (case r of None \<Rightarrow> Inr (ms, None) | Some s' \<Rightarrow> m ms s' q) (match_post src ms s)"
    if "\<forall>e. r = Some e \<longrightarrow> s \<le> e \<and> e \<le> length src \<and> q \<le> length pat" "p < q" for r q
  proof (cases r)
    case (Some e)
    with that have "ends (m ms e q) (match_post src ms e)"
      by (intro sound_fromD [OF m caps_ok_mono [OF c]]) auto
    then have "ends (m ms e q) (match_post src ms s)"
      by (rule ends_weaken) (rule match_post_later [of s e], use that Some in auto)
    with Some show ?thesis by simp
  qed simp
  show ?thesis
    unfolding match_body_def
  proof (rule ends_bind [OF rd_endsI [OF p]], intro ends_if, goal_cases)
    case (1 x)
    then have "p < length pat" by auto
    then show ?case
      by (auto intro!: ends_bind [OF rd_endsI] ends_if start_capture_ends [OF m' c s(1)])
  next
    case (2 x)
    then show ?case by (auto intro!: end_capture_ends [OF m c s(1)])
  next
    case (3 x)
    then have p: "p < length pat" by auto
    show ?case
      by (rule ends_bind [OF rd_endsI], use p in simp, intro ends_if
          ends_bind [OF matchbalance_ends] ends_bind [OF match_capture_ends [OF c s]]
          match_frontier_ends [OF m' c s(1)] match_item_ends [OF m c s(1) p] cont)
        (use p s in \<open>auto simp: isdigit_def split: if_splits\<close>)
  next
    case (4 x)
    show ?case using s caps_ok_mono [OF c] c by (simp add: match_post_def)
  next
    case (5 x)
    then have p: "p < length pat" by auto
    have "ends (Inr (ms, if s = length src then Some s else None)) (match_post src ms s)"
      using c by (auto simp: match_post_def)
    then show ?case
      by (intro ends_bind [OF rd_endsI] ends_if match_item_ends [OF m c s(1) p]) (use p in auto)
  next
    case (6 x)
    then have p: "p < length pat" by auto
    then show ?case by (rule match_item_ends [OF m c s(1)])
  qed
qed

lemma match_n_sound:
  assumes "length src < 2 ^ 63"
  shows "length pat < d + k \<Longrightarrow> sound_from src pat k (match_n d src pat)"
proof (induction d arbitrary: k)
  case 0
  then show ?case by (auto simp: sound_from_def)
next
  case (Suc d)
  show ?case
    unfolding sound_from_def match_n.simps
  proof (intro allI impI match_body_ends)
    fix p assume "k \<le> p" "p \<le> length pat"
    then show "sound_from src pat (p + 1) (match_n d src pat)" using Suc by simp
  qed (use assms in simp_all)
qed

text \<open>
  From a good state the matcher ends, with a Lua error, a failure or a match inside the subject,
  and reads nothing outside its two strings and the captures it has set.
\<close>

lemma do_match_ends:
  assumes "length src < 2 ^ 63" "caps_ok src ms s" "s \<le> length src" "p \<le> length pat"
  shows "ends (do_match src pat ms s p) (match_post src ms s)"
  unfolding do_match_def
  by (rule sound_fromD [OF match_n_sound [OF assms(1), of pat "length pat + 1" 0] assms(2,3)]) (use assms(4) in simp_all)

end
