(* ===== verification/LStrLib.thy ===== *)
theory LStrLib
  imports LVM LStrMatch
begin

text \<open>
  The string library, src/lua-5.1.5/src/lstrlib.c, on top of the matcher of theory LStrMatch.

  A library function takes its arguments after the checks of lauxlib (\<^verbatim>\<open>luaL_checklstring\<close>,
  \<^verbatim>\<open>luaL_optinteger\<close>) and returns the list of values it pushes.  A \<^verbatim>\<open>luaL_Buffer\<close> is the string
  collected so far.  \<^verbatim>\<open>sprintf\<close> is a parameter of \<^verbatim>\<open>str_format\<close>.
\<close>

section \<open>Parts of a string\<close>

abbreviation VStr :: "lstr \<Rightarrow> TValue" where "VStr s \<equiv> VGC (GStr s)"
abbreviation VInt :: "int \<Rightarrow> TValue" where "VInt i \<equiv> VNumber (cast_num i)"

definition slice :: "lstr \<Rightarrow> nat \<Rightarrow> nat \<Rightarrow> lstr" where
  "slice s i j = take (j - i) (drop i s)"

definition posrelat :: "int \<Rightarrow> nat \<Rightarrow> int" where
  "posrelat pos len = (let pos = (if pos < 0 then pos + int len + 1 else pos) in if 0 \<le> pos then pos else 0)"

definition str_sub :: "lstr \<Rightarrow> int \<Rightarrow> int \<Rightarrow> lstr" where
  "str_sub s i j =
     (let l = length s;
          start = posrelat i l; e = posrelat j l;
          start = (if start < 1 then 1 else start);
          e = (if int l < e then int l else e)
      in if start \<le> e then take (nat (e - start + 1)) (drop (nat (start - 1)) s) else [])"

definition str_len :: "lstr \<Rightarrow> int" where "str_len s = int (length s)"

text \<open>\<^verbatim>\<open>while (l--) luaL_addchar(&b, s[l])\<close>.\<close>

primrec reverse_loop :: "lstr \<Rightarrow> nat \<Rightarrow> lstr \<Rightarrow> lstr" where
  "reverse_loop s 0 b = b"
| "reverse_loop s (Suc l) b = reverse_loop s l (b @ [s ! l])"

definition str_reverse :: "lstr \<Rightarrow> lstr" where "str_reverse s = reverse_loop s (length s) []"
definition str_lower :: "lstr \<Rightarrow> lstr" where "str_lower s = map tolower s"
definition str_upper :: "lstr \<Rightarrow> lstr" where "str_upper s = map toupper s"
definition str_rep :: "lstr \<Rightarrow> int \<Rightarrow> lstr" where "str_rep s n = concat (replicate (nat n) s)"

text \<open>The number of values is an \<^verbatim>\<open>int\<close>; \<open>room\<close> is what \<^verbatim>\<open>luaL_checkstack\<close> grants.\<close>

definition str_byte :: "nat \<Rightarrow> lstr \<Rightarrow> int \<Rightarrow> int option \<Rightarrow> TValue list res" where
  "str_byte room s i j =
     (let l = length s;
          posi = posrelat i l;
          pose = posrelat (case j of None \<Rightarrow> posi | Some j \<Rightarrow> j) l;
          posi = (if posi \<le> 0 then 1 else posi);
          pose = (if int l < pose then int l else pose)
      in if pose < posi then Inr []
         else let n = sint (word_of_int (pose - posi + 1) :: 32 word)
              in if posi + n \<le> pose then Inl (ErrRun ''string slice too long'')
                 else if int room < n then Inl (ErrRun ''stack overflow (string slice too long)'')
                 else Inr (map (\<lambda>k. VInt (int (unat (s ! nat (posi + int k - 1))))) [0..<nat n]))"

primrec str_char :: "int list \<Rightarrow> lstr \<Rightarrow> lstr res" where
  "str_char [] b = Inr b"
| "str_char (c # cs) b =
     (if uint (word_of_int c :: lu_byte) \<noteq> c then Inl (ErrRun ''invalid value'')
      else str_char cs (b @ [word_of_int c]))"

section \<open>Plain search\<close>

text \<open>\<^verbatim>\<open>memchr\<close> on \<open>n\<close> bytes from \<open>pos\<close>.\<close>

fun memchr :: "lstr \<Rightarrow> nat \<Rightarrow> lu_byte \<Rightarrow> nat \<Rightarrow> nat option" where
  "memchr s pos c 0 = None"
| "memchr s pos c (Suc n) = (if s ! pos = c then Some pos else memchr s (pos + 1) c n)"

lemma memchr_bounds: "memchr s pos c n = Some i \<Longrightarrow> pos \<le> i \<and> i < pos + n"
  by (induction s pos c n rule: memchr.induct) (auto split: if_splits)

text \<open>\<open>s1\<close> is the offset where the search goes on, \<open>l1\<close> the number of positions left.\<close>

function lmem_loop :: "lstr \<Rightarrow> lstr \<Rightarrow> nat \<Rightarrow> nat \<Rightarrow> nat option" where
  "lmem_loop s s2 s1 l1 =
     (if l1 > 0 then
        (case memchr s s1 (s2 ! 0) l1 of
           None \<Rightarrow> None
         | Some i \<Rightarrow>
             let init = i + 1
             in if take (length s2 - 1) (drop init s) = drop 1 s2 then Some (init - 1)
                else lmem_loop s s2 init (l1 - (init - s1)))
      else None)"
  by pat_completeness auto
termination
  by (relation "measure (\<lambda>(s, s2, s1, l1). l1)") (auto dest: memchr_bounds)

declare lmem_loop.simps [simp del]

definition lmemfind :: "lstr \<Rightarrow> nat \<Rightarrow> lstr \<Rightarrow> nat option" where
  "lmemfind s off s2 =
     (let l1 = length s - off; l2 = length s2
      in if l2 = 0 then Some off
         else if l1 < l2 then None
         else lmem_loop s s2 off (l1 - (l2 - 1)))"

section \<open>Captures\<close>

text \<open>\<open>w\<close> is the whole match, if there is one to give as the first capture.\<close>

definition push_onecapture :: "lstr \<Rightarrow> MatchState \<Rightarrow> nat \<Rightarrow> (nat \<times> nat) option \<Rightarrow> TValue res" where
  "push_onecapture src ms i w =
     (if ms_level ms \<le> i then
        (if i = 0 then (case w of Some (s, e) \<Rightarrow> Inr (VStr (slice src s e)) | None \<Rightarrow> Inl (ErrUB ''no match''))
         else Inl (ErrRun ''invalid capture index''))
      else ebind (get_capture ms i) (\<lambda>c.
             if cap_len c = CAP_UNFINISHED then Inl (ErrRun ''unfinished capture'')
             else if cap_len c = CAP_POSITION then Inr (VInt (int (cap_init c) + 1))
             else Inr (VStr (slice src (cap_init c) (cap_init c + nat (cap_len c))))))"

definition emap :: "('a \<Rightarrow> 'b res) \<Rightarrow> 'a list \<Rightarrow> 'b list res" where
  "emap f xs = efold (\<lambda>x ys. ebind (f x) (\<lambda>y. Inr (ys @ [y]))) xs []"

definition push_captures :: "lstr \<Rightarrow> MatchState \<Rightarrow> (nat \<times> nat) option \<Rightarrow> TValue list res" where
  "push_captures src ms w =
     (let nlevels = (if ms_level ms = 0 \<and> w \<noteq> None then 1 else ms_level ms)
      in emap (\<lambda>i. push_onecapture src ms i w) [0..<nlevels])"

section \<open>Search with a pattern\<close>

abbreviation start_level :: "MatchState \<Rightarrow> MatchState" where
  "start_level ms \<equiv> ms\<lparr>ms_level := 0\<rparr>"

text \<open>The loop over the start positions: the match and its captures.\<close>

function find_loop ::
  "lstr \<Rightarrow> lstr \<Rightarrow> nat \<Rightarrow> bool \<Rightarrow> nat \<Rightarrow> MatchState \<Rightarrow> (nat \<times> nat \<times> MatchState) option res" where
  "find_loop src pat p anchor s1 ms =
     (case do_match src pat (start_level ms) s1 p of
        Inl e \<Rightarrow> Inl e
      | Inr (ms', Some e) \<Rightarrow> Inr (Some (s1, e, ms'))
      | Inr (ms', None) \<Rightarrow>
          if s1 < length src \<and> \<not> anchor then find_loop src pat p anchor (s1 + 1) ms' else Inr None)"
  by pat_completeness auto
termination
  by (relation "measure (\<lambda>(src, pat, p, anchor, s1, ms). length src - s1)") auto

declare find_loop.simps [simp del]

definition SPECIALS :: lstr where "SPECIALS = lit ''^$*+?.([%-''"

definition no_specials :: "lstr \<Rightarrow> bool" where
  "no_specials pat \<longleftrightarrow> list_all (\<lambda>c. c \<notin> set SPECIALS) (cstr pat)"

definition anchored :: "lstr \<Rightarrow> bool" where
  "anchored pat \<longleftrightarrow> char_at pat 0 = ch CHR ''^''"

definition find_init :: "lstr \<Rightarrow> int \<Rightarrow> nat" where
  "find_init s i =
     (let init = posrelat i (length s) - 1
      in if init < 0 then 0 else if int (length s) < init then length s else nat init)"

definition str_find_aux :: "bool \<Rightarrow> lstr \<Rightarrow> lstr \<Rightarrow> int \<Rightarrow> bool \<Rightarrow> TValue list res" where
  "str_find_aux is_find s p i plain =
     (let init = find_init s i
      in if is_find \<and> (plain \<or> no_specials p) then
           (case lmemfind s init p of
              Some s2 \<Rightarrow> Inr [VInt (int s2 + 1), VInt (int s2 + int (length p))]
            | None \<Rightarrow> Inr [VNil])
         else ebind (find_loop s p (if anchored p then 1 else 0) (anchored p) init new_state) (\<lambda>r.
           case r of
             None \<Rightarrow> Inr [VNil]
           | Some (s1, e, ms) \<Rightarrow>
               if is_find then ebind (push_captures s ms None) (\<lambda>vs. Inr (VInt (int s1 + 1) # VInt (int e) # vs))
               else push_captures s ms (Some (s1, e))))"

definition str_find :: "lstr \<Rightarrow> lstr \<Rightarrow> int \<Rightarrow> bool \<Rightarrow> TValue list res" where
  "str_find s p i plain = str_find_aux True s p i plain"

definition str_match :: "lstr \<Rightarrow> lstr \<Rightarrow> int \<Rightarrow> TValue list res" where
  "str_match s p i = str_find_aux False s p i False"

text \<open>One call of the iterator: the position the next one starts from and the captures.\<close>

function gmatch_loop :: "lstr \<Rightarrow> lstr \<Rightarrow> nat \<Rightarrow> MatchState \<Rightarrow> (nat \<times> TValue list) option res" where
  "gmatch_loop s p src ms =
     (if src \<le> length s then
        (case do_match s p (start_level ms) src 0 of
           Inl e \<Rightarrow> Inl e
         | Inr (ms', None) \<Rightarrow> gmatch_loop s p (src + 1) ms'
         | Inr (ms', Some e) \<Rightarrow>
             ebind (push_captures s ms' (Some (src, e))) (\<lambda>vs. Inr (Some (if e = src then e + 1 else e, vs))))
      else Inr None)"
  by pat_completeness auto
termination
  by (relation "measure (\<lambda>(s, p, src, ms). Suc (length s) - src)") auto

declare gmatch_loop.simps [simp del]

definition gmatch_aux :: "lstr \<Rightarrow> lstr \<Rightarrow> nat \<Rightarrow> (nat \<times> TValue list) option res" where
  "gmatch_aux s p start = gmatch_loop s p start new_state"

section \<open>Substitution\<close>

text \<open>The replacement string; the byte after a final escape is the terminator of the string.\<close>

function add_s :: "host \<Rightarrow> lstr \<Rightarrow> MatchState \<Rightarrow> nat \<Rightarrow> nat \<Rightarrow> lstr \<Rightarrow> nat \<Rightarrow> lstr \<Rightarrow> lstr res" where
  "add_s H src ms s e news i b =
     (if i < length news then
        (if news ! i \<noteq> L_ESC then add_s H src ms s e news (i + 1) (b @ [news ! i])
         else ebind (rd news (i + 1)) (\<lambda>c.
           if \<not> isdigit c then add_s H src ms s e news (i + 2) (b @ [c])
           else if c = ch CHR ''0'' then add_s H src ms s e news (i + 2) (b @ slice src s e)
           else ebind (push_onecapture src ms (unat c - unat (ch CHR ''1'')) (Some (s, e))) (\<lambda>v.
                case tostring H v of
                  Some x \<Rightarrow> add_s H src ms s e news (i + 2) (b @ x)
                | None \<Rightarrow> Inl (ErrUB ''luaL_addvalue''))))
      else Inr b)"
  by pat_completeness auto
termination
  by (relation "measure (\<lambda>(H, src, ms, s, e, news, i, b). length news - i)") auto

declare add_s.simps [simp del]

definition add_value ::
  "host \<Rightarrow> TValue \<Rightarrow> lstate \<Rightarrow> lstr \<Rightarrow> MatchState \<Rightarrow> nat \<Rightarrow> nat \<Rightarrow> lstr \<Rightarrow> (lstate \<times> lstr) res" where
  "add_value H repl S src ms s e b =
     (case tostring H repl of
        Some news \<Rightarrow> ebind (add_s H src ms s e news 0 b) (\<lambda>b'. Inr (S, b'))
      | None \<Rightarrow>
          ebind (if ttisfunction repl
                 then ebind (push_captures src ms (Some (s, e))) (\<lambda>vs. h_call H repl vs S)
                 else ebind (push_onecapture src ms 0 (Some (s, e))) (\<lambda>v. luaV_gettable H S repl v))
            (\<lambda>(S', v).
               if l_isfalse v then Inr (S', b @ slice src s e)
               else case tostring H v of
                      Some x \<Rightarrow> Inr (S', b @ x)
                    | None \<Rightarrow> Inl (ErrRun (''invalid replacement value (a '' @ type_name v @ '')''))))"

text \<open>The loop of \<^verbatim>\<open>str_gsub\<close>; every iteration moves forward in the subject or is the last.\<close>

primrec gsub_n ::
  "nat \<Rightarrow> host \<Rightarrow> TValue \<Rightarrow> lstr \<Rightarrow> lstr \<Rightarrow> nat \<Rightarrow> bool \<Rightarrow> int \<Rightarrow>
   lstate \<Rightarrow> MatchState \<Rightarrow> nat \<Rightarrow> int \<Rightarrow> lstr \<Rightarrow> (lstate \<times> lstr \<times> int) res" where
  "gsub_n 0 H repl src pat p anchor max_s S ms s n b = Inl ErrLoop"
| "gsub_n (Suc d) H repl src pat p anchor max_s S ms s n b =
     (if n < max_s then
        ebind (do_match src pat (start_level ms) s p) (\<lambda>(ms', r).
        ebind (case r of
                 Some e \<Rightarrow> ebind (add_value H repl S src ms' s e b) (\<lambda>(S', b'). Inr (S', b', n + 1))
               | None \<Rightarrow> Inr (S, b, n)) (\<lambda>(S', b', n').
          let stop = (\<lambda>s b. Inr (S', b @ drop s src, n'));
              goon = (\<lambda>s b. if anchor then stop s b else gsub_n d H repl src pat p anchor max_s S' ms' s n' b)
          in case r of
               Some e \<Rightarrow> if s < e then goon e b' else if s < length src then goon (s + 1) (b' @ [src ! s]) else stop s b'
             | None \<Rightarrow> if s < length src then goon (s + 1) (b' @ [src ! s]) else stop s b'))
      else Inr (S, b @ drop s src, n))"

definition str_gsub ::
  "host \<Rightarrow> lstate \<Rightarrow> lstr \<Rightarrow> lstr \<Rightarrow> TValue \<Rightarrow> int option \<Rightarrow> (lstate \<times> lstr \<times> int) res" where
  "str_gsub H S src p repl max_s =
     (let tr = ttype repl; m = (case max_s of None \<Rightarrow> int (length src) + 1 | Some k \<Rightarrow> k)
      in if \<not> (tr = 3 \<or> tr = 4 \<or> tr = 6 \<or> tr = 5)
         then Inl (ErrRun ''bad argument #3 (string/function/table expected)'')
         else gsub_n (length src + 2) H repl src p (if anchored p then 1 else 0) (anchored p) m S new_state 0 0 [])"

section \<open>The plain search finds the first occurrence\<close>

definition occurs :: "lstr \<Rightarrow> lstr \<Rightarrow> nat \<Rightarrow> bool" where
  "occurs s s2 i \<longleftrightarrow> take (length s2) (drop i s) = s2"

lemma occurs_bound: "occurs s s2 i \<Longrightarrow> s2 \<noteq> [] \<Longrightarrow> i + length s2 \<le> length s"
  by (metis occurs_def length_take length_drop min.cobounded1 le_diff_conv2 add.commute
      drop_all length_0_conv nle_le take_Nil)

lemma occurs_head:
  assumes "s2 \<noteq> []" "i < length s"
  shows "occurs s s2 i \<longleftrightarrow> s ! i = s2 ! 0 \<and> take (length s2 - 1) (drop (i + 1) s) = drop 1 s2"
  using assms by (cases s2) (auto simp: occurs_def Cons_nth_drop_Suc [symmetric])

lemma memchr_None: "memchr s pos c n = None \<Longrightarrow> pos \<le> i \<Longrightarrow> i < pos + n \<Longrightarrow> s ! i \<noteq> c"
proof (induction s pos c n rule: memchr.induct)
  case (2 s pos c n)
  then show ?case by (cases "i = pos") (auto split: if_splits)
qed simp

lemma memchr_Some: "memchr s pos c n = Some j \<Longrightarrow> s ! j = c \<and> (\<forall>i. pos \<le> i \<longrightarrow> i < j \<longrightarrow> s ! i \<noteq> c)"
proof (induction s pos c n rule: memchr.induct)
  case (2 s pos c n)
  then show ?case by (auto split: if_splits simp: le_Suc_eq) (metis le_antisym not_less_eq_eq)
qed simp

lemma lmem_loop_correct:
  assumes "s2 \<noteq> []" "s1 + l1 + (length s2 - 1) = length s"
  shows "case lmem_loop s s2 s1 l1 of
      None \<Rightarrow> \<forall>i \<ge> s1. \<not> occurs s s2 i
    | Some r \<Rightarrow> s1 \<le> r \<and> occurs s s2 r \<and> (\<forall>i. s1 \<le> i \<longrightarrow> i < r \<longrightarrow> \<not> occurs s s2 i)"
  using assms(2)
proof (induction l1 arbitrary: s1 rule: less_induct)
  case (less l1)
  have none: "i < s1 + l1" if "occurs s s2 i" for i
    using occurs_bound [OF that assms(1)] less.prems assms(1) by (cases s2) auto
  have inside: "i < length s" if "i < s1 + l1" for i using that less.prems by simp
  show ?case
  proof (cases "l1 > 0")
    case False
    then have "\<not> occurs s s2 i" if "s1 \<le> i" for i using none [of i] that by auto
    with False show ?thesis by (subst lmem_loop.simps) simp
  next
    case True
    show ?thesis
    proof (cases "memchr s s1 (s2 ! 0) l1")
      case None
      then have "\<not> occurs s s2 i" if "s1 \<le> i" for i
        using occurs_head [OF assms(1) inside] none memchr_None [OF None that] by blast
      with None True show ?thesis by (subst lmem_loop.simps) auto
    next
      case (Some j)
      note b = memchr_bounds [OF Some] and c = memchr_Some [OF Some]
      have before: "\<not> occurs s s2 i" if "s1 \<le> i" "i < j" for i
        using c that occurs_head [OF assms(1) inside] none by blast
      show ?thesis
      proof (cases "occurs s s2 j")
        case True
        with occurs_head [OF assms(1) inside] b c
        have "take (length s2 - 1) (drop (j + 1) s) = drop 1 s2" by blast
        then have "lmem_loop s s2 s1 l1 = Some j" using Some \<open>l1 > 0\<close> by (subst lmem_loop.simps) simp
        with True before b show ?thesis by simp
      next
        case False
        then have "take (length s2 - 1) (drop (j + 1) s) \<noteq> drop 1 s2"
          using occurs_head [OF assms(1) inside] b c by blast
        then have eq: "lmem_loop s s2 s1 l1 = lmem_loop s s2 (j + 1) (l1 - (j + 1 - s1))"
          using Some \<open>l1 > 0\<close> by (subst lmem_loop.simps) simp
        have upto: "\<not> occurs s s2 i" if "s1 \<le> i" "i < j + 1" for i
          using before that False by (cases "i = j") auto
        have rest: "\<not> occurs s s2 i" if "s1 \<le> i" "j + 1 \<le> i \<longrightarrow> \<not> occurs s s2 i" for i
          using upto [of i] that by (cases "j + 1 \<le> i") auto
        have "l1 - (j + 1 - s1) < l1" "j + 1 + (l1 - (j + 1 - s1)) + (length s2 - 1) = length s"
          using b less.prems by auto
        from less.IH [OF this] show ?thesis
          unfolding eq using b rest by (auto split: option.splits)
      qed
    qed
  qed
qed

lemma lmemfind_correct:
  assumes "off \<le> length s"
  shows "case lmemfind s off s2 of
      None \<Rightarrow> \<forall>i \<ge> off. \<not> occurs s s2 i
    | Some r \<Rightarrow> off \<le> r \<and> r \<le> length s \<and> occurs s s2 r \<and> (\<forall>i. off \<le> i \<longrightarrow> i < r \<longrightarrow> \<not> occurs s s2 i)"
proof (cases "s2 = []")
  case True
  with assms show ?thesis by (simp add: lmemfind_def occurs_def)
next
  case False
  show ?thesis
  proof (cases "length s - off < length s2")
    case True
    then have "\<not> occurs s s2 i" if "off \<le> i" for i using occurs_bound [OF _ False, of s i] that by auto
    with True False show ?thesis by (simp add: lmemfind_def)
  next
    case more: False
    with lmem_loop_correct [OF False, of off "length s - off - (length s2 - 1)" s] assms False
    show ?thesis by (cases s2) (auto simp: lmemfind_def Let_def split: option.splits dest: occurs_bound)
  qed
qed

section \<open>Searches end\<close>

lemma caps_ok_start: "length (ms_capture ms) = LUA_MAXCAPTURES \<Longrightarrow> caps_ok src (start_level ms) s"
  by (simp add: caps_ok_def)

lemma new_state_length [simp]: "length (ms_capture new_state) = LUA_MAXCAPTURES"
  by (simp add: new_state_def)

lemma match_post_length:
  "match_post src ms s (ms', r) \<Longrightarrow> length (ms_capture ms) = LUA_MAXCAPTURES \<Longrightarrow>
   length (ms_capture ms') = LUA_MAXCAPTURES"
  by (auto simp: match_post_def caps_ok_def split: option.splits)

lemma anchored_pos: "anchored p \<Longrightarrow> 1 \<le> length p"
  by (cases p) (auto simp: anchored_def char_at_def)

lemma push_onecapture_ends:
  assumes "caps_ok src ms s" "w \<noteq> None \<or> i < ms_level ms"
  shows "ends (push_onecapture src ms i w) (\<lambda>v. (\<exists>x. tostring H v = Some x))"
proof (cases "ms_level ms \<le> i")
  case True
  with assms(2) show ?thesis by (auto simp: push_onecapture_def tostring_def split: option.splits)
next
  case False
  then have "i < ms_level ms" by simp
  with assms(1) obtain c where "get_capture ms i = Inr c" by (rule caps_entry)
  with False show ?thesis by (auto simp: push_onecapture_def tostring_def)
qed

lemma emap_ends:
  assumes "\<And>x. x \<in> set xs \<Longrightarrow> ends (f x) P"
  shows "ends (emap f xs) (\<lambda>ys. length ys = length xs \<and> list_all P ys)"
proof -
  have "ends (efold (\<lambda>x ys. ebind (f x) (\<lambda>y. Inr (ys @ [y]))) zs ys)
      (\<lambda>r. length r = length ys + length zs \<and> list_all P r)"
    if "list_all P ys" "set zs \<subseteq> set xs" for zs ys
    using that
  proof (induction zs arbitrary: ys)
    case (Cons z zs)
    have "ends (f z) P" using Cons.prems assms by simp
    then have "ends (ebind (f z) (\<lambda>y. Inr (ys @ [y]))) (\<lambda>r. list_all P r \<and> length r = Suc (length ys))"
      by (rule ends_bind) (use Cons.prems in simp)
    then show ?case
      unfolding efold.simps
    proof (rule ends_bind)
      fix r assume "list_all P r \<and> length r = Suc (length ys)"
      then show "ends (efold (\<lambda>x ys. ebind (f x) (\<lambda>y. Inr (ys @ [y]))) zs r)
          (\<lambda>r. length r = length ys + length (z # zs) \<and> list_all P r)"
        using Cons.IH [of r] Cons.prems by simp
    qed
  qed simp
  from this [of "[]" xs] show ?thesis by (simp add: emap_def)
qed

lemma push_captures_ends:
  assumes "caps_ok src ms s"
  shows "ends (push_captures src ms w) (\<lambda>vs. list_all (\<lambda>v. \<exists>x. tostring H v = Some x) vs)"
  unfolding push_captures_def Let_def
  by (rule ends_weaken [OF emap_ends], rule push_onecapture_ends [OF assms]) (auto split: if_splits)

definition find_post :: "lstr \<Rightarrow> nat \<Rightarrow> (nat \<times> nat \<times> MatchState) option \<Rightarrow> bool" where
  "find_post src s1 r \<longleftrightarrow> (case r of None \<Rightarrow> True
     | Some (s, e, ms) \<Rightarrow> s1 \<le> s \<and> s \<le> e \<and> e \<le> length src \<and> caps_ok src ms e)"

lemma find_loop_ends:
  assumes "length src < 2 ^ 63" "p \<le> length pat" "s1 \<le> length src" "length (ms_capture ms) = LUA_MAXCAPTURES"
  shows "ends (find_loop src pat p anchor s1 ms)
    (find_post src s1)"
  using assms(3,4)
proof (induction "length src - s1" arbitrary: s1 ms rule: less_induct)
  case less
  have e: "ends (do_match src pat (start_level ms) s1 p) (match_post src (start_level ms) s1)"
    by (rule do_match_ends [OF assms(1) caps_ok_start [OF less.prems(2)] less.prems(1) assms(2)])
  show ?case
  proof (cases "do_match src pat (start_level ms) s1 p")
    case (Inl x)
    with e show ?thesis by (subst find_loop.simps) (auto simp: ends_def split: lua_error.splits)
  next
    case (Inr x)
    obtain ms' r where x: "x = (ms', r)" by fastforce
    have post: "match_post src (start_level ms) s1 (ms', r)" using e Inr x by simp
    show ?thesis
    proof (cases r)
      case (Some y)
      with Inr x post show ?thesis by (subst find_loop.simps) (simp add: match_post_def find_post_def)
    next
      case None
      have "length (ms_capture ms') = LUA_MAXCAPTURES" using match_post_length [OF post] less.prems(2) by simp
      then have "s1 < length src \<Longrightarrow> ends (find_loop src pat p anchor (s1 + 1) ms') (find_post src s1)"
        by (intro ends_weaken [OF less.hyps]) (auto simp: find_post_def split: option.splits)
      then show ?thesis by (subst find_loop.simps) (cases anchor; simp add: Inr x None find_post_def [of _ _ None])
    qed
  qed
qed

lemma find_init_le: "find_init s i \<le> length s"
  by (auto simp: find_init_def Let_def)

lemma str_find_aux_ends:
  assumes "length s < 2 ^ 63"
  shows "ends (str_find_aux is_find s p i plain) (\<lambda>vs. True)"
proof (cases "is_find \<and> (plain \<or> no_specials p)")
  case True
  then show ?thesis by (auto simp: str_find_aux_def split: option.splits)
next
  case False
  have "ends (find_loop s p (if anchored p then 1 else 0) (anchored p) (find_init s i) new_state)
    (find_post s (find_init s i))"
    by (rule find_loop_ends [OF assms _ find_init_le]) (use anchored_pos in auto)
  then show ?thesis
    unfolding str_find_aux_def Let_def if_not_P [OF False]
    by (rule ends_bind)
      (auto simp: find_post_def split: option.splits intro!: ends_bind [OF push_captures_ends] ends_weaken [OF push_captures_ends])
qed

text \<open>The iterator moves forward.\<close>

definition gmatch_post :: "lstr \<Rightarrow> nat \<Rightarrow> (nat \<times> TValue list) option \<Rightarrow> bool" where
  "gmatch_post s src r \<longleftrightarrow> (case r of None \<Rightarrow> True | Some (n, vs) \<Rightarrow> src < n \<and> n \<le> length s + 1)"

lemma gmatch_loop_ends:
  assumes "length s < 2 ^ 63" "length (ms_capture ms) = LUA_MAXCAPTURES"
  shows "ends (gmatch_loop s p src ms) (gmatch_post s src)"
  using assms(2)
proof (induction "Suc (length s) - src" arbitrary: src ms rule: less_induct)
  case less
  show ?case
  proof (cases "src \<le> length s")
    case False
    then show ?thesis by (subst gmatch_loop.simps) (simp add: gmatch_post_def)
  next
    case True
    have e: "ends (do_match s p (start_level ms) src 0) (match_post s (start_level ms) src)"
      by (rule do_match_ends [OF assms(1) caps_ok_start [OF less.prems(1)] True]) simp
    show ?thesis
    proof (cases "do_match s p (start_level ms) src 0")
      case (Inl x)
      with e True show ?thesis by (subst gmatch_loop.simps) (auto simp: ends_def split: lua_error.splits)
    next
      case (Inr x)
      obtain ms' r where x: "x = (ms', r)" by fastforce
      have post: "match_post s (start_level ms) src (ms', r)" using e Inr x by simp
      show ?thesis
      proof (cases r)
        case (Some y)
        with post have "src \<le> y" "y \<le> length s" "caps_ok s ms' y" by (simp_all add: match_post_def)
        with Inr x True Some show ?thesis
          by (subst gmatch_loop.simps) (auto simp: gmatch_post_def intro!: ends_bind [OF push_captures_ends])
      next
        case None
        have "length (ms_capture ms') = LUA_MAXCAPTURES" using match_post_length [OF post] less.prems by simp
        then have "ends (gmatch_loop s p (src + 1) ms') (gmatch_post s src)"
          using True by (intro ends_weaken [OF less.hyps]) (auto simp: gmatch_post_def split: option.splits)
        then show ?thesis by (subst gmatch_loop.simps) (simp add: Inr x None True gmatch_post_def [of _ _ None])
      qed
    qed
  qed
qed

section \<open>Substitution ends\<close>

lemma add_s_ends:
  assumes "caps_ok src ms k"
  shows "i \<le> length news + 1 \<Longrightarrow> ends (add_s H src ms s e news i b) (\<lambda>b'. True)"
proof (induction "length news - i" arbitrary: i b rule: less_induct)
  case less
  show ?case
  proof (cases "i < length news")
    case False
    then show ?thesis by (subst add_s.simps) simp
  next
    case True
    have rec: "ends (add_s H src ms s e news j b') (\<lambda>b'. True)" if "i < j" "j \<le> length news + 1" for j b'
      using less.hyps [of j b'] that True by simp
    have cap: "ends (case tostring H v of Some x \<Rightarrow> add_s H src ms s e news (i + 2) (b @ x)
          | None \<Rightarrow> Inl (ErrUB ''luaL_addvalue'')) (\<lambda>b'. True)" if "\<exists>x. tostring H v = Some x" for v
      using that rec True by auto
    show ?thesis
      by (subst add_s.simps, simp only: True if_True)
        (intro ends_if ends_bind [OF rd_endsI] ends_bind [OF push_onecapture_ends [OF assms]] cap;
          use rec True in simp)
  qed
qed

lemma gsub_n_ends:
  assumes len: "length src < 2 ^ 63" and p: "p \<le> length pat"
    and addv: "\<And>S ms s e b. I S s b \<Longrightarrow> s \<le> e \<Longrightarrow> e \<le> length src \<Longrightarrow> caps_ok src ms e \<Longrightarrow>
      ends (add_value H repl S src ms s e b) (\<lambda>(S', b'). I S' e b')"
    and char: "\<And>S s b. I S s b \<Longrightarrow> s < length src \<Longrightarrow> I S (s + 1) (b @ [src ! s])"
    and "I S s b" "s \<le> length src" "length src + 1 < s + d" "length (ms_capture ms) = LUA_MAXCAPTURES"
  shows "ends (gsub_n d H repl src pat p anchor max_s S ms s n b)
    (\<lambda>(S', b', n'). I S' (length src) b' \<and> n \<le> n' \<and> n' \<le> n + int (length src - s) + 1)"
proof -
  have rest: "I S' (length src) (b' @ drop s' src)" if "I S' s' b'" "s' \<le> length src" for S' s' b'
    using that
  proof (induction "length src - s'" arbitrary: s' b')
    case (Suc k)
    then have "s' < length src" by simp
    moreover from this have "drop s' src = src ! s' # drop (s' + 1) src" by (simp add: Cons_nth_drop_Suc)
    ultimately show ?case using Suc.hyps(1) [of "s' + 1" "b' @ [src ! s']"] Suc.hyps(2) Suc.prems char by simp
  qed simp
  show ?thesis
    using assms(5-8)
  proof (induction d arbitrary: S ms s n b)
    case (Suc d)
    let ?post = "\<lambda>(S', b', n'). I S' (length src) b' \<and> n \<le> n' \<and> n' \<le> n + int (length src - s) + 1"
    note prems = Suc.prems
    show ?case
    proof (cases "n < max_s")
      case False
      with prems rest show ?thesis by simp
    next
      case True
      have step: "ends (if anchor then Inr (S', b' @ drop s' src, n')
          else gsub_n d H repl src pat p anchor max_s S' ms' s' n' b') ?post"
        if "I S' s' b'" "s < s'" "s' \<le> length src" "length (ms_capture ms') = LUA_MAXCAPTURES"
          "n \<le> n'" "n' \<le> n + 1" for S' b' s' n' ms'
      proof (cases anchor)
        case False
        show ?thesis
          unfolding if_not_P [OF False]
          by (rule ends_weaken [OF Suc.IH [OF that(1,3) _ that(4)]]) (use that prems(2,3) in auto)
      qed (use that prems rest in auto)
      show ?thesis
        unfolding gsub_n.simps if_P [OF True] Let_def
      proof (rule ends_bind [OF do_match_ends [OF len caps_ok_start [OF prems(4)] prems(2) p]], clarify)
        fix ms' r assume post: "match_post src (start_level ms) s (ms', r)"
        have l: "length (ms_capture ms') = LUA_MAXCAPTURES" using match_post_length [OF post] prems(4) by simp
        show "ends (ebind (case r of
              None \<Rightarrow> Inr (S, b, n)
            | Some e \<Rightarrow> ebind (add_value H repl S src ms' s e b) (\<lambda>(S', b'). Inr (S', b', n + 1)))
           (\<lambda>(S', b', n').
              case r of
                None \<Rightarrow>
                  if s < length src
                  then if anchor then Inr (S', (b' @ [src ! s]) @ drop (s + 1) src, n')
                       else gsub_n d H repl src pat p anchor max_s S' ms' (s + 1) n' (b' @ [src ! s])
                  else Inr (S', b' @ drop s src, n')
              | Some e \<Rightarrow>
                  if s < e then if anchor then Inr (S', b' @ drop e src, n')
                    else gsub_n d H repl src pat p anchor max_s S' ms' e n' b'
                  else if s < length src
                  then if anchor then Inr (S', (b' @ [src ! s]) @ drop (s + 1) src, n')
                       else gsub_n d H repl src pat p anchor max_s S' ms' (s + 1) n' (b' @ [src ! s])
                  else Inr (S', b' @ drop s src, n'))) ?post"
        proof (cases r)
          case None
          then show ?thesis
            using step [of S "s + 1" "b @ [src ! s]" ms' n] prems l char rest [of S s b] by auto
        next
          case (Some e)
          with post have e: "s \<le> e" "e \<le> length src" "caps_ok src ms' e" by (simp_all add: match_post_def)
          have val: "ends (ebind (add_value H repl S src ms' s e b) (\<lambda>(S', b'). Inr (S', b', n + 1)))
              (\<lambda>(S', b', n'). I S' e b' \<and> n' = n + 1)"
            by (rule ends_bind [OF addv [OF prems(1) e]]) auto
          show ?thesis
            unfolding Some option.case
          proof (rule ends_bind [OF val], clarify)
            fix S' b' assume i: "I S' e b'"
            show "ends (if s < e then if anchor then Inr (S', b' @ drop e src, n + 1)
                    else gsub_n d H repl src pat p anchor max_s S' ms' e (n + 1) b'
                  else if s < length src
                  then if anchor then Inr (S', (b' @ [src ! s]) @ drop (s + 1) src, n + 1)
                       else gsub_n d H repl src pat p anchor max_s S' ms' (s + 1) (n + 1) (b' @ [src ! s])
                  else Inr (S', b' @ drop s src, n + 1)) ?post"
            proof (cases "s < e")
              case True
              show ?thesis unfolding if_P [OF True] by (rule step) (use i e l True in auto)
            next
              case False
              with e i have i': "I S' s b'" by simp
              show ?thesis
              proof (cases "s < length src")
                case True
                show ?thesis
                  unfolding if_not_P [OF False] if_P [OF True]
                  by (rule step) (use i' char True l in auto)
              next
                case end_: False
                with False rest [OF i'] prems show ?thesis by simp
              qed
            qed
          qed
        qed
      qed
    qed
  qed simp
qed

lemma add_s_whole:
  "add_s H src ms s e [L_ESC, ch CHR ''0''] 0 b = Inr (b @ slice src s e)"
  by (subst add_s.simps, simp add: rd_def isdigit_def, subst add_s.simps, simp)

lemma slice_append: "i \<le> j \<Longrightarrow> take i s @ slice s i j = take j s"
  by (simp add: slice_def flip: take_add)

lemma str_gsub_whole:
  assumes "length src < 2 ^ 63"
  shows "ends (str_gsub H S src p (VStr [L_ESC, ch CHR ''0'']) max_s)
    (\<lambda>(S', b, n). S' = S \<and> b = src \<and> 0 \<le> n \<and> n \<le> int (length src) + 1)"
proof -
  define I where "I = (\<lambda>S' s b. S' = S \<and> b = take s src)"
  let ?m = "case max_s of None \<Rightarrow> int (length src) + 1 | Some k \<Rightarrow> k"
  have "ends (gsub_n (length src + 2) H (VStr [L_ESC, ch CHR ''0'']) src p (if anchored p then 1 else 0)
      (anchored p) ?m S new_state 0 0 [])
    (\<lambda>(S', b', n'). I S' (length src) b' \<and> 0 \<le> n' \<and> n' \<le> 0 + int (length src - 0) + 1)"
    by (rule gsub_n_ends [OF assms, of _ _ I])
      (use anchored_pos [of p] in \<open>auto simp: I_def add_value_def tostring_def add_s_whole [simplified]
        slice_append take_Suc_conv_app_nth\<close>)
  then show ?thesis by (simp add: str_gsub_def Let_def I_def)
qed

lemma str_gsub_string_ends:
  assumes "length src < 2 ^ 63" "tostring H repl = Some news"
  shows "ends (str_gsub H S src p repl max_s) (\<lambda>(S', b, n). S' = S \<and> 0 \<le> n \<and> n \<le> int (length src) + 1)"
proof -
  define I where "I = (\<lambda>S' (s :: nat) (b :: lstr). S' = S)"
  let ?m = "case max_s of None \<Rightarrow> int (length src) + 1 | Some k \<Rightarrow> k"
  have "ends (gsub_n (length src + 2) H repl src p (if anchored p then 1 else 0)
      (anchored p) ?m S new_state 0 0 [])
    (\<lambda>(S', b', n'). I S' (length src) b' \<and> 0 \<le> n' \<and> n' \<le> 0 + int (length src - 0) + 1)"
    by (rule gsub_n_ends [OF assms(1), of _ _ I])
      (use anchored_pos [of p] assms(2) in \<open>auto simp: I_def add_value_def intro!: ends_bind [OF add_s_ends]\<close>)
  moreover have "ttype repl = 3 \<or> ttype repl = 4"
    using assms(2) by (auto simp: tostring_def split: TValue.splits GCObject.splits)
  ultimately show ?thesis by (auto simp: str_gsub_def Let_def I_def)
qed

end
