(* ===== verification/LStrLang.thy ===== *)
theory LStrLang
  imports LStrLib
begin

text \<open>
  What a pattern without captures means.  A pattern is a list of items, each a class of characters
  with a quantifier; \<open>render\<close> writes it as the string the matcher reads.  \<open>lang\<close> is the set of
  strings it describes, and \<open>choices\<close> the ends of all matches from a position in the order of
  preference of the manual: as many repetitions as possible for \<open>*\<close>, \<open>+\<close> and \<open>?\<close>, as few as
  possible for \<open>-\<close>.  The matcher returns the first of them.
\<close>

section \<open>Patterns\<close>

datatype cset_item = CChar lu_byte | CClass lu_byte | CRange lu_byte lu_byte

datatype cclass = AnyChar | OneChar lu_byte | ClassChar lu_byte | SetChar bool "cset_item list"

datatype quant = Once | Optional | Many | Some_More | Few

type_synonym pitem = "cclass \<times> quant"

definition class_letter :: "lu_byte \<Rightarrow> bool" where
  "class_letter l \<longleftrightarrow> l \<in> set (lit ''acdlpsuwxzACDLPSUWXZ'')"

fun item_ok :: "cset_item \<Rightarrow> bool" where
  "item_ok (CChar c) = (c \<noteq> 0)"
| "item_ok (CClass l) = class_letter l"
| "item_ok (CRange a b) = (isalnum a \<and> isalnum b)"

fun class_ok :: "cclass \<Rightarrow> bool" where
  "class_ok AnyChar = True"
| "class_ok (OneChar c) = (c \<noteq> 0)"
| "class_ok (ClassChar l) = class_letter l"
| "class_ok (SetChar pos is) = (is \<noteq> [] \<and> list_all item_ok is)"

definition pattern_ok :: "pitem list \<Rightarrow> bool" where
  "pattern_ok is = list_all (\<lambda>(c, q). class_ok c) is"

subsection \<open>Their text\<close>

definition quote_char :: "lu_byte \<Rightarrow> lstr" where
  "quote_char c = (if isalnum c then [c] else [L_ESC, c])"

fun render_item :: "cset_item \<Rightarrow> lstr" where
  "render_item (CChar c) = quote_char c"
| "render_item (CClass l) = [L_ESC, l]"
| "render_item (CRange a b) = [a, ch CHR ''-'', b]"

fun render_class :: "cclass \<Rightarrow> lstr" where
  "render_class AnyChar = [ch CHR ''.'']"
| "render_class (OneChar c) = quote_char c"
| "render_class (ClassChar l) = [L_ESC, l]"
| "render_class (SetChar pos is) =
     ch CHR ''['' # (if pos then [] else [ch CHR ''^'']) @ concat (map render_item is) @ [ch CHR '']'']"

fun render_quant :: "quant \<Rightarrow> lstr" where
  "render_quant Once = []"
| "render_quant Optional = [ch CHR ''?'']"
| "render_quant Many = [ch CHR ''*'']"
| "render_quant Some_More = [ch CHR ''+'']"
| "render_quant Few = [ch CHR ''-'']"

fun render :: "pitem list \<Rightarrow> lstr" where
  "render [] = []"
| "render ((c, q) # is) = render_class c @ render_quant q @ render is"

subsection \<open>Their meaning\<close>

fun in_item :: "lu_byte \<Rightarrow> cset_item \<Rightarrow> bool" where
  "in_item x (CChar c) = (x = c)"
| "in_item x (CClass l) = match_class x l"
| "in_item x (CRange a b) = (a \<le> x \<and> x \<le> b)"

fun in_class :: "cclass \<Rightarrow> lu_byte \<Rightarrow> bool" where
  "in_class AnyChar x = True"
| "in_class (OneChar c) x = (x = c)"
| "in_class (ClassChar l) x = match_class x l"
| "in_class (SetChar pos is) x = (pos = list_ex (in_item x) is)"

fun repeats :: "quant \<Rightarrow> nat \<Rightarrow> bool" where
  "repeats Once k = (k = 1)"
| "repeats Optional k = (k \<le> 1)"
| "repeats Many k = True"
| "repeats Some_More k = (1 \<le> k)"
| "repeats Few k = True"

fun lang :: "pitem list \<Rightarrow> lstr \<Rightarrow> bool" where
  "lang [] w = (w = [])"
| "lang ((c, q) # is) w =
     (\<exists>k \<in> {..length w}. repeats q k \<and> list_all (in_class c) (take k w) \<and> lang is (drop k w))"

text \<open>How often a class can be repeated from a position.\<close>

definition run :: "cclass \<Rightarrow> lstr \<Rightarrow> nat \<Rightarrow> nat" where
  "run c src s = length (takeWhile (in_class c) (drop s src))"

fun tries :: "quant \<Rightarrow> nat \<Rightarrow> nat list" where
  "tries Once n = (if 1 \<le> n then [1] else [])"
| "tries Optional n = (if 1 \<le> n then [1, 0] else [0])"
| "tries Many n = rev [0..<Suc n]"
| "tries Some_More n = rev [1..<Suc n]"
| "tries Few n = [0..<Suc n]"

fun choices :: "pitem list \<Rightarrow> lstr \<Rightarrow> nat \<Rightarrow> nat list" where
  "choices [] src s = [s]"
| "choices ((c, q) # is) src s = concat (map (\<lambda>k. choices is src (s + k)) (tries q (run c src s)))"

definition first_of :: "'a list \<Rightarrow> 'a option" where
  "first_of xs = (case xs of [] \<Rightarrow> None | x # _ \<Rightarrow> Some x)"

section \<open>The choices are the matches\<close>

lemma tries_set: "set (tries q n) = {k. k \<le> n \<and> repeats q k}"
  by (cases q) auto

lemma run_bound: "s \<le> length src \<Longrightarrow> s + run c src s \<le> length src"
  using length_takeWhile_le [of "in_class c" "drop s src"] by (simp add: run_def)

lemma run_iff:
  assumes "s + k \<le> length src"
  shows "k \<le> run c src s \<longleftrightarrow> list_all (in_class c) (take k (drop s src))"
proof
  assume k: "k \<le> run c src s"
  have "take k (takeWhile (in_class c) (drop s src)) = take k (drop s src)"
    using k by (subst takeWhile_eq_take) (simp add: min_def flip: run_def)
  then show "list_all (in_class c) (take k (drop s src))"
    by (metis in_set_takeD list_all_iff set_takeWhileD)
next
  assume a: "list_all (in_class c) (take k (drop s src))"
  have "takeWhile (in_class c) (take k (drop s src) @ drop k (drop s src)) =
      take k (drop s src) @ takeWhile (in_class c) (drop k (drop s src))"
    by (rule takeWhile_append2) (use a in \<open>auto simp: list_all_iff\<close>)
  then have "run c src s \<ge> length (take k (drop s src))" by (simp only: append_take_drop_id run_def length_append)
  then show "k \<le> run c src s" using assms by simp
qed

lemma choices_lang:
  "s \<le> length src \<Longrightarrow>
   e \<in> set (choices is src s) \<longleftrightarrow> s \<le> e \<and> e \<le> length src \<and> lang is (slice src s e)"
proof (induction "is" arbitrary: s)
  case Nil
  then show ?case by (auto simp: slice_def)
next
  case (Cons i "is")
  obtain c q where i: "i = (c, q)" by fastforce
  have part: "k \<le> run c src s \<and> e \<in> set (choices is src (s + k)) \<longleftrightarrow>
      k \<le> e - s \<and> s \<le> e \<and> e \<le> length src \<and>
      list_all (in_class c) (take k (slice src s e)) \<and> lang is (drop k (slice src s e))" (is "?l \<longleftrightarrow> ?r") for k
  proof (cases "s + k \<le> length src")
    case True
    have "drop k (slice src s e) = slice src (s + k) e" by (simp add: slice_def drop_take add.commute)
    moreover have "k \<le> e - s \<Longrightarrow> take k (slice src s e) = take k (drop s src)" by (simp add: slice_def min_def)
    ultimately show ?thesis using Cons.IH [OF True] run_iff [OF True, of c] by auto
  next
    case False
    then have "\<not> k \<le> run c src s" using run_bound [OF Cons.prems, of c] by simp
    moreover have "\<not> (k \<le> e - s \<and> s \<le> e \<and> e \<le> length src)" using False by auto
    ultimately show ?thesis by blast
  qed
  have "e \<in> set (choices (i # is) src s) \<longleftrightarrow>
      (\<exists>k. repeats q k \<and> (k \<le> run c src s \<and> e \<in> set (choices is src (s + k))))"
    by (auto simp: i tries_set)
  also have "\<dots> \<longleftrightarrow> (\<exists>k. repeats q k \<and> k \<le> e - s \<and> s \<le> e \<and> e \<le> length src \<and>
      list_all (in_class c) (take k (slice src s e)) \<and> lang is (drop k (slice src s e)))"
    by (simp only: part)
  also have "\<dots> \<longleftrightarrow> s \<le> e \<and> e \<le> length src \<and> lang (i # is) (slice src s e)"
    by (auto simp: i slice_def)
  finally show ?case .
qed

section \<open>Reading a rendered pattern\<close>

lemma rd_drop: "drop p pat = c # t \<Longrightarrow> rd pat p = Inr c"
  by (cases "p < length pat") (auto simp: rd_def Cons_nth_drop_Suc [symmetric])

lemma drop_next: "drop p pat = c # t \<Longrightarrow> drop (Suc p) pat = t"
  by (metis drop_Suc list.sel(3) tl_drop)

lemma drop_app: "drop p pat = xs @ t \<Longrightarrow> drop (p + length xs) pat = t"
  by (metis add.commute append_eq_conv_conj drop_drop)

lemmas rd_next2 = rd_drop rd_drop [OF drop_next]
lemmas rd_next = rd_drop rd_drop [OF drop_next] rd_drop [OF drop_next [OF drop_next]]

lemma alnum_plain:
  assumes "isalnum c"
  shows "c \<noteq> 0" "c \<noteq> 0x25" "c \<noteq> 0x5B" "c \<noteq> 0x5D" "c \<noteq> 0x2D" "c \<noteq> 0x5E" "c \<noteq> 0x2E" "c \<noteq> 0x28" "c \<noteq> 0x29"
    "c \<noteq> 0x24" "c \<noteq> 0x3F" "c \<noteq> 0x2A" "c \<noteq> 0x2B"
  using assms by (auto simp: ctype_defs)

lemma render_item_first:
  "item_ok i \<Longrightarrow> \<exists>c t. render_item i = c # t \<and> c \<noteq> 0x5D \<and> c \<noteq> 0x2D \<and> c \<noteq> 0x5E \<and> c \<noteq> 0"
  by (cases i) (auto simp: quote_char_def dest: alnum_plain)

lemma class_letter_facts:
  assumes "class_letter l"
  shows "l \<noteq> 0" "isalpha l" "l \<noteq> 0x62" "l \<noteq> 0x66" "\<not> isdigit l"
  using assms by (auto simp: class_letter_def lit_def ctype_defs)

lemma bracket_end_plain:
  assumes "drop p pat = c # d # t" "c \<noteq> 0" "c \<noteq> L_ESC"
  shows "bracket_end pat p = (if d = ch CHR '']'' then Inr (p + 2) else bracket_end pat (p + 1))"
  using assms by (subst bracket_end.simps) (simp add: rd_next2 [OF assms(1)])

lemma bracket_end_esc:
  assumes "drop p pat = L_ESC # c # d # t" "c \<noteq> 0"
  shows "bracket_end pat p = (if d = ch CHR '']'' then Inr (p + 3) else bracket_end pat (p + 2))"
  using assms(2) by (subst bracket_end.simps) (simp add: rd_next [OF assms(1)])

lemma bracket_end_item:
  assumes "item_ok i" "drop p pat = render_item i @ d # t"
  shows "bracket_end pat p =
    (if d = ch CHR '']'' then Inr (p + length (render_item i) + 1) else bracket_end pat (p + length (render_item i)))"
proof (cases i)
  case (CChar c)
  show ?thesis
  proof (cases "isalnum c")
    case True
    with assms CChar alnum_plain [OF True] bracket_end_plain [of p pat c d t] show ?thesis
      by (simp add: quote_char_def)
  next
    case False
    with assms CChar bracket_end_esc [of p pat c d t] show ?thesis by (simp add: quote_char_def)
  qed
next
  case (CClass l)
  with assms class_letter_facts(1) [of l] bracket_end_esc [of p pat l d t] show ?thesis by simp
next
  case (CRange a b)
  with assms have ab: "isalnum a" "isalnum b" and r: "drop p pat = a # ch CHR ''-'' # b # d # t" by simp_all
  have "bracket_end pat p = bracket_end pat (p + 1)"
    using bracket_end_plain [OF r] alnum_plain [OF ab(1)] by simp
  also have "\<dots> = bracket_end pat (p + 2)"
    using bracket_end_plain [OF drop_next [OF r]] alnum_plain [OF ab(2)] by simp
  also have "\<dots> = (if d = ch CHR '']'' then Inr (p + 4) else bracket_end pat (p + 3))"
    using bracket_end_plain [OF drop_next [OF drop_next [OF r]]] alnum_plain [OF ab(2)] by (simp add: eval_nat_numeral)
  finally show ?thesis using CRange by (simp add: numeral_3_eq_3)
qed

lemma bracket_end_items:
  assumes "is \<noteq> []" "list_all item_ok is"
    and "drop p pat = concat (map render_item is) @ ch CHR '']'' # t"
  shows "bracket_end pat p = Inr (p + length (concat (map render_item is)) + 1)"
  using assms
proof (induction "is" arbitrary: p rule: list_nonempty_induct)
  case (single i)
  then show ?case using bracket_end_item [of i p pat "ch CHR '']''" t] by simp
next
  case (cons i "is")
  from cons.hyps cons.prems obtain j js where js: "is = j # js" "item_ok j" by (cases "is") auto
  from render_item_first [OF js(2)] obtain d u where d: "render_item j = d # u" "d \<noteq> 0x5D" by metis
  have r: "drop p pat = render_item i @ d # (u @ concat (map render_item js) @ ch CHR '']'' # t)"
    using cons.prems js d by simp
  have "bracket_end pat p = bracket_end pat (p + length (render_item i))"
    using bracket_end_item [OF _ r] cons.prems d by simp
  also have "\<dots> = Inr (p + length (render_item i) + length (concat (map render_item is)) + 1)"
    by (rule cons.IH) (use cons.prems drop_app [of p pat "render_item i"] in \<open>auto\<close>)
  finally show ?case by simp
qed

lemma match_class_other:
  assumes "\<not> isalpha cl"
  shows "match_class c cl \<longleftrightarrow> c = cl"
proof -
  have "tolower cl = cl" using assms by (simp add: tolower_def isalpha_def)
  moreover have "cl \<noteq> l" if "isalpha l" for l using assms that by blast
  then have "cl \<notin> {0x61, 0x63, 0x64, 0x6C, 0x70, 0x73, 0x75, 0x77, 0x78, 0x7A}"
    by (auto simp: isalpha_def islower_def)
  ultimately show ?thesis by (auto simp: match_class_def)
qed

lemma bracket_loop_item:
  assumes "item_ok i" "drop p pat = render_item i @ d # t" "d \<noteq> ch CHR ''-''" "p + length (render_item i) \<le> ec"
  shows "bracket_loop x pat sig p ec =
    (if in_item x i then Inr sig else bracket_loop x pat sig (p + length (render_item i)) ec)"
proof (cases i)
  case (CChar c)
  show ?thesis
  proof (cases "isalnum c")
    case True
    with assms CChar have r: "drop p pat = c # d # t" and "p < ec" by (simp_all add: quote_char_def)
    then show ?thesis using CChar True assms(3) alnum_plain [OF True]
      by (subst bracket_loop.simps) (auto simp: rd_next2 [OF r] quote_char_def)
  next
    case False
    with assms CChar have r: "drop p pat = L_ESC # c # d # t" and "p < ec" by (simp_all add: quote_char_def)
    moreover have "match_class x c = (x = c)"
      using False match_class_other [of c x] by (simp add: isalnum_def)
    ultimately show ?thesis using CChar False
      by (subst bracket_loop.simps) (auto simp: rd_next [OF r] quote_char_def)
  qed
next
  case (CClass l)
  with assms have r: "drop p pat = L_ESC # l # d # t" and "p < ec" by simp_all
  then show ?thesis using CClass by (subst bracket_loop.simps) (auto simp: rd_next [OF r])
next
  case (CRange a b)
  with assms have ab: "isalnum a" "isalnum b" and r: "drop p pat = a # ch CHR ''-'' # b # d # t" and "p + 2 < ec"
    by simp_all
  then show ?thesis using CRange alnum_plain [OF ab(1)]
    by (subst bracket_loop.simps) (auto simp: rd_next [OF r] numeral_3_eq_3)
qed

lemma bracket_loop_items:
  assumes "list_all item_ok is"
    and "drop p pat = concat (map render_item is) @ ch CHR '']'' # t" "ec = p + length (concat (map render_item is))"
  shows "bracket_loop x pat sig p ec = Inr (if list_ex (in_item x) is then sig else \<not> sig)"
  using assms
proof (induction "is" arbitrary: p)
  case Nil
  then show ?case by (subst bracket_loop.simps) simp
next
  case (Cons i "is")
  have "\<exists>d u. concat (map render_item is) @ ch CHR '']'' # t = d # u \<and> d \<noteq> ch CHR ''-''"
  proof (cases "is")
    case (Cons j js)
    with Cons.prems have "item_ok j" by simp
    from render_item_first [OF this] obtain c u where "render_item j = c # u" "c \<noteq> 0x2D" by blast
    with Cons show ?thesis by simp
  qed simp
  then obtain d u where d: "concat (map render_item is) @ ch CHR '']'' # t = d # u" "d \<noteq> ch CHR ''-''" by blast
  have r: "drop p pat = render_item i @ d # u" using Cons.prems(2) d(1) by simp
  have "bracket_loop x pat sig (p + length (render_item i)) ec =
      Inr (if list_ex (in_item x) is then sig else \<not> sig)"
    by (rule Cons.IH) (use Cons.prems drop_app [of p pat "render_item i"] in auto)
  with bracket_loop_item [OF _ r d(2), of ec x sig] Cons.prems show ?case by simp
qed

lemma classend_class:
  assumes "class_ok c" "drop p pat = render_class c @ t"
  shows "classend pat p = Inr (p + length (render_class c))"
proof (cases c)
  case AnyChar
  with assms rd_drop [of p pat] show ?thesis by (simp add: classend_def)
next
  case (OneChar x)
  show ?thesis
  proof (cases "isalnum x")
    case True
    with assms OneChar rd_drop [of p pat x t] alnum_plain [OF True] show ?thesis
      by (simp add: classend_def quote_char_def)
  next
    case False
    with assms OneChar have d: "drop p pat = L_ESC # x # t" and "x \<noteq> 0" by (simp_all add: quote_char_def)
    with OneChar False rd_next2 [OF d] show ?thesis by (simp add: classend_def quote_char_def)
  qed
next
  case (ClassChar l)
  with assms have d: "drop p pat = L_ESC # l # t" by simp
  with assms ClassChar rd_next2 [OF d] class_letter_facts(1) [of l] show ?thesis by (simp add: classend_def)
next
  case (SetChar pos "is")
  with assms have ok: "is \<noteq> []" "list_all item_ok is" by simp_all
  then obtain i js where "is = i # js" "item_ok i" by (cases "is") auto
  with render_item_first obtain a u where a: "concat (map render_item is) = a # u" "a \<noteq> 0x5E" by fastforce
  let ?b = "concat (map render_item is) @ ch CHR '']'' # t"
  show ?thesis
  proof (cases pos)
    case True
    with assms SetChar have d: "drop p pat = ch CHR ''['' # ?b" by simp
    with a have r: "rd pat (Suc p) = Inr a" using rd_next2(2) [of p pat "ch CHR ''[''" a] by simp
    from bracket_end_items [OF ok drop_next [OF d]] a(2) r rd_drop [OF d] True SetChar
    show ?thesis by (simp add: classend_def)
  next
    case False
    with assms SetChar have d: "drop p pat = ch CHR ''['' # ch CHR ''^'' # ?b" by simp
    from bracket_end_items [OF ok drop_next [OF drop_next [OF d]]] rd_next2 [OF d] False SetChar
    show ?thesis by (simp add: classend_def)
  qed
qed

lemma singlematch_class:
  assumes "class_ok c" "drop p pat = render_class c @ t"
  shows "singlematch x pat p (p + length (render_class c)) = Inr (in_class c x)"
proof (cases c)
  case AnyChar
  with assms rd_drop [of p pat] show ?thesis by (simp add: singlematch_def)
next
  case (OneChar y)
  show ?thesis
  proof (cases "isalnum y")
    case True
    with assms OneChar rd_drop [of p pat y t] alnum_plain [OF True] show ?thesis
      by (auto simp: singlematch_def quote_char_def)
  next
    case False
    with assms OneChar have d: "drop p pat = L_ESC # y # t" by (simp add: quote_char_def)
    with OneChar False rd_next2 [OF d] match_class_other [of y x] show ?thesis
      by (simp add: singlematch_def isalnum_def)
  qed
next
  case (ClassChar l)
  with assms have d: "drop p pat = L_ESC # l # t" by simp
  with ClassChar rd_next2 [OF d] show ?thesis by (simp add: singlematch_def)
next
  case (SetChar pos "is")
  with assms have ok: "is \<noteq> []" "list_all item_ok is" by simp_all
  then obtain i js where "is = i # js" "item_ok i" by (cases "is") auto
  with render_item_first obtain a u where a: "concat (map render_item is) = a # u" "a \<noteq> 0x5E" by fastforce
  let ?b = "concat (map render_item is) @ ch CHR '']'' # t"
  show ?thesis
  proof (cases pos)
    case True
    with assms SetChar have d: "drop p pat = ch CHR ''['' # ?b" by simp
    with a have r: "rd pat (Suc p) = Inr a" using rd_next2(2) [of p pat "ch CHR ''[''" a] by simp
    from bracket_loop_items [OF ok(2) drop_next [OF d] refl, where x = x and sig = True] a(2) r rd_drop [OF d] True SetChar
    show ?thesis by (simp add: singlematch_def matchbracketclass_def)
  next
    case False
    with assms SetChar have d: "drop p pat = ch CHR ''['' # ch CHR ''^'' # ?b" by simp
    from bracket_loop_items [OF ok(2) drop_next [OF drop_next [OF d]] refl, where x = x and sig = False] rd_next2 [OF d] False SetChar
    show ?thesis by (simp add: singlematch_def matchbracketclass_def)
  qed
qed

lemma class_first:
  assumes "class_ok c"
  shows "\<exists>a t. render_class c = a # t \<and> a \<noteq> 0 \<and>
    (a = ch CHR ''.'' \<or> a = ch CHR ''['' \<or> isalnum a \<or>
     a = L_ESC \<and> (\<exists>b. t = [b] \<and> b \<noteq> ch CHR ''b'' \<and> b \<noteq> ch CHR ''f'' \<and> \<not> isdigit b))"
proof (cases c)
  case (OneChar x)
  then show ?thesis using alnum_plain(1) [of x]
    by (auto simp: quote_char_def isalnum_def isalpha_def islower_def)
next
  case (ClassChar l)
  with assms class_letter_facts [of l] show ?thesis by simp
qed simp_all

lemma match_body_class:
  assumes "class_ok c" "drop p pat = render_class c @ t"
  shows "match_body m src pat ms s p = match_item m src pat ms s p"
proof -
  from class_first [OF assms(1)] obtain a u where a: "render_class c = a # u" "a \<noteq> 0"
    "a = ch CHR ''.'' \<or> a = ch CHR ''['' \<or> isalnum a \<or>
     a = L_ESC \<and> (\<exists>b. u = [b] \<and> b \<noteq> ch CHR ''b'' \<and> b \<noteq> ch CHR ''f'' \<and> \<not> isdigit b)" by blast
  then have r: "rd pat p = Inr a" using rd_drop [of p pat a] assms(2) by simp
  consider "a = ch CHR ''.''" | "a = ch CHR ''[''" | "isalnum a"
    | b where "a = L_ESC" "u = [b]" "b \<noteq> ch CHR ''b''" "b \<noteq> ch CHR ''f''" "\<not> isdigit b"
    using a(3) by blast
  then show ?thesis
  proof cases
    case 3
    with alnum_plain [OF 3] r a(2) show ?thesis by (simp add: match_body_def)
  next
    case 4
    with assms(2) a(1) have "rd pat (Suc p) = Inr b" using rd_next2(2) [of p pat L_ESC b] by simp
    with 4 r show ?thesis by (simp add: match_body_def)
  qed (simp_all add: match_body_def r)
qed

section \<open>Repetition\<close>

lemma first_of_append: "first_of (xs @ ys) = (case first_of xs of None \<Rightarrow> first_of ys | Some x \<Rightarrow> Some x)"
  by (cases xs) (simp_all add: first_of_def)

lemma first_of_simps [simp]: "first_of [] = None" "first_of (x # xs) = Some x"
  by (simp_all add: first_of_def)

lemma run_rec: "run c src s = (if s < length src \<and> in_class c (src ! s) then Suc (run c src (s + 1)) else 0)"
  by (cases "s < length src") (auto simp: run_def simp flip: Cons_nth_drop_Suc)

lemma or_else_Inr: "or_else (Inr (ms, r)) f = (case r of Some e \<Rightarrow> Inr (ms, Some e) | None \<Rightarrow> f ms)"
  by (simp add: or_else_def)

lemma max_count_class:
  assumes "class_ok c" "drop p pat = render_class c @ t"
  shows "max_count src pat s p (p + length (render_class c)) = Inr (run c src s)"
proof (induction "length src - s" arbitrary: s rule: less_induct)
  case less
  have "s < length src \<Longrightarrow> max_count src pat (s + 1) p (p + length (render_class c)) = Inr (run c src (s + 1))"
    by (rule less.hyps) simp
  then show ?case
    by (subst max_count.simps, subst run_rec) (simp add: singlematch_class [OF assms])
qed

lemma max_try_choices:
  assumes "\<And>k. k \<le> i \<Longrightarrow> m ms (s + k) q = Inr (ms, first_of (f (s + k)))"
  shows "max_try m ms s q i = Inr (ms, first_of (concat (map (\<lambda>k. f (s + k)) (rev [0..<Suc i]))))"
  using assms
proof (induction i)
  case 0
  then show ?case using 0 [of 0] by simp
next
  case (Suc i)
  have "max_try m ms s q i = Inr (ms, first_of (concat (map (\<lambda>k. f (s + k)) (rev [0..<Suc i]))))"
    by (rule Suc.IH) (use Suc.prems in simp)
  with Suc.prems [of "Suc i"] show ?case
    by (simp add: or_else_Inr first_of_append split: option.splits)
qed

lemma min_expand_choices:
  assumes c: "class_ok c" "drop p pat = render_class c @ t"
    and ep: "ep = p + length (render_class c)"
  shows "(\<And>k. k \<le> run c src s \<Longrightarrow> m ms (s + k) (ep + 1) = Inr (ms, first_of (f (s + k)))) \<Longrightarrow>
    min_expand m src pat ms s p ep = Inr (ms, first_of (concat (map (\<lambda>k. f (s + k)) [0..<Suc (run c src s)])))"
proof (induction "length src - s" arbitrary: s rule: less_induct)
  case less
  have m0: "m ms s (ep + 1) = Inr (ms, first_of (f s))" using less.prems [of 0] by simp
  show ?case
  proof (cases "s < length src \<and> in_class c (src ! s)")
    case False
    then have "run c src s = 0" by (subst run_rec) simp
    with m0 False show ?thesis
      by (subst min_expand.simps) (auto simp: ep singlematch_class [OF c] split: option.splits)
  next
    case True
    then have r: "run c src s = Suc (run c src (s + 1))" by (subst run_rec) simp
    have rec: "min_expand m src pat ms (s + 1) p ep =
        Inr (ms, first_of (concat (map (\<lambda>k. f (s + 1 + k)) [0..<Suc (run c src (s + 1))])))"
    proof (rule less.hyps)
      show "length src - (s + 1) < length src - s" using True by (simp add: diff_less_mono2)
      fix k assume "k \<le> run c src (s + 1)"
      then show "m ms (s + 1 + k) (ep + 1) = Inr (ms, first_of (f (s + 1 + k)))"
        using less.prems [of "Suc k"] r by simp
    qed
    have "[0..<Suc (run c src s)] = 0 # map Suc [0..<Suc (run c src (s + 1))]"
      unfolding r by (subst map_Suc_upt) (simp add: upt_conv_Cons)
    then have "first_of (concat (map (\<lambda>k. f (s + k)) [0..<Suc (run c src s)])) =
        (case first_of (f s) of None \<Rightarrow> first_of (concat (map (\<lambda>k. f (s + 1 + k)) [0..<Suc (run c src (s + 1))]))
         | Some x \<Rightarrow> Some x)"
      by (simp add: first_of_append comp_def del: upt_Suc split: option.split)
    then show ?thesis
      using m0 rec True
      by (subst min_expand.simps) (auto simp: ep singlematch_class [OF c] split: option.splits simp del: upt_Suc)
  qed
qed

section \<open>The matcher returns the first choice\<close>

lemma render_after_quant:
  assumes "pattern_ok is" "drop p pat = render is" "p \<le> length pat"
  obtains b where "rd pat p = Inr b" "b \<noteq> ch CHR ''?''" "b \<noteq> ch CHR ''*''" "b \<noteq> ch CHR ''+''" "b \<noteq> ch CHR ''-''"
proof (cases "is")
  case Nil
  with assms have "rd pat p = Inr 0" by (simp add: rd_def)
  then show ?thesis by (rule that) simp_all
next
  case (Cons i js)
  obtain c q where i: "i = (c, q)" by fastforce
  with Cons assms have "class_ok c" by (simp add: pattern_ok_def)
  from class_first [OF this] obtain a u where a: "render_class c = a # u"
    "a = ch CHR ''.'' \<or> a = ch CHR ''['' \<or> isalnum a \<or> a = L_ESC" by blast
  have "rd pat p = Inr a" by (rule rd_drop) (use assms(2) Cons i a(1) in simp)
  then show ?thesis by (rule that) (use a(2) alnum_plain [of a] in auto)
qed

lemma match_n_choices:
  "pattern_ok is \<Longrightarrow> drop p pat = render is \<Longrightarrow> p \<le> length pat \<Longrightarrow> s \<le> length src \<Longrightarrow> length pat < d + p \<Longrightarrow>
   match_n d src pat ms s p = Inr (ms, first_of (choices is src s))"
proof (induction "is" arbitrary: p s d)
  case Nil
  then have "rd pat p = Inr 0" by (simp add: rd_def)
  with Nil show ?case by (cases d) (simp_all add: match_body_def)
next
  case (Cons i "is")
  obtain c q where i: "i = (c, q)" by fastforce
  with Cons.prems have c: "class_ok c" and ok: "pattern_ok is" by (simp_all add: pattern_ok_def)
  define ep where "ep = p + length (render_class c)"
  define t where "t = render_quant q @ render is"
  have dp: "drop p pat = render_class c @ t" using Cons.prems(2) i by (simp add: t_def)
  from class_first [OF c] have ne: "p < ep" by (auto simp: ep_def)
  have de: "drop ep pat = t" using drop_app [OF dp] by (simp add: ep_def)
  have len: "p < length pat" using dp class_first [OF c] by (cases "p < length pat") auto
  have epl: "ep + length t = length pat"
    using arg_cong [OF dp, of length] len by (simp add: ep_def)
  from Cons.prems(5) len obtain d' where d: "d = Suc d'" by (cases d) auto
  define m where "m = match_n d' src pat"
  have body: "match_n d src pat ms s p = match_item m src pat ms s p"
    using match_body_class [OF c dp] by (simp add: d m_def)
  have single: "singlematch x pat p ep = Inr (in_class c x)" for x
    unfolding ep_def by (rule singlematch_class [OF c dp])
  have cend: "classend pat p = Inr ep" unfolding ep_def by (rule classend_class [OF c dp])
  have quant: "rd pat ep = Inr b \<and> (m ms s' (ep + 1) = Inr (ms, first_of (choices is src s')))"
    if "render_quant q = [b]" "s' \<le> length src" for b s'
  proof
    have d1: "drop ep pat = b # render is" using de that by (simp add: t_def)
    show "rd pat ep = Inr b" using rd_drop [OF d1] .
    show "m ms s' (ep + 1) = Inr (ms, first_of (choices is src s'))"
      unfolding m_def
      by (rule Cons.IH [OF ok]) (use drop_next [OF d1] epl that ne Cons.prems(5) d in \<open>auto simp: t_def\<close>)
  qed
  have once: "m ms s' ep = Inr (ms, first_of (choices is src s'))" if "q = Once" "s' \<le> length src" for s'
    unfolding m_def
    by (rule Cons.IH [OF ok]) (use de epl that ne Cons.prems(5) d in \<open>auto simp: t_def\<close>)
  have cond: "(if s < length src then singlematch (src ! s) pat p ep else Inr False) =
      Inr (0 < run c src s)"
    by (simp add: single) (subst run_rec, simp)+
  have maxc: "max_count src pat s' p ep = Inr (run c src s')" for s'
    unfolding ep_def by (rule max_count_class [OF c dp])
  have in_run: "s + k \<le> length src" if "k \<le> run c src s" for k
    using run_bound [OF Cons.prems(4), of c] that by simp
  have item: "match_item m src pat ms s p = Inr (ms, first_of (choices ((c, q) # is) src s))"
  proof (cases q)
    case Once
    obtain b where "rd pat ep = Inr b" "b \<noteq> ch CHR ''?''" "b \<noteq> ch CHR ''*''" "b \<noteq> ch CHR ''+''" "b \<noteq> ch CHR ''-''"
      by (rule render_after_quant [OF ok]) (use de epl Once t_def in auto)
    with once [OF Once, of "s + 1"] in_run [of 1] Once show ?thesis
      unfolding match_item_def cend cond ebind_simps by (auto simp: not_less)
  next
    case Optional
    have q0: "rd pat ep = Inr (ch CHR ''?'')" "m ms s (ep + 1) = Inr (ms, first_of (choices is src s))"
      using quant [of "ch CHR ''?''" s] Optional Cons.prems(4) by simp_all
    have q1: "0 < run c src s \<Longrightarrow> m ms (s + 1) (ep + 1) = Inr (ms, first_of (choices is src (s + 1)))"
      using quant [of "ch CHR ''?''" "s + 1"] Optional in_run [of 1] by simp
    show ?thesis
      unfolding match_item_def cend cond ebind_simps q0(1)
      using q0(2) q1 Optional by (auto simp: or_else_Inr first_of_append not_less split: option.splits)
  next
    case Many
    have q0: "rd pat ep = Inr (ch CHR ''*'')" using quant [of "ch CHR ''*''" s] Many Cons.prems(4) by simp
    have "max_try m ms s (ep + 1) (run c src s) =
        Inr (ms, first_of (concat (map (\<lambda>k. choices is src (s + k)) (rev [0..<Suc (run c src s)]))))"
      by (rule max_try_choices) (use quant [of "ch CHR ''*''"] Many in_run in simp)
    then show ?thesis
      unfolding match_item_def cend cond ebind_simps q0 max_expand_def maxc using Many by simp
  next
    case Some_More
    have q0: "rd pat ep = Inr (ch CHR ''+'')" using quant [of "ch CHR ''+''" s] Some_More Cons.prems(4) by simp
    show ?thesis
    proof (cases "run c src s")
      case 0
      then show ?thesis
        unfolding match_item_def cend cond ebind_simps q0 using Some_More by simp
    next
      case (Suc n)
      then have n: "run c src (s + 1) = n" by (subst (asm) run_rec) (simp split: if_splits)
      have "max_try m ms (s + 1) (ep + 1) n =
          Inr (ms, first_of (concat (map (\<lambda>k. choices is src (s + 1 + k)) (rev [0..<Suc n]))))"
      proof (rule max_try_choices)
        fix k assume "k \<le> n"
        then show "m ms (s + 1 + k) (ep + 1) = Inr (ms, first_of (choices is src (s + 1 + k)))"
          using quant [of "ch CHR ''+''" "s + 1 + k"] in_run [of "Suc k"] Some_More Suc by simp
      qed
      moreover have "[1..<Suc (Suc n)] = map Suc [0..<Suc n]" by (subst map_Suc_upt) simp
      ultimately show ?thesis
        unfolding match_item_def cend cond ebind_simps q0 max_expand_def maxc n
        using Some_More Suc by (simp add: rev_map comp_def del: upt_Suc)
    qed
  next
    case Few
    have q0: "rd pat ep = Inr (ch CHR ''-'')" using quant [of "ch CHR ''-''" s] Few Cons.prems(4) by simp
    have "min_expand m src pat ms s p ep =
        Inr (ms, first_of (concat (map (\<lambda>k. choices is src (s + k)) [0..<Suc (run c src s)])))"
      by (rule min_expand_choices [OF c dp ep_def]) (use quant [of "ch CHR ''-''"] Few in_run in simp)
    then show ?thesis
      unfolding match_item_def cend cond ebind_simps q0 using Few by simp
  qed
  with body i show ?case by simp
qed

lemma do_match_choices:
  "pattern_ok is \<Longrightarrow> s \<le> length src \<Longrightarrow>
   do_match src (render is) ms s 0 = Inr (ms, first_of (choices is src s))"
  unfolding do_match_def by (rule match_n_choices) simp_all

section \<open>Searching for a pattern\<close>

definition no_match :: "pitem list \<Rightarrow> lstr \<Rightarrow> nat \<Rightarrow> bool" where
  "no_match is s j \<longleftrightarrow> choices is s j = []"

lemma no_match_iff:
  "j \<le> length s \<Longrightarrow> no_match is s j \<longleftrightarrow> (\<forall>e. j \<le> e \<longrightarrow> e \<le> length s \<longrightarrow> \<not> lang is (slice s j e))"
  using choices_lang [of j s _ "is"] by (auto simp: no_match_def) (metis list.set_intros(1) neq_Nil_conv)

lemma first_of_None [simp]: "first_of xs = None \<longleftrightarrow> xs = []"
  by (cases xs) simp_all

text \<open>The first position with a match, and the end of the preferred match there.\<close>

definition leftmost :: "pitem list \<Rightarrow> lstr \<Rightarrow> nat \<Rightarrow> (nat \<times> nat) option \<Rightarrow> bool" where
  "leftmost is s s1 r \<longleftrightarrow> (case r of
       None \<Rightarrow> \<forall>j. s1 \<le> j \<longrightarrow> j \<le> length s \<longrightarrow> no_match is s j
     | Some (j, e) \<Rightarrow> s1 \<le> j \<and> j \<le> length s \<and> first_of (choices is s j) = Some e \<and>
         (\<forall>j'. s1 \<le> j' \<longrightarrow> j' < j \<longrightarrow> no_match is s j'))"

lemma leftmost_step:
  assumes "no_match is s s1" "leftmost is s (s1 + 1) r"
  shows "leftmost is s s1 r"
proof -
  have "no_match is s j" if "s1 \<le> j" "s1 + 1 \<le> j \<longrightarrow> no_match is s j" for j
    using assms(1) that by (cases "j = s1") auto
  with assms(2) show ?thesis by (cases r) (auto simp: leftmost_def)
qed

lemma find_loop_choices:
  assumes "pattern_ok is"
  shows "s1 \<le> length s \<Longrightarrow>
    \<exists>r. find_loop s (render is) 0 False s1 ms = Inr r \<and>
      leftmost is s s1 (map_option (\<lambda>(j, e, ms). (j, e)) r) \<and>
      (\<forall>j e ms'. r = Some (j, e, ms') \<longrightarrow> ms_level ms' = 0)"
proof (induction "length s - s1" arbitrary: s1 ms rule: less_induct)
  case less
  note m = do_match_choices [OF assms less.prems, of "start_level ms"]
  show ?case
  proof (cases "choices is s s1")
    case (Cons e es)
    then show ?thesis using m less.prems by (subst find_loop.simps) (auto simp: leftmost_def)
  next
    case Nil
    then have n: "no_match is s s1" by (simp add: no_match_def)
    show ?thesis
    proof (cases "s1 < length s")
      case True
      then have "length s - (s1 + 1) < length s - s1" "s1 + 1 \<le> length s" by simp_all
      from less.hyps [OF this, of "start_level ms"]
      obtain r where r: "find_loop s (render is) 0 False (s1 + 1) (start_level ms) = Inr r"
        "leftmost is s (s1 + 1) (map_option (\<lambda>(j, e, ms). (j, e)) r)"
        "\<forall>j e ms'. r = Some (j, e, ms') \<longrightarrow> ms_level ms' = 0" by blast
      have "find_loop s (render is) 0 False s1 ms = Inr r"
        using m Nil True r(1) by (subst find_loop.simps) simp
      with r leftmost_step [OF n] show ?thesis by blast
    next
      case False
      then have "find_loop s (render is) 0 False s1 ms = Inr None"
        using m Nil by (subst find_loop.simps) simp
      moreover have "leftmost is s s1 None" using n False less.prems by (auto simp: leftmost_def)
      ultimately show ?thesis by auto
    qed
  qed
qed

text \<open>A pattern without special characters is a plain string, and means that string.\<close>

lemma render_nonzero: "pattern_ok is \<Longrightarrow> 0 \<notin> set (render is)"
proof (induction "is" rule: render.induct)
  case (2 c q "is")
  have item: "0 \<notin> set (render_item i)" if "item_ok i" for i
    using that class_letter_facts(1) alnum_plain(1) by (cases i) (auto simp: quote_char_def)
  have "0 \<notin> set (render_class c)"
    using 2 item class_letter_facts(1) by (cases c) (auto simp: pattern_ok_def quote_char_def list_all_iff)
  moreover have "0 \<notin> set (render_quant q)" by (cases q) simp_all
  ultimately show ?case using 2 by (simp add: pattern_ok_def)
qed simp

lemma cstr_whole: "0 \<notin> set s \<Longrightarrow> cstr s = s"
  by (auto simp: cstr_def takeWhile_eq_all_conv)

lemma run_OneChar: "run (OneChar x) src s = (if s < length src \<and> src ! s = x then Suc (run (OneChar x) src (s + 1)) else 0)"
  by (subst run_rec) simp

lemma choices_plain:
  assumes "pattern_ok is" "no_specials (render is)" "s \<le> length src"
  shows "choices is src s = (if occurs src (render is) s then [s + length (render is)] else [])"
proof -
  have "list_all (\<lambda>x. x \<notin> set SPECIALS) (render is)"
    using assms(2) cstr_whole [OF render_nonzero [OF assms(1)]] by (simp add: no_specials_def)
  then show ?thesis
    using assms(1,3)
  proof (induction "is" arbitrary: s)
    case Nil
    then show ?case by (simp add: occurs_def)
  next
    case (Cons i "is")
    obtain c q where i: "i = (c, q)" by fastforce
    have q: "q = Once" using Cons.prems(1) i by (cases q) (auto simp: SPECIALS_def lit_def)
    obtain x where x: "c = OneChar x" "isalnum x"
      using Cons.prems(1) i by (cases c) (auto simp: SPECIALS_def lit_def quote_char_def split: if_splits)
    have rest: "list_all (\<lambda>x. x \<notin> set SPECIALS) (render is)" "pattern_ok is"
      using Cons.prems i by (simp_all add: pattern_ok_def)
    show ?case
    proof (cases "s < length src \<and> src ! s = x")
      case True
      then have "1 \<le> run c src s" by (subst x(1), subst run_OneChar) simp
      moreover have "occurs src (x # render is) s = occurs src (render is) (s + 1)"
        using True occurs_head [of "x # render is" s src] by (simp add: occurs_def)
      ultimately show ?thesis using Cons.IH [OF rest, of "s + 1"] True by (simp add: i q x quote_char_def)
    next
      case False
      then have "run c src s = 0" by (subst x(1), subst run_OneChar) simp
      moreover have "\<not> occurs src (x # render is) s"
      proof
        assume o: "occurs src (x # render is) s"
        from occurs_bound [OF o] have "s < length src" by simp
        with o False occurs_head [of "x # render is" s src] show False by simp
      qed
      ultimately show ?thesis by (simp add: i q x quote_char_def)
    qed
  qed
qed

lemma not_anchored: "pattern_ok is \<Longrightarrow> \<not> anchored (render is)"
proof (cases "is")
  case (Cons i js)
  assume ok: "pattern_ok is"
  obtain c q where i: "i = (c, q)" by fastforce
  with ok Cons have "class_ok c" by (simp add: pattern_ok_def)
  from class_first [OF this] obtain a u where "render_class c = a # u"
    "a = ch CHR ''.'' \<or> a = ch CHR ''['' \<or> isalnum a \<or> a = L_ESC" by blast
  then show ?thesis using Cons i alnum_plain(6) [of a] by (auto simp: anchored_def char_at_def)
qed (simp add: anchored_def char_at_def)

text \<open>
  \<^verbatim>\<open>string.find\<close> returns the first position where the pattern matches and the end of the preferred
  match there, whether it uses the matcher or the plain search.
\<close>

lemma str_find_leftmost:
  assumes ok: "pattern_ok is"
  shows "\<exists>r. leftmost is s (find_init s i) r \<and>
    str_find s (render is) i False =
      Inr (case r of None \<Rightarrow> [VNil] | Some (j, e) \<Rightarrow> [VInt (int j + 1), VInt (int e)])"
proof (cases "no_specials (render is)")
  case True
  note c = choices_plain [OF ok True]
  show ?thesis
  proof (cases "lmemfind s (find_init s i) (render is)")
    case None
    with lmemfind_correct [OF find_init_le, of s i "render is"]
    have "leftmost is s (find_init s i) None" by (auto simp: leftmost_def no_match_def c)
    with None True show ?thesis
      by (intro exI [of _ None]) (simp add: str_find_def str_find_aux_def)
  next
    case (Some j)
    with lmemfind_correct [OF find_init_le, of s i "render is"]
    have "leftmost is s (find_init s i) (Some (j, j + length (render is)))"
      by (auto simp: leftmost_def no_match_def c)
    with Some True show ?thesis
      by (intro exI [of _ "Some (j, j + length (render is))"]) (simp add: str_find_def str_find_aux_def)
  qed
next
  case False
  from find_loop_choices [OF ok find_init_le, of s i new_state] obtain r where
    r: "find_loop s (render is) 0 False (find_init s i) new_state = Inr r"
      "leftmost is s (find_init s i) (map_option (\<lambda>(j, e, ms). (j, e)) r)"
      "\<forall>j e ms'. r = Some (j, e, ms') \<longrightarrow> ms_level ms' = 0" by blast
  have eq: "str_find s (render is) i False =
      Inr (case map_option (\<lambda>(j, e, ms). (j, e)) r of None \<Rightarrow> [VNil] | Some (j, e) \<Rightarrow> [VInt (int j + 1), VInt (int e)])"
  proof (cases r)
    case None
    with False not_anchored [OF ok] r(1) show ?thesis by (simp add: str_find_def str_find_aux_def)
  next
    case (Some x)
    obtain j e ms' where x: "x = (j, e, ms')" by (cases x)
    with r(3) Some have "push_captures s ms' None = Inr []" by (simp add: push_captures_def emap_def)
    with False not_anchored [OF ok] r(1) Some x show ?thesis by (simp add: str_find_def str_find_aux_def)
  qed
  from r(2) eq show ?thesis by blast
qed

text \<open>The same in terms of the language.\<close>

definition matches_at :: "pitem list \<Rightarrow> lstr \<Rightarrow> nat \<Rightarrow> nat \<Rightarrow> bool" where
  "matches_at is s j e \<longleftrightarrow> j \<le> e \<and> e \<le> length s \<and> lang is (slice s j e)"

lemma leftmost_lang:
  assumes "leftmost is s s1 r"
  shows "case r of
      None \<Rightarrow> \<forall>j e. s1 \<le> j \<longrightarrow> \<not> matches_at is s j e
    | Some (j, e) \<Rightarrow> s1 \<le> j \<and> matches_at is s j e \<and> first_of (choices is s j) = Some e \<and>
        (\<forall>j' e'. s1 \<le> j' \<longrightarrow> j' < j \<longrightarrow> \<not> matches_at is s j' e')"
proof -
  have no: "no_match is s j \<Longrightarrow> \<not> matches_at is s j e" for j e
    using no_match_iff [of j s "is"] by (auto simp: matches_at_def)
  show ?thesis
  proof (cases r)
    case None
    with assms no show ?thesis
      by (auto simp: leftmost_def matches_at_def dest: order.trans)
  next
    case (Some x)
    obtain j e where x: "x = (j, e)" by fastforce
    with assms Some have l: "s1 \<le> j" "j \<le> length s" "first_of (choices is s j) = Some e"
      "\<forall>j'. s1 \<le> j' \<longrightarrow> j' < j \<longrightarrow> no_match is s j'" by (auto simp: leftmost_def)
    then have "e \<in> set (choices is s j)" by (auto simp: first_of_def split: list.splits)
    with l(2) choices_lang [of j s e "is"] have "matches_at is s j e" by (simp add: matches_at_def)
    with l Some x no show ?thesis by auto
  qed
qed

end
