(* ===== verification/LStrFormat.thy ===== *)
theory LStrFormat
  imports LStrLib
begin

text \<open>
  \<^verbatim>\<open>string.format\<close> of src/lua-5.1.5/src/lstrlib.c.  \<^verbatim>\<open>sprintf\<close> is a parameter: it gets the format (a C
  string) and the value, as the conversion character asks for it.  The two fixed buffers are
  checked: a format longer than \<^verbatim>\<open>form\<close> or an item longer than \<^verbatim>\<open>buff\<close> is the error \<open>ErrUB\<close>.
\<close>

definition MAX_ITEM :: nat where "MAX_ITEM = 512"
definition FLAGS :: lstr where "FLAGS = lit ''-+ #0''"
definition LUA_INTFRMLEN :: lstr where "LUA_INTFRMLEN = lit ''l''"

text \<open>\<^verbatim>\<open>sizeof\<close> counts the final zero.\<close>

definition MAX_FORMAT :: nat where
  "MAX_FORMAT = (length FLAGS + 1) + (length LUA_INTFRMLEN + 1) + 10"

definition quoted :: "lu_byte \<Rightarrow> lstr" where
  "quoted c =
     (if c = ch CHR 0x22 \<or> c = ch CHR 0x5C \<or> c = 10 then [ch CHR 0x5C, c]
      else if c = 13 then [ch CHR 0x5C, ch CHR ''r'']
      else if c = 0 then [ch CHR 0x5C, ch CHR ''0'', ch CHR ''0'', ch CHR ''0'']
      else [c])"

definition addquoted :: "lstr \<Rightarrow> lstr \<Rightarrow> lstr" where
  "addquoted s b = fold (\<lambda>c b. b @ quoted c) s (b @ [ch CHR 0x22]) @ [ch CHR 0x22]"

lemma addquoted_eq: "addquoted s b = b @ [ch CHR 0x22] @ concat (map quoted s) @ [ch CHR 0x22]"
proof -
  have "fold (\<lambda>c b. b @ quoted c) s b = b @ concat (map quoted s)" for b
    by (induction s arbitrary: b) simp_all
  then show ?thesis by (simp add: addquoted_def)
qed

text \<open>\<^verbatim>\<open>while (*p != '\0' && strchr(FLAGS, *p) != NULL) p++\<close>.\<close>

function skip_flags :: "lstr \<Rightarrow> nat \<Rightarrow> nat res" where
  "skip_flags s p =
     ebind (rd s p) (\<lambda>c. if c \<noteq> 0 \<and> c \<in> set FLAGS then skip_flags s (p + 1) else Inr p)"
  by pat_completeness auto
termination
  by (relation "measure (\<lambda>(s, p). length s - p)") (auto dest: rd_nonzero)

declare skip_flags.simps [simp del]

definition skip_digit :: "lstr \<Rightarrow> nat \<Rightarrow> nat res" where
  "skip_digit s p = ebind (rd s p) (\<lambda>c. Inr (if isdigit c then p + 1 else p))"

text \<open>The offset of the conversion character, and \<^verbatim>\<open>form\<close>.\<close>

definition scanformat :: "lstr \<Rightarrow> nat \<Rightarrow> (nat \<times> lstr) res" where
  "scanformat s i =
     ebind (skip_flags s i) (\<lambda>p.
       if length FLAGS + 1 \<le> p - i then Inl (ErrRun ''invalid format (repeated flags)'')
       else ebind (skip_digit s p) (\<lambda>p. ebind (skip_digit s p) (\<lambda>p.
            ebind (rd s p) (\<lambda>c. ebind (if c = ch CHR ''.''
                then ebind (skip_digit s (p + 1)) (\<lambda>p. skip_digit s p) else Inr p) (\<lambda>p.
            ebind (rd s p) (\<lambda>c.
              if isdigit c then Inl (ErrRun ''invalid format (width or precision too long)'')
              else let form = L_ESC # cstr (take (p - i + 1) (drop i s))
                   in if MAX_FORMAT < p - i + 3 then Inl (ErrUB ''form'') else Inr (p, form)))))))"

text \<open>The length modifier goes before the conversion character.\<close>

definition addintlen :: "lstr \<Rightarrow> lstr res" where
  "addintlen form =
     (let form' = butlast form @ LUA_INTFRMLEN @ [last form]
      in if form = [] \<or> MAX_FORMAT < length form' + 1 then Inl (ErrUB ''form'') else Inr form')"

datatype fmt_arg = FInt lua_Number | FLong lua_Number | FULong lua_Number | FDouble lua_Number | FStr lstr

text \<open>\<^verbatim>\<open>luaL_checknumber\<close>, \<^verbatim>\<open>luaL_checklstring\<close>.\<close>

definition luaL_checknumber :: "host \<Rightarrow> TValue list \<Rightarrow> nat \<Rightarrow> lua_Number res" where
  "luaL_checknumber H args arg =
     (case luaV_tonumber H (args ! arg) of Some n \<Rightarrow> Inr n | None \<Rightarrow> Inl (ErrRun ''bad argument (number expected)''))"

definition luaL_checklstring :: "host \<Rightarrow> TValue list \<Rightarrow> nat \<Rightarrow> lstr res" where
  "luaL_checklstring H args arg =
     (case tostring H (args ! arg) of Some s \<Rightarrow> Inr s | None \<Rightarrow> Inl (ErrRun ''bad argument (string expected)''))"

definition print_item :: "(lstr \<Rightarrow> fmt_arg \<Rightarrow> lstr) \<Rightarrow> lstr \<Rightarrow> fmt_arg \<Rightarrow> lstr res" where
  "print_item sprintf form a =
     (let out = sprintf form a in if MAX_ITEM \<le> length out then Inl (ErrUB ''buff'') else Inr (cstr out))"

text \<open>One format item: \<open>args\<close> are the arguments after the format, \<open>arg\<close> is the index of the current one.\<close>

definition format_item ::
  "host \<Rightarrow> (lstr \<Rightarrow> fmt_arg \<Rightarrow> lstr) \<Rightarrow> TValue list \<Rightarrow> nat \<Rightarrow> lu_byte \<Rightarrow> lstr \<Rightarrow> lstr \<Rightarrow> lstr res" where
  "format_item H sprintf args arg c form b =
     (let number = (\<lambda>form k. ebind (luaL_checknumber H args arg) (\<lambda>n.
                              ebind (print_item sprintf form (k n)) (\<lambda>out. Inr (b @ out))))
      in if c = ch CHR ''c'' then number form FInt
         else if c = ch CHR ''d'' \<or> c = ch CHR ''i'' then ebind (addintlen form) (\<lambda>form. number form FLong)
         else if c \<in> set (lit ''ouxX'') then ebind (addintlen form) (\<lambda>form. number form FULong)
         else if c \<in> set (lit ''eEfgG'') then number form FDouble
         else if c = ch CHR ''q'' then ebind (luaL_checklstring H args arg) (\<lambda>s. Inr (addquoted s b))
         else if c = ch CHR ''s'' then
           ebind (luaL_checklstring H args arg) (\<lambda>s.
             if ch CHR ''.'' \<notin> set form \<and> 100 \<le> length s then Inr (b @ s)
             else ebind (print_item sprintf form (FStr s)) (\<lambda>out. Inr (b @ out)))
         else Inl (ErrRun (''invalid option to '' @ LUA_QL ''format'')))"

lemma skip_flags_ends: "p \<le> length s \<Longrightarrow> ends (skip_flags s p) (\<lambda>q. p \<le> q \<and> q \<le> length s)"
proof (induction "length s - p" arbitrary: p rule: less_induct)
  case less
  then have "p < length s \<Longrightarrow> ends (skip_flags s (p + 1)) (\<lambda>q. p \<le> q \<and> q \<le> length s)"
    by (intro ends_weaken [OF less.hyps]) auto
  then show ?case
    by (subst skip_flags.simps) (use less.prems in \<open>intro ends_if ends_bind [OF rd_endsI]; simp\<close>)
qed

lemma skip_digit_ends: "p \<le> length s \<Longrightarrow> ends (skip_digit s p) (\<lambda>q. p \<le> q \<and> q \<le> p + 1 \<and> q \<le> length s)"
  unfolding skip_digit_def by (rule ends_bind [OF rd_endsI]) (auto simp: isdigit_def)

lemma form_sizes: "length FLAGS = 5" "MAX_FORMAT = 18" "length LUA_INTFRMLEN = 1"
  by (simp_all add: FLAGS_def MAX_FORMAT_def LUA_INTFRMLEN_def lit_def)

text \<open>
  The format that has been scanned fits its buffer with room for the length modifier: at most five
  flags, two digits, a point and two digits.
\<close>

lemma scanformat_ends:
  assumes "i \<le> length s"
  shows "ends (scanformat s i) (\<lambda>(p, form). i \<le> p \<and> p \<le> length s \<and> form \<noteq> [] \<and> length form \<le> 12)"
  unfolding scanformat_def
proof (rule ends_bind [OF skip_flags_ends [OF assms]], rule ends_if)
  fix p assume p: "i \<le> p \<and> p \<le> length s" and "\<not> length FLAGS + 1 \<le> p - i"
  then have few: "p - i \<le> 5" by (simp add: form_sizes)
  show "ends (ebind (skip_digit s p) (\<lambda>p. ebind (skip_digit s p) (\<lambda>p.
            ebind (rd s p) (\<lambda>c. ebind (if c = ch CHR ''.''
                then ebind (skip_digit s (p + 1)) (\<lambda>p. skip_digit s p) else Inr p) (\<lambda>p.
            ebind (rd s p) (\<lambda>c.
              if isdigit c then Inl (ErrRun ''invalid format (width or precision too long)'')
              else let form = L_ESC # cstr (take (p - i + 1) (drop i s))
                   in if MAX_FORMAT < p - i + 3 then Inl (ErrUB ''form'') else Inr (p, form)))))))
      (\<lambda>(p, form). i \<le> p \<and> p \<le> length s \<and> form \<noteq> [] \<and> length form \<le> 12)"
  proof (rule ends_bind [OF skip_digit_ends], use p in simp, rule ends_bind [OF skip_digit_ends], simp,
      rule ends_bind [OF rd_endsI], simp, goal_cases)
    case (1 p1 p2 c)
    have prec: "ends (if c = ch CHR ''.'' then ebind (skip_digit s (p2 + 1)) (\<lambda>p. skip_digit s p) else Inr p2)
        (\<lambda>q. p2 \<le> q \<and> q \<le> p2 + 3 \<and> q \<le> length s)"
      by (intro ends_if, rule ends_bind [OF skip_digit_ends], use 1 in auto) (auto intro: ends_weaken [OF skip_digit_ends])
    show ?case
    proof (rule ends_bind [OF prec], rule ends_bind [OF rd_endsI], simp, goal_cases)
      case (1 q d)
      have "length (cstr (take (q - i + 1) (drop i s))) \<le> q - i + 1"
        using length_takeWhile_le [of "\<lambda>c. c \<noteq> 0" "take (q - i + 1) (drop i s)"] by (simp add: cstr_def)
      moreover have "i \<le> q \<and> q - i \<le> 10 \<and> \<not> 18 < q + 3 - i"
        using few p 1 \<open>p \<le> p1 \<and> p1 \<le> p + 1 \<and> p1 \<le> length s\<close> \<open>p1 \<le> p2 \<and> p2 \<le> p1 + 1 \<and> p2 \<le> length s\<close>
        by linarith
      ultimately show ?case using 1 by (simp add: Let_def form_sizes)
    qed
  qed
qed simp

lemma addintlen_ends: "form \<noteq> [] \<Longrightarrow> length form \<le> 12 \<Longrightarrow> ends (addintlen form) (\<lambda>f. length f = length form + 1)"
  by (simp add: addintlen_def form_sizes)

text \<open>The loop over the format string.\<close>

primrec format_n ::
  "nat \<Rightarrow> host \<Rightarrow> (lstr \<Rightarrow> fmt_arg \<Rightarrow> lstr) \<Rightarrow> lstr \<Rightarrow> TValue list \<Rightarrow> nat \<Rightarrow> nat \<Rightarrow> lstr \<Rightarrow> lstr res" where
  "format_n 0 H sprintf s args i arg b = Inl ErrLoop"
| "format_n (Suc d) H sprintf s args i arg b =
     (if i < length s then
        if s ! i \<noteq> L_ESC then format_n d H sprintf s args (i + 1) arg (b @ [s ! i])
        else ebind (rd s (i + 1)) (\<lambda>c.
          if c = L_ESC then format_n d H sprintf s args (i + 2) arg (b @ [c])
          else if length args \<le> arg then Inl (ErrRun ''bad argument (no value)'')
          else ebind (scanformat s (i + 1)) (\<lambda>(p, form).
               ebind (rd s p) (\<lambda>c.
               ebind (format_item H sprintf args arg c form b) (\<lambda>b.
                 format_n d H sprintf s args (p + 1) (arg + 1) b))))
      else Inr b)"

definition str_format :: "host \<Rightarrow> (lstr \<Rightarrow> fmt_arg \<Rightarrow> lstr) \<Rightarrow> lstr \<Rightarrow> TValue list \<Rightarrow> lstr res" where
  "str_format H sprintf s args = format_n (length s + 1) H sprintf s args 0 0 []"

text \<open>
  What \<^verbatim>\<open>sprintf\<close> promises for the formats of \<^verbatim>\<open>scanformat\<close>: the item is shorter than the buffer
  when a string without precision is shorter than 100 bytes.
\<close>

definition sprintf_fits :: "(lstr \<Rightarrow> fmt_arg \<Rightarrow> lstr) \<Rightarrow> bool" where
  "sprintf_fits sprintf \<longleftrightarrow> (\<forall>form a. length form \<le> 13 \<longrightarrow>
     (\<forall>s. a = FStr s \<longrightarrow> ch CHR ''.'' \<notin> set form \<longrightarrow> length s < 100) \<longrightarrow> length (sprintf form a) < MAX_ITEM)"

lemma sprintf_fitsD:
  assumes "sprintf_fits sprintf" "length form \<le> 13"
    and "\<And>s. a = FStr s \<Longrightarrow> ch CHR ''.'' \<notin> set form \<Longrightarrow> length s < 100"
  shows "ends (print_item sprintf form a) (\<lambda>out. True)"
proof -
  have "length (sprintf form a) < MAX_ITEM" using assms unfolding sprintf_fits_def by blast
  then show ?thesis by (simp add: print_item_def)
qed

lemma format_item_ends:
  assumes fits: "sprintf_fits sprintf" and form: "form \<noteq> []" "length form \<le> 12"
  shows "ends (format_item H sprintf args arg c form b) (\<lambda>b. True)"
proof -
  have n: "ends (luaL_checknumber H args arg) (\<lambda>n. True)" and s: "ends (luaL_checklstring H args arg) (\<lambda>n. True)"
    by (simp_all add: luaL_checknumber_def luaL_checklstring_def split: option.splits)
  have num: "ends (ebind (luaL_checknumber H args arg) (\<lambda>n.
      ebind (print_item sprintf f (k n)) (\<lambda>out. Inr (b @ out)))) (\<lambda>b. True)"
    if "length f \<le> 13" "\<And>n s. k n \<noteq> FStr s" for f k
    by (rule ends_bind [OF n], rule ends_bind [OF sprintf_fitsD [OF fits that(1)]]) (use that(2) in auto)
  have long: "ends (ebind (addintlen form) (\<lambda>form. ebind (luaL_checknumber H args arg) (\<lambda>n.
      ebind (print_item sprintf form (k n)) (\<lambda>out. Inr (b @ out))))) (\<lambda>b. True)"
    if "\<And>n s. k n \<noteq> FStr s" for k
    by (rule ends_bind [OF addintlen_ends [OF form]], rule num) (use form that in simp_all)
  have str: "ends (ebind (luaL_checklstring H args arg) (\<lambda>s.
      if ch CHR ''.'' \<notin> set form \<and> 100 \<le> length s then Inr (b @ s)
      else ebind (print_item sprintf form (FStr s)) (\<lambda>out. Inr (b @ out)))) (\<lambda>b. True)"
  proof (rule ends_bind [OF s], rule ends_if)
    fix s :: lstr assume "\<not> (ch CHR ''.'' \<notin> set form \<and> 100 \<le> length s)"
    then have "ends (print_item sprintf form (FStr s)) (\<lambda>out. True)"
      using form by (intro sprintf_fitsD [OF fits]) auto
    then show "ends (ebind (print_item sprintf form (FStr s)) (\<lambda>out. Inr (b @ out))) (\<lambda>b. True)"
      by (rule ends_bind) simp
  qed simp
  show ?thesis
    unfolding format_item_def Let_def
    by (intro ends_if num long str) (use form in \<open>simp_all add: ends_bind [OF s]\<close>)
qed

lemma format_item_end: "\<nexists>b'. format_item H sprintf args arg 0 form b = Inr b'"
  by (simp add: format_item_def lit_def)

lemma format_n_ends:
  assumes "sprintf_fits sprintf"
  shows "i \<le> length s \<Longrightarrow> length s < d + i \<Longrightarrow> ends (format_n d H sprintf s args i arg b) (\<lambda>b. True)"
proof (induction d arbitrary: i arg b)
  case (Suc d)
  show ?case
  proof (cases "i < length s")
    case True
    then have i: "i + 1 \<le> length s" by simp
    have item: "ends (ebind (scanformat s (i + 1)) (\<lambda>(p, form).
               ebind (rd s p) (\<lambda>c.
               ebind (format_item H sprintf args arg c form b) (\<lambda>b.
                 format_n d H sprintf s args (p + 1) (arg + 1) b)))) (\<lambda>b. True)"
    proof (rule ends_bind [OF scanformat_ends [OF i]], clarify)
      fix p and form :: lstr assume p: "i + 1 \<le> p" "p \<le> length s" "form \<noteq> []" "length form \<le> 12"
      show "ends (ebind (rd s p) (\<lambda>c. ebind (format_item H sprintf args arg c form b) (\<lambda>b.
          format_n d H sprintf s args (p + 1) (arg + 1) b))) (\<lambda>b. True)"
      proof (rule ends_bind [OF rd_endsI [OF p(2)]], rule ends_bind [OF format_item_ends [OF assms p(3,4)]])
        fix c b' assume c: "rd s p = Inr c \<and> (c \<noteq> 0 \<longrightarrow> p < length s)" "format_item H sprintf args arg c form b = Inr b'"
        with format_item_end have "p < length s" by metis
        then show "ends (format_n d H sprintf s args (p + 1) (arg + 1) b') (\<lambda>b. True)"
          using p Suc.prems by (intro Suc.IH) auto
      qed
    qed
    show ?thesis
      unfolding format_n.simps if_P [OF True]
    proof (rule ends_if, goal_cases)
      case 1
      show ?case by (rule Suc.IH) (use i Suc.prems in auto)
    next
      case 2
      show ?case
      proof (rule ends_bind [OF rd_endsI [OF i]], intro ends_if item, goal_cases)
        case (1 c)
        then show ?case using Suc.prems by (intro Suc.IH) auto
      qed simp
    qed
  qed simp
qed simp

lemma str_format_ends: "sprintf_fits sprintf \<Longrightarrow> ends (str_format H sprintf s args) (\<lambda>b. True)"
  unfolding str_format_def by (rule format_n_ends) simp_all

lemma format_q: "str_format H sprintf (lit ''%q'') [VStr s] = Inr (addquoted s [])"
proof -
  have "scanformat (lit ''%q'') 1 = Inr (1, lit ''%q'')"
    by (subst scanformat_def, subst skip_flags.simps)
      (simp add: lit_def rd_def FLAGS_def skip_digit_def isdigit_def cstr_def form_sizes MAX_FORMAT_def LUA_INTFRMLEN_def)
  moreover have "str_format H sprintf (lit ''%q'') [VStr s] = format_n (Suc (Suc (Suc 0))) H sprintf (lit ''%q'') [VStr s] 0 0 []"
    by (simp add: str_format_def lit_def)
  ultimately show ?thesis
    by (simp add: lit_def rd_def format_item_def luaL_checklstring_def tostring_def)
qed

end
