(* ===== verification/LZio.thy ===== *)
theory LZio
  imports Lua_Prelude
begin

text \<open>
  Buffered input streams, src/lua-5.1.5/src/lzio.c and lzio.h.  The reader is a callback of the
  host: a function from its data to the next block (\<open>None\<close> for a null pointer) and its new data.
  \<open>z_buff\<close> is the block the pointer \<open>z_p\<close> points into; a read outside it is \<open>ErrUB\<close>.
\<close>

section \<open>The stream\<close>

record 'd ZIO =
  z_n :: u64
  z_buff :: lstr
  z_p :: nat
  z_data :: 'd

type_synonym 'd lua_Reader = "'d \<Rightarrow> lstr option \<times> 'd"

definition EOZ :: int where "EOZ = - 1"

definition char2int :: "lu_byte \<Rightarrow> int" where
  "char2int c = int (unat c)"

lemma char2int_inj [simp]: "char2int a = char2int b \<longleftrightarrow> a = b"
  by (metis char2int_def of_nat_eq_iff word_unat_eq_iff)

lemma char2int_zero [simp]: "char2int c = 0 \<longleftrightarrow> c = 0"
  by (metis char2int_def of_nat_eq_0_iff unat_eq_zero)

definition deref :: "'d ZIO \<Rightarrow> lu_byte res" where
  "deref z = (if z_p z < length (z_buff z) then Inr (z_buff z ! z_p z) else Inl (ErrUB ''read outside the block''))"

definition luaZ_fill :: "'d lua_Reader \<Rightarrow> 'd ZIO \<Rightarrow> 'd ZIO \<times> int" where
  "luaZ_fill reader z =
     (let (buff, d) = reader (z_data z); z = z\<lparr>z_data := d\<rparr>
      in case buff of
           None \<Rightarrow> (z, EOZ)
         | Some bs \<Rightarrow>
             let size = word_of_nat (length bs)
             in if size = 0 then (z, EOZ)
                else (z\<lparr>z_n := size - 1, z_buff := bs, z_p := 1\<rparr>, char2int (bs ! 0)))"

definition luaZ_lookahead :: "'d lua_Reader \<Rightarrow> 'd ZIO \<Rightarrow> ('d ZIO \<times> int) res" where
  "luaZ_lookahead reader z =
     (if z_n z = 0 then
        let (z', c) = luaZ_fill reader z
        in if c = EOZ then Inr (z', EOZ)
           else let z'' = z'\<lparr>z_n := z_n z' + 1, z_p := z_p z' - 1\<rparr>
                in ebind (deref z'') (\<lambda>b. Inr (z'', char2int b))
      else ebind (deref z) (\<lambda>b. Inr (z, char2int b)))"

text \<open>\<^verbatim>\<open>((z)->n--) > 0 ? char2int(*(z)->p++) : luaZ_fill(z)\<close>: the count is decremented first.\<close>

definition zgetc :: "'d lua_Reader \<Rightarrow> 'd ZIO \<Rightarrow> ('d ZIO \<times> int) res" where
  "zgetc reader z =
     (if 0 < z_n z then
        ebind (deref z) (\<lambda>b. Inr (z\<lparr>z_n := z_n z - 1, z_p := Suc (z_p z)\<rparr>, char2int b))
      else Inr (luaZ_fill reader (z\<lparr>z_n := z_n z - 1\<rparr>)))"

definition luaZ_init :: "'d \<Rightarrow> 'd ZIO" where
  "luaZ_init d = \<lparr>z_n = 0, z_buff = [], z_p = 0, z_data = d\<rparr>"

lemma lookahead_count:
  assumes "luaZ_lookahead reader z = Inr (z', c)" "c \<noteq> EOZ"
  shows "z_n z' \<noteq> 0"
  using assms
  by (auto simp: luaZ_lookahead_def luaZ_fill_def Let_def ebind_Inr_iff split: if_splits prod.splits option.splits)

text \<open>
  The loop of \<^verbatim>\<open>luaZ_read\<close>: \<open>n\<close> bytes are missing, \<open>b\<close> are read.  The result has the number of
  bytes still missing at the end of the stream.
\<close>

function luaZ_read_loop :: "'d lua_Reader \<Rightarrow> 'd ZIO \<Rightarrow> u64 \<Rightarrow> lstr \<Rightarrow> ('d ZIO \<times> u64 \<times> lstr) res" where
  "luaZ_read_loop reader z n b =
     (if n = 0 then Inr (z, 0, b)
      else case luaZ_lookahead reader z of
             Inl e \<Rightarrow> Inl e
           | Inr (z', c) \<Rightarrow>
               if c = EOZ then Inr (z', n, b)
               else let m = (if n \<le> z_n z' then n else z_n z')
                    in if z_p z' + unat m \<le> length (z_buff z')
                       then luaZ_read_loop reader (z'\<lparr>z_n := z_n z' - m, z_p := z_p z' + unat m\<rparr>) (n - m)
                              (b @ take (unat m) (drop (z_p z') (z_buff z')))
                       else Inl (ErrUB ''read outside the block''))"
  by pat_completeness auto
termination
proof (relation "measure (\<lambda>(reader, z, n, b). unat n)")
  fix reader :: "'a lua_Reader" and z :: "'a ZIO" and n :: u64 and b y z' c m
  assume n: "n \<noteq> 0" and l: "luaZ_lookahead reader z = Inr y" "(z', c) = y" "c \<noteq> EOZ"
    and m: "m = (if n \<le> z_n z' then n else z_n z')"
  have "z_n z' \<noteq> 0" using lookahead_count l by metis
  with n m have "m \<noteq> 0" "m \<le> n" by auto
  then have "unat (n - m) < unat n"
    by (metis diff_less unat_eq_zero unat_sub word_gt_0 word_le_nat_alt word_less_nat_alt le_zero_eq not_gr_zero)
  then show "((reader, z'\<lparr>z_n := z_n z' - m, z_p := z_p z' + unat m\<rparr>, n - m,
      b @ take (unat m) (drop (z_p z') (z_buff z'))), reader, z, n, b) \<in> measure (\<lambda>(reader, z, n, b). unat n)"
    by simp
qed simp

declare luaZ_read_loop.simps [simp del]

definition luaZ_read :: "'d lua_Reader \<Rightarrow> 'd ZIO \<Rightarrow> u64 \<Rightarrow> ('d ZIO \<times> u64 \<times> lstr) res" where
  "luaZ_read reader z n = luaZ_read_loop reader z n []"

text \<open>The buffer of a scanner, \<^verbatim>\<open>Mbuffer\<close>: the bytes in use and the size of the allocation.\<close>

record Mbuffer =
  mb_bytes :: lstr
  mb_size :: u64

definition LUA_MINBUFFER :: u64 where "LUA_MINBUFFER = 32"

definition luaZ_openspace :: "Mbuffer \<Rightarrow> u64 \<Rightarrow> Mbuffer" where
  "luaZ_openspace buff n =
     (if mb_size buff < n then buff\<lparr>mb_size := (if n < LUA_MINBUFFER then LUA_MINBUFFER else n)\<rparr> else buff)"

section \<open>The bytes of a stream\<close>

lemma unat_of_nat_self: "word_of_nat (unat (w :: u64)) = w"
  by simp

text \<open>The bytes a reader delivers before it reports the end.\<close>

inductive delivers :: "'d lua_Reader \<Rightarrow> 'd \<Rightarrow> lstr \<Rightarrow> bool" for reader where
  delivers_null: "reader d = (None, d') \<Longrightarrow> delivers reader d []"
| delivers_empty: "reader d = (Some [], d') \<Longrightarrow> delivers reader d []"
| delivers_block: "reader d = (Some bs, d') \<Longrightarrow> bs \<noteq> [] \<Longrightarrow> length bs < 2 ^ 64 \<Longrightarrow>
    delivers reader d' rest \<Longrightarrow> delivers reader d (bs @ rest)"

text \<open>The bytes still to come: the rest of the block and what the reader delivers.\<close>

definition zstream :: "'d lua_Reader \<Rightarrow> 'd ZIO \<Rightarrow> lstr \<Rightarrow> bool" where
  "zstream reader z bs \<longleftrightarrow> z_p z + unat (z_n z) = length (z_buff z) \<and>
     (\<exists>rest. delivers reader (z_data z) rest \<and> bs = drop (z_p z) (z_buff z) @ rest)"

lemma zstream_init: "delivers reader d bs \<Longrightarrow> zstream reader (luaZ_init d) bs"
  by (simp add: zstream_def luaZ_init_def)

lemma char2int_nonneg [simp]: "char2int c \<noteq> EOZ"
  by (simp add: char2int_def EOZ_def) (metis uint_ge_0 neg_0_le_iff_le not_one_le_zero)

lemma unat_of_length: "length (bs :: lstr) < 2 ^ 64 \<Longrightarrow> unat (word_of_nat (length bs) :: u64) = length bs"
  by (simp add: unsigned_of_nat take_bit_nat_eq_self)

text \<open>Looking ahead shows the next byte and leaves the stream as it is; at the end it is \<open>EOZ\<close>.\<close>

lemma lookahead_stream:
  assumes "zstream reader z bs"
  shows "\<exists>z'. luaZ_lookahead reader z = Inr (z', if bs = [] then EOZ else char2int (bs ! 0)) \<and>
    (bs \<noteq> [] \<longrightarrow> zstream reader z' bs \<and> z_n z' \<noteq> 0)"
proof (cases "z_n z = 0")
  case False
  then have "0 < unat (z_n z)" by (simp add: unat_gt_0)
  with assms have "z_p z < length (z_buff z)" by (auto simp: zstream_def)
  with False assms show ?thesis
    by (auto simp: luaZ_lookahead_def deref_def zstream_def nth_append)
next
  case True
  with assms obtain rest where d: "delivers reader (z_data z) rest" "bs = rest"
    by (auto simp: zstream_def)
  from d(1) show ?thesis
  proof (cases rule: delivers.cases)
    case blk: (delivers_block blk d' rest')
    have w: "word_of_nat (length blk) \<noteq> (0 :: u64)"
      using unat_of_length [OF blk(4)] blk(3) by (metis length_0_conv unat_0)
    with True blk d(2) show ?thesis
      by (auto simp: luaZ_lookahead_def luaZ_fill_def deref_def zstream_def nth_append unat_of_length)
  qed (use True d(2) in \<open>auto simp: luaZ_lookahead_def luaZ_fill_def\<close>)
qed

text \<open>
  Reading \<open>n\<close> bytes takes the first \<open>n\<close> bytes of the stream, however the reader cuts it into
  blocks; at the end of the stream the result is the number of missing bytes.
\<close>

lemma read_loop_stream:
  assumes "zstream reader z bs"
  shows "if unat n \<le> length bs
    then \<exists>z'. luaZ_read_loop reader z n b = Inr (z', 0, b @ take (unat n) bs) \<and> zstream reader z' (drop (unat n) bs)
    else \<exists>z'. luaZ_read_loop reader z n b = Inr (z', n - word_of_nat (length bs), b @ bs)"
  using assms
proof (induction "unat n" arbitrary: z n b bs rule: less_induct)
  case less
  show ?case
  proof (cases "n = 0")
    case True
    then show ?thesis using less.prems by (simp add: luaZ_read_loop.simps)
  next
    case False
    obtain z1 where l: "luaZ_lookahead reader z = Inr (z1, if bs = [] then EOZ else char2int (bs ! 0))"
      and s1: "bs \<noteq> [] \<longrightarrow> zstream reader z1 bs \<and> z_n z1 \<noteq> 0"
      using lookahead_stream [OF less.prems] by blast
    show ?thesis
    proof (cases "bs = []")
      case True
      moreover have "\<not> unat n \<le> 0" using False by (simp add: unat_eq_zero)
      ultimately show ?thesis using False l by (subst (1 2) luaZ_read_loop.simps) simp
    next
      case nonempty: False
      with s1 have z1: "zstream reader z1 bs" "z_n z1 \<noteq> 0" by auto
      from z1(1) obtain rest where r: "delivers reader (z_data z1) rest" "bs = drop (z_p z1) (z_buff z1) @ rest"
        and p: "z_p z1 + unat (z_n z1) = length (z_buff z1)" by (auto simp: zstream_def)
      define m where "m = (if n \<le> z_n z1 then n else z_n z1)"
      have m: "m \<le> n" "m \<le> z_n z1" "m \<noteq> 0" using False z1(2) by (auto simp: m_def)
      then have um: "unat m \<le> unat n" "unat m \<le> unat (z_n z1)" "0 < unat m"
        by (simp_all add: word_le_nat_alt unat_gt_0)
      have un: "unat (n - m) = unat n - unat m" "unat (z_n z1 - m) = unat (z_n z1) - unat m"
        using m by (simp_all add: unat_sub)
      let ?z = "z1\<lparr>z_n := z_n z1 - m, z_p := z_p z1 + unat m\<rparr>"
      have fit: "z_p z1 + unat m \<le> length (z_buff z1)" using p um by simp
      have tk: "take (unat m) (drop (z_p z1) (z_buff z1)) = take (unat m) bs"
        using p um by (simp add: r(2))
      have step: "luaZ_read_loop reader z n b = luaZ_read_loop reader ?z (n - m) (b @ take (unat m) bs)"
        using False l nonempty fit tk by (subst luaZ_read_loop.simps) (simp add: m_def Let_def)
      have st: "zstream reader ?z (drop (unat m) bs)"
        using r p um un by (auto simp: zstream_def add.commute intro!: exI [of _ rest])
      have IH: "if unat (n - m) \<le> length (drop (unat m) bs)
        then \<exists>z'. luaZ_read_loop reader ?z (n - m) (b @ take (unat m) bs) =
          Inr (z', 0, (b @ take (unat m) bs) @ take (unat (n - m)) (drop (unat m) bs)) \<and>
          zstream reader z' (drop (unat (n - m)) (drop (unat m) bs))
        else \<exists>z'. luaZ_read_loop reader ?z (n - m) (b @ take (unat m) bs) =
          Inr (z', n - m - word_of_nat (length (drop (unat m) bs)), (b @ take (unat m) bs) @ drop (unat m) bs)"
        by (rule less.hyps [OF _ st]) (use um un in simp)
      have lm: "unat m \<le> length bs" using p um r(2) by simp
      show ?thesis
      proof (cases "unat n \<le> length bs")
        case True
        then have "take (unat m) bs @ take (unat (n - m)) (drop (unat m) bs) = take (unat n) bs"
          using um un take_add [of "unat m" "unat n - unat m" bs] by simp
        moreover have "drop (unat (n - m)) (drop (unat m) bs) = drop (unat n) bs"
          using um un by simp
        moreover have "unat (n - m) \<le> length (drop (unat m) bs)" using True un by simp
        ultimately show ?thesis using IH by (simp only: step if_True True append_assoc)
      next
        case False
        have "(word_of_nat (length bs) :: u64) = m + word_of_nat (length bs - unat m)"
          using lm by (metis le_add_diff_inverse of_nat_add unat_of_nat_self)
        then have "n - m - word_of_nat (length (drop (unat m) bs)) = n - word_of_nat (length bs)"
          by simp
        moreover have "(b @ take (unat m) bs) @ drop (unat m) bs = b @ bs" by simp
        moreover have "\<not> unat (n - m) \<le> length (drop (unat m) bs)" using False un lm by simp
        ultimately show ?thesis using IH by (simp only: step if_False False)
      qed
    qed
  qed
qed

lemma read_stream:
  assumes "zstream reader z bs" "unat n \<le> length bs"
  shows "\<exists>z'. luaZ_read reader z n = Inr (z', 0, take (unat n) bs) \<and> zstream reader z' (drop (unat n) bs)"
  using read_loop_stream [OF assms(1), of n "[]"] assms(2) by (simp add: luaZ_read_def)

lemma read_stream_short:
  assumes "zstream reader z bs" "length bs < unat n"
  shows "\<exists>z'. luaZ_read reader z n = Inr (z', n - word_of_nat (length bs), bs)"
  using read_loop_stream [OF assms(1), of n "[]"] assms(2) by (simp add: luaZ_read_def)

text \<open>Reading one byte.\<close>

lemma zgetc_stream:
  assumes "zstream reader z (c # bs)"
  shows "\<exists>z'. zgetc reader z = Inr (z', char2int c) \<and> zstream reader z' bs"
proof (cases "z_n z = 0")
  case False
  then have n: "0 < unat (z_n z)" "unat (z_n z - 1) = unat (z_n z) - 1" "0 < z_n z"
    by (simp_all add: unat_gt_0 unat_minus_one word_gt_0)
  from assms obtain rest where r: "delivers reader (z_data z) rest" "c # bs = drop (z_p z) (z_buff z) @ rest"
    and p: "z_p z + unat (z_n z) = length (z_buff z)" by (auto simp: zstream_def)
  from n p have lt: "z_p z < length (z_buff z)" by simp
  from r(2) Cons_nth_drop_Suc [OF lt, symmetric]
  have "z_buff z ! z_p z = c" "bs = drop (Suc (z_p z)) (z_buff z) @ rest" by simp_all
  with r(1) p n lt show ?thesis by (auto simp: zgetc_def deref_def zstream_def)
next
  case True
  with assms obtain rest where d: "delivers reader (z_data z) rest" "c # bs = rest"
    by (auto simp: zstream_def)
  from d(1) show ?thesis
  proof (cases rule: delivers.cases)
    case blk: (delivers_block blk d' rest')
    then obtain blk' where bc: "blk = c # blk'" using d(2) by (cases blk) auto
    have u: "unat (word_of_nat (length blk) :: u64) = length blk" using blk(4) by (rule unat_of_length)
    then have w: "word_of_nat (length blk) \<noteq> (0 :: u64)" using blk(3) by (metis length_0_conv unat_0)
    have "unat (word_of_nat (length blk) - 1 :: u64) = length blk - 1"
      by (simp only: unat_minus_one [OF w] u)
    then have "unat (word_of_nat (length blk) - 1 :: u64) = length blk'" using bc by simp
    with True blk d(2) bc w show ?thesis
      by (auto simp: zgetc_def luaZ_fill_def Let_def zstream_def)
  qed (use d(2) in auto)
qed

text \<open>
  At the end of the stream \<open>zgetc\<close> leaves the count at its maximum: the next call reads outside
  the block instead of asking the reader again.
\<close>

lemma zgetc_twice_at_end:
  assumes "zstream reader z []"
  shows "\<exists>z'. zgetc reader z = Inr (z', EOZ) \<and> zgetc reader z' = Inl (ErrUB ''read outside the block'')"
proof -
  from assms have l: "z_p z + unat (z_n z) = length (z_buff z)" "length (z_buff z) \<le> z_p z"
    and d: "delivers reader (z_data z) []" by (auto simp: zstream_def)
  from l have "unat (z_n z) = 0" "z_p z = length (z_buff z)" by simp_all
  with d have z: "z_n z = 0" "z_p z = length (z_buff z)" "delivers reader (z_data z) []"
    by (simp_all add: unat_eq_zero)
  let ?e = "\<lambda>d. z\<lparr>z_n := - 1, z_data := d\<rparr>"
  from z(3) obtain d where "luaZ_fill reader (z\<lparr>z_n := - 1\<rparr>) = (?e d, EOZ)"
    by (cases rule: delivers.cases) (auto simp: luaZ_fill_def)
  then have "zgetc reader z = Inr (?e d, EOZ)" using z by (simp add: zgetc_def)
  moreover have "zgetc reader (?e d) = Inl (ErrUB ''read outside the block'')"
    using z by (simp add: zgetc_def deref_def word_gt_0)
  ultimately show ?thesis by blast
qed

end
