(* ===== verification/LLex.thy ===== *)
theory LLex
  imports LStrFormat LZio
begin

text \<open>
  The lexical analyser, src/lua-5.1.5/src/llex.c and llex.h.

  The characters come from \<open>getc\<close>, which is \<^verbatim>\<open>zgetc\<close> of lzio.h; the locale \<open>char_source\<close> holds what
  the analyser relies on.  \<^verbatim>\<open>ls->fs\<close>, which only anchors strings for the collector, and \<^verbatim>\<open>ls->source\<close>,
  which is part of error messages, are left out.  A loop over the input takes the fuel \<open>f\<close>; the
  number of characters that are left is enough (\<open>llex_ends\<close>).  The messages carry no position.
\<close>

section \<open>State\<close>

datatype SemInfo = NoSem | SemR lua_Number | SemTs lstr

record Token =
  tk_token :: int
  tk_seminfo :: SemInfo

record 'z LexState =
  ls_current :: int
  ls_linenumber :: int
  ls_lastline :: int
  ls_t :: Token
  ls_lookahead :: Token
  ls_z :: 'z
  ls_buff :: Mbuffer
  ls_decpoint :: lu_byte

type_synonym 'z getc = "'z \<Rightarrow> ('z \<times> int) res"

definition FIRST_RESERVED :: int where "FIRST_RESERVED = 257"

definition luaX_tokens :: "lstr list" where
  "luaX_tokens = map lit
     [''and'', ''break'', ''do'', ''else'', ''elseif'', ''end'', ''false'', ''for'', ''function'', ''if'',
      ''in'', ''local'', ''nil'', ''not'', ''or'', ''repeat'', ''return'', ''then'', ''true'', ''until'', ''while'',
      ''..'', ''...'', ''=='', ''>='', ''<='', ''~='', ''<number>'', ''<name>'', ''<string>'', ''<eof>'']"

definition NUM_RESERVED :: nat where "NUM_RESERVED = 21"

abbreviation TK_CONCAT :: int where "TK_CONCAT \<equiv> 278"
abbreviation TK_DOTS :: int where "TK_DOTS \<equiv> 279"
abbreviation TK_EQ :: int where "TK_EQ \<equiv> 280"
abbreviation TK_GE :: int where "TK_GE \<equiv> 281"
abbreviation TK_LE :: int where "TK_LE \<equiv> 282"
abbreviation TK_NE :: int where "TK_NE \<equiv> 283"
abbreviation TK_NUMBER :: int where "TK_NUMBER \<equiv> 284"
abbreviation TK_NAME :: int where "TK_NAME \<equiv> 285"
abbreviation TK_STRING :: int where "TK_STRING \<equiv> 286"
abbreviation TK_EOS :: int where "TK_EOS \<equiv> 287"

text \<open>The code of a character, and the classes on an \<^verbatim>\<open>int\<close> that may be \<open>EOZ\<close>.\<close>

definition cc :: "char \<Rightarrow> int" where "cc c = char2int (ch c)"

declare cc_def [simp]

definition cis :: "(lu_byte \<Rightarrow> bool) \<Rightarrow> int \<Rightarrow> bool" where
  "cis P c \<longleftrightarrow> 0 \<le> c \<and> P (word_of_int c)"

lemma cis_simps [simp]: "cis P (char2int c) = P c" "\<not> cis P EOZ"
  by (simp_all add: cis_def char2int_def EOZ_def)

definition lexerror :: "string \<Rightarrow> lua_error" where "lexerror msg = ErrSyntax msg"

abbreviation buf :: "'z LexState \<Rightarrow> lstr" where "buf ls \<equiv> mb_bytes (ls_buff ls)"

section \<open>Characters and the buffer\<close>

definition next_char :: "'z getc \<Rightarrow> 'z LexState \<Rightarrow> 'z LexState res" where
  "next_char getc ls = ebind (getc (ls_z ls)) (\<lambda>(z, c). Inr (ls\<lparr>ls_z := z, ls_current := c\<rparr>))"

definition currIsNewline :: "'z LexState \<Rightarrow> bool" where
  "currIsNewline ls \<longleftrightarrow> ls_current ls = cc CHR 0x0A \<or> ls_current ls = cc CHR 0x0D"

definition save :: "int \<Rightarrow> 'z LexState \<Rightarrow> 'z LexState res" where
  "save c ls =
     (let b = ls_buff ls; n = length (mb_bytes b)
      in ebind (if unat (mb_size b) < n + 1
                then if MAX_SIZET div 2 \<le> unat (mb_size b) then Inl (lexerror ''lexical element too long'')
                     else Inr (mb_size b * 2)
                else Inr (mb_size b)) (\<lambda>size.
         if n + 1 \<le> unat size
         then Inr (ls\<lparr>ls_buff := \<lparr>mb_bytes = mb_bytes b @ [word_of_int c], mb_size = size\<rparr>\<rparr>)
         else Inl (ErrUB ''save'')))"

definition save_and_next :: "'z getc \<Rightarrow> 'z LexState \<Rightarrow> 'z LexState res" where
  "save_and_next getc ls = ebind (save (ls_current ls) ls) (next_char getc)"

definition resetbuffer :: "'z LexState \<Rightarrow> 'z LexState" where
  "resetbuffer ls = ls\<lparr>ls_buff := (ls_buff ls)\<lparr>mb_bytes := []\<rparr>\<rparr>"

definition inclinenumber :: "'z getc \<Rightarrow> 'z LexState \<Rightarrow> 'z LexState res" where
  "inclinenumber getc ls =
     (let old = ls_current ls
      in ebind (next_char getc ls) (\<lambda>ls.
         ebind (if currIsNewline ls \<and> ls_current ls \<noteq> old then next_char getc ls else Inr ls) (\<lambda>ls.
         let ls = ls\<lparr>ls_linenumber := ls_linenumber ls + 1\<rparr>
         in if MAX_INT \<le> ls_linenumber ls then Inl (lexerror ''chunk has too many lines'') else Inr ls)))"

definition luaX_setinput :: "'z getc \<Rightarrow> 'z \<Rightarrow> 'z LexState res" where
  "luaX_setinput getc z =
     next_char getc \<lparr>ls_current = 0, ls_linenumber = 1, ls_lastline = 1,
       ls_t = \<lparr>tk_token = 0, tk_seminfo = NoSem\<rparr>,
       ls_lookahead = \<lparr>tk_token = TK_EOS, tk_seminfo = NoSem\<rparr>, ls_z = z,
       ls_buff = \<lparr>mb_bytes = [], mb_size = LUA_MINBUFFER\<rparr>, ls_decpoint = ch CHR ''.''\<rparr>"

text \<open>\<^verbatim>\<open>strchr\<close> also finds the terminator of the set: a zero byte of the source is accepted.\<close>

definition check_next :: "'z getc \<Rightarrow> string \<Rightarrow> 'z LexState \<Rightarrow> ('z LexState \<times> bool) res" where
  "check_next getc cs ls =
     (if ls_current ls = 0 \<or> ls_current ls \<in> cc ` set cs
      then ebind (save_and_next getc ls) (\<lambda>ls. Inr (ls, True)) else Inr (ls, False))"

text \<open>The text between the delimiters of \<open>k\<close> characters.\<close>

definition inner_text :: "nat \<Rightarrow> 'z LexState \<Rightarrow> lstr res" where
  "inner_text k ls =
     (if length (buf ls) < 2 * k then Inl (ErrUB ''token text'')
      else Inr (take (length (buf ls) - 2 * k) (drop k (buf ls))))"

section \<open>Numerals\<close>

definition buffreplace :: "lu_byte \<Rightarrow> lu_byte \<Rightarrow> 'z LexState \<Rightarrow> 'z LexState" where
  "buffreplace from to ls =
     ls\<lparr>ls_buff := (ls_buff ls)\<lparr>mb_bytes := map (\<lambda>c. if c = from then to else c) (buf ls)\<rparr>\<rparr>"

text \<open>\<open>dp\<close> is the decimal point of \<^verbatim>\<open>localeconv\<close>.\<close>

definition trydecpoint :: "host \<Rightarrow> lu_byte \<Rightarrow> 'z LexState \<Rightarrow> ('z LexState \<times> SemInfo) res" where
  "trydecpoint H dp ls =
     (let old = ls_decpoint ls;
          ls = buffreplace old dp (ls\<lparr>ls_decpoint := dp\<rparr>)
      in case luaO_str2d H (buf ls) of
           Some r \<Rightarrow> Inr (ls, SemR r)
         | None \<Rightarrow> Inl (lexerror ''malformed number''))"

definition read_numeral :: "nat \<Rightarrow> host \<Rightarrow> lu_byte \<Rightarrow> 'z getc \<Rightarrow> 'z LexState \<Rightarrow> ('z LexState \<times> SemInfo) res" where
  "read_numeral f H dp getc ls =
     ebind (save_and_next getc ls) (\<lambda>ls.
     ebind (while_n f (\<lambda>ls. cis isdigit (ls_current ls) \<or> ls_current ls = cc CHR ''.'') (save_and_next getc) ls) (\<lambda>ls.
     ebind (check_next getc ''Ee'' ls) (\<lambda>(ls, e).
     ebind (if e then ebind (check_next getc ''+-'' ls) (\<lambda>(ls, _). Inr ls) else Inr ls) (\<lambda>ls.
     ebind (while_n f (\<lambda>ls. cis isalnum (ls_current ls) \<or> ls_current ls = cc CHR ''_'') (save_and_next getc) ls) (\<lambda>ls.
     ebind (save 0 ls) (\<lambda>ls.
     let ls = buffreplace (ch CHR ''.'') (ls_decpoint ls) ls
     in case luaO_str2d H (buf ls) of
          Some r \<Rightarrow> Inr (ls, SemR r)
        | None \<Rightarrow> trydecpoint H dp ls))))))"

section \<open>Strings\<close>

text \<open>The number of \<^verbatim>\<open>=\<close> signs, or a negative number when the second bracket is missing.\<close>

definition skip_sep :: "nat \<Rightarrow> 'z getc \<Rightarrow> 'z LexState \<Rightarrow> ('z LexState \<times> int) res" where
  "skip_sep f getc ls =
     (let s = ls_current ls
      in ebind (save_and_next getc ls) (\<lambda>ls.
         ebind (while_n f (\<lambda>(ls, count). ls_current ls = cc CHR ''='')
                  (\<lambda>(ls, count). ebind (save_and_next getc ls) (\<lambda>ls. Inr (ls, count + 1))) (ls, 0))
           (\<lambda>(ls, count). Inr (ls, if ls_current ls = s then count else - count - 1))))"

text \<open>
  One round of the loop of \<^verbatim>\<open>read_long_string\<close>: the flag says that the string has ended.  \<open>sem\<close> says
  that the text is wanted; a long comment is thrown away.
\<close>

definition long_step :: "nat \<Rightarrow> 'z getc \<Rightarrow> bool \<Rightarrow> int \<Rightarrow> 'z LexState \<Rightarrow> ('z LexState \<times> bool) res" where
  "long_step f getc sem sep ls =
     (if ls_current ls = EOZ then
        Inl (lexerror (if sem then ''unfinished long string'' else ''unfinished long comment''))
      else if ls_current ls = cc CHR ''['' then
        ebind (skip_sep f getc ls) (\<lambda>(ls, k).
          if k = sep then
            ebind (save_and_next getc ls) (\<lambda>ls.
              if sep = 0 then Inl (lexerror ''nesting of [[...]] is deprecated'') else Inr (ls, False))
          else Inr (ls, False))
      else if ls_current ls = cc CHR '']'' then
        ebind (skip_sep f getc ls) (\<lambda>(ls, k).
          if k = sep then ebind (save_and_next getc ls) (\<lambda>ls. Inr (ls, True)) else Inr (ls, False))
      else if currIsNewline ls then
        ebind (save 10 ls) (\<lambda>ls. ebind (inclinenumber getc ls) (\<lambda>ls.
          Inr (if sem then ls else resetbuffer ls, False)))
      else if sem then ebind (save_and_next getc ls) (\<lambda>ls. Inr (ls, False))
      else ebind (next_char getc ls) (\<lambda>ls. Inr (ls, False)))"

definition read_long_string ::
  "nat \<Rightarrow> 'z getc \<Rightarrow> bool \<Rightarrow> int \<Rightarrow> 'z LexState \<Rightarrow> ('z LexState \<times> SemInfo) res" where
  "read_long_string f getc sem sep ls =
     ebind (save_and_next getc ls) (\<lambda>ls.
     ebind (if currIsNewline ls then inclinenumber getc ls else Inr ls) (\<lambda>ls.
     ebind (while_n f (\<lambda>(ls, stop). \<not> stop) (\<lambda>(ls, stop). long_step f getc sem sep ls) (ls, False)) (\<lambda>(ls, stop).
       if sem then ebind (inner_text (2 + nat sep) ls) (\<lambda>s. Inr (ls, SemTs s)) else Inr (ls, NoSem))))"

text \<open>A decimal escape: at most \<open>k\<close> digits.\<close>

primrec decimal_escape :: "nat \<Rightarrow> 'z getc \<Rightarrow> int \<Rightarrow> 'z LexState \<Rightarrow> ('z LexState \<times> int) res" where
  "decimal_escape 0 getc c ls = Inr (ls, c)"
| "decimal_escape (Suc k) getc c ls =
     (let c = 10 * c + (ls_current ls - cc CHR ''0'')
      in ebind (next_char getc ls) (\<lambda>ls.
           if 0 < k \<and> cis isdigit (ls_current ls) then decimal_escape k getc c ls else Inr (ls, c)))"

definition simple_escape :: "int \<Rightarrow> int option" where
  "simple_escape c =
     (if c = cc CHR ''a'' then Some 7 else if c = cc CHR ''b'' then Some 8
      else if c = cc CHR ''f'' then Some 12 else if c = cc CHR ''n'' then Some 10
      else if c = cc CHR ''r'' then Some 13 else if c = cc CHR ''t'' then Some 9
      else if c = cc CHR ''v'' then Some 11 else None)"

text \<open>What follows a backslash.\<close>

definition escape_char :: "'z getc \<Rightarrow> 'z LexState \<Rightarrow> 'z LexState res" where
  "escape_char getc ls =
     (case simple_escape (ls_current ls) of
        Some c \<Rightarrow> ebind (save c ls) (next_char getc)
      | None \<Rightarrow>
          if currIsNewline ls then ebind (save 10 ls) (inclinenumber getc)
          else if ls_current ls = EOZ then Inr ls
          else if \<not> cis isdigit (ls_current ls) then save_and_next getc ls
          else ebind (decimal_escape 3 getc 0 ls) (\<lambda>(ls, c).
                 if 255 < c then Inl (lexerror ''escape sequence too large'') else save c ls))"

definition read_escape :: "'z getc \<Rightarrow> 'z LexState \<Rightarrow> 'z LexState res" where
  "read_escape getc ls = ebind (next_char getc ls) (escape_char getc)"

definition string_step :: "'z getc \<Rightarrow> 'z LexState \<Rightarrow> 'z LexState res" where
  "string_step getc ls =
     (if ls_current ls = EOZ \<or> currIsNewline ls then Inl (lexerror ''unfinished string'')
      else if ls_current ls = cc CHR 0x5C then read_escape getc ls
      else save_and_next getc ls)"

definition read_string :: "nat \<Rightarrow> 'z getc \<Rightarrow> int \<Rightarrow> 'z LexState \<Rightarrow> ('z LexState \<times> SemInfo) res" where
  "read_string f getc del ls =
     ebind (save_and_next getc ls) (\<lambda>ls.
     ebind (while_n f (\<lambda>ls. ls_current ls \<noteq> del) (string_step getc) ls) (\<lambda>ls.
     ebind (save_and_next getc ls) (\<lambda>ls.
     ebind (inner_text 1 ls) (\<lambda>s. Inr (ls, SemTs s)))))"

section \<open>Tokens\<close>

fun index_of_word :: "lstr \<Rightarrow> lstr list \<Rightarrow> nat option" where
  "index_of_word x [] = None"
| "index_of_word x (y # ys) = (if x = y then Some 0 else map_option Suc (index_of_word x ys))"

text \<open>The mark \<^verbatim>\<open>luaX_init\<close> puts on the strings of the reserved words.\<close>

definition ts_reserved_of :: "lstr \<Rightarrow> nat" where
  "ts_reserved_of s = (case index_of_word s (take NUM_RESERVED luaX_tokens) of None \<Rightarrow> 0 | Some i \<Rightarrow> i + 1)"

definition read_name :: "nat \<Rightarrow> 'z getc \<Rightarrow> 'z LexState \<Rightarrow> ('z LexState \<times> int \<times> SemInfo) res" where
  "read_name f getc ls =
     ebind (save_and_next getc ls) (\<lambda>ls.
     ebind (while_n f (\<lambda>ls. cis isalnum (ls_current ls) \<or> ls_current ls = cc CHR ''_'') (save_and_next getc) ls) (\<lambda>ls.
       let r = ts_reserved_of (buf ls)
       in if 0 < r then Inr (ls, int r - 1 + FIRST_RESERVED, NoSem)
          else Inr (ls, TK_NAME, SemTs (buf ls))))"

text \<open>A token of one character, or of two when the next is \<^verbatim>\<open>=\<close>.\<close>

definition with_eq :: "'z getc \<Rightarrow> int \<Rightarrow> int \<Rightarrow> 'z LexState \<Rightarrow> ('z LexState \<times> (int \<times> SemInfo) option) res" where
  "with_eq getc one two ls =
     ebind (next_char getc ls) (\<lambda>ls.
       if ls_current ls \<noteq> cc CHR ''='' then Inr (ls, Some (one, NoSem))
       else ebind (next_char getc ls) (\<lambda>ls. Inr (ls, Some (two, NoSem))))"

text \<open>A comment, or a minus sign.\<close>

definition lex_minus :: "nat \<Rightarrow> 'z getc \<Rightarrow> 'z LexState \<Rightarrow> ('z LexState \<times> (int \<times> SemInfo) option) res" where
  "lex_minus f getc ls =
     ebind (next_char getc ls) (\<lambda>ls.
       if ls_current ls \<noteq> cc CHR ''-'' then Inr (ls, Some (cc CHR ''-'', NoSem))
       else ebind (next_char getc ls) (\<lambda>ls.
         let short = (\<lambda>ls. ebind (while_n f (\<lambda>ls. \<not> currIsNewline ls \<and> ls_current ls \<noteq> EOZ) (next_char getc) ls)
                             (\<lambda>ls. Inr (ls, None)))
         in if ls_current ls = cc CHR ''['' then
              ebind (skip_sep f getc ls) (\<lambda>(ls, sep).
                let ls = resetbuffer ls
                in if 0 \<le> sep then ebind (read_long_string f getc False sep ls) (\<lambda>(ls, _). Inr (resetbuffer ls, None))
                   else short ls)
            else short ls))"

definition lex_bracket :: "nat \<Rightarrow> 'z getc \<Rightarrow> 'z LexState \<Rightarrow> ('z LexState \<times> (int \<times> SemInfo) option) res" where
  "lex_bracket f getc ls =
     ebind (skip_sep f getc ls) (\<lambda>(ls, sep).
       if 0 \<le> sep then ebind (read_long_string f getc True sep ls) (\<lambda>(ls, s). Inr (ls, Some (TK_STRING, s)))
       else if sep = - 1 then Inr (ls, Some (cc CHR ''['', NoSem))
       else Inl (lexerror ''invalid long string delimiter''))"

definition lex_dot ::
  "nat \<Rightarrow> host \<Rightarrow> lu_byte \<Rightarrow> 'z getc \<Rightarrow> 'z LexState \<Rightarrow> ('z LexState \<times> (int \<times> SemInfo) option) res" where
  "lex_dot f H dp getc ls =
     ebind (save_and_next getc ls) (\<lambda>ls.
     ebind (check_next getc ''.'' ls) (\<lambda>(ls, two).
       if two then ebind (check_next getc ''.'' ls) (\<lambda>(ls, three).
         Inr (ls, Some (if three then TK_DOTS else TK_CONCAT, NoSem)))
       else if \<not> cis isdigit (ls_current ls) then Inr (ls, Some (cc CHR ''.'', NoSem))
       else ebind (read_numeral f H dp getc ls) (\<lambda>(ls, s). Inr (ls, Some (TK_NUMBER, s)))))"

text \<open>One round of the loop of \<^verbatim>\<open>llex\<close>: \<open>None\<close> for white space and comments.\<close>

definition llex_step ::
  "nat \<Rightarrow> host \<Rightarrow> lu_byte \<Rightarrow> 'z getc \<Rightarrow> 'z LexState \<Rightarrow> ('z LexState \<times> (int \<times> SemInfo) option) res" where
  "llex_step f H dp getc ls =
     (let c = ls_current ls
      in if currIsNewline ls then ebind (inclinenumber getc ls) (\<lambda>ls. Inr (ls, None))
         else if c = cc CHR ''-'' then lex_minus f getc ls
         else if c = cc CHR ''['' then lex_bracket f getc ls
         else if c = cc CHR ''='' then with_eq getc (cc CHR ''='') TK_EQ ls
         else if c = cc CHR ''<'' then with_eq getc (cc CHR ''<'') TK_LE ls
         else if c = cc CHR ''>'' then with_eq getc (cc CHR ''>'') TK_GE ls
         else if c = cc CHR ''~'' then with_eq getc (cc CHR ''~'') TK_NE ls
         else if c = cc CHR 0x22 \<or> c = cc CHR 0x27 then
           ebind (read_string f getc c ls) (\<lambda>(ls, s). Inr (ls, Some (TK_STRING, s)))
         else if c = cc CHR ''.'' then lex_dot f H dp getc ls
         else if c = EOZ then Inr (ls, Some (TK_EOS, NoSem))
         else if cis isspace c then ebind (next_char getc ls) (\<lambda>ls. Inr (ls, None))
         else if cis isdigit c then
           ebind (read_numeral f H dp getc ls) (\<lambda>(ls, s). Inr (ls, Some (TK_NUMBER, s)))
         else if cis isalpha c \<or> c = cc CHR ''_'' then
           ebind (read_name f getc ls) (\<lambda>(ls, t, s). Inr (ls, Some (t, s)))
         else ebind (next_char getc ls) (\<lambda>ls. Inr (ls, Some (c, NoSem))))"

primrec llex_n ::
  "nat \<Rightarrow> nat \<Rightarrow> host \<Rightarrow> lu_byte \<Rightarrow> 'z getc \<Rightarrow> 'z LexState \<Rightarrow> ('z LexState \<times> int \<times> SemInfo) res" where
  "llex_n 0 f H dp getc ls = Inl ErrLoop"
| "llex_n (Suc n) f H dp getc ls =
     ebind (llex_step f H dp getc ls) (\<lambda>(ls, r). case r of None \<Rightarrow> llex_n n f H dp getc ls | Some (t, s) \<Rightarrow> Inr (ls, t, s))"

definition llex :: "nat \<Rightarrow> host \<Rightarrow> lu_byte \<Rightarrow> 'z getc \<Rightarrow> 'z LexState \<Rightarrow> ('z LexState \<times> int \<times> SemInfo) res" where
  "llex f H dp getc ls = llex_n (f + 1) f H dp getc (resetbuffer ls)"

definition luaX_next :: "nat \<Rightarrow> host \<Rightarrow> lu_byte \<Rightarrow> 'z getc \<Rightarrow> 'z LexState \<Rightarrow> 'z LexState res" where
  "luaX_next f H dp getc ls =
     (let ls = ls\<lparr>ls_lastline := ls_linenumber ls\<rparr>
      in if tk_token (ls_lookahead ls) \<noteq> TK_EOS
         then Inr (ls\<lparr>ls_t := ls_lookahead ls, ls_lookahead := (ls_lookahead ls)\<lparr>tk_token := TK_EOS\<rparr>\<rparr>)
         else ebind (llex f H dp getc ls) (\<lambda>(ls, t, s). Inr (ls\<lparr>ls_t := \<lparr>tk_token = t, tk_seminfo = s\<rparr>\<rparr>)))"

definition luaX_lookahead :: "nat \<Rightarrow> host \<Rightarrow> lu_byte \<Rightarrow> 'z getc \<Rightarrow> 'z LexState \<Rightarrow> 'z LexState res" where
  "luaX_lookahead f H dp getc ls =
     ebind (llex f H dp getc ls) (\<lambda>(ls, t, s). Inr (ls\<lparr>ls_lookahead := \<lparr>tk_token = t, tk_seminfo = s\<rparr>\<rparr>))"

section \<open>The analyser ends\<close>

lemma zero_not_end [simp]: "0 \<noteq> EOZ" "EOZ \<noteq> 0"
  by (simp_all add: EOZ_def)

lemma cc_not_end: "cc c \<noteq> EOZ"
  by simp

definition buf_ok :: "Mbuffer \<Rightarrow> bool" where
  "buf_ok b \<longleftrightarrow> length (mb_bytes b) \<le> unat (mb_size b) \<and> 0 < unat (mb_size b)"

lemma buf_ok_reset: "buf_ok b \<Longrightarrow> buf_ok (b\<lparr>mb_bytes := []\<rparr>)"
  by (simp add: buf_ok_def)

lemma double_size: "\<not> MAX_SIZET div 2 \<le> unat (w :: u64) \<Longrightarrow> unat (w * 2) = unat w * 2"
  by (simp add: MAX_SIZET_def unat_word_ariths)

lemma save_ends_raw:
  assumes "buf_ok (ls_buff ls)"
  shows "ends (save c ls) (\<lambda>ls'. \<exists>b. ls' = ls\<lparr>ls_buff := b\<rparr> \<and> buf_ok b \<and> mb_bytes b = buf ls @ [word_of_int c])"
  using assms
  by (auto simp: save_def Let_def buf_ok_def lexerror_def double_size)

text \<open>Whether the buffer has room for ever: sizes of strings in memory.\<close>

lemma save_total:
  assumes "buf_ok (ls_buff ls)" "length (buf ls) < 2 ^ 62"
  shows "\<exists>b. save c ls = Inr (ls\<lparr>ls_buff := b\<rparr>) \<and> buf_ok b \<and> mb_bytes b = buf ls @ [word_of_int c]"
proof -
  have "unat (mb_size (ls_buff ls)) < length (buf ls) + 1 \<Longrightarrow> \<not> MAX_SIZET div 2 \<le> unat (mb_size (ls_buff ls))"
    using assms(2) by (simp add: MAX_SIZET_def)
  with assms(1) double_size [of "mb_size (ls_buff ls)"] show ?thesis
    by (auto simp: save_def Let_def buf_ok_def)
qed

text \<open>A source of characters: \<open>holds z bs\<close> says that it will deliver \<open>bs\<close> and then the end.\<close>

locale char_source =
  fixes getc :: "'z getc" and holds :: "'z \<Rightarrow> lstr \<Rightarrow> bool"
  assumes getc_byte: "holds z (c # bs) \<Longrightarrow> \<exists>z'. getc z = Inr (z', char2int c) \<and> holds z' bs"
    and getc_end: "holds z [] \<Longrightarrow> \<exists>z'. getc z = Inr (z', EOZ)"
begin

text \<open>\<open>bs\<close> is what the analyser has not consumed, the current character included.\<close>

definition at :: "'z LexState \<Rightarrow> lstr \<Rightarrow> bool" where
  "at ls bs \<longleftrightarrow> (case bs of [] \<Rightarrow> ls_current ls = EOZ
     | c # r \<Rightarrow> ls_current ls = char2int c \<and> holds (ls_z ls) r)"

lemma at_fields [simp]:
  "at (ls\<lparr>ls_buff := b\<rparr>) bs = at ls bs" "at (ls\<lparr>ls_linenumber := l\<rparr>) bs = at ls bs"
  "at (ls\<lparr>ls_decpoint := d\<rparr>) bs = at ls bs" "at (ls\<lparr>ls_lastline := l\<rparr>) bs = at ls bs"
  "at (ls\<lparr>ls_t := t\<rparr>) bs = at ls bs" "at (ls\<lparr>ls_lookahead := t\<rparr>) bs = at ls bs"
  by (cases bs; simp add: at_def)+

lemma next_at:
  assumes "at ls (c # bs)"
  shows "\<exists>z c'. next_char getc ls = Inr (ls\<lparr>ls_z := z, ls_current := c'\<rparr>) \<and>
    at (ls\<lparr>ls_z := z, ls_current := c'\<rparr>) bs"
proof (cases bs)
  case Nil
  with assms getc_end [of "ls_z ls"] show ?thesis by (auto simp: at_def next_char_def)
next
  case (Cons d ds)
  with assms getc_byte [of "ls_z ls" d ds] show ?thesis by (auto simp: at_def next_char_def)
qed

text \<open>At most \<open>n\<close> characters are left, and the buffer holds at least \<open>k\<close>.\<close>

definition st :: "nat \<Rightarrow> nat \<Rightarrow> 'z LexState \<Rightarrow> bool" where
  "st n k ls \<longleftrightarrow> (\<exists>bs. length bs \<le> n \<and> at ls bs) \<and> buf_ok (ls_buff ls) \<and> k \<le> length (buf ls)"

lemma st_mono: "st n k ls \<Longrightarrow> n \<le> n' \<Longrightarrow> k' \<le> k \<Longrightarrow> st n' k' ls"
  by (auto simp: st_def intro: order_trans)

lemma st_less: "st (n - Suc (Suc 0)) k ls \<Longrightarrow> st (n - Suc 0) 0 ls"
  by (rule st_mono) auto

lemma st_next: "st n k ls \<Longrightarrow> ls_current ls \<noteq> EOZ \<Longrightarrow>
    ends (next_char getc ls) (\<lambda>ls'. 0 < n \<and> st (n - 1) k ls')"
proof -
  assume s: "st n k ls" "ls_current ls \<noteq> EOZ"
  then obtain bs where bs: "length bs \<le> n" "at ls bs" by (auto simp: st_def)
  with s(2) obtain c r where c: "bs = c # r" by (cases bs) (auto simp: at_def)
  with bs(2) next_at obtain z d where "next_char getc ls = Inr (ls\<lparr>ls_z := z, ls_current := d\<rparr>)"
    "at (ls\<lparr>ls_z := z, ls_current := d\<rparr>) r" by blast
  with s(1) bs(1) c show ?thesis by (auto simp: st_def intro!: exI [of _ r])
qed

lemma st_pos: "st n k ls \<Longrightarrow> ls_current ls \<noteq> EOZ \<Longrightarrow> 0 < n"
  by (cases n) (auto simp: st_def at_def)

lemma st_save: "st n k ls \<Longrightarrow> ends (save c ls) (\<lambda>ls'. st n (k + 1) ls' \<and> ls_current ls' = ls_current ls)"
proof -
  assume s: "st n k ls"
  then have "buf_ok (ls_buff ls)" by (simp add: st_def)
  from save_ends_raw [OF this] show ?thesis
    by (rule ends_weaken) (use s in \<open>auto simp: st_def\<close>)
qed

lemma st_save_next: "st n k ls \<Longrightarrow> ls_current ls \<noteq> EOZ \<Longrightarrow>
    ends (save_and_next getc ls) (\<lambda>ls'. 0 < n \<and> st (n - 1) (k + 1) ls')"
  unfolding save_and_next_def by (rule ends_bind [OF st_save]) (auto intro: ends_weaken [OF st_next])

lemma st_reset: "st n k ls \<Longrightarrow> st n 0 (resetbuffer ls)"
  by (auto simp: st_def resetbuffer_def buf_ok_reset)

lemma st_fields [simp]:
  "st n k (ls\<lparr>ls_linenumber := l\<rparr>) = st n k ls" "st n k (ls\<lparr>ls_decpoint := d\<rparr>) = st n k ls"
  "st n k (ls\<lparr>ls_lastline := l\<rparr>) = st n k ls" "st n k (ls\<lparr>ls_t := t\<rparr>) = st n k ls"
  "st n k (ls\<lparr>ls_lookahead := t\<rparr>) = st n k ls"
  by (simp_all add: st_def)

lemma st_replace: "st n k ls \<Longrightarrow> st n k (buffreplace a b ls)"
  by (auto simp: st_def buffreplace_def buf_ok_def)

lemma newline_not_end: "currIsNewline ls \<Longrightarrow> ls_current ls \<noteq> EOZ"
  by (auto simp: currIsNewline_def)

lemma st_newline: "st n k ls \<Longrightarrow> currIsNewline ls \<Longrightarrow> ends (inclinenumber getc ls) (\<lambda>ls'. 0 < n \<and> st (n - 1) k ls')"
  unfolding inclinenumber_def Let_def
proof (rule ends_bind [OF st_next], assumption, erule newline_not_end)
  fix ls1 assume s: "0 < n \<and> st (n - 1) k ls1"
  have "ends (if currIsNewline ls1 \<and> ls_current ls1 \<noteq> ls_current ls then next_char getc ls1 else Inr ls1)
      (\<lambda>ls'. st (n - 1) k ls')"
    using s by (auto intro!: ends_weaken [OF st_next] newline_not_end intro: st_mono)
  then show "ends (ebind (if currIsNewline ls1 \<and> ls_current ls1 \<noteq> ls_current ls then next_char getc ls1 else Inr ls1)
      (\<lambda>ls. if MAX_INT \<le> ls_linenumber (ls\<lparr>ls_linenumber := ls_linenumber ls + 1\<rparr>)
        then Inl (lexerror ''chunk has too many lines'') else Inr (ls\<lparr>ls_linenumber := ls_linenumber ls + 1\<rparr>)))
      (\<lambda>ls'. 0 < n \<and> st (n - 1) k ls')"
    by (rule ends_bind) (use s in \<open>simp add: lexerror_def\<close>)
qed

lemma cis_not_end: "cis P (ls_current ls) \<Longrightarrow> ls_current ls \<noteq> EOZ"
  by (auto simp: cis_def EOZ_def)

text \<open>Loops that save characters while a condition that fails at the end holds.\<close>

lemma st_save_loop:
  assumes "\<And>ls. c ls \<Longrightarrow> ls_current ls \<noteq> EOZ" "st n k ls" "n < f"
  shows "ends (while_n f c (save_and_next getc) ls) (\<lambda>ls'. st n k ls' \<and> \<not> c ls')"
proof -
  have "ends (while_n f c (save_and_next getc) ls) (\<lambda>ls'. (\<exists>m\<le>n. st m k ls') \<and> \<not> c ls')"
  proof (rule while_n_ends [where I = "\<lambda>n. st n k"])
    fix n ls assume s: "st n k ls" "c ls"
    have "ends (save_and_next getc ls) (\<lambda>ls'. 0 < n \<and> st (n - 1) (k + 1) ls')"
      by (rule st_save_next [OF s(1) assms(1) [OF s(2)]])
    then show "ends (save_and_next getc ls) (\<lambda>ls'. \<exists>m<n. st m k ls')"
      by (auto elim!: ends_weaken intro!: exI [of _ "n - 1"] intro: st_mono)
  qed (use assms in auto)
  then show ?thesis by (rule ends_weaken) (auto intro: st_mono)
qed

lemma st_check_next:
  "st n k ls \<Longrightarrow> ends (check_next getc cs ls) (\<lambda>(ls', b). st (if b then n - 1 else n) k ls' \<and> (b \<longrightarrow> 0 < n))"
proof -
  assume s: "st n k ls"
  have "ls_current ls \<noteq> EOZ" if "ls_current ls = 0 \<or> ls_current ls \<in> cc ` set cs"
    using that by (metis cc_not_end imageE zero_not_end)
  with s show ?thesis
    unfolding check_next_def
    by (intro ends_if ends_bind [OF st_save_next]) (auto intro: st_mono)
qed

lemma st_inner_text: "st n (2 * k) ls \<Longrightarrow> ends (inner_text k ls) (\<lambda>s. True)"
  by (simp add: inner_text_def st_def)

lemma st_numeral:
  assumes "st n k ls" "cis isdigit (ls_current ls)" "n < f"
  shows "ends (read_numeral f H dp getc ls) (\<lambda>(ls', s). st (n - 1) 0 ls' \<and> 0 < n)"
  unfolding read_numeral_def
proof (rule ends_bind [OF st_save_next [OF assms(1) cis_not_end [OF assms(2)]]])
  fix l1 assume s1: "0 < n \<and> st (n - 1) (k + 1) l1"
  let ?w1 = "while_n f (\<lambda>ls. cis isdigit (ls_current ls) \<or> ls_current ls = cc CHR ''.'') (save_and_next getc)"
  let ?w2 = "while_n f (\<lambda>ls. cis isalnum (ls_current ls) \<or> ls_current ls = cc CHR ''_'') (save_and_next getc)"
  have w1: "ends (?w1 l1) (st (n - 1) 0)"
    by (rule ends_weaken [OF st_save_loop [where n = "n - 1" and k = 0]])
      (use s1 assms(3) cis_not_end cc_not_end in \<open>auto simp del: cc_def intro: st_mono\<close>)
  have w2: "ends (?w2 l) (st (n - 1) 0)" if "st (n - 1) 0 l" for l
    by (rule ends_weaken [OF st_save_loop [where n = "n - 1" and k = 0]])
      (use that assms(3) cis_not_end cc_not_end in \<open>auto simp del: cc_def intro: st_mono\<close>)
  have cn: "ends (check_next getc cs l) (\<lambda>(ls', b). st (n - 1) 0 ls')" if "st (n - 1) 0 l" for cs l
    by (rule ends_weaken [OF st_check_next [OF that]]) (auto split: if_splits intro: st_mono)
  have opt: "ends (if e then ebind (check_next getc ''+-'' l) (\<lambda>(ls, _). Inr ls) else Inr l) (st (n - 1) 0)"
    if "st (n - 1) 0 l" for e l
    by (intro ends_if ends_bind [OF cn [OF that]]) (use that in auto)
  have tdp: "ends (trydecpoint H dp l) (\<lambda>(ls', s). st (n - 1) 0 ls' \<and> 0 < n)" if "st (n - 1) 0 l" for l
    using that s1 by (auto simp: trydecpoint_def Let_def lexerror_def st_replace split: option.splits)
  have fin: "ends (let ls = buffreplace (ch CHR ''.'') (ls_decpoint l) l
     in case luaO_str2d H (buf ls) of Some r \<Rightarrow> Inr (ls, SemR r) | None \<Rightarrow> trydecpoint H dp ls)
     (\<lambda>(ls', s). st (n - 1) 0 ls' \<and> 0 < n)" if "st (n - 1) 0 l" for l
    using that s1 tdp by (auto simp: Let_def st_replace split: option.splits)
  show "ends (ebind (?w1 l1) (\<lambda>ls. ebind (check_next getc ''Ee'' ls) (\<lambda>(ls, e).
     ebind (if e then ebind (check_next getc ''+-'' ls) (\<lambda>(ls, _). Inr ls) else Inr ls) (\<lambda>ls.
     ebind (?w2 ls) (\<lambda>ls. ebind (save 0 ls) (\<lambda>ls.
     let ls = buffreplace (ch CHR ''.'') (ls_decpoint ls) ls
     in case luaO_str2d H (buf ls) of Some r \<Rightarrow> Inr (ls, SemR r) | None \<Rightarrow> trydecpoint H dp ls))))))
     (\<lambda>(ls', s). st (n - 1) 0 ls' \<and> 0 < n)"
    by (rule ends_bind [OF w1], rule ends_bind [OF cn], assumption, clarify, rule ends_bind [OF opt], assumption,
      rule ends_bind [OF w2], assumption, rule ends_bind [OF st_save], assumption, rule fin)
      (auto intro: st_mono)
qed

lemma st_skip_sep:
  assumes "st n k ls" "ls_current ls \<noteq> EOZ" "n < f"
  shows "ends (skip_sep f getc ls) (\<lambda>(ls', sep). 0 < n \<and> st (n - 1) k ls' \<and>
    (0 \<le> sep \<longrightarrow> ls_current ls' = ls_current ls \<and> st (n - 1) (k + 1 + nat sep) ls'))"
  unfolding skip_sep_def Let_def
proof (rule ends_bind [OF st_save_next [OF assms(1,2)]])
  fix l1 assume s1: "0 < n \<and> st (n - 1) (k + 1) l1"
  let ?c = "\<lambda>(ls :: 'z LexState, count :: int). ls_current ls = cc CHR ''=''"
  let ?b = "\<lambda>(ls, count). ebind (save_and_next getc ls) (\<lambda>ls. Inr (ls, count + 1))"
  let ?I = "\<lambda>n (ls, count). 0 \<le> count \<and> st n (k + 1 + nat count) ls"
  have "ends (while_n f ?c ?b (l1, 0)) (\<lambda>s'. (\<exists>m \<le> n - 1. ?I m s') \<and> \<not> ?c s')"
  proof (rule while_n_ends)
    fix m and s :: "'z LexState \<times> int" assume i: "?I m s" and c: "?c s"
    obtain l j where s: "s = (l, j)" by fastforce
    have ne: "ls_current l \<noteq> EOZ" using c s cc_not_end by (simp del: cc_def)
    have "ends (ebind (save_and_next getc l) (\<lambda>ls. Inr (ls, j + 1))) (\<lambda>s'. \<exists>m' < m. ?I m' s')"
    proof (rule ends_bind [OF st_save_next [OF _ ne]])
      show "st m (k + 1 + nat j) l" using i s by simp
      fix l' assume "0 < m \<and> st (m - 1) (k + 1 + nat j + 1) l'"
      then show "ends (Inr (l', j + 1)) (\<lambda>s'. \<exists>m' < m. ?I m' s')"
        using i s by (auto intro!: exI [of _ "m - 1"] simp: nat_add_distrib)
    qed
    with i s st_pos [OF _ ne] show "ends (?b s) (\<lambda>s'. \<exists>m' < m. ?I m' s')" by auto
  qed (use s1 assms(3) in auto)
  then show "ends (ebind (while_n f ?c ?b (l1, 0))
      (\<lambda>(l, count). Inr (l, if ls_current l = ls_current ls then count else - count - 1)))
    (\<lambda>(ls', sep). 0 < n \<and> st (n - 1) k ls' \<and>
      (0 \<le> sep \<longrightarrow> ls_current ls' = ls_current ls \<and> st (n - 1) (k + 1 + nat sep) ls'))"
    by (rule ends_bind) (use s1 in \<open>auto intro: st_mono split: prod.splits\<close>)
qed

lemma st_long_step:
  assumes s: "st n (if sem then k else 0) ls" and sep: "0 \<le> sep" and f: "n < f"
  shows "ends (long_step f getc sem sep ls) (\<lambda>(ls', stop). 0 < n \<and> st (n - 1) (if sem then k else 0) ls' \<and>
    (stop \<longrightarrow> sem \<longrightarrow> st (n - 1) (k + 2 + nat sep) ls'))"
    (is "ends _ ?post")
proof (cases "ls_current ls = EOZ")
  case True
  then show ?thesis by (simp add: long_step_def lexerror_def)
next
  case ne: False
  let ?k = "if sem then k else 0"
  have keep: "ends (ebind (next_char getc ls) (\<lambda>ls. Inr (ls, False))) ?post"
    by (rule ends_bind [OF st_next [OF s ne]]) auto
  have keep': "ends (ebind (save_and_next getc ls) (\<lambda>ls. Inr (ls, False))) ?post"
    by (rule ends_bind [OF st_save_next [OF s ne]]) (auto intro: st_mono)
  have close: "ends (ebind (save_and_next getc l) (\<lambda>ls. Inr (ls, True))) ?post"
    if "0 < n" "st (n - 1) (?k + 1 + nat sep) l" "ls_current l \<noteq> EOZ" for l
    by (rule ends_bind [OF st_save_next [OF that(2,3)]]) (use that(1) in \<open>auto intro: st_mono\<close>)
  have open_: "ends (ebind (save_and_next getc l) (\<lambda>ls.
      if sep = 0 then Inl (lexerror ''nesting of [[...]] is deprecated'') else Inr (ls, False))) ?post"
    if "0 < n" "st (n - 1) (?k + 1 + nat sep) l" "ls_current l \<noteq> EOZ" for l
    by (rule ends_bind [OF st_save_next [OF that(2,3)]]) (use that(1) in \<open>auto simp: lexerror_def intro: st_mono\<close>)
  have newline: "ends (ebind (save 10 ls) (\<lambda>ls. ebind (inclinenumber getc ls) (\<lambda>ls.
      Inr (if sem then ls else resetbuffer ls, False)))) ?post" if "currIsNewline ls"
  proof (rule ends_bind [OF st_save [OF s]])
    fix l assume l: "st n (?k + 1) l \<and> ls_current l = ls_current ls"
    then have "currIsNewline l" using that by (simp add: currIsNewline_def)
    with l have "ends (inclinenumber getc l) (\<lambda>l'. 0 < n \<and> st (n - 1) (?k + 1) l')" by (intro st_newline) auto
    then show "ends (ebind (inclinenumber getc l) (\<lambda>ls. Inr (if sem then ls else resetbuffer ls, False))) ?post"
      by (rule ends_bind) (auto intro: st_mono st_reset [THEN st_mono])
  qed
  note skip = st_skip_sep [OF s ne f]
  show ?thesis
    unfolding long_step_def if_not_P [OF ne]
    by (intro ends_if keep keep' newline ends_bind [OF skip]; clarify?; intro ends_if open_ close)
      (use ne sep in \<open>auto simp del: cc_def intro: st_mono\<close>)
qed

lemma st_read_long:
  assumes s: "st n (if sem then 1 + nat sep else 0) ls" and ne: "ls_current ls \<noteq> EOZ" and sep: "0 \<le> sep" and f: "n < f"
  shows "ends (read_long_string f getc sem sep ls) (\<lambda>(ls', s). 0 < n \<and> st (n - 1) 0 ls')"
  unfolding read_long_string_def
proof (rule ends_bind [OF st_save_next [OF s ne]])
  let ?k = "2 + nat sep"
  let ?K = "if sem then ?k else 0"
  fix l1 assume "0 < n \<and> st (n - 1) ((if sem then 1 + nat sep else 0) + 1) l1"
  then have s1: "0 < n" "st (n - 1) ?K l1" by (auto intro: st_mono)
  have nl: "ends (if currIsNewline l1 then inclinenumber getc l1 else Inr l1) (st (n - 1) ?K)"
    by (intro ends_if ends_weaken [OF st_newline]) (use s1 in \<open>auto intro: st_mono\<close>)
  let ?I = "\<lambda>m (ls, stop). m < f \<and> st m ?K ls \<and> (stop \<longrightarrow> sem \<longrightarrow> st m (2 * ?k) ls)"
  have loop: "ends (while_n f (\<lambda>(ls, stop). \<not> stop) (\<lambda>(ls, stop). long_step f getc sem sep ls) (l2, False))
      (\<lambda>s'. (\<exists>m \<le> n - 1. ?I m s') \<and> \<not> (\<lambda>(ls, stop). \<not> stop) s')" if "st (n - 1) ?K l2" for l2
  proof (rule while_n_ends)
    fix m and s :: "'z LexState \<times> bool" assume i: "?I m s" "case s of (ls, stop) \<Rightarrow> \<not> stop"
    obtain l b where s: "s = (l, b)" by fastforce
    have "ends (long_step f getc sem sep l) (\<lambda>s'. \<exists>m' < m. ?I m' s')"
    proof (rule ends_weaken)
      show "ends (long_step f getc sem sep l) (\<lambda>(ls', stop). 0 < m \<and> st (m - 1) ?K ls' \<and>
          (stop \<longrightarrow> sem \<longrightarrow> st (m - 1) (?k + 2 + nat sep) ls'))"
        by (rule st_long_step) (use i s sep in auto)
    qed (use i s in \<open>auto intro!: exI [of _ "m - 1"] simp: mult_2\<close>)
    then show "ends (case s of (ls, stop) \<Rightarrow> long_step f getc sem sep ls) (\<lambda>s'. \<exists>m' < m. ?I m' s')"
      by (simp add: s)
  qed (use that f in auto)
  show "ends (ebind (if currIsNewline l1 then inclinenumber getc l1 else Inr l1) (\<lambda>ls.
     ebind (while_n f (\<lambda>(ls, stop). \<not> stop) (\<lambda>(ls, stop). long_step f getc sem sep ls) (ls, False)) (\<lambda>(ls, stop).
       if sem then ebind (inner_text (2 + nat sep) ls) (\<lambda>s. Inr (ls, SemTs s)) else Inr (ls, NoSem))))
     (\<lambda>(ls', s). 0 < n \<and> st (n - 1) 0 ls')"
  proof (rule ends_bind [OF nl], rule ends_bind [OF loop], assumption, goal_cases)
    case (1 l2 r)
    obtain l b where r: "r = (l, b)" by fastforce
    with 1 obtain m where m: "m \<le> n - 1" "st m ?K l" "sem \<longrightarrow> st m (2 * ?k) l" by auto
    then have "sem \<Longrightarrow> ends (inner_text ?k l) (\<lambda>s. True)" using st_inner_text [of m ?k l] by blast
    moreover have "0 < n \<and> st (n - 1) 0 l" using m(1,2) s1(1) by (auto intro: st_mono)
    ultimately show ?case
      unfolding r prod.case by (intro ends_if ends_bind [where P = "\<lambda>s. True"]) auto
  qed
qed

lemma st_decimal:
  "st n k ls \<Longrightarrow> cis isdigit (ls_current ls) \<Longrightarrow> 0 < j \<Longrightarrow>
   ends (decimal_escape j getc c ls) (\<lambda>(ls', c). 0 < n \<and> st (n - 1) k ls')"
proof (induction j arbitrary: n ls c)
  case (Suc j)
  have rec: "ends (decimal_escape j getc c' l) (\<lambda>(ls', c). 0 < n \<and> st (n - 1) k ls')"
    if "0 < n" "st (n - 1) k l" "0 < j \<and> cis isdigit (ls_current l)" for l c'
    by (rule ends_weaken [OF Suc.IH [of "n - 1" l c']]) (use that in \<open>auto intro: st_mono\<close>)
  show ?case
    unfolding decimal_escape.simps Let_def
    by (rule ends_bind [OF st_next [OF Suc.prems(1) cis_not_end [OF Suc.prems(2)]]], intro ends_if rec) auto
qed simp

lemma st_escape:
  assumes "st n k ls" "ls_current ls \<noteq> EOZ"
  shows "ends (read_escape getc ls) (\<lambda>ls'. 0 < n \<and> st (n - 1) k ls')"
  unfolding read_escape_def
proof (rule ends_bind [OF st_next [OF assms]])
  fix l assume l: "0 < n \<and> st (n - 1) k l"
  have drop1: "ends m (\<lambda>ls'. 0 < n \<and> st (n - 1) k ls')" if "ends m (\<lambda>ls'. 0 < n - 1 \<and> st (n - 1 - 1) (k + 1) ls')" for m
    using that by (rule ends_weaken) (use l in \<open>auto intro: st_mono\<close>)
  have saved: "ends (ebind (save c l) (next_char getc)) (\<lambda>ls'. 0 < n \<and> st (n - 1) k ls')"
    if "ls_current l \<noteq> EOZ" for c
    by (rule drop1, rule ends_bind [OF st_save]) (use l that in \<open>auto intro!: ends_weaken [OF st_next]\<close>)
  have newline: "ends (ebind (save 10 l) (inclinenumber getc)) (\<lambda>ls'. 0 < n \<and> st (n - 1) k ls')"
    if "currIsNewline l"
    by (rule drop1, rule ends_bind [OF st_save])
      (use l that in \<open>auto intro!: ends_weaken [OF st_newline] simp: currIsNewline_def\<close>)
  have dec: "ends (ebind (decimal_escape 3 getc 0 l) (\<lambda>(ls, c).
      if 255 < c then Inl (lexerror ''escape sequence too large'') else save c ls))
      (\<lambda>ls'. 0 < n \<and> st (n - 1) k ls')" if "cis isdigit (ls_current l)"
  proof (rule ends_bind [OF st_decimal [of "n - 1" k]], use l that in simp_all, goal_cases)
    case (1 r)
    obtain l' c where r: "r = (l', c)" by fastforce
    with 1 have "ends (save c l') (st (n - Suc 0) k)"
      by (intro ends_weaken [OF st_save]) (auto intro: st_mono)
    then show ?case by (simp add: r lexerror_def)
  qed
  show "ends (escape_char getc l) (\<lambda>ls'. 0 < n \<and> st (n - 1) k ls')"
  proof (cases "simple_escape (ls_current l)")
    case (Some c)
    then have "ls_current l \<noteq> EOZ" using cc_not_end by (auto simp: simple_escape_def simp del: cc_def split: if_splits)
    with saved Some show ?thesis by (simp add: escape_char_def)
  next
    case None
    show ?thesis
      unfolding escape_char_def None option.case
      by (intro ends_if newline dec drop1 [OF st_save_next]) (use l in simp_all)
  qed
qed

lemma st_string:
  assumes s: "st n 0 ls" "ls_current ls \<noteq> EOZ" and del: "del \<noteq> EOZ" and f: "n < f"
  shows "ends (read_string f getc del ls) (\<lambda>(ls', s). 0 < n \<and> st (n - 1) 0 ls')"
  unfolding read_string_def
proof (rule ends_bind [OF st_save_next [OF s]])
  fix l assume l: "0 < n \<and> st (n - 1) (0 + 1) l"
  have "ends (while_n f (\<lambda>ls. ls_current ls \<noteq> del) (string_step getc) l)
      (\<lambda>s'. (\<exists>m \<le> n - 1. st m 1 s') \<and> \<not> ls_current s' \<noteq> del)"
  proof (rule while_n_ends)
    fix m l assume m: "st m 1 l"
    show "ends (string_step getc l) (\<lambda>s'. \<exists>m' < m. st m' 1 s')"
    proof (cases "ls_current l = EOZ")
      case True
      then show ?thesis by (simp add: string_step_def lexerror_def)
    next
      case False
      then show ?thesis
        unfolding string_step_def
        by (intro ends_if ends_weaken [OF st_escape [OF m False]] ends_weaken [OF st_save_next [OF m False]])
          (auto simp: lexerror_def intro!: exI [of _ "m - 1"] intro: st_mono)
    qed
  qed (use l f in auto)
  then show "ends (ebind (while_n f (\<lambda>ls. ls_current ls \<noteq> del) (string_step getc) l) (\<lambda>ls.
     ebind (save_and_next getc ls) (\<lambda>ls. ebind (inner_text 1 ls) (\<lambda>s. Inr (ls, SemTs s)))))
     (\<lambda>(ls', s). 0 < n \<and> st (n - 1) 0 ls')"
  proof (rule ends_bind)
    fix l' assume "(\<exists>m \<le> n - 1. st m 1 l') \<and> \<not> ls_current l' \<noteq> del"
    then have l': "st (n - 1) 1 l'" "ls_current l' \<noteq> EOZ" using del by (auto intro: st_mono)
    show "ends (ebind (save_and_next getc l') (\<lambda>ls. ebind (inner_text 1 ls) (\<lambda>s. Inr (ls, SemTs s))))
        (\<lambda>(ls', s). 0 < n \<and> st (n - 1) 0 ls')"
    proof (rule ends_bind [OF st_save_next [OF l']])
      fix r assume r: "0 < n - 1 \<and> st (n - 1 - 1) (1 + 1) r"
      then have "ends (inner_text 1 r) (\<lambda>s. True)" by (intro st_inner_text [of "n - 1 - 1"]) (simp add: numeral_2_eq_2)
      then show "ends (ebind (inner_text 1 r) (\<lambda>s. Inr (r, SemTs s))) (\<lambda>(ls', s). 0 < n \<and> st (n - 1) 0 ls')"
        by (rule ends_bind) (use r l in \<open>auto intro: st_mono\<close>)
    qed
  qed
qed

text \<open>A round consumes at least one character, unless it is the end.\<close>

abbreviation step_post :: "nat \<Rightarrow> 'z LexState \<times> (int \<times> SemInfo) option \<Rightarrow> bool" where
  "step_post n \<equiv> \<lambda>(ls', r). 0 < n \<and> st (n - 1) 0 ls'"

lemma st_with_eq:
  assumes "st n k ls" "ls_current ls \<noteq> EOZ"
  shows "ends (with_eq getc one two ls) (step_post n)"
  unfolding with_eq_def
proof (rule ends_bind [OF st_next [OF assms]], rule ends_if)
  fix l assume l: "0 < n \<and> st (n - 1) k l"
  show "ends (Inr (l, Some (one, NoSem))) (step_post n)" using l by (auto intro: st_mono)
  assume "\<not> ls_current l \<noteq> cc CHR ''=''"
  then have "ls_current l \<noteq> EOZ" using cc_not_end by (simp del: cc_def)
  with l have "ends (next_char getc l) (\<lambda>l'. 0 < n - 1 \<and> st (n - 1 - 1) k l')" by (intro st_next) auto
  then show "ends (ebind (next_char getc l) (\<lambda>ls. Inr (ls, Some (two, NoSem)))) (step_post n)"
    by (rule ends_bind) (use l in \<open>auto intro: st_mono\<close>)
qed

lemma st_skip_line:
  assumes "st n k ls" "n < f"
  shows "ends (while_n f (\<lambda>ls. \<not> currIsNewline ls \<and> ls_current ls \<noteq> EOZ) (next_char getc) ls) (st n k)"
proof (rule ends_weaken [OF while_n_ends [where I = "\<lambda>n. st n k"]])
  fix m l assume "st m k l" "\<not> currIsNewline l \<and> ls_current l \<noteq> EOZ"
  then show "ends (next_char getc l) (\<lambda>s'. \<exists>m' < m. st m' k s')"
    by (intro ends_weaken [OF st_next]) (auto intro!: exI [of _ "m - 1"])
qed (use assms in \<open>auto intro: st_mono\<close>)

lemma st_minus:
  assumes s: "st n k ls" "ls_current ls \<noteq> EOZ" and f: "n < f"
  shows "ends (lex_minus f getc ls) (step_post n)"
  unfolding lex_minus_def
proof (rule ends_bind [OF st_next [OF s]], rule ends_if)
  fix l assume l: "0 < n \<and> st (n - 1) k l"
  show "ends (Inr (l, Some (cc CHR ''-'', NoSem))) (step_post n)" using l by (auto intro: st_mono)
  assume "\<not> ls_current l \<noteq> cc CHR ''-''"
  then have ne: "ls_current l \<noteq> EOZ" using cc_not_end by (simp del: cc_def)
  let ?short = "\<lambda>ls. ebind (while_n f (\<lambda>ls. \<not> currIsNewline ls \<and> ls_current ls \<noteq> EOZ) (next_char getc) ls)
                             (\<lambda>ls. Inr (ls, None))"
  have short: "ends (?short l') (step_post n)" if "st (n - 1) j l'" for l' j
    by (rule ends_bind [OF st_skip_line [OF that]]) (use l f in \<open>auto intro: st_mono\<close>)
  show "ends (ebind (next_char getc l) (\<lambda>ls. let short = ?short
         in if ls_current ls = cc CHR ''['' then
              ebind (skip_sep f getc ls) (\<lambda>(ls, sep).
                let ls = resetbuffer ls
                in if 0 \<le> sep then ebind (read_long_string f getc False sep ls) (\<lambda>(ls, _). Inr (resetbuffer ls, None))
                   else short ls)
            else short ls)) (step_post n)"
    unfolding Let_def
  proof (rule ends_bind [OF st_next [of "n - 1" k]], use l ne in simp_all, intro impI conjI, goal_cases)
    case (1 l1)
    then have ne1: "ls_current l1 \<noteq> EOZ" by simp
    from 1 have s1: "st (n - Suc (Suc 0)) k l1" by simp
    show ?case
    proof (rule ends_bind [OF st_skip_sep [OF s1 ne1, of f]], use f in simp, goal_cases)
      case (1 r)
      obtain l2 sep where r: "r = (l2, sep)" by fastforce
      have s2: "st (n - 1) j l2 \<Longrightarrow> st (n - 1) 0 (resetbuffer l2)" for j by (rule st_reset)
      show ?case
      proof (cases "0 \<le> sep")
        case True
        with 1 r ne1 have e: "ls_current (resetbuffer l2) \<noteq> EOZ" by (simp add: resetbuffer_def)
        have "st (n - 1) 0 (resetbuffer l2)" by (rule s2 [of k], rule st_mono) (use 1 r in auto)
        then have "ends (read_long_string f getc False sep (resetbuffer l2)) (\<lambda>(ls', s). 0 < n - 1 \<and> st (n - 1 - 1) 0 ls')"
          by (intro st_read_long) (use e True f in auto)
        then have "ends (ebind (read_long_string f getc False sep (resetbuffer l2)) (\<lambda>(ls, _). Inr (resetbuffer ls, None)))
            (step_post n)"
          by (rule ends_bind) (use l in \<open>auto intro: st_reset [OF st_less]\<close>)
        with True r show ?thesis using l by simp
      next
        case False
        have "st (n - 1) 0 (resetbuffer l2)" by (rule s2 [of k], rule st_mono) (use 1 r in auto)
        from short [OF this] False r l show ?thesis by simp
      qed
    qed
  next
    case (2 l1)
    then have "st (n - 1) k l1" by (auto intro: st_mono)
    from short [OF this] l show ?case by simp
  qed
qed

lemma st_bracket:
  assumes s: "st n 0 ls" "ls_current ls \<noteq> EOZ" and f: "n < f"
  shows "ends (lex_bracket f getc ls) (step_post n)"
  unfolding lex_bracket_def
proof (rule ends_bind [OF st_skip_sep [OF s f]], goal_cases)
  case (1 r)
  obtain l sep where r: "r = (l, sep)" by fastforce
  show ?case
  proof (cases "0 \<le> sep")
    case True
    with 1 r have "st (n - 1) (1 + nat sep) l" "ls_current l \<noteq> EOZ" using s(2) by auto
    then have "ends (read_long_string f getc True sep l) (\<lambda>(ls', s). 0 < n - 1 \<and> st (n - 1 - 1) 0 ls')"
      by (intro st_read_long) (use True f in auto)
    then have "ends (ebind (read_long_string f getc True sep l) (\<lambda>(ls, s). Inr (ls, Some (TK_STRING, s)))) (step_post n)"
      by (rule ends_bind) (auto intro: st_less)
    with True r show ?thesis by simp
  next
    case False
    with 1 r show ?thesis by (auto simp: lexerror_def)
  qed
qed

lemma st_dot:
  assumes s: "st n 0 ls" "ls_current ls \<noteq> EOZ" and f: "n < f"
  shows "ends (lex_dot f H dp getc ls) (step_post n)"
  unfolding lex_dot_def
proof (rule ends_bind [OF st_save_next [OF s]])
  fix l assume l: "0 < n \<and> st (n - 1) (0 + 1) l"
  have cn: "ends (check_next getc cs l') (\<lambda>(l'', b). st (n - 1) 0 l'')" if "st (n - 1) 0 l'" for cs l'
    by (rule ends_weaken [OF st_check_next [OF that]]) (auto split: if_splits intro: st_mono)
  have l0: "st (n - 1) 0 l" using l by (auto intro: st_mono)
  show "ends (ebind (check_next getc ''.'' l) (\<lambda>(ls, two).
       if two then ebind (check_next getc ''.'' ls) (\<lambda>(ls, three).
         Inr (ls, Some (if three then TK_DOTS else TK_CONCAT, NoSem)))
       else if \<not> cis isdigit (ls_current ls) then Inr (ls, Some (cc CHR ''.'', NoSem))
       else ebind (read_numeral f H dp getc ls) (\<lambda>(ls, s). Inr (ls, Some (TK_NUMBER, s))))) (step_post n)"
  proof (rule ends_bind [OF cn [OF l0]], goal_cases)
    case (1 r)
    obtain l' b where r: "r = (l', b)" by fastforce
    with 1 have l': "st (n - 1) 0 l'" by simp
    have two: "ends (ebind (check_next getc ''.'' l') (\<lambda>(ls, three).
        Inr (ls, Some (if three then TK_DOTS else TK_CONCAT, NoSem)))) (step_post n)"
      by (rule ends_bind [OF cn [OF l']]) (use l in auto)
    have num: "ends (ebind (read_numeral f H dp getc l') (\<lambda>(ls, s). Inr (ls, Some (TK_NUMBER, s)))) (step_post n)"
      if "cis isdigit (ls_current l')"
      by (rule ends_bind [OF st_numeral [OF l' that, of f]]) (use l f in \<open>auto intro: st_less\<close>)
    show ?case
      unfolding r prod.case by (intro ends_if two num) (use l l' in auto)
  qed
qed

lemma st_name:
  assumes s: "st n 0 ls" "ls_current ls \<noteq> EOZ" and f: "n < f"
  shows "ends (read_name f getc ls) (\<lambda>(ls', t, s). 0 < n \<and> st (n - 1) 0 ls')"
  unfolding read_name_def
proof (rule ends_bind [OF st_save_next [OF s]])
  fix l assume l: "0 < n \<and> st (n - 1) (0 + 1) l"
  have "ends (while_n f (\<lambda>ls. cis isalnum (ls_current ls) \<or> ls_current ls = cc CHR ''_'') (save_and_next getc) l)
      (st (n - 1) 0)"
    by (rule ends_weaken [OF st_save_loop [where n = "n - 1" and k = 0]])
      (use l f cis_not_end cc_not_end in \<open>auto simp del: cc_def intro: st_mono\<close>)
  then show "ends (ebind (while_n f (\<lambda>ls. cis isalnum (ls_current ls) \<or> ls_current ls = cc CHR ''_'')
      (save_and_next getc) l) (\<lambda>ls. let r = ts_reserved_of (buf ls)
       in if 0 < r then Inr (ls, int r - 1 + FIRST_RESERVED, NoSem)
          else Inr (ls, TK_NAME, SemTs (buf ls)))) (\<lambda>(ls', t, s). 0 < n \<and> st (n - 1) 0 ls')"
    by (rule ends_bind) (use l in \<open>auto simp: Let_def\<close>)
qed

lemma st_step:
  assumes s: "st n 0 ls" and f: "n < f"
  shows "ends (llex_step f H dp getc ls) (\<lambda>(ls', r). (0 < n \<and> st (n - 1) 0 ls') \<or>
    (r = Some (TK_EOS, NoSem) \<and> ls' = ls \<and> ls_current ls = EOZ))"
proof (cases "ls_current ls = EOZ")
  case True
  then have "\<not> currIsNewline ls" using newline_not_end by blast
  then show ?thesis using True
    by (simp add: llex_step_def cc_not_end cc_not_end [symmetric] del: cc_def)
next
  case ne: False
  have nx: "ends (ebind (next_char getc ls) (\<lambda>ls. Inr (ls, r))) (step_post n)" for r
    by (rule ends_bind [OF st_next [OF s ne]]) auto
  have nl: "ends (ebind (inclinenumber getc ls) (\<lambda>ls. Inr (ls, None))) (step_post n)" if "currIsNewline ls"
    by (rule ends_bind [OF st_newline [OF s that]]) auto
  have str: "ends (ebind (read_string f getc (ls_current ls) ls) (\<lambda>(ls, s). Inr (ls, Some (TK_STRING, s)))) (step_post n)"
    by (rule ends_bind [OF st_string [OF s ne ne f]]) auto
  have num: "ends (ebind (read_numeral f H dp getc ls) (\<lambda>(ls, s). Inr (ls, Some (TK_NUMBER, s)))) (step_post n)"
    if "cis isdigit (ls_current ls)"
    by (rule ends_bind [OF st_numeral [OF s that f]]) auto
  have name: "ends (ebind (read_name f getc ls) (\<lambda>(ls, t, s). Inr (ls, Some (t, s)))) (step_post n)"
    by (rule ends_bind [OF st_name [OF s ne f]]) auto
  have "ends (llex_step f H dp getc ls) (step_post n)"
    unfolding llex_step_def Let_def
    by (intro ends_if nl st_minus [OF s ne f] st_bracket [OF s ne f] st_with_eq [OF s ne] str st_dot [OF s ne f]
        nx num name) (use ne in simp_all)
  then show ?thesis by (rule ends_weaken) auto
qed

lemma st_lex_n:
  "st n 0 ls \<Longrightarrow> n < f \<Longrightarrow> n < d \<Longrightarrow>
   ends (llex_n d f H dp getc ls) (\<lambda>(ls', t, s). (0 < n \<and> st (n - 1) 0 ls') \<or>
     (t = TK_EOS \<and> st n 0 ls' \<and> ls_current ls' = EOZ))"
proof (induction d arbitrary: n ls)
  case (Suc d)
  show ?case
    unfolding llex_n.simps
  proof (rule ends_bind [OF st_step [OF Suc.prems(1,2)]], goal_cases)
    case (1 r)
    obtain l o' where r: "r = (l, o')" by fastforce
    show ?case
    proof (cases o')
      case None
      with 1 r have l: "0 < n" "st (n - 1) 0 l" by auto
      have "ends (llex_n d f H dp getc l) (\<lambda>(ls', t, s). (0 < n - 1 \<and> st (n - 1 - 1) 0 ls') \<or>
          (t = TK_EOS \<and> st (n - 1) 0 ls' \<and> ls_current ls' = EOZ))"
        by (rule Suc.IH) (use l Suc.prems in auto)
      then have "ends (llex_n d f H dp getc l) (\<lambda>(ls', t, s). (0 < n \<and> st (n - 1) 0 ls') \<or>
          (t = TK_EOS \<and> st n 0 ls' \<and> ls_current ls' = EOZ))"
        by (rule ends_weaken) (use l in \<open>auto intro: st_mono\<close>)
      with None r show ?thesis by simp
    next
      case (Some x)
      with 1 r Suc.prems(1) show ?thesis by (cases x) auto
    qed
  qed
qed simp

text \<open>
  With more fuel than characters left \<open>llex\<close> returns a token, or raises an error; a token that is
  not the end has consumed a character.
\<close>

lemma llex_ends:
  "st n k ls \<Longrightarrow> n < f \<Longrightarrow>
   ends (llex f H dp getc ls) (\<lambda>(ls', t, s). (0 < n \<and> st (n - 1) 0 ls') \<or>
     (t = TK_EOS \<and> st n 0 ls' \<and> ls_current ls' = EOZ))"
  unfolding llex_def by (rule st_lex_n [OF st_reset]) simp_all

section \<open>Reading what was written\<close>

text \<open>Good states with room in the buffer and in the line counter.\<close>

definition room :: "nat \<Rightarrow> 'z LexState \<Rightarrow> bool" where
  "room k ls \<longleftrightarrow> buf_ok (ls_buff ls) \<and> length (buf ls) + k < 2 ^ 62 \<and> ls_linenumber ls + int k < MAX_INT"

lemma room_mono: "room k ls \<Longrightarrow> k' \<le> k \<Longrightarrow> room k' ls"
  by (auto simp: room_def)

lemma next_exact:
  assumes "at ls (c # bs)" "room k ls"
  shows "\<exists>ls'. next_char getc ls = Inr ls' \<and> at ls' bs \<and> buf ls' = buf ls \<and> room k ls'"
  using next_at [OF assms(1)] assms(2) by (auto simp: room_def)

lemma save_exact:
  assumes "at ls bs" "room (Suc k) ls"
  shows "\<exists>ls'. save c ls = Inr ls' \<and> at ls' bs \<and> buf ls' = buf ls @ [word_of_int c] \<and> room k ls'"
  using save_total [of ls c] assms by (auto simp: room_def)

lemma word_of_char2int [simp]: "word_of_int (char2int c) = (c :: lu_byte)"
  by (simp add: char2int_def)

lemma save_next_exact:
  assumes "at ls (c # bs)" "room (Suc k) ls"
  shows "\<exists>ls'. save_and_next getc ls = Inr ls' \<and> at ls' bs \<and> buf ls' = buf ls @ [c] \<and> room k ls'"
proof -
  have "ls_current ls = char2int c" using assms(1) by (simp add: at_def)
  with save_exact [OF assms, of "ls_current ls"] obtain l where
    l: "save (ls_current ls) ls = Inr l" "at l (c # bs)" "buf l = buf ls @ [c]" "room k l" by auto
  with next_exact [OF l(2,4)] show ?thesis by (auto simp: save_and_next_def)
qed

lemma at_current: "at ls (c # bs) \<Longrightarrow> ls_current ls = char2int c"
  by (simp add: at_def)

lemma newline_exact:
  assumes "at ls (10 # bs)" "room (Suc k) ls" "bs \<noteq> []" "hd bs \<noteq> 13"
  shows "\<exists>ls'. inclinenumber getc ls = Inr ls' \<and> at ls' bs \<and> buf ls' = buf ls \<and> room k ls'"
proof -
  from next_exact [OF assms(1,2)] obtain l where
    l: "next_char getc ls = Inr l" "at l bs" "buf l = buf ls" "room (Suc k) l" by blast
  obtain c r where c: "bs = c # r" "c \<noteq> 13" using assms(3,4) by (cases bs) auto
  with l(2) have cur: "ls_current l = char2int c" by (simp add: at_def)
  have old: "ls_current ls = char2int 10" using at_current [OF assms(1)] .
  have "\<not> (currIsNewline l \<and> ls_current l \<noteq> ls_current ls)"
    using c(2) by (auto simp: currIsNewline_def cur old)
  with l show ?thesis by (auto simp: inclinenumber_def Let_def room_def)
qed

text \<open>A byte that is no delimiter, backslash or line break stands for itself.\<close>

lemma step_plain:
  assumes "at ls (c # bs)" "room (Suc k) ls" "c \<noteq> 10" "c \<noteq> 13" "c \<noteq> 0x5C"
  shows "\<exists>ls'. string_step getc ls = Inr ls' \<and> at ls' bs \<and> buf ls' = buf ls @ [c] \<and> room k ls'"
  using save_next_exact [OF assms(1,2)] at_current [OF assms(1)] assms(3-5)
  by (simp add: string_step_def currIsNewline_def)

lemma step_escape:
  assumes "at ls (0x5C # bs)" "room k ls"
  obtains l where "at l bs" "room k l" "buf l = buf ls"
    "string_step getc ls = escape_char getc l"
proof -
  from next_exact [OF assms] obtain l where l: "next_char getc ls = Inr l" "at l bs" "buf l = buf ls" "room k l" by blast
  show thesis
    by (rule that [OF l(2,4,3)])
      (use at_current [OF assms(1)] l(1) in \<open>simp add: string_step_def currIsNewline_def read_escape_def\<close>)
qed

lemma step_quoted:
  assumes at: "at ls (quoted c @ d # bs)" and r: "room (k + 2) ls" and d: "d \<noteq> 10" "d \<noteq> 13"
  shows "\<exists>ls'. string_step getc ls = Inr ls' \<and> at ls' (d # bs) \<and> buf ls' = buf ls @ [c] \<and> room k ls'"
proof -
  have r1: "room (Suc k) l" if "room (k + 2) l" for l using that by (rule room_mono) simp
  consider "c = 0x22 \<or> c = 0x5C" | "c = 10" | "c = 13" | "c = 0"
    | "c \<noteq> 0x22" "c \<noteq> 0x5C" "c \<noteq> 10" "c \<noteq> 13" "c \<noteq> 0" by blast
  then show ?thesis
  proof cases
    case 1
    with at have "at ls (0x5C # c # d # bs)" by (auto simp: quoted_def)
    then obtain l where l: "at l (c # d # bs)" "room (k + 2) l" "buf l = buf ls"
      "string_step getc ls = escape_char getc l"
      using r by (rule step_escape)
    have "string_step getc ls = save_and_next getc l"
      using 1 unfolding l(4) escape_char_def at_current [OF l(1)]
      by (auto simp: simple_escape_def currIsNewline_def at_current [OF l(1)] isdigit_def)
    with save_next_exact [OF l(1) r1 [OF l(2)]] l(3) show ?thesis by simp
  next
    case 2
    with at have "at ls (0x5C # 10 # d # bs)" by (simp add: quoted_def)
    then obtain l where l: "at l (10 # d # bs)" "room (k + 2) l" "buf l = buf ls"
      "string_step getc ls = escape_char getc l"
      using r by (rule step_escape)
    have "string_step getc ls = ebind (save 10 l) (inclinenumber getc)"
      unfolding l(4) escape_char_def at_current [OF l(1)]
      by (simp add: simple_escape_def currIsNewline_def at_current [OF l(1)])
    moreover from save_exact [OF l(1), of "Suc k" 10] l(2) obtain l1 where
      l1: "save 10 l = Inr l1" "at l1 (10 # d # bs)" "buf l1 = buf l @ [10]" "room (Suc k) l1"
      by auto
    ultimately show ?thesis using newline_exact [OF l1(2,4)] d(2) l(3) 2 by auto
  next
    case 3
    with at have "at ls (0x5C # 0x72 # d # bs)" by (simp add: quoted_def)
    then obtain l where l: "at l (0x72 # d # bs)" "room (k + 2) l" "buf l = buf ls"
      "string_step getc ls = escape_char getc l"
      using r by (rule step_escape)
    have "string_step getc ls = ebind (save 13 l) (next_char getc)"
      unfolding l(4) escape_char_def at_current [OF l(1)] by (simp add: simple_escape_def)
    moreover from save_exact [OF l(1) r1 [OF l(2)], of 13] obtain l1 where
      l1: "save 13 l = Inr l1" "at l1 (0x72 # d # bs)" "buf l1 = buf l @ [13]" "room k l1" by auto
    ultimately show ?thesis using next_exact [OF l1(2,4)] l(3) 3 by auto
  next
    case 4
    with at have "at ls (0x5C # 0x30 # 0x30 # 0x30 # d # bs)" by (simp add: quoted_def)
    then obtain l where l: "at l (0x30 # 0x30 # 0x30 # d # bs)" "room (k + 2) l" "buf l = buf ls"
      "string_step getc ls = escape_char getc l"
      using r by (rule step_escape)
    from next_exact [OF l(1,2)] obtain l1 where
      l1: "next_char getc l = Inr l1" "at l1 (0x30 # 0x30 # d # bs)" "buf l1 = buf l" "room (k + 2) l1" by blast
    from next_exact [OF l1(2,4)] obtain l2 where
      l2: "next_char getc l1 = Inr l2" "at l2 (0x30 # d # bs)" "buf l2 = buf l1" "room (k + 2) l2" by blast
    from next_exact [OF l2(2,4)] obtain l3 where
      l3: "next_char getc l2 = Inr l3" "at l3 (d # bs)" "buf l3 = buf l2" "room (k + 2) l3" by blast
    note cur = at_current [OF l(1)] at_current [OF l1(2)] at_current [OF l2(2)]
    have zero: "char2int 0x30 = 48" by (simp add: char2int_def)
    have "decimal_escape 3 getc 0 l = Inr (l3, 0)"
      using l1(1) l2(1) l3(1) by (simp add: numeral_3_eq_3 cur zero isdigit_def cis_def)
    then have "string_step getc ls = save 0 l3"
      unfolding l(4) escape_char_def cur(1) by (simp add: simple_escape_def currIsNewline_def cur isdigit_def)
    with save_exact [OF l3(2) r1 [OF l3(4)], of 0] l(3) l1(3) l2(3) l3(3) 4 show ?thesis by simp
  next
    case 5
    with at have "at ls (c # d # bs)" by (simp add: quoted_def)
    from step_plain [OF this r1 [OF r]] 5 show ?thesis by simp
  qed
qed

lemma quoted_head: "\<exists>d t. quoted c = d # t \<and> d \<noteq> 10 \<and> d \<noteq> 13 \<and> d \<noteq> 0x22"
  by (auto simp: quoted_def)

lemma string_loop:
  "at ls (concat (map quoted s) @ 0x22 # rest) \<Longrightarrow> room (2 * length s + k) ls \<Longrightarrow> length s < f \<Longrightarrow>
   \<exists>ls'. while_n f (\<lambda>ls. ls_current ls \<noteq> char2int 0x22) (string_step getc) ls = Inr ls' \<and>
     at ls' (0x22 # rest) \<and> buf ls' = buf ls @ s \<and> room k ls'"
proof (induction s arbitrary: ls f)
  case Nil
  then have "ls_current ls = char2int 0x22" by (simp add: at_current)
  with Nil show ?case by (cases f) auto
next
  case (Cons c s)
  obtain f' where f: "f = Suc f'" using Cons.prems(3) by (cases f) auto
  obtain d bs where d: "concat (map quoted s) @ 0x22 # rest = d # bs" "d \<noteq> 10" "d \<noteq> 13"
  proof (cases s)
    case (Cons a s')
    with quoted_head [of a] that show ?thesis by auto
  qed (use that [of "0x22"] in auto)
  obtain x t where x: "quoted c = x # t" "x \<noteq> 0x22" using quoted_head by blast
  have go: "ls_current ls \<noteq> char2int 0x22" using at_current [of ls x] Cons.prems(1) x by simp
  have "room ((2 * length s + k) + 2) ls" using Cons.prems(2) by (simp add: add.commute)
  moreover have "at ls (quoted c @ d # bs)" using Cons.prems(1) d(1) by simp
  ultimately obtain l where l: "string_step getc ls = Inr l" "at l (d # bs)" "buf l = buf ls @ [c]"
    "room (2 * length s + k) l"
    using step_quoted d(2,3) by blast
  from Cons.IH [of l f'] l d(1) Cons.prems(3) f obtain l' where
    "while_n f' (\<lambda>ls. ls_current ls \<noteq> char2int 0x22) (string_step getc) l = Inr l'"
    "at l' (0x22 # rest)" "buf l' = buf l @ s" "room k l'" by auto
  with l go f show ?case by simp
qed

lemma at_reset [simp]: "at (resetbuffer ls) bs = at ls bs"
  by (simp add: resetbuffer_def)

lemma room_reset: "buf_ok (ls_buff ls) \<Longrightarrow> k < 2 ^ 62 \<Longrightarrow> ls_linenumber ls + int k < MAX_INT \<Longrightarrow> room k (resetbuffer ls)"
  by (simp add: room_def resetbuffer_def buf_ok_reset)

text \<open>\<^verbatim>\<open>%q\<close> of \<^verbatim>\<open>string.format\<close> writes a string so that the analyser reads it back.\<close>

lemma llex_quoted:
  assumes at: "at ls (addquoted s [] @ rest)" and ok: "buf_ok (ls_buff ls)" and f: "length s < f"
    and small: "2 * length s + 3 < 2 ^ 62" "ls_linenumber ls + int (2 * length s + 3) < MAX_INT"
  shows "\<exists>ls'. llex f H dp getc ls = Inr (ls', TK_STRING, SemTs s) \<and> at ls' rest"
proof -
  let ?l = "resetbuffer ls"
  have at0: "at ?l (0x22 # concat (map quoted s) @ 0x22 # rest)" using at by (simp add: addquoted_eq)
  have "room (2 * length s + 3) ?l" using room_reset [OF ok, of "2 * length s + 3"] small by simp
  then have "room (Suc (2 * length s + 2)) ?l" by (rule room_mono) simp
  from save_next_exact [OF at0 this] obtain l1 where
    l1: "save_and_next getc ?l = Inr l1" "at l1 (concat (map quoted s) @ 0x22 # rest)" "buf l1 = [0x22]"
      "room (2 * length s + 2) l1" by (auto simp: resetbuffer_def)
  from string_loop [OF l1(2,4) f] obtain l2 where
    l2: "while_n f (\<lambda>ls. ls_current ls \<noteq> char2int 0x22) (string_step getc) l1 = Inr l2"
      "at l2 (0x22 # rest)" "buf l2 = 0x22 # s" "room 2 l2" using l1(3) by auto
  from save_next_exact [OF l2(2), of 1] l2(4) obtain l3 where
    l3: "save_and_next getc l2 = Inr l3" "at l3 rest" "buf l3 = 0x22 # s @ [0x22]"
    using l2(3) by (auto simp: numeral_2_eq_2)
  have "inner_text 1 l3 = Inr s" using l3(3) by (simp add: inner_text_def)
  then have r: "read_string f getc (char2int 0x22) ?l = Inr (l3, SemTs s)"
    using l1(1) l2(1) l3(1) by (simp add: read_string_def)
  have "llex_step f H dp getc ?l = Inr (l3, Some (TK_STRING, SemTs s))"
    unfolding llex_step_def at_current [OF at0] Let_def using r
    by (simp add: currIsNewline_def at_current [OF at0])
  then show ?thesis using l3(2) by (simp add: llex_def)
qed

text \<open>A word made of letters, digits and underscores is a name or the reserved word it spells.\<close>

definition word_char :: "lu_byte \<Rightarrow> bool" where
  "word_char c \<longleftrightarrow> isalnum c \<or> c = ch CHR ''_''"

lemma word_loop:
  "at ls (w @ rest) \<Longrightarrow> room (length w + k) ls \<Longrightarrow> length w < f \<Longrightarrow> list_all word_char w \<Longrightarrow>
   (\<forall>c r. rest = c # r \<longrightarrow> \<not> word_char c) \<Longrightarrow>
   \<exists>ls'. while_n f (\<lambda>ls. cis isalnum (ls_current ls) \<or> ls_current ls = cc CHR ''_'') (save_and_next getc) ls = Inr ls' \<and>
     at ls' rest \<and> buf ls' = buf ls @ w \<and> room k ls'"
proof (induction w arbitrary: ls f)
  case Nil
  have "\<not> (cis isalnum (ls_current ls) \<or> ls_current ls = cc CHR ''_'')"
  proof (cases rest)
    case Nil
    with Nil.prems(1) have "ls_current ls = EOZ" by (simp add: at_def)
    then show ?thesis using cc_not_end [of "CHR ''_''"] by (simp del: cc_def)
  next
    case (Cons c r)
    with Nil.prems(1) have "ls_current ls = char2int c" by (simp add: at_def)
    with Cons Nil.prems(5) show ?thesis by (auto simp: word_char_def)
  qed
  with Nil.prems show ?case by (cases f) auto
next
  case (Cons c w)
  obtain f' where f: "f = Suc f'" using Cons.prems(3) by (cases f) auto
  from Cons.prems save_next_exact [of ls c "w @ rest" "length w + k"] obtain l where
    l: "save_and_next getc ls = Inr l" "at l (w @ rest)" "buf l = buf ls @ [c]" "room (length w + k) l" by auto
  from Cons.IH [OF l(2,4), of f'] Cons.prems f l(3) obtain l' where
    "while_n f' (\<lambda>ls. cis isalnum (ls_current ls) \<or> ls_current ls = cc CHR ''_'') (save_and_next getc) l = Inr l'"
    "at l' rest" "buf l' = buf ls @ c # w" "room k l'" by auto
  with l(1) f at_current [of ls c] Cons.prems show ?case by (auto simp: word_char_def)
qed

lemma llex_word:
  assumes at: "at ls (c # w @ rest)" and ok: "buf_ok (ls_buff ls)" and f: "length w < f"
    and word: "isalpha c \<or> c = ch CHR ''_''" "list_all word_char w" "\<forall>c r. rest = c # r \<longrightarrow> \<not> word_char c"
    and small: "length w + 1 < 2 ^ 62" "ls_linenumber ls + int (length w + 1) < MAX_INT"
  shows "\<exists>ls'. llex f H dp getc ls = Inr (ls', if 0 < ts_reserved_of (c # w)
      then (int (ts_reserved_of (c # w)) - 1 + FIRST_RESERVED, NoSem) else (TK_NAME, SemTs (c # w))) \<and> at ls' rest"
proof -
  let ?l = "resetbuffer ls"
  have at0: "at ?l (c # w @ rest)" using at by simp
  have "room (Suc (length w + 0)) ?l" using room_reset [OF ok, of "length w + 1"] small by simp
  from save_next_exact [OF at0 this] obtain l1 where
    l1: "save_and_next getc ?l = Inr l1" "at l1 (w @ rest)" "buf l1 = [c]" "room (length w + 0) l1"
    by (auto simp: resetbuffer_def)
  from word_loop [OF l1(2,4) f word(2,3)] l1(3) obtain l2 where
    l2: "while_n f (\<lambda>ls. cis isalnum (ls_current ls) \<or> ls_current ls = cc CHR ''_'') (save_and_next getc) l1 = Inr l2"
      "at l2 rest" "buf l2 = c # w" by auto
  let ?r = "if 0 < ts_reserved_of (c # w) then (int (ts_reserved_of (c # w)) - 1 + FIRST_RESERVED, NoSem)
    else (TK_NAME, SemTs (c # w))"
  have n: "read_name f getc ?l = Inr (l2, ?r)"
    unfolding read_name_def l1(1) ebind_simps l2(1) l2(3) Let_def by simp
  have "\<not> isspace c \<and> \<not> isdigit c \<and> (isalpha c \<or> c = 0x5F)" "c \<notin> {10, 13, 0x2D, 0x5B, 0x3D, 0x3C, 0x3E, 0x7E, 0x22, 0x27, 0x2E}"
    using word(1) by (auto simp: ctype_defs word_le_nat_alt)
  then have "llex_step f H dp getc ?l = Inr (l2, Some ?r)"
    unfolding llex_step_def at_current [OF at0] Let_def n
    by (auto simp: currIsNewline_def at_current [OF at0])
  then show ?thesis using l2(2) by (auto simp: llex_def split: if_splits)
qed

end

text \<open>The streams of lzio.h are sources of characters.\<close>

interpretation zs: char_source "zgetc reader" "zstream reader" for reader :: "'d lua_Reader"
proof
  show "\<exists>z'. zgetc reader z = Inr (z', char2int c) \<and> zstream reader z' bs" if "zstream reader z (c # bs)" for z c bs
    by (rule zgetc_stream [OF that])
  show "\<exists>z'. zgetc reader z = Inr (z', EOZ)" if "zstream reader z []" for z
    using zgetc_twice_at_end [OF that] by blast
qed

end
