(* ===== verification/Random_MT.thy ===== *)
theory Random_MT
  imports Lua_Prelude
begin

text \<open>
  The random-number library, src/random/random.c (Mersenne Twister MT19937) and the functions of
  src/random/lrandom.c that compute on its state.  \<^verbatim>\<open>unsigned long\<close> has 32 or 64 bits depending on
  the platform: the generator is defined for any word length, and the theory shows that the two
  platforms produce the same numbers.

  Results of type \<^verbatim>\<open>double\<close> are given as integers in units of \<open>2 ^ - 32\<close> or \<open>2 ^ - 53\<close>; \<open>round53\<close>
  is the rounding of such an integer to a 53-bit significand, to nearest, ties to even.
\<close>

section \<open>The generator\<close>

definition MT_N :: nat where "MT_N = 624"
definition MT_M :: nat where "MT_M = 397"
definition MATRIX_A :: "'a::len word" where "MATRIX_A = 0x9908b0df"
definition UPPER_MASK :: "'a::len word" where "UPPER_MASK = 0x80000000"
definition LOWER_MASK :: "'a::len word" where "LOWER_MASK = 0x7fffffff"

record 'w MT =
  mt_v :: "'w list"
  mt_i :: nat
  mt_iset :: bool

text \<open>The seeding loop, for \<open>mti\<close> from 1; the words so far are in \<open>v\<close>.\<close>

definition seed_step :: "nat \<Rightarrow> 'a::len word list \<Rightarrow> 'a word list" where
  "seed_step mti v =
     v[mti := (1812433253 * (v ! (mti - 1) XOR drop_bit 30 (v ! (mti - 1))) + word_of_nat mti)
              AND 0xffffffff]"

definition init_genrand :: "'a::len word MT \<Rightarrow> 'a word \<Rightarrow> 'a word MT" where
  "init_genrand m s =
     m\<lparr>mt_v := fold seed_step [1..<MT_N] ((mt_v m)[0 := s AND 0xffffffff]),
       mt_i := MT_N, mt_iset := False\<rparr>"

text \<open>One new word, from the word \<open>k\<close>, its successor \<open>k1\<close> and the word \<open>src\<close>.\<close>

definition mag01 :: "'a::len word \<Rightarrow> 'a word" where
  "mag01 y = (if y AND 1 = 0 then 0 else MATRIX_A)"

definition twist :: "'a::len word \<Rightarrow> 'a word \<Rightarrow> 'a word \<Rightarrow> 'a word" where
  "twist u l m =
     (let y = (u AND UPPER_MASK) OR (l AND LOWER_MASK) in m XOR drop_bit 1 y XOR mag01 y)"

definition twist_at :: "nat \<Rightarrow> nat \<Rightarrow> nat \<Rightarrow> 'a::len word list \<Rightarrow> 'a word list" where
  "twist_at k k1 src v = v[k := twist (v ! k) (v ! k1) (v ! src)]"

text \<open>The three parts of the generation of a block of \<open>N\<close> words.\<close>

definition gen_block :: "'a::len word list \<Rightarrow> 'a word list" where
  "gen_block v =
     (let v1 = fold (\<lambda>kk. twist_at kk (kk + 1) (kk + MT_M)) [0..<MT_N - MT_M] v;
          v2 = fold (\<lambda>kk. twist_at kk (kk + 1) (kk + MT_M - MT_N)) [MT_N - MT_M..<MT_N - 1] v1
      in twist_at (MT_N - 1) 0 (MT_M - 1) v2)"

definition tempering :: "'a::len word \<Rightarrow> 'a word" where
  "tempering y0 =
     (let y1 = y0 XOR drop_bit 11 y0;
          y2 = y1 XOR (push_bit 7 y1 AND 0x9d2c5680);
          y3 = y2 XOR (push_bit 15 y2 AND 0xefc60000)
      in y3 XOR drop_bit 18 y3)"

definition genrand_int32 :: "'a::len word MT \<Rightarrow> 'a word MT \<times> 'a word" where
  "genrand_int32 m0 =
     (let m1 = (if mt_i m0 \<ge> MT_N
                then (let m = (if mt_i m0 = MT_N + 1 then init_genrand m0 5489 else m0)
                      in m\<lparr>mt_v := gen_block (mt_v m), mt_i := 0\<rparr>)
                else m0)
      in (m1\<lparr>mt_i := mt_i m1 + 1\<rparr>, tempering (mt_v m1 ! mt_i m1)))"

section \<open>Floating-point results\<close>

text \<open>\<open>genrand_real2\<close> is exact: the result is this integer times \<open>2 ^ - 32\<close>.\<close>

definition genrand_real2 :: "'a::len word MT \<Rightarrow> 'a word MT \<times> nat" where
  "genrand_real2 m = (let (m', y) = genrand_int32 m in (m', unat y))"

text \<open>\<open>genrand_res53\<close> is exact: the result is this integer times \<open>2 ^ - 53\<close>.\<close>

definition genrand_res53 :: "'a::len word MT \<Rightarrow> 'a word MT \<times> nat" where
  "genrand_res53 m =
     (let (m1, y1) = genrand_int32 m;
          (m2, y2) = genrand_int32 m1;
          a = unat (drop_bit 5 y1);
          b = unat (drop_bit 6 y2)
      in (m2, a * 67108864 + b))"

text \<open>Rounding to 53 significant bits.\<close>

definition bit_len :: "nat \<Rightarrow> nat" where
  "bit_len n = length (takeWhile (\<lambda>k. 2 ^ k \<le> n) [0..<n])"

definition round_to :: "nat \<Rightarrow> nat \<Rightarrow> nat" where
  "round_to e n =
     (let q = n div 2 ^ e; r = n mod 2 ^ e; h = 2 ^ e div 2
      in if e = 0 then n
         else if r > h \<or> r = h \<and> odd q then (q + 1) * 2 ^ e else q * 2 ^ e)"

function sig_shift :: "nat \<Rightarrow> nat" where
  "sig_shift n = (if n < 2 ^ 53 then 0 else Suc (sig_shift (n div 2)))"
  by pat_completeness auto
termination by (relation "measure id") auto

declare sig_shift.simps [simp del]

definition round53 :: "int \<Rightarrow> int" where
  "round53 x = (if x < 0 then - int (round_to (sig_shift (nat (- x))) (nat (- x)))
                else int (round_to (sig_shift (nat x)) (nat x)))"

text \<open>
  \<^verbatim>\<open>Lvaluei\<close> after its arguments: \<open>floor(a + r * (b - a + 1))\<close> where \<open>r\<close> is \<open>genrand_real2\<close>;
  the int expression must not overflow.
\<close>

definition valuei :: "int \<Rightarrow> int \<Rightarrow> nat \<Rightarrow> int res" where
  "valuei a b r =
     (if \<not> is_int (b - a) \<or> \<not> is_int (b - a + 1) then Inl (ErrUB ''int overflow'')
      else Inr (round53 (a * 2 ^ 32 + round53 (int r * (b - a + 1))) div 2 ^ 32))"

definition Lvaluei :: "'a::len word MT \<Rightarrow> int \<Rightarrow> int option \<Rightarrow> 'a word MT \<times> int res" where
  "Lvaluei m x y =
     (let (a, b) = (case y of None \<Rightarrow> (1, x) | Some b \<Rightarrow> (x, b));
          (m', r) = genrand_real2 m
      in (m', valuei a b r))"

definition SEED :: "'a::len word" where "SEED = 2007"

definition Lseed :: "'a::len word MT \<Rightarrow> 'a word option \<Rightarrow> 'a word MT" where
  "Lseed c s = init_genrand c (case s of None \<Rightarrow> SEED | Some x \<Rightarrow> x)"

section \<open>The state invariant\<close>

text \<open>All words of the state fit 32 bits, whatever the width of \<^verbatim>\<open>unsigned long\<close>.\<close>

definition word_ok :: "'a::len word \<Rightarrow> bool" where
  "word_ok w \<longleftrightarrow> take_bit 32 w = w"

definition mt_ok :: "'a::len word MT \<Rightarrow> bool" where
  "mt_ok m \<longleftrightarrow> length (mt_v m) = MT_N \<and> (\<forall>w \<in> set (mt_v m). word_ok w) \<and> mt_i m \<le> MT_N + 1"

lemma word_ok_bits: "word_ok x \<longleftrightarrow> (\<forall>n. 32 \<le> n \<longrightarrow> \<not> bit x n)"
proof
  assume t: "word_ok x"
  show "\<forall>n. 32 \<le> n \<longrightarrow> \<not> bit x n"
    by (subst t [unfolded word_ok_def, symmetric]) (simp add: bit_simps)
next
  assume "\<forall>n. 32 \<le> n \<longrightarrow> \<not> bit x n"
  then show "word_ok x"
    unfolding word_ok_def by (intro bit_word_eqI) (auto simp: bit_simps, meson linorder_not_le)
qed

lemma word_ok_ops:
  "word_ok a \<Longrightarrow> word_ok b \<Longrightarrow> word_ok (a XOR b)"
  "word_ok a \<Longrightarrow> word_ok b \<Longrightarrow> word_ok (a OR b)"
  "word_ok b \<Longrightarrow> word_ok (a AND b)"
  "word_ok a \<Longrightarrow> word_ok (drop_bit n a)"
  by (auto simp: word_ok_bits bit_simps)

lemma word_ok_of_int:
  assumes "0 \<le> k" "k < 2 ^ 32"
  shows "word_ok (word_of_int k :: 'a::len word)"
proof -
  have "\<not> bit k n" if "32 \<le> n" for n
    using assms that bit_take_bit_iff [of 32 k n] by (simp add: take_bit_int_eq_self)
  then show ?thesis by (simp add: word_ok_bits bit_simps)
qed

lemma word_ok_numeral:
  "word_ok (0xffffffff :: 'a::len word)" "word_ok (MATRIX_A :: 'a word)" "word_ok (UPPER_MASK :: 'a word)"
  "word_ok (LOWER_MASK :: 'a word)" "word_ok (0 :: 'a word)" "word_ok (0x9d2c5680 :: 'a word)"
  "word_ok (0xefc60000 :: 'a word)"
  using word_ok_of_int [where k = "0xffffffff" and 'a = 'a] word_ok_of_int [where k = "0x9908b0df" and 'a = 'a]
    word_ok_of_int [where k = "0x80000000" and 'a = 'a] word_ok_of_int [where k = "0x7fffffff" and 'a = 'a]
    word_ok_of_int [where k = "0x9d2c5680" and 'a = 'a] word_ok_of_int [where k = "0xefc60000" and 'a = 'a]
    word_ok_of_int [where k = "0" and 'a = 'a]
  by (simp_all add: MATRIX_A_def UPPER_MASK_def LOWER_MASK_def)

lemma word_ok_twist: "word_ok m \<Longrightarrow> word_ok (twist u l m)"
  by (simp add: twist_def Let_def mag01_def word_ok_ops word_ok_numeral)

lemma word_ok_tempering: "word_ok y \<Longrightarrow> word_ok (tempering y)"
  unfolding tempering_def Let_def by (intro word_ok_ops word_ok_numeral)

definition words_ok :: "'a::len word list \<Rightarrow> bool" where
  "words_ok v \<longleftrightarrow> length v = MT_N \<and> (\<forall>w \<in> set v. word_ok w)"

lemma twist_at_ok:
  assumes "words_ok v" "src < MT_N"
  shows "words_ok (twist_at k k1 src v)"
proof -
  have "word_ok (v ! src)" using assms by (simp add: words_ok_def)
  then show ?thesis
    using assms word_ok_twist set_update_subset_insert [of v k] by (fastforce simp: twist_at_def words_ok_def)
qed

lemma fold_ok:
  assumes "P s" "\<And>x s. x \<in> set xs \<Longrightarrow> P s \<Longrightarrow> P (f x s)"
  shows "P (fold f xs s)"
  using assms by (induction xs arbitrary: s) auto

lemma gen_block_ok:
  assumes "words_ok v"
  shows "words_ok (gen_block v)"
  unfolding gen_block_def Let_def
  by (intro twist_at_ok fold_ok [where P = words_ok] assms)
    (auto simp: MT_N_def MT_M_def simp del: upt_rec_numeral)

lemma seed_step_ok:
  assumes "words_ok v" "k < MT_N"
  shows "words_ok (seed_step k v)"
proof -
  have "word_ok (x AND 0xffffffff)" for x :: "'a word" by (rule word_ok_ops(3)) (rule word_ok_numeral)
  then show ?thesis
    using assms set_update_subset_insert [of v k] by (fastforce simp: words_ok_def seed_step_def)
qed

text \<open>Before the first call the vector is not initialised: the seeding overwrites every word.\<close>

lemma seed_step_take:
  assumes "length a = MT_N" "length b = MT_N" "take k a = take k b" "1 \<le> k" "k < MT_N"
  shows "length (seed_step k a) = MT_N \<and> length (seed_step k b) = MT_N \<and>
    take (Suc k) (seed_step k a) = take (Suc k) (seed_step k b)"
proof -
  have "a ! (k - 1) = b ! (k - 1)"
    using assms(4) nth_take [of "k - 1" k a] nth_take [of "k - 1" k b] by (simp add: assms(3))
  then show ?thesis using assms by (simp add: seed_step_def take_Suc_conv_app_nth)
qed

lemma seed_prefix:
  assumes "length v = MT_N"
  shows "fold seed_step [1..<MT_N] (v[0 := x]) = fold seed_step [1..<MT_N] ((replicate MT_N 0)[0 := x])"
proof -
  have "length (fold seed_step [1..<k] (v[0 := x])) = MT_N \<and>
    length (fold seed_step [1..<k] ((replicate MT_N 0)[0 := x])) = MT_N \<and>
    take k (fold seed_step [1..<k] (v[0 := x])) = take k (fold seed_step [1..<k] ((replicate MT_N 0)[0 := x]))"
    if "1 \<le> k" "k \<le> MT_N" for k
    using that
  proof (induction k rule: nat_induct_at_least)
    case base
    have "take (Suc 0) (w[0 := x]) = [x]" if "length w = MT_N" for w
      using that by (cases w) (simp_all add: MT_N_def)
    with assms show ?case by simp
  next
    case (Suc k)
    let ?a = "fold seed_step [1..<k] (v[0 := x])" and ?b = "fold seed_step [1..<k] ((replicate MT_N 0)[0 := x])"
    have IH: "length ?a = MT_N" "length ?b = MT_N" "take k ?a = take k ?b" using Suc by auto
    have "fold seed_step [1..<Suc k] w = seed_step k (fold seed_step [1..<k] w)" for w :: "'a word list"
      using Suc.hyps by simp
    then show ?case using seed_step_take [OF IH] Suc.hyps Suc.prems by simp
  qed
  from this [of MT_N] show ?thesis
    using take_all [of "fold seed_step [1..<MT_N] (v[0 := x])" MT_N]
      take_all [of "fold seed_step [1..<MT_N] ((replicate MT_N 0)[0 := x])" MT_N]
    by (metis MT_N_def le_refl numeral_One numeral_le_iff one_le_numeral)
qed

lemma init_genrand_ok:
  assumes "length (mt_v m) = MT_N"
  shows "words_ok (mt_v (init_genrand m s)) \<and> mt_i (init_genrand m s) = MT_N"
proof -
  have "word_ok (s AND 0xffffffff)" by (rule word_ok_ops(3)) (rule word_ok_numeral)
  then have "words_ok ((replicate MT_N 0)[0 := s AND 0xffffffff])"
    by (auto simp: words_ok_def word_ok_numeral MT_N_def dest: subsetD [OF set_update_subset_insert])
  then have "words_ok (fold seed_step [1..<MT_N] ((replicate MT_N 0)[0 := s AND 0xffffffff]))"
    by (rule fold_ok) (use seed_step_ok in auto)
  then show ?thesis by (simp add: init_genrand_def seed_prefix [OF assms, unfolded One_nat_def])
qed

section \<open>The recurrence\<close>

text \<open>MT19937 as an infinite sequence that continues the words of \<open>v\<close>.\<close>

function mt_rec :: "'a::len word list \<Rightarrow> nat \<Rightarrow> 'a word" where
  "mt_rec v n =
     (if n < MT_N then v ! n
      else twist (mt_rec v (n - MT_N)) (mt_rec v (n - MT_N + 1)) (mt_rec v (n - MT_N + MT_M)))"
  by pat_completeness auto
termination by (relation "measure snd") (auto simp: MT_N_def MT_M_def)

declare mt_rec.simps [simp del]

lemma mt_rec_step: "mt_rec v (MT_N + k) = twist (mt_rec v k) (mt_rec v (Suc k)) (mt_rec v (k + MT_M))"
  by (subst mt_rec.simps) simp

lemma fold_upt_inv:
  assumes "P a s" "a \<le> b" "\<And>k s. a \<le> k \<Longrightarrow> k < b \<Longrightarrow> P k s \<Longrightarrow> P (Suc k) (f k s)"
  shows "P b (fold f [a..<b] s)"
  using assms(2,3)
proof (induction b rule: nat_induct_at_least)
  case base
  with assms(1) show ?case by simp
next
  case (Suc b)
  then show ?case by simp
qed

definition half_done :: "(nat \<Rightarrow> 'a::len word) \<Rightarrow> nat \<Rightarrow> 'a word list \<Rightarrow> bool" where
  "half_done x k v \<longleftrightarrow> length v = MT_N \<and> (\<forall>j < MT_N. v ! j = (if j < k then x (MT_N + j) else x j))"

lemma twist_at_half_done:
  assumes "half_done x k v" "k < MT_N" "v ! k1 = x (Suc k)" "v ! src = x (k + MT_M)"
    "x (MT_N + k) = twist (x k) (x (Suc k)) (x (k + MT_M))"
  shows "half_done x (Suc k) (twist_at k k1 src v)"
  using assms by (auto simp: half_done_def twist_at_def nth_list_update less_Suc_eq)

lemma gen_block_rec:
  assumes len: "length v = MT_N" and x: "\<forall>j < MT_N. v ! j = x j"
    and rec: "\<And>k. x (MT_N + k) = twist (x k) (x (Suc k)) (x (k + MT_M))"
  shows "length (gen_block v) = MT_N \<and> (\<forall>j < MT_N. gen_block v ! j = x (MT_N + j))"
proof -
  have a: "half_done x (MT_N - MT_M) (fold (\<lambda>kk. twist_at kk (kk + 1) (kk + MT_M)) [0..<MT_N - MT_M] v)"
    (is "half_done x _ ?v1")
  proof (rule fold_upt_inv [where P = "half_done x"])
    show "half_done x 0 v" using len x by (simp add: half_done_def)
    fix k w assume "k < MT_N - MT_M" "half_done x k w"
    then show "half_done x (Suc k) (twist_at k (k + 1) (k + MT_M) w)"
      by (intro twist_at_half_done rec) (auto simp: half_done_def MT_N_def MT_M_def add.commute)
  qed simp
  have b: "half_done x (MT_N - 1)
    (fold (\<lambda>kk. twist_at kk (kk + 1) (kk + MT_M - MT_N)) [MT_N - MT_M..<MT_N - 1] ?v1)"
    (is "half_done x _ ?v2")
  proof (rule fold_upt_inv [where P = "half_done x"])
    fix k w assume k: "MT_N - MT_M \<le> k" "k < MT_N - 1" and w: "half_done x k w"
    have "w ! (k + MT_M - MT_N) = x (MT_N + (k + MT_M - MT_N))"
      using k w by (simp add: half_done_def MT_N_def MT_M_def)
    moreover have "MT_N + (k + MT_M - MT_N) = k + MT_M" using k by (simp add: MT_N_def MT_M_def)
    ultimately show "half_done x (Suc k) (twist_at k (k + 1) (k + MT_M - MT_N) w)"
      using k w by (intro twist_at_half_done rec) (auto simp: half_done_def MT_N_def MT_M_def add.commute)
  qed (use a in \<open>simp_all add: MT_N_def MT_M_def\<close>)
  have "half_done x (Suc (MT_N - 1)) (twist_at (MT_N - 1) 0 (MT_M - 1) ?v2)"
    using b by (intro twist_at_half_done rec) (auto simp: half_done_def MT_N_def MT_M_def add.commute)
  then show ?thesis by (auto simp: gen_block_def Let_def half_done_def MT_N_def)
qed

text \<open>After \<open>c\<close> outputs the state is a window of the sequence.\<close>

definition window :: "(nat \<Rightarrow> 'a::len word) \<Rightarrow> nat \<Rightarrow> 'a word MT \<Rightarrow> bool" where
  "window x c m \<longleftrightarrow> length (mt_v m) = MT_N \<and> mt_i m \<le> MT_N \<and>
     (\<exists>base. base + mt_i m = MT_N + c \<and> (\<forall>j < MT_N. mt_v m ! j = x (base + j)))"

lemma genrand_int32_window:
  assumes w: "window x c m" and rec: "\<And>k. x (MT_N + k) = twist (x k) (x (Suc k)) (x (k + MT_M))"
    and r: "genrand_int32 m = (m', y)"
  shows "window x (Suc c) m' \<and> y = tempering (x (MT_N + c))"
proof -
  obtain base where b: "base + mt_i m = MT_N + c" "\<forall>j < MT_N. mt_v m ! j = x (base + j)"
    and l: "length (mt_v m) = MT_N" "mt_i m \<le> MT_N" using w by (auto simp: window_def)
  show ?thesis
  proof (cases "mt_i m = MT_N")
    case False
    then have "mt_i m < MT_N" using l by simp
    with r b l show ?thesis by (auto simp: genrand_int32_def Let_def window_def intro!: exI [of _ base])
  next
    case True
    have rec': "x (base + (MT_N + k)) = twist (x (base + k)) (x (base + Suc k)) (x (base + (k + MT_M)))" for k
      using rec [of "base + k"] by (simp add: ac_simps)
    have g: "length (gen_block (mt_v m)) = MT_N" "\<forall>j < MT_N. gen_block (mt_v m) ! j = x (base + (MT_N + j))"
      using gen_block_rec [where x = "\<lambda>j. x (base + j)", OF l(1) b(2) rec'] by auto
    have "m' = m\<lparr>mt_v := gen_block (mt_v m), mt_i := 1\<rparr>" "y = tempering (gen_block (mt_v m) ! 0)"
      using r True by (auto simp: genrand_int32_def Let_def)
    moreover have "base = c" using b(1) True by simp
    ultimately show ?thesis
      using g by (auto simp: window_def MT_N_def ac_simps intro!: exI [of _ "MT_N + c"])
  qed
qed

fun outputs :: "nat \<Rightarrow> 'a::len word MT \<Rightarrow> 'a word list" where
  "outputs 0 m = []"
| "outputs (Suc n) m = (let (m', y) = genrand_int32 m in y # outputs n m')"

lemma outputs_window:
  assumes "window x c m" "\<And>k. x (MT_N + k) = twist (x k) (x (Suc k)) (x (k + MT_M))"
  shows "outputs n m = map (\<lambda>i. tempering (x (MT_N + c + i))) [0..<n]"
  using assms(1)
proof (induction n arbitrary: c m)
  case (Suc n)
  obtain m' y where r: "genrand_int32 m = (m', y)" by fastforce
  note g = genrand_int32_window [OF Suc.prems assms(2) r]
  have "[0..<Suc n] = 0 # map Suc [0..<n]" by (simp add: upt_conv_Cons map_Suc_upt del: upt_Suc)
  with Suc.IH [of "Suc c" m'] g r show ?case by (simp add: o_def)
qed simp

lemma seeded_outputs:
  assumes "length (mt_v m) = MT_N"
  shows "outputs n (init_genrand m s) =
    map (\<lambda>i. tempering (mt_rec (mt_v (init_genrand m s)) (MT_N + i))) [0..<n]"
proof -
  have i: "length (mt_v (init_genrand m s)) = MT_N" "mt_i (init_genrand m s) = MT_N"
    using init_genrand_ok [OF assms, of s] by (auto simp: words_ok_def)
  have "mt_v (init_genrand m s) ! j = mt_rec (mt_v (init_genrand m s)) j" if "j < MT_N" for j
    using that by (subst mt_rec.simps) simp
  with i have "window (mt_rec (mt_v (init_genrand m s))) 0 (init_genrand m s)"
    by (auto simp: window_def)
  from outputs_window [OF this mt_rec_step] show ?thesis by simp
qed

section \<open>The width of \<^verbatim>\<open>unsigned long\<close>\<close>

definition narrow_v :: "u64 list \<Rightarrow> u32 list" where
  "narrow_v = map ucast"

definition narrow :: "u64 MT \<Rightarrow> u32 MT" where
  "narrow m = \<lparr>mt_v = narrow_v (mt_v m), mt_i = mt_i m, mt_iset = mt_iset m\<rparr>"

definition n32 :: "u64 \<Rightarrow> u32" where
  "n32 = ucast"

lemma n32_arith:
  "n32 (a + b) = n32 a + n32 b" "n32 (a * b) = n32 a * n32 b" "n32 (word_of_nat k) = word_of_nat k"
proof -
  have d: "n32 (word_of_int x) = word_of_int x" for x
    unfolding n32_def by (rule ucast_down_wi) (simp add: is_down)
  have w: "n32 y = word_of_int (uint y)" for y using d [of "uint y"] by simp
  show "n32 (a + b) = n32 a + n32 b" "n32 (a * b) = n32 a * n32 b"
    using d [of "uint a + uint b"] d [of "uint a * uint b"] by (simp_all add: w wi_homs [symmetric])
  show "n32 (word_of_nat k) = word_of_nat k" using d [of "int k"] by simp
qed

lemma n32_bits:
  "n32 (a XOR b) = n32 a XOR n32 b" "n32 (a AND b) = n32 a AND n32 b" "n32 (a OR b) = n32 a OR n32 b"
  "word_ok a \<Longrightarrow> n32 (drop_bit n a) = drop_bit n (n32 a)"
  "n32 (push_bit n a) = push_bit n (n32 a)"
  unfolding n32_def
  by (rule bit_word_eqI; auto simp: bit_simps word_ok_bits; meson linorder_not_le)+

lemma n32_const [simp]:
  "n32 MATRIX_A = MATRIX_A" "n32 UPPER_MASK = UPPER_MASK" "n32 LOWER_MASK = LOWER_MASK"
  "n32 0 = 0" "n32 (numeral k) = numeral k" "n32 1 = 1"
proof -
  show k: "n32 (numeral k) = numeral k" for k
    unfolding n32_def by (rule ucast_down_no) (simp add: is_down)
  show "n32 MATRIX_A = MATRIX_A" "n32 UPPER_MASK = UPPER_MASK" "n32 LOWER_MASK = LOWER_MASK"
    by (simp_all add: MATRIX_A_def UPPER_MASK_def LOWER_MASK_def k)
  show "n32 0 = 0" "n32 1 = 1" by (simp_all add: n32_def)
qed

lemma n32_twist:
  assumes "word_ok u" "word_ok l"
  shows "n32 (twist u l m) = twist (n32 u) (n32 l) (n32 m)"
proof -
  let ?y = "(u AND UPPER_MASK) OR (l AND LOWER_MASK)"
  have y: "word_ok ?y" by (intro word_ok_ops word_ok_numeral)
  have odd1: "(w AND 1 = 0) = (\<not> bit w 0)" for w :: "'w::len word"
    using and_exp_eq_0_iff_not_bit [of w 0] by simp
  have "bit (n32 ?y) 0 = bit ?y 0" by (simp only: n32_def bit_unsigned_iff) simp
  then have "?y AND 1 = 0 \<longleftrightarrow> n32 ?y AND 1 = 0" by (simp only: odd1)
  then have "n32 (mag01 ?y) = mag01 (n32 ?y)" by (simp add: mag01_def)
  then show ?thesis
    unfolding twist_def Let_def n32_bits(1) n32_bits(4) [OF y] by (simp add: n32_bits)
qed

lemma n32_tempering:
  assumes "word_ok y"
  shows "n32 (tempering y) = tempering (n32 y)"
proof -
  define y1 where "y1 = y XOR drop_bit 11 y"
  define y2 where "y2 = y1 XOR (push_bit 7 y1 AND 0x9d2c5680)"
  define y3 where "y3 = y2 XOR (push_bit 15 y2 AND 0xefc60000)"
  have o: "word_ok y1" "word_ok y2" "word_ok y3"
    unfolding y1_def y2_def y3_def using assms by (intro word_ok_ops word_ok_numeral; assumption?)+
  have e: "n32 y1 = n32 y XOR drop_bit 11 (n32 y)"
    "n32 y2 = n32 y1 XOR (push_bit 7 (n32 y1) AND 0x9d2c5680)"
    "n32 y3 = n32 y2 XOR (push_bit 15 (n32 y2) AND 0xefc60000)"
    by (simp_all only: y1_def [of] y2_def [of] y3_def [of] n32_bits(1,2,5) n32_bits(4) [OF assms] n32_const)
  show ?thesis
    unfolding tempering_def Let_def y1_def [symmetric] y2_def [symmetric] y3_def [symmetric]
      e(1) [symmetric] e(2) [symmetric] e(3) [symmetric] n32_bits(1) n32_bits(4) [OF o(3)] ..
qed

lemma narrow_nth [simp]: "i < length v \<Longrightarrow> narrow_v v ! i = n32 (v ! i)"
  by (simp add: narrow_v_def n32_def)

lemma narrow_length [simp]: "length (narrow_v v) = length v"
  by (simp add: narrow_v_def)

lemma narrow_upd: "narrow_v (v[i := x]) = (narrow_v v)[i := n32 x]"
  by (simp add: narrow_v_def n32_def map_update)

lemma narrow_twist_at:
  assumes "words_ok v" "k < MT_N" "k1 < MT_N" "src < MT_N"
  shows "narrow_v (twist_at k k1 src v) = twist_at k k1 src (narrow_v v)"
proof -
  have "word_ok (v ! k)" "word_ok (v ! k1)" using assms by (auto simp: words_ok_def)
  with assms show ?thesis by (simp add: twist_at_def narrow_upd n32_twist words_ok_def)
qed

lemma narrow_fold:
  assumes "words_ok v" "\<And>k w. k \<in> set ks \<Longrightarrow> words_ok w \<Longrightarrow> words_ok (f k w) \<and> narrow_v (f k w) = g k (narrow_v w)"
  shows "words_ok (fold f ks v) \<and> narrow_v (fold f ks v) = fold g ks (narrow_v v)"
  using assms
proof (induction ks arbitrary: v)
  case (Cons k ks)
  then have "words_ok (f k v)" "narrow_v (f k v) = g k (narrow_v v)" by simp_all
  with Cons.IH [of "f k v"] Cons.prems(2) show ?case by simp
qed simp

lemma narrow_gen_block:
  assumes "words_ok v"
  shows "narrow_v (gen_block v) = gen_block (narrow_v v)"
proof -
  let ?f1 = "\<lambda>kk. twist_at kk (kk + 1) (kk + MT_M)" and ?f2 = "\<lambda>kk. twist_at kk (kk + 1) (kk + MT_M - MT_N)"
  have a: "words_ok (fold ?f1 [0..<MT_N - MT_M] v) \<and>
    narrow_v (fold ?f1 [0..<MT_N - MT_M] v) = fold ?f1 [0..<MT_N - MT_M] (narrow_v v)"
    by (rule narrow_fold [OF assms], intro conjI twist_at_ok narrow_twist_at)
      (auto simp: MT_N_def MT_M_def simp del: upt_rec_numeral)
  have b: "words_ok (fold ?f2 [MT_N - MT_M..<MT_N - 1] w) \<and>
    narrow_v (fold ?f2 [MT_N - MT_M..<MT_N - 1] w) = fold ?f2 [MT_N - MT_M..<MT_N - 1] (narrow_v w)"
    if "words_ok w" for w
    by (rule narrow_fold [OF that], intro conjI twist_at_ok narrow_twist_at)
      (auto simp: MT_N_def MT_M_def simp del: upt_rec_numeral)
  define w where "w = fold ?f2 [MT_N - MT_M..<MT_N - 1] (fold ?f1 [0..<MT_N - MT_M] v)"
  have w: "words_ok w" "narrow_v w = fold ?f2 [MT_N - MT_M..<MT_N - 1] (fold ?f1 [0..<MT_N - MT_M] (narrow_v v))"
    using b [OF conjunct1 [OF a]] a by (simp_all only: w_def)
  have "MT_N - 1 < MT_N" "0 < MT_N" "MT_M - 1 < MT_N" by (simp_all add: MT_N_def MT_M_def)
  from narrow_twist_at [OF w(1) this] show ?thesis
    unfolding gen_block_def Let_def w(2) [symmetric] w_def [symmetric] .
qed

lemma narrow_seed_step:
  assumes "words_ok v" "1 \<le> k" "k < MT_N"
  shows "narrow_v (seed_step k v) = seed_step k (narrow_v v)"
proof -
  have "word_ok (v ! (k - 1))" "k - 1 < length v" using assms by (auto simp: words_ok_def)
  then show ?thesis
    by (simp add: seed_step_def narrow_upd n32_bits n32_arith)
qed

lemma narrow_init:
  assumes "length (mt_v m) = MT_N"
  shows "narrow (init_genrand m s) = init_genrand (narrow m) (n32 s)"
proof -
  let ?z = "replicate MT_N (0 :: u64)"
  have s: "word_ok (s AND 0xffffffff)" by (rule word_ok_ops(3)) (rule word_ok_numeral)
  then have ok: "words_ok (?z[0 := s AND 0xffffffff])"
    by (auto simp: words_ok_def word_ok_numeral MT_N_def dest: subsetD [OF set_update_subset_insert])
  have "narrow_v (fold seed_step [1..<MT_N] (?z[0 := s AND 0xffffffff])) =
    fold seed_step [1..<MT_N] (narrow_v (?z[0 := s AND 0xffffffff]))"
    by (rule conjunct2 [OF narrow_fold [OF ok]]) (auto simp: seed_step_ok narrow_seed_step)
  also have "narrow_v (?z[0 := s AND 0xffffffff]) = (replicate MT_N 0)[0 := n32 s AND 0xffffffff]"
    by (simp add: narrow_upd n32_bits) (simp add: narrow_v_def)
  finally show ?thesis
    using seed_prefix [of "mt_v m" "s AND 0xffffffff"] seed_prefix [of "narrow_v (mt_v m)" "n32 s AND 0xffffffff"]
      assms by (simp add: init_genrand_def narrow_def)
qed

text \<open>A call on the wide state does what a call on the narrow one does.\<close>

lemma narrow_genrand:
  assumes ok: "words_ok (mt_v m)" "mt_i m \<le> MT_N + 1" and r: "genrand_int32 m = (m', y)"
  shows "genrand_int32 (narrow m) = (narrow m', n32 y) \<and> word_ok y \<and> words_ok (mt_v m') \<and> mt_i m' \<le> MT_N"
proof -
  define m0 where "m0 = (if mt_i m = MT_N + 1 then init_genrand m 5489 else m)"
  define m1 where "m1 = (if mt_i m \<ge> MT_N then m0\<lparr>mt_v := gen_block (mt_v m0), mt_i := 0\<rparr> else m)"
  have "genrand_int32 m = (m1\<lparr>mt_i := mt_i m1 + 1\<rparr>, tempering (mt_v m1 ! mt_i m1))"
    unfolding genrand_int32_def Let_def m1_def m0_def by (rule refl)
  with r have r': "m' = m1\<lparr>mt_i := mt_i m1 + 1\<rparr>" "y = tempering (mt_v m1 ! mt_i m1)" by simp_all
  have m0: "words_ok (mt_v m0)"
    using ok init_genrand_ok [of m 5489] by (auto simp: m0_def words_ok_def)
  have n0: "narrow m0 = (if mt_i m = MT_N + 1 then init_genrand (narrow m) 5489 else narrow m)"
    using narrow_init [of m 5489] ok by (simp add: m0_def words_ok_def)
  have m1: "words_ok (mt_v m1)" "mt_i m1 < MT_N"
    using m0 gen_block_ok ok by (auto simp: m1_def MT_N_def)
  have n1: "narrow m1 = (if mt_i m \<ge> MT_N
      then (narrow m0)\<lparr>mt_v := gen_block (mt_v (narrow m0)), mt_i := 0\<rparr> else narrow m)"
    using narrow_gen_block [OF m0] by (simp add: m1_def narrow_def)
  have g: "genrand_int32 (narrow m) = ((narrow m1)\<lparr>mt_i := mt_i m1 + 1\<rparr>, tempering (mt_v (narrow m1) ! mt_i m1))"
  proof -
    have i: "mt_i (narrow m) = mt_i m" "mt_i (narrow m1) = mt_i m1" by (simp_all add: narrow_def)
    show ?thesis unfolding genrand_int32_def Let_def i n0 [symmetric] n1 [symmetric] i(2) ..
  qed
  have w: "word_ok (mt_v m1 ! mt_i m1)" using m1 by (simp add: words_ok_def)
  have "mt_v (narrow m1) ! mt_i m1 = n32 (mt_v m1 ! mt_i m1)" using m1 by (simp add: narrow_def words_ok_def)
  with g r' w m1 show ?thesis by (simp add: n32_tempering word_ok_tempering) (simp add: narrow_def)
qed

lemma narrow_outputs:
  assumes "words_ok (mt_v m)" "mt_i m \<le> MT_N + 1"
  shows "outputs n (narrow m) = map n32 (outputs n m) \<and> (\<forall>y \<in> set (outputs n m). word_ok y)"
  using assms
proof (induction n arbitrary: m)
  case (Suc n)
  obtain m' y where r: "genrand_int32 m = (m', y)" by fastforce
  note g = narrow_genrand [OF Suc.prems r]
  then have "mt_i m' \<le> MT_N + 1" by simp
  with Suc.IH [of m'] g r show ?case by simp
qed simp

section \<open>Ranges of the results\<close>

lemma word_ok_less: "word_ok y \<Longrightarrow> unat y < 2 ^ 32"
proof -
  assume "word_ok y"
  then have "unat y = take_bit 32 (unat y)" by (metis unsigned_take_bit_eq word_ok_def)
  also have "\<dots> < 2 ^ 32" by (rule take_bit_nat_less_exp)
  finally show ?thesis .
qed

lemma unat_drop: "unat (drop_bit n y) = unat y div 2 ^ n"
  by (simp only: unat_drop_bit_eq) (simp only: drop_bit_eq_div)

lemma res53_less:
  assumes "word_ok x" "word_ok y"
  shows "unat (drop_bit 5 x) * 67108864 + unat (drop_bit 6 y) < 2 ^ 53"
proof -
  have "unat (drop_bit 5 x) < 2 ^ 27" "unat (drop_bit 6 y) < 2 ^ 26"
    using word_ok_less [OF assms(1)] word_ok_less [OF assms(2)] by (simp_all add: unat_drop less_mult_imp_div_less)
  then show ?thesis by simp
qed

text \<open>Integers below \<open>2 ^ 53\<close> are represented exactly.\<close>

lemma round53_exact:
  assumes "\<bar>x\<bar> < 2 ^ 53"
  shows "round53 x = x"
proof -
  have "sig_shift (nat \<bar>x\<bar>) = 0" using assms by (subst sig_shift.simps) (simp add: nat_less_iff)
  then show ?thesis by (auto simp: round53_def round_to_def)
qed

lemma valuei_small:
  assumes ab: "a \<le> b" "\<bar>a\<bar> < 2 ^ 19" "\<bar>b\<bar> < 2 ^ 19" and r: "r < 2 ^ 32"
  shows "\<exists>v. valuei a b r = Inr v \<and> a \<le> v \<and> v \<le> b \<and> v = a + int r * (b - a + 1) div 2 ^ 32"
proof -
  let ?n = "b - a + 1"
  have n: "0 < ?n" "?n \<le> 2 ^ 20" using ab by auto
  have p: "0 \<le> int r * ?n" using n by simp
  have "int r < 2 ^ 32" using r by simp
  then have p2: "int r * ?n < 2 ^ 32 * ?n" using n(1) by (rule mult_strict_right_mono)
  note p = p p2
  have "P < 2 ^ 32 * m \<Longrightarrow> m \<le> 2 ^ 20 \<Longrightarrow> P < 2 ^ 52" for P m :: int by simp
  with p2 n(2) have q: "int r * ?n < 2 ^ 52" by blast
  have a: "\<bar>a * 2 ^ 32\<bar> < 2 ^ 51" using ab by (simp add: abs_mult)
  have "\<bar>x\<bar> < 2 ^ 51 \<Longrightarrow> 0 \<le> P \<Longrightarrow> P < 2 ^ 52 \<Longrightarrow> \<bar>x + P\<bar> < 2 ^ 53" for x P :: int by simp
  from this [OF a p(1) q] have "\<bar>a * 2 ^ 32 + int r * ?n\<bar> < 2 ^ 53" .
  then have "round53 (a * 2 ^ 32 + round53 (int r * ?n)) = a * 2 ^ 32 + int r * ?n"
    using round53_exact [of "int r * ?n"] round53_exact p q by simp
  moreover have "is_int (b - a)" "is_int (b - a + 1)" using ab by (auto simp: is_int_def INT_MIN_def INT_MAX_def)
  moreover have "int r * ?n div 2 ^ 32 < ?n" using p by (simp add: div_less_iff_less_mult mult.commute)
  moreover have "0 \<le> int r * ?n div 2 ^ 32" using p by simp
  ultimately show ?thesis by (simp add: valuei_def)
qed

text \<open>With large bounds the sum is rounded up and the result can exceed \<open>b\<close>.\<close>

lemma valuei_exceeds: "valuei 1073741824 1073741824 4294967295 = Inr 1073741825"
proof -
  have "sig_shift (4611686018427387904 + 4294967295) = 10"
    by (simp add: sig_shift.simps)
  then show ?thesis
    using round53_exact [of 4294967295]
    by (simp add: valuei_def is_int_def INT_MIN_def INT_MAX_def) (simp add: round53_def round_to_def)
qed

end
