(* ===== verification/LOpcodes.thy ===== *)
theory LOpcodes
  imports Lua_Prelude
begin

text \<open>
  Instructions of the virtual machine, src/lua-5.1.5/src/lopcodes.h and lopcodes.c: a 32-bit word
  with a 6-bit opcode and the fields A (8 bits), C and B (9 bits each), or Bx (18 bits, B and C
  together, also read as a signed number in excess notation).
\<close>

section \<open>Fields\<close>

type_synonym Instruction = u32

definition SIZE_C :: nat where "SIZE_C = 9"
definition SIZE_B :: nat where "SIZE_B = 9"
definition SIZE_Bx :: nat where "SIZE_Bx = SIZE_C + SIZE_B"
definition SIZE_A :: nat where "SIZE_A = 8"
definition SIZE_OP :: nat where "SIZE_OP = 6"
definition POS_OP :: nat where "POS_OP = 0"
definition POS_A :: nat where "POS_A = POS_OP + SIZE_OP"
definition POS_C :: nat where "POS_C = POS_A + SIZE_A"
definition POS_B :: nat where "POS_B = POS_C + SIZE_C"
definition POS_Bx :: nat where "POS_Bx = POS_C"

lemmas field_defs = SIZE_C_def SIZE_B_def SIZE_Bx_def SIZE_A_def SIZE_OP_def
  POS_OP_def POS_A_def POS_C_def POS_B_def POS_Bx_def

definition MAXARG_Bx :: nat where "MAXARG_Bx = 2 ^ SIZE_Bx - 1"
definition MAXARG_sBx :: int where "MAXARG_sBx = int (MAXARG_Bx div 2)"
definition MAXARG_A :: nat where "MAXARG_A = 2 ^ SIZE_A - 1"
definition MAXARG_B :: nat where "MAXARG_B = 2 ^ SIZE_B - 1"
definition MAXARG_C :: nat where "MAXARG_C = 2 ^ SIZE_C - 1"

text \<open>A mask with \<open>n\<close> one bits (\<^verbatim>\<open>MASK0\<close>: zero bits) at position \<open>p\<close>.\<close>

definition MASK1 :: "nat \<Rightarrow> nat \<Rightarrow> Instruction" where
  "MASK1 n p = push_bit p (NOT (push_bit n (NOT 0)))"

definition MASK0 :: "nat \<Rightarrow> nat \<Rightarrow> Instruction" where
  "MASK0 n p = NOT (MASK1 n p)"

definition get_field :: "nat \<Rightarrow> nat \<Rightarrow> Instruction \<Rightarrow> nat" where
  "get_field p n i = unat (drop_bit p i AND MASK1 n 0)"

definition set_field :: "nat \<Rightarrow> nat \<Rightarrow> Instruction \<Rightarrow> u32 \<Rightarrow> Instruction" where
  "set_field p n i v = (i AND MASK0 n p) OR (push_bit p v AND MASK1 n p)"

definition GETARG_A :: "Instruction \<Rightarrow> nat" where "GETARG_A = get_field POS_A SIZE_A"
definition GETARG_B :: "Instruction \<Rightarrow> nat" where "GETARG_B = get_field POS_B SIZE_B"
definition GETARG_C :: "Instruction \<Rightarrow> nat" where "GETARG_C = get_field POS_C SIZE_C"
definition GETARG_Bx :: "Instruction \<Rightarrow> nat" where "GETARG_Bx = get_field POS_Bx SIZE_Bx"

definition GETARG_sBx :: "Instruction \<Rightarrow> int" where
  "GETARG_sBx i = int (GETARG_Bx i) - MAXARG_sBx"

definition SETARG_A :: "Instruction \<Rightarrow> nat \<Rightarrow> Instruction" where
  "SETARG_A i u = set_field POS_A SIZE_A i (word_of_nat u)"
definition SETARG_B :: "Instruction \<Rightarrow> nat \<Rightarrow> Instruction" where
  "SETARG_B i u = set_field POS_B SIZE_B i (word_of_nat u)"
definition SETARG_C :: "Instruction \<Rightarrow> nat \<Rightarrow> Instruction" where
  "SETARG_C i u = set_field POS_C SIZE_C i (word_of_nat u)"
definition SETARG_Bx :: "Instruction \<Rightarrow> nat \<Rightarrow> Instruction" where
  "SETARG_Bx i u = set_field POS_Bx SIZE_Bx i (word_of_nat u)"

definition SETARG_sBx :: "Instruction \<Rightarrow> int \<Rightarrow> Instruction" where
  "SETARG_sBx i b = set_field POS_Bx SIZE_Bx i (word_of_int (b + MAXARG_sBx))"

section \<open>Opcodes\<close>

datatype OpCode =
    OP_MOVE | OP_LOADK | OP_LOADBOOL | OP_LOADNIL | OP_GETUPVAL | OP_GETGLOBAL | OP_GETTABLE
  | OP_SETGLOBAL | OP_SETUPVAL | OP_SETTABLE | OP_NEWTABLE | OP_SELF
  | OP_ADD | OP_SUB | OP_MUL | OP_DIV | OP_MOD | OP_POW | OP_UNM | OP_NOT | OP_LEN | OP_CONCAT
  | OP_JMP | OP_EQ | OP_LT | OP_LE | OP_TEST | OP_TESTSET | OP_CALL | OP_TAILCALL | OP_RETURN
  | OP_FORLOOP | OP_FORPREP | OP_TFORLOOP | OP_SETLIST | OP_CLOSE | OP_CLOSURE | OP_VARARG

text \<open>The enumeration in its order.\<close>

definition opcodes :: "OpCode list" where
  "opcodes =
     [OP_MOVE, OP_LOADK, OP_LOADBOOL, OP_LOADNIL, OP_GETUPVAL, OP_GETGLOBAL, OP_GETTABLE,
      OP_SETGLOBAL, OP_SETUPVAL, OP_SETTABLE, OP_NEWTABLE, OP_SELF,
      OP_ADD, OP_SUB, OP_MUL, OP_DIV, OP_MOD, OP_POW, OP_UNM, OP_NOT, OP_LEN, OP_CONCAT,
      OP_JMP, OP_EQ, OP_LT, OP_LE, OP_TEST, OP_TESTSET, OP_CALL, OP_TAILCALL, OP_RETURN,
      OP_FORLOOP, OP_FORPREP, OP_TFORLOOP, OP_SETLIST, OP_CLOSE, OP_CLOSURE, OP_VARARG]"

definition NUM_OPCODES :: nat where "NUM_OPCODES = 38"

fun index_of :: "'a list \<Rightarrow> 'a \<Rightarrow> nat" where
  "index_of [] x = 0"
| "index_of (y # ys) x = (if x = y then 0 else Suc (index_of ys x))"

definition op_num :: "OpCode \<Rightarrow> nat" where
  "op_num op = index_of opcodes op"

text \<open>A 6-bit number that is no opcode is \<open>None\<close>.\<close>

definition GET_OPCODE :: "Instruction \<Rightarrow> OpCode option" where
  "GET_OPCODE i = (let k = get_field POS_OP SIZE_OP i in if k < NUM_OPCODES then Some (opcodes ! k) else None)"

definition SET_OPCODE :: "Instruction \<Rightarrow> OpCode \<Rightarrow> Instruction" where
  "SET_OPCODE i op = set_field POS_OP SIZE_OP i (word_of_nat (op_num op))"

definition CREATE_ABC :: "OpCode \<Rightarrow> nat \<Rightarrow> nat \<Rightarrow> nat \<Rightarrow> Instruction" where
  "CREATE_ABC op a b c =
     push_bit POS_OP (word_of_nat (op_num op)) OR push_bit POS_A (word_of_nat a)
     OR push_bit POS_B (word_of_nat b) OR push_bit POS_C (word_of_nat c)"

definition CREATE_ABx :: "OpCode \<Rightarrow> nat \<Rightarrow> nat \<Rightarrow> Instruction" where
  "CREATE_ABx op a bc =
     push_bit POS_OP (word_of_nat (op_num op)) OR push_bit POS_A (word_of_nat a)
     OR push_bit POS_Bx (word_of_nat bc)"

text \<open>Operands that are a register or a constant.\<close>

definition BITRK :: nat where "BITRK = 2 ^ (SIZE_B - 1)"
definition ISK :: "nat \<Rightarrow> bool" where "ISK x \<longleftrightarrow> and x BITRK \<noteq> 0"
definition INDEXK :: "nat \<Rightarrow> nat" where "INDEXK r = nat (and (int r) (not (int BITRK)))"
definition MAXINDEXRK :: nat where "MAXINDEXRK = BITRK - 1"
definition RKASK :: "nat \<Rightarrow> nat" where "RKASK x = or x BITRK"
definition NO_REG :: nat where "NO_REG = MAXARG_A"

datatype OpMode = iABC | iABx | iAsBx
datatype OpArgMask = OpArgN | OpArgU | OpArgR | OpArgK

text \<open>The row of \<^verbatim>\<open>luaP_opmodes\<close>: test flag, sets A, mode of B, mode of C, format.\<close>

type_synonym opmode = "bool \<times> bool \<times> OpArgMask \<times> OpArgMask \<times> OpMode"

fun luaP_opmodes :: "OpCode \<Rightarrow> opmode" where
  "luaP_opmodes OP_MOVE      = (False, True, OpArgR, OpArgN, iABC)"
| "luaP_opmodes OP_LOADK     = (False, True, OpArgK, OpArgN, iABx)"
| "luaP_opmodes OP_LOADBOOL  = (False, True, OpArgU, OpArgU, iABC)"
| "luaP_opmodes OP_LOADNIL   = (False, True, OpArgR, OpArgN, iABC)"
| "luaP_opmodes OP_GETUPVAL  = (False, True, OpArgU, OpArgN, iABC)"
| "luaP_opmodes OP_GETGLOBAL = (False, True, OpArgK, OpArgN, iABx)"
| "luaP_opmodes OP_GETTABLE  = (False, True, OpArgR, OpArgK, iABC)"
| "luaP_opmodes OP_SETGLOBAL = (False, False, OpArgK, OpArgN, iABx)"
| "luaP_opmodes OP_SETUPVAL  = (False, False, OpArgU, OpArgN, iABC)"
| "luaP_opmodes OP_SETTABLE  = (False, False, OpArgK, OpArgK, iABC)"
| "luaP_opmodes OP_NEWTABLE  = (False, True, OpArgU, OpArgU, iABC)"
| "luaP_opmodes OP_SELF      = (False, True, OpArgR, OpArgK, iABC)"
| "luaP_opmodes OP_ADD       = (False, True, OpArgK, OpArgK, iABC)"
| "luaP_opmodes OP_SUB       = (False, True, OpArgK, OpArgK, iABC)"
| "luaP_opmodes OP_MUL       = (False, True, OpArgK, OpArgK, iABC)"
| "luaP_opmodes OP_DIV       = (False, True, OpArgK, OpArgK, iABC)"
| "luaP_opmodes OP_MOD       = (False, True, OpArgK, OpArgK, iABC)"
| "luaP_opmodes OP_POW       = (False, True, OpArgK, OpArgK, iABC)"
| "luaP_opmodes OP_UNM       = (False, True, OpArgR, OpArgN, iABC)"
| "luaP_opmodes OP_NOT       = (False, True, OpArgR, OpArgN, iABC)"
| "luaP_opmodes OP_LEN       = (False, True, OpArgR, OpArgN, iABC)"
| "luaP_opmodes OP_CONCAT    = (False, True, OpArgR, OpArgR, iABC)"
| "luaP_opmodes OP_JMP       = (False, False, OpArgR, OpArgN, iAsBx)"
| "luaP_opmodes OP_EQ        = (True, False, OpArgK, OpArgK, iABC)"
| "luaP_opmodes OP_LT        = (True, False, OpArgK, OpArgK, iABC)"
| "luaP_opmodes OP_LE        = (True, False, OpArgK, OpArgK, iABC)"
| "luaP_opmodes OP_TEST      = (True, True, OpArgR, OpArgU, iABC)"
| "luaP_opmodes OP_TESTSET   = (True, True, OpArgR, OpArgU, iABC)"
| "luaP_opmodes OP_CALL      = (False, True, OpArgU, OpArgU, iABC)"
| "luaP_opmodes OP_TAILCALL  = (False, True, OpArgU, OpArgU, iABC)"
| "luaP_opmodes OP_RETURN    = (False, False, OpArgU, OpArgN, iABC)"
| "luaP_opmodes OP_FORLOOP   = (False, True, OpArgR, OpArgN, iAsBx)"
| "luaP_opmodes OP_FORPREP   = (False, True, OpArgR, OpArgN, iAsBx)"
| "luaP_opmodes OP_TFORLOOP  = (True, False, OpArgN, OpArgU, iABC)"
| "luaP_opmodes OP_SETLIST   = (False, False, OpArgU, OpArgU, iABC)"
| "luaP_opmodes OP_CLOSE     = (False, False, OpArgN, OpArgN, iABC)"
| "luaP_opmodes OP_CLOSURE   = (False, True, OpArgU, OpArgN, iABx)"
| "luaP_opmodes OP_VARARG    = (False, True, OpArgU, OpArgN, iABC)"

definition testTMode :: "OpCode \<Rightarrow> bool" where
  "testTMode m = fst (luaP_opmodes m)"
definition testAMode :: "OpCode \<Rightarrow> bool" where
  "testAMode m = fst (snd (luaP_opmodes m))"
definition getBMode :: "OpCode \<Rightarrow> OpArgMask" where
  "getBMode m = fst (snd (snd (luaP_opmodes m)))"
definition getCMode :: "OpCode \<Rightarrow> OpArgMask" where
  "getCMode m = fst (snd (snd (snd (luaP_opmodes m))))"
definition getOpMode :: "OpCode \<Rightarrow> OpMode" where
  "getOpMode m = snd (snd (snd (snd (luaP_opmodes m))))"

definition LFIELDS_PER_FLUSH :: nat where "LFIELDS_PER_FLUSH = 50"

section \<open>Lemmas\<close>

lemma MASK1_mask: "MASK1 n p = push_bit p (mask n)"
  by (rule bit_word_eqI) (auto simp: MASK1_def bit_simps)

lemma get_field_bits: "get_field p n i = unat (take_bit n (drop_bit p i))"
  by (simp add: get_field_def MASK1_mask take_bit_eq_mask)

lemma get_set_same:
  assumes "p + n \<le> 32"
  shows "get_field p n (set_field p n i v) = unat (take_bit n v)"
proof -
  have "take_bit n (drop_bit p (set_field p n i v)) = take_bit n v"
    using assms by (intro bit_word_eqI) (auto simp: set_field_def MASK0_def MASK1_mask bit_simps)
  then show ?thesis by (simp add: get_field_bits)
qed

lemma get_set_other:
  assumes "p + n \<le> q \<or> q + m \<le> p" "q + m \<le> 32"
  shows "get_field q m (set_field p n i v) = get_field q m i"
proof -
  have "take_bit m (drop_bit q (set_field p n i v)) = take_bit m (drop_bit q i)"
    using assms by (intro bit_word_eqI) (auto simp: set_field_def MASK0_def MASK1_mask bit_simps)
  then show ?thesis by (simp add: get_field_bits)
qed

lemma get_field_less: "get_field p n i < 2 ^ n"
proof (cases "n < 32")
  case True
  have "unat (take_bit n (drop_bit p i)) = take_bit n (unat (drop_bit p i))" by (simp add: unsigned_take_bit_eq)
  then show ?thesis by (simp add: get_field_bits)
next
  case False
  have "unat (drop_bit p i AND MASK1 n 0) < 2 ^ 32" using unsigned_less [of "drop_bit p i AND MASK1 n 0"] by simp
  also have "(2::nat) ^ 32 \<le> 2 ^ n" using False by (intro power_increasing) auto
  finally show ?thesis by (simp add: get_field_def)
qed

lemma arg_bounds:
  "GETARG_A i \<le> MAXARG_A" "GETARG_B i \<le> MAXARG_B" "GETARG_C i \<le> MAXARG_C" "GETARG_Bx i \<le> MAXARG_Bx"
  using get_field_less [of POS_A SIZE_A i] get_field_less [of POS_B SIZE_B i]
    get_field_less [of POS_C SIZE_C i] get_field_less [of POS_Bx SIZE_Bx i]
  by (simp_all add: GETARG_A_def GETARG_B_def GETARG_C_def GETARG_Bx_def MAXARG_A_def MAXARG_B_def
      MAXARG_C_def MAXARG_Bx_def)

lemma unat_take_bit_of_nat:
  assumes "u < 2 ^ n" "n \<le> 32"
  shows "unat (take_bit n (word_of_nat u :: u32)) = u"
proof -
  have "u < 2 ^ 32" using assms power_increasing [of n 32 "2::nat"] by simp
  then show ?thesis
    using assms by (simp add: unsigned_take_bit_eq unsigned_of_nat take_bit_nat_eq_self)
qed

lemma op_num_less: "op_num op < NUM_OPCODES" and opcodes_num: "opcodes ! op_num op = op"
  by (cases op; simp add: op_num_def opcodes_def NUM_OPCODES_def)+

lemma create_bits:
  assumes "op < 2 ^ 6" "a < 2 ^ 8" "b < 2 ^ 9" "c < 2 ^ 9"
  defines "i \<equiv> push_bit 0 (word_of_nat op) OR push_bit 6 (word_of_nat a) OR push_bit 23 (word_of_nat b)
    OR push_bit 14 (word_of_nat c :: u32)"
  shows "get_field 0 6 i = op" "get_field 6 8 i = a" "get_field 23 9 i = b" "get_field 14 9 i = c"
proof -
  have w: "\<not> bit (word_of_nat x :: u32) k" if "x < 2 ^ n" "n \<le> k" for x n k
    using that by (simp add: bit_simps) (metis bit_take_bit_iff leD take_bit_nat_eq_self)
  note wb = w [OF assms(1)] w [OF assms(2)] w [OF assms(3)] w [OF assms(4)]
  have "take_bit 6 (drop_bit 0 i) = take_bit 6 (word_of_nat op)"
    "take_bit 8 (drop_bit 6 i) = take_bit 8 (word_of_nat a)"
    "take_bit 9 (drop_bit 23 i) = take_bit 9 (word_of_nat b)"
    "take_bit 9 (drop_bit 14 i) = take_bit 9 (word_of_nat c)"
    unfolding i_def by (rule bit_word_eqI; use wb in \<open>auto simp: bit_simps\<close>)+
  with assms(1-4) show "get_field 0 6 i = op" "get_field 6 8 i = a" "get_field 23 9 i = b" "get_field 14 9 i = c"
    unfolding get_field_bits by (simp_all only: unat_take_bit_of_nat)
qed

lemmas getarg_defs = GETARG_A_def GETARG_B_def GETARG_C_def GETARG_Bx_def GET_OPCODE_def
lemmas setarg_defs = SETARG_A_def SETARG_B_def SETARG_C_def SETARG_Bx_def SETARG_sBx_def SET_OPCODE_def
lemmas maxarg_defs = MAXARG_A_def MAXARG_B_def MAXARG_C_def MAXARG_Bx_def MAXARG_sBx_def

lemma CREATE_ABC_fields:
  assumes "a \<le> MAXARG_A" "b \<le> MAXARG_B" "c \<le> MAXARG_C"
  shows "GET_OPCODE (CREATE_ABC op a b c) = Some op" "GETARG_A (CREATE_ABC op a b c) = a"
    "GETARG_B (CREATE_ABC op a b c) = b" "GETARG_C (CREATE_ABC op a b c) = c"
proof -
  have "op_num op < 2 ^ 6" using op_num_less [of op] by (simp add: NUM_OPCODES_def)
  moreover have "a < 2 ^ 8" "b < 2 ^ 9" "c < 2 ^ 9" using assms by (simp_all add: maxarg_defs field_defs)
  ultimately show "GET_OPCODE (CREATE_ABC op a b c) = Some op" "GETARG_A (CREATE_ABC op a b c) = a"
    "GETARG_B (CREATE_ABC op a b c) = b" "GETARG_C (CREATE_ABC op a b c) = c"
    using create_bits [of "op_num op" a b c] op_num_less [of op] opcodes_num [of op]
    by (simp_all add: getarg_defs CREATE_ABC_def field_defs Let_def)
qed

text \<open>Bx is B and C together.\<close>

lemma GETARG_Bx_split: "GETARG_Bx i = GETARG_B i * 512 + GETARG_C i"
proof -
  let ?x = "unat (drop_bit 14 i)"
  have n: "get_field p n i = unat (drop_bit p i) mod 2 ^ n" for p n
    by (simp only: get_field_bits unsigned_take_bit_eq) (simp only: take_bit_eq_mod)
  have d: "unat (drop_bit 23 i) = ?x div 2 ^ 9"
  proof -
    have "unat (drop_bit 9 w) = unat w div 2 ^ 9" for w :: u32
      by (simp only: unat_drop_bit_eq) (simp only: drop_bit_eq_div)
    from this [of "drop_bit 14 i"] show ?thesis by (simp only: drop_bit_drop_bit) simp
  qed
  have "?x mod 2 ^ 18 = ?x div 2 ^ 9 mod 2 ^ 9 * 2 ^ 9 + ?x mod 2 ^ 9"
    using mod_mult2_eq [of ?x "2 ^ 9" "2 ^ 9"] by (simp add: algebra_simps)
  then show ?thesis by (simp add: getarg_defs field_defs n d)
qed

lemma CREATE_ABx_ABC:
  assumes "bc \<le> MAXARG_Bx"
  shows "CREATE_ABx op a bc = CREATE_ABC op a (bc div 512) (bc mod 512)"
proof -
  have "bc < 2 ^ 18" using assms by (simp add: maxarg_defs field_defs)
  then have "(push_bit 14 (word_of_nat bc) :: u32) =
    push_bit 23 (word_of_nat (bc div 512)) OR push_bit 14 (word_of_nat (bc mod 512))"
  proof (intro bit_word_eqI)
    fix n assume "n < LENGTH(32)"
    have m: "bit (bc mod 512) k \<longleftrightarrow> k < 9 \<and> bit bc k" for k
      using bit_take_bit_iff [of 9 bc k] by (simp add: take_bit_eq_mod)
    have d: "bit (bc div 512) k \<longleftrightarrow> bit bc (k + 9)" for k
      using bit_drop_bit_eq [of 9 bc] by (simp add: drop_bit_eq_div fun_eq_iff add.commute)
    show "bit (push_bit 14 (word_of_nat bc) :: u32) n \<longleftrightarrow>
      bit (push_bit 23 (word_of_nat (bc div 512)) OR push_bit 14 (word_of_nat (bc mod 512)) :: u32) n"
    proof (cases "23 \<le> n")
      case True
      then have "n - 23 + 9 = n - 14" by simp
      with True \<open>n < LENGTH(32)\<close> show ?thesis by (auto simp: bit_simps m d)
    qed (use \<open>n < LENGTH(32)\<close> in \<open>auto simp: bit_simps m d\<close>)
  qed
  then show ?thesis by (simp add: CREATE_ABx_def CREATE_ABC_def field_defs or.assoc)
qed

lemma CREATE_ABx_fields:
  assumes "a \<le> MAXARG_A" "bc \<le> MAXARG_Bx"
  shows "GET_OPCODE (CREATE_ABx op a bc) = Some op" "GETARG_A (CREATE_ABx op a bc) = a"
    "GETARG_Bx (CREATE_ABx op a bc) = bc"
proof -
  have "bc div 512 \<le> MAXARG_B" "bc mod 512 \<le> MAXARG_C"
    using assms(2) by (simp_all add: maxarg_defs field_defs)
      (metis less_mult_imp_div_less mod_less_divisor less_Suc_eq_le, simp add: less_Suc_eq_le [symmetric])?
  from CREATE_ABC_fields [OF assms(1) this] show "GET_OPCODE (CREATE_ABx op a bc) = Some op"
    "GETARG_A (CREATE_ABx op a bc) = a" "GETARG_Bx (CREATE_ABx op a bc) = bc"
    by (simp_all add: CREATE_ABx_ABC [OF assms(2)] GETARG_Bx_split)
qed

text \<open>Writing a field changes that field only.\<close>

lemma SETARG_fields:
  "u \<le> MAXARG_A \<Longrightarrow> GETARG_A (SETARG_A i u) = u"
  "GET_OPCODE (SETARG_A i u) = GET_OPCODE i" "GETARG_B (SETARG_A i u) = GETARG_B i"
  "GETARG_C (SETARG_A i u) = GETARG_C i" "GETARG_Bx (SETARG_A i u) = GETARG_Bx i"
  "u \<le> MAXARG_B \<Longrightarrow> GETARG_B (SETARG_B i u) = u"
  "GET_OPCODE (SETARG_B i u) = GET_OPCODE i" "GETARG_A (SETARG_B i u) = GETARG_A i"
  "GETARG_C (SETARG_B i u) = GETARG_C i"
  "u \<le> MAXARG_C \<Longrightarrow> GETARG_C (SETARG_C i u) = u"
  "GET_OPCODE (SETARG_C i u) = GET_OPCODE i" "GETARG_A (SETARG_C i u) = GETARG_A i"
  "GETARG_B (SETARG_C i u) = GETARG_B i"
  "u \<le> MAXARG_Bx \<Longrightarrow> GETARG_Bx (SETARG_Bx i u) = u"
  "GET_OPCODE (SETARG_Bx i u) = GET_OPCODE i" "GETARG_A (SETARG_Bx i u) = GETARG_A i"
  by (simp_all add: getarg_defs setarg_defs maxarg_defs field_defs get_set_same get_set_other
      unat_take_bit_of_nat)

lemma SETARG_sBx_fields:
  assumes "- MAXARG_sBx \<le> b" "b \<le> MAXARG_sBx + 1"
  shows "GETARG_sBx (SETARG_sBx i b) = b" "GET_OPCODE (SETARG_sBx i b) = GET_OPCODE i"
    "GETARG_A (SETARG_sBx i b) = GETARG_A i"
proof -
  have "SETARG_sBx i b = SETARG_Bx i (nat (b + MAXARG_sBx))" "nat (b + MAXARG_sBx) \<le> MAXARG_Bx"
    using assms by (simp_all add: setarg_defs maxarg_defs field_defs)
  with SETARG_fields(14-16) assms show "GETARG_sBx (SETARG_sBx i b) = b"
    "GET_OPCODE (SETARG_sBx i b) = GET_OPCODE i" "GETARG_A (SETARG_sBx i b) = GETARG_A i"
    by (simp_all add: GETARG_sBx_def)
qed

text \<open>An RK operand.\<close>

lemma RKASK_roundtrip:
  assumes "k \<le> MAXINDEXRK"
  shows "ISK (RKASK k) \<and> INDEXK (RKASK k) = k \<and> \<not> ISK k \<and> RKASK k \<le> MAXARG_B"
proof -
  have k: "k < 256" using assms by (simp add: MAXINDEXRK_def BITRK_def field_defs)
  have nb: "\<not> bit k j" if "8 \<le> j" for j
    using k that bit_take_bit_iff [of 8 k j] by (simp add: take_bit_nat_eq_self)
  have isk: "ISK x \<longleftrightarrow> bit x 8" for x
    using and_exp_eq_0_iff_not_bit [of x 8] by (simp add: ISK_def BITRK_def field_defs del: and_exp_eq_0_iff_not_bit)
  have r: "RKASK k = or k (2 ^ 8)" by (simp add: RKASK_def BITRK_def field_defs)
  have b: "bit (256 :: nat) n \<longleftrightarrow> n = 8" "bit (256 :: int) n \<longleftrightarrow> n = 8" for n
    using bit_exp_iff [of 8 n, where 'a = nat] bit_exp_iff [of 8 n, where 'a = int] by (auto simp: possible_bit_def)
  have "and (int (RKASK k)) (not (int BITRK)) = int k"
    by (rule bit_eqI) (use nb in \<open>auto simp: r BITRK_def field_defs bit_simps b\<close>)
  moreover have "take_bit 9 (RKASK k) = RKASK k"
  proof (rule bit_eqI)
    fix n show "bit (take_bit 9 (RKASK k)) n = bit (RKASK k) n"
      using nb [of n] by (cases "n < 8") (auto simp: r bit_simps b)
  qed
  then have "RKASK k < 2 ^ 9" by (simp only: take_bit_nat_eq_self_iff)
  moreover have "bit (RKASK k) 8" by (simp only: r) (simp add: bit_simps)
  ultimately show ?thesis using nb [of 8] by (simp add: isk INDEXK_def MAXARG_B_def field_defs)
qed

end
