(* ===== verification/LProto.thy ===== *)
theory LProto
  imports LObject LOpcodes
begin

text \<open>
  Function prototypes (\<^verbatim>\<open>Proto\<close> of src/lua-5.1.5/src/lobject.h) and the look-ups on them of
  lfunc.c and ldebug.h.  The \<^verbatim>\<open>size\<close> fields of the C struct are the lengths of the lists; a
  null string pointer is \<open>None\<close>.
\<close>

record LocVar =
  varname :: "lstr option"
  startpc :: int
  endpc :: int

record proto_info =
  p_k :: "TValue list"
  p_code :: "Instruction list"
  p_lineinfo :: "int list"
  p_locvars :: "LocVar list"
  p_upvalues :: "lstr option list"
  p_source :: "lstr option"
  p_linedefined :: int
  p_lastlinedefined :: int
  p_nups :: lu_byte
  p_numparams :: lu_byte
  p_is_vararg :: lu_byte
  p_maxstacksize :: lu_byte

datatype Proto = Proto (info: proto_info) (subs: "Proto list")

definition sizecode :: "Proto \<Rightarrow> nat" where "sizecode f = length (p_code (info f))"
definition sizek :: "Proto \<Rightarrow> nat" where "sizek f = length (p_k (info f))"
definition sizep :: "Proto \<Rightarrow> nat" where "sizep f = length (subs f)"
definition code_at :: "Proto \<Rightarrow> nat \<Rightarrow> Instruction" where "code_at f pc = p_code (info f) ! pc"
definition maxstack :: "Proto \<Rightarrow> nat" where "maxstack f = unat (p_maxstacksize (info f))"

definition VARARG_HASARG :: lu_byte where "VARARG_HASARG = 1"
definition VARARG_ISVARARG :: lu_byte where "VARARG_ISVARARG = 2"
definition VARARG_NEEDSARG :: lu_byte where "VARARG_NEEDSARG = 4"

definition MAXSTACK :: nat where "MAXSTACK = 250"

definition luaF_newproto :: Proto where
  "luaF_newproto = Proto
     \<lparr>p_k = [], p_code = [], p_lineinfo = [], p_locvars = [], p_upvalues = [], p_source = None,
      p_linedefined = 0, p_lastlinedefined = 0, p_nups = 0, p_numparams = 0, p_is_vararg = 0,
      p_maxstacksize = 0\<rparr> []"

text \<open>The name of the \<open>local_number\<close>-th variable that is active at \<open>pc\<close>.\<close>

fun getlocalname_loop :: "LocVar list \<Rightarrow> int \<Rightarrow> int \<Rightarrow> lstr option" where
  "getlocalname_loop [] n pc = None"
| "getlocalname_loop (v # vs) n pc =
     (if startpc v \<le> pc then
        if pc < endpc v
        then (if n - 1 = 0 then varname v else getlocalname_loop vs (n - 1) pc)
        else getlocalname_loop vs n pc
      else None)"

definition luaF_getlocalname :: "Proto \<Rightarrow> int \<Rightarrow> int \<Rightarrow> lstr option" where
  "luaF_getlocalname f local_number pc = getlocalname_loop (p_locvars (info f)) local_number pc"

definition getline :: "Proto \<Rightarrow> nat \<Rightarrow> int" where
  "getline f pc = (if p_lineinfo (info f) = [] then 0 else p_lineinfo (info f) ! pc)"

text \<open>
  When the variables are sorted by their start, the function returns the \<open>n\<close>-th of the active
  ones.
\<close>

definition active_at :: "int \<Rightarrow> LocVar \<Rightarrow> bool" where
  "active_at pc v \<longleftrightarrow> startpc v \<le> pc \<and> pc < endpc v"

lemma getlocalname_loop_active:
  assumes "sorted (map startpc vs)" "0 < n"
  shows "getlocalname_loop vs n pc =
    (let as = filter (active_at pc) vs in if nat n \<le> length as then varname (as ! (nat n - 1)) else None)"
  using assms
proof (induction vs arbitrary: n)
  case (Cons v vs)
  show ?case
  proof (cases "startpc v \<le> pc")
    case True
    with Cons show ?thesis
      by (auto simp: active_at_def Let_def nth_Cons' nat_diff_distrib Suc_le_eq)
  next
    case False
    then have "\<not> active_at pc w" if "w \<in> set (v # vs)" for w
      using Cons.prems(1) that by (auto simp: active_at_def)
    then have "filter (active_at pc) (v # vs) = []" by (simp add: filter_empty_conv)
    with False Cons.prems(2) show ?thesis by (simp add: Let_def)
  qed
qed simp

end
