(* ===== verification/LDebug.thy ===== *)
theory LDebug
  imports LProto
begin

text \<open>
  The code checker and symbolic executor of src/lua-5.1.5/src/ldebug.c.  A \<^verbatim>\<open>check\<close> that fails
  returns from the C function with 0; here the functions return \<open>None\<close> or \<open>False\<close>.
\<close>

section \<open>Checks\<close>

definition checkreg :: "Proto \<Rightarrow> int \<Rightarrow> bool" where
  "checkreg pt reg \<longleftrightarrow> reg < int (maxstack pt)"

definition precheck :: "Proto \<Rightarrow> bool" where
  "precheck pt \<longleftrightarrow>
     (let i = info pt in
      maxstack pt \<le> MAXSTACK \<and>
      unat (p_numparams i) + unat (p_is_vararg i AND VARARG_HASARG) \<le> maxstack pt \<and>
      (p_is_vararg i AND VARARG_NEEDSARG = 0 \<or> p_is_vararg i AND VARARG_HASARG \<noteq> 0) \<and>
      length (p_upvalues i) \<le> unat (p_nups i) \<and>
      (length (p_lineinfo i) = sizecode pt \<or> length (p_lineinfo i) = 0) \<and>
      sizecode pt > 0 \<and> GET_OPCODE (code_at pt (sizecode pt - 1)) = Some OP_RETURN)"

definition luaG_checkopenop :: "Instruction \<Rightarrow> bool" where
  "luaG_checkopenop i =
     (case GET_OPCODE i of
        Some OP_CALL \<Rightarrow> GETARG_B i = 0
      | Some OP_TAILCALL \<Rightarrow> GETARG_B i = 0
      | Some OP_RETURN \<Rightarrow> GETARG_B i = 0
      | Some OP_SETLIST \<Rightarrow> GETARG_B i = 0
      | _ \<Rightarrow> False)"

fun checkArgMode :: "Proto \<Rightarrow> nat \<Rightarrow> OpArgMask \<Rightarrow> bool" where
  "checkArgMode pt r OpArgN = (r = 0)"
| "checkArgMode pt r OpArgU = True"
| "checkArgMode pt r OpArgR = checkreg pt (int r)"
| "checkArgMode pt r OpArgK = (if ISK r then INDEXK r < sizek pt else r < maxstack pt)"

text \<open>A SETLIST whose count is in the next word.\<close>

definition setlist_count :: "Instruction \<Rightarrow> bool" where
  "setlist_count d \<longleftrightarrow> GET_OPCODE d = Some OP_SETLIST \<and> GETARG_C d = 0"

text \<open>The number of words before \<open>dest\<close> that look like one.\<close>

fun setlists_before :: "Proto \<Rightarrow> nat \<Rightarrow> nat" where
  "setlists_before pt 0 = 0"
| "setlists_before pt (Suc d) = (if setlist_count (code_at pt d) then Suc (setlists_before pt d) else 0)"

definition check_dest :: "Proto \<Rightarrow> int \<Rightarrow> bool" where
  "check_dest pt dest \<longleftrightarrow> 0 \<le> dest \<and> dest < int (sizecode pt) \<and>
     (dest > 0 \<longrightarrow> even (setlists_before pt (nat dest)))"

text \<open>The operands by format: \<open>Some (b, c)\<close> when the checks pass.\<close>

definition decode_args :: "Proto \<Rightarrow> nat \<Rightarrow> Instruction \<Rightarrow> OpCode \<Rightarrow> (int \<times> int) option" where
  "decode_args pt pc i op =
     (case getOpMode op of
        iABC \<Rightarrow>
          (let b = GETARG_B i; c = GETARG_C i
           in if checkArgMode pt b (getBMode op) \<and> checkArgMode pt c (getCMode op)
              then Some (int b, int c) else None)
      | iABx \<Rightarrow>
          (let b = GETARG_Bx i
           in if getBMode op = OpArgK \<and> \<not> b < sizek pt then None else Some (int b, 0))
      | iAsBx \<Rightarrow>
          (let b = GETARG_sBx i
           in if getBMode op = OpArgR \<and> \<not> check_dest pt (int pc + 1 + b) then None
              else Some (b, 0)))"

definition is_string_k :: "Proto \<Rightarrow> int \<Rightarrow> bool" where
  "is_string_k pt b = (case p_k (info pt) ! nat b of VGC (GStr _) \<Rightarrow> True | _ \<Rightarrow> False)"

text \<open>A forward jump that is followed when a register is traced.\<close>

definition symb_jump :: "nat \<Rightarrow> nat \<Rightarrow> nat \<Rightarrow> int \<Rightarrow> nat" where
  "symb_jump lastpc reg pc b =
     (let dest = int pc + 1 + b
      in if reg \<noteq> NO_REG \<and> int pc < dest \<and> dest \<le> int lastpc then nat (int pc + b) else pc)"

definition symb_call ::
  "Proto \<Rightarrow> nat \<Rightarrow> nat \<Rightarrow> nat \<Rightarrow> int \<Rightarrow> int \<Rightarrow> int \<Rightarrow> (nat \<times> nat) option" where
  "symb_call pt reg pc lastp a b c =
     (if b \<noteq> 0 \<and> \<not> checkreg pt (a + b - 1) then None
      else if c - 1 = - 1 then
        if luaG_checkopenop (code_at pt (pc + 1)) then Some (pc, if int reg \<ge> a then pc else lastp) else None
      else if c - 1 \<noteq> 0 \<and> \<not> checkreg pt (a + (c - 1) - 1) then None
      else Some (pc, if int reg \<ge> a then pc else lastp))"

text \<open>
  The \<^verbatim>\<open>switch (op)\<close> of \<^verbatim>\<open>symbexec\<close>: the new \<open>pc\<close> (before the loop's increment) and \<^verbatim>\<open>last\<close>.
\<close>

definition symb_op ::
  "Proto \<Rightarrow> nat \<Rightarrow> nat \<Rightarrow> nat \<Rightarrow> nat \<Rightarrow> OpCode \<Rightarrow> int \<Rightarrow> int \<Rightarrow> int \<Rightarrow> (nat \<times> nat) option" where
  "symb_op pt lastpc reg pc lastp op a b c =
     (case op of
        OP_LOADBOOL \<Rightarrow>
          if c = 1 then
            if pc + 2 < sizecode pt \<and> \<not> setlist_count (code_at pt (pc + 1)) then Some (pc, lastp) else None
          else Some (pc, lastp)
      | OP_LOADNIL \<Rightarrow> Some (pc, if a \<le> int reg \<and> int reg \<le> b then pc else lastp)
      | OP_GETUPVAL \<Rightarrow> if b < int (unat (p_nups (info pt))) then Some (pc, lastp) else None
      | OP_SETUPVAL \<Rightarrow> if b < int (unat (p_nups (info pt))) then Some (pc, lastp) else None
      | OP_GETGLOBAL \<Rightarrow> if is_string_k pt b then Some (pc, lastp) else None
      | OP_SETGLOBAL \<Rightarrow> if is_string_k pt b then Some (pc, lastp) else None
      | OP_SELF \<Rightarrow>
          if checkreg pt (a + 1) then Some (pc, if int reg = a + 1 then pc else lastp) else None
      | OP_CONCAT \<Rightarrow> if b < c then Some (pc, lastp) else None
      | OP_TFORLOOP \<Rightarrow>
          if c \<ge> 1 \<and> checkreg pt (a + 2 + c)
          then Some (pc, if int reg \<ge> a + 2 then pc else lastp) else None
      | OP_FORLOOP \<Rightarrow> if checkreg pt (a + 3) then Some (symb_jump lastpc reg pc b, lastp) else None
      | OP_FORPREP \<Rightarrow> if checkreg pt (a + 3) then Some (symb_jump lastpc reg pc b, lastp) else None
      | OP_JMP \<Rightarrow> Some (symb_jump lastpc reg pc b, lastp)
      | OP_CALL \<Rightarrow> symb_call pt reg pc lastp a b c
      | OP_TAILCALL \<Rightarrow> symb_call pt reg pc lastp a b c
      | OP_RETURN \<Rightarrow> if b - 1 > 0 \<and> \<not> checkreg pt (a + (b - 1) - 1) then None else Some (pc, lastp)
      | OP_SETLIST \<Rightarrow>
          if b > 0 \<and> \<not> checkreg pt (a + b) then None
          else if c = 0 then (if pc + 1 < sizecode pt - 1 then Some (pc + 1, lastp) else None)
          else Some (pc, lastp)
      | OP_CLOSURE \<Rightarrow>
          if b < int (sizep pt) then
            let nup = unat (p_nups (info (subs pt ! nat b))) in
            if pc + nup < sizecode pt \<and>
               list_all (\<lambda>j. GET_OPCODE (code_at pt (pc + j)) = Some OP_GETUPVAL \<or>
                             GET_OPCODE (code_at pt (pc + j)) = Some OP_MOVE) [1..<Suc nup]
            then Some (if reg \<noteq> NO_REG then pc + nup else pc, lastp) else None
          else None
      | OP_VARARG \<Rightarrow>
          if p_is_vararg (info pt) AND VARARG_ISVARARG \<noteq> 0 \<and> p_is_vararg (info pt) AND VARARG_NEEDSARG = 0 \<and>
             (b - 1 = - 1 \<longrightarrow> luaG_checkopenop (code_at pt (pc + 1))) \<and> checkreg pt (a + (b - 1) - 1)
          then Some (pc, lastp) else None
      | _ \<Rightarrow> Some (pc, lastp))"

text \<open>The body of the loop for one instruction.\<close>

definition symb_instr :: "Proto \<Rightarrow> nat \<Rightarrow> nat \<Rightarrow> nat \<Rightarrow> nat \<Rightarrow> (nat \<times> nat) option" where
  "symb_instr pt lastpc reg pc lastp =
     (let i = code_at pt pc; a = GETARG_A i
      in case GET_OPCODE i of
           None \<Rightarrow> None
         | Some op \<Rightarrow>
             if \<not> checkreg pt (int a) then None
             else case decode_args pt pc i op of
                    None \<Rightarrow> None
                  | Some (b, c) \<Rightarrow>
                      let lastp1 = (if testAMode op \<and> a = reg then pc else lastp)
                      in if testTMode op \<and> \<not> (pc + 2 < sizecode pt \<and> GET_OPCODE (code_at pt (pc + 1)) = Some OP_JMP)
                         then None
                         else symb_op pt lastpc reg pc lastp1 op (int a) b c)"

lemma symb_jump_ge: "pc \<le> symb_jump lastpc reg pc b"
  by (auto simp: symb_jump_def Let_def)

lemma symb_op_ge: "symb_op pt lastpc reg pc lastp op a b c = Some (pc', lastp') \<Longrightarrow> pc \<le> pc'"
  using symb_jump_ge [of pc lastpc reg b]
  by (cases op) (auto simp: symb_op_def symb_call_def Let_def split: if_splits)

lemma symb_instr_ge: "symb_instr pt lastpc reg pc lastp = Some (pc', lastp') \<Longrightarrow> pc \<le> pc'"
  by (auto simp: symb_instr_def Let_def split: option.splits if_splits prod.splits intro: symb_op_ge)

function symb_loop :: "Proto \<Rightarrow> nat \<Rightarrow> nat \<Rightarrow> nat \<Rightarrow> nat \<Rightarrow> nat option" where
  "symb_loop pt lastpc reg pc lastp =
     (if pc < lastpc then
        case symb_instr pt lastpc reg pc lastp of
          None \<Rightarrow> None
        | Some (pc', lastp') \<Rightarrow> symb_loop pt lastpc reg (Suc pc') lastp'
      else Some lastp)"
  by pat_completeness auto
termination
  by (relation "measure (\<lambda>(pt, lastpc, reg, pc, lastp). lastpc - pc)") (auto dest: symb_instr_ge)

declare symb_loop.simps [simp del]

definition symbexec :: "Proto \<Rightarrow> nat \<Rightarrow> nat \<Rightarrow> Instruction option" where
  "symbexec pt lastpc reg =
     (if precheck pt
      then map_option (code_at pt) (symb_loop pt lastpc reg 0 (sizecode pt - 1))
      else None)"

definition luaG_checkcode :: "Proto \<Rightarrow> bool" where
  "luaG_checkcode pt =
     (case symbexec pt (sizecode pt) NO_REG of None \<Rightarrow> False | Some i \<Rightarrow> i \<noteq> 0)"

section \<open>Names for error messages\<close>

definition kname :: "Proto \<Rightarrow> nat \<Rightarrow> lstr" where
  "kname p c =
     (if ISK c then (case p_k (info p) ! INDEXK c of VGC (GStr s) \<Rightarrow> s | _ \<Rightarrow> lit ''?'') else lit ''?'')"

text \<open>
  \<^verbatim>\<open>getobjname\<close> for a Lua function at \<open>pc\<close>: the kind and the name of the value in a register.
\<close>

fun getobjname :: "nat \<Rightarrow> Proto \<Rightarrow> nat \<Rightarrow> nat \<Rightarrow> (string \<times> lstr) option" where
  "getobjname 0 p pc stackpos = None"
| "getobjname (Suc n) p pc stackpos =
     (case luaF_getlocalname p (int stackpos + 1) (int pc) of
        Some name \<Rightarrow> Some (''local'', name)
      | None \<Rightarrow>
          (case symbexec p pc stackpos of
             None \<Rightarrow> None
           | Some i \<Rightarrow>
               (case GET_OPCODE i of
                  Some OP_GETGLOBAL \<Rightarrow>
                    (case p_k (info p) ! GETARG_Bx i of VGC (GStr s) \<Rightarrow> Some (''global'', s) | _ \<Rightarrow> None)
                | Some OP_MOVE \<Rightarrow>
                    if GETARG_B i < GETARG_A i then getobjname n p pc (GETARG_B i) else None
                | Some OP_GETTABLE \<Rightarrow> Some (''field'', kname p (GETARG_C i))
                | Some OP_GETUPVAL \<Rightarrow>
                    Some (''upvalue'',
                      if p_upvalues (info p) \<noteq> []
                      then (case p_upvalues (info p) ! GETARG_B i of Some s \<Rightarrow> s | None \<Rightarrow> lit ''?'')
                      else lit ''?'')
                | Some OP_SELF \<Rightarrow> Some (''method'', kname p (GETARG_C i))
                | _ \<Rightarrow> None)))"

text \<open>
  The register named by a MOVE that symbolic execution finds is the one asked for, so each
  recursive call is for a lower register and a fuel above the register is enough.
\<close>

definition last_ok :: "Proto \<Rightarrow> nat \<Rightarrow> nat \<Rightarrow> bool" where
  "last_ok pt reg l \<longleftrightarrow> (GET_OPCODE (code_at pt l) = Some OP_MOVE \<longrightarrow> GETARG_A (code_at pt l) = reg)"

lemma symb_op_last:
  "symb_op pt lastpc reg pc l op a b c = Some (pc', l') \<Longrightarrow> l' = l \<or> l' = pc \<and> op \<noteq> OP_MOVE"
  by (cases op) (auto simp: symb_op_def symb_call_def Let_def split: if_splits)

lemma symb_instr_last:
  assumes "symb_instr pt lastpc reg pc l = Some (pc', l')" "last_ok pt reg l"
  shows "last_ok pt reg l'"
  using assms
  by (auto simp: symb_instr_def Let_def last_ok_def split: option.splits if_splits prod.splits
      dest!: symb_op_last)

lemma symb_loop_last:
  assumes "symb_loop pt lastpc reg pc l = Some r" "last_ok pt reg l"
  shows "last_ok pt reg r"
  using assms
proof (induction pt lastpc reg pc l rule: symb_loop.induct)
  case (1 pt lastpc reg pc l)
  then show ?case
    by (subst (asm) (2) symb_loop.simps) (auto split: option.splits if_splits dest: symb_instr_last)
qed

lemma symbexec_move:
  assumes "symbexec p pc reg = Some i" "GET_OPCODE i = Some OP_MOVE"
  shows "GETARG_A i = reg"
proof -
  from assms(1) obtain r where r: "precheck p" "symb_loop p pc reg 0 (sizecode p - 1) = Some r" "i = code_at p r"
    by (auto simp: symbexec_def split: if_splits)
  have "last_ok p reg (sizecode p - 1)" using r(1) by (simp add: last_ok_def precheck_def Let_def)
  from symb_loop_last [OF r(2) this] show ?thesis using assms(2) r(3) by (simp add: last_ok_def)
qed

lemma getobjname_fuel:
  assumes "stackpos < n" "stackpos < m"
  shows "getobjname n p pc stackpos = getobjname m p pc stackpos"
  using assms
proof (induction stackpos arbitrary: n m rule: less_induct)
  case (less s)
  from less.prems obtain n' m' where nm: "n = Suc n'" "m = Suc m'" by (meson lessE)
  have "getobjname n' p pc (GETARG_B i) = getobjname m' p pc (GETARG_B i)"
    if "symbexec p pc s = Some i" "GET_OPCODE i = Some OP_MOVE" "GETARG_B i < GETARG_A i" for i
    using symbexec_move [OF that(1,2)] that(3) less.prems by (intro less.IH) (simp_all add: nm)
  then show ?case unfolding nm by (simp split: option.split OpCode.split)
qed

end
