(* ===== verification/LVM_Flow.thy ===== *)
theory LVM_Flow
  imports LDebug
begin

text \<open>
  What \<^verbatim>\<open>luaG_checkcode\<close> (ldebug.c) promises to \<^verbatim>\<open>luaV_execute\<close> (lvm.c): the words the
  interpreter can fetch as instructions, and the registers, constants, upvalues and prototypes
  each of them touches.
\<close>

section \<open>Instruction positions\<close>

text \<open>A word is an instruction unless it is the count of a SETLIST before it.\<close>

definition next_start :: "Proto \<Rightarrow> nat \<Rightarrow> nat" where
  "next_start pt pc = (if setlist_count (code_at pt pc) then pc + 2 else pc + 1)"

inductive starts :: "Proto \<Rightarrow> nat \<Rightarrow> bool" for pt where
  starts_first: "starts pt 0"
| starts_next: "starts pt pc \<Longrightarrow> starts pt (next_start pt pc)"

text \<open>The parity test of the checker decides it.\<close>

lemma starts_even_aux: "starts pt pc \<Longrightarrow> even (setlists_before pt pc)"
  by (induction rule: starts.induct) (auto simp: next_start_def)

lemma even_starts_aux:
  "(even (setlists_before pt pc) \<longrightarrow> starts pt pc) \<and>
   (odd (setlists_before pt pc) \<longrightarrow> starts pt (pc - 1) \<and> setlist_count (code_at pt (pc - 1)) \<and> pc > 0)"
proof (induction pc)
  case (Suc d)
  show ?case
  proof (cases "even (setlists_before pt d)")
    case True
    then show ?thesis using Suc starts_next [of pt d] by (auto simp: next_start_def)
  next
    case False
    with Suc have "starts pt (d - 1)" "setlist_count (code_at pt (d - 1))" "d > 0" by auto
    then have "starts pt (Suc d)" using starts_next [of pt "d - 1"] by (auto simp: next_start_def)
    then show ?thesis using False by auto
  qed
qed (simp add: starts_first)

lemma starts_iff: "starts pt pc \<longleftrightarrow> even (setlists_before pt pc)"
  using starts_even_aux even_starts_aux by blast

lemma starts_gap:
  assumes "starts pt pc" "starts pt p" "pc < p"
  shows "next_start pt pc \<le> p"
proof (cases "p = Suc pc")
  case True
  with assms have "\<not> setlist_count (code_at pt pc)" by (auto simp: starts_iff)
  with True show ?thesis by (simp add: next_start_def)
next
  case False
  with assms(3) show ?thesis by (simp add: next_start_def)
qed

section \<open>The interpreter\<close>

text \<open>
  The values of the interpreter's \<^verbatim>\<open>pc\<close> for the next fetch in the same frame, after it has fetched
  the word at \<open>pc\<close>.  A number that is no opcode does nothing (the \<^verbatim>\<open>switch\<close> has no default).
\<close>

definition vm_targets :: "Proto \<Rightarrow> nat \<Rightarrow> int list" where
  "vm_targets pt pc =
     (let i = code_at pt pc; n = int pc + 1; test = [n + GETARG_sBx (code_at pt (pc + 1)) + 1, n + 1]
      in case GET_OPCODE i of
           Some OP_LOADBOOL \<Rightarrow> [if GETARG_C i \<noteq> 0 then n + 1 else n]
         | Some OP_JMP \<Rightarrow> [n + GETARG_sBx i]
         | Some OP_EQ \<Rightarrow> test
         | Some OP_LT \<Rightarrow> test
         | Some OP_LE \<Rightarrow> test
         | Some OP_TEST \<Rightarrow> test
         | Some OP_TESTSET \<Rightarrow> test
         | Some OP_TFORLOOP \<Rightarrow> test
         | Some OP_RETURN \<Rightarrow> []
         | Some OP_FORLOOP \<Rightarrow> [n + GETARG_sBx i, n]
         | Some OP_FORPREP \<Rightarrow> [n + GETARG_sBx i]
         | Some OP_SETLIST \<Rightarrow> [if GETARG_C i = 0 then n + 1 else n]
         | Some OP_CLOSURE \<Rightarrow> [n + int (unat (p_nups (info (subs pt ! GETARG_Bx i))))]
         | _ \<Rightarrow> [n])"

inductive vm_pc :: "Proto \<Rightarrow> int \<Rightarrow> bool" for pt where
  vm_entry: "vm_pc pt 0"
| vm_fetch: "vm_pc pt pc \<Longrightarrow> pc' \<in> set (vm_targets pt (nat pc)) \<Longrightarrow> vm_pc pt pc'"

text \<open>The words of the code an instruction reads beside itself.\<close>

definition vm_words :: "Proto \<Rightarrow> nat \<Rightarrow> nat list" where
  "vm_words pt pc =
     (let i = code_at pt pc
      in case GET_OPCODE i of
           Some OP_EQ \<Rightarrow> [pc + 1]
         | Some OP_LT \<Rightarrow> [pc + 1]
         | Some OP_LE \<Rightarrow> [pc + 1]
         | Some OP_TEST \<Rightarrow> [pc + 1]
         | Some OP_TESTSET \<Rightarrow> [pc + 1]
         | Some OP_TFORLOOP \<Rightarrow> [pc + 1]
         | Some OP_SETLIST \<Rightarrow> (if GETARG_C i = 0 then [pc + 1] else [])
         | Some OP_CLOSURE \<Rightarrow> map (\<lambda>j. pc + j) [1..<Suc (unat (p_nups (info (subs pt ! GETARG_Bx i))))]
         | _ \<Rightarrow> [])"

text \<open>An RK operand: a register or a constant.\<close>

definition rk_reg :: "nat \<Rightarrow> nat list" where "rk_reg x = (if ISK x then [] else [x])"
definition rk_const :: "nat \<Rightarrow> nat list" where "rk_const x = (if ISK x then [INDEXK x] else [])"

text \<open>
  The registers of the frame that an instruction with fixed operands reads or writes.  Operands up
  to the top of the stack (B or C zero in CALL, RETURN, SETLIST, VARARG) are left out.
\<close>

definition vm_regs :: "Instruction \<Rightarrow> nat list" where
  "vm_regs i =
     (let a = GETARG_A i; b = GETARG_B i; c = GETARG_C i
      in case GET_OPCODE i of
           None \<Rightarrow> []
         | Some op \<Rightarrow>
            (case op of
               OP_MOVE \<Rightarrow> [a, b] | OP_LOADK \<Rightarrow> [a] | OP_LOADBOOL \<Rightarrow> [a] | OP_LOADNIL \<Rightarrow> b # [a..<Suc b]
             | OP_GETUPVAL \<Rightarrow> [a] | OP_GETGLOBAL \<Rightarrow> [a] | OP_GETTABLE \<Rightarrow> [a, b] @ rk_reg c
             | OP_SETGLOBAL \<Rightarrow> [a] | OP_SETUPVAL \<Rightarrow> [a] | OP_SETTABLE \<Rightarrow> a # rk_reg b @ rk_reg c
             | OP_NEWTABLE \<Rightarrow> [a] | OP_SELF \<Rightarrow> [a, a + 1, b] @ rk_reg c
             | OP_ADD \<Rightarrow> a # rk_reg b @ rk_reg c | OP_SUB \<Rightarrow> a # rk_reg b @ rk_reg c
             | OP_MUL \<Rightarrow> a # rk_reg b @ rk_reg c | OP_DIV \<Rightarrow> a # rk_reg b @ rk_reg c
             | OP_MOD \<Rightarrow> a # rk_reg b @ rk_reg c | OP_POW \<Rightarrow> a # rk_reg b @ rk_reg c
             | OP_UNM \<Rightarrow> [a, b] | OP_NOT \<Rightarrow> [a, b] | OP_LEN \<Rightarrow> [a, b]
             | OP_CONCAT \<Rightarrow> a # [b..<Suc c] | OP_JMP \<Rightarrow> []
             | OP_EQ \<Rightarrow> rk_reg b @ rk_reg c | OP_LT \<Rightarrow> rk_reg b @ rk_reg c | OP_LE \<Rightarrow> rk_reg b @ rk_reg c
             | OP_TEST \<Rightarrow> [a] | OP_TESTSET \<Rightarrow> [a, b]
             | OP_CALL \<Rightarrow> [a..<a + b] @ [a..<a + (c - 1)]
             | OP_TAILCALL \<Rightarrow> [a..<a + b]
             | OP_RETURN \<Rightarrow> [a..<a + (b - 1)]
             | OP_FORLOOP \<Rightarrow> [a, a + 1, a + 2, a + 3] | OP_FORPREP \<Rightarrow> [a, a + 1, a + 2]
             | OP_TFORLOOP \<Rightarrow> [a..<a + 6] @ [a + 3..<a + 3 + c]
             | OP_SETLIST \<Rightarrow> [a..<a + b + 1] | OP_CLOSE \<Rightarrow> [a] | OP_CLOSURE \<Rightarrow> [a]
             | OP_VARARG \<Rightarrow> [a..<a + (b - 1)]))"

definition vm_consts :: "Instruction \<Rightarrow> nat list" where
  "vm_consts i =
     (let b = GETARG_B i; c = GETARG_C i
      in case GET_OPCODE i of
           Some OP_LOADK \<Rightarrow> [GETARG_Bx i]
         | Some OP_GETGLOBAL \<Rightarrow> [GETARG_Bx i]
         | Some OP_SETGLOBAL \<Rightarrow> [GETARG_Bx i]
         | Some OP_GETTABLE \<Rightarrow> rk_const c
         | Some OP_SELF \<Rightarrow> rk_const c
         | Some OP_SETTABLE \<Rightarrow> rk_const b @ rk_const c
         | Some OP_ADD \<Rightarrow> rk_const b @ rk_const c
         | Some OP_SUB \<Rightarrow> rk_const b @ rk_const c
         | Some OP_MUL \<Rightarrow> rk_const b @ rk_const c
         | Some OP_DIV \<Rightarrow> rk_const b @ rk_const c
         | Some OP_MOD \<Rightarrow> rk_const b @ rk_const c
         | Some OP_POW \<Rightarrow> rk_const b @ rk_const c
         | Some OP_EQ \<Rightarrow> rk_const b @ rk_const c
         | Some OP_LT \<Rightarrow> rk_const b @ rk_const c
         | Some OP_LE \<Rightarrow> rk_const b @ rk_const c
         | _ \<Rightarrow> [])"

definition vm_upvals :: "Instruction \<Rightarrow> nat list" where
  "vm_upvals i =
     (case GET_OPCODE i of
        Some OP_GETUPVAL \<Rightarrow> [GETARG_B i] | Some OP_SETUPVAL \<Rightarrow> [GETARG_B i] | _ \<Rightarrow> [])"

definition vm_protos :: "Instruction \<Rightarrow> nat list" where
  "vm_protos i = (case GET_OPCODE i of Some OP_CLOSURE \<Rightarrow> [GETARG_Bx i] | _ \<Rightarrow> [])"

text \<open>
  All of them are inside the frame.  TFORLOOP copies its three arguments above the loop's
  registers, at most two words above the frame (the stack has \<^verbatim>\<open>EXTRA_STACK\<close> = 5 of them).
\<close>

definition accesses_ok :: "Proto \<Rightarrow> nat \<Rightarrow> bool" where
  "accesses_ok pt pc \<longleftrightarrow>
     (let i = code_at pt pc in
      GET_OPCODE i \<noteq> None \<and>
      list_all (\<lambda>w. w < sizecode pt) (vm_words pt pc) \<and>
      list_all (\<lambda>r. r < maxstack pt + (if GET_OPCODE i = Some OP_TFORLOOP then 2 else 0)) (vm_regs i) \<and>
      list_all (\<lambda>k. k < sizek pt) (vm_consts i) \<and>
      list_all (\<lambda>u. u < unat (p_nups (info pt))) (vm_upvals i) \<and>
      list_all (\<lambda>p. p < sizep pt) (vm_protos i))"

section \<open>The checker visits every instruction\<close>

lemma symb_op_full:
  "symb_op pt lastpc NO_REG pc l op a b c = Some (pc', l') \<Longrightarrow>
   pc' = (if op = OP_SETLIST \<and> c = 0 then pc + 1 else pc)"
  by (cases op) (auto simp: symb_op_def symb_call_def symb_jump_def Let_def split: if_splits)

lemma decode_args_abc:
  "decode_args pt pc i OP_SETLIST = Some (b, c) \<Longrightarrow> c = int (GETARG_C i)"
  by (auto simp: decode_args_def getOpMode_def getBMode_def getCMode_def Let_def split: if_splits)

lemma symb_instr_full:
  assumes "symb_instr pt lastpc NO_REG pc l = Some (pc', l')"
  shows "Suc pc' = next_start pt pc"
  using assms
  by (auto simp: symb_instr_def Let_def next_start_def setlist_count_def split: option.splits if_splits prod.splits
      dest!: symb_op_full decode_args_abc)

definition instr_ok :: "Proto \<Rightarrow> nat \<Rightarrow> bool" where
  "instr_ok pt pc \<longleftrightarrow> (\<exists>l r. symb_instr pt (sizecode pt) NO_REG pc l = Some r)"

lemma symb_loop_checks:
  assumes "symb_loop pt (sizecode pt) NO_REG pc l = Some r" "starts pt pc"
    and "starts pt p" "pc \<le> p" "p < sizecode pt"
  shows "instr_ok pt p"
  using assms
proof (induction "sizecode pt - pc" arbitrary: pc l rule: less_induct)
  case less
  from less.prems have "pc < sizecode pt" by simp
  with less.prems(1) obtain pc' l' where s: "symb_instr pt (sizecode pt) NO_REG pc l = Some (pc', l')"
    "symb_loop pt (sizecode pt) NO_REG (Suc pc') l' = Some r"
    by (subst (asm) symb_loop.simps) (auto split: option.splits)
  show ?case
  proof (cases "p = pc")
    case True with s(1) show ?thesis by (auto simp: instr_ok_def)
  next
    case False
    then have "Suc pc' \<le> p" using symb_instr_full [OF s(1)] starts_gap less.prems by simp
    moreover have "starts pt (Suc pc')" using symb_instr_full [OF s(1)] less.prems(2) by (simp add: starts_next)
    moreover have "sizecode pt - Suc pc' < sizecode pt - pc"
      using symb_instr_ge [OF s(1)] \<open>pc < sizecode pt\<close> by simp
    ultimately show ?thesis using less.hyps s(2) less.prems by blast
  qed
qed

lemma checkcode_instrs:
  assumes "luaG_checkcode pt" "starts pt pc" "pc < sizecode pt"
  shows "instr_ok pt pc"
  using assms symb_loop_checks [of pt 0 "sizecode pt - 1" _ pc] starts_first
  by (auto simp: luaG_checkcode_def symbexec_def split: option.splits if_splits)

lemma checkcode_precheck: "luaG_checkcode pt \<Longrightarrow> precheck pt"
  by (auto simp: luaG_checkcode_def symbexec_def split: if_splits)

section \<open>What a checked instruction promises\<close>

text \<open>The checks of one instruction as a fact about it.\<close>

lemma instr_okE:
  assumes "instr_ok pt pc"
  obtains op b c l r where "GET_OPCODE (code_at pt pc) = Some op"
    "checkreg pt (int (GETARG_A (code_at pt pc)))"
    "decode_args pt pc (code_at pt pc) op = Some (b, c)"
    "testTMode op \<longrightarrow> pc + 2 < sizecode pt \<and> GET_OPCODE (code_at pt (pc + 1)) = Some OP_JMP"
    "symb_op pt (sizecode pt) NO_REG pc l op (int (GETARG_A (code_at pt pc))) b c = Some r"
proof -
  let ?i = "code_at pt pc"
  from assms obtain l r where s: "symb_instr pt (sizecode pt) NO_REG pc l = Some r"
    by (auto simp: instr_ok_def)
  then obtain op where op: "GET_OPCODE ?i = Some op" by (cases "GET_OPCODE ?i") (auto simp: symb_instr_def Let_def)
  with s obtain b c where d: "decode_args pt pc ?i op = Some (b, c)" and a: "checkreg pt (int (GETARG_A ?i))"
    by (cases "decode_args pt pc ?i op") (auto simp: symb_instr_def Let_def split: if_splits)
  let ?l = "if testAMode op \<and> GETARG_A ?i = NO_REG then pc else l"
  from s have "(if testTMode op \<and> \<not> (pc + 2 < sizecode pt \<and> GET_OPCODE (code_at pt (pc + 1)) = Some OP_JMP)
      then None else symb_op pt (sizecode pt) NO_REG pc ?l op (int (GETARG_A ?i)) b c) = Some r"
    using a by (simp only: symb_instr_def Let_def op d option.case prod.case if_True not_True_eq_False if_False)
  then show ?thesis using that [of op b c ?l r] op a d by (auto split: if_splits)
qed

lemma check_dest_starts: "check_dest pt d \<Longrightarrow> 0 \<le> d \<and> d < int (sizecode pt) \<and> starts pt (nat d)"
  by (cases "d = 0") (auto simp: check_dest_def starts_iff)

lemmas mode_defs = getOpMode_def getBMode_def getCMode_def testTMode_def testAMode_def

text \<open>The operands by opcode.\<close>

lemma decode_sBx:
  assumes "decode_args pt pc i op = Some (b, c)" "op = OP_JMP \<or> op = OP_FORLOOP \<or> op = OP_FORPREP"
  shows "check_dest pt (int pc + 1 + GETARG_sBx i)"
  using assms by (auto simp: decode_args_def mode_defs Let_def split: if_splits)

lemma decode_abc:
  assumes "decode_args pt pc i op = Some (b, c)" "getOpMode op = iABC"
  shows "b = int (GETARG_B i)" "c = int (GETARG_C i)"
    "checkArgMode pt (GETARG_B i) (getBMode op)" "checkArgMode pt (GETARG_C i) (getCMode op)"
  using assms by (auto simp: decode_args_def Let_def split: if_splits)

lemma decode_abx:
  assumes "decode_args pt pc i op = Some (b, c)" "getOpMode op = iABx"
  shows "b = int (GETARG_Bx i)" "getBMode op = OpArgK \<longrightarrow> GETARG_Bx i < sizek pt"
  using assms by (auto simp: decode_args_def Let_def split: if_splits)

definition narrow_bools :: "Proto \<Rightarrow> bool" where
  "narrow_bools pt \<longleftrightarrow> list_all (\<lambda>i. GET_OPCODE i = Some OP_LOADBOOL \<longrightarrow> GETARG_C i \<le> 1) (p_code (info pt))"

lemma narrow_bools_at:
  "narrow_bools pt \<Longrightarrow> pc < sizecode pt \<Longrightarrow> GET_OPCODE (code_at pt pc) = Some OP_LOADBOOL \<Longrightarrow>
   GETARG_C (code_at pt pc) = 0 \<or> GETARG_C (code_at pt pc) = 1"
  by (auto simp: narrow_bools_def list_all_length sizecode_def code_at_def le_Suc_eq dest!: spec [of _ pc])

text \<open>The pseudo-instructions after a CLOSURE are instruction positions.\<close>

lemma starts_run:
  assumes "starts pt pc" "\<not> setlist_count (code_at pt pc)"
    and "\<And>j. 1 \<le> j \<Longrightarrow> j \<le> n \<Longrightarrow> \<not> setlist_count (code_at pt (pc + j))"
  shows "starts pt (pc + Suc n)"
  using assms(3)
proof (induction n)
  case 0
  then show ?case using starts_next [OF assms(1)] assms(2) by (simp add: next_start_def)
next
  case (Suc n)
  then have "starts pt (pc + Suc n)" "\<not> setlist_count (code_at pt (pc + Suc n))"
    using Suc.prems [of "Suc n"] by simp_all
  then show ?case using starts_next [of pt "pc + Suc n"] by (simp add: next_start_def)
qed

lemma closure_pseudo:
  assumes "instr_ok pt pc" "GET_OPCODE (code_at pt pc) = Some OP_CLOSURE" "starts pt pc"
  defines "n \<equiv> unat (p_nups (info (subs pt ! GETARG_Bx (code_at pt pc))))"
  shows "GETARG_Bx (code_at pt pc) < sizep pt" "pc + n < sizecode pt" "starts pt (pc + Suc n)"
    "\<And>j. 1 \<le> j \<Longrightarrow> j \<le> n \<Longrightarrow> GET_OPCODE (code_at pt (pc + j)) = Some OP_GETUPVAL \<or>
      GET_OPCODE (code_at pt (pc + j)) = Some OP_MOVE"
proof -
  from assms(1) obtain b c l r where d: "decode_args pt pc (code_at pt pc) OP_CLOSURE = Some (b, c)"
    and s: "symb_op pt (sizecode pt) NO_REG pc l OP_CLOSURE (int (GETARG_A (code_at pt pc))) b c = Some r"
    by (rule instr_okE) (use assms(2) in simp)
  have b: "b = int (GETARG_Bx (code_at pt pc))" using d by (rule decode_abx) (simp add: mode_defs)
  from s show x: "GETARG_Bx (code_at pt pc) < sizep pt" "pc + n < sizecode pt"
    by (auto simp: symb_op_def b n_def Let_def split: if_splits)
  from s have all: "list_all (\<lambda>j. GET_OPCODE (code_at pt (pc + j)) = Some OP_GETUPVAL \<or>
    GET_OPCODE (code_at pt (pc + j)) = Some OP_MOVE) [1..<Suc n]"
    by (auto simp: symb_op_def b n_def Let_def split: if_splits simp del: upt_Suc)
  then show k: "GET_OPCODE (code_at pt (pc + j)) = Some OP_GETUPVAL \<or>
      GET_OPCODE (code_at pt (pc + j)) = Some OP_MOVE" if "1 \<le> j" "j \<le> n" for j
    using that by (auto simp: list_all_iff simp del: upt_Suc)
  show "starts pt (pc + Suc n)"
  proof (rule starts_run [OF assms(3)])
    show "\<not> setlist_count (code_at pt pc)" using assms(2) by (simp add: setlist_count_def)
    show "\<not> setlist_count (code_at pt (pc + j))" if "1 \<le> j" "j \<le> n" for j
      using k [OF that] by (auto simp: setlist_count_def)
  qed
qed

lemma last_is_return:
  assumes "precheck pt"
  shows "0 < sizecode pt" "GET_OPCODE (code_at pt (sizecode pt - 1)) = Some OP_RETURN"
  using assms by (auto simp: precheck_def Let_def)

text \<open>Every word the interpreter fetches next is an instruction inside the code.\<close>

definition pc_ok :: "Proto \<Rightarrow> int \<Rightarrow> bool" where
  "pc_ok pt t \<longleftrightarrow> 0 \<le> t \<and> t < int (sizecode pt) \<and> starts pt (nat t)"

lemma pc_okI: "starts pt n \<Longrightarrow> n < sizecode pt \<Longrightarrow> t = int n \<Longrightarrow> pc_ok pt t"
  by (simp add: pc_ok_def)

lemma pc_ok_next:
  assumes "starts pt pc" "\<not> setlist_count (code_at pt pc)" "pc + 1 < sizecode pt"
  shows "pc_ok pt (int pc + 1)"
  using starts_next [OF assms(1)] assms by (intro pc_okI [of pt "pc + 1"]) (simp_all add: next_start_def)

lemma pc_ok_skip:
  assumes "starts pt pc" "\<not> setlist_count (code_at pt pc)" "\<not> setlist_count (code_at pt (pc + 1))"
    "pc + 2 < sizecode pt"
  shows "pc_ok pt (int pc + 1 + 1)"
  using starts_run [of pt pc 1] assms
  by (intro pc_okI [of pt "pc + 2"]) (auto simp: le_Suc_eq)

lemma targets_ok:
  assumes ck: "luaG_checkcode pt" and nb: "narrow_bools pt" and st: "starts pt pc" and pc: "pc < sizecode pt"
    and t: "t \<in> set (vm_targets pt pc)"
  shows "pc_ok pt t"
proof -
  let ?i = "code_at pt pc"
  note ok = checkcode_instrs [OF ck st pc]
  from ok obtain op b c l r where o: "GET_OPCODE ?i = Some op"
    and d: "decode_args pt pc ?i op = Some (b, c)"
    and T: "testTMode op \<longrightarrow> pc + 2 < sizecode pt \<and> GET_OPCODE (code_at pt (pc + 1)) = Some OP_JMP"
    and s: "symb_op pt (sizecode pt) NO_REG pc l op (int (GETARG_A ?i)) b c = Some r"
    by (rule instr_okE)
  have nx: "pc_ok pt (int pc + 1)" if "\<not> setlist_count ?i" "op \<noteq> OP_RETURN"
  proof -
    have "pc \<noteq> sizecode pt - 1" using last_is_return [OF checkcode_precheck [OF ck]] o that(2) by auto
    then show ?thesis using pc_ok_next [OF st that(1)] pc by simp
  qed
  have J: "pc_ok pt (int pc + 1 + GETARG_sBx ?i)" if "op = OP_JMP \<or> op = OP_FORLOOP \<or> op = OP_FORPREP"
    using check_dest_starts [OF decode_sBx [OF d that]] by (simp add: pc_ok_def)
  have nj: "\<not> setlist_count w" if "GET_OPCODE w = Some OP_JMP" for w using that by (simp add: setlist_count_def)
  have tst: "pc_ok pt (int pc + 1 + GETARG_sBx (code_at pt (pc + 1)) + 1) \<and> pc_ok pt (int pc + 1 + 1)"
    if "testTMode op" "op \<noteq> OP_SETLIST"
  proof -
    have 1: "pc + 2 < sizecode pt" "GET_OPCODE (code_at pt (pc + 1)) = Some OP_JMP" using T that by auto
    have ns: "\<not> setlist_count ?i" using o that by (simp add: setlist_count_def)
    have "pc_ok pt (int pc + 1)" using pc_ok_next [OF st ns] 1 by simp
    then have s1: "starts pt (pc + 1)" by (simp add: pc_ok_def nat_add_distrib)
    from checkcode_instrs [OF ck s1] 1(1) have "instr_ok pt (pc + 1)" by simp
    then obtain b' c' where "decode_args pt (pc + 1) (code_at pt (pc + 1)) OP_JMP = Some (b', c')"
      by (rule instr_okE) (use 1(2) in simp)
    from check_dest_starts [OF decode_sBx [OF this]]
    have "pc_ok pt (int pc + 1 + GETARG_sBx (code_at pt (pc + 1)) + 1)" by (simp add: pc_ok_def algebra_simps)
    with pc_ok_skip [OF st ns nj [OF 1(2)] 1(1)] show ?thesis by blast
  qed
  show ?thesis
  proof (cases op)
    case OP_LOADBOOL
    then have "GETARG_C ?i = 0 \<or> GETARG_C ?i = 1" using narrow_bools_at [OF nb pc] o by simp
    moreover have ns: "\<not> setlist_count ?i" using o OP_LOADBOOL by (simp add: setlist_count_def)
    moreover have "c = int (GETARG_C ?i)" using decode_abc [OF d] OP_LOADBOOL by (simp add: mode_defs)
    moreover have "pc_ok pt (int pc + 1 + 1)" if "c = 1"
      using s OP_LOADBOOL that by (intro pc_ok_skip [OF st ns]) (auto simp: symb_op_def split: if_splits)
    ultimately show ?thesis using t nx o OP_LOADBOOL by (auto simp: vm_targets_def Let_def)
  next
    case OP_SETLIST
    have c: "c = int (GETARG_C ?i)" using decode_abc [OF d] OP_SETLIST by (simp add: mode_defs)
    show ?thesis
    proof (cases "GETARG_C ?i = 0")
      case True
      then have sc: "setlist_count ?i" using o OP_SETLIST by (simp add: setlist_count_def)
      have "pc + 1 < sizecode pt - 1" using s OP_SETLIST True c by (auto simp: symb_op_def split: if_splits)
      then have "pc_ok pt (int pc + 1 + 1)" using starts_next [OF st] sc
        by (intro pc_okI [of pt "pc + 2"]) (auto simp: next_start_def)
      then show ?thesis using t o OP_SETLIST True by (simp add: vm_targets_def Let_def)
    next
      case False
      then show ?thesis using t o OP_SETLIST nx by (simp add: vm_targets_def Let_def setlist_count_def)
    qed
  next
    case OP_CLOSURE
    let ?n = "unat (p_nups (info (subs pt ! GETARG_Bx ?i)))"
    from OP_CLOSURE o have o': "GET_OPCODE ?i = Some OP_CLOSURE" by simp
    note cp = closure_pseudo [OF ok o' st]
    have "GET_OPCODE (code_at pt (pc + ?n)) \<noteq> Some OP_RETURN"
      using cp(4) [of ?n] o' by (cases "?n = 0") auto
    then have "pc + ?n \<noteq> sizecode pt - 1" using last_is_return [OF checkcode_precheck [OF ck]] by auto
    with cp(2) have "pc + Suc ?n < sizecode pt" by simp
    with cp(3) have "pc_ok pt (int (pc + Suc ?n))" by (intro pc_okI) (rule refl | assumption)+
    then show ?thesis using t o' by (simp add: vm_targets_def Let_def algebra_simps)
  qed (use t o nx J tst in \<open>auto simp: vm_targets_def Let_def setlist_count_def mode_defs\<close>)
qed

text \<open>Every operand of a checked instruction is in range.\<close>

lemma upt_bounded: "list_all (\<lambda>r. r < m) [a..<b] \<longleftrightarrow> b \<le> a \<or> b \<le> m"
  by (induction b) (auto simp: not_le less_Suc_eq_le le_Suc_eq)

lemma less_unat_iff: "int n < uint w \<longleftrightarrow> n < unat w"
  by (metis uint_nat of_nat_less_iff)

lemma rk_arg: "checkArgMode pt x OpArgK \<Longrightarrow>
  list_all (\<lambda>r. r < maxstack pt) (rk_reg x) \<and> list_all (\<lambda>k. k < sizek pt) (rk_const x)"
  by (auto simp: rk_reg_def rk_const_def split: if_splits)

lemma words_ok:
  assumes "instr_ok pt pc" "starts pt pc"
  shows "list_all (\<lambda>w. w < sizecode pt) (vm_words pt pc)"
proof -
  let ?i = "code_at pt pc"
  from assms(1) obtain op b c l r where o: "GET_OPCODE ?i = Some op"
    and d: "decode_args pt pc ?i op = Some (b, c)"
    and T: "testTMode op \<longrightarrow> pc + 2 < sizecode pt \<and> GET_OPCODE (code_at pt (pc + 1)) = Some OP_JMP"
    and s: "symb_op pt (sizecode pt) NO_REG pc l op (int (GETARG_A ?i)) b c = Some r"
    by (rule instr_okE)
  show ?thesis
  proof (cases op)
    case OP_SETLIST
    have "c = int (GETARG_C ?i)" using decode_abc [OF d] OP_SETLIST by (simp add: mode_defs)
    then show ?thesis using s o OP_SETLIST by (auto simp: vm_words_def symb_op_def split: if_splits)
  next
    case OP_CLOSURE
    with o have o': "GET_OPCODE ?i = Some OP_CLOSURE" by simp
    then show ?thesis using closure_pseudo(2) [OF assms(1) o' assms(2)]
      by (auto simp: vm_words_def list_all_iff simp del: upt_Suc)
  qed (use o T in \<open>auto simp: vm_words_def mode_defs\<close>)
qed

lemma operands_ok:
  assumes "instr_ok pt pc"
  defines "i \<equiv> code_at pt pc"
  shows "GET_OPCODE i \<noteq> None \<and>
    list_all (\<lambda>r. r < maxstack pt + (if GET_OPCODE i = Some OP_TFORLOOP then 2 else 0)) (vm_regs i) \<and>
    list_all (\<lambda>k. k < sizek pt) (vm_consts i) \<and>
    list_all (\<lambda>u. u < unat (p_nups (info pt))) (vm_upvals i) \<and>
    list_all (\<lambda>p. p < sizep pt) (vm_protos i)"
proof -
  from assms(1) obtain op b c l r where o: "GET_OPCODE i = Some op"
    and a: "checkreg pt (int (GETARG_A i))"
    and d: "decode_args pt pc i op = Some (b, c)"
    and s: "symb_op pt (sizecode pt) NO_REG pc l op (int (GETARG_A i)) b c = Some r"
    unfolding i_def by (rule instr_okE)
  have abc: "b = int (GETARG_B i)" "c = int (GETARG_C i)"
    "checkArgMode pt (GETARG_B i) (getBMode op)" "checkArgMode pt (GETARG_C i) (getCMode op)"
    if "getOpMode op = iABC" using decode_abc [OF d that] by auto
  have abx: "b = int (GETARG_Bx i)" "getBMode op = OpArgK \<longrightarrow> GETARG_Bx i < sizek pt"
    if "getOpMode op = iABx" using decode_abx [OF d that] by auto
  note defs = vm_regs_def vm_consts_def vm_upvals_def vm_protos_def Let_def
  note simps = o symb_op_def symb_call_def mode_defs checkreg_def upt_bounded rk_arg less_unat_iff
  show ?thesis using a s abc abx
    by (cases op; simp add: defs simps del: upt_Suc split: if_splits; (auto simp: upt_bounded)?)
qed

lemma accesses:
  assumes "luaG_checkcode pt" "starts pt pc" "pc < sizecode pt"
  shows "accesses_ok pt pc"
  using operands_ok words_ok checkcode_instrs [OF assms] assms(2)
  by (simp add: accesses_ok_def Let_def)

text \<open>The run of a checked function stays inside it.\<close>

lemma checked_run:
  assumes "luaG_checkcode pt" "narrow_bools pt" "vm_pc pt pc"
  shows "pc_ok pt pc \<and> accesses_ok pt (nat pc)"
proof -
  from assms(3) have "pc_ok pt pc"
  proof (induction rule: vm_pc.induct)
    case vm_entry
    then show ?case using last_is_return [OF checkcode_precheck [OF assms(1)]]
      by (intro pc_okI [of pt 0]) (simp_all add: starts_first)
  next
    case (vm_fetch pc pc')
    then show ?case by (intro targets_ok [OF assms(1,2)]) (auto simp: pc_ok_def)
  qed
  with accesses [OF assms(1)] show ?thesis by (simp add: pc_ok_def nat_less_iff)
qed

text \<open>Running the checker on a given function.\<close>

lemma symb_loop_step:
  "symb_instr pt lastpc reg pc l = Some (pc', l') \<Longrightarrow> pc < lastpc \<Longrightarrow>
   symb_loop pt lastpc reg pc l = symb_loop pt lastpc reg (Suc pc') l'"
  by (subst symb_loop.simps) simp

lemma symb_loop_end: "lastpc \<le> pc \<Longrightarrow> symb_loop pt lastpc reg pc l = Some l"
  by (subst symb_loop.simps) simp

lemma checkcodeI:
  "precheck pt \<Longrightarrow> symb_loop pt (sizecode pt) NO_REG 0 (sizecode pt - 1) = Some r \<Longrightarrow> code_at pt r \<noteq> 0 \<Longrightarrow>
   luaG_checkcode pt"
  by (simp add: luaG_checkcode_def symbexec_def)

end
