(* ===== verification/LDump.thy ===== *)
theory LDump
  imports LProto
begin

text \<open>
  Saving precompiled chunks, src/lua-5.1.5/src/ldump.c, on a machine with 32-bit \<^verbatim>\<open>int\<close>, 64-bit
  \<^verbatim>\<open>size_t\<close> and \<^verbatim>\<open>lua_Number\<close> and little-endian words (the header records all four).  The writer
  is a callback of the host: from a block and its data to a status and its new data.
\<close>

section \<open>Words as bytes\<close>

definition int_bytes :: "int \<Rightarrow> lstr" where
  "int_bytes x = le 4 (nat (x mod 2 ^ 32))"

definition size_bytes :: "nat \<Rightarrow> lstr" where
  "size_bytes n = le 8 n"

definition number_bytes :: "lua_Number \<Rightarrow> lstr" where
  "number_bytes x = le 8 (unat x)"

definition instr_bytes :: "Instruction \<Rightarrow> lstr" where
  "instr_bytes i = le 4 (unat i)"

section \<open>Dumping\<close>

record 'd DumpState =
  D_status :: int
  D_data :: 'd

type_synonym 'd lua_Writer = "lstr \<Rightarrow> 'd \<Rightarrow> int \<times> 'd"

definition DumpBlock :: "'d lua_Writer \<Rightarrow> lstr \<Rightarrow> 'd DumpState \<Rightarrow> 'd DumpState" where
  "DumpBlock w b D =
     (if D_status D = 0 then (let (st, d) = w b (D_data D) in D\<lparr>D_status := st, D_data := d\<rparr>) else D)"

definition DumpChar :: "'d lua_Writer \<Rightarrow> int \<Rightarrow> 'd DumpState \<Rightarrow> 'd DumpState" where
  "DumpChar w y D = DumpBlock w [word_of_int y] D"

definition DumpInt :: "'d lua_Writer \<Rightarrow> int \<Rightarrow> 'd DumpState \<Rightarrow> 'd DumpState" where
  "DumpInt w x D = DumpBlock w (int_bytes x) D"

definition DumpNumber :: "'d lua_Writer \<Rightarrow> lua_Number \<Rightarrow> 'd DumpState \<Rightarrow> 'd DumpState" where
  "DumpNumber w x D = DumpBlock w (number_bytes x) D"

text \<open>A vector: its length and its elements as one block.\<close>

definition DumpVector :: "'d lua_Writer \<Rightarrow> ('a \<Rightarrow> lstr) \<Rightarrow> 'a list \<Rightarrow> 'd DumpState \<Rightarrow> 'd DumpState" where
  "DumpVector w bytes xs D = DumpBlock w (concat (map bytes xs)) (DumpInt w (int (length xs)) D)"

fun DumpString :: "'d lua_Writer \<Rightarrow> lstr option \<Rightarrow> 'd DumpState \<Rightarrow> 'd DumpState" where
  "DumpString w None D = DumpBlock w (size_bytes 0) D"
| "DumpString w (Some s) D = DumpBlock w (s @ [0]) (DumpBlock w (size_bytes (length s + 1)) D)"

definition DumpConstant :: "'d lua_Writer \<Rightarrow> TValue \<Rightarrow> 'd DumpState \<Rightarrow> 'd DumpState" where
  "DumpConstant w v D =
     (let D = DumpChar w (ttype v) D
      in case v of
           VBoolean b \<Rightarrow> DumpChar w b D
         | VNumber n \<Rightarrow> DumpNumber w n D
         | VGC (GStr s) \<Rightarrow> DumpString w (Some s) D
         | _ \<Rightarrow> D)"

text \<open>The first half of \<^verbatim>\<open>DumpConstants\<close>; the second dumps the functions inside.\<close>

definition DumpConstants :: "'d lua_Writer \<Rightarrow> TValue list \<Rightarrow> 'd DumpState \<Rightarrow> 'd DumpState" where
  "DumpConstants w k D = fold (DumpConstant w) k (DumpInt w (int (length k)) D)"

definition DumpLocVar :: "'d lua_Writer \<Rightarrow> LocVar \<Rightarrow> 'd DumpState \<Rightarrow> 'd DumpState" where
  "DumpLocVar w v D = DumpInt w (endpc v) (DumpInt w (startpc v) (DumpString w (varname v) D))"

definition DumpDebug :: "'d lua_Writer \<Rightarrow> bool \<Rightarrow> proto_info \<Rightarrow> 'd DumpState \<Rightarrow> 'd DumpState" where
  "DumpDebug w strip i D =
     (let line = (if strip then [] else p_lineinfo i);
          locs = (if strip then [] else p_locvars i);
          upvs = (if strip then [] else p_upvalues i);
          D1 = DumpVector w int_bytes line D;
          D2 = fold (DumpLocVar w) locs (DumpInt w (int (length locs)) D1)
      in fold (DumpString w) upvs (DumpInt w (int (length upvs)) D2))"

fun DumpFunction ::
  "'d lua_Writer \<Rightarrow> bool \<Rightarrow> Proto \<Rightarrow> lstr option \<Rightarrow> 'd DumpState \<Rightarrow> 'd DumpState" where
  "DumpFunction w strip (Proto i ps) p D =
     (let D1 = DumpString w (if p_source i = p \<or> strip then None else p_source i) D;
          D2 = DumpInt w (p_lastlinedefined i) (DumpInt w (p_linedefined i) D1);
          D3 = DumpChar w (uint (p_numparams i)) (DumpChar w (uint (p_nups i)) D2);
          D4 = DumpChar w (uint (p_maxstacksize i)) (DumpChar w (uint (p_is_vararg i)) D3);
          D5 = DumpVector w instr_bytes (p_code i) D4;
          D6 = DumpInt w (int (length ps)) (DumpConstants w (p_k i) D5);
          D7 = fold (\<lambda>f D. DumpFunction w strip f (p_source i) D) ps D6
      in DumpDebug w strip i D7)"

text \<open>The header.\<close>

definition LUA_SIGNATURE :: lstr where "LUA_SIGNATURE = 0x1b # lit ''Lua''"
definition LUAC_VERSION :: lu_byte where "LUAC_VERSION = 0x51"
definition LUAC_FORMAT :: lu_byte where "LUAC_FORMAT = 0"
definition LUAC_HEADERSIZE :: nat where "LUAC_HEADERSIZE = 12"

definition luaU_header :: lstr where
  "luaU_header = LUA_SIGNATURE @ [LUAC_VERSION, LUAC_FORMAT, 1, 4, 8, 4, 8, 0]"

definition DumpHeader :: "'d lua_Writer \<Rightarrow> 'd DumpState \<Rightarrow> 'd DumpState" where
  "DumpHeader w D = DumpBlock w luaU_header D"

definition luaU_dump :: "Proto \<Rightarrow> 'd lua_Writer \<Rightarrow> 'd \<Rightarrow> bool \<Rightarrow> int \<times> 'd" where
  "luaU_dump f w data strip =
     (let D = DumpFunction w strip f None (DumpHeader w \<lparr>D_status = 0, D_data = data\<rparr>)
      in (D_status D, D_data D))"

section \<open>The blocks of a dump\<close>

text \<open>The format: the blocks that the functions above hand to the writer, in their order.\<close>

definition string_blocks :: "lstr option \<Rightarrow> lstr list" where
  "string_blocks s = (case s of None \<Rightarrow> [size_bytes 0] | Some s \<Rightarrow> [size_bytes (length s + 1), s @ [0]])"

definition const_blocks :: "TValue \<Rightarrow> lstr list" where
  "const_blocks v = [word_of_int (ttype v)] #
     (case v of
        VBoolean b \<Rightarrow> [[word_of_int b]]
      | VNumber n \<Rightarrow> [number_bytes n]
      | VGC (GStr s) \<Rightarrow> string_blocks (Some s)
      | _ \<Rightarrow> [])"

definition vector_blocks :: "('a \<Rightarrow> lstr) \<Rightarrow> 'a list \<Rightarrow> lstr list" where
  "vector_blocks bytes xs = [int_bytes (int (length xs)), concat (map bytes xs)]"

definition list_blocks :: "('a \<Rightarrow> lstr list) \<Rightarrow> 'a list \<Rightarrow> lstr list" where
  "list_blocks bl xs = int_bytes (int (length xs)) # concat (map bl xs)"

lemma list_blocks_cong [fundef_cong]:
  "xs = ys \<Longrightarrow> (\<And>x. x \<in> set ys \<Longrightarrow> f x = g x) \<Longrightarrow> list_blocks f xs = list_blocks g ys"
  by (auto simp: list_blocks_def cong: map_cong)

definition locvar_blocks :: "LocVar \<Rightarrow> lstr list" where
  "locvar_blocks v = string_blocks (varname v) @ [int_bytes (startpc v), int_bytes (endpc v)]"

definition debug_blocks :: "bool \<Rightarrow> proto_info \<Rightarrow> lstr list" where
  "debug_blocks strip i =
     vector_blocks int_bytes (if strip then [] else p_lineinfo i) @
     list_blocks locvar_blocks (if strip then [] else p_locvars i) @
     list_blocks string_blocks (if strip then [] else p_upvalues i)"

definition head_blocks :: "bool \<Rightarrow> proto_info \<Rightarrow> lstr option \<Rightarrow> lstr list" where
  "head_blocks strip i p =
     string_blocks (if p_source i = p \<or> strip then None else p_source i) @
     [int_bytes (p_linedefined i), int_bytes (p_lastlinedefined i),
      [p_nups i], [p_numparams i], [p_is_vararg i], [p_maxstacksize i]]"

fun function_blocks :: "bool \<Rightarrow> Proto \<Rightarrow> lstr option \<Rightarrow> lstr list" where
  "function_blocks strip (Proto i ps) p =
     head_blocks strip i p @ vector_blocks instr_bytes (p_code i) @ list_blocks const_blocks (p_k i) @
     list_blocks (\<lambda>f. function_blocks strip f (p_source i)) ps @ debug_blocks strip i"

definition dump_blocks :: "bool \<Rightarrow> Proto \<Rightarrow> lstr list" where
  "dump_blocks strip f = luaU_header # function_blocks strip f None"

text \<open>Each function writes its blocks.\<close>

named_theorems dump_writes

lemma fold_concat_map: "fold (\<lambda>x. fold g (f x)) xs s = fold g (concat (map f xs)) s"
  by (induction xs arbitrary: s) auto

lemma DumpString_writes [dump_writes]: "DumpString w s D = fold (DumpBlock w) (string_blocks s) D"
  by (cases s) (simp_all add: string_blocks_def)

lemma DumpConstant_writes [dump_writes]: "DumpConstant w v D = fold (DumpBlock w) (const_blocks v) D"
  by (auto simp: DumpConstant_def const_blocks_def DumpChar_def DumpNumber_def dump_writes split: TValue.split
      GCObject.split)

lemma DumpVector_writes [dump_writes]: "DumpVector w by xs D = fold (DumpBlock w) (vector_blocks by xs) D"
  by (simp add: DumpVector_def vector_blocks_def DumpInt_def)

lemma DumpLocVar_writes [dump_writes]: "DumpLocVar w v D = fold (DumpBlock w) (locvar_blocks v) D"
  by (simp add: DumpLocVar_def locvar_blocks_def DumpInt_def dump_writes)

lemma fold_writes:
  assumes "\<And>x D. x \<in> set xs \<Longrightarrow> g x D = fold (DumpBlock w) (bl x) D"
  shows "fold g xs (DumpInt w (int (length xs)) D) = fold (DumpBlock w) (list_blocks bl xs) D"
proof -
  have "fold g xs D' = fold (DumpBlock w) (concat (map bl xs)) D'" for D'
    using assms by (induction xs arbitrary: D') auto
  then show ?thesis by (simp add: list_blocks_def DumpInt_def)
qed

lemma DumpConstants_writes [dump_writes]:
  "DumpConstants w k D = fold (DumpBlock w) (list_blocks const_blocks k) D"
  unfolding DumpConstants_def by (rule fold_writes) (rule dump_writes)

lemma DumpDebug_writes [dump_writes]: "DumpDebug w strip i D = fold (DumpBlock w) (debug_blocks strip i) D"
proof -
  have "DumpDebug w strip i D =
    fold (DumpBlock w) (list_blocks string_blocks (if strip then [] else p_upvalues i))
     (fold (DumpBlock w) (list_blocks locvar_blocks (if strip then [] else p_locvars i))
       (fold (DumpBlock w) (vector_blocks int_bytes (if strip then [] else p_lineinfo i)) D))"
    unfolding DumpDebug_def Let_def
    by (subst (1 2) fold_writes) (simp_all add: dump_writes del: fold_simps)
  then show ?thesis by (simp add: debug_blocks_def)
qed

lemma DumpFunction_writes: "DumpFunction w strip f p D = fold (DumpBlock w) (function_blocks strip f p) D"
proof (induction f arbitrary: p D)
  case (Proto i ps)
  have "fold (\<lambda>f D. DumpFunction w strip f (p_source i) D) ps (DumpInt w (int (length ps)) E) =
    fold (DumpBlock w) (list_blocks (\<lambda>f. function_blocks strip f (p_source i)) ps) E" for E
    by (rule fold_writes) (rule Proto.IH)
  then show ?case
    by (simp add: Let_def dump_writes head_blocks_def DumpInt_def DumpChar_def)
qed

lemma luaU_dump_writes:
  "luaU_dump f w d strip =
     (let D = fold (DumpBlock w) (dump_blocks strip f) \<lparr>D_status = 0, D_data = d\<rparr> in (D_status D, D_data D))"
  by (simp add: luaU_dump_def DumpHeader_def DumpFunction_writes dump_blocks_def)

text \<open>A writer that accepts every block gets them all, in order.\<close>

definition append_writer :: "lstr lua_Writer" where
  "append_writer b d = (0, d @ b)"

lemma append_writes:
  "fold (DumpBlock append_writer) bl \<lparr>D_status = 0, D_data = d\<rparr> = \<lparr>D_status = 0, D_data = d @ concat bl\<rparr>"
  by (induction bl arbitrary: d) (simp_all add: DumpBlock_def append_writer_def)

lemma luaU_dump_bytes: "luaU_dump f append_writer d strip = (0, d @ concat (dump_blocks strip f))"
  by (simp add: luaU_dump_writes append_writes)

text \<open>After the first block the writer refuses it is not called again; its status is the result.\<close>

lemma failed_writes: "D_status D \<noteq> 0 \<Longrightarrow> fold (DumpBlock w) bl D = D"
  by (induction bl) (simp_all add: DumpBlock_def)

lemma dump_stops:
  assumes "fold (DumpBlock w) bl \<lparr>D_status = 0, D_data = d\<rparr> = \<lparr>D_status = st, D_data = d'\<rparr>" "st \<noteq> 0"
  shows "\<exists>pre b post d1. bl = pre @ b # post \<and>
    fold (DumpBlock w) pre \<lparr>D_status = 0, D_data = d\<rparr> = \<lparr>D_status = 0, D_data = d1\<rparr> \<and> w b d1 = (st, d')"
  using assms(1)
proof (induction bl arbitrary: d)
  case (Cons b bl)
  obtain s1 d1 where w: "w b d = (s1, d1)" by (cases "w b d")
  show ?case
  proof (cases "s1 = 0")
    case True
    with w have step: "DumpBlock w b \<lparr>D_status = 0, D_data = d\<rparr> = \<lparr>D_status = 0, D_data = d1\<rparr>"
      by (simp add: DumpBlock_def)
    with Cons.prems have "fold (DumpBlock w) bl \<lparr>D_status = 0, D_data = d1\<rparr> = \<lparr>D_status = st, D_data = d'\<rparr>"
      by simp
    from Cons.IH [OF this] obtain pre c post d2 where "bl = pre @ c # post"
      "fold (DumpBlock w) pre \<lparr>D_status = 0, D_data = d1\<rparr> = \<lparr>D_status = 0, D_data = d2\<rparr>" "w c d2 = (st, d')"
      by blast
    with step show ?thesis by (intro exI [of _ "b # pre"] exI [of _ c] exI [of _ post] exI [of _ d2]) simp
  next
    case False
    have "DumpBlock w b \<lparr>D_status = 0, D_data = d\<rparr> = \<lparr>D_status = s1, D_data = d1\<rparr>"
      by (simp add: DumpBlock_def w)
    with Cons.prems False have "s1 = st" "d1 = d'" by (simp_all add: failed_writes)
    with w have "w b d = (st, d')" by simp
    then show ?thesis by (intro exI [of _ "[]"] exI [of _ b] exI [of _ bl] exI [of _ d]) simp
  qed
qed (use assms(2) in simp)

end
