(* ===== verification/LUndump.thy ===== *)
theory LUndump
  imports LDump LDebug LZio
begin

text \<open>
  Loading precompiled chunks, src/lua-5.1.5/src/lundump.c, from a buffered stream (theory LZio).
  The words are read as theory LDump writes them.  A string is given by its contents
  (\<^verbatim>\<open>luaS_newlstr\<close>, theory LString).
\<close>

section \<open>Loading\<close>

record 'd LoadState =
  L_reader :: "'d lua_Reader"
  L_name :: string

type_synonym ('d, 'a) loader = "'d ZIO \<Rightarrow> ('d ZIO \<times> 'a) res"

definition load_error :: "'d LoadState \<Rightarrow> string \<Rightarrow> ('d, 'a) loader" where
  "load_error S why z = Inl (ErrSyntax (L_name S @ '': '' @ why @ '' in precompiled chunk''))"

definition LoadBlock :: "'d LoadState \<Rightarrow> u64 \<Rightarrow> ('d, lstr) loader" where
  "LoadBlock S sz z =
     (case luaZ_read (L_reader S) z sz of
        Inl e \<Rightarrow> Inl e
      | Inr (z', r, b) \<Rightarrow> if r \<noteq> 0 then load_error S ''unexpected end'' z' else Inr (z', b))"

definition LoadChar :: "'d LoadState \<Rightarrow> ('d, int) loader" where
  "LoadChar S = sbind (LoadBlock S 1) (\<lambda>b. sret (sint (b ! 0)))"

definition LoadByte :: "'d LoadState \<Rightarrow> ('d, lu_byte) loader" where
  "LoadByte S = sbind (LoadChar S) (\<lambda>c. sret (word_of_int c))"

definition int_of_bytes :: "lstr \<Rightarrow> int" where
  "int_of_bytes b = sint (word_of_nat (of_le b) :: u32)"

definition LoadInt :: "'d LoadState \<Rightarrow> ('d, int) loader" where
  "LoadInt S = sbind (LoadBlock S 4)
     (\<lambda>b. let x = int_of_bytes b in if x < 0 then load_error S ''bad integer'' else sret x)"

definition LoadNumber :: "'d LoadState \<Rightarrow> ('d, lua_Number) loader" where
  "LoadNumber S = sbind (LoadBlock S 8) (\<lambda>b. sret (word_of_nat (of_le b)))"

definition LoadString :: "'d LoadState \<Rightarrow> ('d, lstr option) loader" where
  "LoadString S = sbind (LoadBlock S 8)
     (\<lambda>b. let len = word_of_nat (of_le b)
          in if len = 0 then sret None
             else sbind (LoadBlock S len) (\<lambda>s. sret (Some (take (unat (len - 1)) s))))"

text \<open>A vector of \<open>n\<close> elements of \<open>sz\<close> bytes each, read as one block.\<close>

primrec chunks :: "nat \<Rightarrow> nat \<Rightarrow> lstr \<Rightarrow> lstr list" where
  "chunks sz 0 b = []"
| "chunks sz (Suc n) b = take sz b # chunks sz n (drop sz b)"

definition LoadVector :: "'d LoadState \<Rightarrow> nat \<Rightarrow> nat \<Rightarrow> ('d, lstr list) loader" where
  "LoadVector S n sz = sbind (LoadBlock S (word_of_nat n * word_of_nat sz)) (\<lambda>b. sret (chunks sz n b))"

definition LoadCode :: "'d LoadState \<Rightarrow> ('d, Instruction list) loader" where
  "LoadCode S = sbind (LoadInt S)
     (\<lambda>n. sbind (LoadVector S (nat n) 4) (\<lambda>ws. sret (map (\<lambda>b. word_of_nat (of_le b)) ws)))"

text \<open>\<^verbatim>\<open>for (i=0; i<n; i++)\<close> over elements.\<close>

primrec load_n :: "nat \<Rightarrow> ('d, 'a) loader \<Rightarrow> ('d, 'a list) loader" where
  "load_n 0 ld = sret []"
| "load_n (Suc n) ld = sbind ld (\<lambda>x. sbind (load_n n ld) (\<lambda>xs. sret (x # xs)))"

text \<open>A string constant of size 0 is a null \<^verbatim>\<open>TString\<close>: no value of the language.\<close>

definition LoadConstant :: "'d LoadState \<Rightarrow> ('d, TValue) loader" where
  "LoadConstant S = sbind (LoadChar S)
     (\<lambda>t. if t = 0 then sret VNil
          else if t = 1 then sbind (LoadChar S) (\<lambda>c. sret (VBoolean (if c \<noteq> 0 then 1 else 0)))
          else if t = 3 then sbind (LoadNumber S) (\<lambda>n. sret (VNumber n))
          else if t = 4 then
            sbind (LoadString S) (\<lambda>s z. case s of None \<Rightarrow> Inl (ErrUB ''null string constant'')
                                              | Some s \<Rightarrow> sret (VGC (GStr s)) z)
          else load_error S ''bad constant'')"

definition LoadConstants :: "'d LoadState \<Rightarrow> ('d, TValue list) loader" where
  "LoadConstants S = sbind (LoadInt S) (\<lambda>n. load_n (nat n) (LoadConstant S))"

definition LoadLocVar :: "'d LoadState \<Rightarrow> ('d, LocVar) loader" where
  "LoadLocVar S = sbind (LoadString S) (\<lambda>v. sbind (LoadInt S) (\<lambda>a. sbind (LoadInt S)
     (\<lambda>b. sret \<lparr>varname = v, startpc = a, endpc = b\<rparr>)))"

definition LoadDebug :: "'d LoadState \<Rightarrow> ('d, int list \<times> LocVar list \<times> lstr option list) loader" where
  "LoadDebug S =
     sbind (LoadInt S) (\<lambda>n. sbind (LoadVector S (nat n) 4) (\<lambda>line.
     sbind (LoadInt S) (\<lambda>n. sbind (load_n (nat n) (LoadLocVar S)) (\<lambda>locs.
     sbind (LoadInt S) (\<lambda>n. sbind (load_n (nat n) (LoadString S)) (\<lambda>upvs.
     sret (map int_of_bytes line, locs, upvs)))))))"

definition LUAI_MAXCCALLS :: nat where "LUAI_MAXCCALLS = 200"

text \<open>
  \<open>d\<close> is what is left of \<^verbatim>\<open>LUAI_MAXCCALLS - L->nCcalls\<close>.
\<close>

primrec LoadFunction :: "nat \<Rightarrow> 'd LoadState \<Rightarrow> lstr option \<Rightarrow> ('d, Proto) loader" where
  "LoadFunction 0 S p = load_error S ''code too deep''"
| "LoadFunction (Suc d) S p =
     sbind (LoadString S) (\<lambda>s. let src = (if s = None then p else s) in
     sbind (LoadInt S) (\<lambda>l1. sbind (LoadInt S) (\<lambda>l2.
     sbind (LoadByte S) (\<lambda>nups. sbind (LoadByte S) (\<lambda>np.
     sbind (LoadByte S) (\<lambda>va. sbind (LoadByte S) (\<lambda>ms.
     sbind (LoadCode S) (\<lambda>code. sbind (LoadConstants S) (\<lambda>k.
     sbind (LoadInt S) (\<lambda>n. sbind (load_n (nat n) (LoadFunction d S src)) (\<lambda>ps.
     sbind (LoadDebug S) (\<lambda>(line, locs, upvs).
       let f = Proto \<lparr>p_k = k, p_code = code, p_lineinfo = line, p_locvars = locs, p_upvalues = upvs,
                      p_source = src, p_linedefined = l1, p_lastlinedefined = l2, p_nups = nups,
                      p_numparams = np, p_is_vararg = va, p_maxstacksize = ms\<rparr> ps
       in if \<not> luaG_checkcode f then load_error S ''bad code'' else sret f))))))))))))"

definition LoadHeader :: "'d LoadState \<Rightarrow> ('d, unit) loader" where
  "LoadHeader S = sbind (LoadBlock S (word_of_nat LUAC_HEADERSIZE))
     (\<lambda>s. if luaU_header \<noteq> s then load_error S ''bad header'' else sret ())"

text \<open>The name for messages: a file name without its mark, or a fixed name for a binary chunk.\<close>

definition chunk_name :: "string \<Rightarrow> string" where
  "chunk_name name =
     (if name \<noteq> [] \<and> (hd name = CHR ''@'' \<or> hd name = CHR ''='') then tl name
      else if name \<noteq> [] \<and> hd name = CHR 0x1B then ''binary string''
      else name)"

definition luaU_undump :: "nat \<Rightarrow> 'd lua_Reader \<Rightarrow> string \<Rightarrow> ('d, Proto) loader" where
  "luaU_undump nCcalls reader name =
     (let S = \<lparr>L_reader = reader, L_name = chunk_name name\<rparr>
      in sbind (LoadHeader S)
           (\<lambda>_. LoadFunction (LUAI_MAXCCALLS - nCcalls) S (Some (lit ''=?''))))"

section \<open>Whatever is loaded has passed the checker\<close>

fun all_checked :: "Proto \<Rightarrow> bool" where
  "all_checked (Proto i ps) \<longleftrightarrow> luaG_checkcode (Proto i ps) \<and> list_all all_checked ps"

fun nesting :: "Proto \<Rightarrow> nat" where
  "nesting (Proto i ps) = Suc (Max (set (0 # map nesting ps)))"

lemma load_n_all:
  assumes "\<And>z z' x. ld z = Inr (z', x) \<Longrightarrow> P x" "load_n n ld z = Inr (z', xs)"
  shows "length xs = n \<and> (\<forall>x \<in> set xs. P x)"
  using assms(2)
proof (induction n arbitrary: z z' xs)
  case (Suc n)
  then obtain z1 x xs' where "ld z = Inr (z1, x)" "load_n n ld z1 = Inr (z', xs')" "xs = x # xs'"
    by (auto simp: sbind_Inr_iff)
  with assms(1) Suc.IH show ?case by auto
qed simp

lemma loaded_checked:
  assumes "LoadFunction d S p z = Inr (z', f)"
  shows "all_checked f \<and> nesting f \<le> d"
  using assms
proof (induction d arbitrary: S p z z' f)
  case 0
  then show ?case by (simp add: load_error_def)
next
  case (Suc d)
  from Suc.prems obtain src n ps z1 z2 i where l: "load_n n (LoadFunction d S src) z1 = Inr (z2, ps)"
    and f: "f = Proto i ps" "luaG_checkcode f"
    by (auto simp: sbind_Inr_iff Let_def load_error_def split: if_splits prod.splits)
  have "all_checked q \<and> nesting q \<le> d" if "LoadFunction d S src z = Inr (z', q)" for z z' q
    using Suc.IH that by blast
  from load_n_all [of "LoadFunction d S src" "\<lambda>q. all_checked q \<and> nesting q \<le> d", OF this l]
  have "\<forall>q \<in> set ps. all_checked q \<and> nesting q \<le> d" by simp
  with f show ?case by (auto simp: list_all_iff)
qed

section \<open>Reading what was written\<close>

text \<open>A loader that consumes exactly the bytes \<open>b\<close> of a stream and returns \<open>x\<close>.\<close>

definition reads :: "('z \<Rightarrow> lstr \<Rightarrow> bool) \<Rightarrow> ('z \<Rightarrow> ('z \<times> 'a) res) \<Rightarrow> lstr \<Rightarrow> 'a \<Rightarrow> bool" where
  "reads holds ld b x \<longleftrightarrow>
     (\<forall>z rest. holds z (b @ rest) \<longrightarrow> (\<exists>z'. ld z = Inr (z', x) \<and> holds z' rest))"

lemma reads_ret: "reads H (sret x) [] x"
  by (simp add: reads_def sret_def)

lemma reads_bind: "reads H m b1 x \<Longrightarrow> reads H (f x) b2 y \<Longrightarrow> reads H (sbind m f) (b1 @ b2) y"
  unfolding reads_def sbind_def by (metis (no_types, lifting) append.assoc case_prod_conv ebind_simps(2))

lemma reads_bind1: "reads H m [c] x \<Longrightarrow> reads H (f x) b y \<Longrightarrow> reads H (sbind m f) (c # b) y"
  using reads_bind [of H m "[c]" x f b y] by simp

lemma reads_map: "reads H m b x \<Longrightarrow> g x = y \<Longrightarrow> reads H (sbind m (\<lambda>x. sret (g x))) b y"
  using reads_bind [of H m b x "\<lambda>x. sret (g x)" "[]"] reads_ret by fastforce

lemma reads_load_n:
  assumes "\<And>x. x \<in> set xs \<Longrightarrow> reads H ld (by x) (g x)"
  shows "reads H (load_n (length xs) ld) (concat (map by xs)) (map g xs)"
  using assms
proof (induction xs)
  case (Cons x xs)
  then have "reads H (sbind (load_n (length xs) ld) (\<lambda>ys. sret (g x # ys))) (concat (map by xs)) (g x # map g xs)"
    by (intro reads_map) auto
  then show ?case using Cons.prems by (auto intro!: reads_bind)
qed (simp add: reads_ret)

text \<open>The interface to the stream: a block read takes that many bytes.\<close>

locale block_input =
  fixes load :: "u64 \<Rightarrow> 'z \<Rightarrow> ('z \<times> lstr) res" and holds :: "'z \<Rightarrow> lstr \<Rightarrow> bool"
  assumes load_block: "holds z (b @ rest) \<Longrightarrow> length b = unat n \<Longrightarrow> \<exists>z'. load n z = Inr (z', b) \<and> holds z' rest"
begin

lemma reads_block: "length b = unat n \<Longrightarrow> reads holds (load n) b b"
  using load_block by (simp add: reads_def)

lemma reads_via: "length b = unat n \<Longrightarrow> reads holds (f b) [] y \<Longrightarrow> reads holds (sbind (load n) f) b y"
  using reads_bind [OF reads_block, of b n f "[]" y] by simp

end

interpretation zin: block_input "LoadBlock S" "zstream (L_reader S)" for S :: "'d LoadState"
proof
  fix z :: "'d ZIO" and b rest :: lstr and n :: u64
  assume s: "zstream (L_reader S) z (b @ rest)" and l: "length b = unat n"
  from read_stream [OF s, of n] l obtain z' where
    "luaZ_read (L_reader S) z n = Inr (z', 0, b)" "zstream (L_reader S) z' rest" by auto
  then show "\<exists>z'. LoadBlock S n z = Inr (z', b) \<and> zstream (L_reader S) z' rest"
    by (simp add: LoadBlock_def)
qed

subsection \<open>Scalars and strings\<close>

abbreviation zreads :: "'d LoadState \<Rightarrow> ('d, 'a) loader \<Rightarrow> lstr \<Rightarrow> 'a \<Rightarrow> bool" where
  "zreads S \<equiv> reads (zstream (L_reader S))"

lemma reads_Char: "zreads S (LoadChar S) [c] (sint c)"
  unfolding LoadChar_def by (rule zin.reads_via) (simp_all add: reads_ret)

lemma reads_Byte: "zreads S (LoadByte S) [c] c"
  unfolding LoadByte_def by (rule reads_map [OF reads_Char]) simp

lemma int_bytes_int:
  assumes "is_int x"
  shows "int_of_bytes (int_bytes x) = x"
proof -
  have "(word_of_nat (nat (x mod 2 ^ 32)) :: u32) = word_of_int (x mod 2 ^ 32)" by (simp add: of_nat_nat)
  also have "\<dots> = word_of_int x" by (simp add: word_of_int_eq_iff take_bit_eq_mod)
  finally have "int_of_bytes (int_bytes x) = sint (word_of_int x :: u32)"
    by (simp add: int_of_bytes_def int_bytes_def of_le_le)
  with assms show ?thesis
    by (simp add: is_int_def INT_MIN_def INT_MAX_def signed_of_int signed_take_bit_int_eq_self)
qed

lemma reads_Int:
  assumes "is_int x" "0 \<le> x"
  shows "zreads S (LoadInt S) (int_bytes x) x"
  unfolding LoadInt_def
proof (rule zin.reads_via)
  show "length (int_bytes x) = unat (4 :: u64)" by (simp add: int_bytes_def)
qed (use assms in \<open>simp add: reads_ret int_bytes_int\<close>)

lemma reads_Number: "zreads S (LoadNumber S) (number_bytes x) x"
  unfolding LoadNumber_def
proof (rule zin.reads_via)
  have "unat x < 2 ^ 64" using unsigned_less [of x, where 'a = nat] by simp
  then have "of_le (number_bytes x) = unat x" by (simp add: number_bytes_def of_le_le)
  then show "zreads S (sret (word_of_nat (of_le (number_bytes x)))) [] x" by (simp add: reads_ret)
qed (simp add: number_bytes_def)

definition string_ok :: "lstr option \<Rightarrow> bool" where
  "string_ok s = (case s of None \<Rightarrow> True | Some s \<Rightarrow> length s + 1 < 2 ^ 64)"

lemma reads_String:
  assumes "string_ok s"
  shows "zreads S (LoadString S) (concat (string_blocks s)) s"
proof (cases s)
  case None
  have "of_le (size_bytes 0) = 0" by (simp add: size_bytes_def of_le_le)
  then show ?thesis unfolding LoadString_def None string_blocks_def
    by (intro zin.reads_via) (simp_all add: size_bytes_def reads_ret)
next
  case (Some t)
  let ?n = "word_of_nat (length t + 1) :: u64"
  have len: "length t + 1 < 2 ^ 64" using assms Some by (simp add: string_ok_def)
  then have n: "of_le (size_bytes (length t + 1)) = length t + 1" by (simp add: size_bytes_def of_le_le)
  have u: "unat ?n = length t + 1" using len by (simp only: unsigned_of_nat) (simp add: take_bit_nat_eq_self)
  then have nz: "?n \<noteq> 0" by (metis Suc_eq_plus1 nat.distinct(1) unat_0)
  then have "unat (?n - 1) = unat ?n - 1" by (rule unat_minus_one)
  also have "\<dots> = length t" unfolding u by simp
  finally have "unat (?n - 1) = length t" .
  then have "zreads S (sbind (LoadBlock S ?n) (\<lambda>s. sret (Some (take (unat (?n - 1)) s)))) (t @ [0]) (Some t)"
    using u by (intro zin.reads_via) (simp_all add: reads_ret)
  then have "zreads S (LoadString S) (size_bytes (length t + 1) @ t @ [0]) (Some t)"
    unfolding LoadString_def using nz
    by (intro reads_bind [OF zin.reads_block]) (simp_all only: n Let_def if_False, simp add: size_bytes_def)
  then show ?thesis by (simp add: Some string_blocks_def)
qed

subsection \<open>Vectors and lists\<close>

lemma chunks_concat:
  assumes "\<And>x. x \<in> set xs \<Longrightarrow> length (by x) = n"
  shows "chunks n (length xs) (concat (map by xs)) = map by xs"
  using assms by (induction xs) auto

lemma length_concat_map:
  assumes "\<And>x. x \<in> set xs \<Longrightarrow> length (by x) = n"
  shows "length (concat (map by xs)) = length xs * n"
  using assms by (induction xs) auto

definition len_ok :: "'a list \<Rightarrow> bool" where
  "len_ok xs \<longleftrightarrow> length xs < 2 ^ 31"

lemma reads_len: "len_ok xs \<Longrightarrow> zreads S (LoadInt S) (int_bytes (int (length xs))) (int (length xs))"
  by (rule reads_Int) (simp_all add: len_ok_def is_int_def INT_MAX_def INT_MIN_def)

lemma reads_Vector:
  assumes "\<And>x. x \<in> set xs \<Longrightarrow> length (by x) = 4" "len_ok xs"
  shows "zreads S (LoadVector S (length xs) 4) (concat (map by xs)) (map by xs)"
  unfolding LoadVector_def
proof (rule zin.reads_via)
  have "unat (word_of_nat (length xs) * word_of_nat 4 :: u64) = length xs * 4"
    using assms(2) by (simp only: unat_word_ariths unsigned_of_nat) (simp add: len_ok_def take_bit_nat_eq_self)
  then show "length (concat (map by xs)) = unat (word_of_nat (length xs) * word_of_nat 4 :: u64)"
    using length_concat_map [of xs "by" 4] assms(1) by simp
  show "zreads S (sret (chunks 4 (length xs) (concat (map by xs)))) [] (map by xs)"
    using chunks_concat [of xs "by" 4] assms(1) by (simp add: reads_ret)
qed

lemma reads_Code:
  assumes "len_ok code"
  shows "zreads S (LoadCode S) (concat (vector_blocks instr_bytes code)) code"
proof -
  have i: "word_of_nat (of_le (instr_bytes i)) = i" for i
  proof -
    have "unat i < 2 ^ 32" using unsigned_less [of i, where 'a = nat] by simp
    then show ?thesis by (simp add: instr_bytes_def of_le_le)
  qed
  have "zreads S (LoadVector S (nat (int (length code))) 4) (concat (map instr_bytes code)) (map instr_bytes code)"
    using reads_Vector [of code instr_bytes S] assms by (simp add: instr_bytes_def)
  then show ?thesis unfolding LoadCode_def vector_blocks_def
    by (auto intro!: reads_bind [OF reads_len [OF assms]] reads_map simp: o_def i)
qed

text \<open>A counted list.\<close>

lemma concat_concat_map: "concat (concat (map f xs)) = concat (map (\<lambda>x. concat (f x)) xs)"
  by (induction xs) auto

lemma reads_list:
  assumes "len_ok xs" "\<And>x. x \<in> set xs \<Longrightarrow> zreads S ld (concat (bl x)) (g x)"
  shows "zreads S (sbind (LoadInt S) (\<lambda>n. load_n (nat n) ld)) (concat (list_blocks bl xs)) (map g xs)"
proof -
  have "zreads S (load_n (nat (int (length xs))) ld) (concat (map (\<lambda>x. concat (bl x)) xs)) (map g xs)"
    using reads_load_n [of xs, OF assms(2)] by simp
  with reads_len [OF assms(1)]
  have "zreads S (sbind (LoadInt S) (\<lambda>n. load_n (nat n) ld))
    (int_bytes (int (length xs)) @ concat (map (\<lambda>x. concat (bl x)) xs)) (map g xs)"
    by (rule reads_bind)
  then show ?thesis by (simp add: list_blocks_def concat_concat_map)
qed

definition const_ok :: "TValue \<Rightarrow> bool" where
  "const_ok v = (case v of
     VNil \<Rightarrow> True | VBoolean b \<Rightarrow> b = 0 \<or> b = 1 | VNumber _ \<Rightarrow> True
   | VGC (GStr s) \<Rightarrow> string_ok (Some s) | _ \<Rightarrow> False)"

lemma reads_Constant:
  assumes "const_ok v"
  shows "zreads S (LoadConstant S) (concat (const_blocks v)) v"
proof -
  have t: "zreads S (LoadChar S) [word_of_int t] t" if "- 128 \<le> t" "t < 128" for t
    using reads_Char [of S "word_of_int t"] that by (simp add: signed_of_int signed_take_bit_int_eq_self)
  have t': "zreads S (LoadChar S) [0] 0" "zreads S (LoadChar S) [1] 1" "zreads S (LoadChar S) [3] 3"
    "zreads S (LoadChar S) [4] 4" using t [of 0] t [of 1] t [of 3] t [of 4] by simp_all
  note b = t' [THEN reads_bind1]
  show ?thesis
  proof (cases v rule: ttype.cases)
    case 1
    then show ?thesis unfolding LoadConstant_def const_blocks_def by (auto intro!: b reads_ret)
  next
    case (2 x)
    then have "zreads S (LoadChar S) [word_of_int x] x" "x = 0 \<or> x = 1" using assms t [of x]
      by (auto simp: const_ok_def)
    with 2 show ?thesis unfolding LoadConstant_def const_blocks_def by (auto intro!: b reads_map reads_ret)
  next
    case (4 x)
    then show ?thesis unfolding LoadConstant_def const_blocks_def by (auto intro!: b reads_map reads_Number)
  next
    case (5 g)
    then obtain s where v: "v = VGC (GStr s)" "string_ok (Some s)"
      using assms by (auto simp: const_ok_def split: GCObject.splits)
    have "zreads S (sbind (LoadString S) (\<lambda>s z. case s of None \<Rightarrow> Inl (ErrUB ''null string constant'')
        | Some s \<Rightarrow> sret (VGC (GStr s)) z)) (concat (string_blocks (Some s)) @ []) v"
      by (rule reads_bind [OF reads_String [OF v(2)]]) (simp add: v reads_ret)
    with v show ?thesis unfolding LoadConstant_def const_blocks_def by (auto intro!: b)
  qed (use assms in \<open>auto simp: const_ok_def\<close>)
qed

definition nat_int :: "int \<Rightarrow> bool" where
  "nat_int x \<longleftrightarrow> 0 \<le> x \<and> is_int x"

definition locvar_ok :: "LocVar \<Rightarrow> bool" where
  "locvar_ok v \<longleftrightarrow> string_ok (varname v) \<and> nat_int (startpc v) \<and> nat_int (endpc v)"

lemma reads_LocVar:
  assumes "locvar_ok v"
  shows "zreads S (LoadLocVar S) (concat (locvar_blocks v)) v"
  unfolding LoadLocVar_def locvar_blocks_def concat_append
  by (rule reads_bind [OF reads_String])
    (use assms in \<open>auto simp: locvar_ok_def nat_int_def intro!: reads_bind [OF reads_Int] reads_map reads_Int\<close>)

lemma reads_Constants:
  assumes "len_ok k" "list_all const_ok k"
  shows "zreads S (LoadConstants S) (concat (list_blocks const_blocks k)) k"
  unfolding LoadConstants_def
  using reads_list [OF assms(1), where g = "\<lambda>x. x" and ld = "LoadConstant S", OF reads_Constant] assms(2)
  by (simp add: list_all_iff)

text \<open>The parts of a function that a stripped dump leaves out.\<close>

definition debug_ok :: "proto_info \<Rightarrow> bool" where
  "debug_ok i \<longleftrightarrow> len_ok (p_lineinfo i) \<and> list_all is_int (p_lineinfo i) \<and>
     len_ok (p_locvars i) \<and> list_all locvar_ok (p_locvars i) \<and>
     len_ok (p_upvalues i) \<and> list_all string_ok (p_upvalues i)"

lemma reads_Debug:
  assumes "debug_ok i"
  shows "zreads S (LoadDebug S) (concat (debug_blocks strip i))
    (if strip then ([], [], []) else (p_lineinfo i, p_locvars i, p_upvalues i))"
proof -
  define line where "line = (if strip then [] else p_lineinfo i)"
  define locs where "locs = (if strip then [] else p_locvars i)"
  define upvs where "upvs = (if strip then [] else p_upvalues i)"
  have ok: "len_ok line" "list_all is_int line" "len_ok locs" "list_all locvar_ok locs"
    "len_ok upvs" "list_all string_ok upvs"
    using assms by (auto simp: debug_ok_def line_def locs_def upvs_def len_ok_def)
  have n: "nat (int (length xs)) = length xs" for xs :: "'b list" by simp
  have li: "map int_of_bytes (map int_bytes line) = line"
    using ok(2) by (simp add: list_all_iff int_bytes_int map_idI)
  have 1: "zreads S (LoadVector S (nat (int (length line))) 4) (concat (map int_bytes line)) (map int_bytes line)"
    unfolding n using ok(1) by (intro reads_Vector) (simp_all add: int_bytes_def)
  have 2: "zreads S (load_n (nat (int (length locs))) (LoadLocVar S))
    (concat (map (\<lambda>x. concat (locvar_blocks x)) locs)) (map (\<lambda>x. x) locs)"
    unfolding n using ok(4) by (intro reads_load_n reads_LocVar) (simp add: list_all_iff)
  have 3: "zreads S (load_n (nat (int (length upvs))) (LoadString S))
    (concat (map (\<lambda>x. concat (string_blocks x)) upvs)) (map (\<lambda>x. x) upvs)"
    unfolding n using ok(6) by (intro reads_load_n reads_String) (simp add: list_all_iff)
  have "zreads S (LoadDebug S)
    (int_bytes (int (length line)) @ concat (map int_bytes line) @
     int_bytes (int (length locs)) @ concat (map (\<lambda>x. concat (locvar_blocks x)) locs) @
     int_bytes (int (length upvs)) @ concat (map (\<lambda>x. concat (string_blocks x)) upvs) @ [])
    (line, locs, upvs)"
    unfolding LoadDebug_def
    by (rule reads_bind [OF reads_len [OF ok(1)]] reads_bind [OF 1] reads_bind [OF reads_len [OF ok(3)]]
        reads_bind [OF 2] reads_bind [OF reads_len [OF ok(5)]] reads_bind [OF 3])+
      (simp add: li [unfolded map_map o_def] o_def reads_ret)
  then show ?thesis
    by (simp add: debug_blocks_def vector_blocks_def list_blocks_def concat_concat_map line_def locs_def upvs_def
        split: if_splits)
qed

subsection \<open>Functions\<close>

fun dumpable :: "Proto \<Rightarrow> bool" where
  "dumpable (Proto i ps) \<longleftrightarrow>
     p_source i \<noteq> None \<and> string_ok (p_source i) \<and> nat_int (p_linedefined i) \<and> nat_int (p_lastlinedefined i) \<and>
     len_ok (p_code i) \<and> len_ok (p_k i) \<and> list_all const_ok (p_k i) \<and> debug_ok i \<and>
     len_ok ps \<and> list_all dumpable ps"

text \<open>
  What comes back: without debug information the source of the main function (\<open>q\<close>) is inherited
  and the line numbers and names are gone.
\<close>

definition loaded_info :: "bool \<Rightarrow> lstr option \<Rightarrow> proto_info \<Rightarrow> proto_info" where
  "loaded_info strip q i =
     (if strip then i\<lparr>p_source := q, p_lineinfo := [], p_locvars := [], p_upvalues := []\<rparr> else i)"

fun loaded :: "bool \<Rightarrow> lstr option \<Rightarrow> Proto \<Rightarrow> Proto" where
  "loaded strip q (Proto i ps) =
     Proto (loaded_info strip q i) (map (loaded strip (p_source (loaded_info strip q i))) ps)"

lemma loaded_whole: "loaded False q f = f"
  by (induction f arbitrary: q) (simp add: loaded_info_def map_idI)

text \<open>The checker looks at the code and not at the debug information.\<close>

lemma info_loaded: "info (loaded strip q f) = loaded_info strip q (info f)"
  by (cases f) simp

lemma loaded_fields [simp]:
  "p_code (loaded_info strip q i) = p_code i" "p_k (loaded_info strip q i) = p_k i"
  "p_nups (loaded_info strip q i) = p_nups i" "p_numparams (loaded_info strip q i) = p_numparams i"
  "p_is_vararg (loaded_info strip q i) = p_is_vararg i"
  "p_maxstacksize (loaded_info strip q i) = p_maxstacksize i"
  by (simp_all add: loaded_info_def)

lemma subs_loaded: "subs (loaded strip q f) = map (loaded strip (p_source (loaded_info strip q (info f)))) (subs f)"
  by (cases f) simp

lemma loaded_views [simp]:
  "sizecode (loaded strip q f) = sizecode f" "code_at (loaded strip q f) = code_at f"
  "sizek (loaded strip q f) = sizek f" "maxstack (loaded strip q f) = maxstack f"
  "sizep (loaded strip q f) = sizep f" "checkreg (loaded strip q f) = checkreg f"
  "is_string_k (loaded strip q f) = is_string_k f"
  by (simp_all add: fun_eq_iff sizecode_def code_at_def sizek_def maxstack_def sizep_def checkreg_def
      is_string_k_def info_loaded subs_loaded)

lemma checkArgMode_loaded [simp]: "checkArgMode (loaded strip q f) r m = checkArgMode f r m"
  by (cases m) simp_all

lemma setlists_before_loaded [simp]: "setlists_before (loaded strip q f) d = setlists_before f d"
  by (induction d) simp_all

lemma symb_op_loaded:
  assumes "op = OP_CLOSURE \<longrightarrow> 0 \<le> b"
  shows "symb_op (loaded strip q f) lastpc reg pc l op a b c = symb_op f lastpc reg pc l op a b c"
proof (cases "op = OP_CLOSURE")
  case True
  have "p_nups (info (subs (loaded strip q f) ! nat b)) = p_nups (info (subs f ! nat b))" if "b < int (sizep f)"
    using that assms True by (simp add: subs_loaded sizep_def info_loaded nat_less_iff)
  with True show ?thesis by (simp add: symb_op_def Let_def)
next
  case False
  then show ?thesis by (cases op) (simp_all add: symb_op_def symb_call_def info_loaded)
qed

lemma decode_args_loaded [simp]: "decode_args (loaded strip q f) = decode_args f"
  by (simp add: fun_eq_iff decode_args_def Let_def check_dest_def split: OpMode.split)

lemma symb_instr_loaded: "symb_instr (loaded strip q f) lastpc reg pc l = symb_instr f lastpc reg pc l"
proof (cases "GET_OPCODE (code_at f pc)")
  case None
  then show ?thesis by (simp add: symb_instr_def Let_def)
next
  case (Some op)
  show ?thesis
  proof (cases "decode_args f pc (code_at f pc) op")
    case None
    with Some show ?thesis by (simp add: symb_instr_def Let_def)
  next
    case d: (Some bc)
    obtain b c where bc: "bc = (b, c)" by (cases bc)
    have "op = OP_CLOSURE \<longrightarrow> 0 \<le> b"
      using d bc by (auto simp: decode_args_def getOpMode_def getBMode_def Let_def)
    with Some d bc show ?thesis by (auto simp: symb_instr_def Let_def symb_op_loaded)
  qed
qed

lemma symb_loop_loaded: "symb_loop (loaded strip q f) lastpc reg pc l = symb_loop f lastpc reg pc l"
proof (induction "lastpc - pc" arbitrary: pc l rule: less_induct)
  case less
  have "symb_loop (loaded strip q f) lastpc reg (Suc pc') l' = symb_loop f lastpc reg (Suc pc') l'"
    if "symb_instr f lastpc reg pc l = Some (pc', l')" "pc < lastpc" for pc' l'
    using symb_instr_ge [OF that(1)] that(2) by (intro less) simp
  then show ?case
    by (subst (1 2) symb_loop.simps) (auto simp: symb_instr_loaded split: option.split)
qed

lemma checkcode_loaded: "luaG_checkcode f \<Longrightarrow> luaG_checkcode (loaded strip q f)"
proof -
  assume c: "luaG_checkcode f"
  then have "precheck f" by (auto simp: luaG_checkcode_def symbexec_def split: if_splits)
  then have "precheck (loaded strip q f)"
    by (cases strip) (auto simp: precheck_def Let_def info_loaded loaded_info_def)
  with c \<open>precheck f\<close> show ?thesis
    by (simp add: luaG_checkcode_def symbexec_def symb_loop_loaded)
qed

text \<open>The round trip of one function.\<close>

lemma reads_Function:
  assumes "dumpable f" "all_checked f" "nesting f \<le> d"
    and "\<not> strip \<and> p_source (info f) = p \<longrightarrow> q = p"
  shows "zreads S (LoadFunction d S q) (concat (function_blocks strip f p)) (loaded strip q f)"
  using assms
proof (induction f arbitrary: d p q)
  case (Proto i ps)
  let ?src = "p_source (loaded_info strip q i)"
  let ?sent = "if p_source i = p \<or> strip then None else p_source i"
  let ?dbg = "if strip then ([], [], []) else (p_lineinfo i, p_locvars i, p_upvalues i)"
  from Proto.prems(3) obtain d' where d: "d = Suc d'" by (cases d) simp_all
  have src: "(if ?sent = None then q else ?sent) = ?src"
    using Proto.prems(1,4) by (auto simp: loaded_info_def)
  have i: "string_ok ?sent" "is_int (p_linedefined i)" "0 \<le> p_linedefined i" "is_int (p_lastlinedefined i)"
    "0 \<le> p_lastlinedefined i" "len_ok (p_code i)" "len_ok (p_k i)" "list_all const_ok (p_k i)" "debug_ok i"
    "len_ok ps" using Proto.prems(1) by (auto simp: nat_int_def string_ok_def)
  have sub: "zreads S (LoadFunction d' S ?src) (concat (function_blocks strip g (p_source i))) (loaded strip ?src g)"
    if g: "g \<in> set ps" for g
  proof (rule Proto.IH [OF g])
    show "dumpable g" "all_checked g" using Proto.prems(1,2) g by (auto simp: list_all_iff)
    show "nesting g \<le> d'" using Proto.prems(3) d g by simp
    show "\<not> strip \<and> p_source (info g) = p_source i \<longrightarrow> ?src = p_source i" by (auto simp: loaded_info_def)
  qed
  have subs: "zreads S (load_n (nat (int (length ps))) (LoadFunction d' S ?src))
    (concat (map (\<lambda>g. concat (function_blocks strip g (p_source i))) ps)) (map (loaded strip ?src) ps)"
    using reads_load_n [of ps, OF sub] by simp
  have ck: "luaG_checkcode (Proto (loaded_info strip q i) (map (loaded strip ?src) ps))"
    using checkcode_loaded [of "Proto i ps" strip q] Proto.prems(2) by simp
  have eq: "\<lparr>p_k = p_k i, p_code = p_code i, p_lineinfo = fst ?dbg, p_locvars = fst (snd ?dbg),
      p_upvalues = snd (snd ?dbg), p_source = ?src, p_linedefined = p_linedefined i,
      p_lastlinedefined = p_lastlinedefined i, p_nups = p_nups i, p_numparams = p_numparams i,
      p_is_vararg = p_is_vararg i, p_maxstacksize = p_maxstacksize i\<rparr> = loaded_info strip q i"
    by (cases i) (simp add: loaded_info_def)
  have "zreads S (LoadFunction (Suc d') S q)
    (concat (string_blocks ?sent) @ int_bytes (p_linedefined i) @ int_bytes (p_lastlinedefined i) @
     p_nups i # p_numparams i # p_is_vararg i # p_maxstacksize i #
     concat (vector_blocks instr_bytes (p_code i)) @ concat (list_blocks const_blocks (p_k i)) @
     int_bytes (int (length ps)) @ concat (map (\<lambda>g. concat (function_blocks strip g (p_source i))) ps) @
     concat (debug_blocks strip i) @ [])
    (loaded strip q (Proto i ps))"
    unfolding LoadFunction.simps
    apply (rule reads_bind [OF reads_String [OF i(1)]])
    apply (simp only: src Let_def)
    apply (rule reads_bind [OF reads_Int [OF i(2,3)]] reads_bind [OF reads_Int [OF i(4,5)]]
        reads_bind1 [OF reads_Byte] reads_bind [OF reads_Code [OF i(6)]]
        reads_bind [OF reads_Constants [OF i(7,8)]] reads_bind [OF reads_len [OF i(10)]]
        reads_bind [OF subs] reads_bind [OF reads_Debug [OF i(9)]])+
    using eq ck by (simp add: split_beta reads_ret)
  then show ?case
    by (simp add: d head_blocks_def list_blocks_def concat_concat_map)
qed

text \<open>The round trip of a chunk.\<close>

lemma undump_dump:
  assumes "dumpable f" "all_checked f" "nesting f + nCcalls \<le> LUAI_MAXCCALLS"
    and "delivers reader data (concat (dump_blocks strip f))"
  shows "\<exists>z'. luaU_undump nCcalls reader name (luaZ_init data) = Inr (z', loaded strip (Some (lit ''=?'')) f)"
proof -
  let ?S = "\<lparr>L_reader = reader, L_name = chunk_name name\<rparr>"
  have "p_source (info f) \<noteq> None" using assms(1) by (cases f) simp
  then have fn: "zreads ?S (LoadFunction (LUAI_MAXCCALLS - nCcalls) ?S (Some (lit ''=?'')))
    (concat (function_blocks strip f None)) (loaded strip (Some (lit ''=?'')) f)"
    using assms(1-3) by (intro reads_Function) auto
  have "length luaU_header = unat (word_of_nat LUAC_HEADERSIZE :: u64)"
    by (simp add: luaU_header_def LUA_SIGNATURE_def lit_def LUAC_HEADERSIZE_def)
  then have hd: "zreads ?S (LoadHeader ?S) luaU_header ()"
    unfolding LoadHeader_def by (intro zin.reads_via) (simp_all add: reads_ret)
  have "zreads ?S (luaU_undump nCcalls reader name) (luaU_header @ concat (function_blocks strip f None))
    (loaded strip (Some (lit ''=?'')) f)"
    unfolding luaU_undump_def Let_def by (rule reads_bind [OF hd]) (rule fn)
  moreover have "zstream reader (luaZ_init data) (luaU_header @ concat (function_blocks strip f None))"
    using zstream_init [OF assms(4)] by (simp add: dump_blocks_def)
  ultimately show ?thesis unfolding reads_def by (metis LoadState.select_convs(1) append_Nil2)
qed

end
