(* ===== verification/OscOut.thy ===== *)
theory OscOut
  imports LCtype
begin

text \<open>
  Building OSC packets: \<^verbatim>\<open>OutboundPacketStream\<close> of src/oscpack_1_1_0/osc, on a little-endian host.

  The buffer is a list of bytes and the pointers of the class are offsets from \<^verbatim>\<open>data_\<close>; a write or a
  read outside the buffer is \<open>OscUB\<close>.  The null pointer \<^verbatim>\<open>elementSizePtr_ = 0\<close> is \<open>None\<close>.  A C string
  is the list of its bytes before the terminator, a float its bit pattern.  Sizes and differences of
  pointers are natural numbers: no object reaches \<open>2 ^ 63\<close> bytes.
\<close>

section \<open>Exceptions\<close>

datatype osc_exception =
    OutOfBufferMemory | BundleNotInProgress | MessageInProgress | MessageNotInProgress
  | MalformedPacket string | MalformedMessage string | MalformedBundle string
  | WrongArgumentType | MissingArgument | ExcessArgument

datatype osc_error = Throw osc_exception | OscUB string | OscLoop

type_synonym 'a ores = "osc_error + 'a"

definition throw_if :: "bool \<Rightarrow> osc_exception \<Rightarrow> unit ores" where
  "throw_if b e = (if b then Inl (Throw e) else Inr ())"

section \<open>Bytes\<close>

definition FromInt32 :: "u32 \<Rightarrow> lstr" where "FromInt32 x = rev (le 4 (unat x))"
definition FromUInt32 :: "u32 \<Rightarrow> lstr" where "FromUInt32 x = rev (le 4 (unat x))"
definition FromInt64 :: "u64 \<Rightarrow> lstr" where "FromInt64 x = rev (le 8 (unat x))"
definition FromUInt64 :: "u64 \<Rightarrow> lstr" where "FromUInt64 x = rev (le 8 (unat x))"

text \<open>A 32-bit word in the order of the host.\<close>

definition host_uint32 :: "u32 \<Rightarrow> lstr" where "host_uint32 x = le 4 (unat x)"

definition RoundUp4 :: "nat \<Rightarrow> nat" where "RoundUp4 x = (x + 3) - (x + 3) mod 4"

section \<open>The stream\<close>

record OutStream =
  data_buf :: lstr
  typeTagsCurrent :: nat
  messageCursor :: nat
  argumentCurrent :: nat
  elementSizePtr :: "nat option"
  messageIsInProgress :: bool

definition Capacity :: "OutStream \<Rightarrow> nat" where "Capacity s = length (data_buf s)"

definition OutboundPacketStream :: "lstr \<Rightarrow> OutStream" where
  "OutboundPacketStream buffer =
     \<lparr>data_buf = buffer, typeTagsCurrent = length buffer, messageCursor = 0, argumentCurrent = 0,
      elementSizePtr = None, messageIsInProgress = False\<rparr>"

definition Clear :: "OutStream \<Rightarrow> OutStream" where
  "Clear s = s\<lparr>typeTagsCurrent := Capacity s, messageCursor := 0, argumentCurrent := 0,
     elementSizePtr := None, messageIsInProgress := False\<rparr>"

definition typeTagsCount :: "OutStream \<Rightarrow> nat" where "typeTagsCount s = Capacity s - typeTagsCurrent s"

definition Size :: "OutStream \<Rightarrow> nat" where
  "Size s = argumentCurrent s + (if messageIsInProgress s then RoundUp4 (typeTagsCount s + 2) else 0)"

definition IsBundleInProgress :: "OutStream \<Rightarrow> bool" where
  "IsBundleInProgress s \<longleftrightarrow> elementSizePtr s \<noteq> None"

definition IsReady :: "OutStream \<Rightarrow> bool" where
  "IsReady s \<longleftrightarrow> \<not> messageIsInProgress s \<and> \<not> IsBundleInProgress s"

definition packet_bytes :: "OutStream \<Rightarrow> lstr" where "packet_bytes s = take (Size s) (data_buf s)"

text \<open>Writing \<open>bs\<close> at offset \<open>p\<close>.\<close>

definition overwrite :: "nat \<Rightarrow> lstr \<Rightarrow> lstr \<Rightarrow> lstr" where
  "overwrite p bs xs = take p xs @ bs @ drop (p + length bs) xs"

definition poke :: "nat \<Rightarrow> lstr \<Rightarrow> OutStream \<Rightarrow> OutStream ores" where
  "poke p bs s =
     (if p + length bs \<le> length (data_buf s) then Inr (s\<lparr>data_buf := overwrite p bs (data_buf s)\<rparr>)
      else Inl (OscUB ''write outside the buffer''))"

definition peek :: "nat \<Rightarrow> nat \<Rightarrow> OutStream \<Rightarrow> lstr ores" where
  "peek p n s =
     (if p + n \<le> length (data_buf s) then Inr (take n (drop p (data_buf s)))
      else Inl (OscUB ''read outside the buffer''))"

subsection \<open>Elements\<close>

text \<open>
  Outside the outermost element the slot of an open element holds the offset of the slot of the
  element around it, in the order of the host; \<^verbatim>\<open>EndElement\<close> replaces it by the size.
\<close>

definition BeginElement :: "nat \<Rightarrow> OutStream \<Rightarrow> (OutStream \<times> nat) ores" where
  "BeginElement beginPtr s =
     (case elementSizePtr s of
        None \<Rightarrow> Inr (s\<lparr>elementSizePtr := Some 0\<rparr>, beginPtr)
      | Some p \<Rightarrow>
          ebind (poke beginPtr (host_uint32 (word_of_nat p)) s) (\<lambda>s.
            Inr (s\<lparr>elementSizePtr := Some beginPtr\<rparr>, beginPtr + 4)))"

definition EndElement :: "nat \<Rightarrow> OutStream \<Rightarrow> OutStream ores" where
  "EndElement endPtr s =
     (case elementSizePtr s of
        None \<Rightarrow> Inl (OscUB ''EndElement'')
      | Some p \<Rightarrow>
          if p = 0 then Inr (s\<lparr>elementSizePtr := None\<rparr>)
          else ebind (peek p 4 s) (\<lambda>slot.
               ebind (poke p (FromUInt32 (word_of_int (int endPtr - int p - 4))) s) (\<lambda>s.
                 Inr (s\<lparr>elementSizePtr := Some (of_le slot)\<rparr>))))"

definition slot_size :: "OutStream \<Rightarrow> nat" where
  "slot_size s = (if elementSizePtr s \<noteq> None then 4 else 0)"

definition CheckForAvailableBundleSpace :: "OutStream \<Rightarrow> unit ores" where
  "CheckForAvailableBundleSpace s = throw_if (Capacity s < Size s + slot_size s + 16) OutOfBufferMemory"

definition CheckForAvailableMessageSpace :: "lstr \<Rightarrow> OutStream \<Rightarrow> unit ores" where
  "CheckForAvailableMessageSpace addressPattern s =
     throw_if (Capacity s < Size s + slot_size s + RoundUp4 (length addressPattern + 1) + 4) OutOfBufferMemory"

definition CheckForAvailableArgumentSpace :: "nat \<Rightarrow> OutStream \<Rightarrow> unit ores" where
  "CheckForAvailableArgumentSpace argumentLength s =
     throw_if (Capacity s < argumentCurrent s + argumentLength + RoundUp4 (typeTagsCount s + 3)) OutOfBufferMemory"

subsection \<open>Bundles and messages\<close>

definition BundleTag :: lstr where "BundleTag = lit ''#bundle'' @ [0]"

definition put_BundleInitiator :: "u64 \<Rightarrow> OutStream \<Rightarrow> OutStream ores" where
  "put_BundleInitiator timeTag s =
     ebind (throw_if (messageIsInProgress s) MessageInProgress) (\<lambda>_.
     ebind (CheckForAvailableBundleSpace s) (\<lambda>_.
     ebind (BeginElement (messageCursor s) s) (\<lambda>(s, m).
     ebind (poke m BundleTag s) (\<lambda>s.
     ebind (poke (m + 8) (FromUInt64 timeTag) s) (\<lambda>s.
       Inr (s\<lparr>messageCursor := m + 16, argumentCurrent := m + 16\<rparr>))))))"

definition put_BundleTerminator :: "OutStream \<Rightarrow> OutStream ores" where
  "put_BundleTerminator s =
     ebind (throw_if (\<not> IsBundleInProgress s) BundleNotInProgress) (\<lambda>_.
     ebind (throw_if (messageIsInProgress s) MessageInProgress) (\<lambda>_.
       EndElement (messageCursor s) s))"

text \<open>\<^verbatim>\<open>while (i & 3) { *p++ = 0; ++i; }\<close>.\<close>

function pad4 :: "nat \<Rightarrow> nat \<Rightarrow> OutStream \<Rightarrow> (OutStream \<times> nat) ores" where
  "pad4 i p s = (if i mod 4 \<noteq> 0 then ebind (poke p [0] s) (\<lambda>s. pad4 (i + 1) (p + 1) s) else Inr (s, p))"
  by pat_completeness auto
termination
proof (relation "measure (\<lambda>(i, p, s). (4 - i mod 4) mod 4)", rule wf_measure)
  fix i p :: nat and s x :: OutStream
  have "(4 - (i + 1) mod 4) mod 4 < (4 - i mod 4) mod 4" if "i mod 4 \<noteq> 0"
  proof -
    have "i mod 4 = 1 \<or> i mod 4 = 2 \<or> i mod 4 = 3" using that mod_less_divisor [of 4 i] by linarith
    then show ?thesis by (auto simp: mod_Suc)
  qed
  then show "i mod 4 \<noteq> 0 \<Longrightarrow> poke p [0] s = Inr x \<Longrightarrow>
      ((i + 1, p + 1, x), i, p, s) \<in> measure (\<lambda>(i, p, s). (4 - i mod 4) mod 4)" by simp
qed

declare pad4.simps [simp del]

text \<open>A string with its terminator and the padding, and the offset behind it.\<close>

definition write_string :: "nat \<Rightarrow> lstr \<Rightarrow> OutStream \<Rightarrow> (OutStream \<times> nat) ores" where
  "write_string p str s =
     ebind (poke p (str @ [0]) s) (\<lambda>s. pad4 (length str + 1) (p + length str + 1) s)"

definition put_BeginMessage :: "lstr \<Rightarrow> OutStream \<Rightarrow> OutStream ores" where
  "put_BeginMessage addressPattern s =
     ebind (throw_if (messageIsInProgress s) MessageInProgress) (\<lambda>_.
     ebind (CheckForAvailableMessageSpace addressPattern s) (\<lambda>_.
     ebind (BeginElement (messageCursor s) s) (\<lambda>(s, m).
     ebind (write_string m addressPattern s) (\<lambda>(s, m).
       Inr (s\<lparr>messageCursor := m, argumentCurrent := m, typeTagsCurrent := Capacity s,
              messageIsInProgress := True\<rparr>)))))"

text \<open>
  The type tags have been collected in reverse order at the end of the buffer; they go between the
  address and the arguments, which move up.
\<close>

definition put_MessageTerminator :: "OutStream \<Rightarrow> OutStream ores" where
  "put_MessageTerminator s =
     ebind (throw_if (\<not> messageIsInProgress s) MessageNotInProgress) (\<lambda>_.
     let n = typeTagsCount s; m = messageCursor s in
     ebind (if n \<noteq> 0 then
         let typeTagSlotSize = RoundUp4 (n + 2);
             argumentsSize = argumentCurrent s - m
         in ebind (peek (typeTagsCurrent s) n s) (\<lambda>tempTypeTags.
            ebind (peek m argumentsSize s) (\<lambda>arguments.
            ebind (poke (m + typeTagSlotSize) arguments s) (\<lambda>s.
            ebind (poke m [ch CHR '',''] s) (\<lambda>s.
            ebind (poke (m + 1) (rev tempTypeTags) s) (\<lambda>s.
            ebind (poke (m + 1 + n) (replicate (typeTagSlotSize - (n + 1)) 0) s) (\<lambda>s.
              Inr (s\<lparr>typeTagsCurrent := Capacity s, messageCursor := m + typeTagSlotSize + argumentsSize\<rparr>)))))))
       else
         ebind (poke m [ch CHR '','', 0, 0, 0] s) (\<lambda>s. Inr (s\<lparr>messageCursor := m + 4\<rparr>))) (\<lambda>s.
     let s = s\<lparr>argumentCurrent := messageCursor s\<rparr> in
     ebind (EndElement (messageCursor s) s) (\<lambda>s.
       Inr (s\<lparr>messageIsInProgress := False\<rparr>))))"

subsection \<open>Arguments\<close>

text \<open>\<^verbatim>\<open>*(--typeTagsCurrent_) = tag\<close>.\<close>

definition put_tag :: "lu_byte \<Rightarrow> OutStream \<Rightarrow> OutStream ores" where
  "put_tag tag s =
     (if typeTagsCurrent s = 0 then Inl (OscUB ''type tag before the buffer'')
      else ebind (poke (typeTagsCurrent s - 1) [tag] s) (\<lambda>s. Inr (s\<lparr>typeTagsCurrent := typeTagsCurrent s - 1\<rparr>)))"

definition write_argument :: "lstr \<Rightarrow> OutStream \<Rightarrow> OutStream ores" where
  "write_argument bs s =
     ebind (poke (argumentCurrent s) bs s) (\<lambda>s. Inr (s\<lparr>argumentCurrent := argumentCurrent s + length bs\<rparr>))"

definition put_bool :: "bool \<Rightarrow> OutStream \<Rightarrow> OutStream ores" where
  "put_bool rhs s =
     ebind (CheckForAvailableArgumentSpace 0 s) (\<lambda>_. put_tag (if rhs then ch CHR ''T'' else ch CHR ''F'') s)"

definition put_NilType :: "OutStream \<Rightarrow> OutStream ores" where
  "put_NilType s = ebind (CheckForAvailableArgumentSpace 0 s) (\<lambda>_. put_tag (ch CHR ''N'') s)"

definition put_InfinitumType :: "OutStream \<Rightarrow> OutStream ores" where
  "put_InfinitumType s = ebind (CheckForAvailableArgumentSpace 0 s) (\<lambda>_. put_tag (ch CHR ''I'') s)"

definition put_int32 :: "u32 \<Rightarrow> OutStream \<Rightarrow> OutStream ores" where
  "put_int32 rhs s =
     ebind (CheckForAvailableArgumentSpace 4 s) (\<lambda>_.
     ebind (put_tag (ch CHR ''i'') s) (write_argument (FromInt32 rhs)))"

definition put_float :: "u32 \<Rightarrow> OutStream \<Rightarrow> OutStream ores" where
  "put_float rhs s =
     ebind (CheckForAvailableArgumentSpace 4 s) (\<lambda>_.
     ebind (put_tag (ch CHR ''f'') s) (write_argument (rev (le 4 (unat rhs)))))"

text \<open>\<^verbatim>\<open>char\<close> is signed.\<close>

definition put_char :: "lu_byte \<Rightarrow> OutStream \<Rightarrow> OutStream ores" where
  "put_char rhs s =
     ebind (CheckForAvailableArgumentSpace 4 s) (\<lambda>_.
     ebind (put_tag (ch CHR ''c'') s) (write_argument (FromInt32 (scast rhs))))"

definition put_RgbaColor :: "u32 \<Rightarrow> OutStream \<Rightarrow> OutStream ores" where
  "put_RgbaColor rhs s =
     ebind (CheckForAvailableArgumentSpace 4 s) (\<lambda>_.
     ebind (put_tag (ch CHR ''r'') s) (write_argument (FromUInt32 rhs)))"

definition put_MidiMessage :: "u32 \<Rightarrow> OutStream \<Rightarrow> OutStream ores" where
  "put_MidiMessage rhs s =
     ebind (CheckForAvailableArgumentSpace 4 s) (\<lambda>_.
     ebind (put_tag (ch CHR ''m'') s) (write_argument (FromUInt32 rhs)))"

definition put_int64 :: "u64 \<Rightarrow> OutStream \<Rightarrow> OutStream ores" where
  "put_int64 rhs s =
     ebind (CheckForAvailableArgumentSpace 8 s) (\<lambda>_.
     ebind (put_tag (ch CHR ''h'') s) (write_argument (FromInt64 rhs)))"

definition put_TimeTag :: "u64 \<Rightarrow> OutStream \<Rightarrow> OutStream ores" where
  "put_TimeTag rhs s =
     ebind (CheckForAvailableArgumentSpace 8 s) (\<lambda>_.
     ebind (put_tag (ch CHR ''t'') s) (write_argument (FromUInt64 rhs)))"

definition put_double :: "u64 \<Rightarrow> OutStream \<Rightarrow> OutStream ores" where
  "put_double rhs s =
     ebind (CheckForAvailableArgumentSpace 8 s) (\<lambda>_.
     ebind (put_tag (ch CHR ''d'') s) (write_argument (rev (le 8 (unat rhs)))))"

definition put_string :: "lstr \<Rightarrow> OutStream \<Rightarrow> OutStream ores" where
  "put_string rhs s =
     ebind (CheckForAvailableArgumentSpace (RoundUp4 (length rhs + 1)) s) (\<lambda>_.
     ebind (put_tag (ch CHR ''s'') s) (\<lambda>s.
     ebind (write_string (argumentCurrent s) rhs s) (\<lambda>(s, a). Inr (s\<lparr>argumentCurrent := a\<rparr>))))"

definition put_Symbol :: "lstr \<Rightarrow> OutStream \<Rightarrow> OutStream ores" where
  "put_Symbol rhs s =
     ebind (CheckForAvailableArgumentSpace (RoundUp4 (length rhs + 1)) s) (\<lambda>_.
     ebind (put_tag (ch CHR ''S'') s) (\<lambda>s.
     ebind (write_string (argumentCurrent s) rhs s) (\<lambda>(s, a). Inr (s\<lparr>argumentCurrent := a\<rparr>))))"

text \<open>\<open>rhs\<close> holds the \<^verbatim>\<open>size\<close> bytes at \<^verbatim>\<open>data\<close>; a negative size, which copies wildly, is left out.\<close>

definition put_Blob :: "lstr \<Rightarrow> OutStream \<Rightarrow> OutStream ores" where
  "put_Blob rhs s =
     ebind (CheckForAvailableArgumentSpace (4 + RoundUp4 (length rhs)) s) (\<lambda>_.
     ebind (put_tag (ch CHR ''b'') s) (\<lambda>s.
     ebind (write_argument (FromUInt32 (word_of_nat (length rhs))) s) (\<lambda>s.
     ebind (write_argument rhs s) (\<lambda>s.
     ebind (pad4 (length rhs) (argumentCurrent s) s) (\<lambda>(s, a). Inr (s\<lparr>argumentCurrent := a\<rparr>))))))"

definition put_ArrayInitiator :: "OutStream \<Rightarrow> OutStream ores" where
  "put_ArrayInitiator s = ebind (CheckForAvailableArgumentSpace 0 s) (\<lambda>_. put_tag (ch CHR ''['') s)"

definition put_ArrayTerminator :: "OutStream \<Rightarrow> OutStream ores" where
  "put_ArrayTerminator s = ebind (CheckForAvailableArgumentSpace 0 s) (\<lambda>_. put_tag (ch CHR '']'') s)"

section \<open>Writing\<close>

lemma round_up4: "x \<le> RoundUp4 x" "RoundUp4 x mod 4 = 0" "RoundUp4 x < x + 4" "4 dvd RoundUp4 x"
  unfolding RoundUp4_def by presburger+

lemma round_up4_mono: "x \<le> y \<Longrightarrow> RoundUp4 x \<le> RoundUp4 y"
  unfolding RoundUp4_def by presburger

lemma round_up4_small [simp]: "RoundUp4 2 = 4" "RoundUp4 3 = 4" "RoundUp4 (Suc (Suc 0)) = 4"
  by (simp_all add: RoundUp4_def)

lemma length_overwrite [simp]: "p + length bs \<le> length xs \<Longrightarrow> length (overwrite p bs xs) = length xs"
  by (simp add: overwrite_def)

lemma take_overwrite_before: "q \<le> p \<Longrightarrow> p + length bs \<le> length xs \<Longrightarrow> take q (overwrite p bs xs) = take q xs"
  by (simp add: overwrite_def min_def)

lemma take_overwrite: "p + length bs \<le> length xs \<Longrightarrow> take (p + length bs) (overwrite p bs xs) = take p xs @ bs"
  by (simp add: overwrite_def)

lemma drop_overwrite_after: "p + length bs \<le> q \<Longrightarrow> p + length bs \<le> length xs \<Longrightarrow> drop q (overwrite p bs xs) = drop q xs"
  by (simp add: overwrite_def)

lemma length_words [simp]:
  "length (FromInt32 x) = 4" "length (FromUInt32 x) = 4" "length (FromInt64 y) = 8" "length (FromUInt64 y) = 8"
  "length (host_uint32 x) = 4" "length BundleTag = 8"
  by (simp_all add: FromInt32_def FromUInt32_def FromInt64_def FromUInt64_def host_uint32_def BundleTag_def lit_def)

lemma poke_ok: "p + length bs \<le> length (data_buf s) \<Longrightarrow> poke p bs s = Inr (s\<lparr>data_buf := overwrite p bs (data_buf s)\<rparr>)"
  by (simp add: poke_def)

lemma throw_if_simps [simp]: "throw_if True e = Inl (Throw e)" "throw_if False e = Inr ()"
  by (simp_all add: throw_if_def)

text \<open>\<open>n\<close> padding bytes.\<close>

definition padding :: "nat \<Rightarrow> lstr" where "padding i = replicate (RoundUp4 i - i) 0"

lemma length_padding: "i + length (padding i) = RoundUp4 i"
  using round_up4(1) [of i] by (simp add: padding_def)

lemma padding_step: "i mod 4 \<noteq> 0 \<Longrightarrow> padding i = 0 # padding (i + 1)" "i mod 4 = 0 \<Longrightarrow> padding i = []"
proof -
  have "i mod 4 \<noteq> 0 \<Longrightarrow> RoundUp4 i = RoundUp4 (i + 1) \<and> i < RoundUp4 i" unfolding RoundUp4_def by presburger
  then show "i mod 4 \<noteq> 0 \<Longrightarrow> padding i = 0 # padding (i + 1)"
    by (simp add: padding_def Suc_diff_Suc flip: replicate_Suc)
  have "i mod 4 = 0 \<Longrightarrow> RoundUp4 i = i" unfolding RoundUp4_def by presburger
  then show "i mod 4 = 0 \<Longrightarrow> padding i = []" by (simp add: padding_def)
qed

lemma overwrite_append:
  "p + length (as @ bs) \<le> length xs \<Longrightarrow> overwrite (p + length as) bs (overwrite p as xs) = overwrite p (as @ bs) xs"
  by (simp add: overwrite_def add.assoc add.commute [of "length bs"])

lemma overwrite_Nil [simp]: "overwrite p [] xs = xs"
  by (simp add: overwrite_def)

lemma pad4_ok:
  "p + length (padding i) \<le> length (data_buf s) \<Longrightarrow>
   pad4 i p s = Inr (s\<lparr>data_buf := overwrite p (padding i) (data_buf s)\<rparr>, p + length (padding i))"
proof (induction i p s rule: pad4.induct)
  case (1 i p s)
  show ?case
  proof (cases "i mod 4 = 0")
    case True
    then show ?thesis by (subst pad4.simps) (simp add: padding_step(2))
  next
    case False
    note s = padding_step(1) [OF False]
    have p: "poke p [0] s = Inr (s\<lparr>data_buf := overwrite p [0] (data_buf s)\<rparr>)"
      using "1.prems" s by (intro poke_ok) simp
    have "pad4 (i + 1) (p + 1) (s\<lparr>data_buf := overwrite p [0] (data_buf s)\<rparr>) =
        Inr (s\<lparr>data_buf := overwrite p (padding i) (data_buf s)\<rparr>, p + length (padding i))"
      using "1.IH" [OF False p] "1.prems" s overwrite_append [of p "[0]" "padding (i + 1)" "data_buf s"] by simp
    with False p show ?thesis by (subst pad4.simps) simp
  qed
qed

definition str4 :: "lstr \<Rightarrow> lstr" where "str4 str = str @ [0] @ padding (length str + 1)"

lemma length_str4: "length (str4 str) = RoundUp4 (length str + 1)"
  using length_padding [of "length str + 1"] by (simp add: str4_def)

lemma write_string_ok:
  assumes "p + length (str4 str) \<le> length (data_buf s)"
  shows "write_string p str s = Inr (s\<lparr>data_buf := overwrite p (str4 str) (data_buf s)\<rparr>, p + length (str4 str))"
proof -
  have l: "length (str4 str) = length str + 1 + length (padding (length str + 1))" by (simp add: str4_def)
  then show ?thesis
    unfolding write_string_def
    using assms overwrite_append [of p "str @ [0]" "padding (length str + 1)" "data_buf s"]
    by (subst poke_ok) (auto simp: pad4_ok str4_def add.assoc)
qed

end
