(* ===== verification/OscIn.thy ===== *)
theory OscIn
  imports OscOut
begin

text \<open>
  Reading OSC packets: the classes of src/oscpack_1_1_0/osc/OscReceivedElements.{h,cpp}, on a
  little-endian host.

  \<open>mem\<close> is the memory block that holds the packet and a pointer is an offset into it (null is
  \<open>None\<close>); a read outside the block is \<open>OscUB\<close>.  A pointer is only moved forward, and may leave the
  block as long as nothing is read there.  \<open>OscLoop\<close> is the result of a loop that has used up its fuel.
\<close>

section \<open>Reading memory\<close>

definition byte_at :: "lstr \<Rightarrow> nat \<Rightarrow> lu_byte ores" where
  "byte_at mem p = (if p < length mem then Inr (mem ! p) else Inl (OscUB ''read outside the packet''))"

definition bytes_at :: "lstr \<Rightarrow> nat \<Rightarrow> nat \<Rightarrow> lstr ores" where
  "bytes_at mem p n =
     (if p + n \<le> length mem then Inr (take n (drop p mem)) else Inl (OscUB ''read outside the packet''))"

text \<open>The terminated string at a pointer, as its reader sees it.\<close>

function c_string :: "lstr \<Rightarrow> nat \<Rightarrow> lstr ores" where
  "c_string mem p = ebind (byte_at mem p) (\<lambda>c. if c = 0 then Inr [] else
     ebind (c_string mem (p + 1)) (\<lambda>s. Inr (c # s)))"
  by pat_completeness auto
termination
  by (relation "measure (\<lambda>(mem, p). length mem - p)") (auto simp: byte_at_def split: if_splits)

declare c_string.simps [simp del]

definition ToInt32 :: "lstr \<Rightarrow> nat \<Rightarrow> u32 ores" where
  "ToInt32 mem p = ebind (bytes_at mem p 4) (\<lambda>bs. Inr (word_of_nat (of_le (rev bs))))"

definition ToUInt32 :: "lstr \<Rightarrow> nat \<Rightarrow> u32 ores" where
  "ToUInt32 mem p = ebind (bytes_at mem p 4) (\<lambda>bs. Inr (word_of_nat (of_le (rev bs))))"

definition ToInt64 :: "lstr \<Rightarrow> nat \<Rightarrow> u64 ores" where
  "ToInt64 mem p = ebind (bytes_at mem p 8) (\<lambda>bs. Inr (word_of_nat (of_le (rev bs))))"

definition ToUInt64 :: "lstr \<Rightarrow> nat \<Rightarrow> u64 ores" where
  "ToUInt64 mem p = ebind (bytes_at mem p 8) (\<lambda>bs. Inr (word_of_nat (of_le (rev bs))))"

text \<open>\<^verbatim>\<open>while( *p ) p += 4; return p + 1\<close>.\<close>

function scan4 :: "lstr \<Rightarrow> nat \<Rightarrow> nat ores" where
  "scan4 mem p = ebind (byte_at mem p) (\<lambda>c. if c \<noteq> 0 then scan4 mem (p + 4) else Inr (p + 1))"
  by pat_completeness auto
termination
  by (relation "measure (\<lambda>(mem, p). length mem - p)") (auto simp: byte_at_def split: if_splits)

declare scan4.simps [simp del]

definition FindStr4End_unchecked :: "lstr \<Rightarrow> nat \<Rightarrow> nat ores" where
  "FindStr4End_unchecked mem p =
     ebind (byte_at mem p) (\<lambda>c. if c = 0 then Inr (p + 4) else scan4 mem (p + 3))"

text \<open>\<^verbatim>\<open>while( p < end && *p ) p += 4\<close> and the test of the last byte.\<close>

function scan4_end :: "lstr \<Rightarrow> nat \<Rightarrow> nat \<Rightarrow> nat option ores" where
  "scan4_end mem p e =
     ebind (byte_at mem p) (\<lambda>c.
       if p < e \<and> c \<noteq> 0 then scan4_end mem (p + 4) e
       else Inr (if c \<noteq> 0 then None else Some (p + 1)))"
  by pat_completeness auto
termination
  by (relation "measure (\<lambda>(mem, p, e). e - p)") auto

declare scan4_end.simps [simp del]

definition FindStr4End :: "lstr \<Rightarrow> nat \<Rightarrow> nat \<Rightarrow> nat option ores" where
  "FindStr4End mem p e =
     (if e \<le> p then Inr None
      else ebind (byte_at mem p) (\<lambda>c.
        if c = 0 then Inr (Some (p + 4)) else scan4_end mem (p + 3) (e - 1)))"

definition RoundUp4_UInt32 :: "u32 \<Rightarrow> u32" where
  "RoundUp4_UInt32 x = (x + 3) AND NOT 3"

definition OSC_BUNDLE_ELEMENT_SIZE_MAX :: int where "OSC_BUNDLE_ELEMENT_SIZE_MAX = 0x7FFFFFFC"

definition IsValidElementSizeValue :: "u32 \<Rightarrow> bool" where
  "IsValidElementSizeValue x \<longleftrightarrow> 0 \<le> sint x \<and> sint x \<le> OSC_BUNDLE_ELEMENT_SIZE_MAX"

definition IsMultipleOf4 :: "u32 \<Rightarrow> bool" where "IsMultipleOf4 x \<longleftrightarrow> x AND 3 = 0"

section \<open>Packets and bundle elements\<close>

record ReceivedPacket =
  rp_contents :: nat
  rp_size :: u32

definition ValidateSize :: "u32 \<Rightarrow> u32 ores" where
  "ValidateSize sz =
     ebind (throw_if (\<not> IsValidElementSizeValue sz) (MalformedPacket ''invalid packet size'')) (\<lambda>_.
     ebind (throw_if (sz = 0) (MalformedPacket ''zero length elements not permitted'')) (\<lambda>_.
     ebind (throw_if (\<not> IsMultipleOf4 sz) (MalformedPacket ''element size must be multiple of four'')) (\<lambda>_.
       Inr sz)))"

definition new_ReceivedPacket :: "nat \<Rightarrow> u32 \<Rightarrow> ReceivedPacket ores" where
  "new_ReceivedPacket contents sz =
     ebind (ValidateSize sz) (\<lambda>sz. Inr \<lparr>rp_contents = contents, rp_size = sz\<rparr>)"

definition packet_IsBundle :: "lstr \<Rightarrow> ReceivedPacket \<Rightarrow> bool ores" where
  "packet_IsBundle mem p =
     (if 0 < sint (rp_size p) then ebind (byte_at mem (rp_contents p)) (\<lambda>c. Inr (c = ch CHR ''#'')) else Inr False)"

text \<open>A bundle element is the pointer to its size.\<close>

definition element_Size :: "lstr \<Rightarrow> nat \<Rightarrow> u32 ores" where "element_Size mem sizePtr = ToInt32 mem sizePtr"

definition element_Contents :: "nat \<Rightarrow> nat" where "element_Contents sizePtr = sizePtr + 4"

definition element_IsBundle :: "lstr \<Rightarrow> nat \<Rightarrow> bool ores" where
  "element_IsBundle mem sizePtr =
     ebind (element_Size mem sizePtr) (\<lambda>sz.
       if 0 < sint sz then ebind (byte_at mem (element_Contents sizePtr)) (\<lambda>c. Inr (c = ch CHR ''#'')) else Inr False)"

text \<open>The size is signed; a step backwards out of the block is an error.\<close>

definition element_Advance :: "lstr \<Rightarrow> nat \<Rightarrow> nat ores" where
  "element_Advance mem sizePtr =
     ebind (element_Size mem sizePtr) (\<lambda>sz.
       let p = int (element_Contents sizePtr) + sint sz
       in if p < 0 then Inl (OscUB ''element before the packet'') else Inr (nat p))"

section \<open>Messages\<close>

record ReceivedMessage =
  addressPattern :: nat
  typeTagsBegin :: "nat option"
  typeTagsEnd :: "nat option"
  arguments_ptr :: nat

definition arguments_exceed :: osc_exception where
  "arguments_exceed = MalformedMessage ''arguments exceed message size''"

definition skip_argument :: "nat \<Rightarrow> nat \<Rightarrow> nat \<Rightarrow> nat ores" where
  "skip_argument e n argument =
     ebind (throw_if (argument = e) arguments_exceed) (\<lambda>_.
     ebind (throw_if (e < argument + n) arguments_exceed) (\<lambda>_. Inr (argument + n)))"

text \<open>
  The check of one type tag: the argument pointer and the array level behind it.  In the case of a
  blob the two exceptions are constructed but not thrown.
\<close>

definition check_tag :: "lstr \<Rightarrow> nat \<Rightarrow> lu_byte \<Rightarrow> nat \<Rightarrow> u32 \<Rightarrow> (nat \<times> u32) ores" where
  "check_tag mem e tag argument arrayLevel =
     (if tag \<in> set (lit ''TFNI'') then Inr (argument, arrayLevel)
      else if tag = ch CHR ''['' then Inr (argument, arrayLevel + 1)
      else if tag = ch CHR '']'' then Inr (argument, arrayLevel - 1)
      else if tag \<in> set (lit ''ifcrm'') then ebind (skip_argument e 4 argument) (\<lambda>a. Inr (a, arrayLevel))
      else if tag \<in> set (lit ''htd'') then ebind (skip_argument e 8 argument) (\<lambda>a. Inr (a, arrayLevel))
      else if tag \<in> set (lit ''sS'') then
        ebind (throw_if (argument = e) arguments_exceed) (\<lambda>_.
        ebind (FindStr4End mem argument e) (\<lambda>r. case r of
            None \<Rightarrow> Inl (Throw (MalformedMessage ''unterminated string argument''))
          | Some a \<Rightarrow> Inr (a, arrayLevel)))
      else if tag = ch CHR ''b'' then
        ebind (ToUInt32 mem argument) (\<lambda>blobSize.
          Inr (argument + 4 + unat (RoundUp4_UInt32 blobSize), arrayLevel))
      else Inl (Throw (MalformedMessage ''unknown type tag'')))"

function check_tags :: "lstr \<Rightarrow> nat \<Rightarrow> nat \<Rightarrow> nat \<Rightarrow> u32 \<Rightarrow> (nat \<times> u32) ores" where
  "check_tags mem e typeTag argument arrayLevel =
     ebind (byte_at mem typeTag) (\<lambda>tag.
     ebind (check_tag mem e tag argument arrayLevel) (\<lambda>(argument, arrayLevel).
     ebind (byte_at mem (typeTag + 1)) (\<lambda>c.
       if c \<noteq> 0 then check_tags mem e (typeTag + 1) argument arrayLevel
       else Inr (typeTag + 1, arrayLevel))))"
  by pat_completeness auto
termination
  by (relation "measure (\<lambda>(mem, e, t, a, l). length mem - t)") (auto simp: byte_at_def split: if_splits)

declare check_tags.simps [simp del]

text \<open>The check of nonempty type tags, which start with the comma at \<open>tags\<close>.\<close>

definition init_type_tags :: "lstr \<Rightarrow> nat \<Rightarrow> nat \<Rightarrow> nat \<Rightarrow> ReceivedMessage ores" where
  "init_type_tags mem message e tags =
     ebind (FindStr4End mem tags e) (\<lambda>r. case r of
         None \<Rightarrow> Inl (Throw (MalformedMessage ''type tags were not terminated before end of message''))
       | Some arguments \<Rightarrow>
           ebind (check_tags mem e (tags + 1) arguments 0) (\<lambda>(typeTag, arrayLevel).
           ebind (throw_if (arrayLevel \<noteq> 0) (MalformedMessage ''array was not terminated before end of message''))
             (\<lambda>_. Inr \<lparr>addressPattern = message, typeTagsBegin = Some (tags + 1),
                    typeTagsEnd = Some typeTag, arguments_ptr = arguments\<rparr>)))"

definition ReceivedMessage_Init :: "lstr \<Rightarrow> nat \<Rightarrow> u32 \<Rightarrow> ReceivedMessage ores" where
  "ReceivedMessage_Init mem message sz =
     ebind (throw_if (\<not> IsValidElementSizeValue sz) (MalformedMessage ''invalid message size'')) (\<lambda>_.
     ebind (throw_if (sz = 0) (MalformedMessage ''zero length messages not permitted'')) (\<lambda>_.
     ebind (throw_if (\<not> IsMultipleOf4 sz) (MalformedMessage ''message size must be multiple of four'')) (\<lambda>_.
     let e = message + nat (sint sz);
         none = \<lparr>addressPattern = message, typeTagsBegin = None, typeTagsEnd = None, arguments_ptr = 0\<rparr>
     in ebind (FindStr4End mem message e) (\<lambda>r. case r of
          None \<Rightarrow> Inl (Throw (MalformedMessage ''unterminated address pattern''))
        | Some tags \<Rightarrow>
            if tags = e then Inr none
            else ebind (byte_at mem tags) (\<lambda>c.
              ebind (throw_if (c \<noteq> ch CHR '','') (MalformedMessage ''type tags not present'')) (\<lambda>_.
              ebind (byte_at mem (tags + 1)) (\<lambda>c.
                if c = 0 then Inr none
                else init_type_tags mem message e tags)))))))"

definition AddressPatternIsUInt32 :: "lstr \<Rightarrow> ReceivedMessage \<Rightarrow> bool ores" where
  "AddressPatternIsUInt32 mem m = ebind (byte_at mem (addressPattern m)) (\<lambda>c. Inr (c = 0))"

definition AddressPatternAsUInt32 :: "lstr \<Rightarrow> ReceivedMessage \<Rightarrow> u32 ores" where
  "AddressPatternAsUInt32 mem m = ToUInt32 mem (addressPattern m)"

text \<open>The difference of two null pointers is 0.\<close>

definition ArgumentCount :: "ReceivedMessage \<Rightarrow> u32" where
  "ArgumentCount m = (case (typeTagsBegin m, typeTagsEnd m) of
       (Some b, Some e) \<Rightarrow> word_of_nat (e - b) | _ \<Rightarrow> 0)"

section \<open>Arguments\<close>

record ReceivedMessageArgument =
  typeTagPtr :: "nat option"
  argumentPtr :: nat

definition ArgumentsBegin :: "ReceivedMessage \<Rightarrow> ReceivedMessageArgument" where
  "ArgumentsBegin m = \<lparr>typeTagPtr = typeTagsBegin m, argumentPtr = arguments_ptr m\<rparr>"

definition ArgumentsEnd :: "ReceivedMessage \<Rightarrow> ReceivedMessageArgument" where
  "ArgumentsEnd m = \<lparr>typeTagPtr = typeTagsEnd m, argumentPtr = 0\<rparr>"

definition IsEqualTo :: "ReceivedMessageArgument \<Rightarrow> ReceivedMessageArgument \<Rightarrow> bool" where
  "IsEqualTo x y \<longleftrightarrow> typeTagPtr x = typeTagPtr y"

definition TypeTag :: "lstr \<Rightarrow> ReceivedMessageArgument \<Rightarrow> lu_byte ores" where
  "TypeTag mem x = (case typeTagPtr x of None \<Rightarrow> Inl (OscUB ''null type tag'') | Some t \<Rightarrow> byte_at mem t)"

text \<open>The tag of an argument, if there is one.\<close>

definition present_tag :: "lstr \<Rightarrow> ReceivedMessageArgument \<Rightarrow> lu_byte ores" where
  "present_tag mem x = (case typeTagPtr x of None \<Rightarrow> Inl (Throw MissingArgument) | Some t \<Rightarrow> byte_at mem t)"

definition AsBool :: "lstr \<Rightarrow> ReceivedMessageArgument \<Rightarrow> bool ores" where
  "AsBool mem x = ebind (present_tag mem x) (\<lambda>t.
     if t = ch CHR ''T'' then Inr True else if t = ch CHR ''F'' then Inr False else Inl (Throw WrongArgumentType))"

definition AsBoolUnchecked :: "lstr \<Rightarrow> ReceivedMessageArgument \<Rightarrow> bool ores" where
  "AsBoolUnchecked mem x = ebind (present_tag mem x) (\<lambda>t. Inr (t = ch CHR ''T''))"

definition AsInt32Unchecked :: "lstr \<Rightarrow> ReceivedMessageArgument \<Rightarrow> u32 ores" where
  "AsInt32Unchecked mem x = ebind (bytes_at mem (argumentPtr x) 4) (\<lambda>bs. Inr (word_of_nat (of_le (rev bs))))"

definition AsInt32 :: "lstr \<Rightarrow> ReceivedMessageArgument \<Rightarrow> u32 ores" where
  "AsInt32 mem x = ebind (present_tag mem x) (\<lambda>t.
     if t = ch CHR ''i'' then AsInt32Unchecked mem x else Inl (Throw WrongArgumentType))"

definition AsFloatUnchecked :: "lstr \<Rightarrow> ReceivedMessageArgument \<Rightarrow> u32 ores" where
  "AsFloatUnchecked mem x = ebind (bytes_at mem (argumentPtr x) 4) (\<lambda>bs. Inr (word_of_nat (of_le (rev bs))))"

definition AsFloat :: "lstr \<Rightarrow> ReceivedMessageArgument \<Rightarrow> u32 ores" where
  "AsFloat mem x = ebind (present_tag mem x) (\<lambda>t.
     if t = ch CHR ''f'' then AsFloatUnchecked mem x else Inl (Throw WrongArgumentType))"

definition AsCharUnchecked :: "lstr \<Rightarrow> ReceivedMessageArgument \<Rightarrow> lu_byte ores" where
  "AsCharUnchecked mem x = ebind (ToInt32 mem (argumentPtr x)) (\<lambda>w. Inr (ucast w))"

definition AsChar :: "lstr \<Rightarrow> ReceivedMessageArgument \<Rightarrow> lu_byte ores" where
  "AsChar mem x = ebind (present_tag mem x) (\<lambda>t.
     if t = ch CHR ''c'' then AsCharUnchecked mem x else Inl (Throw WrongArgumentType))"

definition AsRgbaColorUnchecked :: "lstr \<Rightarrow> ReceivedMessageArgument \<Rightarrow> u32 ores" where
  "AsRgbaColorUnchecked mem x = ToUInt32 mem (argumentPtr x)"

definition AsRgbaColor :: "lstr \<Rightarrow> ReceivedMessageArgument \<Rightarrow> u32 ores" where
  "AsRgbaColor mem x = ebind (present_tag mem x) (\<lambda>t.
     if t = ch CHR ''r'' then AsRgbaColorUnchecked mem x else Inl (Throw WrongArgumentType))"

definition AsMidiMessageUnchecked :: "lstr \<Rightarrow> ReceivedMessageArgument \<Rightarrow> u32 ores" where
  "AsMidiMessageUnchecked mem x = ToUInt32 mem (argumentPtr x)"

definition AsMidiMessage :: "lstr \<Rightarrow> ReceivedMessageArgument \<Rightarrow> u32 ores" where
  "AsMidiMessage mem x = ebind (present_tag mem x) (\<lambda>t.
     if t = ch CHR ''m'' then AsMidiMessageUnchecked mem x else Inl (Throw WrongArgumentType))"

definition AsInt64Unchecked :: "lstr \<Rightarrow> ReceivedMessageArgument \<Rightarrow> u64 ores" where
  "AsInt64Unchecked mem x = ToInt64 mem (argumentPtr x)"

definition AsInt64 :: "lstr \<Rightarrow> ReceivedMessageArgument \<Rightarrow> u64 ores" where
  "AsInt64 mem x = ebind (present_tag mem x) (\<lambda>t.
     if t = ch CHR ''h'' then AsInt64Unchecked mem x else Inl (Throw WrongArgumentType))"

definition AsTimeTagUnchecked :: "lstr \<Rightarrow> ReceivedMessageArgument \<Rightarrow> u64 ores" where
  "AsTimeTagUnchecked mem x = ToUInt64 mem (argumentPtr x)"

definition AsTimeTag :: "lstr \<Rightarrow> ReceivedMessageArgument \<Rightarrow> u64 ores" where
  "AsTimeTag mem x = ebind (present_tag mem x) (\<lambda>t.
     if t = ch CHR ''t'' then AsTimeTagUnchecked mem x else Inl (Throw WrongArgumentType))"

definition AsDoubleUnchecked :: "lstr \<Rightarrow> ReceivedMessageArgument \<Rightarrow> u64 ores" where
  "AsDoubleUnchecked mem x = ebind (bytes_at mem (argumentPtr x) 8) (\<lambda>bs. Inr (word_of_nat (of_le (rev bs))))"

definition AsDouble :: "lstr \<Rightarrow> ReceivedMessageArgument \<Rightarrow> u64 ores" where
  "AsDouble mem x = ebind (present_tag mem x) (\<lambda>t.
     if t = ch CHR ''d'' then AsDoubleUnchecked mem x else Inl (Throw WrongArgumentType))"

text \<open>Strings, symbols and blobs are pointers into the packet.\<close>

definition AsString :: "lstr \<Rightarrow> ReceivedMessageArgument \<Rightarrow> nat ores" where
  "AsString mem x = ebind (present_tag mem x) (\<lambda>t.
     if t = ch CHR ''s'' then Inr (argumentPtr x) else Inl (Throw WrongArgumentType))"

definition AsSymbol :: "lstr \<Rightarrow> ReceivedMessageArgument \<Rightarrow> nat ores" where
  "AsSymbol mem x = ebind (present_tag mem x) (\<lambda>t.
     if t = ch CHR ''S'' then Inr (argumentPtr x) else Inl (Throw WrongArgumentType))"

definition AsBlobUnchecked :: "lstr \<Rightarrow> ReceivedMessageArgument \<Rightarrow> (nat \<times> u32) ores" where
  "AsBlobUnchecked mem x =
     ebind (ToUInt32 mem (argumentPtr x)) (\<lambda>sz.
     ebind (throw_if (\<not> IsValidElementSizeValue sz) (MalformedMessage ''invalid blob size'')) (\<lambda>_.
       Inr (argumentPtr x + 4, sz)))"

definition AsBlob :: "lstr \<Rightarrow> ReceivedMessageArgument \<Rightarrow> (nat \<times> u32) ores" where
  "AsBlob mem x = ebind (present_tag mem x) (\<lambda>t.
     if t = ch CHR ''b'' then AsBlobUnchecked mem x else Inl (Throw WrongArgumentType))"

text \<open>The items of an array at its own level; a nested array is not counted.\<close>

function count_items :: "lstr \<Rightarrow> nat \<Rightarrow> nat \<Rightarrow> u32 \<Rightarrow> nat ores" where
  "count_items mem typeTag result level =
     ebind (byte_at mem typeTag) (\<lambda>t.
       if t = 0 then Inr result
       else if t = ch CHR ''['' then count_items mem (typeTag + 1) result (level + 1)
       else if t = ch CHR '']'' then
         (if level = 0 then Inr result else count_items mem (typeTag + 1) result (level - 1))
       else count_items mem (typeTag + 1) (if level = 0 then result + 1 else result) level)"
  by pat_completeness auto
termination
  by (relation "measure (\<lambda>(mem, t, r, l). length mem - t)") (auto simp: byte_at_def split: if_splits)

declare count_items.simps [simp del]

definition ComputeArrayItemCount :: "lstr \<Rightarrow> ReceivedMessageArgument \<Rightarrow> nat ores" where
  "ComputeArrayItemCount mem x =
     ebind (TypeTag mem x) (\<lambda>t.
       if t \<noteq> ch CHR ''['' then Inl (Throw WrongArgumentType)
       else count_items mem (the (typeTagPtr x) + 1) 0 0)"

definition Advance :: "lstr \<Rightarrow> ReceivedMessageArgument \<Rightarrow> ReceivedMessageArgument ores" where
  "Advance mem x =
     (case typeTagPtr x of
        None \<Rightarrow> Inr x
      | Some t \<Rightarrow>
          let to = (\<lambda>a. \<lparr>typeTagPtr = Some (t + 1), argumentPtr = a\<rparr>); a = argumentPtr x
          in ebind (byte_at mem t) (\<lambda>tag.
            if tag = 0 then Inr x
            else if tag \<in> set (lit ''TFNI'') then Inr (to a)
            else if tag \<in> set (lit ''ifcrm'') then Inr (to (a + 4))
            else if tag \<in> set (lit ''htd'') then Inr (to (a + 8))
            else if tag \<in> set (lit ''sS'') then ebind (FindStr4End_unchecked mem a) (\<lambda>a. Inr (to a))
            else if tag = ch CHR ''b'' then
              ebind (ToUInt32 mem a) (\<lambda>blobSize. Inr (to (a + 4 + unat (RoundUp4_UInt32 blobSize))))
            else if tag = ch CHR ''['' \<or> tag = ch CHR '']'' then Inr (to a)
            else Inr x))"

text \<open>
  \<^verbatim>\<open>ReceivedMessageArgumentStream\<close>: a position and an end.  \<open>get\<close> is the conversion of the operator
  \<^verbatim>\<open>>>\<close>, which steps before it converts.
\<close>

definition stream_get ::
  "lstr \<Rightarrow> (lstr \<Rightarrow> ReceivedMessageArgument \<Rightarrow> 'a ores) \<Rightarrow> ReceivedMessageArgument \<times> ReceivedMessageArgument \<Rightarrow>
   ((ReceivedMessageArgument \<times> ReceivedMessageArgument) \<times> 'a) ores" where
  "stream_get mem get st =
     (case st of (p, e) \<Rightarrow>
        ebind (throw_if (IsEqualTo p e) MissingArgument) (\<lambda>_.
        ebind (Advance mem p) (\<lambda>p'.
        ebind (get mem p) (\<lambda>v. Inr ((p', e), v)))))"

definition stream_end :: "ReceivedMessageArgument \<times> ReceivedMessageArgument \<Rightarrow> unit ores" where
  "stream_end st = (case st of (p, e) \<Rightarrow> throw_if (\<not> IsEqualTo p e) ExcessArgument)"

section \<open>Bundles\<close>

record ReceivedBundle =
  timeTag_ptr :: nat
  bundle_end :: nat
  elementCount :: u32

text \<open>
  \<^verbatim>\<open>OSC_SIZEOF_INT32 + elementSize\<close> is a sum of 32-bit words: for the size \<open>2 ^ 32 - 4\<close> it is 0.
  The fuel is the number of rounds.
\<close>

primrec bundle_elements :: "nat \<Rightarrow> lstr \<Rightarrow> nat \<Rightarrow> nat \<Rightarrow> u32 \<Rightarrow> (nat \<times> u32) ores" where
  "bundle_elements 0 mem e p count = Inl OscLoop"
| "bundle_elements (Suc n) mem e p count =
     (if p < e then
        ebind (throw_if (e < p + 4) (MalformedBundle ''packet too short for elementSize'')) (\<lambda>_.
        ebind (ToUInt32 mem p) (\<lambda>elementSize.
        ebind (throw_if (elementSize AND 3 \<noteq> 0) (MalformedBundle ''bundle element size must be multiple of four'')) (\<lambda>_.
        let p = p + unat (4 + elementSize)
        in ebind (throw_if (e < p) (MalformedBundle ''packet too short for bundle element'')) (\<lambda>_.
             bundle_elements n mem e p (count + 1)))))
      else Inr (p, count))"

definition ReceivedBundle_Init :: "lstr \<Rightarrow> nat \<Rightarrow> u32 \<Rightarrow> ReceivedBundle ores" where
  "ReceivedBundle_Init mem bundle sz =
     ebind (throw_if (\<not> IsValidElementSizeValue sz) (MalformedBundle ''invalid bundle size'')) (\<lambda>_.
     ebind (throw_if (sint sz < 16) (MalformedBundle ''packet too short for bundle'')) (\<lambda>_.
     ebind (throw_if (\<not> IsMultipleOf4 sz) (MalformedBundle ''bundle size must be multiple of four'')) (\<lambda>_.
     ebind (bytes_at mem bundle 8) (\<lambda>tag.
     ebind (throw_if (tag \<noteq> BundleTag) (MalformedBundle ''bad bundle address pattern'')) (\<lambda>_.
     let e = bundle + nat (sint sz)
     in ebind (bundle_elements (unat sz) mem e (bundle + 16) 0) (\<lambda>(p, count).
        ebind (throw_if (p \<noteq> e) (MalformedBundle ''bundle contents '')) (\<lambda>_.
          Inr \<lparr>timeTag_ptr = bundle + 8, bundle_end = e, elementCount = count\<rparr>)))))))"

definition bundle_TimeTag :: "lstr \<Rightarrow> ReceivedBundle \<Rightarrow> u64 ores" where
  "bundle_TimeTag mem b = ToUInt64 mem (timeTag_ptr b)"

definition ElementsBegin :: "ReceivedBundle \<Rightarrow> nat" where "ElementsBegin b = timeTag_ptr b + 8"

definition ElementsEnd :: "ReceivedBundle \<Rightarrow> nat" where "ElementsEnd b = bundle_end b"

end
