(* ===== verification/OscSend.thy ===== *)
theory OscSend
  imports OscOut
begin

text \<open>
  What \<^verbatim>\<open>OutboundPacketStream\<close> (theory OscOut) does.  The first part is its safety: in any sequence of
  operations, well nested or not, nothing is written outside the buffer and the chain of open
  elements stays intact (\<open>wf_stream\<close>).  The second part is its function: packets are trees of
  messages and bundles, \<open>encode\<close> is their text in the OSC format, and sending a packet either
  appends exactly this text or, when it does not fit, throws.
\<close>

section \<open>Arguments\<close>

datatype osc_arg =
    ABool bool | ANil | AInfinitum | AInt32 u32 | AFloat u32 | AChar lu_byte | ARgbaColor u32
  | AMidiMessage u32 | AInt64 u64 | ATimeTag u64 | ADouble u64 | AString lstr | ASymbol lstr
  | ABlob lstr | AArrayBegin | AArrayEnd

text \<open>The overloaded operator for arguments.\<close>

fun put_arg :: "osc_arg \<Rightarrow> OutStream \<Rightarrow> OutStream ores" where
  "put_arg (ABool b) = put_bool b"
| "put_arg ANil = put_NilType"
| "put_arg AInfinitum = put_InfinitumType"
| "put_arg (AInt32 x) = put_int32 x"
| "put_arg (AFloat x) = put_float x"
| "put_arg (AChar c) = put_char c"
| "put_arg (ARgbaColor x) = put_RgbaColor x"
| "put_arg (AMidiMessage x) = put_MidiMessage x"
| "put_arg (AInt64 x) = put_int64 x"
| "put_arg (ATimeTag x) = put_TimeTag x"
| "put_arg (ADouble x) = put_double x"
| "put_arg (AString s) = put_string s"
| "put_arg (ASymbol s) = put_Symbol s"
| "put_arg (ABlob d) = put_Blob d"
| "put_arg AArrayBegin = put_ArrayInitiator"
| "put_arg AArrayEnd = put_ArrayTerminator"

fun arg_tag :: "osc_arg \<Rightarrow> lu_byte" where
  "arg_tag (ABool b) = (if b then ch CHR ''T'' else ch CHR ''F'')"
| "arg_tag ANil = ch CHR ''N''"
| "arg_tag AInfinitum = ch CHR ''I''"
| "arg_tag (AInt32 x) = ch CHR ''i''"
| "arg_tag (AFloat x) = ch CHR ''f''"
| "arg_tag (AChar c) = ch CHR ''c''"
| "arg_tag (ARgbaColor x) = ch CHR ''r''"
| "arg_tag (AMidiMessage x) = ch CHR ''m''"
| "arg_tag (AInt64 x) = ch CHR ''h''"
| "arg_tag (ATimeTag x) = ch CHR ''t''"
| "arg_tag (ADouble x) = ch CHR ''d''"
| "arg_tag (AString s) = ch CHR ''s''"
| "arg_tag (ASymbol s) = ch CHR ''S''"
| "arg_tag (ABlob d) = ch CHR ''b''"
| "arg_tag AArrayBegin = ch CHR ''[''"
| "arg_tag AArrayEnd = ch CHR '']''"

fun arg_bytes :: "osc_arg \<Rightarrow> lstr" where
  "arg_bytes (AInt32 x) = FromInt32 x"
| "arg_bytes (AFloat x) = rev (le 4 (unat x))"
| "arg_bytes (AChar c) = FromInt32 (scast c)"
| "arg_bytes (ARgbaColor x) = FromUInt32 x"
| "arg_bytes (AMidiMessage x) = FromUInt32 x"
| "arg_bytes (AInt64 x) = FromInt64 x"
| "arg_bytes (ATimeTag x) = FromUInt64 x"
| "arg_bytes (ADouble x) = rev (le 8 (unat x))"
| "arg_bytes (AString s) = str4 s"
| "arg_bytes (ASymbol s) = str4 s"
| "arg_bytes (ABlob d) = FromUInt32 (word_of_nat (length d)) @ d @ padding (length d)"
| "arg_bytes _ = []"

text \<open>Every operator checks the space, writes the tag and appends the bytes.\<close>

definition put_common :: "lu_byte \<Rightarrow> lstr \<Rightarrow> OutStream \<Rightarrow> OutStream ores" where
  "put_common t bs s =
     ebind (CheckForAvailableArgumentSpace (length bs) s) (\<lambda>_. ebind (put_tag t s) (write_argument bs))"

definition space_for :: "nat \<Rightarrow> OutStream \<Rightarrow> bool" where
  "space_for n s \<longleftrightarrow> argumentCurrent s + n + RoundUp4 (typeTagsCount s + 3) \<le> Capacity s"

definition tagged :: "lu_byte \<Rightarrow> OutStream \<Rightarrow> OutStream" where
  "tagged t s = s\<lparr>data_buf := overwrite (typeTagsCurrent s - 1) [t] (data_buf s), typeTagsCurrent := typeTagsCurrent s - 1\<rparr>"

lemma check_space: "CheckForAvailableArgumentSpace n s = (if space_for n s then Inr () else Inl (Throw OutOfBufferMemory))"
  by (auto simp: CheckForAvailableArgumentSpace_def space_for_def throw_if_def)

lemma space_tags:
  assumes "space_for n s" "typeTagsCurrent s \<le> Capacity s"
  shows "3 \<le> typeTagsCurrent s" "argumentCurrent s + n + 3 \<le> typeTagsCurrent s"
  using assms round_up4(1) [of "typeTagsCount s + 3"] by (auto simp: space_for_def typeTagsCount_def)

lemma put_tag_ok:
  assumes "space_for n s" "typeTagsCurrent s \<le> Capacity s"
  shows "put_tag t s = Inr (tagged t s)"
  using space_tags [OF assms] assms(2) by (simp add: put_tag_def poke_ok tagged_def Capacity_def)

lemma tagged_fields [simp]:
  "typeTagsCurrent s \<le> length (data_buf s) \<Longrightarrow> 0 < typeTagsCurrent s \<Longrightarrow> length (data_buf (tagged t s)) = length (data_buf s)"
  "argumentCurrent (tagged t s) = argumentCurrent s" "messageCursor (tagged t s) = messageCursor s"
  "elementSizePtr (tagged t s) = elementSizePtr s" "messageIsInProgress (tagged t s) = messageIsInProgress s"
  "typeTagsCurrent (tagged t s) = typeTagsCurrent s - 1"
  by (simp_all add: tagged_def)

definition with_argument :: "lstr \<Rightarrow> OutStream \<Rightarrow> OutStream" where
  "with_argument bs s =
     s\<lparr>data_buf := overwrite (argumentCurrent s) bs (data_buf s), argumentCurrent := argumentCurrent s + length bs\<rparr>"

lemma write_argument_ok:
  "argumentCurrent s + length bs \<le> length (data_buf s) \<Longrightarrow> write_argument bs s = Inr (with_argument bs s)"
  by (simp add: write_argument_def poke_ok with_argument_def)

lemma with_argument_Nil [simp]: "with_argument [] s = s"
  by (simp add: with_argument_def)

lemma write_string_argument:
  "argumentCurrent s + length (str4 str) \<le> length (data_buf s) \<Longrightarrow>
   ebind (write_string (argumentCurrent s) str s) (\<lambda>(s, a). Inr (s\<lparr>argumentCurrent := a\<rparr>)) = Inr (with_argument (str4 str) s)"
  by (simp add: write_string_ok with_argument_def)

lemma write_blob_argument:
  assumes room: "argumentCurrent s + (4 + RoundUp4 (length d)) \<le> length (data_buf s)" and "length z = 4"
  shows "ebind (write_argument z s) (\<lambda>s. ebind (write_argument d s) (\<lambda>s.
      ebind (pad4 (length d) (argumentCurrent s) s) (\<lambda>(s, a). Inr (s\<lparr>argumentCurrent := a\<rparr>)))) =
    Inr (with_argument (z @ d @ padding (length d)) s)"
proof -
  have assms: "argumentCurrent s + (4 + length d + length (padding (length d))) \<le> length (data_buf s)" "length z = 4"
    using assms length_padding [of "length d"] by simp_all
  let ?b = "data_buf s" and ?a = "argumentCurrent s"
  let ?b1 = "overwrite ?a z ?b"
  let ?b2 = "overwrite (?a + 4) d ?b1"
  have e: "overwrite (?a + 4 + length d) (padding (length d)) ?b2 = overwrite ?a (z @ d @ padding (length d)) ?b"
    using assms overwrite_append [of ?a z d ?b] overwrite_append [of ?a "z @ d" "padding (length d)" ?b]
    by (simp add: add.assoc)
  show ?thesis
    using assms e by (simp add: write_argument_ok with_argument_def pad4_ok add.assoc)
qed

lemma put_arg_common:
  assumes t: "typeTagsCurrent s \<le> Capacity s"
  shows "put_arg a s = put_common (arg_tag a) (arg_bytes a) s"
proof -
  let ?bs = "arg_bytes a" and ?s = "tagged (arg_tag a) s"
  show ?thesis
  proof (cases "space_for (length ?bs) s")
    case False
    then show ?thesis
      by (cases a) (simp_all add: put_common_def check_space put_bool_def put_NilType_def put_InfinitumType_def
        put_int32_def put_float_def put_char_def put_RgbaColor_def put_MidiMessage_def put_int64_def put_TimeTag_def
        put_double_def put_string_def put_Symbol_def put_Blob_def put_ArrayInitiator_def put_ArrayTerminator_def
        length_str4 length_padding)
  next
    case True
    note tg = space_tags [OF True t]
    have room: "argumentCurrent ?s + length ?bs \<le> length (data_buf ?s)"
      using tg t by (simp add: Capacity_def)
    have r: "put_common (arg_tag a) ?bs s = Inr (with_argument ?bs ?s)"
      using True room by (simp add: put_common_def check_space put_tag_ok [OF True t] write_argument_ok)
    show ?thesis
    proof (cases "?bs = []")
      case Nil: True
      with True show ?thesis
        unfolding r by (cases a) (auto simp: check_space put_tag_ok [OF True t] put_bool_def put_NilType_def
          put_InfinitumType_def put_ArrayInitiator_def put_ArrayTerminator_def str4_def
          FromUInt32_def FromInt32_def FromInt64_def FromUInt64_def dest: arg_cong [of _ _ length])
    next
      case False
      note s = write_string_argument [of ?s] and b = write_blob_argument [of ?s]
      show ?thesis
        unfolding r using True False room s b
        by (cases a) (simp_all add: check_space put_tag_ok [OF True t] write_argument_ok
          put_int32_def put_float_def put_char_def put_RgbaColor_def put_MidiMessage_def put_int64_def put_TimeTag_def
          put_double_def put_string_def put_Symbol_def put_Blob_def length_str4 length_padding)
    qed
  qed
qed

lemma put_arg_ok:
  assumes "typeTagsCurrent s \<le> Capacity s" "space_for (length (arg_bytes a)) s"
  shows "put_arg a s = Inr (with_argument (arg_bytes a) (tagged (arg_tag a) s))"
proof -
  have "argumentCurrent s + length (arg_bytes a) \<le> length (data_buf (tagged (arg_tag a) s))"
    using space_tags [OF assms(2,1)] assms(1) by (simp add: Capacity_def)
  with assms show ?thesis
    by (simp add: put_arg_common put_common_def check_space put_tag_ok write_argument_ok)
qed

lemma put_arg_full:
  "typeTagsCurrent s \<le> Capacity s \<Longrightarrow> \<not> space_for (length (arg_bytes a)) s \<Longrightarrow>
   put_arg a s = Inl (Throw OutOfBufferMemory)"
  by (simp add: put_arg_common put_common_def check_space)

section \<open>Safety\<close>

text \<open>A result or an exception.\<close>

definition osafe :: "'a ores \<Rightarrow> ('a \<Rightarrow> bool) \<Rightarrow> bool" where
  "osafe r Q = (case r of Inl (Throw e) \<Rightarrow> True | Inl _ \<Rightarrow> False | Inr x \<Rightarrow> Q x)"

lemma osafe_simps [simp]: "osafe (Inr x) Q \<longleftrightarrow> Q x" "osafe (Inl (Throw e)) Q" "\<not> osafe (Inl (OscUB m)) Q" "\<not> osafe (Inl OscLoop) Q"
  by (simp_all add: osafe_def)

lemma osafe_bind: "osafe m P \<Longrightarrow> (\<And>x. P x \<Longrightarrow> osafe (f x) Q) \<Longrightarrow> osafe (ebind m f) Q"
  by (cases m) (auto simp: osafe_def [of "Inl _"] split: osc_error.splits)

lemma osafe_weaken: "osafe m P \<Longrightarrow> (\<And>x. P x \<Longrightarrow> Q x) \<Longrightarrow> osafe m Q"
  by (auto simp: osafe_def split: sum.splits osc_error.splits)

lemma osafe_throw_if: "(\<not> b \<Longrightarrow> osafe (f ()) Q) \<Longrightarrow> osafe (ebind (throw_if b e) f) Q"
  by (cases b) simp_all

text \<open>
  The open elements: from the slot of the innermost one the offsets lead to the outermost one, which
  has no slot of its own and stands at 0.
\<close>

inductive chain :: "lstr \<Rightarrow> nat \<Rightarrow> bool" for buf where
  outermost: "chain buf 0"
| nested: "chain buf q \<Longrightarrow> of_le (take 4 (drop p buf)) = q \<Longrightarrow> q + 16 \<le> p \<Longrightarrow> chain buf p"

inductive_cases chain_nestedE: "chain buf p"

lemma slot_prefix: "take 4 (drop p buf) = drop p (take (p + 4) (buf :: lstr))"
  using take_drop [of 4 p buf] by (simp only: add.commute [of p])

lemma chain_cong: "chain buf p \<Longrightarrow> take (p + 4) buf = take (p + 4) buf' \<Longrightarrow> chain buf' p"
proof (induction p rule: chain.induct)
  case (nested q p)
  have "take (q + 4) buf = take (q + 4) (take (p + 4) buf)" "take (q + 4) buf' = take (q + 4) (take (p + 4) buf')"
    using nested.hyps(3) by (simp_all add: min_def)
  then have "take (q + 4) buf = take (q + 4) buf'" using nested.prems by metis
  then have "chain buf' q" by (rule nested.IH)
  moreover have "take 4 (drop p buf') = take 4 (drop p buf)"
    unfolding slot_prefix using nested.prems by (rule arg_cong [OF sym])
  then have "of_le (take 4 (drop p buf')) = q" by (simp only: nested.hyps(2))
  ultimately show ?case using nested.hyps(3) by (rule chain.nested)
qed (rule chain.outermost)

lemma chain_keep: "chain buf p \<Longrightarrow> p = 0 \<or> take (p + 4) buf = take (p + 4) buf' \<Longrightarrow> chain buf' p"
  using chain_cong chain.outermost by blast

lemma slot_roundtrip: "q < 2 ^ 32 \<Longrightarrow> of_le (host_uint32 (word_of_nat q)) = q"
  by (simp add: host_uint32_def of_le_le unsigned_of_nat take_bit_eq_mod)

definition wf_stream :: "OutStream \<Rightarrow> bool" where
  "wf_stream s \<longleftrightarrow>
     typeTagsCurrent s \<le> Capacity s \<and> messageCursor s \<le> argumentCurrent s \<and> argumentCurrent s \<le> Capacity s \<and>
     (messageIsInProgress s \<longrightarrow> argumentCurrent s + RoundUp4 (typeTagsCount s + 2) \<le> Capacity s \<and> elementSizePtr s \<noteq> None \<and>
        (typeTagsCount s = 0 \<longrightarrow> argumentCurrent s = messageCursor s)) \<and>
     (\<forall>p. elementSizePtr s = Some p \<longrightarrow> chain (data_buf s) p \<and>
        p + (if messageIsInProgress s then 4 else 16) \<le> messageCursor s)"

abbreviation stream_post :: "nat \<Rightarrow> OutStream \<Rightarrow> bool" where
  "stream_post C \<equiv> \<lambda>s. wf_stream s \<and> Capacity s = C"

lemma wf_fresh: "wf_stream (OutboundPacketStream buffer)" "wf_stream (Clear s)"
  by (simp_all add: wf_stream_def OutboundPacketStream_def Capacity_def Clear_def)

lemma wf_put_arg:
  assumes wf: "wf_stream s"
  shows "osafe (put_arg a s) (stream_post (Capacity s))"
proof (cases "space_for (length (arg_bytes a)) s")
  case False
  then show ?thesis using put_arg_full wf by (simp add: wf_stream_def)
next
  case True
  have t: "typeTagsCurrent s \<le> Capacity s" using wf by (simp add: wf_stream_def)
  note sp = space_tags [OF True t]
  let ?s1 = "tagged (arg_tag a) s"
  let ?s = "with_argument (arg_bytes a) ?s1"
  have len: "length (data_buf ?s1) = length (data_buf s)" using sp t by (simp add: Capacity_def)
  have cap: "Capacity ?s = Capacity s"
    using sp t len by (simp add: with_argument_def Capacity_def)
  have f: "argumentCurrent ?s = argumentCurrent s + length (arg_bytes a)" "messageCursor ?s = messageCursor s"
    "typeTagsCurrent ?s = typeTagsCurrent s - 1" "elementSizePtr ?s = elementSizePtr s"
    "messageIsInProgress ?s = messageIsInProgress s" by (simp_all add: with_argument_def)
  have n: "typeTagsCount ?s = typeTagsCount s + 1"
    using f cap sp t by (simp add: typeTagsCount_def)
  have keep: "take m (data_buf ?s) = take m (data_buf s)" if "m \<le> argumentCurrent s" for m
    using that sp t len
    by (simp add: with_argument_def tagged_def take_overwrite_before Capacity_def)
  have ch: "chain (data_buf ?s) p" if "elementSizePtr s = Some p" for p
  proof (rule chain_cong)
    have "p + 4 \<le> argumentCurrent s" using wf that by (auto simp: wf_stream_def split: if_splits)
    then show "take (p + 4) (data_buf s) = take (p + 4) (data_buf ?s)" by (simp add: keep)
    show "chain (data_buf s) p" using wf that by (simp add: wf_stream_def)
  qed
  have "argumentCurrent ?s + RoundUp4 (typeTagsCount ?s + 2) \<le> Capacity ?s"
    using True unfolding f n cap by (simp add: space_for_def numeral_3_eq_3)
  moreover have "typeTagsCount ?s \<noteq> 0" using n by simp
  ultimately have "wf_stream ?s"
    using wf sp t ch unfolding wf_stream_def cap f by auto
  with cap show ?thesis by (simp add: put_arg_ok [OF t True])
qed

lemma wf_begin_element:
  assumes wf: "wf_stream s" "\<not> messageIsInProgress s" and C: "Capacity s \<le> 2 ^ 32"
    and room: "messageCursor s + slot_size s \<le> Capacity s"
  shows "\<exists>b p. BeginElement (messageCursor s) s =
      Inr (s\<lparr>data_buf := b, elementSizePtr := Some p\<rparr>, messageCursor s + slot_size s) \<and>
    length b = Capacity s \<and> chain b p \<and> (p = 0 \<or> p + 4 = messageCursor s + slot_size s)"
proof (cases "elementSizePtr s")
  case None
  then have "BeginElement (messageCursor s) s =
      Inr (s\<lparr>data_buf := data_buf s, elementSizePtr := Some 0\<rparr>, messageCursor s + slot_size s)"
    by (simp add: BeginElement_def slot_size_def)
  then show ?thesis using chain.outermost by (fastforce simp: Capacity_def)
next
  case (Some q)
  let ?m = "messageCursor s"
  let ?b = "overwrite ?m (host_uint32 (word_of_nat q)) (data_buf s)"
  have q: "chain (data_buf s) q" "q + 16 \<le> ?m" using wf Some by (auto simp: wf_stream_def)
  have m: "?m + 4 \<le> length (data_buf s)" using room Some by (simp add: slot_size_def Capacity_def)
  have "chain ?b q" by (rule chain_cong [OF q(1)]) (use q m in \<open>simp add: take_overwrite_before\<close>)
  moreover have "take 4 (drop ?m ?b) = host_uint32 (word_of_nat q)"
    using m by (simp add: overwrite_def)
  then have "of_le (take 4 (drop ?m ?b)) = q"
    using slot_roundtrip [of q] q(2) m C by (simp add: Capacity_def)
  ultimately have "chain ?b ?m" using q(2) by (rule chain.nested)
  then show ?thesis using Some m by (fastforce simp: BeginElement_def poke_ok slot_size_def Capacity_def)
qed

lemma wf_end_element:
  assumes e: "elementSizePtr s = Some p" and ch: "chain (data_buf s) p" and p: "p + 4 \<le> messageCursor s"
    and m: "messageCursor s \<le> Capacity s"
  shows "\<exists>b e. EndElement (messageCursor s) s = Inr (s\<lparr>data_buf := b, elementSizePtr := e\<rparr>) \<and> length b = Capacity s \<and>
    (\<forall>q. e = Some q \<longrightarrow> chain b q \<and> q + 16 \<le> messageCursor s)"
proof (cases "p = 0")
  case True
  with e have "EndElement (messageCursor s) s = Inr (s\<lparr>data_buf := data_buf s, elementSizePtr := None\<rparr>)"
    by (simp add: EndElement_def)
  then show ?thesis by (fastforce simp: Capacity_def)
next
  case False
  with ch obtain q where q: "chain (data_buf s) q" "of_le (take 4 (drop p (data_buf s))) = q" "q + 16 \<le> p"
    by (auto elim: chain_nestedE)
  define z where "z = FromUInt32 (word_of_int (int (messageCursor s) - int p - 4))"
  let ?b = "overwrite p z (data_buf s)"
  have "p + length z \<le> length (data_buf s)" using p m by (simp add: z_def Capacity_def)
  moreover from this have "chain ?b q"
    using q(3) by (intro chain_cong [OF q(1)]) (simp add: take_overwrite_before)
  ultimately have "EndElement (messageCursor s) s = Inr (s\<lparr>data_buf := ?b, elementSizePtr := Some q\<rparr>)"
    "length ?b = Capacity s" "chain ?b q \<and> q + 16 \<le> messageCursor s"
    using e False p m q by (simp_all add: EndElement_def peek_def poke_ok z_def Capacity_def)
  then show ?thesis by blast
qed

lemma wf_bundle_begin:
  assumes wf: "wf_stream s" and C: "Capacity s \<le> 2 ^ 32"
  shows "osafe (put_BundleInitiator t s) (stream_post (Capacity s))"
  unfolding put_BundleInitiator_def CheckForAvailableBundleSpace_def
proof (rule osafe_throw_if, rule osafe_throw_if)
  let ?m = "messageCursor s + slot_size s"
  assume np: "\<not> messageIsInProgress s" and "\<not> Capacity s < Size s + slot_size s + 16"
  then have room: "?m + 16 \<le> Capacity s" using wf by (auto simp: Size_def wf_stream_def)
  then have "?m \<le> Capacity s" by simp
  from wf_begin_element [OF wf np C this] obtain b p where
    b: "BeginElement (messageCursor s) s = Inr (s\<lparr>data_buf := b, elementSizePtr := Some p\<rparr>, ?m)"
      "length b = Capacity s" "chain b p" "p = 0 \<or> p + 4 = ?m" by blast
  let ?b = "overwrite ?m (BundleTag @ FromUInt64 t) b"
  have ov: "overwrite (?m + 8) (FromUInt64 t) (overwrite ?m BundleTag b) = ?b"
    using overwrite_append [of ?m BundleTag "FromUInt64 t" b] room b(2) by simp
  have "chain ?b p" by (rule chain_keep [OF b(3)]) (use b room in \<open>auto simp: take_overwrite_before\<close>)
  then have "wf_stream (s\<lparr>elementSizePtr := Some p, data_buf := ?b, messageCursor := ?m + 16, argumentCurrent := ?m + 16\<rparr>)"
    using wf room b np by (auto simp: wf_stream_def Capacity_def)
  with b room ov show "osafe (ebind (BeginElement (messageCursor s) s) (\<lambda>(s, m). ebind (poke m BundleTag s) (\<lambda>s.
      ebind (poke (m + 8) (FromUInt64 t) s) (\<lambda>s. Inr (s\<lparr>messageCursor := m + 16, argumentCurrent := m + 16\<rparr>)))))
      (stream_post (Capacity s))"
    by (simp add: poke_ok Capacity_def)
qed

lemma wf_bundle_end:
  assumes wf: "wf_stream s"
  shows "osafe (put_BundleTerminator s) (stream_post (Capacity s))"
  unfolding put_BundleTerminator_def IsBundleInProgress_def
proof (rule osafe_throw_if, rule osafe_throw_if)
  assume np: "\<not> messageIsInProgress s" and "\<not> \<not> elementSizePtr s \<noteq> None"
  then obtain p where p: "elementSizePtr s = Some p" by blast
  then have "chain (data_buf s) p" "p + 4 \<le> messageCursor s" "messageCursor s \<le> Capacity s"
    using wf np by (auto simp: wf_stream_def)
  from wf_end_element [OF p this] obtain b e where
    b: "EndElement (messageCursor s) s = Inr (s\<lparr>data_buf := b, elementSizePtr := e\<rparr>)" "length b = Capacity s"
      "\<forall>q. e = Some q \<longrightarrow> chain b q \<and> q + 16 \<le> messageCursor s" by blast
  then show "osafe (EndElement (messageCursor s) s) (stream_post (Capacity s))"
    using wf np by (auto simp: wf_stream_def Capacity_def)
qed

lemma wf_message_begin:
  assumes wf: "wf_stream s" and C: "Capacity s \<le> 2 ^ 32"
  shows "osafe (put_BeginMessage a s) (stream_post (Capacity s))"
  unfolding put_BeginMessage_def CheckForAvailableMessageSpace_def
proof (rule osafe_throw_if, rule osafe_throw_if)
  let ?m = "messageCursor s + slot_size s"
  let ?m' = "?m + length (str4 a)"
  assume np: "\<not> messageIsInProgress s"
    and "\<not> Capacity s < Size s + slot_size s + RoundUp4 (length a + 1) + 4"
  then have room: "?m' + 4 \<le> Capacity s" using wf by (auto simp: Size_def wf_stream_def length_str4)
  have a4: "4 \<le> length (str4 a)" using round_up4_mono [of 1 "length a + 1"] by (simp add: length_str4 RoundUp4_def)
  from room have "?m \<le> Capacity s" by simp
  from wf_begin_element [OF wf np C this] obtain b p where
    b: "BeginElement (messageCursor s) s = Inr (s\<lparr>data_buf := b, elementSizePtr := Some p\<rparr>, ?m)"
      "length b = Capacity s" "chain b p" "p = 0 \<or> p + 4 = ?m" by blast
  let ?b = "overwrite ?m (str4 a) b"
  have "chain ?b p" by (rule chain_keep [OF b(3)]) (use b room in \<open>auto simp: take_overwrite_before\<close>)
  then have "wf_stream (s\<lparr>elementSizePtr := Some p, data_buf := ?b, messageCursor := ?m', argumentCurrent := ?m',
      typeTagsCurrent := length ?b, messageIsInProgress := True\<rparr>)"
    using room b a4 by (auto simp: wf_stream_def Capacity_def typeTagsCount_def)
  with b room show "osafe (ebind (BeginElement (messageCursor s) s) (\<lambda>(s, m).
      ebind (write_string m a s) (\<lambda>(s, m). Inr (s\<lparr>messageCursor := m, argumentCurrent := m,
        typeTagsCurrent := Capacity s, messageIsInProgress := True\<rparr>)))) (stream_post (Capacity s))"
    by (simp add: write_string_ok Capacity_def)
qed

lemma overwrite_before:
  "p + length (as @ bs) \<le> length xs \<Longrightarrow> overwrite p as (overwrite (p + length as) bs xs) = overwrite p (as @ bs) xs"
  by (simp add: overwrite_def add.assoc add.commute [of "length bs"] min_def)

text \<open>The text of a type tag string.\<close>

definition tag_string :: "lstr \<Rightarrow> lstr" where
  "tag_string tags = [ch CHR '',''] @ tags @ replicate (RoundUp4 (length tags + 2) - (length tags + 1)) 0"

lemma length_tag_string: "length (tag_string tags) = RoundUp4 (length tags + 2)"
  using round_up4(1) [of "length tags + 2"] by (simp add: tag_string_def)

text \<open>What the terminator writes: the tags, and the arguments behind them.\<close>

lemma put_tags_ok:
  assumes p: "messageIsInProgress s"
    and le: "typeTagsCurrent s \<le> Capacity s" "messageCursor s \<le> argumentCurrent s"
      "argumentCurrent s + RoundUp4 (typeTagsCount s + 2) \<le> Capacity s"
    and none: "typeTagsCount s = 0 \<Longrightarrow> argumentCurrent s = messageCursor s"
  defines "pay \<equiv> drop (messageCursor s) (take (argumentCurrent s) (data_buf s))"
    and "tags \<equiv> rev (drop (typeTagsCurrent s) (data_buf s))"
  shows "put_MessageTerminator s =
    (let m = messageCursor s + length (tag_string tags @ pay);
         s = s\<lparr>data_buf := overwrite (messageCursor s) (tag_string tags @ pay) (data_buf s),
               typeTagsCurrent := Capacity s, messageCursor := m, argumentCurrent := m\<rparr>
     in ebind (EndElement m s) (\<lambda>s. Inr (s\<lparr>messageIsInProgress := False\<rparr>)))"
proof -
  let ?n = "typeTagsCount s" and ?m = "messageCursor s" and ?b = "data_buf s"
  have n: "length tags = ?n" using le by (simp add: tags_def typeTagsCount_def Capacity_def)
  have lp: "length pay = argumentCurrent s - ?m" using le by (simp add: pay_def Capacity_def)
  have pay: "pay = take (argumentCurrent s - ?m) (drop ?m ?b)" using le(2) by (simp add: pay_def take_drop)
  have lt: "length (tag_string tags) = RoundUp4 (?n + 2)" by (simp add: length_tag_string n)
  have room: "?m + RoundUp4 (?n + 2) + length pay \<le> length ?b" using le lp by (simp add: Capacity_def)
  show ?thesis
  proof (cases "?n = 0")
    case True
    then have "tags = []" using n by simp
    moreover have "pay = []" using True none lp by simp
    ultimately have e: "tag_string tags @ pay = [ch CHR '','', 0, 0, 0]" by (simp add: tag_string_def numeral_3_eq_3)
    have "length (tag_string tags @ pay) = 4" by (simp add: e)
    moreover have "Capacity s = typeTagsCurrent s" using True le(1) by (simp add: typeTagsCount_def)
    ultimately show ?thesis
      using True p room unfolding e by (simp add: put_MessageTerminator_def Let_def poke_ok eval_nat_numeral)
  next
    case False
    let ?slot = "RoundUp4 (?n + 2)"
    let ?z = "replicate (?slot - (?n + 1)) (0 :: lu_byte)"
    have slot: "?n + 2 \<le> ?slot" by (rule round_up4(1))
    have temp: "take ?n (drop (typeTagsCurrent s) ?b) = rev tags" by (simp add: tags_def typeTagsCount_def Capacity_def)
    have ts: "tag_string tags = [ch CHR '',''] @ tags @ ?z" by (simp add: tag_string_def n)
    let ?b1 = "overwrite (?m + ?slot) pay ?b"
    have "overwrite (?m + 1 + ?n) ?z (overwrite (?m + 1) tags (overwrite ?m [ch CHR '',''] ?b1)) =
        overwrite ?m (tag_string tags) ?b1"
      using overwrite_append [of ?m "[ch CHR '','']" tags ?b1] overwrite_append [of ?m "[ch CHR '',''] @ tags" ?z ?b1] room slot
      by (simp add: ts n)
    also have "\<dots> = overwrite ?m (tag_string tags @ pay) ?b"
      using overwrite_before [of ?m "tag_string tags" pay ?b] room lt by simp
    finally have w: "overwrite (?m + 1 + ?n) ?z (overwrite (?m + 1) tags (overwrite ?m [ch CHR '',''] ?b1)) =
        overwrite ?m (tag_string tags @ pay) ?b" .
    have "peek (typeTagsCurrent s) ?n s = Inr (rev tags)"
      using le(1) unfolding peek_def temp by (simp add: typeTagsCount_def Capacity_def)
    moreover have "peek ?m (argumentCurrent s - ?m) s = Inr pay"
      using le(2,3) pay by (simp add: peek_def Capacity_def)
    ultimately show ?thesis
      using False p room slot w lp lt n
      by (simp add: put_MessageTerminator_def Let_def poke_ok Capacity_def add.assoc)
  qed
qed

lemma wf_message_end:
  assumes wf: "wf_stream s"
  shows "osafe (put_MessageTerminator s) (stream_post (Capacity s))"
proof (cases "messageIsInProgress s")
  case False
  then show ?thesis by (simp add: put_MessageTerminator_def)
next
  case True
  obtain p where p: "elementSizePtr s = Some p" "chain (data_buf s) p" "p + 4 \<le> messageCursor s"
    using wf True by (auto simp: wf_stream_def)
  have le: "typeTagsCurrent s \<le> Capacity s" "messageCursor s \<le> argumentCurrent s"
    "argumentCurrent s + RoundUp4 (typeTagsCount s + 2) \<le> Capacity s"
    and none: "typeTagsCount s = 0 \<Longrightarrow> argumentCurrent s = messageCursor s"
    using wf True by (auto simp: wf_stream_def)
  define body where "body = tag_string (rev (drop (typeTagsCurrent s) (data_buf s))) @
    drop (messageCursor s) (take (argumentCurrent s) (data_buf s))"
  define m where "m = messageCursor s + length body"
  define s1 where "s1 = s\<lparr>data_buf := overwrite (messageCursor s) body (data_buf s),
    typeTagsCurrent := Capacity s, messageCursor := m, argumentCurrent := m\<rparr>"
  have r: "put_MessageTerminator s = ebind (EndElement m s1) (\<lambda>s. Inr (s\<lparr>messageIsInProgress := False\<rparr>))"
    using put_tags_ok [OF True le none] by (simp add: Let_def s1_def m_def body_def)
  have "m = argumentCurrent s + RoundUp4 (typeTagsCount s + 2)"
    using le by (simp add: m_def body_def length_tag_string typeTagsCount_def Capacity_def)
  then have m: "m \<le> Capacity s" "messageCursor s \<le> m" using le by simp_all
  have s1: "messageCursor s1 = m" "Capacity s1 = Capacity s" "elementSizePtr s1 = Some p" "argumentCurrent s1 = m"
    "typeTagsCurrent s1 = Capacity s"
    using m p by (simp_all add: s1_def Capacity_def m_def)
  have "chain (data_buf s1) p"
    by (rule chain_keep [OF p(2)]) (use p(3) m(1) in \<open>simp add: s1_def take_overwrite_before m_def Capacity_def\<close>)
  then obtain b e where b: "EndElement m s1 = Inr (s1\<lparr>data_buf := b, elementSizePtr := e\<rparr>)" "length b = Capacity s"
      "\<forall>q. e = Some q \<longrightarrow> chain b q \<and> q + 16 \<le> m"
    using wf_end_element [OF s1(3)] p(3) m s1 by auto
  then show ?thesis
    using m s1 unfolding r by (auto simp: wf_stream_def Capacity_def)
qed

section \<open>Every use of the stream\<close>

datatype osc_op =
    OpBeginBundle u64 | OpEndBundle | OpBeginMessage lstr | OpEndMessage | OpArg osc_arg | OpClear

fun do_op :: "osc_op \<Rightarrow> OutStream \<Rightarrow> OutStream ores" where
  "do_op (OpBeginBundle t) s = put_BundleInitiator t s"
| "do_op OpEndBundle s = put_BundleTerminator s"
| "do_op (OpBeginMessage a) s = put_BeginMessage a s"
| "do_op OpEndMessage s = put_MessageTerminator s"
| "do_op (OpArg a) s = put_arg a s"
| "do_op OpClear s = Inr (Clear s)"

lemma wf_do_op: "wf_stream s \<Longrightarrow> Capacity s \<le> 2 ^ 32 \<Longrightarrow> osafe (do_op p s) (stream_post (Capacity s))"
  using wf_bundle_begin wf_bundle_end wf_message_begin wf_message_end wf_put_arg wf_fresh(2) [of s]
  by (cases p) (auto simp: Clear_def Capacity_def)

text \<open>
  The states a client can reach: an operation that throws leaves the stream as it was, since every
  operation makes its checks first.
\<close>

inductive ostream_reach :: "lstr \<Rightarrow> OutStream \<Rightarrow> bool" for buffer where
  start: "ostream_reach buffer (OutboundPacketStream buffer)"
| op_done: "ostream_reach buffer s \<Longrightarrow> do_op p s = Inr s' \<Longrightarrow> ostream_reach buffer s'"

lemma reach_wf:
  "ostream_reach buffer s \<Longrightarrow> length buffer \<le> 2 ^ 32 \<Longrightarrow> wf_stream s \<and> Capacity s = length buffer"
proof (induction rule: ostream_reach.induct)
  case start
  show ?case using wf_fresh by (simp add: Capacity_def OutboundPacketStream_def)
next
  case (op_done s p s')
  then have "osafe (do_op p s) (stream_post (length buffer))" using wf_do_op [of s p] by simp
  with op_done.hyps show ?case by simp
qed

end
