(* ===== verification/OscEncode.thy ===== *)
theory OscEncode
  imports OscSend
begin

text \<open>
  The function of \<^verbatim>\<open>OutboundPacketStream\<close>: a packet is a tree of messages and bundles, \<open>encode\<close> is its
  text in the OSC format, and \<open>send\<close> are the operations a client performs for it.  Sending appends
  exactly the encoded packet (with its size in front, inside a bundle), or throws
  \<open>OutOfBufferMemory\<close> when that does not fit the buffer (\<open>send_correct\<close>).
\<close>

section \<open>Packets\<close>

datatype packet = Message lstr "osc_arg list" | Bundle u64 "packet list"

definition encode_message :: "lstr \<Rightarrow> osc_arg list \<Rightarrow> lstr" where
  "encode_message a args = str4 a @ tag_string (map arg_tag args) @ concat (map arg_bytes args)"

definition sized :: "lstr \<Rightarrow> lstr" where
  "sized body = FromUInt32 (word_of_nat (length body)) @ body"

fun encode :: "packet \<Rightarrow> lstr" where
  "encode (Message a args) = encode_message a args"
| "encode (Bundle t ps) = BundleTag @ FromUInt64 t @ concat (map (\<lambda>p. sized (encode p)) ps)"

primrec put_args :: "osc_arg list \<Rightarrow> OutStream \<Rightarrow> OutStream ores" where
  "put_args [] s = Inr s"
| "put_args (a # as) s = ebind (put_arg a s) (put_args as)"

fun send :: "packet \<Rightarrow> OutStream \<Rightarrow> OutStream ores" and send_all :: "packet list \<Rightarrow> OutStream \<Rightarrow> OutStream ores" where
  "send (Message a args) s = ebind (put_BeginMessage a s) (\<lambda>s. ebind (put_args args s) put_MessageTerminator)"
| "send (Bundle t ps) s = ebind (put_BundleInitiator t s) (\<lambda>s. ebind (send_all ps s) put_BundleTerminator)"
| "send_all [] s = Inr s"
| "send_all (p # ps) s = ebind (send p s) (send_all ps)"

section \<open>States\<close>

text \<open>Between elements: \<open>pre\<close> has been written, \<open>e\<close> is the open bundle.\<close>

definition idle :: "nat \<Rightarrow> nat option \<Rightarrow> lstr \<Rightarrow> OutStream \<Rightarrow> bool" where
  "idle C e pre s \<longleftrightarrow> Capacity s = C \<and> elementSizePtr s = e \<and> \<not> messageIsInProgress s \<and>
     messageCursor s = length pre \<and> argumentCurrent s = length pre \<and> take (length pre) (data_buf s) = pre"

text \<open>Inside a message: its tags and arguments so far.\<close>

definition building :: "nat \<Rightarrow> nat option \<Rightarrow> lstr \<Rightarrow> lstr \<Rightarrow> lstr \<Rightarrow> OutStream \<Rightarrow> bool" where
  "building C e pre tags pay s \<longleftrightarrow> Capacity s = C \<and> elementSizePtr s = e \<and> messageIsInProgress s \<and>
     messageCursor s = length pre \<and> argumentCurrent s = length pre + length pay \<and>
     take (length pre + length pay) (data_buf s) = pre @ pay \<and>
     typeTagsCurrent s + length tags = C \<and> drop (typeTagsCurrent s) (data_buf s) = rev tags \<and>
     length pre + length pay + RoundUp4 (length tags + 2) \<le> C \<and> (tags = [] \<longrightarrow> pay = [])"

lemma idle_fits: "idle C e pre s \<Longrightarrow> length pre \<le> C"
  by (auto simp: idle_def Capacity_def dest!: arg_cong [of _ _ length])

lemma building_arg:
  assumes b: "building C e pre tags pay s"
  shows "if length pre + length pay + length (arg_bytes a) + RoundUp4 (length tags + 3) \<le> C
    then \<exists>s'. put_arg a s = Inr s' \<and> building C e pre (tags @ [arg_tag a]) (pay @ arg_bytes a) s'
    else put_arg a s = Inl (Throw OutOfBufferMemory)"
proof -
  have t: "typeTagsCurrent s \<le> Capacity s" "typeTagsCount s = length tags"
    using b by (auto simp: building_def typeTagsCount_def)
  let ?bs = "arg_bytes a"
  have sp: "space_for (length ?bs) s \<longleftrightarrow> length pre + length pay + length ?bs + RoundUp4 (length tags + 3) \<le> C"
    using b t by (simp add: space_for_def building_def)
  show ?thesis
  proof (cases "space_for (length ?bs) s")
    case False
    with sp t put_arg_full show ?thesis by simp
  next
    case True
    note g = space_tags [OF True t(1)]
    let ?b1 = "overwrite (typeTagsCurrent s - 1) [arg_tag a] (data_buf s)"
    let ?b2 = "overwrite (argumentCurrent s) ?bs ?b1"
    have l1: "length ?b1 = length (data_buf s)" using g t(1) by (simp add: Capacity_def)
    have "take (argumentCurrent s) ?b1 = pre @ pay"
      using g t(1) b by (simp add: take_overwrite_before Capacity_def building_def)
    then have w: "take (argumentCurrent s + length ?bs) ?b2 = (pre @ pay) @ ?bs"
      using g t(1) l1 by (simp add: take_overwrite Capacity_def)
    have "drop (typeTagsCurrent s - 1) ?b2 = drop (typeTagsCurrent s - 1) ?b1"
      using g t(1) l1 by (simp add: drop_overwrite_after Capacity_def)
    also have "\<dots> = arg_tag a # drop (typeTagsCurrent s) (data_buf s)"
      using g t(1) by (simp add: overwrite_def Capacity_def)
    finally have d: "drop (typeTagsCurrent s - 1) ?b2 = rev (tags @ [arg_tag a])" using b by (simp add: building_def)
    have "building C e pre (tags @ [arg_tag a]) (pay @ ?bs) (with_argument ?bs (tagged (arg_tag a) s))"
      using b g t w d l1 True
      by (auto simp: building_def with_argument_def tagged_def Capacity_def space_for_def numeral_3_eq_3 add.assoc)
    with True sp put_arg_ok [OF t(1) True] show ?thesis by auto
  qed
qed

lemma building_args:
  "building C e pre tags pay s \<Longrightarrow>
   if length pre + length pay + length (concat (map arg_bytes as)) + RoundUp4 (length tags + length as + 2) \<le> C
   then \<exists>s'. put_args as s = Inr s' \<and> building C e pre (tags @ map arg_tag as) (pay @ concat (map arg_bytes as)) s'
   else put_args as s = Inl (Throw OutOfBufferMemory)"
proof (induction as arbitrary: tags pay s)
  case Nil
  then show ?case by (auto simp: building_def)
next
  case (Cons a as)
  let ?n = "length pre + length pay + length (arg_bytes a)"
  show ?case
  proof (cases "?n + RoundUp4 (length tags + 3) \<le> C")
    case False
    moreover have "RoundUp4 (length tags + 3) \<le> RoundUp4 (length tags + length (a # as) + 2)"
      by (rule round_up4_mono) simp
    ultimately show ?thesis using building_arg [OF Cons.prems, of a] by simp
  next
    case True
    with building_arg [OF Cons.prems, of a] obtain s' where
      s': "put_arg a s = Inr s'" "building C e pre (tags @ [arg_tag a]) (pay @ arg_bytes a) s'" by auto
    from Cons.IH [OF s'(2)] s'(1) show ?thesis by (auto simp: add.assoc split: if_splits)
  qed
qed

section \<open>Elements\<close>

definition open_slot :: "nat option \<Rightarrow> lstr" where
  "open_slot e = (case e of None \<Rightarrow> [] | Some q \<Rightarrow> host_uint32 (word_of_nat q))"

definition slot_pos :: "nat option \<Rightarrow> lstr \<Rightarrow> nat" where
  "slot_pos e pre = (case e of None \<Rightarrow> 0 | Some q \<Rightarrow> length pre)"

definition element :: "nat option \<Rightarrow> lstr \<Rightarrow> lstr" where
  "element e body = (case e of None \<Rightarrow> body | Some q \<Rightarrow> sized body)"

lemma length_element: "length (element e body) = length (open_slot e) + length body"
  by (simp add: element_def open_slot_def sized_def split: option.splits)

lemma begin_element:
  assumes "idle C e pre s" "length pre + length (open_slot e) \<le> C"
  shows "\<exists>b. BeginElement (length pre) s =
      Inr (s\<lparr>data_buf := b, elementSizePtr := Some (slot_pos e pre)\<rparr>, length (pre @ open_slot e)) \<and>
    length b = C \<and> take (length (pre @ open_slot e)) b = pre @ open_slot e"
proof (cases e)
  case None
  with assms have "BeginElement (length pre) s =
      Inr (s\<lparr>data_buf := data_buf s, elementSizePtr := Some (slot_pos e pre)\<rparr>, length (pre @ open_slot e))"
    by (simp add: BeginElement_def idle_def slot_pos_def open_slot_def)
  with assms None show ?thesis by (fastforce simp: idle_def open_slot_def Capacity_def)
next
  case (Some q)
  let ?z = "host_uint32 (word_of_nat q)"
  have "length pre + length ?z \<le> length (data_buf s)"
    using assms Some by (simp add: idle_def open_slot_def Capacity_def)
  moreover from this have "take (length pre + length ?z) (overwrite (length pre) ?z (data_buf s)) = pre @ ?z"
    using assms(1) by (subst take_overwrite) (simp_all add: idle_def)
  ultimately show ?thesis
    using assms Some
    by (auto simp: BeginElement_def idle_def slot_pos_def open_slot_def poke_ok Capacity_def)
qed

lemma end_element:
  assumes s: "elementSizePtr s = Some (slot_pos e pre)"
      "take (length (pre @ open_slot e @ body)) (data_buf s) = pre @ open_slot e @ body"
    and e: "\<forall>q. e = Some q \<longrightarrow> pre \<noteq> [] \<and> q < 2 ^ 32"
  shows "\<exists>b. EndElement (length (pre @ open_slot e @ body)) s = Inr (s\<lparr>data_buf := b, elementSizePtr := e\<rparr>) \<and>
    length b = length (data_buf s) \<and> take (length (pre @ open_slot e @ body)) b = pre @ element e body"
proof (cases e)
  case None
  with s have "EndElement (length (pre @ open_slot e @ body)) s = Inr (s\<lparr>data_buf := data_buf s, elementSizePtr := e\<rparr>)"
    by (simp add: EndElement_def slot_pos_def)
  with s None show ?thesis by (fastforce simp: open_slot_def element_def)
next
  case (Some q)
  let ?h = "host_uint32 (word_of_nat q)"
  have "data_buf s = (pre @ open_slot e @ body) @ drop (length (pre @ open_slot e @ body)) (data_buf s)"
    using s(2) append_take_drop_id by metis
  then obtain rest where rest: "data_buf s = pre @ ?h @ body @ rest" using Some by (simp add: open_slot_def)
  have q: "pre \<noteq> []" "q < 2 ^ 32" using e Some by auto
  let ?b = "pre @ sized body @ rest"
  have "word_of_int (int (length (pre @ ?h @ body)) - int (length pre) - 4) = (word_of_nat (length body) :: u32)"
    by simp
  then have "EndElement (length (pre @ open_slot e @ body)) s = Inr (s\<lparr>data_buf := ?b, elementSizePtr := e\<rparr>)"
    using s(1) Some q slot_roundtrip [OF q(2)]
    by (simp add: EndElement_def slot_pos_def open_slot_def peek_def poke_def rest overwrite_def sized_def)
  with Some show ?thesis by (auto simp: rest open_slot_def element_def sized_def)
qed

section \<open>Messages and bundles\<close>

lemma size_idle: "idle C e pre s \<Longrightarrow> Size s = length pre" "idle C e pre s \<Longrightarrow> slot_size s = length (open_slot e)"
  by (auto simp: idle_def Size_def slot_size_def open_slot_def split: option.splits)

lemma begin_message:
  assumes s: "idle C e pre s"
  shows "if length pre + length (open_slot e) + length (str4 a) + 4 \<le> C
    then \<exists>s'. put_BeginMessage a s = Inr s' \<and> building C (Some (slot_pos e pre)) (pre @ open_slot e @ str4 a) [] [] s'
    else put_BeginMessage a s = Inl (Throw OutOfBufferMemory)"
proof -
  let ?pre = "pre @ open_slot e"
  have c: "CheckForAvailableMessageSpace a s =
      throw_if (\<not> length pre + length (open_slot e) + length (str4 a) + 4 \<le> C) OutOfBufferMemory"
    using s size_idle [OF s] by (auto simp: CheckForAvailableMessageSpace_def length_str4 idle_def not_le)
  show ?thesis
  proof (cases "length pre + length (open_slot e) + length (str4 a) + 4 \<le> C")
    case False
    with s c show ?thesis by (simp add: put_BeginMessage_def idle_def)
  next
    case True
    then have "length pre + length (open_slot e) \<le> C" by simp
    from begin_element [OF s this] obtain b where
      b: "BeginElement (length pre) s = Inr (s\<lparr>data_buf := b, elementSizePtr := Some (slot_pos e pre)\<rparr>, length ?pre)"
        "length b = C" "take (length ?pre) b = ?pre" by blast
    let ?b = "overwrite (length ?pre) (str4 a) b"
    have "take (length ?pre + length (str4 a)) ?b = ?pre @ str4 a"
      using True b(2,3) by (subst take_overwrite) simp_all
    then have t: "take (length (pre @ open_slot e @ str4 a)) ?b = pre @ open_slot e @ str4 a" by (simp add: add.assoc)
    have "put_BeginMessage a s = Inr (s\<lparr>elementSizePtr := Some (slot_pos e pre), data_buf := ?b,
        messageCursor := length (pre @ open_slot e @ str4 a), argumentCurrent := length (pre @ open_slot e @ str4 a),
        typeTagsCurrent := C, messageIsInProgress := True\<rparr>)"
      using True s c b by (simp add: put_BeginMessage_def idle_def write_string_ok Capacity_def add.assoc)
    with True t b(2) show ?thesis by (auto simp: building_def Capacity_def)
  qed
qed

lemma end_message:
  assumes s: "building C (Some (slot_pos e pre)) (pre @ open_slot e @ addr) tags pay s"
    and e: "\<forall>q. e = Some q \<longrightarrow> pre \<noteq> [] \<and> q < 2 ^ 32"
  shows "\<exists>s'. put_MessageTerminator s = Inr s' \<and> idle C e (pre @ element e (addr @ tag_string tags @ pay)) s'"
proof -
  let ?pre = "pre @ open_slot e @ addr"
  let ?body = "addr @ tag_string tags @ pay"
  have n: "typeTagsCount s = length tags" using s by (auto simp: building_def typeTagsCount_def)
  have le: "typeTagsCurrent s \<le> Capacity s" "messageCursor s \<le> argumentCurrent s"
      "argumentCurrent s + RoundUp4 (typeTagsCount s + 2) \<le> Capacity s"
    and none: "typeTagsCount s = 0 \<Longrightarrow> argumentCurrent s = messageCursor s" and p: "messageIsInProgress s"
    using s unfolding n by (auto simp: building_def)
  have tags: "rev (drop (typeTagsCurrent s) (data_buf s)) = tags" using s by (simp add: building_def)
  have pay: "drop (messageCursor s) (take (argumentCurrent s) (data_buf s)) = pay" using s by (simp add: building_def)
  have room: "length ?pre + length (tag_string tags @ pay) \<le> C"
    using s by (simp add: building_def length_tag_string)
  let ?b = "overwrite (length ?pre) (tag_string tags @ pay) (data_buf s)"
  let ?m = "length (pre @ open_slot e @ ?body)"
  define s1 where "s1 = s\<lparr>data_buf := ?b, typeTagsCurrent := Capacity s, messageCursor := ?m, argumentCurrent := ?m\<rparr>"
  have r: "put_MessageTerminator s = ebind (EndElement ?m s1) (\<lambda>s. Inr (s\<lparr>messageIsInProgress := False\<rparr>))"
    using put_tags_ok [OF p le none] s unfolding tags pay by (simp add: Let_def s1_def building_def add.assoc)
  have C: "length (data_buf s) = C" using s by (simp add: building_def Capacity_def)
  have "take (length ?pre) (data_buf s) = take (length ?pre) (take (length ?pre + length pay) (data_buf s))"
    by (simp add: min_def)
  also have "\<dots> = ?pre" using s unfolding building_def by simp
  finally have "take (length ?pre + length (tag_string tags @ pay)) ?b = ?pre @ tag_string tags @ pay"
    using room C by (subst take_overwrite) simp_all
  then have "take (length (pre @ open_slot e @ ?body)) (data_buf s1) = pre @ open_slot e @ ?body"
    by (simp add: s1_def add.assoc)
  from end_element [OF _ this e] obtain b where
    b: "EndElement ?m s1 = Inr (s1\<lparr>data_buf := b, elementSizePtr := e\<rparr>)" "length b = length (data_buf s1)"
      "take ?m b = pre @ element e ?body" using s by (auto simp: s1_def building_def)
  have "length b = C" using b(2) room C by (simp add: s1_def)
  moreover have "?m = length (pre @ element e ?body)" by (simp add: length_element)
  ultimately have "idle C e (pre @ element e ?body) (s1\<lparr>data_buf := b, elementSizePtr := e, messageIsInProgress := False\<rparr>)"
    using b(3) by (simp add: idle_def s1_def Capacity_def)
  with r b(1) show ?thesis by simp
qed

lemma begin_bundle:
  assumes s: "idle C e pre s"
  shows "if length pre + length (open_slot e) + 16 \<le> C
    then \<exists>s'. put_BundleInitiator t s = Inr s' \<and>
      idle C (Some (slot_pos e pre)) (pre @ open_slot e @ BundleTag @ FromUInt64 t) s'
    else put_BundleInitiator t s = Inl (Throw OutOfBufferMemory)"
proof -
  let ?pre = "pre @ open_slot e" and ?h = "BundleTag @ FromUInt64 t"
  have c: "CheckForAvailableBundleSpace s = throw_if (\<not> length pre + length (open_slot e) + 16 \<le> C) OutOfBufferMemory"
    using s size_idle [OF s] by (auto simp: CheckForAvailableBundleSpace_def idle_def not_le)
  show ?thesis
  proof (cases "length pre + length (open_slot e) + 16 \<le> C")
    case False
    with s c show ?thesis by (simp add: put_BundleInitiator_def idle_def)
  next
    case True
    then have "length pre + length (open_slot e) \<le> C" by simp
    from begin_element [OF s this] obtain b where
      b: "BeginElement (length pre) s = Inr (s\<lparr>data_buf := b, elementSizePtr := Some (slot_pos e pre)\<rparr>, length ?pre)"
        "length b = C" "take (length ?pre) b = ?pre" by blast
    let ?b = "overwrite (length ?pre) ?h b"
    have ov: "overwrite (length ?pre + 8) (FromUInt64 t) (overwrite (length ?pre) BundleTag b) = ?b"
      using overwrite_append [of "length ?pre" BundleTag "FromUInt64 t" b] True b(2) by simp
    have "take (length ?pre + length ?h) ?b = ?pre @ ?h"
      using True b(2,3) by (subst take_overwrite) simp_all
    then have t: "take (length (pre @ open_slot e @ ?h)) ?b = pre @ open_slot e @ ?h" by (simp add: add.assoc)
    have "put_BundleInitiator t s = Inr (s\<lparr>elementSizePtr := Some (slot_pos e pre), data_buf := ?b,
        messageCursor := length ?pre + 16, argumentCurrent := length ?pre + 16\<rparr>)"
      using True s c b ov by (simp add: put_BundleInitiator_def idle_def poke_ok)
    moreover have "idle C (Some (slot_pos e pre)) (pre @ open_slot e @ BundleTag @ FromUInt64 t)
        (s\<lparr>elementSizePtr := Some (slot_pos e pre), data_buf := ?b,
          messageCursor := length ?pre + 16, argumentCurrent := length ?pre + 16\<rparr>)"
      using t s True b(2) by (simp add: idle_def Capacity_def)
    ultimately show ?thesis using True by auto
  qed
qed

lemma end_bundle:
  assumes s: "idle C (Some (slot_pos e pre)) (pre @ open_slot e @ body) s"
    and e: "\<forall>q. e = Some q \<longrightarrow> pre \<noteq> [] \<and> q < 2 ^ 32"
  shows "\<exists>s'. put_BundleTerminator s = Inr s' \<and> idle C e (pre @ element e body) s'"
proof -
  have "elementSizePtr s = Some (slot_pos e pre)"
    "take (length (pre @ open_slot e @ body)) (data_buf s) = pre @ open_slot e @ body"
    using s by (simp_all add: idle_def)
  from end_element [OF this e] obtain b where
    b: "EndElement (length (pre @ open_slot e @ body)) s = Inr (s\<lparr>data_buf := b, elementSizePtr := e\<rparr>)"
      "length b = length (data_buf s)" "take (length (pre @ open_slot e @ body)) b = pre @ element e body" by blast
  then show ?thesis
    using s by (simp add: put_BundleTerminator_def IsBundleInProgress_def idle_def Capacity_def length_element)
qed

section \<open>Sending a packet\<close>

text \<open>The result of an operation that appends \<open>body\<close> if it fits.\<close>

definition appends :: "nat \<Rightarrow> nat option \<Rightarrow> lstr \<Rightarrow> lstr \<Rightarrow> OutStream ores \<Rightarrow> bool" where
  "appends C e pre body r \<longleftrightarrow>
     (if length pre + length body \<le> C then \<exists>s'. r = Inr s' \<and> idle C e (pre @ body) s'
      else r = Inl (Throw OutOfBufferMemory))"

abbreviation slots_ok :: "nat option \<Rightarrow> lstr \<Rightarrow> bool" where
  "slots_ok e pre \<equiv> \<forall>q. e = Some q \<longrightarrow> pre \<noteq> [] \<and> q < 2 ^ 32"

lemma send_message:
  assumes s: "idle C e pre s" and e: "slots_ok e pre"
  shows "appends C e pre (element e (encode_message a args)) (send (Message a args) s)"
proof -
  let ?pay = "concat (map arg_bytes args)" and ?pre = "pre @ open_slot e @ str4 a"
  have len: "length (element e (encode_message a args)) =
      length (open_slot e) + length (str4 a) + RoundUp4 (length args + 2) + length ?pay"
    by (simp add: length_element encode_message_def length_tag_string)
  have four: "4 \<le> RoundUp4 (length args + 2)" using round_up4_mono [of 2 "length args + 2"] by simp
  show ?thesis
  proof (cases "length pre + length (open_slot e) + length (str4 a) + 4 \<le> C")
    case False
    with begin_message [OF s, of a] four len show ?thesis by (simp add: appends_def)
  next
    case True
    with begin_message [OF s, of a] obtain s1 where
      s1: "put_BeginMessage a s = Inr s1" "building C (Some (slot_pos e pre)) ?pre [] [] s1" by auto
    note args = building_args [OF s1(2), of args]
    show ?thesis
    proof (cases "length pre + length (element e (encode_message a args)) \<le> C")
      case False
      then have "put_args args s1 = Inl (Throw OutOfBufferMemory)" using args by (auto simp: len split: if_splits)
      with False s1(1) show ?thesis by (simp add: appends_def)
    next
      case fits: True
      then obtain s2 where s2: "put_args args s1 = Inr s2"
        "building C (Some (slot_pos e pre)) ?pre (map arg_tag args) ?pay s2"
        using args by (auto simp: len split: if_splits)
      from end_message [OF s2(2) e] s1(1) s2(1) fits show ?thesis by (simp add: appends_def encode_message_def)
    qed
  qed
qed

lemma send_packets:
  "idle C e pre s \<Longrightarrow> slots_ok e pre \<Longrightarrow> C \<le> 2 ^ 32 \<Longrightarrow> appends C e pre (element e (encode p)) (send p s)"
  "idle C (Some q) pre s \<Longrightarrow> pre \<noteq> [] \<Longrightarrow> q < 2 ^ 32 \<Longrightarrow> C \<le> 2 ^ 32 \<Longrightarrow>
   appends C (Some q) pre (concat (map (\<lambda>p. sized (encode p)) ps)) (send_all ps s)"
proof (induction p s and ps s arbitrary: e pre and q pre rule: send_send_all.induct)
  case (1 a args s)
  then show ?case using send_message [of C e pre s a args] by simp
next
  case (2 t ps s)
  let ?body = "concat (map (\<lambda>p. sized (encode p)) ps)"
  let ?pre = "pre @ open_slot e @ BundleTag @ FromUInt64 t"
  have len: "length (element e (encode (Bundle t ps))) = length (open_slot e) + 16 + length ?body"
    by (simp add: length_element)
  show ?case
  proof (cases "length pre + length (open_slot e) + 16 \<le> C")
    case False
    with begin_bundle [OF "2.prems"(1), of t] len show ?thesis by (simp add: appends_def)
  next
    case True
    with begin_bundle [OF "2.prems"(1), of t] obtain s1 where
      s1: "put_BundleInitiator t s = Inr s1" "idle C (Some (slot_pos e pre)) ?pre s1" by auto
    have "slot_pos e pre < 2 ^ 32" using True "2.prems"(3) by (auto simp: slot_pos_def split: option.splits)
    moreover have "?pre \<noteq> []" by (simp add: BundleTag_def lit_def)
    ultimately have body: "appends C (Some (slot_pos e pre)) ?pre ?body (send_all ps s1)"
      using "2.IH" [OF s1] "2.prems"(3) by blast
    show ?thesis
    proof (cases "length ?pre + length ?body \<le> C")
      case False
      then have "send_all ps s1 = Inl (Throw OutOfBufferMemory)" using body by (simp add: appends_def)
      with False s1(1) len show ?thesis by (simp add: appends_def)
    next
      case fits: True
      then obtain s2 where s2: "send_all ps s1 = Inr s2" "idle C (Some (slot_pos e pre)) (?pre @ ?body) s2"
        using body by (auto simp: appends_def)
      from end_bundle [of C e pre "BundleTag @ FromUInt64 t @ ?body" s2] s2(2) "2.prems"(2)
      obtain s3 where "put_BundleTerminator s2 = Inr s3"
        "idle C e (pre @ element e (encode (Bundle t ps))) s3" by auto
      with s1(1) s2(1) fits len show ?thesis by (simp add: appends_def)
    qed
  qed
next
  case (3 s)
  then show ?case using idle_fits [OF "3.prems"(1)] by (simp add: appends_def)
next
  case (4 p ps s)
  let ?x = "sized (encode p)" and ?rest = "concat (map (\<lambda>p. sized (encode p)) ps)"
  have x: "appends C (Some q) pre ?x (send p s)"
    using "4.IH"(1) [OF "4.prems"(1)] "4.prems" by (simp add: element_def)
  show ?case
  proof (cases "length pre + length ?x \<le> C")
    case False
    with x show ?thesis by (simp add: appends_def)
  next
    case True
    with x obtain s1 where s1: "send p s = Inr s1" "idle C (Some q) (pre @ ?x) s1" by (auto simp: appends_def)
    have "appends C (Some q) (pre @ ?x) ?rest (send_all ps s1)"
      using "4.IH"(2) [OF s1] "4.prems" by simp
    with s1(1) show ?thesis by (auto simp: appends_def add.assoc split: if_splits)
  qed
qed

lemma send_correct:
  assumes "length buffer \<le> 2 ^ 32"
  shows "if length (encode p) \<le> length buffer
    then \<exists>s. send p (OutboundPacketStream buffer) = Inr s \<and> packet_bytes s = encode p \<and> IsReady s
    else send p (OutboundPacketStream buffer) = Inl (Throw OutOfBufferMemory)"
proof -
  have "idle (length buffer) None [] (OutboundPacketStream buffer)"
    by (simp add: idle_def OutboundPacketStream_def Capacity_def)
  from send_packets(1) [OF this _ assms, of p] have
    a: "appends (length buffer) None [] (encode p) (send p (OutboundPacketStream buffer))" by (simp add: element_def)
  have "packet_bytes s = encode p \<and> IsReady s" if "idle (length buffer) None (encode p) s" for s
    using that size_idle(1) [OF that] by (simp add: packet_bytes_def IsReady_def IsBundleInProgress_def idle_def)
  with a show ?thesis by (auto simp: appends_def split: if_splits)
qed

end
