(* ===== verification/OscReceive.thy ===== *)
theory OscReceive
  imports OscIn OscEncode
begin

text \<open>
  What the classes of theory OscIn do.  First the round trip: a packet that was sent is received as
  it was.  Then arbitrary input: where the checks of \<^verbatim>\<open>ReceivedMessage::Init\<close> and
  \<^verbatim>\<open>ReceivedBundle::Init\<close> protect the reads that follow, and where they do not.
\<close>

section \<open>Reading what was written\<close>

lemma byte_at_drop: "drop p mem = c # r \<Longrightarrow> byte_at mem p = Inr c"
  by (cases "p < length mem") (auto simp: byte_at_def nth_via_drop)

lemma bytes_at_drop: "drop p mem = bs @ r \<Longrightarrow> bs \<noteq> [] \<Longrightarrow> bytes_at mem p (length bs) = Inr bs"
proof -
  assume d: "drop p mem = bs @ r" "bs \<noteq> []"
  from arg_cong [OF d(1), of length] d(2) have "p + length bs \<le> length mem" by (cases bs) auto
  with d(1) show ?thesis by (simp add: bytes_at_def)
qed

lemma drop_step: "drop p mem = bs @ r \<Longrightarrow> drop (p + length bs) mem = r"
  by (simp add: drop_drop [symmetric] add.commute [of p] del: drop_drop)

lemma word32_le: "word_of_nat (of_le (le 4 (unat (x :: u32)))) = x"
  using unsigned_less [of x, where 'a = nat] by (simp add: of_le_le)

lemma word64_le: "word_of_nat (of_le (le 8 (unat (x :: u64)))) = x"
  using unsigned_less [of x, where 'a = nat] by (simp add: of_le_le)

lemma le_Nil [simp]: "le n v = [] \<longleftrightarrow> n = 0"
  by (cases n) simp_all

lemma read_word32:
  assumes "drop p mem = rev (le 4 (unat x)) @ r"
  shows "ToInt32 mem p = Inr x" "ToUInt32 mem p = Inr x"
    "ebind (bytes_at mem p 4) (\<lambda>bs. Inr (word_of_nat (of_le (rev bs)))) = Inr (x :: u32)"
  using bytes_at_drop [OF assms] word32_le [of x]
  by (simp_all add: ToInt32_def ToUInt32_def)

lemma read_word64:
  assumes "drop p mem = rev (le 8 (unat x)) @ r"
  shows "ToInt64 mem p = Inr x" "ToUInt64 mem p = Inr x"
    "ebind (bytes_at mem p 8) (\<lambda>bs. Inr (word_of_nat (of_le (rev bs)))) = Inr (x :: u64)"
  using bytes_at_drop [OF assms] word64_le [of x]
  by (simp_all add: ToInt64_def ToUInt64_def)

subsection \<open>Strings\<close>

lemma c_string_drop: "drop p mem = s @ 0 # r \<Longrightarrow> 0 \<notin> set s \<Longrightarrow> c_string mem p = Inr s"
proof (induction s arbitrary: p)
  case Nil
  then show ?case by (subst c_string.simps) (simp add: byte_at_drop)
next
  case (Cons c s)
  from drop_step [of p mem "[c]"] Cons.prems have "drop (p + 1) mem = s @ 0 # r" by simp
  from Cons.IH [OF this] Cons.prems show ?case
    by (subst c_string.simps) (simp add: byte_at_drop [of p mem c])
qed

lemma round_up4_add4: "RoundUp4 (x + 4) = RoundUp4 x + 4"
proof -
  have "(x + 4 + 3) mod 4 = (x + 3) mod 4" using mod_add_self2 [of "x + 3" 4] by (simp add: ac_simps)
  moreover have "(x + 3) mod 4 \<le> x + 3" by simp
  ultimately show ?thesis by (simp add: RoundUp4_def)
qed

lemma str4_long:
  assumes "4 \<le> length s"
  shows "str4 s = take 4 s @ str4 (drop 4 s)"
proof -
  have "RoundUp4 (length s + 1) = RoundUp4 (length (drop 4 s) + 1) + 4"
    using assms round_up4_add4 [of "length (drop 4 s) + 1"] by simp
  then have "RoundUp4 (length s + 1) - (length s + 1) = RoundUp4 (length (drop 4 s) + 1) - (length (drop 4 s) + 1)"
    using assms by simp
  then have "padding (length s + 1) = padding (length (drop 4 s) + 1)" by (simp only: padding_def)
  moreover have "take 4 s @ drop 4 s @ x = s @ x" for x by (metis append.assoc append_take_drop_id)
  ultimately show ?thesis unfolding str4_def by (simp only:)
qed

lemma str4_short:
  assumes "length s < 4"
  shows "length (str4 s) = 4" "drop 3 (str4 s) = [0]"
proof -
  have "length s = 0 \<or> length s = 1 \<or> length s = 2 \<or> length s = 3" using assms by linarith
  then have "RoundUp4 (length s + 1) = 4" by (auto simp: RoundUp4_def)
  then have "str4 s = s @ replicate (4 - length s) 0"
    using assms by (simp add: str4_def padding_def flip: replicate_Suc)
  moreover have "4 - length s - (3 - length s) = 1" using assms by linarith
  ultimately show "length (str4 s) = 4" "drop 3 (str4 s) = [0]" using assms by simp_all
qed

text \<open>The scan sees a nonzero byte at the end of every block of four but the last.\<close>

lemma str4_block:
  assumes d: "drop p mem = str4 s @ r" and z: "0 \<notin> set s"
  obtains (last) "byte_at mem (p + 3) = Inr 0" "length (str4 s) = 4"
  | (more) c where "byte_at mem (p + 3) = Inr c" "c \<noteq> 0" "drop (p + 4) mem = str4 (drop 4 s) @ r"
      "length (str4 s) = 4 + length (str4 (drop 4 s))" "length (drop 4 s) < length s" "0 \<notin> set (drop 4 s)"
      "4 \<le> length (str4 (drop 4 s))"
proof (cases "length s < 4")
  case True
  have "drop (p + 3) mem = drop 3 (str4 s) @ r"
    using d str4_short(1) [OF True] by (simp add: drop_drop [symmetric] add.commute [of p] del: drop_drop)
  then have "byte_at mem (p + 3) = Inr 0" using str4_short(2) [OF True] by (intro byte_at_drop) simp
  with str4_short(1) [OF True] last show ?thesis by blast
next
  case False
  then have s: "str4 s = take 4 s @ str4 (drop 4 s)" "length (str4 s) = 4 + length (str4 (drop 4 s))"
    using str4_long [of s] by simp_all
  have d4: "drop (p + 4) mem = str4 (drop 4 s) @ r" using d False s(1) drop_step [of p mem "take 4 s"] by simp
  have "mem ! (p + 3) = drop p mem ! 3" "p + 3 < length mem"
    using arg_cong [OF d, of length] s(2) by simp_all
  then have b: "byte_at mem (p + 3) = Inr (s ! 3)" using False unfolding d s(1) by (simp add: byte_at_def nth_append)
  have "s ! 3 \<in> set s" using False by simp
  then have "s ! 3 \<noteq> 0" using z by metis
  moreover have "4 \<le> length (str4 (drop 4 s))"
    using str4_short(1) [of "drop 4 s"] str4_long [of "drop 4 s"] by (cases "length (drop 4 s) < 4") auto
  moreover have "length (drop 4 s) < length s" using False by simp
  moreover have "0 \<notin> set (drop 4 s)" using z by (blast dest: in_set_dropD)
  ultimately show ?thesis using more [OF b _ d4 s(2)] by blast
qed

lemma scan4_str4:
  "drop p mem = str4 s @ r \<Longrightarrow> 0 \<notin> set s \<Longrightarrow> scan4 mem (p + 3) = Inr (p + length (str4 s))"
proof (induction "length s" arbitrary: p s rule: less_induct)
  case less
  from less.prems show ?case
  proof (cases rule: str4_block)
    case last
    then show ?thesis by (subst scan4.simps) simp
  next
    case (more c)
    with less.hyps [OF more(5,3,6)] show ?thesis
      by (subst scan4.simps) (simp add: add.commute add.left_commute)
  qed
qed

lemma scan4_end_str4:
  "drop p mem = str4 s @ r \<Longrightarrow> 0 \<notin> set s \<Longrightarrow> p + length (str4 s) \<le> e \<Longrightarrow>
   scan4_end mem (p + 3) (e - 1) = Inr (Some (p + length (str4 s)))"
proof (induction "length s" arbitrary: p s rule: less_induct)
  case less
  from less.prems(1,2) show ?case
  proof (cases rule: str4_block)
    case last
    then show ?thesis by (subst scan4_end.simps) simp
  next
    case (more c)
    have "p + 3 < e - 1" using less.prems(3) more(4,7) by simp
    moreover have "scan4_end mem (p + 4 + 3) (e - 1) = Inr (Some (p + 4 + length (str4 (drop 4 s))))"
      using less.hyps [OF more(5,3,6)] less.prems(3) more(4) by simp
    ultimately show ?thesis using more
      by (subst scan4_end.simps) (simp add: add.commute add.left_commute)
  qed
qed

lemma find_str4:
  assumes "drop p mem = str4 s @ r" "0 \<notin> set s"
  shows "FindStr4End_unchecked mem p = Inr (p + length (str4 s))"
    and "p + length (str4 s) \<le> e \<Longrightarrow> FindStr4End mem p e = Inr (Some (p + length (str4 s)))"
proof -
  have four: "4 \<le> length (str4 s)" using str4_short(1) [of s] str4_long [of s] by (cases "length s < 4") auto
  have "byte_at mem p = Inr 0 \<and> s = [] \<or> (\<exists>c. byte_at mem p = Inr c \<and> c \<noteq> 0)"
    using assms byte_at_drop [of p mem] by (cases s) (auto simp: str4_def)
  then show "FindStr4End_unchecked mem p = Inr (p + length (str4 s))"
    and "p + length (str4 s) \<le> e \<Longrightarrow> FindStr4End mem p e = Inr (Some (p + length (str4 s)))"
    using scan4_str4 [OF assms] scan4_end_str4 [OF assms, of e] four str4_short(1) [of "[]"]
    by (auto simp: FindStr4End_unchecked_def FindStr4End_def)
qed

subsection \<open>Arguments\<close>

lemma unat_take_2: "unat (take_bit 2 x :: u32) = unat x mod 4"
  unfolding unsigned_take_bit_eq by (simp add: take_bit_eq_mod)

lemma multiple_of_4_iff: "IsMultipleOf4 x \<longleftrightarrow> unat x mod 4 = 0"
proof -
  have three: "(3 :: u32) = mask 2" by (simp add: mask_eq_exp_minus_1)
  have "x AND 3 = take_bit 2 x" by (simp only: three take_bit_eq_mask)
  then show ?thesis unfolding IsMultipleOf4_def by (metis unat_take_2 unat_eq_zero)
qed

lemma multiple_of_4: "n mod 4 = 0 \<Longrightarrow> IsMultipleOf4 (word_of_nat n)"
  by (simp add: multiple_of_4_iff unsigned_of_nat take_bit_eq_mod mod_mod_cancel)

lemma and_not_3: "unat (x AND NOT 3 :: u32) = unat x - unat x mod 4"
proof -
  have three: "(3 :: u32) = mask 2" by (simp add: mask_eq_exp_minus_1)
  have "Suc (Suc (n - 2)) = n" if "2 \<le> n" for n :: nat using that by simp
  then have "x AND NOT (mask 2) = push_bit 2 (drop_bit 2 x)"
    by (intro bit_eqI) (auto simp: bit_simps)
  also have "\<dots> = x - take_bit 2 x" using bits_ident [of 2 x] by (simp add: algebra_simps)
  finally have e: "x AND NOT 3 = x - take_bit 2 x" by (simp only: three)
  have "take_bit 2 x \<le> x" unfolding word_le_nat_alt unat_take_2 by simp
  then show ?thesis unfolding e by (simp only: unat_sub unat_take_2)
qed

lemma round_up4_uint32: "n \<le> 0x7FFFFFFC \<Longrightarrow> unat (RoundUp4_UInt32 (word_of_nat n)) = RoundUp4 n"
proof -
  assume n: "n \<le> 0x7FFFFFFC"
  have "unat (word_of_nat n + 3 :: u32) = n + 3"
    using n by (simp add: unat_word_ariths unsigned_of_nat take_bit_eq_mod)
  then show ?thesis by (simp only: RoundUp4_UInt32_def and_not_3 RoundUp4_def)
qed

text \<open>Arguments that can be sent faithfully.\<close>

fun arg_ok :: "osc_arg \<Rightarrow> bool" where
  "arg_ok (AString s) \<longleftrightarrow> 0 \<notin> set s"
| "arg_ok (ASymbol s) \<longleftrightarrow> 0 \<notin> set s"
| "arg_ok (ABlob d) \<longleftrightarrow> length d \<le> 0x7FFFFFFC"
| "arg_ok _ \<longleftrightarrow> True"

fun array_step :: "osc_arg \<Rightarrow> u32" where
  "array_step AArrayBegin = 1"
| "array_step AArrayEnd = - 1"
| "array_step _ = 0"

text \<open>The value of an argument: the conversion that belongs to its tag.\<close>

definition read_arg :: "lstr \<Rightarrow> ReceivedMessageArgument \<Rightarrow> osc_arg ores" where
  "read_arg mem x =
     ebind (TypeTag mem x) (\<lambda>t.
       if t = ch CHR ''T'' \<or> t = ch CHR ''F'' then ebind (AsBool mem x) (\<lambda>v. Inr (ABool v))
       else if t = ch CHR ''N'' then Inr ANil
       else if t = ch CHR ''I'' then Inr AInfinitum
       else if t = ch CHR ''i'' then ebind (AsInt32 mem x) (\<lambda>v. Inr (AInt32 v))
       else if t = ch CHR ''f'' then ebind (AsFloat mem x) (\<lambda>v. Inr (AFloat v))
       else if t = ch CHR ''c'' then ebind (AsChar mem x) (\<lambda>v. Inr (AChar v))
       else if t = ch CHR ''r'' then ebind (AsRgbaColor mem x) (\<lambda>v. Inr (ARgbaColor v))
       else if t = ch CHR ''m'' then ebind (AsMidiMessage mem x) (\<lambda>v. Inr (AMidiMessage v))
       else if t = ch CHR ''h'' then ebind (AsInt64 mem x) (\<lambda>v. Inr (AInt64 v))
       else if t = ch CHR ''t'' then ebind (AsTimeTag mem x) (\<lambda>v. Inr (ATimeTag v))
       else if t = ch CHR ''d'' then ebind (AsDouble mem x) (\<lambda>v. Inr (ADouble v))
       else if t = ch CHR ''s'' then ebind (AsString mem x) (\<lambda>p. ebind (c_string mem p) (\<lambda>s. Inr (AString s)))
       else if t = ch CHR ''S'' then ebind (AsSymbol mem x) (\<lambda>p. ebind (c_string mem p) (\<lambda>s. Inr (ASymbol s)))
       else if t = ch CHR ''b'' then
         ebind (AsBlob mem x) (\<lambda>(p, n). ebind (bytes_at mem p (nat (sint n))) (\<lambda>d. Inr (ABlob d)))
       else if t = ch CHR ''['' then Inr AArrayBegin
       else if t = ch CHR '']'' then Inr AArrayEnd
       else Inl (OscUB ''unknown type tag''))"

lemma valid_size: "n \<le> 0x7FFFFFFC \<Longrightarrow> IsValidElementSizeValue (word_of_nat n) \<and> sint (word_of_nat n :: u32) = int n"
proof -
  assume n: "n \<le> 0x7FFFFFFC"
  then have "sint (word_of_nat n :: u32) = int n" by (simp add: signed_of_nat signed_take_bit_int_eq_self)
  with n show ?thesis by (simp add: IsValidElementSizeValue_def OSC_BUNDLE_ELEMENT_SIZE_MAX_def)
qed

lemma blob_parts:
  assumes "drop p mem = arg_bytes (ABlob d) @ r" "length d \<le> 0x7FFFFFFC"
  shows "ToUInt32 mem p = Inr (word_of_nat (length d))" "bytes_at mem (p + 4) (length d) = Inr d"
    "length (arg_bytes (ABlob d)) = 4 + unat (RoundUp4_UInt32 (word_of_nat (length d)))"
proof -
  have d: "drop p mem = FromUInt32 (word_of_nat (length d)) @ d @ padding (length d) @ r" using assms(1) by simp
  then show "ToUInt32 mem p = Inr (word_of_nat (length d))" by (intro read_word32(2)) (simp add: FromUInt32_def)
  from drop_step [OF d] have d4: "drop (p + 4) mem = d @ padding (length d) @ r" by simp
  have "p + 4 \<le> length mem" using arg_cong [OF d, of length] by simp
  then show "bytes_at mem (p + 4) (length d) = Inr d"
  proof -
    have "length mem - (p + 4) = length d + length (padding (length d) @ r)"
      using arg_cong [OF d4, of length] by simp
    then show ?thesis using \<open>p + 4 \<le> length mem\<close> d4 by (simp add: bytes_at_def)
  qed
  show "length (arg_bytes (ABlob d)) = 4 + unat (RoundUp4_UInt32 (word_of_nat (length d)))"
    using round_up4_uint32 [OF assms(2)] length_padding [of "length d"] by simp
qed

lemma check_tag_arg:
  assumes d: "drop p mem = arg_bytes a @ r" and ok: "arg_ok a" and e: "p + length (arg_bytes a) \<le> e"
  shows "check_tag mem e (arg_tag a) p l = Inr (p + length (arg_bytes a), l + array_step a)"
proof (cases a)
  case (AString s)
  with d ok e find_str4(2) [of p mem s r e] show ?thesis
    by (simp add: check_tag_def lit_def str4_def)
next
  case (ASymbol s)
  with d ok e find_str4(2) [of p mem s r e] show ?thesis
    by (simp add: check_tag_def lit_def str4_def)
next
  case (ABlob x)
  with d ok blob_parts [of p mem x r] show ?thesis by (simp add: check_tag_def lit_def)
qed (use e in \<open>auto simp: check_tag_def lit_def skip_argument_def\<close>)

lemma read_arg_ok:
  assumes d: "drop p mem = arg_bytes a @ r" and ok: "arg_ok a" and t: "drop t mem = arg_tag a # r'"
  shows "read_arg mem \<lparr>typeTagPtr = Some t, argumentPtr = p\<rparr> = Inr a"
proof -
  note tag = byte_at_drop [OF t]
  note defs = read_arg_def TypeTag_def present_tag_def
  show ?thesis
  proof (cases a)
    case (AString s)
    with d ok c_string_drop [of p mem s] tag show ?thesis by (simp add: defs AsString_def str4_def)
  next
    case (ASymbol s)
    with d ok c_string_drop [of p mem s] tag show ?thesis by (simp add: defs AsSymbol_def str4_def)
  next
    case (ABlob x)
    with d ok blob_parts [of p mem x r] valid_size [of "length x"] tag show ?thesis
      by (simp add: defs AsBlob_def AsBlobUnchecked_def)
  next
    case (AChar c)
    then have "ToInt32 mem p = Inr (scast c)" using d by (intro read_word32(1)) (simp add: FromInt32_def)
    moreover have "ucast (scast c :: u32) = c" by (rule bit_eqI) (auto simp: bit_simps)
    ultimately show ?thesis using AChar tag by (simp add: defs AsChar_def AsCharUnchecked_def)
  qed (use d tag in \<open>auto simp: defs AsBool_def AsInt32_def AsInt32Unchecked_def AsFloat_def AsFloatUnchecked_def
      AsRgbaColor_def AsRgbaColorUnchecked_def AsMidiMessage_def AsMidiMessageUnchecked_def AsInt64_def AsInt64Unchecked_def
      AsTimeTag_def AsTimeTagUnchecked_def AsDouble_def AsDoubleUnchecked_def FromInt32_def FromUInt32_def FromInt64_def
      FromUInt64_def read_word32 read_word64\<close>)
qed

lemma advance_ok:
  assumes d: "drop p mem = arg_bytes a @ r" and ok: "arg_ok a" and t: "drop t mem = arg_tag a # r'"
  shows "Advance mem \<lparr>typeTagPtr = Some t, argumentPtr = p\<rparr> =
    Inr \<lparr>typeTagPtr = Some (t + 1), argumentPtr = p + length (arg_bytes a)\<rparr>"
proof -
  note tag = byte_at_drop [OF t]
  show ?thesis
  proof (cases a)
    case (AString s)
    with d ok find_str4(1) [of p mem s] tag show ?thesis by (simp add: Advance_def lit_def)
  next
    case (ASymbol s)
    with d ok find_str4(1) [of p mem s] tag show ?thesis by (simp add: Advance_def lit_def)
  next
    case (ABlob x)
    with d ok blob_parts [of p mem x r] tag show ?thesis by (simp add: Advance_def lit_def)
  qed (use tag in \<open>auto simp: Advance_def lit_def\<close>)
qed

subsection \<open>Messages\<close>

text \<open>The values of the arguments, from the first iterator to the last.\<close>

primrec read_args ::
  "nat \<Rightarrow> lstr \<Rightarrow> ReceivedMessageArgument \<Rightarrow> ReceivedMessageArgument \<Rightarrow> osc_arg list ores" where
  "read_args 0 mem x e = (if IsEqualTo x e then Inr [] else Inl OscLoop)"
| "read_args (Suc n) mem x e =
     (if IsEqualTo x e then Inr []
      else ebind (read_arg mem x) (\<lambda>a. ebind (Advance mem x) (\<lambda>x.
           ebind (read_args n mem x e) (\<lambda>as. Inr (a # as)))))"

definition read_message :: "lstr \<Rightarrow> ReceivedMessage \<Rightarrow> (lstr \<times> osc_arg list) ores" where
  "read_message mem m =
     ebind (c_string mem (addressPattern m)) (\<lambda>a.
     ebind (read_args (unat (ArgumentCount m)) mem (ArgumentsBegin m) (ArgumentsEnd m)) (\<lambda>as. Inr (a, as)))"

definition array_level :: "osc_arg list \<Rightarrow> u32" where
  "array_level as = sum_list (map array_step as)"

lemma arg_tag_nonzero: "arg_tag a \<noteq> 0"
  by (cases a) simp_all

lemma check_tags_args:
  "as \<noteq> [] \<Longrightarrow> list_all arg_ok as \<Longrightarrow> drop t mem = map arg_tag as @ 0 # r \<Longrightarrow>
   drop p mem = concat (map arg_bytes as) @ r' \<Longrightarrow> p + length (concat (map arg_bytes as)) \<le> e \<Longrightarrow>
   check_tags mem e t p l = Inr (t + length as, l + array_level as)"
proof (induction as arbitrary: t p l)
  case (Cons a as)
  have t: "drop t mem = arg_tag a # map arg_tag as @ 0 # r" using Cons.prems(3) by simp
  from drop_step [of t mem "[arg_tag a]"] t have t1: "drop (t + 1) mem = map arg_tag as @ 0 # r" by simp
  have p: "drop p mem = arg_bytes a @ concat (map arg_bytes as) @ r'" using Cons.prems(4) by simp
  note p1 = drop_step [OF p]
  have c: "check_tag mem e (arg_tag a) p l = Inr (p + length (arg_bytes a), l + array_step a)"
    by (rule check_tag_arg [OF p]) (use Cons.prems in simp_all)
  show ?case
  proof (cases as)
    case Nil
    then have "byte_at mem (t + 1) = Inr 0" using t1 by (intro byte_at_drop) simp
    with Nil c byte_at_drop [OF t] show ?thesis by (subst check_tags.simps) (simp add: array_level_def)
  next
    case (Cons a' as')
    have "byte_at mem (t + 1) = Inr (arg_tag a')" using t1 Cons by (intro byte_at_drop) simp
    moreover have "check_tags mem e (t + 1) (p + length (arg_bytes a)) (l + array_step a) =
        Inr (t + 1 + length as, l + array_step a + array_level as)"
      by (rule Cons.IH) (use Cons Cons.prems t1 p1 in \<open>simp_all add: add.assoc\<close>)
    ultimately show ?thesis using c byte_at_drop [OF t] arg_tag_nonzero [of a']
      by (subst check_tags.simps) (simp add: array_level_def add.assoc)
  qed
qed simp

lemma read_args_ok:
  "list_all arg_ok as \<Longrightarrow> drop t mem = map arg_tag as @ 0 # r \<Longrightarrow>
   drop p mem = concat (map arg_bytes as) @ r' \<Longrightarrow>
   read_args (length as) mem \<lparr>typeTagPtr = Some t, argumentPtr = p\<rparr> \<lparr>typeTagPtr = Some (t + length as), argumentPtr = z\<rparr>
     = Inr as"
proof (induction as arbitrary: t p)
  case (Cons a as)
  have t: "drop t mem = arg_tag a # map arg_tag as @ 0 # r" using Cons.prems(2) by simp
  from drop_step [of t mem "[arg_tag a]"] t have t1: "drop (t + 1) mem = map arg_tag as @ 0 # r" by simp
  have p: "drop p mem = arg_bytes a @ concat (map arg_bytes as) @ r'" using Cons.prems(3) by simp
  have ok: "arg_ok a" using Cons.prems(1) by simp
  show ?case
    using read_arg_ok [OF p ok t] advance_ok [OF p ok t] Cons.IH [OF _ t1 drop_step [OF p]] Cons.prems(1)
    by (simp add: IsEqualTo_def)
qed (simp add: IsEqualTo_def)

definition message_ok :: "lstr \<Rightarrow> osc_arg list \<Rightarrow> bool" where
  "message_ok a as \<longleftrightarrow> 0 \<notin> set a \<and> list_all arg_ok as \<and> array_level as = 0"

lemma tag_string_str4: "tag_string tags = str4 (ch CHR '','' # tags)"
proof -
  have "RoundUp4 (length tags + 2) - (length tags + 1) = Suc (RoundUp4 (length tags + 2) - (length tags + 2))"
    using round_up4(1) [of "length tags + 2"] by simp
  then show ?thesis by (simp add: tag_string_def str4_def padding_def)
qed

lemma str4_mod4: "length (str4 s) mod 4 = 0"
  by (simp add: length_str4 round_up4(2))

lemma arg_bytes_mod4: "length (arg_bytes a) mod 4 = 0"
proof (cases a)
  case (ABlob d)
  have "length (arg_bytes a) = RoundUp4 (length d) + 4" using ABlob length_padding [of "length d"] by simp
  then show ?thesis using round_up4(2) [of "length d"] by (simp add: mod_add_eq [of _ 4, symmetric] del: mod_add_eq)
qed (simp_all add: str4_mod4)

lemma message_mod4: "length (encode_message a as) mod 4 = 0"
proof -
  have "length (concat (map arg_bytes as)) mod 4 = 0"
    by (induction as) (simp_all add: mod_add_eq [symmetric] arg_bytes_mod4 del: mod_add_eq)
  then show ?thesis
    by (simp add: encode_message_def tag_string_str4 str4_mod4 mod_add_eq [symmetric] del: mod_add_eq)
qed

lemma message_received:
  assumes d: "drop m mem = encode_message a as @ r" and ok: "message_ok a as"
    and size: "length (encode_message a as) \<le> 0x7FFFFFFC"
  shows "\<exists>msg. ReceivedMessage_Init mem m (word_of_nat (length (encode_message a as))) = Inr msg \<and>
    read_message mem msg = Inr (a, as)"
proof -
  let ?n = "length (encode_message a as)" and ?pay = "concat (map arg_bytes as)" and ?tags = "map arg_tag as"
  let ?e = "m + ?n"
  have d1: "drop m mem = str4 a @ tag_string ?tags @ ?pay @ r" using d by (simp add: encode_message_def)
  let ?t = "m + length (str4 a)"
  have d2: "drop ?t mem = str4 (ch CHR '','' # ?tags) @ ?pay @ r" using drop_step [OF d1] by (simp add: tag_string_str4)
  let ?p = "?t + length (str4 (ch CHR '','' # ?tags))"
  note d3 = drop_step [OF d2]
  have e: "?e = ?p + length ?pay" by (simp add: encode_message_def tag_string_str4)
  have pos: "0 < ?n" by (simp add: encode_message_def str4_def)
  then have pos: "(word_of_nat ?n :: u32) \<noteq> 0" using valid_size [OF size] by auto
  note v = valid_size [OF size] multiple_of_4 [OF message_mod4]
  have f1: "FindStr4End mem m ?e = Inr (Some ?t)"
    using find_str4(2) [OF d1, of ?e] ok e by (simp add: message_ok_def add.assoc)
  have zt: "0 \<notin> set (ch CHR '','' # ?tags)" using arg_tag_nonzero by auto
  have f2: "FindStr4End mem ?t ?e = Inr (Some ?p)"
    using find_str4(2) [OF d2 zt, of ?e] e by (simp add: add.assoc)
  have t0: "byte_at mem ?t = Inr (ch CHR '','')" using d2 by (intro byte_at_drop) (simp add: str4_def)
  have dt: "drop (?t + 1) mem = ?tags @ 0 # padding (length as + 2) @ ?pay @ r"
    using drop_step [of ?t mem "[ch CHR '','']"] d2 by (simp add: str4_def)
  have ne: "?t \<noteq> ?e" using e by (simp add: str4_def)
  have addr: "c_string mem m = Inr a"
    using d1 ok by (intro c_string_drop) (simp_all add: message_ok_def str4_def)
  show ?thesis
  proof (cases "as = []")
    case True
    then have "byte_at mem (?t + 1) = Inr 0" using dt by (intro byte_at_drop) simp
    then have "ReceivedMessage_Init mem m (word_of_nat ?n) =
        Inr \<lparr>addressPattern = m, typeTagsBegin = None, typeTagsEnd = None, arguments_ptr = 0\<rparr>"
      using v pos f1 t0 ne by (simp add: ReceivedMessage_Init_def Let_def)
    with addr True show ?thesis
      by (simp add: read_message_def ArgumentCount_def ArgumentsBegin_def ArgumentsEnd_def IsEqualTo_def)
  next
    case False
    then obtain a0 as0 where as: "as = a0 # as0" by (cases as) auto
    then have t1: "byte_at mem (?t + 1) = Inr (arg_tag a0)" using dt by (intro byte_at_drop) simp
    have c: "check_tags mem ?e (?t + 1) ?p 0 = Inr (?t + 1 + length as, 0)"
      using check_tags_args [OF False _ dt d3, of ?e 0] ok e by (simp add: message_ok_def add.assoc)
    let ?m = "\<lparr>addressPattern = m, typeTagsBegin = Some (?t + 1), typeTagsEnd = Some (?t + 1 + length as), arguments_ptr = ?p\<rparr>"
    have i: "ReceivedMessage_Init mem m (word_of_nat ?n) = Inr ?m"
      using v pos f1 t0 ne t1 arg_tag_nonzero [of a0] f2 c by (simp add: ReceivedMessage_Init_def init_type_tags_def Let_def)
    have "length as \<le> ?n" by (simp add: encode_message_def tag_string_def)
    then have "unat (ArgumentCount ?m) = length as"
      using size by (simp add: ArgumentCount_def unsigned_of_nat take_bit_eq_mod)
    then have "read_message mem ?m = Inr (a, as)"
      using addr read_args_ok [OF _ dt d3, of 0] ok
      by (simp add: read_message_def ArgumentsBegin_def ArgumentsEnd_def message_ok_def)
    with i show ?thesis by blast
  qed
qed

subsection \<open>Bundles\<close>

text \<open>A client reads a packet: the elements of a bundle in turn, each a message or a bundle again.\<close>

primrec read_elements :: "nat \<Rightarrow> (nat \<Rightarrow> u32 \<Rightarrow> packet ores) \<Rightarrow> lstr \<Rightarrow> nat \<Rightarrow> nat \<Rightarrow> packet list ores" where
  "read_elements 0 f mem p e = (if p = e then Inr [] else Inl OscLoop)"
| "read_elements (Suc n) f mem p e =
     (if p = e then Inr []
      else ebind (element_Size mem p) (\<lambda>sz. ebind (f (element_Contents p) sz) (\<lambda>x.
           ebind (element_Advance mem p) (\<lambda>p. ebind (read_elements n f mem p e) (\<lambda>xs. Inr (x # xs))))))"

primrec decode :: "nat \<Rightarrow> lstr \<Rightarrow> nat \<Rightarrow> u32 \<Rightarrow> packet ores" where
  "decode 0 mem p sz = Inl OscLoop"
| "decode (Suc n) mem p sz =
     ebind (packet_IsBundle mem \<lparr>rp_contents = p, rp_size = sz\<rparr>) (\<lambda>bundle.
       if bundle then
         ebind (ReceivedBundle_Init mem p sz) (\<lambda>b.
         ebind (bundle_TimeTag mem b) (\<lambda>t.
         ebind (read_elements (unat (elementCount b)) (decode n mem) mem (ElementsBegin b) (ElementsEnd b))
           (\<lambda>ps. Inr (Bundle t ps))))
       else ebind (ReceivedMessage_Init mem p sz) (\<lambda>m.
            ebind (read_message mem m) (\<lambda>(a, as). Inr (Message a as))))"

definition receive :: "lstr \<Rightarrow> packet ores" where
  "receive mem =
     ebind (new_ReceivedPacket 0 (word_of_nat (length mem))) (\<lambda>p. decode (length mem) mem (rp_contents p) (rp_size p))"

fun packet_ok :: "packet \<Rightarrow> bool" where
  "packet_ok (Message a as) \<longleftrightarrow> message_ok a as \<and> (a = [] \<or> hd a \<noteq> ch CHR ''#'')"
| "packet_ok (Bundle t ps) \<longleftrightarrow> list_all packet_ok ps"

lemma sized_read:
  assumes "drop p mem = sized b @ r" "length b \<le> 0x7FFFFFFC"
  shows "ToUInt32 mem p = Inr (word_of_nat (length b))" "element_Size mem p = Inr (word_of_nat (length b))"
    "drop (p + 4) mem = b @ r" "element_Advance mem p = Inr (p + length (sized b))"
proof -
  have d: "drop p mem = FromUInt32 (word_of_nat (length b)) @ b @ r" using assms(1) by (simp add: sized_def)
  show "drop (p + 4) mem = b @ r" using drop_step [OF d] by simp
  show "ToUInt32 mem p = Inr (word_of_nat (length b))" "element_Size mem p = Inr (word_of_nat (length b))"
    using d read_word32(1,2) [of p mem "word_of_nat (length b)"] by (simp_all add: FromUInt32_def element_Size_def)
  then show "element_Advance mem p = Inr (p + length (sized b))"
    using valid_size [OF assms(2)] by (simp add: element_Advance_def element_Contents_def sized_def nat_add_distrib)
qed

lemma sized_not_Nil [simp]: "sized b \<noteq> []"
  by (simp add: sized_def FromUInt32_def)

lemma and_3_zero: "(x AND 3 \<noteq> (0 :: u32)) \<longleftrightarrow> unat x mod 4 \<noteq> 0"
  using multiple_of_4_iff [of x] by (simp add: IsMultipleOf4_def)

lemma bundle_elements_ok:
  "drop p mem = concat (map sized bs) @ r \<Longrightarrow> e = p + length (concat (map sized bs)) \<Longrightarrow>
   list_all (\<lambda>b. length b mod 4 = 0 \<and> length b \<le> 0x7FFFFFFC) bs \<Longrightarrow> length bs < n \<Longrightarrow>
   bundle_elements n mem e p c = Inr (e, c + word_of_nat (length bs))"
proof (induction bs arbitrary: n p c)
  case Nil
  then show ?case by (cases n) simp_all
next
  case (Cons b bs)
  obtain n' where n: "n = Suc n'" using Cons.prems(4) by (cases n) auto
  have d: "drop p mem = sized b @ concat (map sized bs) @ r" using Cons.prems(1) by simp
  have b: "length b mod 4 = 0" "length b \<le> 0x7FFFFFFC" using Cons.prems(3) by simp_all
  note z = sized_read [OF d b(2)]
  have w: "unat (word_of_nat (length b) :: u32) = length b" "unat (4 + word_of_nat (length b) :: u32) = 4 + length b"
    using b(2) by (simp_all add: unat_word_ariths unsigned_of_nat take_bit_eq_mod)
  have "bundle_elements n' mem e (p + length (sized b)) (c + 1) = Inr (e, c + 1 + word_of_nat (length bs))"
    by (rule Cons.IH) (use Cons.prems n drop_step [OF d] in simp_all)
  moreover have "p + 4 + length b \<le> e" using Cons.prems(2) by (simp add: sized_def)
  ultimately show ?case
    using z(1) b(1) w unfolding n bundle_elements.simps and_3_zero by (simp add: Let_def sized_def add.assoc)
qed

lemma read_elements_ok:
  "drop p mem = concat (map (\<lambda>p. sized (encode p)) ps) @ r \<Longrightarrow>
   (\<And>x q r'. x \<in> set ps \<Longrightarrow> drop q mem = encode x @ r' \<Longrightarrow> f q (word_of_nat (length (encode x))) = Inr x) \<Longrightarrow>
   list_all (\<lambda>x. length (encode x) \<le> 0x7FFFFFFC) ps \<Longrightarrow>
   read_elements (length ps) f mem p (p + length (concat (map (\<lambda>p. sized (encode p)) ps))) = Inr ps"
proof (induction ps arbitrary: p)
  case (Cons x ps)
  have d: "drop p mem = sized (encode x) @ concat (map (\<lambda>p. sized (encode p)) ps) @ r" using Cons.prems(1) by simp
  note z = sized_read [OF d]
  have "f (p + 4) (word_of_nat (length (encode x))) = Inr x" using Cons.prems(2,3) z(3) by simp
  moreover have "read_elements (length ps) f mem (p + length (sized (encode x)))
      (p + length (sized (encode x)) + length (concat (map (\<lambda>p. sized (encode p)) ps))) = Inr ps"
    by (rule Cons.IH) (use Cons.prems drop_step [OF d] in simp_all)
  ultimately show ?case
    using z Cons.prems(3) by (simp add: element_Contents_def add.assoc)
qed simp

lemma encode_mod4: "length (encode p) mod 4 = 0"
proof (induction p rule: encode.induct)
  case (2 t ps)
  have "length (concat (map (\<lambda>p. sized (encode p)) ps)) mod 4 = 0"
    using 2
  proof (induction ps)
    case (Cons p ps)
    have "length (sized (encode p)) mod 4 = 0" using Cons.prems [of p] by (simp add: sized_def)
    with Cons show ?case by (simp add: mod_add_eq [symmetric] del: mod_add_eq)
  qed simp
  then show ?case by (simp add: mod_add_eq [symmetric] del: mod_add_eq)
qed (simp add: message_mod4)

lemma encode_bytes: "encode p \<noteq> []" "packet_ok p \<Longrightarrow> hd (encode p) = ch CHR ''#'' \<longleftrightarrow> (\<exists>t ps. p = Bundle t ps)"
  by (cases p; auto simp: encode_message_def str4_def BundleTag_def lit_def hd_append)+

lemma element_length: "x \<in> set ps \<Longrightarrow> length (encode x) + 16 < length (encode (Bundle t ps))"
proof -
  assume "x \<in> set ps"
  then have "length (sized (encode x)) \<le> length (concat (map (\<lambda>p. sized (encode p)) ps))"
    by (induction ps) auto
  then show ?thesis by (simp add: sized_def)
qed

lemma count_le: "length ps \<le> length (concat (map (\<lambda>p. sized (encode p)) ps))"
  by (induction ps) (auto simp: sized_def)

lemma decode_encode:
  "drop m mem = encode p @ r \<Longrightarrow> packet_ok p \<Longrightarrow> length (encode p) \<le> n \<Longrightarrow> length (encode p) \<le> 0x7FFFFFFC \<Longrightarrow>
   decode n mem m (word_of_nat (length (encode p))) = Inr p"
proof (induction n arbitrary: m p r)
  case 0
  then show ?case using encode_bytes(1) [of p] by simp
next
  case (Suc n)
  let ?sz = "word_of_nat (length (encode p)) :: u32"
  note v = valid_size [OF Suc.prems(4)]
  obtain c bs where c: "encode p = c # bs" using encode_bytes(1) by (cases "encode p") auto
  then have "byte_at mem m = Inr c" using Suc.prems(1) by (intro byte_at_drop) simp
  then have b: "packet_IsBundle mem \<lparr>rp_contents = m, rp_size = ?sz\<rparr> = Inr (\<exists>t ps. p = Bundle t ps)"
    using v c encode_bytes(2) [OF Suc.prems(2)] by (simp add: packet_IsBundle_def)
  show ?case
  proof (cases p)
    case (Message a as)
    from message_received [of m mem a as r] Suc.prems Message obtain msg where
      "ReceivedMessage_Init mem m ?sz = Inr msg" "read_message mem msg = Inr (a, as)" by auto
    with b Message show ?thesis by simp
  next
    case (Bundle t ps)
    let ?bs = "map encode ps" and ?body = "concat (map (\<lambda>p. sized (encode p)) ps)"
    have d: "drop m mem = BundleTag @ FromUInt64 t @ ?body @ r" using Suc.prems(1) Bundle by simp
    note d8 = drop_step [OF d]
    then have d8: "drop (m + 8) mem = FromUInt64 t @ ?body @ r" by simp
    from drop_step [OF this] have d16: "drop (m + 16) mem = ?body @ r" by (simp add: add.commute [of m])
    have len: "length (encode p) = 16 + length ?body" using Bundle by simp
    have small: "length (encode x) \<le> 0x7FFFFFFC" "length (encode x) \<le> n" if "x \<in> set ps" for x
      using element_length [OF that, of t] Suc.prems(3,4) Bundle by simp_all
    have u: "unat ?sz = length (encode p)" using Suc.prems(4) by (simp only: unsigned_of_nat take_bit_eq_mod) simp
    have "list_all (\<lambda>b. length b mod 4 = 0 \<and> length b \<le> 0x7FFFFFFC) ?bs"
      using small(1) encode_mod4 by (simp add: list_all_iff)
    then have e: "bundle_elements (unat ?sz) mem (m + length (encode p)) (m + 16) 0 =
        Inr (m + length (encode p), word_of_nat (length ps))"
      unfolding u using bundle_elements_ok [of "m + 16" mem ?bs r "m + length (encode p)" "length (encode p)" 0]
        d16 len count_le [of ps] by (simp add: comp_def add.assoc)
    let ?b = "\<lparr>timeTag_ptr = m + 8, bundle_end = m + length (encode p), elementCount = word_of_nat (length ps)\<rparr>"
    have "BundleTag \<noteq> []" by (simp add: BundleTag_def)
    from bytes_at_drop [OF d this] have "bytes_at mem m 8 = Inr BundleTag" by simp
    then have i: "ReceivedBundle_Init mem m ?sz = Inr ?b"
      using v multiple_of_4 [OF encode_mod4, of p] e len by (simp add: ReceivedBundle_Init_def Let_def nat_add_distrib)
    have t: "bundle_TimeTag mem ?b = Inr t"
      using d8 read_word64(2) [of "m + 8" mem t] by (simp add: bundle_TimeTag_def FromUInt64_def)
    have "unat (word_of_nat (length ps) :: u32) = length ps"
      using count_le [of ps] len Suc.prems(4) by (simp add: unsigned_of_nat take_bit_eq_mod)
    moreover have "read_elements (length ps) (decode n mem) mem (m + 16) (m + 16 + length ?body) = Inr ps"
      by (rule read_elements_ok [OF d16])
        (use Suc.IH Suc.prems(2) Bundle small in \<open>auto simp: list_all_iff\<close>)
    ultimately show ?thesis
      using b i t Bundle len by (simp add: ElementsBegin_def ElementsEnd_def add.assoc)
  qed
qed

lemma receive_encode:
  assumes "packet_ok p" "length (encode p) \<le> 0x7FFFFFFC"
  shows "receive (encode p) = Inr p"
proof -
  note v = valid_size [OF assms(2)]
  have "(word_of_nat (length (encode p)) :: u32) \<noteq> 0" using v encode_bytes(1) [of p] by auto
  then have "new_ReceivedPacket 0 (word_of_nat (length (encode p))) =
      Inr \<lparr>rp_contents = 0, rp_size = word_of_nat (length (encode p))\<rparr>"
    using v multiple_of_4 [OF encode_mod4, of p] by (simp add: new_ReceivedPacket_def ValidateSize_def)
  then show ?thesis
    using decode_encode [of 0 "encode p" p "[]" "length (encode p)"] assms by (simp add: receive_def)
qed

end
