(* ===== verification/OscCheck.thy ===== *)
theory OscCheck
  imports OscReceive
begin

text \<open>
  Arbitrary packets.  A message that \<^verbatim>\<open>ReceivedMessage::Init\<close> accepts can be read without leaving the
  packet as long as it has no blob; the check of blobs throws nothing and lets any size pass.
  \<^verbatim>\<open>ReceivedBundle::Init\<close> accepts only bundles whose elements fill them exactly, and does not end
  when an element has the size \<open>2 ^ 32 - 4\<close>.
\<close>

section \<open>Strings\<close>

lemma byte_at_in [simp]: "p < length mem \<Longrightarrow> byte_at mem p = Inr (mem ! p)"
  by (simp add: byte_at_def)

lemma bytes_at_in [simp]: "p + n \<le> length mem \<Longrightarrow> bytes_at mem p n = Inr (take n (drop p mem))"
  by (simp add: bytes_at_def)

lemma c_string_safe: "p \<le> i \<Longrightarrow> i < length mem \<Longrightarrow> mem ! i = 0 \<Longrightarrow> osafe (c_string mem p) (\<lambda>s. True)"
proof (induction "i - p" arbitrary: p)
  case 0
  then show ?case by (subst c_string.simps) simp
next
  case (Suc n)
  then have "osafe (c_string mem (p + 1)) (\<lambda>s. True)" by (intro Suc.hyps) simp_all
  then have "osafe (ebind (c_string mem (p + 1)) (\<lambda>s. Inr (mem ! p # s))) (\<lambda>s. True)" by (rule osafe_bind) simp
  then show ?case using Suc.prems by (subst c_string.simps) simp
qed

definition string_ends :: "lstr \<Rightarrow> nat \<Rightarrow> nat \<Rightarrow> nat \<Rightarrow> bool" where
  "string_ends mem p e q \<longleftrightarrow> p < q \<and> q \<le> e \<and> 4 dvd e - q \<and> (\<exists>i. p \<le> i \<and> i < q \<and> mem ! i = 0) \<and>
     FindStr4End_unchecked mem p = Inr q"

lemma osafe_bind_eq: "osafe m P \<Longrightarrow> (\<And>x. P x \<Longrightarrow> m = Inr x \<Longrightarrow> osafe (f x) Q) \<Longrightarrow> osafe (ebind m f) Q"
  by (cases m) (auto simp: osafe_def [of "Inl _"] split: osc_error.splits)

lemma scan4_end_safe:
  "i + 4 * k + 1 = e \<Longrightarrow> e \<le> length mem \<Longrightarrow>
   osafe (scan4_end mem i (e - 1)) (\<lambda>r. \<forall>q. r = Some q \<longrightarrow>
     i < q \<and> q \<le> e \<and> 4 dvd e - q \<and> mem ! (q - 1) = 0 \<and> scan4 mem i = Inr q)"
proof (induction k arbitrary: i)
  case 0
  then show ?case by (subst scan4_end.simps, subst scan4.simps) auto
next
  case (Suc k)
  have "e - (i + 1) = 4 * Suc k" using Suc.prems by linarith
  then have "4 dvd e - (i + 1)" by (rule dvdI)
  then have i: "i < e - 1" "i < length mem" "4 dvd e - (i + 1)" using Suc.prems by simp_all
  show ?case
  proof (cases "mem ! i = 0")
    case True
    have "scan4_end mem i (e - 1) = Inr (Some (i + 1))" using True i by (subst scan4_end.simps) simp
    moreover have "scan4 mem i = Inr (i + 1)" using True i by (subst scan4.simps) simp
    ultimately show ?thesis using True i by simp
  next
    case False
    have r: "scan4_end mem i (e - 1) = scan4_end mem (i + 4) (e - 1)" using False i by (subst scan4_end.simps) simp
    have u: "scan4 mem i = scan4 mem (i + 4)" using False i by (subst scan4.simps) simp
    have "i + 4 + 4 * k + 1 = e" using Suc.prems(1) by simp
    from Suc.IH [OF this Suc.prems(2)] show ?thesis
      unfolding r u
    proof (rule osafe_weaken, intro allI impI)
      fix x q assume x: "\<forall>q. x = Some q \<longrightarrow> i + 4 < q \<and> q \<le> e \<and> 4 dvd e - q \<and> mem ! (q - 1) = 0 \<and> scan4 mem (i + 4) = Inr q"
        and q: "x = Some q"
      then have "i + 4 < q" by blast
      then have "i < q" by simp
      with x q show "i < q \<and> q \<le> e \<and> 4 dvd e - q \<and> mem ! (q - 1) = 0 \<and> scan4 mem (i + 4) = Inr q" by blast
    qed
  qed
qed

lemma FindStr4End_safe:
  assumes "p \<le> e" "4 dvd e - p" "e \<le> length mem"
  shows "osafe (FindStr4End mem p e) (\<lambda>r. \<forall>q. r = Some q \<longrightarrow> string_ends mem p e q)"
proof (cases "p = e")
  case True
  then show ?thesis by (simp add: FindStr4End_def)
next
  case False
  obtain k' where "e - p = 4 * k'" using assms(2) by (rule dvdE)
  with assms(1) have e: "e = p + 4 * k'" by linarith
  with False obtain k where "k' = Suc k" by (cases k') auto
  with e have k: "p + 3 + 4 * k + 1 = e" by simp
  show ?thesis
  proof (cases "mem ! p = 0")
    case True
    moreover have "e - (p + 4) = 4 * k" using k by linarith
    then have "4 dvd e - (p + 4)" by (rule dvdI)
    ultimately show ?thesis
      using k assms(3) by (auto simp: FindStr4End_def FindStr4End_unchecked_def string_ends_def)
  next
    case nz: False
    have "FindStr4End mem p e = scan4_end mem (p + 3) (e - 1)" using nz k assms(3) by (simp add: FindStr4End_def)
    moreover have "string_ends mem p e q" if q: "p + 3 < q" "q \<le> e" "4 dvd e - q" "mem ! (q - 1) = 0"
      "scan4 mem (p + 3) = Inr q" for q
    proof -
      have "p \<le> q - 1" "q - 1 < q" using q(1) by simp_all
      then show ?thesis using q nz k assms(3) by (auto simp: string_ends_def FindStr4End_unchecked_def)
    qed
    ultimately show ?thesis using scan4_end_safe [OF k assms(3)] by (auto elim: osafe_weaken)
  qed
qed

section \<open>Messages\<close>

text \<open>One tag: the reads that its argument needs stay inside, and the iterator follows the check.\<close>

lemma skip_argument_safe: "p \<le> e \<Longrightarrow> 4 dvd e - p \<Longrightarrow> 4 dvd n \<Longrightarrow>
   osafe (skip_argument e n p) (\<lambda>q. q = p + n \<and> q \<le> e \<and> 4 dvd e - q)"
  using dvd_diff_nat [of 4 "e - p" n] by (simp add: skip_argument_def throw_if_def)

definition argument_readable :: "lstr \<Rightarrow> nat \<Rightarrow> nat \<Rightarrow> nat \<Rightarrow> bool" where
  "argument_readable mem t p q \<longleftrightarrow>
     osafe (read_arg mem \<lparr>typeTagPtr = Some t, argumentPtr = p\<rparr>) (\<lambda>a. True) \<and>
     Advance mem \<lparr>typeTagPtr = Some t, argumentPtr = p\<rparr> = Inr \<lparr>typeTagPtr = Some (t + 1), argumentPtr = q\<rparr>"

lemma check_tag_safe:
  assumes t: "t < length mem" "mem ! t \<noteq> ch CHR ''b''" and p: "p \<le> e" "4 dvd e - p" and e: "e \<le> length mem"
  shows "osafe (check_tag mem e (mem ! t) p l) (\<lambda>(q, l'). q \<le> e \<and> 4 dvd e - q \<and> argument_readable mem t p q)"
proof -
  let ?tag = "mem ! t"
  note defs = argument_readable_def read_arg_def TypeTag_def present_tag_def Advance_def
  have four: "osafe (ebind (skip_argument e 4 p) (\<lambda>a. Inr (a, l)))
      (\<lambda>(q, l'). q \<le> e \<and> 4 dvd e - q \<and> argument_readable mem t p q)" if "?tag \<in> set (lit ''ifcrm'')"
  proof (rule osafe_bind [OF skip_argument_safe [OF p]])
    fix q assume q: "q = p + 4 \<and> q \<le> e \<and> 4 dvd e - q"
    then have "p + 4 \<le> length mem" using e by simp
    then show "osafe (Inr (q, l)) (\<lambda>(q, l'). q \<le> e \<and> 4 dvd e - q \<and> argument_readable mem t p q)"
      using that q t(1) by (auto simp: lit_def defs AsInt32_def AsInt32Unchecked_def AsFloat_def AsFloatUnchecked_def
        AsChar_def AsCharUnchecked_def AsRgbaColor_def AsRgbaColorUnchecked_def AsMidiMessage_def
        AsMidiMessageUnchecked_def ToInt32_def ToUInt32_def)
  qed simp
  have eight: "osafe (ebind (skip_argument e 8 p) (\<lambda>a. Inr (a, l)))
      (\<lambda>(q, l'). q \<le> e \<and> 4 dvd e - q \<and> argument_readable mem t p q)" if "?tag \<in> set (lit ''htd'')"
  proof (rule osafe_bind [OF skip_argument_safe [OF p]])
    fix q assume q: "q = p + 8 \<and> q \<le> e \<and> 4 dvd e - q"
    then have "p + 8 \<le> length mem" using e by simp
    then show "osafe (Inr (q, l)) (\<lambda>(q, l'). q \<le> e \<and> 4 dvd e - q \<and> argument_readable mem t p q)"
      using that q t(1) by (auto simp: lit_def defs AsInt64_def AsInt64Unchecked_def AsTimeTag_def AsTimeTagUnchecked_def
        AsDouble_def AsDoubleUnchecked_def ToInt64_def ToUInt64_def)
  qed simp
  have str: "osafe (ebind (throw_if (p = e) arguments_exceed) (\<lambda>_. ebind (FindStr4End mem p e) (\<lambda>r. case r of
        None \<Rightarrow> Inl (Throw (MalformedMessage ''unterminated string argument'')) | Some a \<Rightarrow> Inr (a, l))))
      (\<lambda>(q, l'). q \<le> e \<and> 4 dvd e - q \<and> argument_readable mem t p q)" if "?tag \<in> set (lit ''sS'')"
  proof (rule osafe_throw_if, rule osafe_bind [OF FindStr4End_safe [OF p e]])
    fix r assume r: "\<forall>q. r = Some q \<longrightarrow> string_ends mem p e q"
    show "osafe (case r of None \<Rightarrow> Inl (Throw (MalformedMessage ''unterminated string argument'')) | Some a \<Rightarrow> Inr (a, l))
        (\<lambda>(q, l'). q \<le> e \<and> 4 dvd e - q \<and> argument_readable mem t p q)"
    proof (cases r)
      case (Some q)
      then have q: "string_ends mem p e q" using r by simp
      then obtain i where i: "p \<le> i" "i < length mem" "mem ! i = 0" using e by (auto simp: string_ends_def)
      have "osafe (ebind (c_string mem p) (\<lambda>s. Inr (f s))) (\<lambda>a. True)" for f :: "lstr \<Rightarrow> osc_arg"
        by (rule osafe_bind [OF c_string_safe [OF i]]) simp
      then show ?thesis using Some q that t(1)
        by (auto simp: string_ends_def lit_def defs AsString_def AsSymbol_def)
    qed simp
  qed
  have zero: "argument_readable mem t p p" if "?tag \<in> set (lit ''TFNI'') \<or> ?tag = ch CHR ''['' \<or> ?tag = ch CHR '']''"
    using that t(1) by (auto simp: lit_def defs AsBool_def)
  show ?thesis
    unfolding check_tag_def using four eight str zero p t(2) by simp
qed

text \<open>The type tags of a message, as far as a terminator.\<close>

definition tags_at :: "lstr \<Rightarrow> nat \<Rightarrow> lstr" where "tags_at mem t = takeWhile (\<lambda>c. c \<noteq> 0) (drop t mem)"

lemma tags_at_Cons: "t < length mem \<Longrightarrow> mem ! t \<noteq> 0 \<Longrightarrow> tags_at mem t = mem ! t # tags_at mem (t + 1)"
  by (simp add: tags_at_def Cons_nth_drop_Suc [symmetric])

lemma tags_at_Nil: "t < length mem \<Longrightarrow> mem ! t = 0 \<Longrightarrow> tags_at mem t = []"
  by (simp add: tags_at_def Cons_nth_drop_Suc [symmetric])

text \<open>The two passes over the tags, of the check and of a reader, agree.\<close>

inductive readable :: "lstr \<Rightarrow> nat \<Rightarrow> nat \<Rightarrow> nat \<Rightarrow> bool" for mem where
  readable_end: "readable mem t t p"
| readable_step: "argument_readable mem t p q \<Longrightarrow> readable mem (t + 1) t' q \<Longrightarrow> readable mem t t' p"

lemma readable_le: "readable mem t t' p \<Longrightarrow> t \<le> t'"
  by (induction rule: readable.induct) simp_all

lemma read_args_safe:
  "readable mem t t' p \<Longrightarrow> n = t' - t \<Longrightarrow>
   osafe (read_args n mem \<lparr>typeTagPtr = Some t, argumentPtr = p\<rparr> \<lparr>typeTagPtr = Some t', argumentPtr = z\<rparr>) (\<lambda>as. True)"
proof (induction t t' p arbitrary: n rule: readable.induct)
  case (readable_end t p)
  then show ?case by (simp add: IsEqualTo_def)
next
  case (readable_step t p q t')
  have "t + 1 \<le> t'" by (rule readable_le [OF readable_step.hyps(2)])
  then obtain m where m: "n = Suc m" "m = t' - (t + 1)" "t \<noteq> t'" using readable_step.prems by (cases n) auto
  let ?x = "\<lparr>typeTagPtr = Some t, argumentPtr = p\<rparr>" and ?e = "\<lparr>typeTagPtr = Some t', argumentPtr = z\<rparr>"
  have r: "osafe (read_arg mem ?x) (\<lambda>a. True)" "Advance mem ?x = Inr \<lparr>typeTagPtr = Some (t + 1), argumentPtr = q\<rparr>"
    using readable_step.hyps(1) by (simp_all add: argument_readable_def)
  have "osafe (ebind (read_args m mem \<lparr>typeTagPtr = Some (t + 1), argumentPtr = q\<rparr> ?e) (\<lambda>as. Inr (a # as))) (\<lambda>as. True)" for a
    by (rule osafe_bind [OF readable_step.IH [OF m(2)]]) simp
  then have "osafe (ebind (read_arg mem ?x) (\<lambda>a. ebind (Advance mem ?x) (\<lambda>x.
      ebind (read_args m mem x ?e) (\<lambda>as. Inr (a # as))))) (\<lambda>as. True)"
    by (intro osafe_bind [OF r(1)]) (simp add: r(2))
  then show ?case using m by (simp add: IsEqualTo_def)
qed

lemma check_tags_safe:
  "ch CHR ''b'' \<notin> set (tags_at mem t) \<Longrightarrow> t \<le> z \<Longrightarrow> mem ! t \<noteq> 0 \<Longrightarrow>
   p \<le> e \<Longrightarrow> 4 dvd e - p \<Longrightarrow> e \<le> length mem \<Longrightarrow>
   z < length mem \<Longrightarrow> mem ! z = 0 \<Longrightarrow>
   osafe (check_tags mem e t p l) (\<lambda>(t', l'). readable mem t t' p \<and> t' \<le> z)"
proof (induction "length mem - t" arbitrary: t p l)
  case 0
  then show ?case by auto
next
  case (Suc n)
  have t: "t < length mem" using Suc.hyps(2) by simp
  have z: "t + 1 \<le> z" using Suc.prems(2,3,8) by (cases "t = z") auto
  then have t1: "t + 1 < length mem" using Suc.prems(7) by simp
  note tags = tags_at_Cons [OF t Suc.prems(3)]
  have nb: "mem ! t \<noteq> ch CHR ''b''" "ch CHR ''b'' \<notin> set (tags_at mem (t + 1))" using Suc.prems(1) tags by auto
  have "osafe (ebind (check_tag mem e (mem ! t) p l) (\<lambda>(argument, arrayLevel).
     ebind (byte_at mem (t + 1)) (\<lambda>c. if c \<noteq> 0 then check_tags mem e (t + 1) argument arrayLevel
       else Inr (t + 1, arrayLevel)))) (\<lambda>(t', l'). readable mem t t' p \<and> t' \<le> z)"
  proof (rule osafe_bind [OF check_tag_safe [OF t nb(1) Suc.prems(4-6)]], clarify)
    fix q l' assume q: "q \<le> e" "4 dvd e - q" "argument_readable mem t p q"
    show "osafe (ebind (byte_at mem (t + 1)) (\<lambda>c. if c \<noteq> 0 then check_tags mem e (t + 1) q l'
       else Inr (t + 1, l'))) (\<lambda>(t', l'). readable mem t t' p \<and> t' \<le> z)"
    proof (cases "mem ! (t + 1) = 0")
      case True
      then show ?thesis using t1 z readable_step [OF q(3) readable_end] by simp
    next
      case False
      have "n = length mem - (t + 1)" using Suc.hyps(2) by simp
      from Suc.hyps(1) [OF this nb(2) z False q(1,2) Suc.prems(6-8), of l'] show ?thesis
        using False t1 by (auto elim!: osafe_weaken intro: readable_step [OF q(3)])
    qed
  qed
  then show ?case using t by (subst check_tags.simps) simp
qed

text \<open>No type tag of the message is that of a blob.\<close>

definition no_blob :: "lstr \<Rightarrow> nat \<Rightarrow> u32 \<Rightarrow> bool" where
  "no_blob mem m sz \<longleftrightarrow> (case FindStr4End mem m (m + nat (sint sz)) of
     Inr (Some t) \<Rightarrow> ch CHR ''b'' \<notin> set (tags_at mem t) | _ \<Rightarrow> True)"

lemma valid_unat: "IsValidElementSizeValue sz \<Longrightarrow> nat (sint sz) = unat sz"
proof -
  assume v: "IsValidElementSizeValue sz"
  then have "take_bit 32 (sint sz) = sint sz"
    by (intro take_bit_int_eq_self) (simp_all add: IsValidElementSizeValue_def OSC_BUNDLE_ELEMENT_SIZE_MAX_def)
  then have "uint sz = sint sz" using uint_sint [of sz] by simp
  then show ?thesis by (simp flip: nat_uint_eq)
qed

abbreviation message_readable :: "lstr \<Rightarrow> ReceivedMessage ores \<Rightarrow> bool" where
  "message_readable mem r \<equiv> osafe r (\<lambda>msg. osafe (read_message mem msg) (\<lambda>x. True))"

lemma init_type_tags_safe:
  assumes t: "t \<le> e" "4 dvd e - t" and e: "e \<le> length mem" "e < m + 2 ^ 32" and m: "m \<le> t"
    and nz: "mem ! t \<noteq> 0" "mem ! (t + 1) \<noteq> 0" and nb: "ch CHR ''b'' \<notin> set (tags_at mem (t + 1))"
    and addr: "osafe (c_string mem m) (\<lambda>s. True)"
  shows "message_readable mem (init_type_tags mem m e t)"
  unfolding init_type_tags_def
proof (rule osafe_bind [OF FindStr4End_safe [OF t e(1)]], goal_cases)
  case (1 r)
  show ?case
  proof (cases r)
    case (Some p)
    with 1 have p: "string_ends mem t e p" by simp
    then obtain z where z: "t \<le> z" "z < p" "mem ! z = 0" by (auto simp: string_ends_def)
    have zt: "t + 1 \<le> z" using z nz(1) by (cases "z = t") auto
    have pe: "p \<le> e" "4 dvd e - p" using p by (simp_all add: string_ends_def)
    have zl: "z < length mem" using z pe e by simp
    show ?thesis
      unfolding Some option.case
    proof (rule osafe_bind [OF check_tags_safe [OF nb zt nz(2) pe e(1) zl z(3)]], clarify, intro osafe_throw_if)
      fix t' assume rd: "readable mem (t + 1) t' p" "t' \<le> z"
      let ?m = "\<lparr>addressPattern = m, typeTagsBegin = Some (t + 1), typeTagsEnd = Some t', arguments_ptr = p\<rparr>"
      have "t' - (t + 1) < 2 ^ 32" using rd(2) z(2) pe(1) e(2) m by simp
      then have "unat (ArgumentCount ?m) = t' - (t + 1)"
        by (simp add: ArgumentCount_def unsigned_of_nat take_bit_eq_mod)
      moreover have "osafe (ebind (c_string mem m) (\<lambda>a. ebind (read_args (t' - (t + 1)) mem
          \<lparr>typeTagPtr = Some (t + 1), argumentPtr = p\<rparr> \<lparr>typeTagPtr = Some t', argumentPtr = 0\<rparr>)
          (\<lambda>as. Inr (a, as)))) (\<lambda>x. True)"
        by (rule osafe_bind [OF addr], rule osafe_bind [OF read_args_safe [OF rd(1) refl]]) simp
      ultimately have "osafe (read_message mem ?m) (\<lambda>x. True)"
        by (simp add: read_message_def ArgumentsBegin_def ArgumentsEnd_def)
      then show "message_readable mem (Inr ?m)" by simp
    qed
  qed simp
qed

lemma message_safe:
  assumes sz: "m + nat (sint sz) \<le> length mem" and nb: "no_blob mem m sz"
  shows "message_readable mem (ReceivedMessage_Init mem m sz)"
  unfolding ReceivedMessage_Init_def Let_def
proof (intro osafe_throw_if, goal_cases)
  case 1
  let ?e = "m + nat (sint sz)"
  have v: "nat (sint sz) = unat sz" "4 dvd ?e - m" using 1 valid_unat multiple_of_4_iff [of sz] by auto
  have "m \<le> ?e" by simp
  from FindStr4End_safe [OF this v(2) sz] show ?case
  proof (rule osafe_bind_eq, goal_cases)
    case (1 r)
    show ?case
    proof (cases r)
      case (Some t)
      then have t: "string_ends mem m ?e t" using 1 by simp
      then obtain i where "m \<le> i" "i < length mem" "mem ! i = 0" using sz by (auto simp: string_ends_def)
      then have addr: "osafe (c_string mem m) (\<lambda>s. True)" by (rule c_string_safe)
      have read: "osafe (ebind (c_string mem m) (\<lambda>a. Inr (a, []))) (\<lambda>x. True)" by (rule osafe_bind [OF addr]) simp
      have none: "message_readable mem (Inr \<lparr>addressPattern = m, typeTagsBegin = None, typeTagsEnd = None, arguments_ptr = 0\<rparr>)"
        using read
        by (simp add: read_message_def ArgumentCount_def ArgumentsBegin_def ArgumentsEnd_def IsEqualTo_def)
      show ?thesis
      proof (cases "t = ?e")
        case False
        have te: "t \<le> ?e" "4 dvd ?e - t" using t by (simp_all add: string_ends_def)
        from te(2) obtain k where "?e - t = 4 * k" by (rule dvdE)
        with False te(1) have "t + 4 \<le> ?e" by (cases k) simp_all
        note te = this te(2)
        then have len: "t < length mem" "t + 1 < length mem" using sz by simp_all
        have "message_readable mem (init_type_tags mem m ?e t)" if c: "mem ! t = ch CHR '',''" "mem ! (t + 1) \<noteq> 0"
        proof (rule init_type_tags_safe [OF _ te(2) sz _ _ _ c(2) _ addr])
          show "t \<le> ?e" "m \<le> t" "mem ! t \<noteq> 0" using te t c by (simp_all add: string_ends_def)
          show "?e < m + 2 ^ 32" using v(1) unsigned_less [of sz, where 'a = nat] by simp
          show "ch CHR ''b'' \<notin> set (tags_at mem (t + 1))"
            using nb 1(2) Some tags_at_Cons [OF len(1)] c(1) by (simp add: no_blob_def)
        qed
        with none len False Some show ?thesis by (auto simp: throw_if_def)
      qed (use Some none in simp)
    qed simp
  qed
qed

section \<open>Blobs\<close>

text \<open>
  The two exceptions of the blob case are created and dropped, so a blob may claim any size.  The
  packet has the address \<^verbatim>\<open>/a\<close> and one blob of \<open>100\<close> bytes, of which none is there.
\<close>

definition blob_packet :: lstr where
  "blob_packet = [47, 97, 0, 0, 44, 98, 0, 0, 0, 0, 0, 100]"

lemma blob_packet_accepted:
  "ReceivedMessage_Init blob_packet 0 12 =
     Inr \<lparr>addressPattern = 0, typeTagsBegin = Some 5, typeTagsEnd = Some 6, arguments_ptr = 8\<rparr>"
  unfolding blob_packet_def by code_simp

lemma blob_packet_unsafe:
  "read_message blob_packet \<lparr>addressPattern = 0, typeTagsBegin = Some 5, typeTagsEnd = Some 6, arguments_ptr = 8\<rparr>
     = Inl (OscUB ''read outside the packet'')"
  unfolding blob_packet_def by code_simp

section \<open>Arrays\<close>

text \<open>
  \<^verbatim>\<open>ComputeArrayItemCount\<close> does not count a nested array as one item, as its declaration says, but
  not at all.  The tags are \<^verbatim>\<open>[i[ii]]\<close>.
\<close>

lemma nested_array_not_counted:
  "ComputeArrayItemCount (lit ''[i[ii]]'' @ [0]) \<lparr>typeTagPtr = Some 0, argumentPtr = 8\<rparr> = Inr 1"
  by code_simp

section \<open>Bundles\<close>

text \<open>The sizes of the elements that fill the bytes from \<open>p\<close> to \<open>e\<close>.\<close>

primrec elements_at :: "lstr \<Rightarrow> nat \<Rightarrow> nat \<Rightarrow> u32 list \<Rightarrow> bool" where
  "elements_at mem e p [] \<longleftrightarrow> p = e"
| "elements_at mem e p (z # zs) \<longleftrightarrow> ToUInt32 mem p = Inr z \<and> z AND 3 = 0 \<and> elements_at mem e (p + 4 + unat z) zs"

text \<open>The one size whose sum with that of its field is zero.\<close>

definition looping_size :: u32 where "looping_size = 0xFFFFFFFC"

definition has_looping_size :: "lstr \<Rightarrow> nat \<Rightarrow> nat \<Rightarrow> bool" where
  "has_looping_size mem p e \<longleftrightarrow> list_ex (\<lambda>q. ToUInt32 mem q = Inr looping_size) [p..<e]"

lemma and_3_dvd: "(z :: u32) AND 3 = 0 \<longleftrightarrow> 4 dvd unat z"
  using multiple_of_4_iff [of z] by (simp add: IsMultipleOf4_def dvd_eq_mod_eq_0)

lemma step_size:
  assumes "(z :: u32) AND 3 = 0" "z \<noteq> looping_size"
  shows "unat (4 + z) = 4 + unat z"
proof -
  obtain k where k: "unat z = 4 * k" using assms(1) by (auto simp: and_3_dvd)
  have "unat z < 2 ^ 32" using unsigned_less [of z, where 'a = nat] by simp
  then have "k < 2 ^ 30" using k by simp
  moreover have "k \<noteq> 2 ^ 30 - 1"
  proof
    assume "k = 2 ^ 30 - 1"
    then have "unat z = unat looping_size" using k by (simp add: looping_size_def)
    with assms(2) show False by (simp only: word_unat_eq_iff)
  qed
  ultimately show ?thesis using k by (simp add: unat_word_ariths)
qed

lemma elements_le: "elements_at mem e p zs \<Longrightarrow> p \<le> e"
proof (induction zs arbitrary: p)
  case (Cons z zs)
  then have "p + 4 + unat z \<le> e" by simp
  then show ?case by simp
qed simp

text \<open>The result of the loop is a partition; the fuel is enough unless a size is the looping one.\<close>

lemma bundle_elements_safe:
  assumes "e \<le> length mem" "\<not> has_looping_size mem b e"
  shows "b \<le> p \<Longrightarrow> p \<le> e \<Longrightarrow> e - p < 4 * n \<Longrightarrow>
    osafe (bundle_elements n mem e p c) (\<lambda>(q, c'). q = e \<and> (\<exists>zs. elements_at mem e p zs \<and> c' = c + word_of_nat (length zs)))"
proof (induction n arbitrary: p c)
  case (Suc n)
  show ?case
  proof (cases "p < e")
    case False
    then show ?thesis using Suc.prems by (auto intro: exI [of _ "[]"])
  next
    case True
    have read: "osafe (ToUInt32 mem p) (\<lambda>z. ToUInt32 mem p = Inr z)" if "p + 4 \<le> e"
      using that assms(1) by (simp add: ToUInt32_def)
    have "osafe (ebind (throw_if (e < p + 4) (MalformedBundle ''packet too short for elementSize'')) (\<lambda>_.
        ebind (ToUInt32 mem p) (\<lambda>z.
        ebind (throw_if (z AND 3 \<noteq> 0) (MalformedBundle ''bundle element size must be multiple of four'')) (\<lambda>_.
        ebind (throw_if (e < p + unat (4 + z)) (MalformedBundle ''packet too short for bundle element'')) (\<lambda>_.
             bundle_elements n mem e (p + unat (4 + z)) (c + 1))))))
      (\<lambda>(q, c'). q = e \<and> (\<exists>zs. elements_at mem e p zs \<and> c' = c + word_of_nat (length zs)))"
    proof (rule osafe_throw_if, rule osafe_bind [OF read], simp, (rule osafe_throw_if)+, goal_cases)
      case (1 z)
      have "z \<noteq> looping_size"
        using 1(2) assms(2) True Suc.prems(1) by (auto simp: has_looping_size_def list_ex_iff)
      with 1(3) have st: "p + unat (4 + z) = p + 4 + unat z" by (simp add: step_size)
      have "p + 4 + unat z \<le> e" using 1(4) st by linarith
      then have "osafe (bundle_elements n mem e (p + 4 + unat z) (c + 1))
        (\<lambda>(q, c'). q = e \<and> (\<exists>zs. elements_at mem e (p + 4 + unat z) zs \<and> c' = c + 1 + word_of_nat (length zs)))"
        using Suc.prems by (intro Suc.IH) auto
      then show ?case unfolding st
      proof (rule osafe_weaken, clarify)
        fix zs assume "elements_at mem e (p + 4 + unat z) zs"
        then have "elements_at mem e p (z # zs)" using 1 by simp
        then show "e = e \<and> (\<exists>zs'. elements_at mem e p zs' \<and> c + 1 + word_of_nat (length zs) = c + word_of_nat (length zs'))"
          by (intro conjI exI [of _ "z # zs"] refl) simp_all
      qed
    qed
    then show ?thesis using True by (simp add: Let_def)
  qed
qed simp

text \<open>Nothing ends the loop at an element of the looping size.\<close>

lemma bundle_elements_loop:
  assumes "ToUInt32 mem p = Inr looping_size" "p + 4 \<le> e"
  shows "bundle_elements n mem e p c = Inl OscLoop"
proof (induction n arbitrary: c)
  case (Suc n)
  have "4 + looping_size = 0" "looping_size AND 3 = 0" by (simp_all add: looping_size_def)
  with Suc assms show ?case by simp
qed simp

lemma bundle_elements_result:
  assumes "e \<le> length mem"
  shows "p \<le> e \<Longrightarrow> bundle_elements n mem e p c = Inr (q, c') \<Longrightarrow>
    q = e \<and> (\<exists>zs. elements_at mem e p zs \<and> c' = c + word_of_nat (length zs))"
proof (induction n arbitrary: p c)
  case (Suc n)
  show ?case
  proof (cases "p < e")
    case False
    then show ?thesis using Suc.prems by (auto intro: exI [of _ "[]"])
  next
    case True
    have room: "p + 4 \<le> e" using Suc.prems(2) True by (auto simp: throw_if_def split: if_splits)
    then obtain z where z: "ToUInt32 mem p = Inr z" using assms by (simp add: ToUInt32_def)
    have nl: "z \<noteq> looping_size" using bundle_elements_loop [OF _ room, of mem "Suc n" c] Suc.prems(2) z by auto
    have and3: "z AND 3 = 0"
      using Suc.prems(2) True room z by (auto simp: throw_if_def split: if_splits)
    with nl have st: "p + unat (4 + z) = p + 4 + unat z" by (simp add: step_size)
    have r: "p + 4 + unat z \<le> e \<and> bundle_elements n mem e (p + 4 + unat z) (c + 1) = Inr (q, c')"
      using Suc.prems(2) True room z and3 st by (auto simp: throw_if_def Let_def split: if_splits)
    with Suc.IH [of "p + 4 + unat z" "c + 1"] obtain zs where
      zs: "q = e" "elements_at mem e (p + 4 + unat z) zs" "c' = c + 1 + word_of_nat (length zs)" by blast
    have "elements_at mem e p (z # zs)" using z and3 zs(2) by simp
    then show ?thesis using zs by (intro conjI exI [of _ "z # zs"]) simp_all
  qed
qed simp

lemma elements_length: "elements_at mem e p zs \<Longrightarrow> p + 4 * length zs \<le> e"
proof (induction zs arbitrary: p)
  case (Cons z zs)
  then have "p + 4 + unat z + 4 * length zs \<le> e" by simp
  then show ?case by simp
qed simp

lemma bundle_elements_complete:
  assumes "e < p + 2 ^ 31" "e \<le> length mem"
  shows "elements_at mem e p zs \<Longrightarrow> length zs < n \<Longrightarrow>
    bundle_elements n mem e p c = Inr (e, c + word_of_nat (length zs))"
  using assms
proof (induction zs arbitrary: p n c)
  case Nil
  then show ?case by (cases n) simp_all
next
  case (Cons z zs)
  from Cons.prems(2) obtain m where n: "n = Suc m" "length zs < m" by (cases n) auto
  have le: "p + 4 + unat z \<le> e" using Cons.prems(1) elements_le [of mem e "p + 4 + unat z" zs] by simp
  then have "z \<noteq> looping_size" using Cons.prems(3) by (auto simp: looping_size_def)
  then have "unat (4 + z) = 4 + unat z" using Cons.prems(1) by (intro step_size) simp_all
  moreover have "bundle_elements m mem e (p + (4 + unat z)) (c + 1) = Inr (e, c + 1 + word_of_nat (length zs))"
    using Cons.IH [of "p + (4 + unat z)" m "c + 1"] Cons.prems n by (simp add: add.assoc)
  ultimately show ?case using n(1) le Cons.prems(1) by simp
qed


text \<open>Which bundles are accepted, and as what.\<close>

definition bundle_header :: "lstr \<Rightarrow> nat \<Rightarrow> u32 \<Rightarrow> bool" where
  "bundle_header mem m sz \<longleftrightarrow>
     IsValidElementSizeValue sz \<and> 16 \<le> sint sz \<and> IsMultipleOf4 sz \<and> take 8 (drop m mem) = BundleTag"

lemma bundle_accepted:
  assumes sz: "m + nat (sint sz) \<le> length mem"
  shows "ReceivedBundle_Init mem m sz = Inr b \<longleftrightarrow>
    bundle_header mem m sz \<and> (\<exists>zs. elements_at mem (m + nat (sint sz)) (m + 16) zs \<and>
      b = \<lparr>timeTag_ptr = m + 8, bundle_end = m + nat (sint sz), elementCount = word_of_nat (length zs)\<rparr>)"
proof (cases "bundle_header mem m sz")
  case False
  then show ?thesis
    by (auto simp: bundle_header_def ReceivedBundle_Init_def throw_if_def bytes_at_def)
next
  case True
  let ?e = "m + nat (sint sz)"
  from True have h: "IsValidElementSizeValue sz" "16 \<le> sint sz" "IsMultipleOf4 sz" "take 8 (drop m mem) = BundleTag"
    by (simp_all add: bundle_header_def)
  have n: "nat (sint sz) = unat sz" by (rule valid_unat [OF h(1)])
  have "16 \<le> nat (sint sz)" using h(2) by simp
  note n = n this
  have b8: "bytes_at mem m 8 = Inr BundleTag" using h(4) n(2) sz by simp
  have e: "m + 16 \<le> ?e" using n by simp
  have init: "ReceivedBundle_Init mem m sz =
    ebind (bundle_elements (unat sz) mem ?e (m + 16) 0) (\<lambda>(p, count).
      ebind (throw_if (p \<noteq> ?e) (MalformedBundle ''bundle contents '')) (\<lambda>_.
        Inr \<lparr>timeTag_ptr = m + 8, bundle_end = ?e, elementCount = count\<rparr>))"
    using h b8 by (simp add: ReceivedBundle_Init_def Let_def)
  show ?thesis
  proof
    assume "ReceivedBundle_Init mem m sz = Inr b"
    then obtain q c' where r: "bundle_elements (unat sz) mem ?e (m + 16) 0 = Inr (q, c')"
      "b = \<lparr>timeTag_ptr = m + 8, bundle_end = ?e, elementCount = c'\<rparr>"
      unfolding init
      by (cases "bundle_elements (unat sz) mem ?e (m + 16) 0") (auto simp: throw_if_def split: if_splits)
    with bundle_elements_result [OF sz e r(1)] True show "bundle_header mem m sz \<and>
      (\<exists>zs. elements_at mem ?e (m + 16) zs \<and> b = \<lparr>timeTag_ptr = m + 8, bundle_end = ?e, elementCount = word_of_nat (length zs)\<rparr>)"
      by auto
  next
    assume "bundle_header mem m sz \<and> (\<exists>zs. elements_at mem ?e (m + 16) zs \<and>
      b = \<lparr>timeTag_ptr = m + 8, bundle_end = ?e, elementCount = word_of_nat (length zs)\<rparr>)"
    then obtain zs where zs: "elements_at mem ?e (m + 16) zs"
      "b = \<lparr>timeTag_ptr = m + 8, bundle_end = ?e, elementCount = word_of_nat (length zs)\<rparr>" by blast
    have "sint sz \<le> 0x7FFFFFFC" using h(1) by (simp add: IsValidElementSizeValue_def OSC_BUNDLE_ELEMENT_SIZE_MAX_def)
    then have "nat (sint sz) < 2 ^ 31" by simp
    then have "?e < m + 16 + 2 ^ 31" by simp
    moreover have "length zs < unat sz" using elements_length [OF zs(1)] n by simp
    ultimately have "bundle_elements (unat sz) mem ?e (m + 16) 0 = Inr (?e, 0 + word_of_nat (length zs))"
      using sz by (intro bundle_elements_complete zs(1))
    then show "ReceivedBundle_Init mem m sz = Inr b" unfolding init using zs(2) by simp
  qed
qed

text \<open>Without the looping size the check ends, and reads nothing outside the packet.\<close>

lemma bundle_init_safe:
  assumes sz: "m + nat (sint sz) \<le> length mem"
    and nl: "\<not> has_looping_size mem (m + 16) (m + nat (sint sz))"
  shows "osafe (ReceivedBundle_Init mem m sz) (\<lambda>b. True)"
  unfolding ReceivedBundle_Init_def Let_def
proof (intro osafe_throw_if, goal_cases)
  case 1
  let ?e = "m + nat (sint sz)"
  have n: "nat (sint sz) = unat sz" using 1 by (intro valid_unat) simp
  have "16 \<le> nat (sint sz)" using 1 by simp
  note n = n this
  then have b8: "bytes_at mem m 8 = Inr (take 8 (drop m mem))" using sz by simp
  have "m + 16 \<le> ?e" "?e - (m + 16) < 4 * unat sz" using n by simp_all
  from bundle_elements_safe [OF sz nl le_refl this, of 0] have
    el: "osafe (bundle_elements (unat sz) mem ?e (m + 16) 0) (\<lambda>x. True)" by (rule osafe_weaken) simp
  show ?case unfolding b8 ebind_simps
    by (rule osafe_throw_if, rule osafe_bind [OF el]) (auto intro: osafe_throw_if)
qed

text \<open>A bundle of 20 bytes whose only element has the looping size.\<close>

definition looping_packet :: lstr where
  "looping_packet = BundleTag @ replicate 8 0 @ FromUInt32 looping_size"

lemma looping_packet_size: "length looping_packet = 20" "ToUInt32 looping_packet 16 = Inr looping_size"
proof -
  show "length looping_packet = 20"
    by (simp add: looping_packet_def BundleTag_def lit_def FromUInt32_def)
  have "drop 16 looping_packet = rev (le 4 (unat looping_size)) @ []"
    by (simp add: looping_packet_def BundleTag_def lit_def FromUInt32_def)
  then show "ToUInt32 looping_packet 16 = Inr looping_size" by (rule read_word32(2))
qed

end
