(* ===== verification/LGC.thy ===== *)
theory LGC
  imports Lua_Prelude
begin

text \<open>
  The garbage collector: src/lua-5.1.5/src/lgc.c, an incremental tricolour mark-and-sweep collector with
  weak tables and finalizers, and the upvalues of lfunc.c, whose life it governs.

  The heap is a list of objects indexed by their address; a freed address holds \<open>None\<close>, and using it
  is \<open>ErrUB\<close>.  Of a value the collector sees whether it is nil, the reference it holds and the tag
  of a dead key; of an object its mark byte and its references.  The lists linked through
  \<^verbatim>\<open>gclist\<close>, \<^verbatim>\<open>next\<close> and the doubly linked \<^verbatim>\<open>uvhead\<close> are Isabelle lists.  What a tag method call
  does, and the sizes of objects in bytes, are parameters (\<open>gc_host\<close>).
\<close>

section \<open>Objects\<close>

type_synonym gaddr = nat

datatype gval = NilV | ImmV | Ref gaddr | DeadK

text \<open>An upvalue holds its value, or points to a slot of the stack of a thread.\<close>

datatype upv = Closed gval | Open gaddr nat

record gthread =
  l_gt :: gval
  stack :: "gval list"
  th_top :: nat
  ci_tops :: "nat list"
  openupval :: "gaddr list"

record gproto =
  pr_source :: "gaddr option"
  pr_k :: "gval list"
  pr_upvalues :: "gaddr option list"
  pr_p :: "gaddr option list"
  pr_locvars :: "gaddr option list"

datatype gbody =
    BString lstr
  | BUserdata "gaddr option" gaddr
  | BUpval upv
  | BTable "gaddr option" "gval list" "(gval \<times> gval) list"
  | BCclosure gaddr "gval list"
  | BLclosure gaddr gaddr "gaddr option list"
  | BThread gthread
  | BProto gproto

record gobj =
  marked :: lu_byte
  obj_body :: gbody

datatype gc_phase = GCpause | GCpropagate | GCsweepstring | GCsweep | GCfinalize

text \<open>
  The collector's part of \<^verbatim>\<open>global_State\<close>.  \<open>sweepgc\<close> points to the link of an object of \<open>rootgc\<close>, or to
  \<^verbatim>\<open>rootgc\<close> itself (\<open>None\<close>); \<open>tmudata\<close> is the circular list from its first element.
\<close>

record gc_State =
  objs :: "gobj option list"
  gcwhite :: lu_byte
  phase :: gc_phase
  hash_lists :: "gaddr list list"
  nuse :: nat
  sweepstrgc :: nat
  rootgc :: "gaddr list"
  sweepgc :: "gaddr option"
  gray :: "gaddr list"
  grayagain :: "gaddr list"
  weak :: "gaddr list"
  tmudata :: "gaddr list"
  GCthreshold :: u64
  totalbytes :: u64
  estimate :: u64
  gcdept :: u64
  gcpause :: u64
  gcstepmul :: int
  registry :: gval
  mainthread :: gaddr
  uvhead :: "gaddr list"
  basic_mt :: "gaddr option list"
  tmname_mode :: gaddr
  tmname_gc :: gaddr

record gc_host =
  traversed_size :: "gbody \<Rightarrow> u64"
  free_size :: "gbody \<Rightarrow> u64"
  call_gctm :: "gval \<Rightarrow> gaddr \<Rightarrow> gc_State \<Rightarrow> gc_State res"

definition get_obj :: "gc_State \<Rightarrow> gaddr \<Rightarrow> gobj res" where
  "get_obj g a =
     (if a < length (objs g) then
        case objs g ! a of None \<Rightarrow> Inl (ErrUB ''freed object'') | Some ob \<Rightarrow> Inr ob
      else Inl (ErrUB ''no object''))"

definition set_obj :: "gaddr \<Rightarrow> gobj \<Rightarrow> gc_State \<Rightarrow> gc_State" where
  "set_obj a ob g = g\<lparr>objs := (objs g)[a := Some ob]\<rparr>"

definition upd_obj :: "gaddr \<Rightarrow> (gobj \<Rightarrow> gobj) \<Rightarrow> gc_State \<Rightarrow> gc_State res" where
  "upd_obj a f g = ebind (get_obj g a) (\<lambda>ob. Inr (set_obj a (f ob) g))"

section \<open>Marks\<close>

definition WHITE_BITS :: lu_byte where "WHITE_BITS = 3"
definition BLACK_BIT :: lu_byte where "BLACK_BIT = 4"
definition FINALIZED_BIT :: lu_byte where "FINALIZED_BIT = 8"
definition KEYWEAK :: lu_byte where "KEYWEAK = 8"
definition VALUEWEAK :: lu_byte where "VALUEWEAK = 16"
definition FIXED_BIT :: lu_byte where "FIXED_BIT = 32"
definition SFIXED_BIT :: lu_byte where "SFIXED_BIT = 64"

definition iswhite :: "lu_byte \<Rightarrow> bool" where "iswhite m \<longleftrightarrow> m AND WHITE_BITS \<noteq> 0"
definition isblack :: "lu_byte \<Rightarrow> bool" where "isblack m \<longleftrightarrow> m AND BLACK_BIT \<noteq> 0"
definition isgray :: "lu_byte \<Rightarrow> bool" where "isgray m \<longleftrightarrow> \<not> isblack m \<and> \<not> iswhite m"
definition otherwhite_of :: "lu_byte \<Rightarrow> lu_byte" where "otherwhite_of w = w XOR WHITE_BITS"
definition dead_mark :: "lu_byte \<Rightarrow> lu_byte \<Rightarrow> bool" where
  "dead_mark w m \<longleftrightarrow> m AND otherwhite_of w AND WHITE_BITS \<noteq> 0"
definition white_of :: "lu_byte \<Rightarrow> lu_byte" where "white_of w = w AND WHITE_BITS"
definition white2gray :: "lu_byte \<Rightarrow> lu_byte" where "white2gray m = m AND NOT WHITE_BITS"
definition black2gray :: "lu_byte \<Rightarrow> lu_byte" where "black2gray m = m AND NOT BLACK_BIT"
definition gray2black :: "lu_byte \<Rightarrow> lu_byte" where "gray2black m = m OR BLACK_BIT"
definition change_white :: "lu_byte \<Rightarrow> lu_byte" where "change_white m = m XOR WHITE_BITS"
definition make_white :: "lu_byte \<Rightarrow> lu_byte \<Rightarrow> lu_byte" where
  "make_white w m = (m AND NOT (BLACK_BIT OR WHITE_BITS)) OR white_of w"
definition isfinalized :: "lu_byte \<Rightarrow> bool" where "isfinalized m \<longleftrightarrow> m AND FINALIZED_BIT \<noteq> 0"
definition markfinalized :: "lu_byte \<Rightarrow> lu_byte" where "markfinalized m = m OR FINALIZED_BIT"
definition set_weak_bits :: "bool \<Rightarrow> bool \<Rightarrow> lu_byte \<Rightarrow> lu_byte" where
  "set_weak_bits wk wv m = (m AND NOT (KEYWEAK OR VALUEWEAK)) OR
     (if wk then KEYWEAK else 0) OR (if wv then VALUEWEAK else 0)"

definition upd_mark :: "gaddr \<Rightarrow> (lu_byte \<Rightarrow> lu_byte) \<Rightarrow> gc_State \<Rightarrow> gc_State res" where
  "upd_mark a f = upd_obj a (\<lambda>ob. ob\<lparr>marked := f (marked ob)\<rparr>)"

definition upd_body :: "gaddr \<Rightarrow> gbody \<Rightarrow> gc_State \<Rightarrow> gc_State res" where
  "upd_body a b = upd_obj a (\<lambda>ob. ob\<lparr>obj_body := b\<rparr>)"

definition makewhite :: "gaddr \<Rightarrow> gc_State \<Rightarrow> gc_State res" where
  "makewhite a g = upd_mark a (make_white (gcwhite g)) g"

definition stringmark :: "gaddr \<Rightarrow> gc_State \<Rightarrow> gc_State res" where
  "stringmark a = upd_mark a white2gray"

text \<open>The value of an upvalue: \<^verbatim>\<open>*uv->v\<close>.\<close>

definition upval_value :: "gc_State \<Rightarrow> upv \<Rightarrow> gval res" where
  "upval_value g u = (case u of
       Closed v \<Rightarrow> Inr v
     | Open th i \<Rightarrow> ebind (get_obj g th) (\<lambda>ob. case obj_body ob of
           BThread t \<Rightarrow> if i < length (stack t) then Inr (stack t ! i) else Inl (ErrUB ''slot outside the stack'')
         | _ \<Rightarrow> Inl (ErrUB ''not a thread'')))"

section \<open>Marking\<close>

text \<open>
  \<^verbatim>\<open>reallymarkobject\<close> calls itself for the references of a userdatum and for the value of an upvalue;
  the value is no upvalue, and a userdatum refers to tables: three levels are enough.
\<close>

primrec reallymark :: "nat \<Rightarrow> gaddr \<Rightarrow> gc_State \<Rightarrow> gc_State res" where
  "reallymark 0 a g = Inl ErrLoop"
| "reallymark (Suc n) a g =
     (let markobject = (\<lambda>a g. ebind (get_obj g a) (\<lambda>ob. if iswhite (marked ob) then reallymark n a g else Inr g));
          markvalue = (\<lambda>v g. case v of Ref a \<Rightarrow> markobject a g | DeadK \<Rightarrow> Inl (ErrUB ''dead key marked'') | _ \<Rightarrow> Inr g)
      in ebind (upd_mark a white2gray g) (\<lambda>g. ebind (get_obj g a) (\<lambda>ob. case obj_body ob of
             BString s \<Rightarrow> Inr g
           | BUserdata mt env \<Rightarrow>
               ebind (upd_mark a gray2black g) (\<lambda>g.
               ebind (case mt of None \<Rightarrow> Inr g | Some t \<Rightarrow> markobject t g) (markobject env))
           | BUpval u \<Rightarrow>
               ebind (upval_value g u) (\<lambda>v. ebind (markvalue v g) (\<lambda>g.
                 case u of Closed _ \<Rightarrow> upd_mark a gray2black g | Open _ _ \<Rightarrow> Inr g))
           | _ \<Rightarrow> Inr (g\<lparr>gray := a # gray g\<rparr>))))"

definition reallymarkobject :: "gaddr \<Rightarrow> gc_State \<Rightarrow> gc_State res" where
  "reallymarkobject = reallymark 3"

definition markobject :: "gaddr \<Rightarrow> gc_State \<Rightarrow> gc_State res" where
  "markobject a g = ebind (get_obj g a) (\<lambda>ob. if iswhite (marked ob) then reallymarkobject a g else Inr g)"

definition markvalue :: "gval \<Rightarrow> gc_State \<Rightarrow> gc_State res" where
  "markvalue v g = (case v of Ref a \<Rightarrow> markobject a g | DeadK \<Rightarrow> Inl (ErrUB ''dead key marked'') | _ \<Rightarrow> Inr g)"

definition mark_opt :: "gaddr option \<Rightarrow> gc_State \<Rightarrow> gc_State res" where
  "mark_opt p g = (case p of None \<Rightarrow> Inr g | Some a \<Rightarrow> markobject a g)"

definition stringmark_opt :: "gaddr option \<Rightarrow> gc_State \<Rightarrow> gc_State res" where
  "stringmark_opt p g = (case p of None \<Rightarrow> Inr g | Some a \<Rightarrow> stringmark a g)"

definition marktmu :: "gc_State \<Rightarrow> gc_State res" where
  "marktmu g = efold (\<lambda>u g. ebind (makewhite u g) (reallymarkobject u)) (tmudata g) g"

text \<open>
  \<^verbatim>\<open>fasttm\<close>: the value under the name of an event in a metatable, \<open>NilV\<close> for none.  Theory LTM shows
  that the cache of absent methods does not change the result.
\<close>

definition tm_of :: "gc_State \<Rightarrow> gaddr option \<Rightarrow> gaddr \<Rightarrow> gval res" where
  "tm_of g mt name = (case mt of
       None \<Rightarrow> Inr NilV
     | Some t \<Rightarrow> ebind (get_obj g t) (\<lambda>ob. case obj_body ob of
           BTable _ _ ns \<Rightarrow> Inr (case find (\<lambda>(k, v). k = Ref name) ns of None \<Rightarrow> NilV | Some (k, v) \<Rightarrow> v)
         | _ \<Rightarrow> Inl (ErrUB ''metatable is no table'')))"

text \<open>The modes of a table: weak keys, weak values.\<close>

definition weak_mode :: "gc_State \<Rightarrow> gaddr option \<Rightarrow> (bool \<times> bool) res" where
  "weak_mode g mt =
     ebind (tm_of g mt (tmname_mode g)) (\<lambda>mode. case mode of
         Ref s \<Rightarrow> ebind (get_obj g s) (\<lambda>ob. case obj_body ob of
             BString str \<Rightarrow>
               let cs = takeWhile (\<lambda>c. c \<noteq> 0) str
               in Inr (107 \<in> set cs, 118 \<in> set cs)
           | _ \<Rightarrow> Inr (False, False))
       | _ \<Rightarrow> Inr (False, False))"

definition removeentry_gc :: "gval \<times> gval \<Rightarrow> gval \<times> gval" where
  "removeentry_gc n = (case n of (k, v) \<Rightarrow> ((case k of Ref a \<Rightarrow> DeadK | _ \<Rightarrow> k), v))"

text \<open>The node loop of \<^verbatim>\<open>traversetable\<close> marks from the last node to the first and drops empty entries.\<close>

definition mark_node :: "bool \<Rightarrow> bool \<Rightarrow> gval \<times> gval \<Rightarrow> gc_State \<Rightarrow> gc_State res" where
  "mark_node weakkey weakvalue n g = (case n of (k, v) \<Rightarrow>
     if v = NilV then Inr g
     else ebind (if weakkey then Inr g else markvalue k g) (\<lambda>g.
          if weakvalue then Inr g else markvalue v g))"

definition drop_empty :: "gval \<times> gval \<Rightarrow> gval \<times> gval" where
  "drop_empty n = (if snd n = NilV then removeentry_gc n else n)"

definition traversetable :: "gaddr \<Rightarrow> gaddr option \<Rightarrow> gval list \<Rightarrow> (gval \<times> gval) list \<Rightarrow> gc_State \<Rightarrow> (gc_State \<times> bool) res" where
  "traversetable h metatable arr ns g =
     ebind (mark_opt metatable g) (\<lambda>g.
     ebind (weak_mode g metatable) (\<lambda>(weakkey, weakvalue).
     ebind (if weakkey \<or> weakvalue
       then ebind (upd_mark h (set_weak_bits weakkey weakvalue) g) (\<lambda>g. Inr (g\<lparr>weak := h # weak g\<rparr>))
       else Inr g) (\<lambda>g.
     if weakkey \<and> weakvalue then Inr (g, True)
     else
       ebind (if weakvalue then Inr g else efold markvalue (rev arr) g) (\<lambda>g.
       ebind (efold (mark_node weakkey weakvalue) (rev ns) g) (\<lambda>g.
       ebind (upd_body h (BTable metatable arr (map drop_empty ns)) g) (\<lambda>g.
         Inr (g, weakkey \<or> weakvalue)))))))"

definition traverseproto :: "gproto \<Rightarrow> gc_State \<Rightarrow> gc_State res" where
  "traverseproto f g =
     ebind (stringmark_opt (pr_source f) g) (\<lambda>g.
     ebind (efold markvalue (pr_k f) g) (\<lambda>g.
     ebind (efold stringmark_opt (pr_upvalues f) g) (\<lambda>g.
     ebind (efold mark_opt (pr_p f) g) (\<lambda>g.
       efold stringmark_opt (pr_locvars f) g))))"

definition traversecclosure :: "gaddr \<Rightarrow> gval list \<Rightarrow> gc_State \<Rightarrow> gc_State res" where
  "traversecclosure env ups g = ebind (markobject env g) (efold markvalue ups)"

definition mark_upval :: "gaddr option \<Rightarrow> gc_State \<Rightarrow> gc_State res" where
  "mark_upval u g = (case u of None \<Rightarrow> Inl (ErrUB ''null upvalue'') | Some a \<Rightarrow> markobject a g)"

definition traverselclosure :: "gaddr \<Rightarrow> gaddr \<Rightarrow> gaddr option list \<Rightarrow> gc_State \<Rightarrow> gc_State res" where
  "traverselclosure env p ups g =
     ebind (markobject env g) (\<lambda>g. ebind (markobject p g) (efold mark_upval ups))"

text \<open>
  \<^verbatim>\<open>traversestack\<close>: the slots from the top to the highest top of a call become nil.  The stacks
  are not reallocated here (\<^verbatim>\<open>checkstacksizes\<close> changes only their capacity).
\<close>

definition clear_slots :: "nat \<Rightarrow> nat \<Rightarrow> gval list \<Rightarrow> gval list" where
  "clear_slots lo hi st = take lo st @ replicate (Suc hi - lo) NilV @ drop (Suc hi) st"

definition stack_lim :: "gthread \<Rightarrow> nat" where "stack_lim t = fold max (ci_tops t) (th_top t)"

definition traversestack :: "gaddr \<Rightarrow> gthread \<Rightarrow> gc_State \<Rightarrow> gc_State res" where
  "traversestack a t g =
     ebind (markvalue (l_gt t) g) (\<lambda>g.
     ebind (efold markvalue (take (th_top t) (stack t)) g) (\<lambda>g.
     if length (stack t) \<le> stack_lim t then Inl (ErrUB ''top above the stack'')
     else upd_body a (BThread (t\<lparr>stack := clear_slots (th_top t) (stack_lim t) (stack t)\<rparr>)) g))"

definition propagatemark :: "gc_host \<Rightarrow> gc_State \<Rightarrow> (gc_State \<times> u64) res" where
  "propagatemark H g =
     (case gray g of
        [] \<Rightarrow> Inl (ErrUB ''no gray object'')
      | a # rest \<Rightarrow>
          ebind (upd_mark a gray2black g) (\<lambda>g.
          ebind (get_obj g a) (\<lambda>ob.
          let g = g\<lparr>gray := rest\<rparr>; sz = traversed_size H (obj_body ob)
          in case obj_body ob of
               BTable metatable arr ns \<Rightarrow>
                 ebind (traversetable a metatable arr ns g) (\<lambda>(g, wk).
                 ebind (if wk then upd_mark a black2gray g else Inr g) (\<lambda>g. Inr (g, sz)))
             | BCclosure env ups \<Rightarrow> ebind (traversecclosure env ups g) (\<lambda>g. Inr (g, sz))
             | BLclosure env p ups \<Rightarrow> ebind (traverselclosure env p ups g) (\<lambda>g. Inr (g, sz))
             | BThread t \<Rightarrow>
                 ebind (upd_mark a black2gray (g\<lparr>grayagain := a # grayagain g\<rparr>)) (\<lambda>g.
                 ebind (traversestack a t g) (\<lambda>g. Inr (g, sz)))
             | BProto f \<Rightarrow> ebind (traverseproto f g) (\<lambda>g. Inr (g, sz))
             | _ \<Rightarrow> Inl (ErrUB ''no gray kind''))))"

text \<open>\<^verbatim>\<open>while (g->gray) m += propagatemark(g)\<close>.  The fuel is the number of rounds.\<close>

primrec propagate_n :: "nat \<Rightarrow> gc_host \<Rightarrow> gc_State \<Rightarrow> u64 \<Rightarrow> (gc_State \<times> u64) res" where
  "propagate_n 0 H g m = (if gray g = [] then Inr (g, m) else Inl ErrLoop)"
| "propagate_n (Suc n) H g m =
     (if gray g = [] then Inr (g, m)
      else ebind (propagatemark H g) (\<lambda>(g, s). propagate_n n H g (m + s)))"

text \<open>Each round takes one object from the list, and an object enters it when it stops being white.\<close>

definition white_count :: "gc_State \<Rightarrow> nat" where
  "white_count g = length (filter (\<lambda>ob. case ob of None \<Rightarrow> False | Some ob \<Rightarrow> iswhite (marked ob)) (objs g))"

definition propagateall :: "gc_host \<Rightarrow> gc_State \<Rightarrow> (gc_State \<times> u64) res" where
  "propagateall H g = propagate_n (white_count g + length (gray g)) H g 0"

end
