(* ===== verification/LGC_Cycle.thy ===== *)
theory LGC_Cycle
  imports LGC
begin

text \<open>
  The rest of lgc.c: weak tables, barriers, links, the sweep, finalizers and the cycle; and the
  operations of lfunc.c on upvalues.
\<close>

section \<open>Weak tables\<close>

text \<open>Strings are marked here: a weak table may hold the only reference to them.\<close>

definition iscleared :: "gval \<Rightarrow> bool \<Rightarrow> gc_State \<Rightarrow> (gc_State \<times> bool) res" where
  "iscleared v iskey g = (case v of
       Ref a \<Rightarrow> ebind (get_obj g a) (\<lambda>ob. case obj_body ob of
           BString s \<Rightarrow> ebind (stringmark a g) (\<lambda>g. Inr (g, False))
         | BUserdata mt env \<Rightarrow> Inr (g, iswhite (marked ob) \<or> (\<not> iskey \<and> isfinalized (marked ob)))
         | _ \<Rightarrow> Inr (g, iswhite (marked ob)))
     | _ \<Rightarrow> Inr (g, False))"

definition clear_value :: "gval \<Rightarrow> gc_State \<Rightarrow> (gc_State \<times> gval) res" where
  "clear_value v g = ebind (iscleared v False g) (\<lambda>(g, c). Inr (g, if c then NilV else v))"

text \<open>The \<^verbatim>\<open>||\<close> of the node loop looks at the value only when the key stays.\<close>

definition clear_node :: "gval \<times> gval \<Rightarrow> gc_State \<Rightarrow> (gc_State \<times> (gval \<times> gval)) res" where
  "clear_node n g = (case n of (k, v) \<Rightarrow>
     if v = NilV then Inr (g, n)
     else ebind (iscleared k True g) (\<lambda>(g, ck).
          ebind (if ck then Inr (g, True) else iscleared v False g) (\<lambda>(g, c).
            Inr (g, if c then removeentry_gc (k, NilV) else n))))"

text \<open>A loop that rebuilds a list from its end.\<close>

primrec map_state :: "('a \<Rightarrow> gc_State \<Rightarrow> (gc_State \<times> 'b) res) \<Rightarrow> 'a list \<Rightarrow> gc_State \<Rightarrow> (gc_State \<times> 'b list) res" where
  "map_state f [] g = Inr (g, [])"
| "map_state f (x # xs) g =
     ebind (map_state f xs g) (\<lambda>(g, ys). ebind (f x g) (\<lambda>(g, y). Inr (g, y # ys)))"

definition clear_one :: "gaddr \<Rightarrow> gc_State \<Rightarrow> gc_State res" where
  "clear_one h g =
     ebind (get_obj g h) (\<lambda>ob. case obj_body ob of
         BTable mt arr ns \<Rightarrow>
           ebind (if marked ob AND VALUEWEAK \<noteq> 0 then map_state clear_value arr g else Inr (g, arr)) (\<lambda>(g, arr).
           ebind (map_state clear_node ns g) (\<lambda>(g, ns). upd_body h (BTable mt arr ns) g))
       | _ \<Rightarrow> Inl (ErrUB ''weak object is no table''))"

definition cleartable :: "gaddr list \<Rightarrow> gc_State \<Rightarrow> gc_State res" where
  "cleartable = efold clear_one"

section \<open>Barriers and links\<close>

definition luaC_barrierf :: "gaddr \<Rightarrow> gaddr \<Rightarrow> gc_State \<Rightarrow> gc_State res" where
  "luaC_barrierf ob v g = (if phase g = GCpropagate then reallymarkobject v g else makewhite ob g)"

definition luaC_barrierback :: "gaddr \<Rightarrow> gc_State \<Rightarrow> gc_State res" where
  "luaC_barrierback t g = ebind (upd_mark t black2gray g) (\<lambda>g. Inr (g\<lparr>grayagain := t # grayagain g\<rparr>))"

definition val_is_white :: "gval \<Rightarrow> gc_State \<Rightarrow> bool res" where
  "val_is_white v g = (case v of Ref a \<Rightarrow> ebind (get_obj g a) (\<lambda>ob. Inr (iswhite (marked ob))) | _ \<Rightarrow> Inr False)"

text \<open>The macro \<^verbatim>\<open>luaC_barrier\<close> and, for an object instead of a value, \<^verbatim>\<open>luaC_objbarrier\<close>.\<close>

definition luaC_barrier :: "gaddr \<Rightarrow> gval \<Rightarrow> gc_State \<Rightarrow> gc_State res" where
  "luaC_barrier p v g =
     ebind (val_is_white v g) (\<lambda>w. ebind (get_obj g p) (\<lambda>ob.
       case v of Ref a \<Rightarrow> if w \<and> isblack (marked ob) then luaC_barrierf p a g else Inr g | _ \<Rightarrow> Inr g))"

definition luaC_barriert :: "gaddr \<Rightarrow> gval \<Rightarrow> gc_State \<Rightarrow> gc_State res" where
  "luaC_barriert t v g =
     ebind (val_is_white v g) (\<lambda>w. ebind (get_obj g t) (\<lambda>ob.
       if w \<and> isblack (marked ob) then luaC_barrierback t g else Inr g))"

text \<open>The object at \<open>a\<close>, just allocated, enters the list of all objects.\<close>

definition luaC_link :: "gaddr \<Rightarrow> gbody \<Rightarrow> gc_State \<Rightarrow> gc_State" where
  "luaC_link a b g = g\<lparr>objs := (objs g)[a := Some \<lparr>marked = white_of (gcwhite g), obj_body = b\<rparr>], rootgc := a # rootgc g\<rparr>"

definition luaC_linkupval :: "gaddr \<Rightarrow> gc_State \<Rightarrow> gc_State res" where
  "luaC_linkupval uv g =
     (let g = g\<lparr>rootgc := uv # rootgc g\<rparr>
      in ebind (get_obj g uv) (\<lambda>ob.
        if isgray (marked ob) then
          if phase g = GCpropagate then
            ebind (upd_mark uv gray2black g) (\<lambda>g.
              case obj_body ob of BUpval (Closed v) \<Rightarrow> luaC_barrier uv v g | _ \<Rightarrow> Inl (ErrUB ''no closed upvalue''))
          else makewhite uv g
        else Inr g))"

section \<open>Upvalues\<close>

text \<open>Allocation: the allocator returns a free address, an old one or the next.\<close>

definition fresh_addr :: "gaddr \<Rightarrow> gc_State \<Rightarrow> bool" where
  "fresh_addr a g \<longleftrightarrow> a < length (objs g) \<and> objs g ! a = None"

text \<open>
  The upvalues of a C closure and the prototype of a Lua closure are not initialised: what the memory
  holds there (\<open>mem\<close>, \<open>p\<close>) is an argument.
\<close>

definition luaF_newCclosure :: "gaddr \<Rightarrow> gval list \<Rightarrow> gaddr \<Rightarrow> gc_State \<Rightarrow> gc_State" where
  "luaF_newCclosure a mem e g = luaC_link a (BCclosure e mem) g"

definition luaF_newLclosure :: "gaddr \<Rightarrow> gaddr \<Rightarrow> nat \<Rightarrow> gaddr \<Rightarrow> gc_State \<Rightarrow> gc_State" where
  "luaF_newLclosure a p nelems e g = luaC_link a (BLclosure e p (replicate nelems None)) g"

definition luaF_newupval :: "gaddr \<Rightarrow> gc_State \<Rightarrow> gc_State" where
  "luaF_newupval a g = luaC_link a (BUpval (Closed NilV)) g"

definition get_thread :: "gc_State \<Rightarrow> gaddr \<Rightarrow> gthread res" where
  "get_thread g th = ebind (get_obj g th) (\<lambda>ob. case obj_body ob of BThread t \<Rightarrow> Inr t | _ \<Rightarrow> Inl (ErrUB ''not a thread''))"

definition open_level :: "gc_State \<Rightarrow> gaddr \<Rightarrow> nat res" where
  "open_level g uv = ebind (get_obj g uv) (\<lambda>ob. case obj_body ob of
       BUpval (Open th i) \<Rightarrow> Inr i | _ \<Rightarrow> Inl (ErrUB ''no open upvalue''))"

text \<open>
  The search of \<^verbatim>\<open>luaF_findupval\<close> in the list of a thread, which is ordered by falling levels: the
  upvalue of the level, or the upvalues before and behind its place.
\<close>

primrec find_open :: "gc_State \<Rightarrow> nat \<Rightarrow> gaddr list \<Rightarrow> (gaddr + gaddr list \<times> gaddr list) res" where
  "find_open g level [] = Inr (Inr ([], []))"
| "find_open g level (p # ps) =
     ebind (open_level g p) (\<lambda>v.
       if v < level then Inr (Inr ([], p # ps))
       else if v = level then Inr (Inl p)
       else ebind (find_open g level ps) (\<lambda>r. Inr (case r of Inl q \<Rightarrow> Inl q | Inr (xs, ys) \<Rightarrow> Inr (p # xs, ys))))"

definition luaF_findupval :: "gaddr \<Rightarrow> gaddr \<Rightarrow> nat \<Rightarrow> gc_State \<Rightarrow> (gc_State \<times> gaddr) res" where
  "luaF_findupval a th level g =
     ebind (get_thread g th) (\<lambda>t. ebind (find_open g level (openupval t)) (\<lambda>r. case r of
         Inl p \<Rightarrow>
           ebind (get_obj g p) (\<lambda>ob.
           ebind (if dead_mark (gcwhite g) (marked ob) then upd_mark p change_white g else Inr g) (\<lambda>g. Inr (g, p)))
       | Inr (before, behind) \<Rightarrow>
           let g = g\<lparr>objs := (objs g)[a := Some \<lparr>marked = white_of (gcwhite g), obj_body = BUpval (Open th level)\<rparr>],
                     uvhead := a # uvhead g\<rparr>
           in ebind (upd_body th (BThread (t\<lparr>openupval := before @ a # behind\<rparr>)) g) (\<lambda>g. Inr (g, a))))"

definition unlinkupval :: "gaddr \<Rightarrow> gc_State \<Rightarrow> gc_State" where
  "unlinkupval uv g = g\<lparr>uvhead := remove1 uv (uvhead g)\<rparr>"

definition free_mem :: "gc_host \<Rightarrow> gaddr \<Rightarrow> gc_State \<Rightarrow> gc_State res" where
  "free_mem H a g = ebind (get_obj g a) (\<lambda>ob.
     Inr (g\<lparr>objs := (objs g)[a := None], totalbytes := totalbytes g - free_size H (obj_body ob)\<rparr>))"

definition luaF_freeupval :: "gc_host \<Rightarrow> gaddr \<Rightarrow> gc_State \<Rightarrow> gc_State res" where
  "luaF_freeupval H uv g = ebind (get_obj g uv) (\<lambda>ob.
     free_mem H uv (case obj_body ob of BUpval (Open _ _) \<Rightarrow> unlinkupval uv g | _ \<Rightarrow> g))"

text \<open>\<^verbatim>\<open>luaF_close\<close> on the list of the thread; what is left of it is written back.\<close>

primrec close_list :: "gc_host \<Rightarrow> nat \<Rightarrow> gaddr list \<Rightarrow> gc_State \<Rightarrow> (gc_State \<times> gaddr list) res" where
  "close_list H level [] g = Inr (g, [])"
| "close_list H level (uv # uvs) g =
     ebind (open_level g uv) (\<lambda>v.
       if v < level then Inr (g, uv # uvs)
       else ebind (get_obj g uv) (\<lambda>ob.
         ebind (if dead_mark (gcwhite g) (marked ob) then luaF_freeupval H uv g
           else case obj_body ob of
               BUpval u \<Rightarrow>
                 ebind (upval_value g u) (\<lambda>x.
                 ebind (upd_body uv (BUpval (Closed x)) (unlinkupval uv g)) (luaC_linkupval uv))
             | _ \<Rightarrow> Inl (ErrUB ''no upvalue'')) (close_list H level uvs)))"

definition luaF_close :: "gc_host \<Rightarrow> gaddr \<Rightarrow> nat \<Rightarrow> gc_State \<Rightarrow> gc_State res" where
  "luaF_close H th level g =
     ebind (get_thread g th) (\<lambda>t. ebind (close_list H level (openupval t) g) (\<lambda>(g, rest).
       upd_body th (BThread (t\<lparr>openupval := rest\<rparr>)) g))"

section \<open>The sweep\<close>

definition freeobj :: "gc_host \<Rightarrow> gaddr \<Rightarrow> gc_State \<Rightarrow> gc_State res" where
  "freeobj H a g = ebind (get_obj g a) (\<lambda>ob. case obj_body ob of
       BUpval u \<Rightarrow> luaF_freeupval H a g
     | BThread t \<Rightarrow> ebind (luaF_close H a 0 g) (free_mem H a)
     | BString s \<Rightarrow> free_mem H a (g\<lparr>nuse := nuse g - 1\<rparr>)
     | _ \<Rightarrow> free_mem H a g)"

text \<open>\<^verbatim>\<open>(cur->gch.marked ^ WHITEBITS) & deadmask\<close>.\<close>

definition survives :: "lu_byte \<Rightarrow> lu_byte \<Rightarrow> bool" where
  "survives w m \<longleftrightarrow> (m XOR WHITE_BITS) AND otherwhite_of w \<noteq> 0"

text \<open>A list of strings or of upvalues is swept as a whole; the survivors are returned.\<close>

primrec sweepwholelist :: "gc_host \<Rightarrow> gaddr list \<Rightarrow> gc_State \<Rightarrow> (gc_State \<times> gaddr list) res" where
  "sweepwholelist H [] g = Inr (g, [])"
| "sweepwholelist H (cur # rest) g =
     ebind (get_obj g cur) (\<lambda>ob.
       if survives (gcwhite g) (marked ob) then
         ebind (makewhite cur g) (\<lambda>g. ebind (sweepwholelist H rest g) (\<lambda>(g, l). Inr (g, cur # l)))
       else ebind (freeobj H cur g) (sweepwholelist H rest))"

text \<open>What of \<^verbatim>\<open>rootgc\<close> lies behind the position of the sweep.\<close>

definition unswept :: "gc_State \<Rightarrow> gaddr list" where
  "unswept g = (case sweepgc g of None \<Rightarrow> rootgc g | Some p \<Rightarrow> tl (dropWhile (\<lambda>a. a \<noteq> p) (rootgc g)))"

definition sweep_one :: "gc_host \<Rightarrow> gaddr \<Rightarrow> gc_State \<Rightarrow> gc_State res" where
  "sweep_one H cur g =
     ebind (get_obj g cur) (\<lambda>ob.
     ebind (case obj_body ob of
         BThread t \<Rightarrow> ebind (sweepwholelist H (openupval t) g) (\<lambda>(g, l). upd_body cur (BThread (t\<lparr>openupval := l\<rparr>)) g)
       | _ \<Rightarrow> Inr g) (\<lambda>g.
       if survives (gcwhite g) (marked ob) then ebind (makewhite cur g) (\<lambda>g. Inr (g\<lparr>sweepgc := Some cur\<rparr>))
       else freeobj H cur (g\<lparr>rootgc := remove1 cur (rootgc g)\<rparr>)))"

primrec sweeplist :: "gc_host \<Rightarrow> nat \<Rightarrow> gc_State \<Rightarrow> gc_State res" where
  "sweeplist H 0 g = Inr g"
| "sweeplist H (Suc count) g =
     (case unswept g of [] \<Rightarrow> Inr g | cur # _ \<Rightarrow> ebind (sweep_one H cur g) (sweeplist H count))"

definition GCSTEPSIZE :: u64 where "GCSTEPSIZE = 1024"
definition GCSWEEPMAX :: nat where "GCSWEEPMAX = 40"
definition GCSWEEPCOST :: u64 where "GCSWEEPCOST = 10"
definition GCFINALIZECOST :: u64 where "GCFINALIZECOST = 100"

text \<open>One bucket of the string table.\<close>

definition sweep_bucket :: "gc_host \<Rightarrow> nat \<Rightarrow> gc_State \<Rightarrow> gc_State res" where
  "sweep_bucket H i g =
     (if length (hash_lists g) \<le> i then Inl (ErrUB ''bucket outside the string table'')
      else ebind (sweepwholelist H (hash_lists g ! i) g) (\<lambda>(g, l). Inr (g\<lparr>hash_lists := (hash_lists g)[i := l]\<rparr>)))"

definition luaC_freeall :: "gc_host \<Rightarrow> gc_State \<Rightarrow> gc_State res" where
  "luaC_freeall H g =
     (let g = g\<lparr>gcwhite := WHITE_BITS OR SFIXED_BIT, sweepgc := None\<rparr>
      in ebind (sweeplist H (length (rootgc g) + length (uvhead g)) g) (\<lambda>g.
           efold (sweep_bucket H) [0..<length (hash_lists g)] g))"

section \<open>Finalizers\<close>

text \<open>The userdata behind the main thread: those that stay, those to finalize, and the bytes of these.\<close>

primrec separate_list :: "gc_host \<Rightarrow> bool \<Rightarrow> gaddr list \<Rightarrow> gc_State \<Rightarrow> (gc_State \<times> gaddr list \<times> gaddr list \<times> u64) res" where
  "separate_list H al [] g = Inr (g, [], [], 0)"
| "separate_list H al (cur # rest) g =
     ebind (get_obj g cur) (\<lambda>ob. case obj_body ob of
         BUserdata mt env \<Rightarrow>
           if \<not> (iswhite (marked ob) \<or> al) \<or> isfinalized (marked ob) then
             ebind (separate_list H al rest g) (\<lambda>(g, keep, fin, m). Inr (g, cur # keep, fin, m))
           else ebind (tm_of g mt (tmname_gc g)) (\<lambda>tm. ebind (upd_mark cur markfinalized g) (\<lambda>g.
             if tm = NilV then
               ebind (separate_list H al rest g) (\<lambda>(g, keep, fin, m). Inr (g, cur # keep, fin, m))
             else ebind (separate_list H al rest g) (\<lambda>(g, keep, fin, m).
               Inr (g, keep, cur # fin, free_size H (obj_body ob) + m))))
       | _ \<Rightarrow> Inl (ErrUB ''no userdata behind the main thread''))"

definition luaC_separateudata :: "gc_host \<Rightarrow> bool \<Rightarrow> gc_State \<Rightarrow> (gc_State \<times> u64) res" where
  "luaC_separateudata H al g =
     (let upto = takeWhile (\<lambda>a. a \<noteq> mainthread g) (rootgc g) @ [mainthread g];
          behind = drop (length upto) (rootgc g)
      in ebind (separate_list H al behind g) (\<lambda>(g, keep, fin, m).
           Inr (g\<lparr>rootgc := upto @ keep, tmudata := tmudata g @ fin\<rparr>, m)))"

definition insert_behind :: "gaddr \<Rightarrow> gaddr \<Rightarrow> gaddr list \<Rightarrow> gaddr list" where
  "insert_behind p a xs = takeWhile (\<lambda>x. x \<noteq> p) xs @ p # a # tl (dropWhile (\<lambda>x. x \<noteq> p) xs)"

definition GCTM :: "gc_host \<Rightarrow> gc_State \<Rightarrow> gc_State res" where
  "GCTM H g =
     (case tmudata g of
        [] \<Rightarrow> Inl (ErrUB ''no userdata to finalize'')
      | ud # rest \<Rightarrow>
          ebind (makewhite ud (g\<lparr>tmudata := rest, rootgc := insert_behind (mainthread g) ud (rootgc g)\<rparr>)) (\<lambda>g.
          ebind (get_obj g ud) (\<lambda>ob. case obj_body ob of
              BUserdata mt env \<Rightarrow>
                ebind (tm_of g mt (tmname_gc g)) (\<lambda>tm.
                  if tm = NilV then Inr g
                  else let oldt = GCthreshold g
                       in ebind (call_gctm H tm ud (g\<lparr>GCthreshold := 2 * totalbytes g\<rparr>)) (\<lambda>g.
                            Inr (g\<lparr>GCthreshold := oldt\<rparr>)))
            | _ \<Rightarrow> Inl (ErrUB ''no userdata''))))"

text \<open>\<^verbatim>\<open>while (G(L)->tmudata) GCTM(L)\<close>, with the number of calls as fuel.\<close>

definition luaC_callGCTM :: "nat \<Rightarrow> gc_host \<Rightarrow> gc_State \<Rightarrow> gc_State res" where
  "luaC_callGCTM n H = while_n n (\<lambda>g. tmudata g \<noteq> []) (GCTM H)"

section \<open>The cycle\<close>

definition markmt :: "gc_State \<Rightarrow> gc_State res" where
  "markmt g = efold mark_opt (basic_mt g) g"

text \<open>The globals of the main thread are marked before its stack.\<close>

definition markroot :: "gc_State \<Rightarrow> gc_State res" where
  "markroot g =
     ebind (markobject (mainthread g) (g\<lparr>gray := [], grayagain := [], weak := []\<rparr>)) (\<lambda>g.
     ebind (get_thread g (mainthread g)) (\<lambda>t.
     ebind (markvalue (l_gt t) g) (\<lambda>g.
     ebind (markvalue (registry g) g) (\<lambda>g.
     ebind (markmt g) (\<lambda>g. Inr (g\<lparr>phase := GCpropagate\<rparr>))))))"

definition remarkupval :: "gaddr \<Rightarrow> gc_State \<Rightarrow> gc_State res" where
  "remarkupval uv g = ebind (get_obj g uv) (\<lambda>ob.
     if isgray (marked ob) then
       case obj_body ob of
         BUpval u \<Rightarrow> ebind (upval_value g u) (\<lambda>v. markvalue v g)
       | _ \<Rightarrow> Inl (ErrUB ''no upvalue'')
     else Inr g)"

definition remarkupvals :: "gc_State \<Rightarrow> gc_State res" where
  "remarkupvals g = efold remarkupval (uvhead g) g"

text \<open>\<open>L\<close> is the running thread.\<close>

definition atomic :: "gc_host \<Rightarrow> gaddr \<Rightarrow> gc_State \<Rightarrow> gc_State res" where
  "atomic H L g =
     ebind (remarkupvals g) (\<lambda>g.
     ebind (propagateall H g) (\<lambda>(g, _).
     ebind (markobject L (g\<lparr>gray := weak g, weak := []\<rparr>)) (\<lambda>g.
     ebind (markmt g) (\<lambda>g.
     ebind (propagateall H g) (\<lambda>(g, _).
     ebind (propagateall H (g\<lparr>gray := grayagain g, grayagain := []\<rparr>)) (\<lambda>(g, _).
     ebind (luaC_separateudata H False g) (\<lambda>(g, udsize).
     ebind (marktmu g) (\<lambda>g.
     ebind (propagateall H g) (\<lambda>(g, m).
     ebind (cleartable (weak g) g) (\<lambda>g.
       Inr (g\<lparr>gcwhite := otherwhite_of (gcwhite g), sweepstrgc := 0, sweepgc := None, phase := GCsweepstring,
              estimate := totalbytes g - (udsize + m)\<rparr>)))))))))))"

text \<open>
  \<^verbatim>\<open>checkSizes\<close> may shrink the string table (theory LString) and a buffer; neither moves an object.
\<close>

definition singlestep :: "gc_host \<Rightarrow> gaddr \<Rightarrow> gc_State \<Rightarrow> (gc_State \<times> u64) res" where
  "singlestep H L g = (case phase g of
       GCpause \<Rightarrow> ebind (markroot g) (\<lambda>g. Inr (g, 0))
     | GCpropagate \<Rightarrow>
         if gray g \<noteq> [] then propagatemark H g
         else ebind (atomic H L g) (\<lambda>g. Inr (g, 0))
     | GCsweepstring \<Rightarrow>
         let old = totalbytes g in
         ebind (sweep_bucket H (sweepstrgc g) (g\<lparr>sweepstrgc := sweepstrgc g + 1\<rparr>)) (\<lambda>g.
         let g = (if length (hash_lists g) \<le> sweepstrgc g then g\<lparr>phase := GCsweep\<rparr> else g)
         in Inr (g\<lparr>estimate := estimate g - (old - totalbytes g)\<rparr>, GCSWEEPCOST))
     | GCsweep \<Rightarrow>
         let old = totalbytes g in
         ebind (sweeplist H GCSWEEPMAX g) (\<lambda>g.
         let g = (if unswept g = [] then g\<lparr>phase := GCfinalize\<rparr> else g)
         in Inr (g\<lparr>estimate := estimate g - (old - totalbytes g)\<rparr>, of_nat GCSWEEPMAX * GCSWEEPCOST))
     | GCfinalize \<Rightarrow>
         if tmudata g \<noteq> [] then
           ebind (GCTM H g) (\<lambda>g.
             Inr (if GCFINALIZECOST < estimate g then g\<lparr>estimate := estimate g - GCFINALIZECOST\<rparr> else g, GCFINALIZECOST))
         else Inr (g\<lparr>phase := GCpause, gcdept := 0\<rparr>, 0))"

definition setthreshold :: "gc_State \<Rightarrow> gc_State" where
  "setthreshold g = g\<lparr>GCthreshold := estimate g div 100 * gcpause g\<rparr>"

text \<open>
  The loop of \<^verbatim>\<open>luaC_step\<close>; \<open>lim\<close> is signed and the cost of a step is at most a small multiple of the
  memory.  The fuel is the number of steps.
\<close>

primrec gc_step_loop :: "nat \<Rightarrow> gc_host \<Rightarrow> gaddr \<Rightarrow> int \<Rightarrow> gc_State \<Rightarrow> gc_State res" where
  "gc_step_loop 0 H L lim g = Inl ErrLoop"
| "gc_step_loop (Suc n) H L lim g =
     ebind (singlestep H L g) (\<lambda>(g, c).
       if phase g = GCpause then Inr g
       else if 0 < lim - sint c then gc_step_loop n H L (lim - sint c) g
       else Inr g)"

definition luaC_step :: "nat \<Rightarrow> gc_host \<Rightarrow> gaddr \<Rightarrow> gc_State \<Rightarrow> gc_State res" where
  "luaC_step n H L g =
     (let lim = (10 * gcstepmul g) mod 2 ^ 32;
          lim = (if lim = 0 then (2 ^ 64 - 4) div 2 else lim);
          g = g\<lparr>gcdept := gcdept g + (totalbytes g - GCthreshold g)\<rparr>
      in ebind (gc_step_loop n H L lim g) (\<lambda>g.
           if phase g \<noteq> GCpause then
             if gcdept g < GCSTEPSIZE then Inr (g\<lparr>GCthreshold := totalbytes g + GCSTEPSIZE\<rparr>)
             else Inr (g\<lparr>gcdept := gcdept g - GCSTEPSIZE, GCthreshold := totalbytes g\<rparr>)
           else Inr (setthreshold g)))"

definition luaC_checkGC :: "nat \<Rightarrow> gc_host \<Rightarrow> gaddr \<Rightarrow> gc_State \<Rightarrow> gc_State res" where
  "luaC_checkGC n H L g = (if GCthreshold g \<le> totalbytes g then luaC_step n H L g else Inr g)"

definition reset_cycle :: "gc_State \<Rightarrow> gc_State" where
  "reset_cycle g =
     (if phase g = GCpause \<or> phase g = GCpropagate
      then g\<lparr>sweepstrgc := 0, sweepgc := None, gray := [], grayagain := [], weak := [], phase := GCsweepstring\<rparr> else g)"

text \<open>The two loops of \<^verbatim>\<open>luaC_fullgc\<close>, with the number of steps of each as fuel.\<close>

definition step_only :: "gc_host \<Rightarrow> gaddr \<Rightarrow> gc_State \<Rightarrow> gc_State res" where
  "step_only H L g = ebind (singlestep H L g) (\<lambda>(g, c). Inr g)"

definition luaC_fullgc :: "nat \<Rightarrow> gc_host \<Rightarrow> gaddr \<Rightarrow> gc_State \<Rightarrow> gc_State res" where
  "luaC_fullgc n H L g =
     ebind (while_n n (\<lambda>g. phase g \<noteq> GCfinalize) (step_only H L) (reset_cycle g)) (\<lambda>g.
     ebind (markroot g) (\<lambda>g.
     ebind (while_n n (\<lambda>g. phase g \<noteq> GCpause) (step_only H L) g) (\<lambda>g. Inr (setthreshold g))))"

end
