(* ===== verification/LGC_Inv.thy ===== *)
theory LGC_Inv
  imports LGC_Cycle
begin

text \<open>
  The vocabulary of the collector's theorems: the bits of a mark, the references of an object, the
  well-formed heaps, and the effect of marking on the heap.
\<close>

section \<open>The bits of a mark\<close>

lemma const_bits:
  "bit WHITE_BITS n \<longleftrightarrow> n = 0 \<or> n = 1" "bit BLACK_BIT n \<longleftrightarrow> n = 2" "bit FINALIZED_BIT n \<longleftrightarrow> n = 3"
  "bit KEYWEAK n \<longleftrightarrow> n = 3" "bit VALUEWEAK n \<longleftrightarrow> n = 4" "bit FIXED_BIT n \<longleftrightarrow> n = 5" "bit SFIXED_BIT n \<longleftrightarrow> n = 6"
proof -
  have e: "BLACK_BIT = 2 ^ 2" "FINALIZED_BIT = 2 ^ 3" "KEYWEAK = 2 ^ 3" "VALUEWEAK = 2 ^ 4" "FIXED_BIT = 2 ^ 5"
    "SFIXED_BIT = 2 ^ 6"
    by (simp_all add: BLACK_BIT_def FINALIZED_BIT_def KEYWEAK_def VALUEWEAK_def FIXED_BIT_def SFIXED_BIT_def)
  show "bit BLACK_BIT n \<longleftrightarrow> n = 2" "bit FINALIZED_BIT n \<longleftrightarrow> n = 3" "bit KEYWEAK n \<longleftrightarrow> n = 3"
    "bit VALUEWEAK n \<longleftrightarrow> n = 4" "bit FIXED_BIT n \<longleftrightarrow> n = 5" "bit SFIXED_BIT n \<longleftrightarrow> n = 6"
    unfolding e bit_exp_iff by auto
  show "bit WHITE_BITS n \<longleftrightarrow> n = 0 \<or> n = 1"
    unfolding WHITE_BITS_def by (cases n) (auto simp: bit_Suc bit_1_iff)
qed

lemma and_zero_bits: "m AND k = 0 \<longleftrightarrow> (\<forall>n. bit m n \<longrightarrow> \<not> bit k n)" for m :: lu_byte
proof
  assume "m AND k = 0"
  then have "\<not> bit (m AND k) n" for n by simp
  then show "\<forall>n. bit m n \<longrightarrow> \<not> bit k n" by (simp add: bit_and_iff)
next
  assume "\<forall>n. bit m n \<longrightarrow> \<not> bit k n"
  then show "m AND k = 0" by (intro bit_eqI) (simp add: bit_and_iff)
qed

lemma and_const:
  "m AND WHITE_BITS = 0 \<longleftrightarrow> \<not> bit m 0 \<and> \<not> bit m 1" "m AND BLACK_BIT = 0 \<longleftrightarrow> \<not> bit m 2"
  "m AND FINALIZED_BIT = 0 \<longleftrightarrow> \<not> bit m 3" "m AND KEYWEAK = 0 \<longleftrightarrow> \<not> bit m 3" "m AND VALUEWEAK = 0 \<longleftrightarrow> \<not> bit m 4"
  for m :: lu_byte
  unfolding and_zero_bits const_bits by metis+

lemmas mark_bits = const_bits bit_and_iff bit_or_iff bit_xor_iff bit_not_iff

lemma color_bits: "iswhite m \<longleftrightarrow> bit m 0 \<or> bit m 1" "isblack m \<longleftrightarrow> bit m 2" "isgray m \<longleftrightarrow> \<not> bit m 0 \<and> \<not> bit m 1 \<and> \<not> bit m 2"
  by (auto simp: iswhite_def isblack_def isgray_def and_const)

lemma white2gray_bit: "bit (white2gray m) n \<longleftrightarrow> bit m n \<and> n \<noteq> 0 \<and> n \<noteq> 1"
  using bit_imp_possible_bit [of m n] by (auto simp: white2gray_def mark_bits)

lemma black2gray_bit: "bit (black2gray m) n \<longleftrightarrow> bit m n \<and> n \<noteq> 2"
  using bit_imp_possible_bit [of m n] by (auto simp: black2gray_def mark_bits)

lemma gray2black_bit: "bit (gray2black m) n \<longleftrightarrow> bit m n \<or> n = 2"
  by (auto simp: gray2black_def mark_bits)

lemma make_white_bit: "bit (make_white w m) n \<longleftrightarrow> (if n = 0 \<or> n = 1 then bit w n else bit m n \<and> n \<noteq> 2)"
  using bit_imp_possible_bit [of m n] by (auto simp: make_white_def white_of_def mark_bits)

lemma white_of_bit: "bit (white_of w) n \<longleftrightarrow> (n = 0 \<or> n = 1) \<and> bit w n"
  by (auto simp: white_of_def mark_bits)

lemma markfinalized_bit: "bit (markfinalized m) n \<longleftrightarrow> bit m n \<or> n = 3"
  by (auto simp: markfinalized_def mark_bits)

lemma weak_bits_bit:
  "bit (set_weak_bits wk wv m) n \<longleftrightarrow> (if n = 3 then wk else if n = 4 then wv else bit m n)"
  using bit_imp_possible_bit [of m n] by (auto simp: set_weak_bits_def mark_bits)

lemma otherwhite_bit: "bit (otherwhite_of w) n \<longleftrightarrow> bit w n \<noteq> (n = 0 \<or> n = 1)"
  by (auto simp: otherwhite_of_def mark_bits)

lemma dead_mark_bits: "dead_mark w m \<longleftrightarrow> bit m 0 \<and> \<not> bit w 0 \<or> bit m 1 \<and> \<not> bit w 1"
  unfolding dead_mark_def and_zero_bits by (simp add: bit_and_iff otherwhite_bit const_bits) blast

lemmas mark_ops = white2gray_bit black2gray_bit gray2black_bit make_white_bit white_of_bit markfinalized_bit
  weak_bits_bit otherwhite_bit color_bits dead_mark_bits

lemma white2gray_gray [simp]: "\<not> iswhite m \<Longrightarrow> white2gray m = m"
  unfolding color_bits(1) by (rule bit_eqI) (unfold white2gray_bit, metis)

lemma colors_simps [simp]:
  "\<not> iswhite (white2gray m)" "\<not> iswhite (gray2black m) \<longleftrightarrow> \<not> iswhite m" "iswhite (black2gray m) \<longleftrightarrow> iswhite m"
  "isblack (gray2black m)" "\<not> isblack (black2gray m)" "isblack (white2gray m) \<longleftrightarrow> isblack m"
  "iswhite (set_weak_bits wk wv m) \<longleftrightarrow> iswhite m" "isblack (set_weak_bits wk wv m) \<longleftrightarrow> isblack m"
  "iswhite (markfinalized m) \<longleftrightarrow> iswhite m" "isblack (markfinalized m) \<longleftrightarrow> isblack m"
  "\<not> isblack (make_white w m)"
  by (auto simp: mark_ops)

section \<open>Objects and references\<close>

definition ob :: "gc_State \<Rightarrow> gaddr \<Rightarrow> gobj option" where
  "ob g a = (if a < length (objs g) then objs g ! a else None)"

lemma get_obj_ob: "get_obj g a = Inr x \<longleftrightarrow> ob g a = Some x"
  by (auto simp: get_obj_def ob_def split: option.splits)

lemma get_obj_Some [simp]: "ob g a = Some x \<Longrightarrow> get_obj g a = Inr x"
  by (simp add: get_obj_ob)

lemma ob_length: "ob g a = Some x \<Longrightarrow> a < length (objs g)"
  by (auto simp: ob_def split: if_splits)

lemma ob_set_obj: "a < length (objs g) \<Longrightarrow> ob (set_obj a x g) b = (if b = a then Some x else ob g b)"
  by (auto simp: set_obj_def ob_def)

lemma ob_cong: "objs g = objs g' \<Longrightarrow> ob g = ob g'"
  by (auto simp: ob_def fun_eq_iff)

lemma ob_record [simp]:
  "ob (g\<lparr>gray := xs\<rparr>) = ob g" "ob (g\<lparr>weak := xs\<rparr>) = ob g" "ob (g\<lparr>grayagain := xs\<rparr>) = ob g"
  "ob (g\<lparr>phase := p\<rparr>) = ob g" "ob (g\<lparr>tmudata := xs\<rparr>) = ob g" "ob (g\<lparr>rootgc := xs\<rparr>) = ob g"
  "ob (g\<lparr>sweepgc := sp\<rparr>) = ob g" "ob (g\<lparr>gcwhite := w\<rparr>) = ob g" "ob (g\<lparr>sweepstrgc := i\<rparr>) = ob g"
  "ob (g\<lparr>estimate := e\<rparr>) = ob g" "ob (g\<lparr>uvhead := xs\<rparr>) = ob g" "ob (g\<lparr>nuse := i\<rparr>) = ob g"
  "ob (g\<lparr>hash_lists := hs\<rparr>) = ob g" "ob (g\<lparr>totalbytes := e\<rparr>) = ob g" "ob (g\<lparr>GCthreshold := e\<rparr>) = ob g" "ob (g\<lparr>gcdept := e\<rparr>) = ob g"
  by (simp_all add: ob_def fun_eq_iff)

lemma upd_mark_ob: "ob g a = Some x \<Longrightarrow> upd_mark a f g = Inr (set_obj a (x\<lparr>marked := f (marked x)\<rparr>) g)"
  by (simp add: upd_mark_def upd_obj_def)

lemma upd_body_ob: "ob g a = Some x \<Longrightarrow> upd_body a b g = Inr (set_obj a (x\<lparr>obj_body := b\<rparr>) g)"
  by (simp add: upd_body_def upd_obj_def)

datatype gkind = KString | KUserdata | KUpval | KTable | KFunction | KThread | KProto

primrec kind_of :: "gbody \<Rightarrow> gkind" where
  "kind_of (BString s) = KString"
| "kind_of (BUserdata m e) = KUserdata"
| "kind_of (BUpval u) = KUpval"
| "kind_of (BTable m a ns) = KTable"
| "kind_of (BCclosure e ups) = KFunction"
| "kind_of (BLclosure e p ups) = KFunction"
| "kind_of (BThread t) = KThread"
| "kind_of (BProto f) = KProto"

text \<open>What the type of a reference allows: the value of a variable is no upvalue and no prototype.\<close>

datatype want = AnyValue | Only gkind

fun accepts :: "want \<Rightarrow> gkind \<Rightarrow> bool" where
  "accepts AnyValue k \<longleftrightarrow> k \<noteq> KUpval \<and> k \<noteq> KProto"
| "accepts (Only k) k' \<longleftrightarrow> k = k'"

fun vref :: "gval \<Rightarrow> (want \<times> gaddr) list" where
  "vref (Ref a) = [(AnyValue, a)]" | "vref _ = []"

definition oref :: "gkind \<Rightarrow> gaddr option \<Rightarrow> (want \<times> gaddr) list" where
  "oref k p = (case p of None \<Rightarrow> [] | Some a \<Rightarrow> [(Only k, a)])"

definition nref :: "gval \<times> gval \<Rightarrow> (want \<times> gaddr) list" where
  "nref n = (if snd n = NilV then [] else vref (fst n) @ vref (snd n))"

text \<open>The stack of the thread at an address, if there is one.\<close>

definition stack_of :: "gc_State \<Rightarrow> gaddr \<Rightarrow> gval list" where
  "stack_of g th = (case ob g th of Some x \<Rightarrow> (case obj_body x of BThread t \<Rightarrow> stack t | _ \<Rightarrow> []) | None \<Rightarrow> [])"

primrec upv_ref :: "gc_State \<Rightarrow> upv \<Rightarrow> (want \<times> gaddr) list" where
  "upv_ref g (Closed v) = vref v"
| "upv_ref g (Open th i) = (if i < length (stack_of g th) then vref (stack_of g th ! i) else [])"

primrec trefs :: "gc_State \<Rightarrow> gbody \<Rightarrow> (want \<times> gaddr) list" where
  "trefs g (BString s) = []"
| "trefs g (BUserdata m e) = oref KTable m @ [(Only KTable, e)]"
| "trefs g (BUpval u) = upv_ref g u"
| "trefs g (BTable m arr ns) = oref KTable m @ concat (map vref arr) @ concat (map nref ns)"
| "trefs g (BCclosure e ups) = (Only KTable, e) # concat (map vref ups)"
| "trefs g (BLclosure e p ups) = (Only KTable, e) # (Only KProto, p) # concat (map (oref KUpval) ups)"
| "trefs g (BThread t) = vref (l_gt t) @ concat (map vref (take (th_top t) (stack t)))"
| "trefs g (BProto f) = oref KString (pr_source f) @ concat (map vref (pr_k f)) @ concat (map (oref KString) (pr_upvalues f)) @
     concat (map (oref KProto) (pr_p f)) @ concat (map (oref KString) (pr_locvars f))"

definition refs :: "gc_State \<Rightarrow> gaddr \<Rightarrow> gaddr set" where
  "refs g a = (case ob g a of None \<Rightarrow> {} | Some x \<Rightarrow> snd ` set (trefs g (obj_body x)))"

text \<open>Dead keys occur only in empty nodes; the tops of a thread lie in its stack.\<close>

primrec shape_ok :: "gc_State \<Rightarrow> gbody \<Rightarrow> bool" where
  "shape_ok g (BString s) \<longleftrightarrow> True"
| "shape_ok g (BUserdata m e) \<longleftrightarrow> True"
| "shape_ok g (BUpval u) \<longleftrightarrow> (case u of Closed v \<Rightarrow> v \<noteq> DeadK | Open th i \<Rightarrow> i < length (stack_of g th))"
| "shape_ok g (BTable m arr ns) \<longleftrightarrow> DeadK \<notin> set arr \<and> list_all (\<lambda>(k, v). v \<noteq> DeadK \<and> (k = DeadK \<longrightarrow> v = NilV)) ns"
| "shape_ok g (BCclosure e ups) \<longleftrightarrow> DeadK \<notin> set ups"
| "shape_ok g (BLclosure e p ups) \<longleftrightarrow> None \<notin> set ups"
| "shape_ok g (BThread t) \<longleftrightarrow> l_gt t \<noteq> DeadK \<and> DeadK \<notin> set (stack t) \<and> stack_lim t < length (stack t)"
| "shape_ok g (BProto f) \<longleftrightarrow> DeadK \<notin> set (pr_k f)"

definition kind_at :: "gc_State \<Rightarrow> gaddr \<Rightarrow> gkind option" where
  "kind_at g a = map_option (kind_of \<circ> obj_body) (ob g a)"

definition target_ok :: "gc_State \<Rightarrow> want \<times> gaddr \<Rightarrow> bool" where
  "target_ok g wr \<longleftrightarrow> (case kind_at g (snd wr) of None \<Rightarrow> False | Some k \<Rightarrow> accepts (fst wr) k)"

definition body_ok :: "gc_State \<Rightarrow> gbody \<Rightarrow> bool" where
  "body_ok g b \<longleftrightarrow> shape_ok g b \<and> list_all (target_ok g) (trefs g b)"

definition heap_valid :: "gc_State \<Rightarrow> bool" where
  "heap_valid g \<longleftrightarrow> (\<forall>a x. ob g a = Some x \<longrightarrow> body_ok g (obj_body x))"

definition white :: "gc_State \<Rightarrow> gaddr \<Rightarrow> bool" where
  "white g a \<longleftrightarrow> (case ob g a of None \<Rightarrow> False | Some x \<Rightarrow> iswhite (marked x))"

definition nonwhite :: "gc_State \<Rightarrow> gaddr \<Rightarrow> bool" where
  "nonwhite g a \<longleftrightarrow> (case ob g a of None \<Rightarrow> False | Some x \<Rightarrow> \<not> iswhite (marked x))"

lemma white_iff: "ob g a = Some x \<Longrightarrow> white g a \<longleftrightarrow> iswhite (marked x)" "ob g a = Some x \<Longrightarrow> nonwhite g a \<longleftrightarrow> \<not> iswhite (marked x)"
  by (simp_all add: white_def nonwhite_def)

end
