(* ===== verification/LGC_Mark.thy ===== *)
theory LGC_Mark
  imports LGC_Inv
begin

text \<open>
  Marking.  \<open>marks R g g'\<close> says what \<^verbatim>\<open>reallymarkobject\<close> and everything built from it may do: some
  white objects of \<open>R\<close> get their new colour, those with a list of their own enter \<open>gray\<close>, and the
  references of the others are marked at once.
\<close>

section \<open>Bodies\<close>

definition same_bodies :: "gc_State \<Rightarrow> gc_State \<Rightarrow> bool" where
  "same_bodies g g' \<longleftrightarrow> (\<forall>a. map_option obj_body (ob g' a) = map_option obj_body (ob g a))"

lemma same_bodies_refl [simp]: "same_bodies g g"
  by (simp add: same_bodies_def)

lemma same_bodies_some: "same_bodies g g' \<Longrightarrow> ob g' a = Some x' \<Longrightarrow> \<exists>x. ob g a = Some x \<and> obj_body x = obj_body x'"
  unfolding same_bodies_def by (metis map_option_eq_Some)

lemma same_bodies_stack: "same_bodies g g' \<Longrightarrow> stack_of g' = stack_of g"
proof
  fix th assume "same_bodies g g'"
  then have "map_option obj_body (ob g' th) = map_option obj_body (ob g th)" by (simp add: same_bodies_def)
  then show "stack_of g' th = stack_of g th"
    by (cases "ob g th"; cases "ob g' th") (auto simp: stack_of_def)
qed

lemma same_bodies_kind: "same_bodies g g' \<Longrightarrow> kind_at g' = kind_at g"
  unfolding same_bodies_def kind_at_def fun_eq_iff by (metis option.map_comp)

lemma stack_trefs: "stack_of g' = stack_of g \<Longrightarrow> trefs g' = trefs g" "stack_of g' = stack_of g \<Longrightarrow> shape_ok g' = shape_ok g"
proof -
  assume s: "stack_of g' = stack_of g"
  have "upv_ref g' u = upv_ref g u" for u by (cases u) (simp_all add: s)
  then have "trefs g' b = trefs g b" for b by (cases b) simp_all
  then show "trefs g' = trefs g" by blast
  have "shape_ok g' b = shape_ok g b" for b by (cases b) (simp_all add: s split: upv.splits)
  then show "shape_ok g' = shape_ok g" by blast
qed

lemma heap_valid_bodies: "heap_valid g \<longleftrightarrow> (\<forall>a b. map_option obj_body (ob g a) = Some b \<longrightarrow> body_ok g b)"
  by (auto simp: heap_valid_def)

lemma same_bodies_refs:
  assumes "same_bodies g g'"
  shows "trefs g' = trefs g" "refs g' = refs g" "target_ok g' = target_ok g" "body_ok g' = body_ok g"
    "heap_valid g' \<longleftrightarrow> heap_valid g"
proof -
  show t: "trefs g' = trefs g" using stack_trefs(1) same_bodies_stack [OF assms] by blast
  show "refs g' = refs g"
  proof
    fix a
    have "map_option obj_body (ob g' a) = map_option obj_body (ob g a)" using assms by (simp add: same_bodies_def)
    then show "refs g' a = refs g a" by (cases "ob g a"; cases "ob g' a") (simp_all add: refs_def t)
  qed
  show k: "target_ok g' = target_ok g" by (simp add: target_ok_def same_bodies_kind [OF assms] fun_eq_iff)
  show b: "body_ok g' = body_ok g"
    using stack_trefs(2) [OF same_bodies_stack [OF assms]] by (simp add: body_ok_def t k fun_eq_iff)
  show "heap_valid g' \<longleftrightarrow> heap_valid g" using assms unfolding heap_valid_bodies b same_bodies_def by simp
qed

section \<open>The effect of marking\<close>

definition newmark :: "gobj \<Rightarrow> lu_byte" where
  "newmark x = (case obj_body x of
       BUserdata _ _ \<Rightarrow> gray2black (white2gray (marked x))
     | BUpval (Closed _) \<Rightarrow> gray2black (white2gray (marked x))
     | _ \<Rightarrow> white2gray (marked x))"

definition container :: "gbody \<Rightarrow> bool" where
  "container b \<longleftrightarrow> kind_of b \<in> {KTable, KFunction, KThread, KProto}"

definition all_marked :: "gc_State \<Rightarrow> gaddr set \<Rightarrow> bool" where
  "all_marked g S \<longleftrightarrow> (\<forall>r \<in> S. nonwhite g r)"

definition mark_point :: "gaddr set \<Rightarrow> gc_State \<Rightarrow> gc_State \<Rightarrow> gaddr \<Rightarrow> bool" where
  "mark_point R g g' a \<longleftrightarrow> ob g' a = ob g a \<or>
     (\<exists>x. ob g a = Some x \<and> iswhite (marked x) \<and> a \<in> R \<and> ob g' a = Some (x\<lparr>marked := newmark x\<rparr>) \<and>
       (container (obj_body x) \<or> all_marked g' (refs g a)))"

definition newly_gray :: "gc_State \<Rightarrow> gc_State \<Rightarrow> gaddr \<Rightarrow> bool" where
  "newly_gray g g' a \<longleftrightarrow> (\<exists>x. ob g a = Some x \<and> iswhite (marked x) \<and> container (obj_body x) \<and> nonwhite g' a)"

definition marks :: "gaddr set \<Rightarrow> gc_State \<Rightarrow> gc_State \<Rightarrow> bool" where
  "marks R g g' \<longleftrightarrow> length (objs g') = length (objs g) \<and> (\<forall>a. mark_point R g g' a) \<and>
     (\<exists>new. g' = g\<lparr>objs := objs g', gray := new @ gray g\<rparr> \<and> distinct new \<and> (\<forall>a. a \<in> set new \<longleftrightarrow> newly_gray g g' a))"

lemma newmark_nonwhite [simp]: "\<not> iswhite (newmark x)"
  by (auto simp: newmark_def split: gbody.splits upv.splits)

lemma nonwhite_ob: "nonwhite g a \<longleftrightarrow> (\<exists>x. ob g a = Some x \<and> \<not> iswhite (marked x))"
  by (simp add: nonwhite_def split: option.splits)

lemma marks_bodies: "marks R g g' \<Longrightarrow> same_bodies g g'"
  unfolding marks_def same_bodies_def mark_point_def by (metis gobj.select_convs(2) gobj.surjective gobj.update_convs(1) option.map(2))

lemma marks_kept: "marks R g g' \<Longrightarrow> nonwhite g a \<Longrightarrow> ob g' a = ob g a"
  by (auto simp: marks_def mark_point_def nonwhite_ob)

lemma marks_nonwhite: "marks R g g' \<Longrightarrow> nonwhite g a \<Longrightarrow> nonwhite g' a"
  using marks_kept by (simp add: nonwhite_def)

lemma all_marked_mono: "marks R g g' \<Longrightarrow> all_marked g S \<Longrightarrow> all_marked g' S"
  using marks_nonwhite by (simp add: all_marked_def)

lemma all_marked_empty [simp]: "all_marked g {}"
  by (simp add: all_marked_def)

lemma all_marked_subset: "all_marked g S \<Longrightarrow> T \<subseteq> S \<Longrightarrow> all_marked g T"
  by (auto simp: all_marked_def)

lemma all_marked_Un [simp]: "all_marked g (S \<union> T) \<longleftrightarrow> all_marked g S \<and> all_marked g T"
  by (auto simp: all_marked_def)

lemma marks_refl: "marks R g g"
  by (auto simp: marks_def mark_point_def newly_gray_def nonwhite_def intro!: exI [of _ "[]"])

lemma marks_trans:
  assumes a: "marks R g g1" and b: "marks R g1 g2"
  shows "marks R g g2"
proof -
  obtain n1 where n1: "g1 = g\<lparr>objs := objs g1, gray := n1 @ gray g\<rparr>" "distinct n1" "\<And>a. a \<in> set n1 \<longleftrightarrow> newly_gray g g1 a"
    using a by (auto simp: marks_def)
  obtain n2 where n2: "g2 = g1\<lparr>objs := objs g2, gray := n2 @ gray g1\<rparr>" "distinct n2" "\<And>a. a \<in> set n2 \<longleftrightarrow> newly_gray g1 g2 a"
    using b by (auto simp: marks_def)
  have refs: "refs g1 = refs g" using same_bodies_refs(2) [OF marks_bodies [OF a]] .
  have pt: "mark_point R g g2 c" for c
  proof -
    have p: "mark_point R g g1 c" "mark_point R g1 g2 c" using a b by (simp_all add: marks_def)
    show ?thesis
    proof (cases "ob g1 c = ob g c")
      case True
      then show ?thesis using p(2) by (simp add: mark_point_def refs)
    next
      case False
      then obtain x where x: "ob g c = Some x" "iswhite (marked x)" "c \<in> R" "ob g1 c = Some (x\<lparr>marked := newmark x\<rparr>)"
        "container (obj_body x) \<or> all_marked g1 (refs g c)" using p(1) by (auto simp: mark_point_def)
      then have "nonwhite g1 c" by (simp add: nonwhite_def)
      then have "ob g2 c = ob g1 c" by (rule marks_kept [OF b])
      with x all_marked_mono [OF b] show ?thesis by (auto simp: mark_point_def)
    qed
  qed
  have "distinct (n2 @ n1)"
  proof -
    have False if "c \<in> set n1" "c \<in> set n2" for c
      using that n1(3) n2(3) by (auto simp: newly_gray_def nonwhite_def)
    then show ?thesis using n1(2) n2(2) by auto
  qed
  moreover have "c \<in> set (n2 @ n1) \<longleftrightarrow> newly_gray g g2 c" for c
  proof -
    have p: "mark_point R g g1 c" "mark_point R g1 g2 c" using a b by (simp_all add: marks_def)
    have "newly_gray g g1 c \<or> newly_gray g1 g2 c \<longleftrightarrow> newly_gray g g2 c"
    proof (cases "ob g1 c = ob g c")
      case True
      then have "\<not> newly_gray g g1 c" by (auto simp: newly_gray_def nonwhite_def)
      moreover have "newly_gray g1 g2 c \<longleftrightarrow> newly_gray g g2 c" by (simp add: newly_gray_def True)
      ultimately show ?thesis by blast
    next
      case False
      then have nw: "nonwhite g1 c" using p(1) by (auto simp: mark_point_def nonwhite_def)
      then have "\<not> newly_gray g1 g2 c" by (auto simp: newly_gray_def nonwhite_def)
      with nw marks_nonwhite [OF b nw] show ?thesis by (auto simp: newly_gray_def)
    qed
    then show ?thesis using n1(3) n2(3) by auto
  qed
  moreover have "g2 = g\<lparr>objs := objs g2, gray := (n2 @ n1) @ gray g\<rparr>"
  proof -
    have "g1\<lparr>objs := xs, gray := ys\<rparr> = g\<lparr>objs := xs, gray := ys\<rparr>" for xs ys
      by (rule ssubst [OF n1(1), of "\<lambda>z. z\<lparr>objs := xs, gray := ys\<rparr> = g\<lparr>objs := xs, gray := ys\<rparr>"]) simp
    with n2(1) arg_cong [OF n1(1), of gray] show ?thesis by simp
  qed
  ultimately show ?thesis
    using a b unfolding marks_def by (intro conjI exI [of _ "n2 @ n1"] allI pt) simp_all
qed

definition marking :: "gaddr set \<Rightarrow> gc_State \<Rightarrow> gaddr set \<Rightarrow> (gc_State \<Rightarrow> gc_State res) \<Rightarrow> bool" where
  "marking R g T f \<longleftrightarrow> (\<forall>g1. marks R g g1 \<longrightarrow> (\<exists>g2. f g1 = Inr g2 \<and> marks R g1 g2 \<and> all_marked g2 T))"

lemma markingD: "marking R g T f \<Longrightarrow> \<exists>g2. f g = Inr g2 \<and> marks R g g2 \<and> all_marked g2 T"
  using marks_refl [of R g] by (simp add: marking_def)

lemma marking_skip: "marking R g {} Inr"
  using marks_refl by (auto simp: marking_def all_marked_def)

lemma marking_bind:
  assumes "marking R g S f" "marking R g T h"
  shows "marking R g (S \<union> T) (\<lambda>x. ebind (f x) h)"
  unfolding marking_def
proof (intro allI impI)
  fix g1 assume g1: "marks R g g1"
  with assms(1) obtain g2 where g2: "f g1 = Inr g2" "marks R g1 g2" "all_marked g2 S" by (auto simp: marking_def)
  from marks_trans [OF g1 g2(2)] assms(2) obtain g3 where g3: "h g2 = Inr g3" "marks R g2 g3" "all_marked g3 T"
    by (auto simp: marking_def)
  show "\<exists>g3. ebind (f g1) h = Inr g3 \<and> marks R g1 g3 \<and> all_marked g3 (S \<union> T)"
    using g2 g3 marks_trans [OF g2(2) g3(2)] all_marked_mono [OF g3(2) g2(3)] by simp
qed

lemma marking_fold:
  "(\<And>x. x \<in> set xs \<Longrightarrow> marking R g (T x) (f x)) \<Longrightarrow> marking R g (\<Union>x \<in> set xs. T x) (efold f xs)"
proof (induction xs)
  case Nil
  then show ?case using marking_skip by (simp add: marking_def)
next
  case (Cons x xs)
  have "marking R g (T x \<union> (\<Union>x \<in> set xs. T x)) (\<lambda>s. ebind (f x s) (efold f xs))"
    using Cons by (intro marking_bind) simp_all
  then show ?case by (simp add: marking_def)
qed

lemma marking_weaken: "marking R g S f \<Longrightarrow> T \<subseteq> S \<Longrightarrow> marking R g T f"
  unfolding marking_def all_marked_def by (meson subsetD)

section \<open>One object\<close>

definition closed :: "gaddr set \<Rightarrow> gc_State \<Rightarrow> bool" where
  "closed R g \<longleftrightarrow> (\<forall>x \<in> R. refs g x \<subseteq> R)"

lemma set_obj_same: "ob g a = Some x \<Longrightarrow> set_obj a x g = g"
proof -
  assume "ob g a = Some x"
  then have "objs g ! a = Some x" by (simp add: ob_def split: if_splits)
  then have "(objs g)[a := Some x] = objs g" by (metis list_update_id)
  then show ?thesis by (simp add: set_obj_def)
qed

lemma set_obj_frame: "length (objs (set_obj a x g)) = length (objs g)"
  "gray (set_obj a x g) = gray g"
  by (simp_all add: set_obj_def)

lemma ob_set [simp]: "ob g a = Some y \<Longrightarrow> ob (set_obj a x g) = (ob g)(a := Some x)"
  using ob_set_obj [OF ob_length] by (auto simp: fun_eq_iff)

lemma set_obj_set [simp]: "set_obj a y (set_obj a x g) = set_obj a y g"
  by (simp add: set_obj_def)

lemma set_mark_bodies: "ob g a = Some x \<Longrightarrow> same_bodies g (set_obj a (x\<lparr>marked := m\<rparr>) g)"
  by (simp add: same_bodies_def)

lemma marks_container:
  assumes x: "ob g a = Some x" "iswhite (marked x)" and R: "a \<in> R" and c: "container (obj_body x)"
  shows "marks R g ((set_obj a (x\<lparr>marked := white2gray (marked x)\<rparr>) g)\<lparr>gray := a # gray g\<rparr>)"
proof -
  have n: "newmark x = white2gray (marked x)"
    using c by (auto simp: newmark_def container_def split: gbody.splits)
  let ?g = "(set_obj a (x\<lparr>marked := white2gray (marked x)\<rparr>) g)\<lparr>gray := a # gray g\<rparr>"
  have "\<And>b. mark_point R g ?g b" using x R c by (simp add: mark_point_def n)
  moreover have "b \<in> set [a] \<longleftrightarrow> newly_gray g ?g b" for b
    using x c by (auto simp: newly_gray_def nonwhite_def split: option.splits if_splits)
  moreover have "?g = g\<lparr>objs := objs ?g, gray := [a] @ gray g\<rparr>" by (simp add: set_obj_def)
  moreover have "length (objs ?g) = length (objs g)" by (simp add: set_obj_frame)
  moreover have "distinct [a]" by simp
  ultimately show ?thesis unfolding marks_def by blast
qed

text \<open>An object without a list: its mark changes first, then its references are marked, then its mark is complete.\<close>

lemma marks_around:
  assumes x: "ob g a = Some x" "iswhite (marked x)" and R: "a \<in> R" and c: "\<not> container (obj_body x)"
    and m: "\<not> iswhite m" "marks R (set_obj a (x\<lparr>marked := m\<rparr>) g) g2" and kids: "all_marked g2 (refs g a)"
    and g3: "g3 = set_obj a (x\<lparr>marked := newmark x\<rparr>) g2"
  shows "marks R g g3" "nonwhite g3 a"
proof -
  let ?g1 = "set_obj a (x\<lparr>marked := m\<rparr>) g"
  have nw1: "nonwhite ?g1 a" using x m(1) by (simp add: nonwhite_def)
  have a2: "ob g2 a = Some (x\<lparr>marked := m\<rparr>)" using marks_kept [OF m(2) nw1] x by simp
  have o3: "ob g3 = (ob g2)(a := Some (x\<lparr>marked := newmark x\<rparr>))" using a2 unfolding g3 by simp
  show nw: "nonwhite g3 a" by (simp add: nonwhite_def o3)
  have nw3: "nonwhite g3 b \<longleftrightarrow> nonwhite g2 b" for b
    using a2 m(1) by (simp add: nonwhite_def o3)
  have refs: "refs ?g1 = refs g" using same_bodies_refs(2) set_mark_bodies [OF x(1)] by blast
  have "mark_point R g g3 b" for b
  proof (cases "b = a")
    case True
    then show ?thesis using x R kids nw3 by (simp add: mark_point_def o3 all_marked_def)
  next
    case False
    have "mark_point R ?g1 g2 b" using m(2) by (simp add: marks_def)
    then show ?thesis using False x by (simp add: mark_point_def o3 refs all_marked_def nw3)
  qed
  moreover obtain new where new: "g2 = ?g1\<lparr>objs := objs g2, gray := new @ gray ?g1\<rparr>" "distinct new"
    "\<And>b. b \<in> set new \<longleftrightarrow> newly_gray ?g1 g2 b" using m(2) by (auto simp: marks_def)
  moreover have "newly_gray ?g1 g2 b \<longleftrightarrow> newly_gray g g3 b" for b
    using x c m(1) by (auto simp: newly_gray_def nw3)
  moreover have "g3 = g\<lparr>objs := objs g3, gray := new @ gray g\<rparr>"
    unfolding g3 by (rule ssubst [OF new(1), of "\<lambda>z. set_obj a y z = g\<lparr>objs := objs (set_obj a y z), gray := new @ gray g\<rparr>" for y])
      (simp add: set_obj_def)
  moreover have "length (objs g3) = length (objs g)" using m(2) unfolding g3 marks_def by (simp add: set_obj_frame)
  ultimately show "marks R g g3" unfolding marks_def by blast
qed

lemma marks_ob_same: "same_bodies g g' \<Longrightarrow> ob g a = Some x \<Longrightarrow> \<exists>x'. ob g' a = Some x' \<and> obj_body x' = obj_body x"
  unfolding same_bodies_def by (metis map_option_eq_Some)

lemma closed_same: "same_bodies g g' \<Longrightarrow> closed R g' = closed R g"
  by (simp add: closed_def same_bodies_refs)

fun depth :: "gkind \<Rightarrow> nat" where
  "depth KUpval = 3" | "depth KUserdata = 2" | "depth _ = 1"

definition mark_at :: "nat \<Rightarrow> gaddr \<Rightarrow> gc_State \<Rightarrow> gc_State res" where
  "mark_at n a g = ebind (get_obj g a) (\<lambda>ob. if iswhite (marked ob) then reallymark n a g else Inr g)"

definition mark_val_at :: "nat \<Rightarrow> gval \<Rightarrow> gc_State \<Rightarrow> gc_State res" where
  "mark_val_at n v g = (case v of Ref a \<Rightarrow> mark_at n a g | DeadK \<Rightarrow> Inl (ErrUB ''dead key marked'') | _ \<Rightarrow> Inr g)"

lemma reallymark_Suc: "reallymark (Suc n) a g =
   ebind (upd_mark a white2gray g) (\<lambda>g. ebind (get_obj g a) (\<lambda>ob. case obj_body ob of
       BString s \<Rightarrow> Inr g
     | BUserdata mt env \<Rightarrow>
         ebind (upd_mark a gray2black g) (\<lambda>g. ebind (case mt of None \<Rightarrow> Inr g | Some t \<Rightarrow> mark_at n t g) (mark_at n env))
     | BUpval u \<Rightarrow>
         ebind (upval_value g u) (\<lambda>v. ebind (mark_val_at n v g) (\<lambda>g.
           case u of Closed _ \<Rightarrow> upd_mark a gray2black g | Open _ _ \<Rightarrow> Inr g))
     | _ \<Rightarrow> Inr (g\<lparr>gray := a # gray g\<rparr>)))"
  unfolding reallymark.simps Let_def mark_at_def [abs_def] mark_val_at_def [abs_def] by (rule refl)

definition enough :: "nat \<Rightarrow> bool" where
  "enough n \<longleftrightarrow> (\<forall>R g a x. heap_valid g \<longrightarrow> closed R g \<longrightarrow> a \<in> R \<longrightarrow> ob g a = Some x \<longrightarrow> iswhite (marked x) \<longrightarrow>
     depth (kind_of (obj_body x)) \<le> n \<longrightarrow>
     (\<exists>g'. reallymark n a g = Inr g' \<and> marks R g g' \<and> nonwhite g' a))"

lemma mark_at_marking:
  assumes n: "enough n" and v: "heap_valid g" "closed R g" and a: "a \<in> R" "target_ok g (w, a)"
    and d: "\<And>k. accepts w k \<Longrightarrow> depth k \<le> n"
  shows "marking R g {a} (mark_at n a)"
  unfolding marking_def
proof (intro allI impI)
  fix g1 assume m: "marks R g g1"
  note sb = marks_bodies [OF m]
  from a(2) obtain x where x: "ob g a = Some x" "accepts w (kind_of (obj_body x))"
    by (auto simp: target_ok_def kind_at_def split: option.splits)
  from marks_ob_same [OF sb x(1)] obtain x1 where x1: "ob g1 a = Some x1" "obj_body x1 = obj_body x" by blast
  show "\<exists>g2. mark_at n a g1 = Inr g2 \<and> marks R g1 g2 \<and> all_marked g2 {a}"
  proof (cases "iswhite (marked x1)")
    case True
    have "heap_valid g1" "closed R g1" using v same_bodies_refs(5) [OF sb] closed_same [OF sb] by simp_all
    with n True x1 x d a(1) obtain g2 where "reallymark n a g1 = Inr g2" "marks R g1 g2" "nonwhite g2 a"
      unfolding enough_def by metis
    then show ?thesis using True x1 by (simp add: mark_at_def all_marked_def)
  next
    case False
    then show ?thesis using x1 marks_refl by (simp add: mark_at_def all_marked_def nonwhite_def)
  qed
qed

lemma upval_value_ok:
  assumes "shape_ok g (BUpval u)"
  obtains v where "upval_value g u = Inr v" "trefs g (BUpval u) = vref v" "v = DeadK \<longrightarrow> (\<exists>th i. u = Open th i)"
proof (cases u)
  case (Closed v)
  then show ?thesis using that assms by (simp add: upval_value_def)
next
  case (Open th i)
  then have i: "i < length (stack_of g th)" using assms by simp
  then obtain x t where "ob g th = Some x" "obj_body x = BThread t" "stack_of g th = stack t"
    by (cases "ob g th") (auto simp: stack_of_def split: gbody.splits)
  then show ?thesis using that Open i by (simp add: upval_value_def)
qed

lemma body_okD: "heap_valid g \<Longrightarrow> ob g a = Some x \<Longrightarrow> shape_ok g (obj_body x) \<and> (\<forall>wr \<in> set (trefs g (obj_body x)). target_ok g wr)"
  by (auto simp: heap_valid_def body_ok_def list_all_iff)

lemma ref_in: "closed R g \<Longrightarrow> a \<in> R \<Longrightarrow> ob g a = Some x \<Longrightarrow> (w, r) \<in> set (trefs g (obj_body x)) \<Longrightarrow> r \<in> R"
  unfolding closed_def refs_def by force

lemma stack_no_dead: "heap_valid g \<Longrightarrow> i < length (stack_of g th) \<Longrightarrow> stack_of g th ! i \<noteq> DeadK"
proof -
  assume v: "heap_valid g" and i: "i < length (stack_of g th)"
  then obtain x t where t: "ob g th = Some x" "obj_body x = BThread t" "stack_of g th = stack t"
    by (cases "ob g th") (auto simp: stack_of_def split: gbody.splits)
  then have "DeadK \<notin> set (stack t)" using body_okD [OF v t(1)] by simp
  then show ?thesis using i t(3) by (metis nth_mem)
qed

lemma val_marking:
  assumes n: "enough n" "2 \<le> n" and v: "heap_valid g" "closed R g" "x \<noteq> DeadK"
    and r: "\<And>w a. (w, a) \<in> set (vref x) \<Longrightarrow> a \<in> R \<and> target_ok g (w, a)"
  shows "marking R g (snd ` set (vref x)) (mark_val_at n x)"
proof (cases x)
  case (Ref a)
  have d: "depth k \<le> n" if "accepts AnyValue k" for k using that n(2) by (cases k) simp_all
  have "marking R g {a} (mark_at n a)"
    by (rule mark_at_marking [where w = AnyValue, OF n(1) v(1,2) _ _ d]) (use r [of AnyValue a] Ref in simp_all)
  then show ?thesis using Ref by (simp add: mark_val_at_def marking_def)
qed (use v(3) marking_skip [of R g] in \<open>simp_all add: mark_val_at_def marking_def\<close>)

lemma enough_Suc: "enough n \<Longrightarrow> enough (Suc n)"
  unfolding enough_def [of "Suc n"]
proof (intro allI impI)
  fix R g a x
  assume n: "enough n" and v: "heap_valid g" "closed R g" and a: "a \<in> R" and x: "ob g a = Some x" "iswhite (marked x)"
    and d: "depth (kind_of (obj_body x)) \<le> Suc n"
  let ?x1 = "x\<lparr>marked := white2gray (marked x)\<rparr>"
  let ?g1 = "set_obj a ?x1 g"
  have u: "upd_mark a white2gray g = Inr ?g1" using x by (simp add: upd_mark_ob)
  have o1: "ob ?g1 a = Some ?x1" using x by simp
  note ok = body_okD [OF v(1) x(1)]
  have in_R: "r \<in> R" if "(w, r) \<in> set (trefs g (obj_body x))" for w r using ref_in [OF v(2) a x(1) that] .
  have refs: "refs g a = snd ` set (trefs g (obj_body x))" using x by (simp add: refs_def)
  have sb: "same_bodies g ?g1" by (rule set_mark_bodies [OF x(1)])
  show "\<exists>g'. reallymark (Suc n) a g = Inr g' \<and> marks R g g' \<and> nonwhite g' a"
  proof (cases "container (obj_body x)")
    case True
    then have "reallymark (Suc n) a g = Inr (?g1\<lparr>gray := a # gray ?g1\<rparr>)"
      unfolding reallymark_Suc u by (auto simp: o1 container_def split: gbody.splits)
    then show ?thesis using marks_container [OF x a True] o1 by (simp add: set_obj_frame nonwhite_def)
  next
    case False
    then consider (str) s where "obj_body x = BString s" | (ud) m e where "obj_body x = BUserdata m e"
      | (uv) uv where "obj_body x = BUpval uv" by (cases "obj_body x") (auto simp: container_def)
    then show ?thesis
    proof cases
      case str
      then have "newmark x = white2gray (marked x)" "refs g a = {}" by (simp_all add: newmark_def refs)
      then have "marks R g ?g1" "nonwhite ?g1 a"
        using marks_around [OF x a False _ marks_refl, of "white2gray (marked x)" ?g1] x by (simp_all add: all_marked_def)
      then show ?thesis using str unfolding reallymark_Suc u by (simp add: o1)
    next
      case ud
      let ?x2 = "x\<lparr>marked := gray2black (white2gray (marked x))\<rparr>"
      let ?g2 = "set_obj a ?x2 g"
      have u2: "upd_mark a gray2black ?g1 = Inr ?g2" using o1 by (simp add: upd_mark_ob)
      have sb2: "same_bodies g ?g2" using set_mark_bodies [OF x(1)] .
      have v2: "heap_valid ?g2" "closed R ?g2" "target_ok ?g2 = target_ok g"
        using v same_bodies_refs [OF sb2] closed_same [OF sb2] by simp_all
      have n1: "1 \<le> n" using d ud by simp
      have tab: "depth k \<le> n" if "accepts (Only KTable) k" for k using that n1 by (cases k) simp_all
      have e: "marking R ?g2 {e} (mark_at n e)"
        by (rule mark_at_marking [OF n v2(1,2) _ _ tab]) (use in_R ok ud v2(3) in auto)
      have "marking R ?g2 (snd ` set (oref KTable m)) (\<lambda>g. case m of None \<Rightarrow> Inr g | Some t \<Rightarrow> mark_at n t g)"
      proof (cases m)
        case (Some t)
        have "marking R ?g2 {t} (mark_at n t)"
          by (rule mark_at_marking [OF n v2(1,2) _ _ tab]) (use in_R ok ud Some v2(3) in \<open>auto simp: oref_def\<close>)
        with Some show ?thesis by (simp add: oref_def)
      qed (simp add: oref_def marking_skip)
      from markingD [OF marking_bind [OF this e]] obtain g3 where
        g3: "ebind (case m of None \<Rightarrow> Inr ?g2 | Some t \<Rightarrow> mark_at n t ?g2) (mark_at n e) = Inr g3"
        "marks R ?g2 g3" "all_marked g3 (refs g a)" using ud by (auto simp: refs)
      have nm: "newmark x = gray2black (white2gray (marked x))" using ud by (simp add: newmark_def)
      have "nonwhite ?g2 a" using x by (simp add: nonwhite_def)
      then have "ob g3 a = Some ?x2" using marks_kept [OF g3(2)] x by simp
      then have "set_obj a ?x2 g3 = g3" by (rule set_obj_same)
      then have "marks R g g3 \<and> nonwhite g3 a"
        using marks_around [OF x a False _ g3(2,3), of g3] nm by simp
      then show ?thesis using ud g3(1) u2 unfolding reallymark_Suc u by (simp add: o1)
    next
      case uv
      have shape: "shape_ok g (BUpval uv)" using ok uv by simp
      obtain val where val: "upval_value g uv = Inr val" "trefs g (BUpval uv) = vref val" "val = DeadK \<longrightarrow> (\<exists>th i. uv = Open th i)"
        by (rule upval_value_ok [OF shape])
      have nd: "val \<noteq> DeadK"
      proof
        assume "val = DeadK"
        with val(1,3) shape obtain th i where "uv = Open th i" "i < length (stack_of g th)" by auto
        moreover from this val(1) have "stack_of g th ! i = val"
          by (cases "ob g th") (auto simp: upval_value_def stack_of_def split: gbody.splits if_splits)
        ultimately show False using stack_no_dead [OF v(1)] \<open>val = DeadK\<close> by blast
      qed
      have st: "stack_of ?g1 = stack_of g" by (rule same_bodies_stack [OF sb])
      have "shape_ok ?g1 (BUpval uv)" using stack_trefs(2) [OF st] shape by simp
      then obtain val1 where val1: "upval_value ?g1 uv = Inr val1" by (rule upval_value_ok)
      have "val1 = val"
      proof (cases uv)
        case (Open th i)
        have "map_option obj_body (ob ?g1 th) = map_option obj_body (ob g th)" using sb by (simp add: same_bodies_def)
        then show ?thesis using val1 val(1) Open
          by (cases "ob g th"; cases "ob ?g1 th")
             (auto simp: upval_value_def get_obj_ob ebind_Inr_iff split: gbody.splits if_splits simp del: ob_set)
      qed (use val1 val(1) in \<open>simp add: upval_value_def\<close>)
      then have value1: "upval_value ?g1 uv = Inr val" using val1 by simp
      have v1: "heap_valid ?g1" "closed R ?g1" "target_ok ?g1 = target_ok g"
        using v same_bodies_refs [OF sb] closed_same [OF sb] by simp_all
      have "marking R ?g1 (snd ` set (vref val)) (mark_val_at n val)"
        by (rule val_marking [OF n _ v1(1,2) nd]) (use d uv in_R ok val(2) v1(3) in auto)
      from markingD [OF this] obtain g2 where
        g2: "mark_val_at n val ?g1 = Inr g2" "marks R ?g1 g2" "all_marked g2 (refs g a)"
        using uv val(2) by (auto simp: refs)
      have "nonwhite ?g1 a" using o1 by (simp add: nonwhite_def)
      then have o2: "ob g2 a = Some ?x1" using marks_kept [OF g2(2)] o1 by simp
      let ?g3 = "set_obj a (x\<lparr>marked := newmark x\<rparr>) g2"
      have "(case uv of Closed _ \<Rightarrow> upd_mark a gray2black g2 | Open _ _ \<Rightarrow> Inr g2) = Inr ?g3"
        using o2 uv set_obj_same [OF o2] by (cases uv) (simp_all add: upd_mark_ob newmark_def)
      moreover have "marks R g ?g3 \<and> nonwhite ?g3 a"
        using marks_around [OF x a False _ g2(2,3) refl] by simp
      ultimately show ?thesis using uv g2(1) value1 unfolding reallymark_Suc u by (simp add: o1)
    qed
  qed
qed

end
