(* ===== verification/LGC_Trav.thy ===== *)
theory LGC_Trav
  imports LGC_Mark
begin

text \<open>
  The traversal of objects: every operation of \<^verbatim>\<open>propagatemark\<close> marks the references of its object.
\<close>

section \<open>The marking operations\<close>

lemma depth_le_3: "depth k \<le> 3"
  by (cases k) simp_all

lemma enough_all: "enough n"
proof (induction n)
  case 0
  have "0 < depth k" for k by (cases k) simp_all
  then show ?case by (metis enough_def not_le)
qed (rule enough_Suc)

lemma reallymarkobject_ok:
  assumes "heap_valid g" "closed R g" "a \<in> R" "white g a"
  shows "\<exists>g'. reallymarkobject a g = Inr g' \<and> marks R g g' \<and> nonwhite g' a"
  using enough_all [of 3] assms depth_le_3 unfolding enough_def reallymarkobject_def
  by (auto simp: white_def split: option.splits)

lemma markobject_at: "markobject = mark_at 3"
  unfolding markobject_def [abs_def] mark_at_def [abs_def] reallymarkobject_def by (rule refl)

lemma markvalue_at: "markvalue = mark_val_at 3"
  by (simp add: fun_eq_iff markvalue_def mark_val_at_def markobject_at split: gval.splits)

text \<open>A list of references, all of the right kind and in \<open>R\<close>.\<close>

definition in_reach :: "gaddr set \<Rightarrow> gc_State \<Rightarrow> (want \<times> gaddr) list \<Rightarrow> bool" where
  "in_reach R g wrs \<longleftrightarrow> list_all (\<lambda>wr. target_ok g wr \<and> snd wr \<in> R) wrs"

lemma in_reach_simps [simp]:
  "in_reach R g []" "in_reach R g (wr # wrs) \<longleftrightarrow> target_ok g wr \<and> snd wr \<in> R \<and> in_reach R g wrs"
  "in_reach R g (xs @ ys) \<longleftrightarrow> in_reach R g xs \<and> in_reach R g ys"
  "in_reach R g (concat xss) \<longleftrightarrow> (\<forall>xs \<in> set xss. in_reach R g xs)"
  by (auto simp: in_reach_def list_all_iff)

abbreviation targets :: "(want \<times> gaddr) list \<Rightarrow> gaddr set" where "targets wrs \<equiv> snd ` set wrs"

lemma in_reach_body:
  "heap_valid g \<Longrightarrow> closed R g \<Longrightarrow> a \<in> R \<Longrightarrow> ob g a = Some x \<Longrightarrow> in_reach R g (trefs g (obj_body x))"
  using body_okD ref_in by (fastforce simp: in_reach_def list_all_iff)

lemma markobject_marking:
  assumes "heap_valid g" "closed R g" "in_reach R g [(w, a)]"
  shows "marking R g {a} (markobject a)"
  unfolding markobject_at
  by (rule mark_at_marking [where w = w, OF enough_all assms(1,2)]) (use assms(3) depth_le_3 in simp_all)

lemma markvalue_marking:
  assumes "heap_valid g" "closed R g" "v \<noteq> DeadK" "in_reach R g (vref v)"
  shows "marking R g (targets (vref v)) (markvalue v)"
  unfolding markvalue_at
  by (rule val_marking [OF enough_all _ assms(1,2,3)]) (use assms(4) in \<open>auto simp: in_reach_def list_all_iff\<close>)

lemma mark_opt_marking:
  assumes "heap_valid g" "closed R g" "in_reach R g (oref k p)"
  shows "marking R g (targets (oref k p)) (mark_opt p)"
proof (cases p)
  case (Some a)
  then show ?thesis using markobject_marking [OF assms(1,2), of "Only k" a] assms(3)
    by (simp add: mark_opt_def [abs_def] oref_def)
qed (simp add: mark_opt_def [abs_def] oref_def marking_skip)

lemma stringmark_marking:
  assumes "heap_valid g" "in_reach R g [(Only KString, a)]"
  shows "marking R g {a} (stringmark a)"
  unfolding marking_def
proof (intro allI impI)
  fix g1 assume m: "marks R g g1"
  note sb = marks_bodies [OF m]
  from assms(2) obtain x s where x: "ob g a = Some x" "obj_body x = BString s" and R: "a \<in> R"
    by (auto simp: target_ok_def kind_at_def split: option.splits) (metis kind_of.simps gbody.exhaust gkind.distinct)
  from marks_ob_same [OF sb x(1)] obtain x1 where x1: "ob g1 a = Some x1" "obj_body x1 = BString s" using x(2) by metis
  show "\<exists>g2. stringmark a g1 = Inr g2 \<and> marks R g1 g2 \<and> all_marked g2 {a}"
  proof (cases "iswhite (marked x1)")
    case True
    have n: "newmark x1 = white2gray (marked x1)" "refs g1 a = {}" "\<not> container (obj_body x1)"
      using x1 by (simp_all add: newmark_def refs_def container_def)
    let ?g2 = "set_obj a (x1\<lparr>marked := white2gray (marked x1)\<rparr>) g1"
    have "marks R g1 ?g2 \<and> nonwhite ?g2 a"
      using marks_around [OF x1(1) True R n(3) _ marks_refl, of "white2gray (marked x1)" ?g2] x1(1) n(1,2)
      by (simp add: all_marked_def)
    then show ?thesis using x1(1) by (simp add: stringmark_def upd_mark_ob all_marked_def)
  next
    case False
    then have "stringmark a g1 = Inr g1" using set_obj_same [OF x1(1)] by (simp add: stringmark_def upd_mark_ob x1(1))
    then show ?thesis using False x1 marks_refl by (simp add: all_marked_def nonwhite_def)
  qed
qed

lemma stringmark_opt_marking:
  assumes "heap_valid g" "in_reach R g (oref KString p)"
  shows "marking R g (targets (oref KString p)) (stringmark_opt p)"
proof (cases p)
  case (Some a)
  then show ?thesis using stringmark_marking [OF assms(1), of R a] assms(2)
    by (simp add: stringmark_opt_def [abs_def] oref_def)
qed (simp add: stringmark_opt_def [abs_def] oref_def marking_skip)

text \<open>Loops over the parts of an object.\<close>

lemma targets_concat: "targets (concat (map f xs)) = (\<Union>x \<in> set xs. targets (f x))"
  by (induction xs) auto

lemma marking_values:
  assumes "heap_valid g" "closed R g" "DeadK \<notin> set vs" "in_reach R g (concat (map vref vs))"
  shows "marking R g (targets (concat (map vref vs))) (efold markvalue vs)"
  unfolding targets_concat using assms by (intro marking_fold markvalue_marking) auto

lemma marking_opts:
  assumes "heap_valid g" "closed R g" "in_reach R g (concat (map (oref k) ps))"
  shows "marking R g (targets (concat (map (oref k) ps))) (efold mark_opt ps)"
  unfolding targets_concat using assms by (intro marking_fold mark_opt_marking) auto

lemma marking_strings:
  assumes "heap_valid g" "in_reach R g (concat (map (oref KString) ps))"
  shows "marking R g (targets (concat (map (oref KString) ps))) (efold stringmark_opt ps)"
  unfolding targets_concat using assms by (intro marking_fold stringmark_opt_marking) auto

lemma image_Un_set: "snd ` set (xs @ ys) = snd ` set xs \<union> snd ` set ys"
  by auto

section \<open>The traversals\<close>

lemma traverseproto_marking:
  assumes "heap_valid g" "closed R g" "DeadK \<notin> set (pr_k f)" "in_reach R g (trefs g (BProto f))"
  shows "marking R g (targets (trefs g (BProto f))) (traverseproto f)"
proof -
  have "marking R g (targets (trefs g (BProto f))) (\<lambda>g. ebind (stringmark_opt (pr_source f) g) (\<lambda>g.
     ebind (efold markvalue (pr_k f) g) (\<lambda>g. ebind (efold stringmark_opt (pr_upvalues f) g) (\<lambda>g.
     ebind (efold mark_opt (pr_p f) g) (efold stringmark_opt (pr_locvars f))))))"
    unfolding trefs.simps image_Un_set using assms
    by (intro marking_bind stringmark_opt_marking marking_values marking_strings marking_opts) simp_all
  then show ?thesis by (simp add: traverseproto_def [abs_def])
qed

lemma traversecclosure_marking:
  assumes "heap_valid g" "closed R g" "DeadK \<notin> set ups" "in_reach R g (trefs g (BCclosure e ups))"
  shows "marking R g (targets (trefs g (BCclosure e ups))) (traversecclosure e ups)"
proof -
  have "marking R g ({e} \<union> targets (concat (map vref ups))) (\<lambda>g. ebind (markobject e g) (efold markvalue ups))"
    using assms by (intro marking_bind marking_values markobject_marking [of g R "Only KTable"]) simp_all
  then show ?thesis by (simp add: traversecclosure_def [abs_def])
qed

lemma traverselclosure_marking:
  assumes "heap_valid g" "closed R g" "None \<notin> set ups" "in_reach R g (trefs g (BLclosure e p ups))"
  shows "marking R g (targets (trefs g (BLclosure e p ups))) (traverselclosure e p ups)"
proof -
  have "marking R g (targets (oref KUpval u)) (mark_upval u)" if "u \<in> set ups" for u
  proof (cases u)
    case (Some a)
    then have "in_reach R g [(Only KUpval, a)]" using that assms(4) by (auto simp: oref_def)
    then show ?thesis using markobject_marking [OF assms(1,2), of "Only KUpval" a] Some
      by (simp add: mark_upval_def [abs_def] oref_def)
  qed (use that assms(3) in simp)
  then have "marking R g (targets (concat (map (oref KUpval) ups))) (efold mark_upval ups)"
    unfolding targets_concat by (intro marking_fold) simp
  then have "marking R g ({e} \<union> ({p} \<union> targets (concat (map (oref KUpval) ups))))
      (\<lambda>g. ebind (markobject e g) (\<lambda>g. ebind (markobject p g) (efold mark_upval ups)))"
    using assms markobject_marking [of g R "Only KTable" e] markobject_marking [of g R "Only KProto" p]
    by (intro marking_bind) simp_all
  then show ?thesis by (simp add: traverselclosure_def [abs_def] insert_commute)
qed

section \<open>Steps of a traversal\<close>

text \<open>
  What may change while the object at \<open>a\<close> is traversed: other objects are only marked, \<open>a\<close> itself keeps
  being marked and may lose references, and the lists \<open>weak\<close> and \<open>grayagain\<close> are free.
\<close>

definition body_frame :: "gbody \<Rightarrow> gbody \<Rightarrow> bool" where
  "body_frame b b' \<longleftrightarrow> (case b of
       BTable m arr ns \<Rightarrow> \<exists>arr' ns'. b' = BTable m arr' ns'
     | BThread t \<Rightarrow> \<exists>st. b' = BThread (t\<lparr>stack := st\<rparr>) \<and> length st = length (stack t)
     | _ \<Rightarrow> b' = b)"

lemma body_frame_refl [simp]: "body_frame b b"
proof (cases b)
  case (BThread t)
  then show ?thesis by (auto simp: body_frame_def intro!: exI [of _ "stack t"])
qed (simp_all add: body_frame_def)

lemma body_frame_trans: "body_frame b1 b2 \<Longrightarrow> body_frame b2 b3 \<Longrightarrow> body_frame b1 b3"
  by (auto simp: body_frame_def split: gbody.splits)

lemma body_frame_kind: "body_frame b b' \<Longrightarrow> kind_of b' = kind_of b"
  by (auto simp: body_frame_def split: gbody.splits)

definition shrinks :: "gc_State \<Rightarrow> gc_State \<Rightarrow> bool" where
  "shrinks g g' \<longleftrightarrow> (\<forall>c y y'. ob g c = Some y \<longrightarrow> ob g' c = Some y' \<longrightarrow>
     body_frame (obj_body y) (obj_body y') \<and>
     set (trefs g' (obj_body y')) \<subseteq> set (trefs g (obj_body y)) \<and>
     (shape_ok g (obj_body y) \<longrightarrow> shape_ok g' (obj_body y')))"

lemma shrinksD: "shrinks g g' \<Longrightarrow> ob g c = Some y \<Longrightarrow> ob g' c = Some y' \<Longrightarrow>
   body_frame (obj_body y) (obj_body y') \<and> set (trefs g' (obj_body y')) \<subseteq> set (trefs g (obj_body y)) \<and>
   (shape_ok g (obj_body y) \<longrightarrow> shape_ok g' (obj_body y'))"
  unfolding shrinks_def by blast

definition tpoint :: "gaddr set \<Rightarrow> gc_State \<Rightarrow> gc_State \<Rightarrow> gaddr \<Rightarrow> bool" where
  "tpoint R g g' c \<longleftrightarrow> ob g' c = ob g c \<or>
     (\<exists>x. ob g c = Some x \<and> iswhite (marked x) \<and> c \<in> R \<and> ob g' c = Some (x\<lparr>marked := newmark x\<rparr>) \<and>
       (container (obj_body x) \<or> all_marked g' (refs g' c)))"

definition tstep :: "gaddr \<Rightarrow> gaddr set \<Rightarrow> gc_State \<Rightarrow> gc_State \<Rightarrow> bool" where
  "tstep a R g g' \<longleftrightarrow> length (objs g') = length (objs g) \<and> (\<forall>c. c \<noteq> a \<longrightarrow> tpoint R g g' c) \<and>
     nonwhite g a \<and> nonwhite g' a \<and> shrinks g g' \<and>
     (\<exists>new. g' = g\<lparr>objs := objs g', gray := new @ gray g, weak := weak g', grayagain := grayagain g'\<rparr> \<and>
       distinct new \<and> (\<forall>c. c \<in> set new \<longleftrightarrow> newly_gray g g' c))"

lemma tstepI:
  assumes "length (objs g') = length (objs g)" "\<And>c. c \<noteq> a \<Longrightarrow> tpoint R g g' c" "nonwhite g a" "nonwhite g' a" "shrinks g g'"
    and "g' = g\<lparr>objs := objs g', gray := new @ gray g, weak := weak g', grayagain := grayagain g'\<rparr>"
    and "distinct new" "\<And>c. c \<in> set new \<longleftrightarrow> newly_gray g g' c"
  shows "tstep a R g g'"
  unfolding tstep_def
  by (intro conjI exI [of _ new] allI impI) (fact assms(1), erule assms(2), fact assms(3), fact assms(4), fact assms(5), fact assms(6), fact assms(7), fact assms(8))

lemma same_bodies_shrinks: "same_bodies g g' \<Longrightarrow> shrinks g g'"
  unfolding shrinks_def using same_bodies_refs(1) [of g g'] stack_trefs(2) [OF same_bodies_stack, of g g']
  by (auto dest: marks_ob_same)

lemma shrinks_refs: "shrinks g g' \<Longrightarrow> (ob g' c \<noteq> None \<Longrightarrow> ob g c \<noteq> None) \<Longrightarrow> refs g' c \<subseteq> refs g c"
  by (cases "ob g' c"; cases "ob g c") (auto simp: refs_def shrinks_def image_iff subset_iff)

lemma tstep_ob: "tstep a R g g' \<Longrightarrow> ob g' c \<noteq> None \<longleftrightarrow> ob g c \<noteq> None"
  by (cases "c = a") (auto simp: tstep_def tpoint_def nonwhite_ob)

lemma tstep_refs: "tstep a R g g' \<Longrightarrow> refs g' c \<subseteq> refs g c"
  using tstep_ob shrinks_refs by (metis tstep_def)

lemma tstep_kept: "tstep a R g g' \<Longrightarrow> c \<noteq> a \<Longrightarrow> nonwhite g c \<Longrightarrow> ob g' c = ob g c"
  by (auto simp: tstep_def tpoint_def nonwhite_ob)

lemma tstep_nonwhite: "tstep a R g g' \<Longrightarrow> nonwhite g c \<Longrightarrow> nonwhite g' c"
  using tstep_kept [of a R g g' c] by (cases "c = a") (auto simp: tstep_def nonwhite_def)

lemma tstep_all_marked: "tstep a R g g' \<Longrightarrow> all_marked g S \<Longrightarrow> all_marked g' S"
  using tstep_nonwhite by (auto simp: all_marked_def)

lemma marks_tstep:
  assumes "marks R g g'" "nonwhite g a"
  shows "tstep a R g g'"
proof -
  note sb = marks_bodies [OF assms(1)]
  have "tpoint R g g' c" for c
    using assms(1) same_bodies_refs(2) [OF sb] by (auto simp: marks_def mark_point_def tpoint_def)
  moreover obtain new where new: "g' = g\<lparr>objs := objs g', gray := new @ gray g\<rparr>" "distinct new"
    "\<forall>c. c \<in> set new \<longleftrightarrow> newly_gray g g' c" using assms(1) by (auto simp: marks_def)
  moreover have "weak g' = weak g" "grayagain g' = grayagain g"
    using arg_cong [OF new(1), of weak] arg_cong [OF new(1), of grayagain] by simp_all
  then have "g' = g\<lparr>objs := objs g', gray := new @ gray g, weak := weak g', grayagain := grayagain g'\<rparr>"
    by (subst new(1)) simp
  moreover have "length (objs g') = length (objs g)" using assms(1) by (simp add: marks_def)
  moreover note assms(2) marks_nonwhite [OF assms] same_bodies_shrinks [OF sb]
  ultimately show ?thesis unfolding tstep_def by blast
qed

lemma tstep_trans:
  assumes a: "tstep a R g g1" and b: "tstep a R g1 g2"
  shows "tstep a R g g2"
proof -
  obtain n1 where n1: "g1 = g\<lparr>objs := objs g1, gray := n1 @ gray g, weak := weak g1, grayagain := grayagain g1\<rparr>"
    "distinct n1" "\<And>c. c \<in> set n1 \<longleftrightarrow> newly_gray g g1 c" using a by (auto simp: tstep_def)
  obtain n2 where n2: "g2 = g1\<lparr>objs := objs g2, gray := n2 @ gray g1, weak := weak g2, grayagain := grayagain g2\<rparr>"
    "distinct n2" "\<And>c. c \<in> set n2 \<longleftrightarrow> newly_gray g1 g2 c" using b by (auto simp: tstep_def)
  have pt: "tpoint R g g2 c" if "c \<noteq> a" for c
  proof -
    have p: "tpoint R g g1 c" "tpoint R g1 g2 c" using a b that by (simp_all add: tstep_def)
    show ?thesis
    proof (cases "ob g1 c = ob g c")
      case True
      then show ?thesis using p(2) by (simp add: tpoint_def)
    next
      case False
      then obtain x where x: "ob g c = Some x" "iswhite (marked x)" "c \<in> R" "ob g1 c = Some (x\<lparr>marked := newmark x\<rparr>)"
        "container (obj_body x) \<or> all_marked g1 (refs g1 c)" using p(1) by (auto simp: tpoint_def)
      then have "nonwhite g1 c" by (simp add: nonwhite_def)
      then have "ob g2 c = ob g1 c" by (rule tstep_kept [OF b that])
      moreover have "all_marked g2 (refs g2 c)" if "all_marked g1 (refs g1 c)"
        using tstep_all_marked [OF b that] tstep_refs [OF b, of c] by (auto simp: all_marked_def)
      ultimately show ?thesis using x by (auto simp: tpoint_def)
    qed
  qed
  have ng: "newly_gray g g1 c \<or> newly_gray g1 g2 c \<longleftrightarrow> newly_gray g g2 c"
    "\<not> (newly_gray g g1 c \<and> newly_gray g1 g2 c)" for c
  proof -
    have "nonwhite g1 c" if "newly_gray g g1 c" using that by (auto simp: newly_gray_def)
    then show "\<not> (newly_gray g g1 c \<and> newly_gray g1 g2 c)" by (auto simp: newly_gray_def nonwhite_def)
    show "newly_gray g g1 c \<or> newly_gray g1 g2 c \<longleftrightarrow> newly_gray g g2 c"
    proof (cases "nonwhite g1 c")
      case True
      then have "\<not> newly_gray g1 g2 c" by (auto simp: newly_gray_def nonwhite_def)
      then show ?thesis using True tstep_nonwhite [OF b True] by (auto simp: newly_gray_def)
    next
      case False
      then have "c \<noteq> a" using a by (auto simp: tstep_def)
      then have "tpoint R g g1 c" using a by (simp add: tstep_def)
      with False have "ob g1 c = ob g c" by (auto simp: tpoint_def nonwhite_def)
      then have "newly_gray g1 g2 c \<longleftrightarrow> newly_gray g g2 c" by (simp add: newly_gray_def)
      moreover have "\<not> newly_gray g g1 c" using False by (simp add: newly_gray_def)
      ultimately show ?thesis by blast
    qed
  qed
  have dist: "distinct (n2 @ n1)" using n1(2,3) n2(2,3) ng(2) by auto
  have new: "c \<in> set (n2 @ n1) \<longleftrightarrow> newly_gray g g2 c" for c using n1(3) n2(3) ng(1) by auto
  have frame: "g2 = g\<lparr>objs := objs g2, gray := (n2 @ n1) @ gray g, weak := weak g2, grayagain := grayagain g2\<rparr>"
  proof -
    let ?P = "\<lambda>z xs ys ws as. z\<lparr>objs := xs, gray := ys, weak := ws, grayagain := as\<rparr> = g\<lparr>objs := xs, gray := ys, weak := ws, grayagain := as\<rparr>"
    have "?P g1 xs ys ws as" for xs ys ws as
      by (rule ssubst [OF n1(1), of "\<lambda>z. ?P z xs ys ws as"]) simp
    with n2(1) arg_cong [OF n1(1), of gray] show ?thesis by simp
  qed
  have shr: "shrinks g g2"
    unfolding shrinks_def
  proof (intro allI impI)
    fix c y y' assume y: "ob g c = Some y" "ob g2 c = Some y'"
    then obtain z where z: "ob g1 c = Some z" using tstep_ob [OF a, of c] by auto
    have sh: "shrinks g g1" "shrinks g1 g2" using a b by (simp_all add: tstep_def)
    note shrinksD [OF sh(1) y(1) z] shrinksD [OF sh(2) z y(2)]
    then show "body_frame (obj_body y) (obj_body y') \<and> set (trefs g2 (obj_body y')) \<subseteq> set (trefs g (obj_body y)) \<and>
      (shape_ok g (obj_body y) \<longrightarrow> shape_ok g2 (obj_body y'))"
      using body_frame_trans by blast
  qed
  have ends: "length (objs g2) = length (objs g)" "nonwhite g a" "nonwhite g2 a" using a b by (simp_all add: tstep_def)
  show ?thesis by (rule tstepI [OF ends(1) pt ends(2,3) shr frame dist new])
qed

text \<open>A change of the object at \<open>a\<close> alone.\<close>

lemma local_step:
  assumes x: "ob g a = Some x" "\<not> iswhite (marked x)" "\<not> iswhite (marked y)"
    and g': "g' = (set_obj a y g)\<lparr>weak := ws, grayagain := as\<rparr>" and shr: "shrinks g g'"
  shows "tstep a R g g'"
proof -
  have o: "ob g' = (ob g)(a := Some y)" using x unfolding g' by simp
  show ?thesis
  proof (rule tstepI [where new = "[]"])
    show "length (objs g') = length (objs g)" by (simp add: g' set_obj_frame)
    show "tpoint R g g' c" if "c \<noteq> a" for c using that by (simp add: tpoint_def o)
    show "nonwhite g a" "nonwhite g' a" using x by (simp_all add: nonwhite_def o)
    show "g' = g\<lparr>objs := objs g', gray := [] @ gray g, weak := weak g', grayagain := grayagain g'\<rparr>"
      by (simp add: g' set_obj_def)
    show "c \<in> set [] \<longleftrightarrow> newly_gray g g' c" for c using x by (auto simp: newly_gray_def nonwhite_def o)
  qed (simp_all add: shr)
qed

lemma local_mark_step:
  assumes "ob g a = Some x" "\<not> iswhite (marked x)" "\<not> iswhite m"
  shows "tstep a R g ((set_obj a (x\<lparr>marked := m\<rparr>) g)\<lparr>weak := ws, grayagain := as\<rparr>)"
proof (rule local_step [OF assms(1,2) _ refl])
  have "same_bodies g ((set_obj a (x\<lparr>marked := m\<rparr>) g)\<lparr>weak := ws, grayagain := as\<rparr>)"
    using set_mark_bodies [OF assms(1), of m] by (simp add: same_bodies_def)
  then show "shrinks g ((set_obj a (x\<lparr>marked := m\<rparr>) g)\<lparr>weak := ws, grayagain := as\<rparr>)" by (rule same_bodies_shrinks)
qed (simp add: assms(3))

text \<open>The empty nodes of a table lose their keys.\<close>

lemma drop_empty_nref [simp]: "nref (drop_empty n) = nref n"
  by (cases n) (auto simp: drop_empty_def removeentry_gc_def nref_def split: gval.splits)

lemma trefs_drop_empty: "trefs g (BTable m arr (map drop_empty ns)) = trefs g (BTable m arr ns)"
  by (simp add: comp_def)

lemma shape_drop_empty: "shape_ok g (BTable m arr ns) \<Longrightarrow> shape_ok g (BTable m arr (map drop_empty ns))"
  by (auto simp: list_all_iff drop_empty_def removeentry_gc_def split: gval.splits)

text \<open>A body without a stack changes the references of its own object only.\<close>

lemma shrinks_body:
  assumes x: "ob g a = Some x" and k: "kind_of (obj_body x) \<noteq> KThread" "body_frame (obj_body x) b"
    and r: "set (trefs g b) \<subseteq> set (trefs g (obj_body x))" "shape_ok g (obj_body x) \<longrightarrow> shape_ok g b"
    and o': "ob g' = (ob g)(a := Some (x\<lparr>marked := m, obj_body := b\<rparr>))"
  shows "shrinks g g'" "stack_of g' = stack_of g"
proof -
  have "kind_of b \<noteq> KThread" using k body_frame_kind by metis
  then have "stack_of g' th = stack_of g th" for th
    using x k(1) by (auto simp: stack_of_def o' split: gbody.splits)
  then show st: "stack_of g' = stack_of g" by blast
  show "shrinks g g'"
    unfolding shrinks_def stack_trefs [OF st] o' using x k(2) r by auto
qed

text \<open>Clearing the slots above the top.\<close>

lemma clear_slots_nth:
  assumes "lo \<le> hi" "hi < length st"
  shows "length (clear_slots lo hi st) = length st"
    "i < length st \<Longrightarrow> clear_slots lo hi st ! i = (if lo \<le> i \<and> i \<le> hi then NilV else st ! i)"
  using assms by (auto simp: clear_slots_def nth_append min_def)

lemma fold_max_ge: "(x :: nat) \<le> fold max xs x"
  by (induction xs arbitrary: x) (auto intro: le_trans [OF max.cobounded2])

lemma stack_lim_ge: "th_top t \<le> stack_lim t"
  by (simp add: stack_lim_def fold_max_ge)

lemma clear_take:
  assumes "lo \<le> hi" "hi < length st"
  shows "take lo (clear_slots lo hi st) = take lo st"
  using assms by (simp add: clear_slots_def)

lemma shrinks_stack:
  assumes x: "ob g a = Some x" "obj_body x = BThread t" and lim: "stack_lim t < length (stack t)"
    and st: "st = clear_slots (th_top t) (stack_lim t) (stack t)"
    and o': "ob g' = (ob g)(a := Some (x\<lparr>marked := m, obj_body := BThread (t\<lparr>stack := st\<rparr>)\<rparr>))"
  shows "shrinks g g'" "trefs g' (BThread (t\<lparr>stack := st\<rparr>)) = trefs g (BThread t)"
proof -
  note nth = clear_slots_nth [OF stack_lim_ge lim] and tk = clear_take [OF stack_lim_ge lim]
  have len: "length (stack_of g' th) = length (stack_of g th)"
    and val: "i < length (stack_of g th) \<Longrightarrow> stack_of g' th ! i = NilV \<or> stack_of g' th ! i = stack_of g th ! i" for th i
    using x nth by (auto simp: stack_of_def o' st)
  have upv: "set (upv_ref g' u) \<subseteq> set (upv_ref g u)" for u
  proof (cases u)
    case (Open th i)
    then show ?thesis using len [of th] val [of i th] by (auto split: if_splits)
  qed simp
  show tr: "trefs g' (BThread (t\<lparr>stack := st\<rparr>)) = trefs g (BThread t)"
    by (simp add: st tk)
  have dead: "DeadK \<notin> set st" if "DeadK \<notin> set (stack t)"
  proof
    assume "DeadK \<in> set st"
    then obtain i where "i < length st" "st ! i = DeadK" by (auto simp: in_set_conv_nth)
    then have i: "i < length (stack t)" "stack t ! i = DeadK" using nth(1) nth(2) [of i] by (simp_all add: st split: if_splits)
    then have "stack t ! i \<in> set (stack t)" by (intro nth_mem)
    with i(2) that show False by simp
  qed
  have shape: "shape_ok g b \<longrightarrow> shape_ok g' b" for b
    by (cases b) (auto simp: len split: upv.splits)
  have shape_a: "shape_ok g (BThread t) \<longrightarrow> shape_ok g' (BThread (t\<lparr>stack := st\<rparr>))"
    using dead nth(1) by (auto simp: st stack_lim_def)
  have others: "set (trefs g' b) \<subseteq> set (trefs g b)" for b using upv by (cases b) auto
  show "shrinks g g'"
    unfolding shrinks_def
  proof (intro allI impI)
    fix c y y' assume y: "ob g c = Some y" "ob g' c = Some y'"
    show "body_frame (obj_body y) (obj_body y') \<and> set (trefs g' (obj_body y')) \<subseteq> set (trefs g (obj_body y)) \<and>
        (shape_ok g (obj_body y) \<longrightarrow> shape_ok g' (obj_body y'))"
    proof (cases "c = a")
      case True
      then have "obj_body y = BThread t" "obj_body y' = BThread (t\<lparr>stack := st\<rparr>)" using y x o' by auto
      moreover have "body_frame (BThread t) (BThread (t\<lparr>stack := st\<rparr>))" using nth(1) by (auto simp: body_frame_def st)
      ultimately show ?thesis using tr shape_a by simp
    next
      case False
      then have "y' = y" using y o' by simp
      then show ?thesis using others shape by simp
    qed
  qed
qed

end
