(* ===== verification/LGC_Prop.thy ===== *)
theory LGC_Prop
  imports LGC_Trav
begin

text \<open>
  One step of the propagation: the first gray object is traversed; its strong references are marked
  afterwards, and it is black, or gray in \<open>weak\<close> or \<open>grayagain\<close>.
\<close>

text \<open>
  The references that a traversal marks.  A table in the list \<open>weak\<close> has its modes in its mark.
\<close>

definition strong_node :: "lu_byte \<Rightarrow> gval \<times> gval \<Rightarrow> (want \<times> gaddr) list" where
  "strong_node m n = (if snd n = NilV then [] else
     (if bit m 3 then [] else vref (fst n)) @ (if bit m 4 then [] else vref (snd n)))"

definition strong_refs :: "gc_State \<Rightarrow> gaddr \<Rightarrow> gaddr set" where
  "strong_refs g a = (case ob g a of
       None \<Rightarrow> {}
     | Some x \<Rightarrow> (case obj_body x of
           BTable m arr ns \<Rightarrow>
             if a \<in> set (weak g) then
               targets (oref KTable m) \<union> (if bit (marked x) 4 then {} else targets (concat (map vref arr))) \<union>
               targets (concat (map (strong_node (marked x)) ns))
             else refs g a
         | _ \<Rightarrow> refs g a))"

definition settled :: "gc_State \<Rightarrow> gaddr \<Rightarrow> bool" where
  "settled g a \<longleftrightarrow> all_marked g (strong_refs g a)"

lemma refs_table:
  "ob g a = Some x \<Longrightarrow> obj_body x = BTable m arr ns \<Longrightarrow>
   refs g a = targets (oref KTable m) \<union> targets (concat (map vref arr)) \<union> targets (concat (map nref ns))"
  by (simp add: refs_def image_Un_set Un_assoc del: set_concat set_append)

lemma strong_weak:
  "ob g a = Some x \<Longrightarrow> obj_body x = BTable m arr ns \<Longrightarrow> a \<in> set (weak g) \<Longrightarrow>
   strong_refs g a = targets (oref KTable m) \<union> (if bit (marked x) 4 then {} else targets (concat (map vref arr))) \<union>
     targets (concat (map (strong_node (marked x)) ns))"
  by (simp add: strong_refs_def)

lemma strong_not_weak: "a \<notin> set (weak g) \<or> kind_at g a \<noteq> Some KTable \<Longrightarrow> strong_refs g a = refs g a"
  by (auto simp: strong_refs_def refs_def kind_at_def split: option.splits gbody.splits)

lemma strong_node_subset: "targets (concat (map (strong_node m) ns)) \<subseteq> targets (concat (map nref ns))"
proof -
  have "set (strong_node m n) \<subseteq> set (nref n)" for n by (auto simp: strong_node_def nref_def)
  then show ?thesis unfolding targets_concat by (intro UN_mono image_mono) auto
qed

lemma strong_subset: "strong_refs g a \<subseteq> refs g a"
proof (cases "a \<in> set (weak g) \<and> kind_at g a = Some KTable")
  case True
  then obtain x m arr ns where x: "ob g a = Some x" "obj_body x = BTable m arr ns"
    by (auto simp: kind_at_def) (metis kind_of.simps gbody.exhaust gkind.distinct)
  show ?thesis
    unfolding strong_weak [OF x conjunct1 [OF True]] refs_table [OF x]
    by (intro Un_mono strong_node_subset subset_refl) simp
qed (use strong_not_weak in auto)

lemma all_settled: "all_marked g (refs g a) \<Longrightarrow> settled g a"
  using strong_subset by (auto simp: settled_def all_marked_def)

section \<open>Weak tables\<close>

lemma metatable_kind:
  assumes "heap_valid g" "ob g a = Some x" "obj_body x = BTable (Some t) arr ns"
  shows "\<exists>y m' arr' ns'. ob g t = Some y \<and> obj_body y = BTable m' arr' ns'"
proof -
  have "target_ok g (Only KTable, t)" using body_okD [OF assms(1,2)] assms(3) by (simp add: oref_def)
  then obtain y where y: "ob g t = Some y" "kind_of (obj_body y) = KTable"
    by (auto simp: target_ok_def kind_at_def split: option.splits)
  then show ?thesis by (cases "obj_body y") simp_all
qed


lemma tm_of_value:
  assumes v: "heap_valid g" and a: "ob g a = Some x" "obj_body x = BTable m arr ns"
  shows "\<exists>v. tm_of g m name = Inr v \<and> (\<forall>r. v = Ref r \<longrightarrow> ob g r \<noteq> None)"
proof (cases m)
  case (Some t)
  then obtain y m' arr' ns' where y: "ob g t = Some y" "obj_body y = BTable m' arr' ns'"
    using metatable_kind [OF v a(1)] a(2) by blast
  let ?f = "find (\<lambda>(k, v). k = Ref name) ns'"
  let ?v = "case ?f of None \<Rightarrow> NilV | Some (k, v) \<Rightarrow> v"
  have "ob g r \<noteq> None" if "?v = Ref r" for r
  proof -
    from that obtain n where f: "?f = Some n" "snd n = Ref r"
      by (cases ?f) (auto simp: case_prod_unfold)
    from f(1) have "n \<in> set ns'" by (auto simp: find_Some_iff intro: nth_mem)
    moreover obtain k where "n = (k, Ref r)" using f(2) by (cases n) simp
    ultimately have n: "(k, Ref r) \<in> set ns'" by simp
    have "(AnyValue, r) \<in> set (nref (k, Ref r))" by (simp add: nref_def)
    then have "(AnyValue, r) \<in> set (trefs g (obj_body y))" using n y(2) by auto
    then have "target_ok g (AnyValue, r)" using body_okD [OF v y(1)] by blast
    then show ?thesis by (cases "ob g r") (auto simp: target_ok_def kind_at_def)
  qed
  then show ?thesis using Some y by (simp add: tm_of_def)
qed (simp add: tm_of_def)

lemma weak_mode_ok:
  assumes "heap_valid g" "ob g a = Some x" "obj_body x = BTable m arr ns"
  shows "\<exists>wk wv. weak_mode g m = Inr (wk, wv)"
proof -
  obtain v where v: "tm_of g m (tmname_mode g) = Inr v" "\<forall>r. v = Ref r \<longrightarrow> ob g r \<noteq> None"
    using tm_of_value [OF assms] by blast
  show ?thesis
  proof (cases v)
    case (Ref r)
    then obtain y where "ob g r = Some y" using v(2) by auto
    with v(1) Ref show ?thesis by (cases "obj_body y") (auto simp: weak_mode_def Let_def)
  qed (use v(1) in \<open>auto simp: weak_mode_def\<close>)
qed

text \<open>The loop over the nodes.\<close>

lemma mark_node_marking:
  assumes "heap_valid g" "closed R g" "in_reach R g (nref n)" "snd n \<noteq> DeadK" "fst n = DeadK \<longrightarrow> snd n = NilV"
  shows "marking R g (targets (strong_node (set_weak_bits wk wv m) n)) (mark_node wk wv n)"
proof (cases n)
  case (Pair k v)
  have b: "bit (set_weak_bits wk wv m) 3 \<longleftrightarrow> wk" "bit (set_weak_bits wk wv m) 4 \<longleftrightarrow> wv" by (simp_all add: weak_bits_bit)
  show ?thesis
  proof (cases "v = NilV")
    case True
    then show ?thesis using Pair marking_skip [of R g] by (simp add: strong_node_def mark_node_def [abs_def])
  next
    case False
    then have nd: "k \<noteq> DeadK" "v \<noteq> DeadK" and r: "in_reach R g (vref k)" "in_reach R g (vref v)"
      using assms(3-5) Pair by (auto simp: nref_def)
    note key = markvalue_marking [OF assms(1,2) nd(1) r(1)] and val = markvalue_marking [OF assms(1,2) nd(2) r(2)]
    have "marking R g ((if wk then {} else targets (vref k)) \<union> (if wv then {} else targets (vref v)))
        (\<lambda>g. ebind ((if wk then Inr else markvalue k) g) (if wv then Inr else markvalue v))"
      by (intro marking_bind) (simp_all add: marking_skip key val)
    moreover have "mark_node wk wv n = (\<lambda>g. ebind ((if wk then Inr else markvalue k) g) (if wv then Inr else markvalue v))"
      using False Pair by (auto simp: mark_node_def fun_eq_iff)
    moreover have "targets (strong_node (set_weak_bits wk wv m) n) =
        (if wk then {} else targets (vref k)) \<union> (if wv then {} else targets (vref v))"
      using False Pair b by (simp add: strong_node_def image_Un)
    ultimately show ?thesis by simp
  qed
qed

text \<open>The body of a table that is not weak in both ways.\<close>

lemma table_marking:
  assumes v: "heap_valid g" "closed R g" and a: "ob g a = Some x" "obj_body x = BTable mt arr ns" "a \<in> R"
  shows "marking R g ((if wv then {} else targets (concat (map vref arr))) \<union>
      targets (concat (map (strong_node (set_weak_bits wk wv m)) ns)))
    (\<lambda>g. ebind (if wv then Inr g else efold markvalue (rev arr) g) (efold (mark_node wk wv) (rev ns)))"
proof -
  have ok: "in_reach R g (trefs g (BTable mt arr ns))" "shape_ok g (BTable mt arr ns)"
    using in_reach_body [OF v a(3,1)] body_okD [OF v(1) a(1)] a(2) by simp_all
  have "marking R g (targets (concat (map vref (rev arr)))) (efold markvalue (rev arr))"
    using v ok by (intro marking_values) auto
  then have arr: "marking R g (if wv then {} else targets (concat (map vref arr))) (\<lambda>g. if wv then Inr g else efold markvalue (rev arr) g)"
    using marking_skip [of R g] unfolding targets_concat by auto
  have "marking R g (targets (concat (map (strong_node (set_weak_bits wk wv m)) (rev ns)))) (efold (mark_node wk wv) (rev ns))"
    unfolding targets_concat
  proof (intro marking_fold)
    fix n assume "n \<in> set (rev ns)"
    then have n: "n \<in> set ns" by simp
    then have "in_reach R g (nref n)" "snd n \<noteq> DeadK" "fst n = DeadK \<longrightarrow> snd n = NilV"
      using ok by (auto simp: list_all_iff)
    then show "marking R g (targets (strong_node (set_weak_bits wk wv m) n)) (mark_node wk wv n)"
      by (rule mark_node_marking [OF v])
  qed
  then have ns: "marking R g (targets (concat (map (strong_node (set_weak_bits wk wv m)) ns))) (efold (mark_node wk wv) (rev ns))"
    unfolding targets_concat by simp
  show ?thesis by (rule marking_bind [OF arr ns])
qed

end
