(* ===== verification/LGC_Step.thy ===== *)
theory LGC_Step
  imports LGC_Prop
begin

text \<open>
  One step of the propagation: \<^verbatim>\<open>propagatemark\<close> takes the first gray object, and what it refers to
  strongly is marked afterwards.
\<close>

lemma set_obj_lists [simp]:
  "weak (set_obj a x g) = weak g" "grayagain (set_obj a x g) = grayagain g" "tmudata (set_obj a x g) = tmudata g"
  "rootgc (set_obj a x g) = rootgc g" "uvhead (set_obj a x g) = uvhead g" "phase (set_obj a x g) = phase g"
  "gcwhite (set_obj a x g) = gcwhite g" "gray (set_obj a x g) = gray g"
  by (simp_all add: set_obj_def)

lemma tstep_kind: "tstep a R g g' \<Longrightarrow> kind_at g' = kind_at g"
proof
  fix c assume s: "tstep a R g g'"
  then have "shrinks g g'" by (simp add: tstep_def)
  with tstep_ob [OF s, of c] show "kind_at g' c = kind_at g c"
    by (cases "ob g c"; cases "ob g' c") (auto simp: kind_at_def dest: shrinksD body_frame_kind)
qed

lemma tstep_valid:
  assumes s: "tstep a R g g'" and v: "heap_valid g"
  shows "heap_valid g'"
  unfolding heap_valid_def
proof (intro allI impI)
  fix c y' assume y': "ob g' c = Some y'"
  then obtain y where y: "ob g c = Some y" using tstep_ob [OF s, of c] by auto
  have "shrinks g g'" using s by (simp add: tstep_def)
  note sh = shrinksD [OF this y y'] and ok = body_okD [OF v y]
  have "target_ok g' = target_ok g" by (simp add: fun_eq_iff target_ok_def tstep_kind [OF s])
  with sh ok show "body_ok g' (obj_body y')" by (auto simp: body_ok_def list_all_iff)
qed

lemma tstep_closed: "tstep a R g g' \<Longrightarrow> closed R g \<Longrightarrow> closed R g'"
  using tstep_refs unfolding closed_def by fast

text \<open>Marking from a state inside a traversal.\<close>

lemma tstep_marking:
  assumes "tstep a R g g1" "marking R g1 T f"
  shows "\<exists>g2. f g1 = Inr g2 \<and> tstep a R g g2 \<and> marks R g1 g2 \<and> all_marked g2 T"
proof -
  obtain g2 where g2: "f g1 = Inr g2" "marks R g1 g2" "all_marked g2 T" using markingD [OF assms(2)] by blast
  have "nonwhite g1 a" using assms(1) by (simp add: tstep_def)
  then show ?thesis using g2 tstep_trans [OF assms(1) marks_tstep [OF g2(2)]] by blast
qed

lemma marks_lists: "marks R g g' \<Longrightarrow> weak g' = weak g \<and> grayagain g' = grayagain g"
proof -
  assume "marks R g g'"
  then obtain new where "g' = g\<lparr>objs := objs g', gray := new @ gray g\<rparr>" by (auto simp: marks_def)
  from arg_cong [OF this, of weak] arg_cong [OF this, of grayagain] show ?thesis by simp
qed

lemma tstep_obE: 
  assumes "tstep a R g g1" obtains x where "ob g1 a = Some x" "\<not> iswhite (marked x)"
  using assms by (auto simp: tstep_def nonwhite_ob)

lemma tstep_frame: "ob g1 a = Some x \<Longrightarrow> nonwhite g1 a \<Longrightarrow> marks R g1 g2 \<Longrightarrow> ob g2 a = Some x"
  using marks_kept by metis

text \<open>The value tests of a table only depend on its bodies.\<close>

lemma drop_empty_strong: "strong_node m (drop_empty n) = strong_node m n"
  by (cases n) (auto simp: drop_empty_def removeentry_gc_def strong_node_def split: gval.splits)

lemma drop_empty_step:
  assumes x: "ob g a = Some x" "obj_body x = BTable m arr ns" "nonwhite g a"
  shows "\<exists>g'. upd_body a (BTable m arr (map drop_empty ns)) g = Inr g' \<and> tstep a R g g' \<and>
    g' = set_obj a (x\<lparr>obj_body := BTable m arr (map drop_empty ns)\<rparr>) g"
proof -
  let ?b = "BTable m arr (map drop_empty ns)"
  let ?g = "set_obj a (x\<lparr>obj_body := ?b\<rparr>) g"
  have "shrinks g ?g"
  proof (rule shrinks_body [OF x(1)])
    show "kind_of (obj_body x) \<noteq> KThread" "body_frame (obj_body x) ?b" by (simp_all add: x(2) body_frame_def)
    show "set (trefs g ?b) \<subseteq> set (trefs g (obj_body x))" unfolding x(2) trefs_drop_empty by (rule subset_refl)
    show "shape_ok g (obj_body x) \<longrightarrow> shape_ok g ?b" unfolding x(2) using shape_drop_empty by blast
    show "ob ?g = (ob g)(a := Some (x\<lparr>marked := marked x, obj_body := ?b\<rparr>))" using x(1) by simp
  qed
  moreover have nx: "\<not> iswhite (marked x)" "\<not> iswhite (marked (x\<lparr>obj_body := ?b\<rparr>))" using x by (simp_all add: nonwhite_def)
  moreover have "?g = ?g\<lparr>weak := weak g, grayagain := grayagain g\<rparr>" by (simp add: set_obj_def)
  ultimately have "tstep a R g ?g" by (intro local_step [OF x(1)])
  then show ?thesis using x(1) by (simp add: upd_body_ob)
qed

definition traversed :: "gaddr \<Rightarrow> gaddr set \<Rightarrow> gc_State \<Rightarrow> gc_State \<Rightarrow> bool" where
  "traversed a R g g' \<longleftrightarrow> tstep a R g g' \<and> settled g' a \<and>
     (weak g' = weak g \<and> grayagain g' = grayagain g \<or>
      weak g' = a # weak g \<and> grayagain g' = grayagain g \<and> kind_at g a = Some KTable \<or>
      weak g' = weak g \<and> grayagain g' = a # grayagain g \<and> kind_at g a = Some KThread)"

text \<open>A table.\<close>

lemma weak_bits_known:
  "marked x = set_weak_bits wk wv m \<Longrightarrow> bit (marked x) 3 = wk \<and> bit (marked x) 4 = wv"
  by (simp add: weak_bits_bit)

lemma traversetable_step:
  assumes v: "heap_valid g" "closed R g" and x: "ob g a = Some x" "obj_body x = BTable mt arr ns"
    and a: "a \<in> R" "nonwhite g a" "a \<notin> set (weak g)"
  shows "\<exists>g' wk y. traversetable a mt arr ns g = Inr (g', wk) \<and> traversed a R g g' \<and>
    weak g' = (if wk then a # weak g else weak g) \<and> grayagain g' = grayagain g \<and>
    ob g' a = Some y \<and> isblack (marked y) = isblack (marked x)"
proof -
  have tr: "in_reach R g (oref KTable mt)" using in_reach_body [OF v a(1) x(1)] by (simp add: x(2))
  obtain g1 where g1: "mark_opt mt g = Inr g1" "marks R g g1" "all_marked g1 (targets (oref KTable mt))"
    using markingD [OF mark_opt_marking [OF v tr]] by blast
  have x1: "ob g1 a = Some x" and nw1: "nonwhite g1 a"
    using marks_kept [OF g1(2) a(2)] marks_nonwhite [OF g1(2) a(2)] x by simp_all
  have t1: "tstep a R g g1" by (rule marks_tstep [OF g1(2) a(2)])
  have v1: "heap_valid g1" "closed R g1" using tstep_valid [OF t1 v(1)] tstep_closed [OF t1 v(2)] by blast+
  have l1: "weak g1 = weak g" "grayagain g1 = grayagain g" using marks_lists [OF g1(2)] by simp_all
  have nx: "\<not> iswhite (marked x)" using x(1) a(2) by (simp add: nonwhite_def)
  obtain wk wv where mode: "weak_mode g1 mt = Inr (wk, wv)" using weak_mode_ok [OF v1(1) x1 x(2)] by blast
  define m2 where "m2 = (if wk \<or> wv then set_weak_bits wk wv (marked x) else marked x)"
  define x2 where "x2 = x\<lparr>marked := m2\<rparr>"
  define w2 where "w2 = (if wk \<or> wv then a # weak g else weak g)"
  define g2 where "g2 = (set_obj a x2 g1)\<lparr>weak := w2, grayagain := grayagain g\<rparr>"
  have m2: "\<not> iswhite m2" "isblack m2 = isblack (marked x)" using nx by (simp_all add: m2_def)
  have e2: "(if wk \<or> wv then ebind (upd_mark a (set_weak_bits wk wv) g1) (\<lambda>g. Inr (g\<lparr>weak := a # weak g\<rparr>)) else Inr g1) = Inr g2"
  proof (cases "wk \<or> wv")
    case True
    then have "(set_obj a x2 g1)\<lparr>weak := a # weak (set_obj a x2 g1)\<rparr> = g2"
      by (simp add: g2_def w2_def l1 [symmetric] set_obj_def)
    then show ?thesis using True x1 by (simp add: upd_mark_ob x2_def m2_def)
  next
    case False
    then have "x2 = x" by (simp add: x2_def m2_def)
    then show ?thesis using False set_obj_same [OF x1] by (simp add: g2_def w2_def l1 [symmetric])
  qed
  have s2: "tstep a R g1 g2" unfolding g2_def x2_def by (rule local_mark_step [OF x1 nx m2(1)])
  have t2: "tstep a R g g2" by (rule tstep_trans [OF t1 s2])
  have v2: "heap_valid g2" "closed R g2" using tstep_valid [OF t2 v(1)] tstep_closed [OF t2 v(2)] by blast+
  have x2: "ob g2 a = Some x2" "obj_body x2 = BTable mt arr ns" "nonwhite g2 a"
    using x1 m2(1) x(2) by (simp_all add: g2_def x2_def nonwhite_def)
  have l2: "weak g2 = w2" "grayagain g2 = grayagain g" by (simp_all add: g2_def)
  have mt2: "all_marked g2 (targets (oref KTable mt))" by (rule tstep_all_marked [OF s2 g1(3)])
  show ?thesis
  proof (cases "wk \<and> wv")
    case True
    have "strong_refs g2 a = targets (oref KTable mt)"
      unfolding strong_weak [OF x2(1,2), unfolded l2, OF, of] using True
      by (subst strong_weak [OF x2(1,2)]) (auto simp: l2 w2_def x2_def m2_def weak_bits_bit strong_node_def targets_concat)
    then have "traversed a R g g2"
      using t2 mt2 True x by (simp add: traversed_def settled_def l2 w2_def kind_at_def)
    moreover have "traversetable a mt arr ns g = Inr (g2, True)"
      using True e2 by (simp add: traversetable_def g1(1) mode)
    ultimately show ?thesis using x2 m2 True by (auto simp: l2 w2_def x2_def)
  next
    case False
    let ?T = "(if wv then {} else targets (concat (map vref arr))) \<union>
      targets (concat (map (strong_node (set_weak_bits wk wv m2)) ns))"
    obtain g3 where g3: "ebind (if wv then Inr g2 else efold markvalue (rev arr) g2) (efold (mark_node wk wv) (rev ns)) = Inr g3"
      "tstep a R g g3" "marks R g2 g3" "all_marked g3 ?T"
      using tstep_marking [OF t2 table_marking [OF v2 x2(1,2) a(1), where wv = wv and wk = wk and m = m2]] by blast
    have x3: "ob g3 a = Some x2" using marks_kept [OF g3(3) x2(3)] x2(1) by simp
    have l3: "weak g3 = w2" "grayagain g3 = grayagain g" using marks_lists [OF g3(3)] l2 by simp_all
    have nw3: "nonwhite g3 a" by (rule marks_nonwhite [OF g3(3) x2(3)])
    define b where "b = BTable mt arr (map drop_empty ns)"
    obtain g4 where g4: "upd_body a b g3 = Inr g4" "tstep a R g3 g4" "g4 = set_obj a (x2\<lparr>obj_body := b\<rparr>) g3"
      using drop_empty_step [OF x3 x2(2) nw3] unfolding b_def by blast
    have t4: "tstep a R g g4" by (rule tstep_trans [OF g3(2) g4(2)])
    have l4: "weak g4 = w2" "grayagain g4 = grayagain g" using l3 by (simp_all add: g4(3) set_obj_def)
    have x4: "ob g4 a = Some (x2\<lparr>obj_body := b\<rparr>)" using x3 by (simp add: g4(3))
    have am: "all_marked g4 (targets (oref KTable mt) \<union> ?T)"
      using tstep_all_marked [OF g4(2) g3(4)] tstep_all_marked [OF g4(2) all_marked_mono [OF g3(3) mt2]] by simp
    have bits: "bit m2 3 = wk \<and> bit m2 4 = wv" if "wk \<or> wv" using that by (simp add: m2_def weak_bits_bit)
    have "strong_refs g4 a = targets (oref KTable mt) \<union> ?T"
    proof (cases "wk \<or> wv")
      case True
      then have "a \<in> set (weak g4)" by (simp add: l4 w2_def)
      moreover have "strong_node (set_weak_bits wk wv m2) = strong_node m2"
        using bits [OF True] by (auto simp: strong_node_def weak_bits_bit fun_eq_iff)
      ultimately show ?thesis
        using bits [OF True]
        by (subst strong_weak [OF x4, of mt arr "map drop_empty ns"]) (simp_all add: b_def x2_def targets_concat drop_empty_strong Un_assoc)
    next
      case False
      have "strong_refs g4 a = refs g4 a" using False a(3) by (simp add: strong_not_weak l4 w2_def)
      also have "\<dots> = targets (oref KTable mt) \<union> targets (concat (map vref arr)) \<union> targets (concat (map nref ns))"
        by (subst refs_table [OF x4, of mt arr "map drop_empty ns"]) (simp_all add: b_def targets_concat)
      also have "strong_node (set_weak_bits wk wv m2) = nref"
        using False by (auto simp: strong_node_def nref_def weak_bits_bit fun_eq_iff)
      ultimately show ?thesis using False by (simp add: Un_assoc)
    qed
    then have "traversed a R g g4"
      using t4 am x by (simp add: traversed_def settled_def l4 w2_def kind_at_def)
    moreover have "traversetable a mt arr ns g = Inr (g4, wk \<or> wv)"
      using False g3(1) g4(1) by (auto simp: traversetable_def g1(1) mode e2 ebind_assoc [symmetric] b_def)
    ultimately show ?thesis using x4 m2 by (auto simp: l4 w2_def x2_def)
  qed
qed

text \<open>The other kinds.\<close>

lemma strong_refs_mark:
  assumes x: "ob g a = Some x" and m: "bit m 3 = bit (marked x) 3" "bit m 4 = bit (marked x) 4"
    and g': "ob g' = (ob g)(a := Some (x\<lparr>marked := m\<rparr>))" "weak g' = weak g"
  shows "strong_refs g' a = strong_refs g a"
proof -
  have "same_bodies g g'" using x by (simp add: same_bodies_def g'(1))
  then have r: "refs g' a = refs g a" by (simp add: same_bodies_refs)
  have "strong_node m = strong_node (marked x)" by (simp add: fun_eq_iff strong_node_def m)
  then show ?thesis
    unfolding strong_refs_def r using x g' m by (simp split: gbody.splits)
qed

lemma traversed_black2gray:
  assumes t: "traversed a R g g1" and x: "ob g1 a = Some x"
  shows "\<exists>g2. upd_mark a black2gray g1 = Inr g2 \<and> traversed a R g g2 \<and> weak g2 = weak g1 \<and> grayagain g2 = grayagain g1"
proof -
  have s: "tstep a R g g1" using t by (simp add: traversed_def)
  then have nx: "\<not> iswhite (marked x)" "\<not> iswhite (black2gray (marked x))" using x by (simp_all add: tstep_def nonwhite_def)
  let ?g2 = "(set_obj a (x\<lparr>marked := black2gray (marked x)\<rparr>) g1)\<lparr>weak := weak g1, grayagain := grayagain g1\<rparr>"
  have e: "?g2 = set_obj a (x\<lparr>marked := black2gray (marked x)\<rparr>) g1" by (simp add: set_obj_def)
  have s2: "tstep a R g1 ?g2" by (rule local_mark_step [OF x nx])
  have "strong_refs ?g2 a = strong_refs g1 a"
    by (rule strong_refs_mark [OF x]) (use x in \<open>simp_all add: black2gray_bit\<close>)
  then have "settled ?g2 a" using t tstep_all_marked [OF s2] by (simp add: settled_def traversed_def)
  then have "traversed a R g ?g2" using t tstep_trans [OF s s2] by (simp add: traversed_def)
  then show ?thesis using x e by (auto simp: upd_mark_ob)
qed

lemma marking_traversed:
  assumes x: "ob g a = Some x" and k: "kind_of (obj_body x) \<noteq> KTable" and nw: "nonwhite g a"
    and m: "marking R g (targets (trefs g (obj_body x))) f"
  shows "\<exists>g'. f g = Inr g' \<and> traversed a R g g'"
proof -
  obtain g' where g': "f g = Inr g'" "marks R g g'" "all_marked g' (targets (trefs g (obj_body x)))"
    using markingD [OF m] by blast
  have "refs g' a = targets (trefs g (obj_body x))"
    using same_bodies_refs(2) [OF marks_bodies [OF g'(2)]] x by (simp add: refs_def)
  then have "settled g' a" using all_settled [of g' a] g'(3) by simp
  then show ?thesis using g'(1) marks_tstep [OF g'(2) nw] marks_lists [OF g'(2)] by (auto simp: traversed_def)
qed

lemma traversestack_step:
  assumes v: "heap_valid g" "closed R g" and x: "ob g a = Some x" "obj_body x = BThread t"
    and a: "a \<in> R" "nonwhite g a"
  shows "\<exists>g'. traversestack a t g = Inr g' \<and> tstep a R g g' \<and> settled g' a \<and> weak g' = weak g \<and> grayagain g' = grayagain g"
proof -
  have ok: "in_reach R g (trefs g (BThread t))" "shape_ok g (BThread t)"
    using in_reach_body [OF v a(1) x(1)] body_okD [OF v(1) x(1)] by (simp_all add: x(2))
  let ?vs = "take (th_top t) (stack t)"
  have dead: "DeadK \<notin> set ?vs" using ok(2) by (auto dest: in_set_takeD)
  have "marking R g (targets (trefs g (BThread t))) (\<lambda>g. ebind (markvalue (l_gt t) g) (efold markvalue ?vs))"
    unfolding trefs.simps image_Un_set using ok dead
    by (intro marking_bind markvalue_marking marking_values v) simp_all
  then obtain g1 where g1: "ebind (markvalue (l_gt t) g) (efold markvalue ?vs) = Inr g1" "marks R g g1"
    "all_marked g1 (targets (trefs g (BThread t)))" using markingD by blast
  have x1: "ob g1 a = Some x" and nx: "\<not> iswhite (marked x)"
    using marks_kept [OF g1(2) a(2)] x a(2) by (simp_all add: nonwhite_def)
  have lim: "stack_lim t < length (stack t)" using ok(2) by simp
  define st where "st = clear_slots (th_top t) (stack_lim t) (stack t)"
  define y where "y = x\<lparr>obj_body := BThread (t\<lparr>stack := st\<rparr>)\<rparr>"
  define g2 where "g2 = set_obj a y g1"
  have o2: "ob g2 = (ob g1)(a := Some (x\<lparr>marked := marked x, obj_body := BThread (t\<lparr>stack := st\<rparr>)\<rparr>))"
    using x1 by (simp add: g2_def y_def)
  note sh = shrinks_stack [OF x1 x(2) lim st_def o2]
  have e: "g2 = (set_obj a y g1)\<lparr>weak := weak g1, grayagain := grayagain g1\<rparr>" by (simp add: g2_def set_obj_def)
  have ny: "\<not> iswhite (marked y)" using nx by (simp add: y_def)
  have s2: "tstep a R g1 g2" by (rule local_step [OF x1 nx ny e sh(1)])
  have t: "tstep a R g g2" by (rule tstep_trans [OF marks_tstep [OF g1(2) a(2)] s2])
  have "refs g2 a = targets (trefs g (BThread t))"
    using o2 sh(2) same_bodies_refs(1) [OF marks_bodies [OF g1(2)]] by (simp add: refs_def)
  then have "settled g2 a" using all_settled [of g2 a] tstep_all_marked [OF s2 g1(3)] by simp
  moreover have "weak g2 = weak g" "grayagain g2 = grayagain g" using e marks_lists [OF g1(2)] by simp_all
  moreover have "traversestack a t g = Inr g2"
    using g1(1) lim x1 by (simp add: traversestack_def ebind_assoc [symmetric] upd_body_ob g2_def y_def st_def)
  ultimately show ?thesis using t by blast
qed

lemma propagatemark_step:
  assumes v: "heap_valid g" "closed R g" and g: "gray g = a # rest"
    and a: "a \<in> R" "nonwhite g a" "a \<notin> set (weak g)" and k: "\<And>x. ob g a = Some x \<Longrightarrow> container (obj_body x)"
  shows "\<exists>g' s. propagatemark H g = Inr (g', s) \<and> traversed a R (g\<lparr>gray := rest\<rparr>) g'"
proof -
  obtain x where x: "ob g a = Some x" "\<not> iswhite (marked x)" using a(2) by (auto simp: nonwhite_ob)
  let ?g0 = "g\<lparr>gray := rest\<rparr>"
  define y where "y = x\<lparr>marked := gray2black (marked x)\<rparr>"
  define g1 where "g1 = (set_obj a y ?g0)\<lparr>weak := weak g, grayagain := grayagain g\<rparr>"
  have e: "(set_obj a y g)\<lparr>gray := rest\<rparr> = g1" by (simp add: g1_def set_obj_def)
  have o0: "ob ?g0 a = Some x" using x by simp
  have "\<not> iswhite (gray2black (marked x))" using x(2) by simp
  then have s1: "tstep a R ?g0 g1" unfolding g1_def y_def by (rule local_mark_step [OF o0 x(2)])
  have v0: "heap_valid ?g0" "closed R ?g0"
    using v same_bodies_refs(5) [of g ?g0] closed_same [of g ?g0] by (simp_all add: same_bodies_def)
  have v1: "heap_valid g1" "closed R g1" using tstep_valid [OF s1 v0(1)] tstep_closed [OF s1 v0(2)] by blast+
  have y: "ob g1 a = Some y" "obj_body y = obj_body x" "nonwhite g1 a"
    using x by (simp_all add: g1_def y_def nonwhite_def)
  have l1: "weak g1 = weak g" "grayagain g1 = grayagain g" by (simp_all add: g1_def)
  have k1: "kind_at g1 a = kind_at ?g0 a" by (simp add: tstep_kind [OF s1])
  have up: "upd_mark a gray2black g = Inr (set_obj a y g)" "ob (set_obj a y g) a = Some y"
    using x by (simp_all add: upd_mark_ob y_def)
  have lift: "traversed a R ?g0 g2" if "traversed a R g1 g2" for g2
    using that tstep_trans [OF s1] l1 k1 by (simp add: traversed_def)
  have run: "propagatemark H g = (case obj_body x of
               BTable metatable arr ns \<Rightarrow>
                 ebind (traversetable a metatable arr ns g1) (\<lambda>(g, wk).
                 ebind (if wk then upd_mark a black2gray g else Inr g) (\<lambda>g. Inr (g, traversed_size H (obj_body x))))
             | BCclosure env ups \<Rightarrow> ebind (traversecclosure env ups g1) (\<lambda>g. Inr (g, traversed_size H (obj_body x)))
             | BLclosure env p ups \<Rightarrow> ebind (traverselclosure env p ups g1) (\<lambda>g. Inr (g, traversed_size H (obj_body x)))
             | BThread t \<Rightarrow>
                 ebind (upd_mark a black2gray (g1\<lparr>grayagain := a # grayagain g1\<rparr>)) (\<lambda>g.
                 ebind (traversestack a t g) (\<lambda>g. Inr (g, traversed_size H (obj_body x))))
             | BProto f \<Rightarrow> ebind (traverseproto f g1) (\<lambda>g. Inr (g, traversed_size H (obj_body x)))
             | _ \<Rightarrow> Inl (ErrUB ''no gray kind''))"
    unfolding propagatemark_def g list.case up(1) ebind_simps get_obj_Some [OF up(2)] Let_def e y(2) by (rule refl)
  have reach: "in_reach R g1 (trefs g1 (obj_body x))" and shape: "shape_ok g1 (obj_body x)"
    using in_reach_body [OF v1 a(1) y(1)] body_okD [OF v1(1) y(1)] y(2) by simp_all
  have by_marking: "\<exists>g'. f g1 = Inr g' \<and> traversed a R ?g0 g'"
    if "marking R g1 (targets (trefs g1 (obj_body x))) f" "kind_of (obj_body x) \<noteq> KTable" for f
    using marking_traversed [OF y(1) _ y(3)] that lift y(2) by metis
  show ?thesis
  proof (cases "obj_body x")
    case (BTable mt arr ns)
    have aw: "a \<notin> set (weak g1)" using a(3) l1 by simp
    obtain g2 wk z where g2: "traversetable a mt arr ns g1 = Inr (g2, wk)" "traversed a R g1 g2" "ob g2 a = Some z"
      using traversetable_step [OF v1 y(1) _ a(1) y(3) aw] y(2) BTable by metis
    obtain g3 where g3: "upd_mark a black2gray g2 = Inr g3" "traversed a R g1 g3"
      using traversed_black2gray [OF g2(2,3)] by blast
    show ?thesis using g2 g3 lift unfolding run BTable by (cases wk) auto
  next
    case (BThread t)
    let ?m = "x\<lparr>marked := black2gray (gray2black (marked x))\<rparr>"
    define g2 where "g2 = (set_obj a ?m g1)\<lparr>weak := weak g1, grayagain := a # grayagain g1\<rparr>"
    have "upd_mark a black2gray (g1\<lparr>grayagain := a # grayagain g1\<rparr>) = Inr g2"
      using y(1) by (simp add: upd_mark_ob g2_def y_def set_obj_def)
    moreover
    have m: "\<not> iswhite (marked y)" "\<not> iswhite (black2gray (marked y))" using x(2) by (simp_all add: y_def)
    have e2: "?m = y\<lparr>marked := black2gray (marked y)\<rparr>" by (simp add: y_def)
    have s2: "tstep a R g1 g2" unfolding g2_def e2 by (rule local_mark_step [OF y(1) m])
    have v2: "heap_valid g2" "closed R g2" using tstep_valid [OF s2 v1(1)] tstep_closed [OF s2 v1(2)] by blast+
    have z: "ob g2 a = Some ?m" "obj_body ?m = BThread t" "nonwhite g2 a"
      using y(1) x(2) BThread by (simp_all add: g2_def nonwhite_def)
    obtain g3 where g3: "traversestack a t g2 = Inr g3" "tstep a R g2 g3" "settled g3 a" "weak g3 = weak g2"
      "grayagain g3 = grayagain g2" using traversestack_step [OF v2 z(1,2) a(1) z(3)] by blast
    have "kind_at ?g0 a = Some KThread" using x(1) BThread by (simp add: kind_at_def)
    then have "traversed a R ?g0 g3"
      using tstep_trans [OF tstep_trans [OF s1 s2] g3(2)] g3 l1 by (simp add: traversed_def g2_def)
    ultimately show ?thesis using g3(1) unfolding run BThread by simp
  next
    case (BCclosure e ups)
    have "\<exists>g'. traversecclosure e ups g1 = Inr g' \<and> traversed a R ?g0 g'"
      using by_marking [of "traversecclosure e ups"] traversecclosure_marking [OF v1, of ups e] reach shape BCclosure by simp
    then show ?thesis unfolding run BCclosure by auto
  next
    case (BLclosure e p ups)
    have "\<exists>g'. traverselclosure e p ups g1 = Inr g' \<and> traversed a R ?g0 g'"
      using by_marking [of "traverselclosure e p ups"] traverselclosure_marking [OF v1, of ups e p] reach shape BLclosure by simp
    then show ?thesis unfolding run BLclosure by auto
  next
    case (BProto f)
    have "\<exists>g'. traverseproto f g1 = Inr g' \<and> traversed a R ?g0 g'"
      using by_marking [of "traverseproto f"] traverseproto_marking [OF v1, of f] reach shape BProto
      by (simp del: trefs.simps)
    then show ?thesis unfolding run BProto by auto
  qed (use k [OF x(1)] in \<open>simp_all add: container_def\<close>)
qed

end
