(* ===== verification/LGC_Tri.thy ===== *)
theory LGC_Tri
  imports LGC_Step
begin

text \<open>
  The tricolour invariant of the mark phase, and the propagation: it ends, and what was gray is settled.
\<close>

section \<open>The invariant\<close>

definition container_at :: "gc_State \<Rightarrow> gaddr \<Rightarrow> bool" where
  "container_at g a \<longleftrightarrow> (\<exists>k. kind_at g a = Some k \<and> k \<in> {KTable, KFunction, KThread, KProto})"

text \<open>
  The lists are linked through one field, \<^verbatim>\<open>gclist\<close>: an object is in one of them, once.  \<open>R\<close> bounds the
  objects that are marked.
\<close>

definition lists_ok :: "gaddr set \<Rightarrow> gc_State \<Rightarrow> bool" where
  "lists_ok R g \<longleftrightarrow> distinct (gray g @ grayagain g @ weak g) \<and>
     (\<forall>a \<in> set (gray g @ grayagain g @ weak g). a \<in> R \<and> nonwhite g a \<and> container_at g a) \<and>
     (\<forall>a \<in> set (weak g). kind_at g a = Some KTable)"

text \<open>Every marked object refers to marked objects, or is in the list of gray objects, or in \<open>U\<close>.\<close>

definition tri :: "gaddr set \<Rightarrow> gc_State \<Rightarrow> bool" where
  "tri U g \<longleftrightarrow> (\<forall>c. nonwhite g c \<longrightarrow> settled g c \<or> c \<in> set (gray g) \<or> c \<in> U)"

definition mark_inv :: "gaddr set \<Rightarrow> gaddr set \<Rightarrow> gc_State \<Rightarrow> bool" where
  "mark_inv R U g \<longleftrightarrow> heap_valid g \<and> closed R g \<and> lists_ok R g \<and> tri U g"

text \<open>An object that is white afterwards had the same white before.\<close>

definition keeps_white :: "gc_State \<Rightarrow> gc_State \<Rightarrow> bool" where
  "keeps_white g g' \<longleftrightarrow> (\<forall>c x'. ob g' c = Some x' \<longrightarrow> iswhite (marked x') \<longrightarrow>
     (\<exists>x. ob g c = Some x \<and> iswhite (marked x) \<and> bit (marked x) 0 = bit (marked x') 0 \<and> bit (marked x) 1 = bit (marked x') 1))"

lemma keeps_white_refl [simp]: "keeps_white g g"
  by (simp add: keeps_white_def)

lemma keeps_white_same: "ob g' = ob g \<Longrightarrow> keeps_white g g'"
  by (simp add: keeps_white_def)

lemma keeps_white_trans: "keeps_white g g1 \<Longrightarrow> keeps_white g1 g2 \<Longrightarrow> keeps_white g g2"
  unfolding keeps_white_def by metis

text \<open>What marking never undoes; only objects, colours and the three lists change.\<close>

definition progress :: "gaddr set \<Rightarrow> gc_State \<Rightarrow> gc_State \<Rightarrow> bool" where
  "progress R g g' \<longleftrightarrow>
     g' = g\<lparr>objs := objs g', gray := gray g', weak := weak g', grayagain := grayagain g'\<rparr> \<and>
     length (objs g') = length (objs g) \<and> kind_at g' = kind_at g \<and>
     (\<forall>c. nonwhite g c \<longrightarrow> nonwhite g' c) \<and> (\<forall>c. refs g' c \<subseteq> refs g c) \<and> (\<forall>c. c \<notin> R \<longrightarrow> ob g' c = ob g c) \<and> keeps_white g g'"

lemma progress_refl [simp]: "progress R g g"
  by (simp add: progress_def)

lemma progress_trans:
  assumes a: "progress R g g1" and b: "progress R g1 g2"
  shows "progress R g g2"
proof -
  have f: "g1 = g\<lparr>objs := objs g1, gray := gray g1, weak := weak g1, grayagain := grayagain g1\<rparr>"
    and f2: "g2 = g1\<lparr>objs := objs g2, gray := gray g2, weak := weak g2, grayagain := grayagain g2\<rparr>"
    using a b by (simp_all add: progress_def)
  let ?P = "\<lambda>z xs ys ws as. z\<lparr>objs := xs, gray := ys, weak := ws, grayagain := as\<rparr> = g\<lparr>objs := xs, gray := ys, weak := ws, grayagain := as\<rparr>"
  have "?P g1 xs ys ws as" for xs ys ws as by (rule ssubst [OF f, of "\<lambda>z. ?P z xs ys ws as"]) simp
  with f2 have "g2 = g\<lparr>objs := objs g2, gray := gray g2, weak := weak g2, grayagain := grayagain g2\<rparr>" by simp
  moreover have "refs g2 c \<subseteq> refs g c" for c using a b unfolding progress_def by blast
  moreover have "length (objs g2) = length (objs g)" "kind_at g2 = kind_at g" "\<And>c. nonwhite g c \<Longrightarrow> nonwhite g2 c"
    "\<And>c. c \<notin> R \<Longrightarrow> ob g2 c = ob g c" using a b by (simp_all add: progress_def)
  moreover have "keeps_white g g2" using a b keeps_white_trans by (auto simp: progress_def)
  ultimately show ?thesis unfolding progress_def by blast
qed

lemma progressD:
  assumes "progress R g g'"
  shows "length (objs g') = length (objs g)" "kind_at g' = kind_at g" "nonwhite g c \<Longrightarrow> nonwhite g' c"
    "refs g' c \<subseteq> refs g c" "c \<notin> R \<Longrightarrow> ob g' c = ob g c" "container_at g' = container_at g" "keeps_white g g'"
  using assms by (simp_all add: progress_def container_at_def fun_eq_iff)

lemma progress_all_marked: "progress R g g' \<Longrightarrow> all_marked g S \<Longrightarrow> all_marked g' S"
  using progressD(3) by (auto simp: all_marked_def)

lemma progress_keeps:
  assumes "progress R g g'"
  shows "mainthread g' = mainthread g" "registry g' = registry g" "basic_mt g' = basic_mt g" "rootgc g' = rootgc g"
    "tmudata g' = tmudata g" "uvhead g' = uvhead g" "phase g' = phase g" "gcwhite g' = gcwhite g" "hash_lists g' = hash_lists g"
    "tmname_gc g' = tmname_gc g"
proof -
  have f: "g' = g\<lparr>objs := objs g', gray := gray g', weak := weak g', grayagain := grayagain g'\<rparr>" using assms by (simp add: progress_def)
  show "mainthread g' = mainthread g" "registry g' = registry g" "basic_mt g' = basic_mt g" "rootgc g' = rootgc g"
    "tmudata g' = tmudata g" "uvhead g' = uvhead g" "phase g' = phase g" "gcwhite g' = gcwhite g" "hash_lists g' = hash_lists g"
    "tmname_gc g' = tmname_gc g"
    using arg_cong [OF f, of mainthread] arg_cong [OF f, of registry] arg_cong [OF f, of basic_mt] arg_cong [OF f, of rootgc]
      arg_cong [OF f, of tmudata] arg_cong [OF f, of uvhead] arg_cong [OF f, of phase] arg_cong [OF f, of gcwhite]
      arg_cong [OF f, of hash_lists] arg_cong [OF f, of tmname_gc] by simp_all
qed

lemma tstep_progress:
  assumes s: "tstep a R g g'" and "a \<in> R"
  shows "progress R g g'"
proof -
  obtain new where f: "g' = g\<lparr>objs := objs g', gray := new @ gray g, weak := weak g', grayagain := grayagain g'\<rparr>"
    using s by (auto simp: tstep_def)
  have "gray g' = new @ gray g" using arg_cong [OF f, of gray] by simp
  with f have f': "g' = g\<lparr>objs := objs g', gray := gray g', weak := weak g', grayagain := grayagain g'\<rparr>" by simp
  have len: "length (objs g') = length (objs g)" using s by (simp add: tstep_def)
  have out: "ob g' c = ob g c" if "c \<notin> R" for c using s assms(2) that by (auto simp: tstep_def tpoint_def)
  have kw: "keeps_white g g'"
    unfolding keeps_white_def
  proof (intro allI impI)
    fix c x' assume x': "ob g' c = Some x'" "iswhite (marked x')"
    then have "c \<noteq> a" using s by (auto simp: tstep_def nonwhite_def)
    then have "tpoint R g g' c" using s by (simp add: tstep_def)
    then have "ob g c = Some x'" using x' by (auto simp: tpoint_def)
    then show "\<exists>x. ob g c = Some x \<and> iswhite (marked x) \<and> bit (marked x) 0 = bit (marked x') 0 \<and> bit (marked x) 1 = bit (marked x') 1"
      using x'(2) by blast
  qed
  show ?thesis
    unfolding progress_def
    by (intro conjI allI impI f' len tstep_kind [OF s] tstep_refs [OF s] out kw) (auto intro: tstep_nonwhite [OF s])
qed

lemma marks_progress: "marks R g g' \<Longrightarrow> progress R g g'"
proof -
  assume m: "marks R g g'"
  note sb = marks_bodies [OF m]
  obtain new where f: "g' = g\<lparr>objs := objs g', gray := new @ gray g\<rparr>" using m by (auto simp: marks_def)
  have "gray g' = new @ gray g" using arg_cong [OF f, of gray] by simp
  with f marks_lists [OF m] have f': "g' = g\<lparr>objs := objs g', gray := gray g', weak := weak g', grayagain := grayagain g'\<rparr>" by simp
  have len: "length (objs g') = length (objs g)" and out: "\<And>c. c \<notin> R \<Longrightarrow> ob g' c = ob g c"
    using m by (auto simp: marks_def mark_point_def)
  have kw: "keeps_white g g'"
    unfolding keeps_white_def
  proof (intro allI impI)
    fix c x' assume x': "ob g' c = Some x'" "iswhite (marked x')"
    have "mark_point R g g' c" using m by (simp add: marks_def)
    then have "ob g c = Some x'" using x' by (auto simp: mark_point_def)
    then show "\<exists>x. ob g c = Some x \<and> iswhite (marked x) \<and> bit (marked x) 0 = bit (marked x') 0 \<and> bit (marked x) 1 = bit (marked x') 1"
      using x'(2) by blast
  qed
  show "progress R g g'"
    unfolding progress_def
    by (intro conjI allI impI f' len out kw) (simp_all add: same_bodies_kind [OF sb] same_bodies_refs(2) [OF sb] marks_nonwhite [OF m])
qed

lemma progress_same:
  assumes o': "objs g' = objs g" and f: "g' = g\<lparr>objs := objs g', gray := gray g', weak := weak g', grayagain := grayagain g'\<rparr>"
  shows "progress R g g'"
proof -
  have o: "ob g' = ob g" using o' by (rule ob_cong)
  have sb: "same_bodies g g'" by (simp add: same_bodies_def o)
  have len: "length (objs g') = length (objs g)" by (simp add: o')
  show ?thesis
    unfolding progress_def
    by (intro conjI allI impI f len keeps_white_same o) (simp_all add: same_bodies_kind [OF sb] same_bodies_refs(2) [OF sb] o nonwhite_def)
qed

lemma progress_lists:
  "progress R g (g\<lparr>gray := xs\<rparr>)" "progress R g (g\<lparr>gray := xs, weak := ws\<rparr>)" "progress R g (g\<lparr>gray := xs, grayagain := as\<rparr>)"
  by (rule progress_same; simp)+

section \<open>Steps of the marker\<close>

text \<open>\<open>gray_grows\<close>: the objects that become gray enter the list.\<close>

definition gray_grows :: "gc_State \<Rightarrow> gc_State \<Rightarrow> gaddr list \<Rightarrow> bool" where
  "gray_grows g g' new \<longleftrightarrow> gray g' = new @ gray g \<and> distinct new \<and> (\<forall>c. c \<in> set new \<longleftrightarrow> newly_gray g g' c)"

lemma tstep_grows: "tstep a R g g' \<Longrightarrow> \<exists>new. gray_grows g g' new"
proof -
  assume "tstep a R g g'"
  then obtain new where f: "g' = g\<lparr>objs := objs g', gray := new @ gray g, weak := weak g', grayagain := grayagain g'\<rparr>"
    "distinct new" "\<forall>c. c \<in> set new \<longleftrightarrow> newly_gray g g' c" by (auto simp: tstep_def)
  from arg_cong [OF f(1), of gray] f(2,3) show ?thesis by (auto simp: gray_grows_def)
qed

lemma newly_gray_fresh: "newly_gray g g' c \<Longrightarrow> \<not> nonwhite g c"
  by (auto simp: newly_gray_def nonwhite_def)

lemma newly_gray_container: "newly_gray g g' c \<Longrightarrow> container_at g c"
  by (auto simp: newly_gray_def container_at_def kind_at_def container_def)

lemma changed_in: "progress R g g' \<Longrightarrow> newly_gray g g' c \<Longrightarrow> c \<in> R"
  using progressD(5) newly_gray_fresh unfolding newly_gray_def nonwhite_def by metis

lemma lists_grow:
  assumes l: "lists_ok R g" and p: "progress R g g'" and g: "gray_grows g g' new"
    and w: "weak g' = weak g" "grayagain g' = grayagain g"
  shows "lists_ok R g'"
proof -
  have n: "c \<in> R \<and> nonwhite g' c \<and> container_at g' c" if "c \<in> set new" for c
    using that g changed_in [OF p] newly_gray_container progressD(6) [OF p] by (auto simp: gray_grows_def newly_gray_def)
  have fresh: "c \<notin> set (gray g @ grayagain g @ weak g)" if "c \<in> set new" for c
    using that g l newly_gray_fresh [of g g' c] by (auto simp: gray_grows_def lists_ok_def)
  show ?thesis
    using l g n fresh progressD(3) [OF p] unfolding lists_ok_def gray_grows_def
    by (auto simp: w progressD(2,6) [OF p])
qed

text \<open>Objects that a traversal does not touch keep their strong references.\<close>

lemma strong_refs_other:
  assumes "ob g' c = ob g c" "refs g' c \<subseteq> refs g c" "c \<in> set (weak g') \<longleftrightarrow> c \<in> set (weak g)"
  shows "strong_refs g' c \<subseteq> strong_refs g c"
  using assms by (cases "ob g c") (auto simp: strong_refs_def split: gbody.splits)

lemma tri_tstep:
  assumes s: "tstep a R g g'" and w: "set (weak g') \<subseteq> insert a (set (weak g))" "set (weak g) \<subseteq> set (weak g')" and t: "tri U g" and a: "a \<in> U"
  shows "tri U g'"
  unfolding tri_def
proof (intro allI impI)
  fix c assume c: "nonwhite g' c"
  obtain new where g: "gray_grows g g' new" using tstep_grows [OF s] by blast
  show "settled g' c \<or> c \<in> set (gray g') \<or> c \<in> U"
  proof (cases "c = a \<or> \<not> nonwhite g c")
    case True
    show ?thesis
    proof (cases "c = a")
      case False
      then have "tpoint R g g' c" "\<not> nonwhite g c" using s True by (simp_all add: tstep_def)
      then obtain x where x: "ob g c = Some x" "iswhite (marked x)" "container (obj_body x) \<or> all_marked g' (refs g' c)"
        using c by (auto simp: tpoint_def nonwhite_ob)
      from x(3) show ?thesis
      proof
        assume "container (obj_body x)"
        then have "newly_gray g g' c" using x c by (simp add: newly_gray_def)
        then show ?thesis using g by (simp add: gray_grows_def)
      qed (use all_settled in blast)
    qed (use a in simp)
  next
    case False
    then have "settled g c \<or> c \<in> set (gray g) \<or> c \<in> U" using t by (simp add: tri_def)
    moreover have "settled g' c" if "settled g c"
    proof -
      have "strong_refs g' c \<subseteq> strong_refs g c"
        by (rule strong_refs_other) (use False tstep_kept [OF s] tstep_refs [OF s] w in auto)
      then show ?thesis using that tstep_all_marked [OF s] by (auto simp: settled_def all_marked_def)
    qed
    ultimately show ?thesis using g by (auto simp: gray_grows_def)
  qed
qed

lemma tri_marks:
  assumes m: "marks R g g'" and t: "tri U g"
  shows "tri U g'"
  unfolding tri_def
proof (intro allI impI)
  fix c assume c: "nonwhite g' c"
  note sb = marks_bodies [OF m]
  obtain new where f: "g' = g\<lparr>objs := objs g', gray := new @ gray g\<rparr>" "\<forall>c. c \<in> set new \<longleftrightarrow> newly_gray g g' c"
    using m by (auto simp: marks_def)
  from arg_cong [OF f(1), of gray] have gr: "gray g' = new @ gray g" by simp
  show "settled g' c \<or> c \<in> set (gray g') \<or> c \<in> U"
  proof (cases "nonwhite g c")
    case True
    have "strong_refs g' c \<subseteq> strong_refs g c"
      by (rule strong_refs_other) (simp_all add: marks_kept [OF m True] same_bodies_refs [OF sb] marks_lists [OF m])
    then have "settled g' c" if "settled g c"
      using that all_marked_mono [OF m] by (auto simp: settled_def all_marked_def)
    then show ?thesis using t True gr by (auto simp: tri_def)
  next
    case False
    moreover have "mark_point R g g' c" using m by (simp add: marks_def)
    ultimately obtain x where x: "ob g c = Some x" "iswhite (marked x)" "container (obj_body x) \<or> all_marked g' (refs g c)"
      using c by (auto simp: mark_point_def nonwhite_ob)
    from x(3) show ?thesis
    proof
      assume "container (obj_body x)"
      then have "newly_gray g g' c" using x c by (simp add: newly_gray_def)
      then show ?thesis using f gr by simp
    next
      assume "all_marked g' (refs g c)"
      then show ?thesis using all_settled [of g' c] same_bodies_refs(2) [OF sb] by simp
    qed
  qed
qed

lemma marks_inv:
  assumes m: "marks R g g'" and i: "mark_inv R U g"
  shows "mark_inv R U g'"
proof -
  note sb = marks_bodies [OF m]
  obtain new where f: "g' = g\<lparr>objs := objs g', gray := new @ gray g\<rparr>" "distinct new" "\<forall>c. c \<in> set new \<longleftrightarrow> newly_gray g g' c"
    using m by (auto simp: marks_def)
  from arg_cong [OF f(1), of gray] f(2,3) have g: "gray_grows g g' new" by (simp add: gray_grows_def)
  have "lists_ok R g'"
    by (rule lists_grow [OF _ marks_progress [OF m] g]) (use i marks_lists [OF m] in \<open>simp_all add: mark_inv_def\<close>)
  then show ?thesis
    using i tri_marks [OF m] same_bodies_refs(5) [OF sb] closed_same [OF sb] by (simp add: mark_inv_def)
qed

section \<open>The propagation\<close>

text \<open>The lists of the objects that wait for \<^verbatim>\<open>atomic\<close> only grow.\<close>

definition lists_up :: "gc_State \<Rightarrow> gc_State \<Rightarrow> bool" where
  "lists_up g g' \<longleftrightarrow> set (weak g) \<subseteq> set (weak g') \<and> set (grayagain g) \<subseteq> set (grayagain g')"

lemma lists_up_refl [simp]: "lists_up g g"
  by (simp add: lists_up_def)

lemma lists_up_trans: "lists_up g g1 \<Longrightarrow> lists_up g1 g2 \<Longrightarrow> lists_up g g2"
  by (auto simp: lists_up_def)

definition gc_measure :: "gc_State \<Rightarrow> nat" where
  "gc_measure g = white_count g + length (gray g)"

lemma white_count_card: "white_count g = card {c. white g c}"
proof -
  have "white_count g = card {i. i < length (objs g) \<and> white g i}"
    unfolding white_count_def length_filter_conv_card white_def ob_def
    by (rule arg_cong [where f = card]) (auto split: option.splits)
  also have "{i. i < length (objs g) \<and> white g i} = {c. white g c}"
    by (auto simp: white_def ob_def split: if_splits)
  finally show ?thesis .
qed

lemma finite_white: "finite {c. white g c}"
proof (rule finite_subset)
  show "{c. white g c} \<subseteq> {..<length (objs g)}" by (auto simp: white_def ob_def split: if_splits)
qed simp

lemma white_nonwhite: "white g c \<longleftrightarrow> ob g c \<noteq> None \<and> \<not> nonwhite g c"
  by (auto simp: white_def nonwhite_def split: option.splits)

lemma grows_measure:
  assumes p: "progress R g g'" and g: "gray_grows g g' new"
  shows "gc_measure g' \<le> gc_measure g"
proof -
  have some: "ob g' c \<noteq> None \<longleftrightarrow> ob g c \<noteq> None" for c
    using fun_cong [OF progressD(2) [OF p], of c] by (cases "ob g c"; cases "ob g' c") (simp_all add: kind_at_def)
  have sub: "{c. white g' c} \<subseteq> {c. white g c}" using some progressD(3) [OF p] by (auto simp: white_nonwhite)
  have new: "set new \<subseteq> {c. white g c}" "set new \<inter> {c. white g' c} = {}"
    using g by (auto simp: gray_grows_def newly_gray_def white_nonwhite [of g']) (simp add: white_def)
  have "card {c. white g' c} + card (set new) = card ({c. white g' c} \<union> set new)"
    using new finite_white by (subst card_Un_disjoint) auto
  also have "\<dots> \<le> card {c. white g c}" using sub new finite_white by (intro card_mono) auto
  finally have "white_count g' + length new \<le> white_count g"
    using g by (simp add: white_count_card gray_grows_def distinct_card)
  then show ?thesis using g by (simp add: gc_measure_def gray_grows_def)
qed

lemma container_kind: "container_at g a \<Longrightarrow> ob g a = Some x \<Longrightarrow> container (obj_body x)"
  by (auto simp: container_at_def kind_at_def container_def)

lemma traversed_inv:
  assumes t: "traversed a R g0 g'" and i: "mark_inv R U g" and g: "gray g = a # rest" and g0: "g0 = g\<lparr>gray := rest\<rparr>"
  shows "mark_inv R U g'" "progress R g g'" "gc_measure g' < gc_measure g" "lists_up g g'"
proof -
  show "lists_up g g'" using t by (auto simp: traversed_def lists_up_def g0)
  have s: "tstep a R g0 g'" and st: "settled g' a" using t by (simp_all add: traversed_def)
  have l: "lists_ok R g" using i by (simp add: mark_inv_def)
  then have a: "a \<in> R" "nonwhite g a" "container_at g a" "a \<notin> set rest" "a \<notin> set (grayagain g)" "a \<notin> set (weak g)"
    by (auto simp: lists_ok_def g)
  have o0: "ob g0 = ob g" by (simp add: g0)
  have sb: "same_bodies g g0" by (simp add: same_bodies_def o0)
  have w0: "weak g0 = weak g" "gray g0 = rest" by (simp_all add: g0)
  have p0: "progress R g g0" unfolding g0 by (rule progress_lists)
  have p: "progress R g0 g'" by (rule tstep_progress [OF s a(1)])
  show pg: "progress R g g'" by (rule progress_trans [OF p0 p])
  obtain new where n: "gray_grows g0 g' new" using tstep_grows [OF s] by blast
  have m0: "gc_measure g0 < gc_measure g" by (simp add: gc_measure_def g0 g white_count_def)
  then show "gc_measure g' < gc_measure g" using grows_measure [OF p n] by simp
  have "heap_valid g'" "closed R g'"
    using tstep_valid [OF s] tstep_closed [OF s] i same_bodies_refs(5) [OF sb] closed_same [OF sb] by (simp_all add: mark_inv_def)
  moreover have "tri (insert a U) g0"
  proof -
    have "strong_refs g0 c = strong_refs g c" for c
      unfolding strong_refs_def o0 w0(1) same_bodies_refs(2) [OF sb] by (rule refl)
    then have "settled g0 c = settled g c" for c by (simp add: settled_def all_marked_def nonwhite_def o0)
    then show ?thesis using i by (auto simp: tri_def mark_inv_def g nonwhite_def o0 w0)
  qed
  then have "tri (insert a U) g'"
    by (rule tri_tstep [OF s, rotated 2]) (use t in \<open>auto simp: traversed_def\<close>)
  then have "tri U g'" using st by (auto simp: tri_def)
  moreover have "lists_ok R g'"
  proof -
    define w where "w = g'\<lparr>weak := weak g0, grayagain := grayagain g0\<rparr>"
    have l0: "lists_ok R g0" using l by (auto simp: lists_ok_def g0 g nonwhite_def container_at_def kind_at_def)
    have eq: "nonwhite w = nonwhite g'" "kind_at w = kind_at g'" "container_at w = container_at g'"
      by (simp_all add: fun_eq_iff w_def nonwhite_def kind_at_def container_at_def)
    have sw: "same_bodies g' w" by (simp add: same_bodies_def w_def)
    have f: "g' = g0\<lparr>objs := objs g', gray := gray g', weak := weak g', grayagain := grayagain g'\<rparr>" using p by (simp add: progress_def)
    have "w = g0\<lparr>objs := objs g', gray := gray g'\<rparr>"
      unfolding w_def by (rule ssubst [OF f, of "\<lambda>z. z\<lparr>weak := weak g0, grayagain := grayagain g0\<rparr> = g0\<lparr>objs := objs g', gray := gray g'\<rparr>"]) simp
    then have fw: "w = g0\<lparr>objs := objs w, gray := gray w, weak := weak w, grayagain := grayagain w\<rparr>" by (simp add: w_def)
    have len: "length (objs w) = length (objs g0)" using progressD(1) [OF p] by (simp add: w_def)
    have kw: "keeps_white g0 w" using progressD(7) [OF p] by (simp add: keeps_white_def w_def)
    have pw: "progress R g0 w"
      unfolding progress_def
      by (intro conjI allI impI fw len kw)
         (simp_all add: eq same_bodies_refs(2) [OF sw] progressD [OF p], simp add: w_def progressD(5) [OF p])
    have nw: "gray_grows g0 w new" using n by (simp add: gray_grows_def newly_gray_def eq) (simp add: w_def)
    have lw: "lists_ok R w" by (rule lists_grow [OF l0 pw nw]) (simp_all add: w_def)
    have "a \<notin> set new" using n a(2) newly_gray_fresh [of g0 g' a] by (auto simp: gray_grows_def nonwhite_def o0)
    then have out: "a \<notin> set (gray w @ grayagain w @ weak w)" using a n by (simp add: w_def gray_grows_def g0)
    have na: "nonwhite g' a" "container_at g' a" using progressD(3) [OF pg a(2)] a(3) progressD(6) [OF pg] by simp_all
    have "kind_at g' = kind_at g0" by (rule progressD(2) [OF p])
    then show ?thesis
      using lw out na a(1) t unfolding lists_ok_def eq traversed_def by (auto simp: w_def)
  qed
  ultimately show "mark_inv R U g'" by (simp add: mark_inv_def)
qed

lemma propagatemark_inv:
  assumes i: "mark_inv R U g" and g: "gray g \<noteq> []"
  shows "\<exists>g' s. propagatemark H g = Inr (g', s) \<and> mark_inv R U g' \<and> progress R g g' \<and> lists_up g g' \<and> gc_measure g' < gc_measure g"
proof -
  obtain a rest where g: "gray g = a # rest" using g by (cases "gray g") simp_all
  have v: "heap_valid g" "closed R g" and "lists_ok R g" using i by (simp_all add: mark_inv_def)
  then have a: "a \<in> R" "nonwhite g a" "a \<notin> set (weak g)" "container_at g a" by (auto simp: lists_ok_def g)
  obtain g' s where g': "propagatemark H g = Inr (g', s)" "traversed a R (g\<lparr>gray := rest\<rparr>) g'"
    using propagatemark_step [OF v g a(1-3) container_kind [OF a(4)]] by blast
  then show ?thesis using traversed_inv [OF g'(2) i g refl] by blast
qed

lemma propagate_n_inv:
  "mark_inv R U g \<Longrightarrow> gc_measure g \<le> n \<Longrightarrow>
   \<exists>g' s. propagate_n n H g m = Inr (g', s) \<and> mark_inv R U g' \<and> progress R g g' \<and> lists_up g g' \<and> gray g' = []"
proof (induction n arbitrary: g m)
  case 0
  then have "gray g = []" by (simp add: gc_measure_def)
  then show ?case using 0 by simp
next
  case (Suc n)
  show ?case
  proof (cases "gray g = []")
    case False
    then obtain g1 s1 where g1: "propagatemark H g = Inr (g1, s1)" "mark_inv R U g1" "progress R g g1" "lists_up g g1" "gc_measure g1 < gc_measure g"
      using propagatemark_inv [OF Suc.prems(1)] by blast
    then have "gc_measure g1 \<le> n" using Suc.prems(2) by simp
    from Suc.IH [OF g1(2) this, of "m + s1"] obtain g2 s2 where
      "propagate_n n H g1 (m + s1) = Inr (g2, s2)" "mark_inv R U g2" "progress R g1 g2" "lists_up g1 g2" "gray g2 = []" by blast
    then show ?thesis using False g1(1) progress_trans [OF g1(3)] lists_up_trans [OF g1(4)] by auto
  qed (use Suc in simp)
qed

lemma propagateall_inv:
  "mark_inv R U g \<Longrightarrow> \<exists>g' s. propagateall H g = Inr (g', s) \<and> mark_inv R U g' \<and> progress R g g' \<and> lists_up g g' \<and> gray g' = []"
  unfolding propagateall_def using propagate_n_inv [of R U g] by (simp add: gc_measure_def)

end
