(* ===== verification/LGC_Atomic.thy ===== *)
theory LGC_Atomic
  imports LGC_Tri
begin

text \<open>
  The atomic phase: upvalues, weak tables and threads are visited again, the userdata to finalize are
  separated and marked, and the weak tables lose the entries that nothing else keeps.
\<close>

section \<open>Marking under the invariant\<close>

lemma marking_inv:
  assumes m: "marking R g T f" and i: "mark_inv R U g"
  shows "\<exists>g'. f g = Inr g' \<and> marks R g g' \<and> mark_inv R U g' \<and> all_marked g' T"
proof -
  obtain g' where "f g = Inr g'" "marks R g g'" "all_marked g' T" using markingD [OF m] by blast
  then show ?thesis using marks_inv [OF _ i] by blast
qed

lemma tri_marks_gen:
  assumes m: "marks R g g'" and t: "\<And>c. nonwhite g c \<Longrightarrow> all_marked g' (strong_refs g c) \<or> c \<in> set (gray g) \<or> c \<in> U"
  shows "tri U g'"
  unfolding tri_def
proof (intro allI impI)
  fix c assume c: "nonwhite g' c"
  note sb = marks_bodies [OF m]
  obtain new where f: "g' = g\<lparr>objs := objs g', gray := new @ gray g\<rparr>" "\<forall>c. c \<in> set new \<longleftrightarrow> newly_gray g g' c"
    using m by (auto simp: marks_def)
  from arg_cong [OF f(1), of gray] have gr: "gray g' = new @ gray g" by simp
  show "settled g' c \<or> c \<in> set (gray g') \<or> c \<in> U"
  proof (cases "nonwhite g c")
    case True
    have "strong_refs g' c \<subseteq> strong_refs g c"
      by (rule strong_refs_other) (simp_all add: marks_kept [OF m True] same_bodies_refs [OF sb] marks_lists [OF m])
    then show ?thesis using t [OF True] gr by (auto simp: settled_def all_marked_def)
  next
    case False
    moreover have "mark_point R g g' c" using m by (simp add: marks_def)
    ultimately obtain x where x: "ob g c = Some x" "iswhite (marked x)" "container (obj_body x) \<or> all_marked g' (refs g c)"
      using c by (auto simp: mark_point_def nonwhite_ob)
    from x(3) show ?thesis
    proof
      assume "container (obj_body x)"
      then have "newly_gray g g' c" using x c by (simp add: newly_gray_def)
      then show ?thesis using f gr by simp
    next
      assume "all_marked g' (refs g c)"
      then show ?thesis using all_settled [of g' c] same_bodies_refs(2) [OF sb] by simp
    qed
  qed
qed

lemma tri_weaken: "mark_inv R U g \<Longrightarrow> U \<subseteq> V \<Longrightarrow> mark_inv R V g"
  by (auto simp: mark_inv_def tri_def)

section \<open>Upvalues\<close>

text \<open>The open upvalues: their objects are upvalues.\<close>

definition upvals_ok :: "gaddr set \<Rightarrow> gc_State \<Rightarrow> bool" where
  "upvals_ok R g \<longleftrightarrow> (\<forall>u \<in> set (uvhead g). kind_at g u = Some KUpval \<and> (nonwhite g u \<longrightarrow> u \<in> R))"

lemma remarkupval_marking:
  assumes v: "heap_valid g" "closed R g" and u: "kind_at g u = Some KUpval" "nonwhite g u \<longrightarrow> u \<in> R"
  shows "\<exists>g'. remarkupval u g = Inr g' \<and> marks R g g' \<and>
    (\<forall>x. ob g u = Some x \<longrightarrow> isgray (marked x) \<longrightarrow> all_marked g' (refs g u))"
proof -
  obtain x w where x: "ob g u = Some x" "obj_body x = BUpval w"
  proof -
    obtain x where x: "ob g u = Some x" "kind_of (obj_body x) = KUpval" using u(1) by (auto simp: kind_at_def)
    then show ?thesis using that by (cases "obj_body x") simp_all
  qed
  show ?thesis
  proof (cases "isgray (marked x)")
    case False
    then show ?thesis using x marks_refl by (auto simp: remarkupval_def)
  next
    case True
    then have R: "u \<in> R" using u(2) x by (simp add: nonwhite_def isgray_def)
    have sh: "shape_ok g (BUpval w)" using body_okD [OF v(1) x(1)] x(2) by simp
    obtain val where val: "upval_value g w = Inr val" "trefs g (BUpval w) = vref val" "val = DeadK \<longrightarrow> (\<exists>th i. w = Open th i)"
      by (rule upval_value_ok [OF sh])
    have nd: "val \<noteq> DeadK"
    proof
      assume d: "val = DeadK"
      with val(3) sh obtain th i where w: "w = Open th i" "i < length (stack_of g th)" by auto
      with val(1) have "stack_of g th ! i = val"
        by (cases "ob g th") (auto simp: upval_value_def stack_of_def split: gbody.splits if_splits)
      with stack_no_dead [OF v(1) w(2)] d show False by blast
    qed
    have r: "in_reach R g (vref val)" using in_reach_body [OF v R x(1)] by (simp only: x(2) val(2))
    obtain g' where g': "markvalue val g = Inr g'" "marks R g g'" "all_marked g' (targets (vref val))"
      using markingD [OF markvalue_marking [OF v nd r]] by blast
    have "refs g u = targets (vref val)" unfolding refs_def x(1) by (simp only: option.case x(2) val(2))
    then show ?thesis using g' True x val(1) by (auto simp: remarkupval_def)
  qed
qed

lemma upvals_progress: "upvals_ok R g \<Longrightarrow> progress R g g' \<Longrightarrow> upvals_ok R g'"
  using progressD(2,5) unfolding upvals_ok_def progress_keeps(6) by (metis nonwhite_def)

text \<open>After \<^verbatim>\<open>remarkupvals\<close> no upvalue of the list is unsettled.\<close>

definition gray_upvals :: "gc_State \<Rightarrow> gaddr set" where
  "gray_upvals g = {u \<in> set (uvhead g). \<exists>x. ob g u = Some x \<and> isgray (marked x)}"

lemma remark_list:
  assumes "mark_inv R (set us' \<union> U) g" "\<forall>u \<in> set us'. kind_at g u = Some KUpval \<and> (nonwhite g u \<longrightarrow> u \<in> R)"
    and "\<forall>u \<in> set us'. \<forall>x. ob g u = Some x \<longrightarrow> \<not> isgray (marked x) \<longrightarrow> nonwhite g u \<longrightarrow> settled g u"
  shows "\<exists>g'. efold remarkupval us' g = Inr g' \<and> progress R g g' \<and> lists_up g g' \<and> mark_inv R U g'"
  using assms
proof (induction us' arbitrary: g)
  case Nil
  then show ?case by simp
next
  case (Cons u us)
  have v: "heap_valid g" "closed R g" using Cons.prems(1) by (simp_all add: mark_inv_def)
  have "kind_at g u = Some KUpval" "nonwhite g u \<longrightarrow> u \<in> R" using Cons.prems(2) by simp_all
  then obtain g1 where g1: "remarkupval u g = Inr g1" "marks R g g1"
    "\<forall>x. ob g u = Some x \<longrightarrow> isgray (marked x) \<longrightarrow> all_marked g1 (refs g u)"
    using remarkupval_marking [OF v] by blast
  note sb = marks_bodies [OF g1(2)] and p1 = marks_progress [OF g1(2)]
  have i1: "mark_inv R (insert u (set us \<union> U)) g1" using marks_inv [OF g1(2) Cons.prems(1)] by simp
  have su: "settled g1 w" if w: "w \<in> set (u # us)" "nonwhite g1 w"
    "w = u \<or> \<not> nonwhite g w \<or> (\<exists>x. ob g w = Some x \<and> \<not> isgray (marked x))" for w
  proof (cases "nonwhite g w")
    case True
    then obtain x where x: "ob g w = Some x" by (auto simp: nonwhite_ob)
    show ?thesis
    proof (cases "isgray (marked x)")
      case True
      then have "all_marked g1 (refs g w)" using w(3) x g1(3) \<open>nonwhite g w\<close> by auto
      then show ?thesis using all_settled [of g1 w] same_bodies_refs(2) [OF sb] by simp
    next
      case False
      then have "settled g w" using Cons.prems(3) w(1) x True by blast
      moreover have "strong_refs g1 w \<subseteq> strong_refs g w"
        by (rule strong_refs_other) (simp_all add: marks_kept [OF g1(2) True] same_bodies_refs [OF sb] marks_lists [OF g1(2)])
      ultimately show ?thesis using all_marked_mono [OF g1(2)] by (auto simp: settled_def all_marked_def)
    qed
  next
    case False
    have k: "kind_at g w = Some KUpval" using w(1) Cons.prems(2) by auto
    have "mark_point R g g1 w" using g1(2) by (simp add: marks_def)
    with False w(2) obtain x where x: "ob g w = Some x" "container (obj_body x) \<or> all_marked g1 (refs g w)"
      by (auto simp: mark_point_def nonwhite_ob)
    moreover have "\<not> container (obj_body x)" using k x(1) by (simp add: kind_at_def container_def)
    ultimately show ?thesis using all_settled [of g1 w] same_bodies_refs(2) [OF sb] by simp
  qed
  have "mark_inv R (set us \<union> U) g1" using i1 su [of u] by (auto simp: mark_inv_def tri_def)
  moreover have "\<forall>w \<in> set us. kind_at g1 w = Some KUpval \<and> (nonwhite g1 w \<longrightarrow> w \<in> R)"
  proof (intro ballI conjI impI)
    fix w assume w: "w \<in> set us"
    then show "kind_at g1 w = Some KUpval" using Cons.prems(2) progressD(2) [OF p1] by simp
    assume nw: "nonwhite g1 w"
    show "w \<in> R"
    proof (rule ccontr)
      assume "w \<notin> R"
      with progressD(5) [OF p1] nw have "nonwhite g w" by (simp add: nonwhite_def)
      with w Cons.prems(2) \<open>w \<notin> R\<close> show False by simp
    qed
  qed
  moreover have "\<forall>w \<in> set us. \<forall>x. ob g1 w = Some x \<longrightarrow> \<not> isgray (marked x) \<longrightarrow> nonwhite g1 w \<longrightarrow> settled g1 w"
  proof (intro ballI allI impI)
    fix w x assume w: "w \<in> set us" "ob g1 w = Some x" "\<not> isgray (marked x)" "nonwhite g1 w"
    show "settled g1 w"
    proof (rule su)
      show "w = u \<or> \<not> nonwhite g w \<or> (\<exists>x. ob g w = Some x \<and> \<not> isgray (marked x))"
        using w marks_kept [OF g1(2), of w] by auto
    qed (use w in simp_all)
  qed
  ultimately obtain g2 where "efold remarkupval us g1 = Inr g2" "progress R g1 g2" "lists_up g1 g2" "mark_inv R U g2"
    using Cons.IH by blast
  then show ?case using g1(1) progress_trans [OF p1] marks_lists [OF g1(2)] by (auto simp: lists_up_def)
qed

lemma remarkupvals_inv:
  assumes i: "mark_inv R (gray_upvals g \<union> U) g" and u: "upvals_ok R g"
    and b: "set (uvhead g) \<inter> (set (gray g) \<union> U) = {}"
  shows "\<exists>g'. remarkupvals g = Inr g' \<and> progress R g g' \<and> lists_up g g' \<and> mark_inv R U g'"
  unfolding remarkupvals_def
proof (rule remark_list)
  show "mark_inv R (set (uvhead g) \<union> U) g" by (rule tri_weaken [OF i]) (auto simp: gray_upvals_def)
  show "\<forall>w \<in> set (uvhead g). kind_at g w = Some KUpval \<and> (nonwhite g w \<longrightarrow> w \<in> R)" using u by (simp add: upvals_ok_def)
  show "\<forall>w \<in> set (uvhead g). \<forall>x. ob g w = Some x \<longrightarrow> \<not> isgray (marked x) \<longrightarrow> nonwhite g w \<longrightarrow> settled g w"
    using i b by (fastforce simp: mark_inv_def tri_def gray_upvals_def)
qed

section \<open>Weak tables\<close>

text \<open>Clearing marks strings only; no object becomes gray.\<close>

definition quiet :: "gaddr set \<Rightarrow> gc_State \<Rightarrow> gc_State \<Rightarrow> bool" where
  "quiet R g g' \<longleftrightarrow> marks R g g' \<and> gray g' = gray g"

lemma quiet_refl [simp]: "quiet R g g"
  by (simp add: quiet_def marks_refl)

lemma quiet_trans: "quiet R g g1 \<Longrightarrow> quiet R g1 g2 \<Longrightarrow> quiet R g g2"
  unfolding quiet_def using marks_trans by metis

lemma quiet_all_marked: "quiet R g g' \<Longrightarrow> all_marked g S \<Longrightarrow> all_marked g' S"
  using all_marked_mono by (auto simp: quiet_def)

lemma quiet_valid: "quiet R g g' \<Longrightarrow> heap_valid g' = heap_valid g \<and> closed R g' = closed R g \<and> in_reach R g' = in_reach R g"
proof -
  assume "quiet R g g'"
  then have sb: "same_bodies g g'" using marks_bodies by (auto simp: quiet_def)
  show ?thesis by (simp add: in_reach_def fun_eq_iff same_bodies_refs [OF sb] closed_same [OF sb])
qed

lemma iscleared_quiet:
  assumes v: "heap_valid g" and r: "in_reach R g (vref v)"
  shows "\<exists>g' b. iscleared v key g = Inr (g', b) \<and> quiet R g g' \<and> (\<not> b \<longrightarrow> all_marked g' (targets (vref v)))"
proof (cases v)
  case (Ref a)
  then have t: "target_ok g (AnyValue, a)" "a \<in> R" using r by simp_all
  then obtain x where x: "ob g a = Some x" by (cases "ob g a") (auto simp: target_ok_def kind_at_def)
  show ?thesis
  proof (cases "kind_of (obj_body x) = KString")
    case True
    then obtain s where s: "obj_body x = BString s" by (cases "obj_body x") simp_all
    have "in_reach R g [(Only KString, a)]" using t x True by (simp add: target_ok_def kind_at_def)
    from markingD [OF stringmark_marking [OF v this]] obtain g' where
      g': "stringmark a g = Inr g'" "marks R g g'" "all_marked g' {a}" by blast
    have "gray g' = gray g" using g'(1) x by (auto simp: stringmark_def upd_mark_ob)
    then have "iscleared v key g = Inr (g', False) \<and> quiet R g g' \<and> all_marked g' (targets (vref v))"
      using g' Ref x s by (simp add: iscleared_def quiet_def)
    then show ?thesis by blast
  next
    case False
    then have "\<exists>b. iscleared v key g = Inr (g, b) \<and> (\<not> b \<longrightarrow> \<not> iswhite (marked x))"
      using Ref x by (cases "obj_body x") (auto simp: iscleared_def)
    then show ?thesis using Ref x by (auto simp: all_marked_def nonwhite_def)
  qed
qed (auto simp: iscleared_def all_marked_def)

lemma clear_value_quiet:
  assumes "heap_valid g" "in_reach R g (vref v)"
  shows "\<exists>g' v'. clear_value v g = Inr (g', v') \<and> quiet R g g' \<and> all_marked g' (targets (vref v')) \<and> (v' = v \<or> v' = NilV)"
  using iscleared_quiet [OF assms, of False] by (auto simp: clear_value_def all_marked_def)

lemma clear_node_quiet:
  assumes v: "heap_valid g" and r: "in_reach R g (nref n)"
  shows "\<exists>g' n'. clear_node n g = Inr (g', n') \<and> quiet R g g' \<and> all_marked g' (targets (nref n')) \<and>
    (n' = n \<or> n' = removeentry_gc (fst n, NilV))"
proof (cases n)
  case (Pair k w)
  show ?thesis
  proof (cases "w = NilV")
    case True
    then show ?thesis using Pair by (simp add: clear_node_def nref_def all_marked_def)
  next
    case False
    then have r: "in_reach R g (vref k)" "in_reach R g (vref w)" using r Pair by (auto simp: nref_def)
    obtain g1 b where g1: "iscleared k True g = Inr (g1, b)" "quiet R g g1" "\<not> b \<longrightarrow> all_marked g1 (targets (vref k))"
      using iscleared_quiet [OF v r(1)] by blast
    have gone: "nref (removeentry_gc (k, NilV)) = []" by (simp add: nref_def removeentry_gc_def)
    show ?thesis
    proof (cases b)
      case True
      then show ?thesis using False Pair g1 gone by (simp add: clear_node_def all_marked_def)
    next
      case False
      have "heap_valid g1" "in_reach R g1 (vref w)" using v r(2) quiet_valid [OF g1(2)] by simp_all
      then obtain g2 c where g2: "iscleared w False g1 = Inr (g2, c)" "quiet R g1 g2" "\<not> c \<longrightarrow> all_marked g2 (targets (vref w))"
        using iscleared_quiet by blast
      have "all_marked g2 (targets (vref k))" using quiet_all_marked [OF g2(2)] g1(3) False by simp
      then have "\<not> c \<longrightarrow> all_marked g2 (targets (nref n))" using g2(3) Pair by (auto simp: nref_def image_Un all_marked_def)
      then show ?thesis
        using False \<open>w \<noteq> NilV\<close> Pair g1 g2 gone quiet_trans [OF g1(2) g2(2)]
        by (cases c) (simp_all add: clear_node_def all_marked_def)
    qed
  qed
qed

text \<open>A loop whose steps are quiet and give elements with a property that marking keeps.\<close>

lemma map_state_quiet:
  assumes step: "\<And>x g1. x \<in> set xs \<Longrightarrow> quiet R g g1 \<Longrightarrow> \<exists>g2 y. f x g1 = Inr (g2, y) \<and> quiet R g1 g2 \<and> P x y g2"
    and mono: "\<And>x y g1 g2. P x y g1 \<Longrightarrow> quiet R g1 g2 \<Longrightarrow> P x y g2"
  shows "\<exists>g2 ys. map_state f xs g = Inr (g2, ys) \<and> quiet R g g2 \<and> list_all2 (\<lambda>x y. P x y g2) xs ys"
  using step
proof (induction xs)
  case (Cons x xs)
  then obtain g1 ys where g1: "map_state f xs g = Inr (g1, ys)" "quiet R g g1" "list_all2 (\<lambda>x y. P x y g1) xs ys"
    by (metis list.set_intros(2))
  then obtain g2 y where g2: "f x g1 = Inr (g2, y)" "quiet R g1 g2" "P x y g2"
    using Cons.prems [of x g1] by auto
  have "list_all2 (\<lambda>x y. P x y g2) xs ys" using g1(3) mono [OF _ g2(2)] by (rule list_all2_mono)
  then show ?case using g1 g2 quiet_trans [OF g1(2) g2(2)] by simp
qed simp

lemma list_all2_targets:
  "list_all2 (\<lambda>x y. all_marked g (targets (f y)) \<and> Q x y) xs ys \<Longrightarrow> all_marked g (targets (concat (map f ys)))"
  unfolding targets_concat by (induction rule: list_all2_induct) simp_all

text \<open>What a table may refer to after the clearing.\<close>

lemma cleared_body:
  assumes sh: "shape_ok g (BTable mt arr ns)"
    and arr: "list_all2 (\<lambda>v v'. v' = v \<or> v' = NilV) arr arr'"
    and ns: "list_all2 (\<lambda>n n'. n' = n \<or> n' = removeentry_gc (fst n, NilV)) ns ns'"
  shows "set (trefs g (BTable mt arr' ns')) \<subseteq> set (trefs g (BTable mt arr ns))" "shape_ok g (BTable mt arr' ns')"
proof -
  have a: "v' \<in> set arr' \<Longrightarrow> v' \<in> set arr \<or> v' = NilV" for v'
    using arr by (induction rule: list_all2_induct) auto
  have n: "n' \<in> set ns' \<Longrightarrow> n' \<in> set ns \<or> (\<exists>k. n' = removeentry_gc (k, NilV))" for n'
    using ns by (induction rule: list_all2_induct) auto
  have nil: "nref (removeentry_gc (k, NilV)) = []" for k by (simp add: nref_def removeentry_gc_def)
  show "set (trefs g (BTable mt arr' ns')) \<subseteq> set (trefs g (BTable mt arr ns))"
    using a n nil by (fastforce simp: set_concat)
  show "shape_ok g (BTable mt arr' ns')"
    using sh a n unfolding shape_ok.simps list_all_iff by (fastforce simp: removeentry_gc_def split: gval.splits)
qed

lemma clear_one_step:
  assumes v: "heap_valid g" "closed R g" and h: "h \<in> R" "nonwhite g h" "kind_at g h = Some KTable" "settled g h"
  shows "\<exists>g'. clear_one h g = Inr g' \<and> tstep h R g g' \<and> all_marked g' (refs g' h) \<and>
    gray g' = gray g \<and> weak g' = weak g \<and> grayagain g' = grayagain g"
proof -
  obtain x mt arr ns where x: "ob g h = Some x" "obj_body x = BTable mt arr ns"
  proof -
    obtain x where x: "ob g h = Some x" "kind_of (obj_body x) = KTable" using h(3) by (auto simp: kind_at_def)
    then show ?thesis using that by (cases "obj_body x") simp_all
  qed
  have reach: "in_reach R g (trefs g (BTable mt arr ns))" and sh: "shape_ok g (BTable mt arr ns)"
    using in_reach_body [OF v h(1) x(1)] body_okD [OF v(1) x(1)] by (simp_all add: x(2))
  let ?weak = "marked x AND VALUEWEAK \<noteq> 0"
  have bit: "?weak \<longleftrightarrow> bit (marked x) 4" by (simp add: and_const)
  have "\<exists>g2 arr'. map_state clear_value arr g = Inr (g2, arr') \<and> quiet R g g2 \<and>
      list_all2 (\<lambda>v v'. all_marked g2 (targets (vref v')) \<and> (v' = v \<or> v' = NilV)) arr arr'"
  proof (rule map_state_quiet)
    fix v1 g1 assume v1: "v1 \<in> set arr" "quiet R g g1"
    then have "in_reach R g1 (vref v1)" "heap_valid g1" using reach v quiet_valid [OF v1(2)] by simp_all
    then show "\<exists>g2 y. clear_value v1 g1 = Inr (g2, y) \<and> quiet R g1 g2 \<and> all_marked g2 (targets (vref y)) \<and> (y = v1 \<or> y = NilV)"
      using clear_value_quiet by blast
  qed (use quiet_all_marked in blast)
  then obtain g1 arr' where g1: "(if ?weak then map_state clear_value arr g else Inr (g, arr)) = Inr (g1, arr')" "quiet R g g1"
    "list_all2 (\<lambda>v v'. v' = v \<or> v' = NilV) arr arr'"
    "?weak \<Longrightarrow> all_marked g1 (targets (concat (map vref arr')))" "\<not> ?weak \<Longrightarrow> arr' = arr"
  proof (cases ?weak)
    case True
    assume "\<exists>g2 arr'. map_state clear_value arr g = Inr (g2, arr') \<and> quiet R g g2 \<and>
      list_all2 (\<lambda>v v'. all_marked g2 (targets (vref v')) \<and> (v' = v \<or> v' = NilV)) arr arr'"
    then obtain g2 arr' where c: "map_state clear_value arr g = Inr (g2, arr')" "quiet R g g2"
      "list_all2 (\<lambda>v v'. all_marked g2 (targets (vref v')) \<and> (v' = v \<or> v' = NilV)) arr arr'" by blast
    from c(3) have "list_all2 (\<lambda>v v'. v' = v \<or> v' = NilV) arr arr'" by (rule list_all2_mono) simp
    then show ?thesis using that [of g2 arr'] c list_all2_targets [OF c(3)] True by simp
  next
    case False
    have "list_all2 (\<lambda>v v'. v' = v \<or> v' = NilV) arr arr" by (simp add: list_all2_same)
    then show ?thesis using that [of g arr] False by simp
  qed
  have "\<exists>g2 ns'. map_state clear_node ns g1 = Inr (g2, ns') \<and> quiet R g1 g2 \<and>
      list_all2 (\<lambda>n n'. all_marked g2 (targets (nref n')) \<and> (n' = n \<or> n' = removeentry_gc (fst n, NilV))) ns ns'"
  proof (rule map_state_quiet)
    fix n g2 assume n: "n \<in> set ns" "quiet R g1 g2"
    then have "in_reach R g2 (nref n)" "heap_valid g2" using reach v quiet_valid [OF quiet_trans [OF g1(2) n(2)]] by simp_all
    then show "\<exists>g3 y. clear_node n g2 = Inr (g3, y) \<and> quiet R g2 g3 \<and> all_marked g3 (targets (nref y)) \<and>
        (y = n \<or> y = removeentry_gc (fst n, NilV))" using clear_node_quiet by blast
  qed (use quiet_all_marked in blast)
  then obtain g2 ns' where g2: "map_state clear_node ns g1 = Inr (g2, ns')" "quiet R g1 g2"
    "list_all2 (\<lambda>n n'. all_marked g2 (targets (nref n')) \<and> (n' = n \<or> n' = removeentry_gc (fst n, NilV))) ns ns'" by blast
  have ns2: "list_all2 (\<lambda>n n'. n' = n \<or> n' = removeentry_gc (fst n, NilV)) ns ns'" using g2(3) by (rule list_all2_mono) simp
  have q: "quiet R g g2" by (rule quiet_trans [OF g1(2) g2(2)])
  then have m: "marks R g g2" by (simp add: quiet_def)
  note sb = marks_bodies [OF m]
  have x2: "ob g2 h = Some x" and nx: "\<not> iswhite (marked x)" using marks_kept [OF m h(2)] x(1) h(2) by (simp_all add: nonwhite_def)
  define b where "b = BTable mt arr' ns'"
  define g3 where "g3 = set_obj h (x\<lparr>obj_body := b\<rparr>) g2"
  have sub: "set (trefs g2 b) \<subseteq> set (trefs g2 (obj_body x))" "shape_ok g2 b"
    using cleared_body [OF _ g1(3) ns2, of g2 mt] sh stack_trefs(2) [OF same_bodies_stack [OF sb]] unfolding b_def x(2) by simp_all
  have o3: "ob g3 = (ob g2)(h := Some (x\<lparr>marked := marked x, obj_body := b\<rparr>))" using x2 by (simp add: g3_def)
  have shr: "shrinks g2 g3" "stack_of g3 = stack_of g2"
    by (rule shrinks_body [OF x2 _ _ sub(1) _ o3]; use sub in \<open>simp add: x(2) b_def body_frame_def\<close>)+
  have e: "g3 = (set_obj h (x\<lparr>obj_body := b\<rparr>) g2)\<lparr>weak := weak g2, grayagain := grayagain g2\<rparr>" by (simp add: g3_def set_obj_def)
  have s3: "tstep h R g2 g3" by (rule local_step [OF x2 nx _ e shr(1)]) (simp add: nx)
  have t: "tstep h R g g3" by (rule tstep_trans [OF marks_tstep [OF m h(2)] s3])
  have "refs g3 h = targets (trefs g3 b)" by (simp add: refs_def o3)
  also have "\<dots> = targets (oref KTable mt) \<union> targets (concat (map vref arr')) \<union> targets (concat (map nref ns'))"
    by (simp add: b_def image_Un_set Un_assoc del: set_concat set_append)
  finally have refs: "refs g3 h = \<dots>" .
  have strong: "targets (oref KTable mt) \<union> (if bit (marked x) 4 then {} else targets (concat (map vref arr))) \<subseteq> strong_refs g h"
  proof (cases "h \<in> set (weak g)")
    case True
    then show ?thesis unfolding strong_weak [OF x True] by auto
  next
    case False
    then have "strong_refs g h = refs g h" by (simp add: strong_not_weak)
    then show ?thesis unfolding refs_table [OF x] by auto
  qed
  have am: "all_marked g3 S" if "all_marked g S" for S using that tstep_all_marked [OF t] by blast
  have st: "all_marked g3 S" if "S \<subseteq> strong_refs g h" for S
    using am all_marked_subset [OF _ that] h(4) by (simp add: settled_def)
  have "all_marked g3 (targets (oref KTable mt))" by (rule st) (use strong in blast)
  moreover have "all_marked g3 (targets (concat (map vref arr')))"
  proof (cases ?weak)
    case True
    then show ?thesis using tstep_all_marked [OF s3 quiet_all_marked [OF g2(2) g1(4)]] by blast
  next
    case False
    then have "targets (concat (map vref arr')) \<subseteq> strong_refs g h" using g1(5) strong bit by (simp add: set_concat)
    then show ?thesis by (rule st)
  qed
  moreover have "all_marked g3 (targets (concat (map nref ns')))" by (rule tstep_all_marked [OF s3 list_all2_targets [OF g2(3)]])
  ultimately have "all_marked g3 (refs g3 h)" by (simp add: refs)
  moreover have "clear_one h g = Inr g3"
    unfolding clear_one_def using x g1(1) g2(1) x2 by (simp add: upd_body_ob g3_def b_def)
  moreover have "gray g3 = gray g" "weak g3 = weak g" "grayagain g3 = grayagain g"
    using q marks_lists [OF m] by (simp_all add: g3_def quiet_def)
  ultimately show ?thesis using t by blast
qed

lemma clear_one_inv:
  assumes i: "mark_inv R {} g" and n: "gray g = []" and h: "h \<in> set (weak g)"
  shows "\<exists>g'. clear_one h g = Inr g' \<and> mark_inv R {} g' \<and> progress R g g' \<and> gray g' = [] \<and> weak g' = weak g \<and>
    all_marked g' (refs g' h) \<and> (\<forall>c. all_marked g (refs g c) \<longrightarrow> all_marked g' (refs g' c))"
proof -
  have v: "heap_valid g" "closed R g" and l: "lists_ok R g" and t: "tri {} g" using i by (simp_all add: mark_inv_def)
  have hh: "h \<in> R" "nonwhite g h" "kind_at g h = Some KTable" using h l by (auto simp: lists_ok_def)
  have "settled g h" using t hh(2) n by (simp add: tri_def)
  then obtain g' where g': "clear_one h g = Inr g'" "tstep h R g g'" "all_marked g' (refs g' h)"
    "gray g' = gray g" "weak g' = weak g" "grayagain g' = grayagain g"
    using clear_one_step [OF v hh] by blast
  note p = tstep_progress [OF g'(2) hh(1)]
  obtain new where new: "gray_grows g g' new" using tstep_grows [OF g'(2)] by blast
  then have "new = []" using g'(4) by (simp add: gray_grows_def)
  with new have "gray_grows g g' []" by simp
  then have "lists_ok R g'" by (rule lists_grow [OF l p _ g'(5,6)])
  moreover have "tri {h} g'"
    by (rule tri_tstep [OF g'(2)]) (use g'(5) t in \<open>auto simp: tri_def\<close>)
  then have "tri {} g'" using all_settled [OF g'(3)] by (auto simp: tri_def)
  moreover have "all_marked g' (refs g' c)" if "all_marked g (refs g c)" for c
    using all_marked_subset [OF tstep_all_marked [OF g'(2) that] tstep_refs [OF g'(2)]] .
  ultimately show ?thesis
    using g' p n tstep_valid [OF g'(2) v(1)] tstep_closed [OF g'(2) v(2)] by (auto simp: mark_inv_def)
qed

lemma cleartable_inv:
  "mark_inv R {} g \<Longrightarrow> gray g = [] \<Longrightarrow> set hs \<subseteq> set (weak g) \<Longrightarrow>
   \<exists>g'. cleartable hs g = Inr g' \<and> mark_inv R {} g' \<and> progress R g g' \<and> gray g' = [] \<and> weak g' = weak g \<and>
     (\<forall>h \<in> set hs. all_marked g' (refs g' h)) \<and> (\<forall>c. all_marked g (refs g c) \<longrightarrow> all_marked g' (refs g' c))"
proof (induction hs arbitrary: g)
  case Nil
  then show ?case by (simp add: cleartable_def)
next
  case (Cons h hs)
  obtain g1 where g1: "clear_one h g = Inr g1" "mark_inv R {} g1" "progress R g g1" "gray g1 = []" "weak g1 = weak g"
    "all_marked g1 (refs g1 h)" "\<forall>c. all_marked g (refs g c) \<longrightarrow> all_marked g1 (refs g1 c)"
    using clear_one_inv [OF Cons.prems(1,2), of h] Cons.prems(3) by auto
  have "set hs \<subseteq> set (weak g1)" using Cons.prems(3) g1(5) by simp
  from Cons.IH [OF g1(2,4) this] obtain g2 where g2: "cleartable hs g1 = Inr g2" "mark_inv R {} g2" "progress R g1 g2"
    "gray g2 = []" "weak g2 = weak g1" "\<forall>h \<in> set hs. all_marked g2 (refs g2 h)"
    "\<forall>c. all_marked g1 (refs g1 c) \<longrightarrow> all_marked g2 (refs g2 c)" by blast
  have "cleartable (h # hs) g = Inr g2" using g1(1) g2(1) by (simp add: cleartable_def)
  then show ?case using g1 g2 progress_trans [OF g1(3) g2(3)] by auto
qed

section \<open>Finalizers\<close>

text \<open>Marking a userdatum as finalized changes no colour.\<close>

definition recolor :: "gaddr set \<Rightarrow> gc_State \<Rightarrow> gc_State \<Rightarrow> bool" where
  "recolor R g g' \<longleftrightarrow> same_bodies g g' \<and> nonwhite g' = nonwhite g \<and> length (objs g') = length (objs g) \<and>
     (\<forall>c. kind_at g c \<noteq> Some KUserdata \<longrightarrow> ob g' c = ob g c) \<and> keeps_white g g' \<and>
     g' = g\<lparr>objs := objs g', rootgc := rootgc g', tmudata := tmudata g'\<rparr>"

lemma recolor_refl [simp]: "recolor R g g"
  by (simp add: recolor_def)

lemma recolor_trans:
  assumes a: "recolor R g g1" and b: "recolor R g1 g2"
  shows "recolor R g g2"
proof -
  have f: "g1 = g\<lparr>objs := objs g1, rootgc := rootgc g1, tmudata := tmudata g1\<rparr>"
    and f2: "g2 = g1\<lparr>objs := objs g2, rootgc := rootgc g2, tmudata := tmudata g2\<rparr>"
    using a b by (simp_all add: recolor_def)
  let ?P = "\<lambda>z xs ys ws. z\<lparr>objs := xs, rootgc := ys, tmudata := ws\<rparr> = g\<lparr>objs := xs, rootgc := ys, tmudata := ws\<rparr>"
  have "?P g1 xs ys ws" for xs ys ws by (rule ssubst [OF f, of "\<lambda>z. ?P z xs ys ws"]) simp
  with f2 have f3: "g2 = g\<lparr>objs := objs g2, rootgc := rootgc g2, tmudata := tmudata g2\<rparr>" by simp
  have sb: "same_bodies g g2" "kind_at g1 = kind_at g"
    using a b same_bodies_kind [of g g1] by (auto simp: recolor_def same_bodies_def)
  have w: "keeps_white g g2" using a b keeps_white_trans by (auto simp: recolor_def)
  show ?thesis unfolding recolor_def by (intro conjI sb(1) f3 w) (use a b sb(2) in \<open>auto simp: recolor_def\<close>)
qed

lemma recolor_keeps:
  assumes "recolor R g g'"
  shows "gray g' = gray g" "weak g' = weak g" "grayagain g' = grayagain g" "mainthread g' = mainthread g"
    "registry g' = registry g" "basic_mt g' = basic_mt g" "gcwhite g' = gcwhite g" "tmname_gc g' = tmname_gc g"
    "phase g' = phase g" "uvhead g' = uvhead g" "hash_lists g' = hash_lists g"
proof -
  have f: "g' = g\<lparr>objs := objs g', rootgc := rootgc g', tmudata := tmudata g'\<rparr>" using assms by (simp add: recolor_def)
  show "gray g' = gray g" "weak g' = weak g" "grayagain g' = grayagain g" "mainthread g' = mainthread g"
    "registry g' = registry g" "basic_mt g' = basic_mt g" "gcwhite g' = gcwhite g" "tmname_gc g' = tmname_gc g"
    "phase g' = phase g" "uvhead g' = uvhead g" "hash_lists g' = hash_lists g"
    using arg_cong [OF f, of gray] arg_cong [OF f, of weak] arg_cong [OF f, of grayagain] arg_cong [OF f, of mainthread]
      arg_cong [OF f, of registry] arg_cong [OF f, of basic_mt] arg_cong [OF f, of gcwhite] arg_cong [OF f, of tmname_gc]
      arg_cong [OF f, of phase] arg_cong [OF f, of uvhead] arg_cong [OF f, of hash_lists] by simp_all
qed

lemma recolor_inv:
  assumes r: "recolor R g g'" and i: "mark_inv R U g"
  shows "mark_inv R U g'"
proof -
  note k = recolor_keeps [OF r]
  have sb: "same_bodies g g'" and nw: "nonwhite g' = nonwhite g" using r by (simp_all add: recolor_def)
  have strong: "strong_refs g' c = strong_refs g c" for c
  proof (cases "kind_at g c = Some KUserdata")
    case True
    then have "strong_refs g c = refs g c" "strong_refs g' c = refs g' c"
      using same_bodies_kind [OF sb] by (simp_all add: strong_not_weak)
    then show ?thesis by (simp add: same_bodies_refs(2) [OF sb])
  next
    case False
    then have o: "ob g' c = ob g c" using r by (simp add: recolor_def)
    show ?thesis unfolding strong_refs_def k same_bodies_refs(2) [OF sb] o by (rule refl)
  qed
  have "tri U g'" using i by (simp add: mark_inv_def tri_def settled_def all_marked_def strong nw k)
  moreover have "lists_ok R g'" using i by (simp add: mark_inv_def lists_ok_def container_at_def nw k same_bodies_kind [OF sb])
  ultimately show ?thesis using i same_bodies_refs(5) [OF sb] closed_same [OF sb] by (simp add: mark_inv_def)
qed

definition unfinalized :: "gc_State \<Rightarrow> gaddr \<Rightarrow> bool" where
  "unfinalized g u \<longleftrightarrow> (\<exists>x. ob g u = Some x \<and> \<not> isfinalized (marked x))"

lemma userdata_ob:
  assumes "kind_at g u = Some KUserdata"
  obtains x mt e where "ob g u = Some x" "obj_body x = BUserdata mt e"
proof -
  obtain x where x: "ob g u = Some x" "kind_of (obj_body x) = KUserdata" using assms by (auto simp: kind_at_def)
  then show ?thesis using that by (cases "obj_body x") simp_all
qed

lemma tm_of_table:
  assumes v: "heap_valid g" and t: "ob g t = Some y" "obj_body y = BTable mt' arr ns"
  shows "\<exists>v. tm_of g (Some t) name = Inr v"
  using t by (simp add: tm_of_def)

lemma userdata_tm:
  assumes v: "heap_valid g" and x: "ob g u = Some x" "obj_body x = BUserdata mt e"
  shows "\<exists>v. tm_of g mt name = Inr v"
proof (cases mt)
  case (Some t)
  have "target_ok g (Only KTable, t)" using body_okD [OF v x(1)] by (simp add: x(2) Some oref_def)
  then obtain y where "ob g t = Some y" "kind_of (obj_body y) = KTable"
    by (auto simp: target_ok_def kind_at_def split: option.splits)
  then show ?thesis using Some by (cases "obj_body y") (simp_all add: tm_of_def)
qed (simp add: tm_of_def)

lemma mark_finalized:
  assumes x: "ob g u = Some x" "kind_at g u = Some KUserdata"
  shows "upd_mark u markfinalized g = Inr (set_obj u (x\<lparr>marked := markfinalized (marked x)\<rparr>) g)"
    "recolor R g (set_obj u (x\<lparr>marked := markfinalized (marked x)\<rparr>) g)"
    "unfinalized (set_obj u (x\<lparr>marked := markfinalized (marked x)\<rparr>) g) w \<Longrightarrow> unfinalized g w"
proof -
  let ?g = "set_obj u (x\<lparr>marked := markfinalized (marked x)\<rparr>) g"
  show "upd_mark u markfinalized g = Inr ?g" using x by (simp add: upd_mark_ob)
  have sb: "same_bodies g ?g" by (rule set_mark_bodies [OF x(1)])
  have nw: "nonwhite ?g = nonwhite g" using x(1) by (simp add: fun_eq_iff nonwhite_def)
  have f: "?g = g\<lparr>objs := objs ?g, rootgc := rootgc ?g, tmudata := tmudata ?g\<rparr>" by (simp add: set_obj_def)
  have "keeps_white g ?g" using x(1) by (auto simp: keeps_white_def markfinalized_bit)
  then show "recolor R g ?g" unfolding recolor_def by (intro conjI sb nw f) (use x in \<open>auto simp: set_obj_frame\<close>)
  have "isfinalized (markfinalized (marked x))" by (simp add: isfinalized_def and_const markfinalized_bit)
  then show "unfinalized ?g w \<Longrightarrow> unfinalized g w" using x(1) by (auto simp: unfinalized_def split: if_splits)
qed

lemma separate_list_ok:
  "heap_valid g \<Longrightarrow> \<forall>u \<in> set us. kind_at g u = Some KUserdata \<Longrightarrow>
   \<exists>g' keep fin m. separate_list H al us g = Inr (g', keep, fin, m) \<and> recolor R g g' \<and> tmudata g' = tmudata g \<and>
     (\<forall>w. unfinalized g' w \<longrightarrow> unfinalized g w) \<and> set us = set keep \<union> set fin \<and> (\<forall>u \<in> set fin. unfinalized g u)"
proof (induction us arbitrary: g)
  case Nil
  then show ?case by simp
next
  case (Cons u us)
  have k: "kind_at g u = Some KUserdata" using Cons.prems(2) by simp
  obtain x mt e where x: "ob g u = Some x" "obj_body x = BUserdata mt e" by (rule userdata_ob [OF k])
  let ?skip = "\<not> (iswhite (marked x) \<or> al) \<or> isfinalized (marked x)"
  show ?case
  proof (cases ?skip)
    case True
    obtain g' keep fin m where r: "separate_list H al us g = Inr (g', keep, fin, m)" "recolor R g g'" "tmudata g' = tmudata g"
      "\<forall>w. unfinalized g' w \<longrightarrow> unfinalized g w" "set us = set keep \<union> set fin" "\<forall>u \<in> set fin. unfinalized g u"
      using Cons.IH [OF Cons.prems(1)] Cons.prems(2) by auto
    then show ?thesis using True x by (auto simp: case_prod_unfold)
  next
    case False
    obtain tm where tm: "tm_of g mt (tmname_gc g) = Inr tm" using userdata_tm [OF Cons.prems(1) x] by blast
    let ?g = "set_obj u (x\<lparr>marked := markfinalized (marked x)\<rparr>) g"
    note f = mark_finalized [OF x(1) k]
    have sb: "same_bodies g ?g" by (rule set_mark_bodies [OF x(1)])
    have "heap_valid ?g" "\<forall>u \<in> set us. kind_at ?g u = Some KUserdata"
      using Cons.prems same_bodies_refs(5) [OF sb] same_bodies_kind [OF sb] by simp_all
    then obtain g' keep fin m where r: "separate_list H al us ?g = Inr (g', keep, fin, m)" "recolor R ?g g'" "tmudata g' = tmudata ?g"
      "\<forall>w. unfinalized g' w \<longrightarrow> unfinalized ?g w" "set us = set keep \<union> set fin" "\<forall>u \<in> set fin. unfinalized ?g u"
      using Cons.IH by blast
    have "unfinalized g u" using x False by (simp add: unfinalized_def)
    moreover have "recolor R g g'" by (rule recolor_trans [OF f(2) r(2)])
    moreover have "\<forall>w. unfinalized g' w \<longrightarrow> unfinalized g w" "\<forall>u \<in> set fin. unfinalized g u" using r(4,6) f(3) by blast+
    ultimately show ?thesis using False x tm f(1) r(1,3,5) by (cases "tm = NilV") auto
  qed
qed

end
