(* ===== verification/LGC_Collect.thy ===== *)
theory LGC_Collect
  imports LGC_Atomic
begin

text \<open>
  The end of the mark phase: \<^verbatim>\<open>atomic\<close> leaves a heap in which no live object refers to a dead one.
\<close>

section \<open>Userdata to finalize\<close>

lemma make_white_white: "iswhite (make_white w m) \<longleftrightarrow> iswhite w"
  by (auto simp: mark_ops)

lemma remark_udata:
  assumes i: "mark_inv R U g" and u: "kind_at g u = Some KUserdata" "u \<in> R" and w: "iswhite (gcwhite g)"
  shows "\<exists>g'. ebind (makewhite u g) (reallymarkobject u) = Inr g' \<and> mark_inv R U g' \<and> progress R g g' \<and> nonwhite g' u"
proof -
  obtain x mt e where x: "ob g u = Some x" "obj_body x = BUserdata mt e" by (rule userdata_ob [OF u(1)])
  define g1 where "g1 = set_obj u (x\<lparr>marked := make_white (gcwhite g) (marked x)\<rparr>) g"
  have mw: "makewhite u g = Inr g1" using x by (simp add: makewhite_def upd_mark_ob g1_def)
  have o1: "ob g1 = (ob g)(u := Some (x\<lparr>marked := make_white (gcwhite g) (marked x)\<rparr>))" using x by (simp add: g1_def)
  have sb: "same_bodies g g1" unfolding g1_def by (rule set_mark_bodies [OF x(1)])
  have v: "heap_valid g" "closed R g" and l: "lists_ok R g" and t: "tri U g" using i by (simp_all add: mark_inv_def)
  have v1: "heap_valid g1" "closed R g1" using v same_bodies_refs(5) [OF sb] closed_same [OF sb] by simp_all
  have "white g1 u" using w by (simp add: white_def o1 make_white_white)
  then obtain g' where g': "reallymarkobject u g1 = Inr g'" "marks R g1 g'" "nonwhite g' u"
    using reallymarkobject_ok [OF v1 u(2)] by blast
  note sb' = marks_bodies [OF g'(2)]
  have w1: "weak g1 = weak g" "grayagain g1 = grayagain g" "gray g1 = gray g" by (simp_all add: g1_def)
  have nw1: "nonwhite g1 c \<longleftrightarrow> nonwhite g c \<and> c \<noteq> u" for c using w by (simp add: nonwhite_def o1 make_white_white)
  have nw: "nonwhite g' c" if "nonwhite g c" for c
    using that nw1 [of c] marks_nonwhite [OF g'(2)] g'(3) by (cases "c = u") auto
  have "\<not> container_at g u" using u(1) by (simp add: container_at_def)
  then have notin: "u \<notin> set (gray g @ grayagain g @ weak g)" using l by (auto simp: lists_ok_def)
  have l1: "lists_ok R g1"
    using l notin unfolding lists_ok_def w1 container_at_def same_bodies_kind [OF sb] nw1 by blast
  obtain new where f: "g' = g1\<lparr>objs := objs g', gray := new @ gray g1\<rparr>" "distinct new" "\<forall>c. c \<in> set new \<longleftrightarrow> newly_gray g1 g' c"
    using g'(2) by (auto simp: marks_def)
  from arg_cong [OF f(1), of gray] f(2,3) have gg: "gray_grows g1 g' new" by (simp add: gray_grows_def)
  have "lists_ok R g'" by (rule lists_grow [OF l1 marks_progress [OF g'(2)] gg]) (use marks_lists [OF g'(2)] in simp_all)
  moreover have "tri U g'"
  proof (rule tri_marks_gen [OF g'(2)])
    fix c assume c: "nonwhite g1 c"
    then have "settled g c \<or> c \<in> set (gray g) \<or> c \<in> U" using t nw1 by (simp add: tri_def)
    moreover have "strong_refs g1 c \<subseteq> strong_refs g c"
      by (rule strong_refs_other) (use c nw1 in \<open>simp_all add: o1 w1 same_bodies_refs [OF sb]\<close>)
    ultimately show "all_marked g' (strong_refs g1 c) \<or> c \<in> set (gray g1) \<or> c \<in> U"
      using nw by (auto simp: settled_def all_marked_def w1)
  qed
  moreover have "heap_valid g'" "closed R g'" using v1 same_bodies_refs(5) [OF sb'] closed_same [OF sb'] by simp_all
  moreover have "progress R g g'"
  proof -
    have gr: "new @ gray g1 = gray g'" using arg_cong [OF f(1), of gray] by simp
    have e1: "g' = g1\<lparr>objs := objs g', gray := gray g'\<rparr>" by (rule f(1) [unfolded gr])
    have e2: "g1\<lparr>objs := xs, gray := ys\<rparr> = g\<lparr>objs := xs, gray := ys, weak := weak g', grayagain := grayagain g'\<rparr>" for xs ys
      using marks_lists [OF g'(2)] by (simp add: g1_def set_obj_def)
    have fr: "g' = g\<lparr>objs := objs g', gray := gray g', weak := weak g', grayagain := grayagain g'\<rparr>"
      by (rule trans [OF e1 e2])
    have len: "length (objs g') = length (objs g)" using g'(2) by (simp add: marks_def g1_def set_obj_frame)
    have k: "kind_at g' = kind_at g" using same_bodies_kind [OF sb] same_bodies_kind [OF sb'] by simp
    have out: "ob g' c = ob g c" if "c \<notin> R" for c using progressD(5) [OF marks_progress [OF g'(2)] that] that u(2) by (auto simp: o1)
    have r: "refs g' = refs g" using same_bodies_refs(2) [OF sb] same_bodies_refs(2) [OF sb'] by simp
    have kw: "keeps_white g g'"
      unfolding keeps_white_def
    proof (intro allI impI)
      fix c x' assume x': "ob g' c = Some x'" "iswhite (marked x')"
      then have "c \<noteq> u" using g'(3) by (auto simp: nonwhite_def)
      then show "\<exists>x. ob g c = Some x \<and> iswhite (marked x) \<and> bit (marked x) 0 = bit (marked x') 0 \<and> bit (marked x) 1 = bit (marked x') 1"
        using progressD(7) [OF marks_progress [OF g'(2)], unfolded keeps_white_def, rule_format, OF x'] by (simp add: o1)
    qed
    show ?thesis unfolding progress_def by (intro conjI allI impI fr len k out nw kw) (simp_all add: r)
  qed
  ultimately show ?thesis using mw g'(1,3) by (simp add: mark_inv_def)
qed

lemma remark_list_inv:
  "mark_inv R U g \<Longrightarrow> \<forall>u \<in> set us'. kind_at g u = Some KUserdata \<and> u \<in> R \<Longrightarrow> iswhite (gcwhite g) \<Longrightarrow>
   \<exists>g'. efold (\<lambda>u g. ebind (makewhite u g) (reallymarkobject u)) us' g = Inr g' \<and> mark_inv R U g' \<and> progress R g g' \<and>
     all_marked g' (set us')"
proof (induction us' arbitrary: g)
  case (Cons u us)
  obtain g1 where g1: "ebind (makewhite u g) (reallymarkobject u) = Inr g1" "mark_inv R U g1" "progress R g g1" "nonwhite g1 u"
    using remark_udata [OF Cons.prems(1) _ _ Cons.prems(3)] Cons.prems(2) by auto
  have "\<forall>u \<in> set us. kind_at g1 u = Some KUserdata \<and> u \<in> R" "iswhite (gcwhite g1)"
    using Cons.prems progressD(2) [OF g1(3)] progress_keeps [OF g1(3)] by simp_all
  then obtain g2 where g2: "efold (\<lambda>u g. ebind (makewhite u g) (reallymarkobject u)) us g1 = Inr g2" "mark_inv R U g2"
    "progress R g1 g2" "all_marked g2 (set us)" using Cons.IH [OF g1(2)] by blast
  have "all_marked g2 (set (u # us))" using g2(4) progressD(3) [OF g2(3) g1(4)] by (simp add: all_marked_def)
  then show ?case using g1(1) g2 progress_trans [OF g1(3) g2(3)] by simp
qed simp

lemma marktmu_inv:
  "mark_inv R U g \<Longrightarrow> \<forall>u \<in> set (tmudata g). kind_at g u = Some KUserdata \<and> u \<in> R \<Longrightarrow> iswhite (gcwhite g) \<Longrightarrow>
   \<exists>g'. marktmu g = Inr g' \<and> mark_inv R U g' \<and> progress R g g' \<and> all_marked g' (set (tmudata g))"
  unfolding marktmu_def by (rule remark_list_inv)

section \<open>The atomic phase\<close>

definition mt_refs :: "gc_State \<Rightarrow> (want \<times> gaddr) list" where
  "mt_refs g = concat (map (oref KTable) (basic_mt g))"

definition roots :: "gaddr \<Rightarrow> gc_State \<Rightarrow> gaddr set" where
  "roots L g = {mainthread g, L} \<union> targets (vref (registry g)) \<union> targets (mt_refs g)"

text \<open>The objects of \<^verbatim>\<open>rootgc\<close> behind the main thread: the userdata.\<close>

definition udata_list :: "gc_State \<Rightarrow> gaddr list" where
  "udata_list g = drop (length (takeWhile (\<lambda>a. a \<noteq> mainthread g) (rootgc g)) + 1) (rootgc g)"

text \<open>
  The state in which \<^verbatim>\<open>atomic\<close> runs: nothing is gray but the open upvalues, the threads and tables of
  \<open>grayagain\<close> and the weak tables.
\<close>

definition atomic_ready :: "gaddr set \<Rightarrow> gaddr \<Rightarrow> gc_State \<Rightarrow> bool" where
  "atomic_ready R L g \<longleftrightarrow>
     mark_inv R (gray_upvals g \<union> set (grayagain g) \<union> set (weak g)) g \<and> upvals_ok R g \<and> gray g = [] \<and>
     iswhite (gcwhite g) \<and> in_reach R g ((Only KThread, L) # mt_refs g) \<and>
     all_marked g (insert (mainthread g) (targets (vref (registry g)))) \<and>
     (\<forall>u \<in> set (udata_list g). kind_at g u = Some KUserdata \<and> (unfinalized g u \<longrightarrow> u \<in> R)) \<and>
     (\<forall>u \<in> set (tmudata g). kind_at g u = Some KUserdata \<and> u \<in> R)"

lemma in_reach_kind: "kind_at g' = kind_at g \<Longrightarrow> in_reach R g' = in_reach R g"
  by (simp add: in_reach_def target_ok_def fun_eq_iff)

lemma markmt_marking:
  "heap_valid g \<Longrightarrow> closed R g \<Longrightarrow> in_reach R g (mt_refs g) \<Longrightarrow>
   \<exists>g'. markmt g = Inr g' \<and> marks R g g' \<and> all_marked g' (targets (mt_refs g))"
  unfolding markmt_def mt_refs_def by (rule markingD [OF marking_opts])

lemma luaC_separateudata_ok:
  assumes v: "heap_valid g" and u: "\<forall>u \<in> set (udata_list g). kind_at g u = Some KUserdata"
  shows "\<exists>g' m fin. luaC_separateudata H al g = Inr (g', m) \<and> recolor R g g' \<and> tmudata g' = tmudata g @ fin \<and>
    (\<forall>u \<in> set fin. u \<in> set (udata_list g) \<and> unfinalized g u)"
proof -
  let ?upto = "takeWhile (\<lambda>a. a \<noteq> mainthread g) (rootgc g) @ [mainthread g]"
  have d: "drop (length ?upto) (rootgc g) = udata_list g" by (simp add: udata_list_def)
  obtain g1 keep fin m where s: "separate_list H al (udata_list g) g = Inr (g1, keep, fin, m)" "recolor R g g1"
    "set (udata_list g) = set keep \<union> set fin" "\<forall>u \<in> set fin. unfinalized g u" "tmudata g1 = tmudata g"
    using separate_list_ok [OF v u, of H al R] by blast
  let ?g2 = "g1\<lparr>rootgc := ?upto @ keep, tmudata := tmudata g1 @ fin\<rparr>"
  have f: "g1 = g\<lparr>objs := objs g1, rootgc := rootgc g1, tmudata := tmudata g1\<rparr>" using s(2) by (simp add: recolor_def)
  have o2: "ob ?g2 = ob g1" by simp
  have sb: "same_bodies g1 ?g2" by (simp add: same_bodies_def)
  have nw: "nonwhite ?g2 = nonwhite g1" by (simp add: fun_eq_iff nonwhite_def)
  have "recolor R g1 ?g2" unfolding recolor_def by (intro conjI sb nw keeps_white_same o2) simp_all
  then have r: "recolor R g ?g2" by (rule recolor_trans [OF s(2)])
  show ?thesis using r s(1,3,4,5) d by (auto simp: luaC_separateudata_def Let_def)
qed

text \<open>The lists change their owner between two propagations.\<close>

lemma swap_lists:
  assumes i: "mark_inv R V g" and n: "gray g = []"
    and g': "ob g' = ob g" "set (weak g') \<subseteq> set (weak g)" "set (weak g) \<subseteq> set (weak g') \<union> set (gray g')"
    and V: "V \<subseteq> set (gray g') \<union> U"
    and d: "distinct (gray g' @ grayagain g' @ weak g')"
    and l: "set (gray g' @ grayagain g' @ weak g') \<subseteq> set (grayagain g @ weak g)"
  shows "mark_inv R U g'"
proof -
  have sb: "same_bodies g g'" by (simp add: same_bodies_def g')
  have nw: "nonwhite g' = nonwhite g" by (simp add: fun_eq_iff nonwhite_def g')
  note k = same_bodies_kind [OF sb]
  have lo: "lists_ok R g" using i by (simp add: mark_inv_def)
  have "lists_ok R g'"
    using lo d l g'(2) unfolding lists_ok_def nw container_at_def k by (auto simp: n)
  moreover have "tri U g'"
    unfolding tri_def
  proof (intro allI impI)
    fix c assume c: "nonwhite g' c"
    then have "settled g c \<or> c \<in> V" using i nw n by (simp add: mark_inv_def tri_def)
    then show "settled g' c \<or> c \<in> set (gray g') \<or> c \<in> U"
    proof
      assume st: "settled g c"
      show ?thesis
      proof (cases "c \<in> set (gray g')")
        case False
        have "strong_refs g' c \<subseteq> strong_refs g c"
          by (rule strong_refs_other) (use False g' same_bodies_refs(2) [OF sb] in auto)
        then show ?thesis using st by (auto simp: settled_def all_marked_def nw)
      qed simp
    qed (use V in blast)
  qed
  ultimately show ?thesis using i same_bodies_refs(5) [OF sb] closed_same [OF sb] by (simp add: mark_inv_def)
qed

lemma swap_weak:
  assumes i: "mark_inv R (U \<union> set (weak g)) g" and n: "gray g = []"
  shows "mark_inv R U (g\<lparr>gray := weak g, weak := []\<rparr>)"
proof (rule swap_lists [OF i n])
  have "distinct (grayagain g @ weak g)" using i n by (simp add: mark_inv_def lists_ok_def)
  then show "distinct (gray (g\<lparr>gray := weak g, weak := []\<rparr>) @ grayagain (g\<lparr>gray := weak g, weak := []\<rparr>) @ weak (g\<lparr>gray := weak g, weak := []\<rparr>))"
    by auto
qed auto

lemma swap_grayagain:
  assumes i: "mark_inv R (U \<union> set (grayagain g)) g" and n: "gray g = []"
  shows "mark_inv R U (g\<lparr>gray := grayagain g, grayagain := []\<rparr>)"
proof (rule swap_lists [OF i n])
  have "distinct (grayagain g @ weak g)" using i n by (simp add: mark_inv_def lists_ok_def)
  then show "distinct (gray (g\<lparr>gray := grayagain g, grayagain := []\<rparr>) @ grayagain (g\<lparr>gray := grayagain g, grayagain := []\<rparr>) @
      weak (g\<lparr>gray := grayagain g, grayagain := []\<rparr>))" by auto
qed auto

text \<open>What \<^verbatim>\<open>atomic\<close> achieves.\<close>

definition consistent :: "gc_State \<Rightarrow> bool" where
  "consistent g \<longleftrightarrow> (\<forall>c. nonwhite g c \<longrightarrow> all_marked g (refs g c))"

definition collected :: "gaddr set \<Rightarrow> gaddr \<Rightarrow> gc_State \<Rightarrow> gc_State \<Rightarrow> bool" where
  "collected R L g g' \<longleftrightarrow> heap_valid g' \<and> consistent g' \<and> all_marked g' (roots L g \<union> set (tmudata g')) \<and>
     phase g' = GCsweepstring \<and> gcwhite g' = otherwhite_of (gcwhite g) \<and> sweepgc g' = None \<and> sweepstrgc g' = 0 \<and>
     keeps_white g g' \<and> (\<forall>c. c \<notin> R \<longrightarrow> nonwhite g' c = nonwhite g c) \<and> (\<forall>c. nonwhite g c \<longrightarrow> nonwhite g' c) \<and> kind_at g' = kind_at g \<and>
     hash_lists g' = hash_lists g \<and> (\<forall>c. c \<notin> R \<longrightarrow> kind_at g c \<noteq> Some KUserdata \<longrightarrow> ob g' c = ob g c)"

lemma consistent_cleared:
  assumes i: "mark_inv R {} g" and n: "gray g = []" and w: "\<forall>h \<in> set (weak g). all_marked g (refs g h)"
  shows "consistent g"
  unfolding consistent_def
proof (intro allI impI)
  fix c assume "nonwhite g c"
  then have "settled g c" using i n by (simp add: mark_inv_def tri_def)
  then show "all_marked g (refs g c)" using w strong_not_weak [of c g] by (cases "c \<in> set (weak g)") (auto simp: settled_def)
qed

lemma mainthread_kept: "progress R g g' \<Longrightarrow> all_marked g S \<Longrightarrow> all_marked g' S"
  by (rule progress_all_marked)

lemma gray_upvals_disjoint:
  assumes "lists_ok R g" "upvals_ok R g"
  shows "set (uvhead g) \<inter> (set (gray g) \<union> (set (grayagain g) \<union> set (weak g))) = {}"
proof -
  have "container_at g c" if "c \<in> set (gray g) \<union> (set (grayagain g) \<union> set (weak g))" for c
    using assms(1) that by (auto simp: lists_ok_def)
  moreover have "\<not> container_at g c" if "c \<in> set (uvhead g)" for c
    using assms(2) that by (simp add: upvals_ok_def container_at_def)
  ultimately show ?thesis by blast
qed

lemma atomic_collects:
  assumes r: "atomic_ready R L g"
  shows "\<exists>g'. atomic H L g = Inr g' \<and> collected R L g g'"
proof -
  let ?U = "set (grayagain g) \<union> set (weak g)"
  have i0: "mark_inv R (gray_upvals g \<union> ?U) g" and uv: "upvals_ok R g" and n0: "gray g = []" and w0: "iswhite (gcwhite g)"
    and L0: "in_reach R g [(Only KThread, L)]" and mt0: "in_reach R g (mt_refs g)"
    and main0: "all_marked g (insert (mainthread g) (targets (vref (registry g))))"
    and ud: "\<forall>u \<in> set (udata_list g). kind_at g u = Some KUserdata \<and> (unfinalized g u \<longrightarrow> u \<in> R)"
    and tm: "\<forall>u \<in> set (tmudata g). kind_at g u = Some KUserdata \<and> u \<in> R"
    using r by (simp_all add: atomic_ready_def Un_assoc)
  have disj: "set (uvhead g) \<inter> (set (gray g) \<union> ?U) = {}"
    using gray_upvals_disjoint [OF _ uv] i0 by (simp add: mark_inv_def)
  obtain g1 where g1: "remarkupvals g = Inr g1" "progress R g g1" "mark_inv R ?U g1" "lists_up g g1"
    using remarkupvals_inv [OF i0 uv disj] by blast
  obtain g2 s2 where g2: "propagateall H g1 = Inr (g2, s2)" "mark_inv R ?U g2" "progress R g1 g2" "lists_up g1 g2" "gray g2 = []"
    using propagateall_inv [OF g1(3)] by blast
  have p2: "progress R g g2" by (rule progress_trans [OF g1(2) g2(3)])
  have "mark_inv R (set (grayagain g2) \<union> set (weak g2)) g2"
    by (rule tri_weaken [OF g2(2)]) (use lists_up_trans [OF g1(4) g2(4)] in \<open>auto simp: lists_up_def\<close>)
  note i3 = swap_weak [OF this g2(5)]
  define g3 where "g3 = g2\<lparr>gray := weak g2, weak := []\<rparr>"
  have p3: "progress R g g3" unfolding g3_def by (rule progress_trans [OF p2 progress_lists(2)])
  have v3: "heap_valid g3" "closed R g3" using i3 by (simp_all add: mark_inv_def g3_def)
  have reach3: "in_reach R g3 [(Only KThread, L)]" using L0 in_reach_kind [OF progressD(2) [OF p3]] by simp
  obtain g4 where g4: "markobject L g3 = Inr g4" "marks R g3 g4" "mark_inv R (set (grayagain g2)) g4" "all_marked g4 {L}"
    using marking_inv [OF markobject_marking [OF v3 reach3] i3 [folded g3_def]] by blast
  have p4: "progress R g g4" by (rule progress_trans [OF p3 marks_progress [OF g4(2)]])
  have v4: "heap_valid g4" "closed R g4" using g4(3) by (simp_all add: mark_inv_def)
  have mt: "mt_refs g4 = mt_refs g" using progress_keeps(3) [OF p4] by (simp add: mt_refs_def)
  have reach4: "in_reach R g4 (mt_refs g4)" using mt0 in_reach_kind [OF progressD(2) [OF p4]] by (simp add: mt)
  obtain g5 where g5: "markmt g4 = Inr g5" "marks R g4 g5" "all_marked g5 (targets (mt_refs g))"
    using markmt_marking [OF v4 reach4] unfolding mt by blast
  have p5: "progress R g g5" by (rule progress_trans [OF p4 marks_progress [OF g5(2)]])
  obtain g6 s6 where g6: "propagateall H g5 = Inr (g6, s6)" "mark_inv R (set (grayagain g2)) g6" "progress R g5 g6"
    "lists_up g5 g6" "gray g6 = []" using propagateall_inv [OF marks_inv [OF g5(2) g4(3)]] by blast
  have ga: "set (grayagain g2) \<subseteq> {} \<union> set (grayagain g6)"
    using g6(4) marks_lists [OF g4(2)] marks_lists [OF g5(2)] by (simp add: lists_up_def g3_def)
  note i7 = swap_grayagain [OF tri_weaken [OF g6(2) ga] g6(5)]
  obtain g8 s8 where g8: "propagateall H (g6\<lparr>gray := grayagain g6, grayagain := []\<rparr>) = Inr (g8, s8)" "mark_inv R {} g8"
    "progress R (g6\<lparr>gray := grayagain g6, grayagain := []\<rparr>) g8" "gray g8 = []" using propagateall_inv [OF i7] by blast
  have p8: "progress R g g8"
    by (rule progress_trans [OF progress_trans [OF p5 g6(3)] progress_trans [OF progress_lists(3) g8(3)]])
  obtain g9 ud fin where g9: "luaC_separateudata H False g8 = Inr (g9, ud)" "recolor R g8 g9" "tmudata g9 = tmudata g8 @ fin"
    "\<forall>u \<in> set fin. u \<in> set (udata_list g8) \<and> unfinalized g8 u"
  proof -
    have "udata_list g8 = udata_list g" using progress_keeps(1,4) [OF p8] by (simp add: udata_list_def)
    then have "\<forall>u \<in> set (udata_list g8). kind_at g8 u = Some KUserdata" using ud progressD(2) [OF p8] by simp
    then show ?thesis using that luaC_separateudata_ok [of g8 H False R] g8(2) by (auto simp: mark_inv_def)
  qed
  have i9: "mark_inv R {} g9" by (rule recolor_inv [OF g9(2) g8(2)])
  have k9: "kind_at g9 = kind_at g" using g9(2) same_bodies_kind progressD(2) [OF p8] by (metis recolor_def)
  have fin: "u \<in> set (udata_list g) \<and> u \<in> R" if "u \<in> set fin" for u
  proof -
    have u: "u \<in> set (udata_list g)" "unfinalized g8 u"
      using g9(4) that progress_keeps(1,4) [OF p8] by (auto simp: udata_list_def)
    show ?thesis
    proof (cases "u \<in> R")
      case False
      then have "unfinalized g u" using u(2) progressD(5) [OF p8] by (simp add: unfinalized_def)
      then show ?thesis using ud u(1) by blast
    qed (use u in simp)
  qed
  have tm9: "\<forall>u \<in> set (tmudata g9). kind_at g9 u = Some KUserdata \<and> u \<in> R"
    using tm ud fin g9(3) progress_keeps(5) [OF p8] k9 by auto
  have w9: "iswhite (gcwhite g9)" using w0 recolor_keeps(7) [OF g9(2)] progress_keeps(8) [OF p8] by simp
  obtain g10 where g10: "marktmu g9 = Inr g10" "mark_inv R {} g10" "progress R g9 g10" "all_marked g10 (set (tmudata g9))"
    using marktmu_inv [OF i9 tm9 w9] by blast
  obtain g11 s11 where g11: "propagateall H g10 = Inr (g11, s11)" "mark_inv R {} g11" "progress R g10 g11" "gray g11 = []"
    using propagateall_inv [OF g10(2)] by blast
  obtain g12 where g12: "cleartable (weak g11) g11 = Inr g12" "mark_inv R {} g12" "progress R g11 g12" "gray g12 = []"
    "weak g12 = weak g11" "\<forall>h \<in> set (weak g11). all_marked g12 (refs g12 h)"
    using cleartable_inv [OF g11(2,4) subset_refl] by blast
  have p12: "progress R g9 g12" by (rule progress_trans [OF progress_trans [OF g10(3) g11(3)] g12(3)])
  define g13 where "g13 = g12\<lparr>gcwhite := otherwhite_of (gcwhite g12), sweepstrgc := 0, sweepgc := None, phase := GCsweepstring,
    estimate := totalbytes g12 - (ud + s11)\<rparr>"
  have run: "atomic H L g = Inr g13"
    using g1(1) g2(1) g4(1) g5(1) g6(1) g8(1) g9(1) g10(1) g11(1) g12(1) by (simp add: atomic_def g3_def g13_def)
  have o13: "ob g13 = ob g12" by (simp add: g13_def)
  have sb: "same_bodies g12 g13" by (simp add: same_bodies_def o13)
  have nw13: "nonwhite g13 = nonwhite g12" by (simp add: fun_eq_iff nonwhite_def o13)
  have c12: "consistent g12" using consistent_cleared [OF g12(2,4)] g12(5,6) by simp
  have mono: "nonwhite g12 c" if "nonwhite g8 c" for c
    using that g9(2) progressD(3) [OF p12] by (simp add: recolor_def)
  have am: "all_marked g12 S" if "all_marked g' S" "progress R g' g8" for g' S
    using that progress_all_marked mono by (auto simp: all_marked_def)
  have p58: "progress R g5 g8" by (rule progress_trans [OF g6(3) progress_trans [OF progress_lists(3) g8(3)]])
  have p48: "progress R g4 g8" by (rule progress_trans [OF marks_progress [OF g5(2)] p58])
  have "all_marked g12 (roots L g)"
    using am [OF main0 p8] am [OF g4(4) p48] am [OF g5(3) p58] by (auto simp: roots_def all_marked_def)
  moreover have "all_marked g12 (set (tmudata g9))"
    by (rule progress_all_marked [OF progress_trans [OF g11(3) g12(3)] g10(4)])
  then have "all_marked g12 (set (tmudata g13))" using progress_keeps(5) [OF p12] by (simp add: g13_def)
  moreover have "keeps_white g g12"
    by (rule keeps_white_trans [OF progressD(7) [OF p8] keeps_white_trans [OF _ progressD(7) [OF p12]]]) (use g9(2) in \<open>simp add: recolor_def\<close>)
  moreover have "nonwhite g12 c = nonwhite g c" if "c \<notin> R" for c
  proof -
    have "nonwhite g12 c = nonwhite g9 c" "nonwhite g8 c = nonwhite g c"
      using progressD(5) [OF p12 that] progressD(5) [OF p8 that] by (simp_all add: nonwhite_def)
    then show ?thesis using g9(2) by (simp add: recolor_def)
  qed
  moreover have "nonwhite g12 c" if "nonwhite g c" for c using mono progressD(3) [OF p8 that] by blast
  moreover have "hash_lists g12 = hash_lists g"
    using progress_keeps(9) [OF p12] recolor_keeps(11) [OF g9(2)] progress_keeps(9) [OF p8] by simp
  moreover have "ob g12 c = ob g c" if "c \<notin> R" "kind_at g c \<noteq> Some KUserdata" for c
    using progressD(5) [OF p12 that(1)] progressD(5) [OF p8 that(1)] that(2) progressD(2) [OF p8] g9(2) by (simp add: recolor_def)
  moreover have "gcwhite g12 = gcwhite g"
    using progress_keeps(8) [OF p12] recolor_keeps(7) [OF g9(2)] progress_keeps(8) [OF p8] by simp
  moreover have "kind_at g12 = kind_at g" using progressD(2) [OF p12] k9 by simp
  moreover have "heap_valid g12" using g12(2) by (simp add: mark_inv_def)
  ultimately have "collected R L g g13"
    using c12 same_bodies_refs(2,5) [OF sb] same_bodies_kind [OF sb]
    unfolding collected_def consistent_def all_marked_def nw13 keeps_white_def o13
    by (simp add: g13_def ball_Un)
  then show ?thesis using run by blast
qed

end
