(* ===== verification/LGC_Full.thy ===== *)
theory LGC_Full
  imports LGC_Collect
begin

text \<open>
  A whole mark phase, from \<^verbatim>\<open>markroot\<close> to \<^verbatim>\<open>atomic\<close>, and the barriers that keep the invariant between
  its steps.
\<close>

section \<open>From the roots to the atomic phase\<close>

definition mark_ready :: "gaddr set \<Rightarrow> gaddr \<Rightarrow> gc_State \<Rightarrow> bool" where
  "mark_ready R L g \<longleftrightarrow> heap_valid g \<and> closed R g \<and> (\<forall>c. \<not> nonwhite g c) \<and> iswhite (gcwhite g) \<and> registry g \<noteq> DeadK \<and>
     in_reach R g ((Only KThread, mainthread g) # (Only KThread, L) # vref (registry g) @ mt_refs g) \<and>
     (\<forall>u \<in> set (uvhead g). kind_at g u = Some KUpval) \<and>
     (\<forall>u \<in> set (udata_list g). kind_at g u = Some KUserdata \<and> (unfinalized g u \<longrightarrow> u \<in> R)) \<and>
     (\<forall>u \<in> set (tmudata g). kind_at g u = Some KUserdata \<and> u \<in> R)"

lemma thread_ob:
  assumes "kind_at g u = Some KThread"
  obtains x t where "ob g u = Some x" "obj_body x = BThread t"
proof -
  obtain x where x: "ob g u = Some x" "kind_of (obj_body x) = KThread" using assms by (auto simp: kind_at_def)
  then show ?thesis using that by (cases "obj_body x") simp_all
qed

lemma only_kind: "in_reach R g [(Only k, a)] \<Longrightarrow> kind_at g a = Some k \<and> a \<in> R"
  by (cases "kind_at g a") (auto simp: target_ok_def)

lemma progress_reset: "progress R g (g\<lparr>gray := [], grayagain := [], weak := []\<rparr>)"
  by (rule progress_same) simp_all

lemma mark_inv_phase: "mark_inv R U (g\<lparr>phase := p\<rparr>) = mark_inv R U g"
proof -
  let ?g = "g\<lparr>phase := p\<rparr>"
  have sb: "same_bodies g ?g" by (simp add: same_bodies_def)
  have nw: "nonwhite ?g = nonwhite g" by (simp add: fun_eq_iff nonwhite_def)
  have f: "ob ?g = ob g" "weak ?g = weak g" by simp_all
  have st: "strong_refs ?g c = strong_refs g c" for c
    unfolding strong_refs_def same_bodies_refs(2) [OF sb] f by (rule refl)
  show ?thesis
    unfolding mark_inv_def lists_ok_def tri_def settled_def all_marked_def container_at_def
      same_bodies_refs(5) [OF sb] closed_same [OF sb] same_bodies_kind [OF sb] nw st
    by simp
qed

lemma all_white_inv:
  assumes "heap_valid g" "closed R g" "\<forall>c. \<not> nonwhite g c"
  shows "mark_inv R {} (g\<lparr>gray := [], grayagain := [], weak := []\<rparr>)"
proof -
  let ?g = "g\<lparr>gray := [], grayagain := [], weak := []\<rparr>"
  have sb: "same_bodies g ?g" by (simp add: same_bodies_def)
  have "nonwhite ?g = nonwhite g" by (simp add: fun_eq_iff nonwhite_def)
  then show ?thesis
    using assms same_bodies_refs(5) [OF sb] closed_same [OF sb] by (simp add: mark_inv_def lists_ok_def tri_def)
qed

lemma markroot_inv:
  assumes r: "mark_ready R L g"
  shows "\<exists>g'. markroot g = Inr (g'\<lparr>phase := GCpropagate\<rparr>) \<and> mark_inv R {} g' \<and> progress R g g' \<and>
    all_marked g' (insert (mainthread g) (targets (vref (registry g)) \<union> targets (mt_refs g)))"
proof -
  define g0 where "g0 = g\<lparr>gray := [], grayagain := [], weak := []\<rparr>"
  have i0: "mark_inv R {} g0" unfolding g0_def by (rule all_white_inv) (use r in \<open>simp_all add: mark_ready_def\<close>)
  then have v0: "heap_valid g0" "closed R g0" by (simp_all add: mark_inv_def)
  have p0: "progress R g g0" unfolding g0_def by (rule progress_reset)
  have reach: "in_reach R g [(Only KThread, mainthread g)]" "in_reach R g (vref (registry g))" "in_reach R g (mt_refs g)"
    "registry g \<noteq> DeadK" using r by (simp_all add: mark_ready_def)
  have lift: "in_reach R g' = in_reach R g" if "progress R g g'" for g' using in_reach_kind [OF progressD(2) [OF that]] .
  obtain g1 where g1: "markobject (mainthread g) g0 = Inr g1" "marks R g0 g1" "mark_inv R {} g1" "all_marked g1 {mainthread g}"
    using marking_inv [OF markobject_marking [OF v0, of "Only KThread" "mainthread g"] i0] reach(1) lift [OF p0] by auto
  have p1: "progress R g g1" by (rule progress_trans [OF p0 marks_progress [OF g1(2)]])
  have v1: "heap_valid g1" "closed R g1" using g1(3) by (simp_all add: mark_inv_def)
  have "kind_at g1 (mainthread g) = Some KThread" using only_kind [OF reach(1)] progressD(2) [OF p1] by simp
  then obtain x t where x: "ob g1 (mainthread g) = Some x" "obj_body x = BThread t" by (rule thread_ob)
  have th: "get_thread g1 (mainthread g1) = Inr t" using x progress_keeps(1) [OF p1] by (simp add: get_thread_def)
  have gt: "in_reach R g1 (vref (l_gt t))" "l_gt t \<noteq> DeadK"
    using in_reach_body [OF v1 _ x(1)] only_kind [OF reach(1)] body_okD [OF v1(1) x(1)] by (simp_all add: x(2))
  obtain g2 where g2: "markvalue (l_gt t) g1 = Inr g2" "marks R g1 g2" "mark_inv R {} g2"
    using marking_inv [OF markvalue_marking [OF v1 gt(2,1)] g1(3)] by blast
  have p2: "progress R g g2" by (rule progress_trans [OF p1 marks_progress [OF g2(2)]])
  have v2: "heap_valid g2" "closed R g2" using g2(3) by (simp_all add: mark_inv_def)
  have r2: "in_reach R g2 (vref (registry g))" using reach(2) lift [OF p2] by simp
  obtain g3 where g3: "markvalue (registry g) g2 = Inr g3" "marks R g2 g3" "mark_inv R {} g3"
    "all_marked g3 (targets (vref (registry g)))"
    using marking_inv [OF markvalue_marking [OF v2 reach(4) r2] g2(3)] by blast
  have p3: "progress R g g3" by (rule progress_trans [OF p2 marks_progress [OF g3(2)]])
  have v3: "heap_valid g3" "closed R g3" using g3(3) by (simp_all add: mark_inv_def)
  have mt: "mt_refs g3 = mt_refs g" using progress_keeps(3) [OF p3] by (simp add: mt_refs_def)
  have r3: "in_reach R g3 (mt_refs g3)" using reach(3) lift [OF p3] mt by simp
  obtain g4 where g4: "markmt g3 = Inr g4" "marks R g3 g4" "all_marked g4 (targets (mt_refs g))"
    using markmt_marking [OF v3 r3] unfolding mt by blast
  have p4: "progress R g g4" by (rule progress_trans [OF p3 marks_progress [OF g4(2)]])
  have "all_marked g4 {mainthread g}" "all_marked g4 (targets (vref (registry g)))"
    using all_marked_mono [OF g4(2) all_marked_mono [OF g3(2) all_marked_mono [OF g2(2) g1(4)]]] all_marked_mono [OF g4(2) g3(4)] .
  then have "all_marked g4 (insert (mainthread g) (targets (vref (registry g)) \<union> targets (mt_refs g)))"
    using g4(3) by (auto simp: all_marked_def)
  moreover have "registry g2 = registry g" using progress_keeps(2) [OF p2] .
  then have "markroot g = Inr (g4\<lparr>phase := GCpropagate\<rparr>)"
    using g1(1) g2(1) g3(1) g4(1) th by (simp add: markroot_def g0_def)
  ultimately show ?thesis using marks_inv [OF g4(2) g3(3)] p4 by blast
qed

text \<open>The whole phase without a pause: \<^verbatim>\<open>markroot\<close>, all propagation, \<^verbatim>\<open>atomic\<close>.\<close>

definition mark_phase :: "gc_host \<Rightarrow> gaddr \<Rightarrow> gc_State \<Rightarrow> gc_State res" where
  "mark_phase H L g = ebind (markroot g) (\<lambda>g. ebind (propagateall H g) (\<lambda>(g, m). atomic H L g))"

lemma progress_phase: "progress R (g\<lparr>phase := p\<rparr>) g' \<Longrightarrow> kind_at g' = kind_at g \<and> (\<forall>c. nonwhite g c \<longrightarrow> nonwhite g' c) \<and>
   (\<forall>c. c \<notin> R \<longrightarrow> ob g' c = ob g c) \<and> keeps_white g g'"
  using progressD(2,3,5,7) [of R "g\<lparr>phase := p\<rparr>" g'] by (simp add: kind_at_def nonwhite_def keeps_white_def fun_eq_iff)

lemma mark_phase_collects:
  assumes r: "mark_ready R L g"
  shows "\<exists>g'. mark_phase H L g = Inr g' \<and> collected R L g g'"
proof -
  obtain g1 where g1: "markroot g = Inr (g1\<lparr>phase := GCpropagate\<rparr>)" "mark_inv R {} g1" "progress R g g1"
    "all_marked g1 (insert (mainthread g) (targets (vref (registry g)) \<union> targets (mt_refs g)))"
    using markroot_inv [OF r] by blast
  let ?g1 = "g1\<lparr>phase := GCpropagate\<rparr>"
  have "mark_inv R {} ?g1" using g1(2) by (simp add: mark_inv_phase)
  then obtain g2 s where g2: "propagateall H ?g1 = Inr (g2, s)" "mark_inv R {} g2" "progress R ?g1 g2" "gray g2 = []"
    using propagateall_inv by blast
  note k1 = progress_keeps [OF g1(3)] and k2 = progress_keeps [OF g2(3)] and p2 = progress_phase [OF g2(3)]
  have keep: "mainthread g2 = mainthread g" "registry g2 = registry g" "basic_mt g2 = basic_mt g" "rootgc g2 = rootgc g"
    "hash_lists g2 = hash_lists g" "tmudata g2 = tmudata g" "uvhead g2 = uvhead g" "gcwhite g2 = gcwhite g" using k1 k2 by simp_all
  have kind: "kind_at g2 = kind_at g" using p2 progressD(2) [OF g1(3)] by simp
  have out: "ob g2 c = ob g c" if "c \<notin> R" for c using p2 progressD(5) [OF g1(3)] that by simp
  have nw: "nonwhite g2 c \<Longrightarrow> c \<in> R" for c using out [of c] r unfolding mark_ready_def nonwhite_def by metis
  have lists: "udata_list g2 = udata_list g" "mt_refs g2 = mt_refs g" "roots L g2 = roots L g"
    by (simp_all add: udata_list_def mt_refs_def roots_def keep)
  have "atomic_ready R L g2"
    unfolding atomic_ready_def
  proof (intro conjI)
    show "mark_inv R (gray_upvals g2 \<union> set (grayagain g2) \<union> set (weak g2)) g2" by (rule tri_weaken [OF g2(2)]) simp
    show "upvals_ok R g2" using r nw by (simp add: upvals_ok_def keep kind mark_ready_def)
    show "gray g2 = []" "iswhite (gcwhite g2)" using g2(4) r by (simp_all add: keep mark_ready_def)
    show "in_reach R g2 ((Only KThread, L) # mt_refs g2)"
      using r unfolding in_reach_kind [OF kind] lists by (simp add: mark_ready_def)
    show "all_marked g2 (insert (mainthread g2) (targets (vref (registry g2))))"
      unfolding keep using g1(4) p2 by (auto simp: all_marked_def)
    show "\<forall>u \<in> set (udata_list g2). kind_at g2 u = Some KUserdata \<and> (unfinalized g2 u \<longrightarrow> u \<in> R)"
    proof (intro ballI conjI impI)
      fix u assume u: "u \<in> set (udata_list g2)"
      then show "kind_at g2 u = Some KUserdata" using r by (simp add: lists kind mark_ready_def)
      assume f: "unfinalized g2 u"
      show "u \<in> R"
      proof (rule ccontr)
        assume "u \<notin> R"
        then have "unfinalized g u" using f out by (simp add: unfinalized_def)
        then show False using u r \<open>u \<notin> R\<close> by (simp add: lists mark_ready_def)
      qed
    qed
    show "\<forall>u \<in> set (tmudata g2). kind_at g2 u = Some KUserdata \<and> u \<in> R" using r by (simp add: keep kind mark_ready_def)
  qed
  then obtain g3 where g3: "atomic H L g2 = Inr g3" "collected R L g2 g3" using atomic_collects by blast
  have "keeps_white g g2" using progressD(7) [OF g1(3)] p2 keeps_white_trans by blast
  then have "collected R L g g3"
    using g3(2) keeps_white_trans [of g g2 g3] out r
    by (auto simp: collected_def lists keep kind nonwhite_def mark_ready_def)
  then show ?thesis using g1(1) g2(1) g3(1) by (auto simp: mark_phase_def)
qed

section \<open>Barriers\<close>

text \<open>
  The invariant between the steps of the mark phase.  What is gray and not in \<open>gray\<close> waits for \<^verbatim>\<open>atomic\<close>.
\<close>

definition waiting :: "gc_State \<Rightarrow> gaddr set" where
  "waiting g = gray_upvals g \<union> set (grayagain g) \<union> set (weak g)"

definition gc_inv :: "gaddr set \<Rightarrow> gc_State \<Rightarrow> bool" where
  "gc_inv R g \<longleftrightarrow> mark_inv R (waiting g) g"

text \<open>The object at \<open>a\<close> gets a body that refers to one more value.\<close>

definition store_ok :: "gaddr set \<Rightarrow> gc_State \<Rightarrow> gaddr \<Rightarrow> gbody \<Rightarrow> gval \<Rightarrow> bool" where
  "store_ok R g a b v \<longleftrightarrow> a \<in> R \<and> v \<noteq> DeadK \<and> in_reach R g (vref v) \<and>
     (case ob g a of None \<Rightarrow> False | Some x \<Rightarrow>
        kind_of b = kind_of (obj_body x) \<and> kind_of b \<noteq> KThread \<and> shape_ok g b \<and>
        set (trefs g b) \<subseteq> set (trefs g (obj_body x)) \<union> set (vref v) \<and>
        (isblack (marked x) \<longrightarrow> \<not> iswhite (marked x) \<and> a \<notin> set (gray g @ grayagain g @ weak g)) \<and>
        (isgray (marked x) \<longrightarrow> a \<in> set (gray g) \<union> waiting g))"

lemma store_inv:
  assumes i: "mark_inv R V g" and s: "store_ok R g a b v" and x: "ob g a = Some x" and V: "set (weak g) \<subseteq> V"
    and g1: "g1 = set_obj a (x\<lparr>obj_body := b\<rparr>) g"
  shows "mark_inv R (insert a V) g1" "nonwhite g1 a \<longrightarrow> a \<notin> set (gray g) \<union> V \<longrightarrow> all_marked g1 (refs g1 a - targets (vref v))"
    "in_reach R g1 (vref v)"
proof -
  have o1: "ob g1 = (ob g)(a := Some (x\<lparr>obj_body := b\<rparr>))" using x by (simp add: g1)
  have h: "a \<in> R" "in_reach R g (vref v)" "kind_of b = kind_of (obj_body x)" "kind_of b \<noteq> KThread" "shape_ok g b"
    "set (trefs g b) \<subseteq> set (trefs g (obj_body x)) \<union> set (vref v)"
    using s x unfolding store_ok_def by auto
  have v: "heap_valid g" "closed R g" and l: "lists_ok R g" and t: "tri V g" using i by (simp_all add: mark_inv_def)
  have nt: "\<nexists>t. b = BThread t" "\<nexists>t. obj_body x = BThread t" using h(3,4) by auto
  have "stack_of g1 th = stack_of g th" for th using x nt by (auto simp: stack_of_def o1 split: gbody.splits)
  then have st: "stack_of g1 = stack_of g" by blast
  note tr = stack_trefs [OF st]
  have k: "kind_at g1 = kind_at g" using x h(3) by (simp add: fun_eq_iff kind_at_def o1)
  have nw: "nonwhite g1 = nonwhite g" using x by (simp add: fun_eq_iff nonwhite_def o1)
  have tk: "target_ok g1 = target_ok g" by (simp add: fun_eq_iff target_ok_def k)
  show "in_reach R g1 (vref v)" using h(2) in_reach_kind [OF k] by simp
  have refs: "c \<noteq> a \<Longrightarrow> refs g1 c = refs g c" for c by (cases "ob g c") (simp_all add: refs_def o1 tr)
  have ra: "refs g1 a \<subseteq> refs g a \<union> targets (vref v)" using h(6) x by (auto simp: refs_def o1 tr)
  have "body_ok g1 (obj_body y)" if "ob g1 c = Some y" for c y
  proof (cases "c = a")
    case True
    have "target_ok g wr" if "wr \<in> set (trefs g b)" for wr
      using that h(2,6) body_okD [OF v(1) x] by (auto simp: in_reach_def list_all_iff)
    then show ?thesis using that True h(5) by (auto simp: o1 body_ok_def tr tk list_all_iff)
  next
    case False
    then show ?thesis using that v(1) by (simp add: o1 heap_valid_def body_ok_def tr tk)
  qed
  then have "heap_valid g1" by (simp add: heap_valid_def)
  moreover have "refs g1 c \<subseteq> R" if "c \<in> R" for c
  proof (cases "c = a")
    case True
    have "refs g a \<subseteq> R" "targets (vref v) \<subseteq> R" using v(2) h(1,2) by (auto simp: closed_def in_reach_def list_all_iff)
    then show ?thesis using ra True by blast
  qed (use v(2) that refs in \<open>simp add: closed_def\<close>)
  then have "closed R g1" by (simp add: closed_def)
  moreover have ls: "gray g1 = gray g" "weak g1 = weak g" "grayagain g1 = grayagain g" by (simp_all add: g1)
  have "lists_ok R g1" using l by (simp add: lists_ok_def ls nw k container_at_def)
  moreover have "tri (insert a V) g1"
    unfolding tri_def
  proof (intro allI impI)
    fix c assume c: "nonwhite g1 c"
    show "settled g1 c \<or> c \<in> set (gray g1) \<or> c \<in> insert a V"
    proof (cases "c = a")
      case False
      have "strong_refs g1 c \<subseteq> strong_refs g c"
        by (rule strong_refs_other) (use False refs in \<open>simp_all add: o1 ls\<close>)
      then show ?thesis using t c by (auto simp: tri_def settled_def all_marked_def nw ls)
    qed simp
  qed
  ultimately show "mark_inv R (insert a V) g1" by (simp add: mark_inv_def)
  show "nonwhite g1 a \<longrightarrow> a \<notin> set (gray g) \<union> V \<longrightarrow> all_marked g1 (refs g1 a - targets (vref v))"
  proof (intro impI)
    assume "nonwhite g1 a" "a \<notin> set (gray g) \<union> V"
    then have "settled g a" "a \<notin> set (weak g)" using t nw V by (auto simp: tri_def)
    then have "all_marked g (refs g a)" using strong_not_weak [of a g] by (simp add: settled_def)
    then show "all_marked g1 (refs g1 a - targets (vref v))" using ra by (auto simp: all_marked_def nw)
  qed
qed

lemma settle_object:
  assumes i: "mark_inv R (insert a V) g" and s: "nonwhite g a \<longrightarrow> a \<in> set (gray g) \<union> V \<or> all_marked g (refs g a)"
  shows "mark_inv R V g"
  using i s all_settled [of g a] by (auto simp: mark_inv_def tri_def)

lemma value_white:
  assumes "in_reach R g (vref v)"
  shows "\<exists>w. val_is_white v g = Inr w \<and> (\<not> w \<longrightarrow> all_marked g (targets (vref v))) \<and> (w \<longrightarrow> (\<exists>r. v = Ref r \<and> white g r \<and> r \<in> R))"
proof (cases v)
  case (Ref r)
  then have t: "target_ok g (AnyValue, r)" "r \<in> R" using assms by simp_all
  then obtain y where "ob g r = Some y" by (cases "ob g r") (auto simp: target_ok_def kind_at_def)
  then show ?thesis using Ref t by (simp add: val_is_white_def all_marked_def nonwhite_def white_def)
qed (auto simp: val_is_white_def)

lemma waiting_marks: "marks R g g' \<Longrightarrow> waiting g \<subseteq> waiting g'"
proof -
  assume m: "marks R g g'"
  have "u \<in> gray_upvals g'" if u: "u \<in> gray_upvals g" for u
  proof -
    obtain x where x: "u \<in> set (uvhead g)" "ob g u = Some x" "isgray (marked x)" using u unfolding gray_upvals_def by blast
    then have "ob g' u = Some x" using marks_kept [OF m, of u] by (simp add: nonwhite_def isgray_def)
    then show ?thesis using x progress_keeps(6) [OF marks_progress [OF m]] by (simp add: gray_upvals_def)
  qed
  then show "waiting g \<subseteq> waiting g'" using marks_lists [OF m] by (auto simp: waiting_def)
qed

lemma waiting_store:
  assumes x: "ob g a = Some x"
  shows "waiting (set_obj a (x\<lparr>obj_body := b\<rparr>) g) = waiting g"
  using x by (auto simp: waiting_def gray_upvals_def)

text \<open>The object of the store after the store: what the barrier has to see to.\<close>

lemma after_store:
  assumes i: "gc_inv R g" and s: "store_ok R g a b v"
  obtains x g1 w where "ob g a = Some x" "upd_body a b g = Inr g1" "g1 = set_obj a (x\<lparr>obj_body := b\<rparr>) g"
    "mark_inv R (insert a (waiting g)) g1" "waiting g1 = waiting g" "val_is_white v g1 = Inr w"
    "w \<Longrightarrow> \<exists>r. v = Ref r \<and> white g1 r \<and> r \<in> R"
    "\<not> w \<or> \<not> isblack (marked x) \<Longrightarrow> mark_inv R (waiting g) g1"
    "\<And>g'. marks R g1 g' \<Longrightarrow> isblack (marked x) \<Longrightarrow> all_marked g' (targets (vref v)) \<Longrightarrow> mark_inv R (waiting g') g'"
proof -
  obtain x where x: "ob g a = Some x" using s by (auto simp: store_ok_def split: option.splits)
  define g1 where "g1 = set_obj a (x\<lparr>obj_body := b\<rparr>) g"
  have up: "upd_body a b g = Inr g1" using x by (simp add: upd_body_ob g1_def)
  have sub: "set (weak g) \<subseteq> waiting g" by (auto simp: waiting_def)
  note st = store_inv [OF i [unfolded gc_inv_def] s x sub g1_def]
  have wt: "waiting g1 = waiting g" unfolding g1_def by (rule waiting_store [OF x])
  have ls: "gray g1 = gray g" by (simp add: g1_def)
  have o1: "ob g1 a = Some (x\<lparr>obj_body := b\<rparr>)" using x by (simp add: g1_def)
  obtain w where w: "val_is_white v g1 = Inr w" "\<not> w \<longrightarrow> all_marked g1 (targets (vref v))"
    "w \<longrightarrow> (\<exists>r. v = Ref r \<and> white g1 r \<and> r \<in> R)" using value_white [OF st(3)] by blast
  have gray: "isgray (marked x) \<longrightarrow> a \<in> set (gray g) \<union> waiting g" using s x by (simp add: store_ok_def)
  have nw: "nonwhite g1 a \<longleftrightarrow> \<not> iswhite (marked x)" by (simp add: nonwhite_def o1)
  have quiet: "mark_inv R (waiting g) g1" if c: "\<not> w \<or> \<not> isblack (marked x)"
  proof (rule settle_object [OF st(1)], intro impI)
    assume n: "nonwhite g1 a"
    show "a \<in> set (gray g1) \<union> waiting g \<or> all_marked g1 (refs g1 a)"
    proof (cases "isblack (marked x)")
      case False
      then show ?thesis using gray n nw by (simp add: ls isgray_def)
    next
      case True
      then have "all_marked g1 (targets (vref v))" using c w(2) by simp
      then show ?thesis using st(2) n by (auto simp: ls all_marked_def)
    qed
  qed
  have marked: "mark_inv R (waiting g') g'"
    if m: "marks R g1 g'" and b: "isblack (marked x)" and am: "all_marked g' (targets (vref v))" for g'
  proof -
    have nb: "\<not> iswhite (marked x)" using s x b by (simp add: store_ok_def)
    have "mark_inv R (insert a (waiting g)) g'" by (rule marks_inv [OF m st(1)])
    then have i': "mark_inv R (insert a (waiting g')) g'"
      by (rule tri_weaken) (use waiting_marks [OF m] wt in blast)
    show ?thesis
    proof (rule settle_object [OF i'], intro impI)
      have r: "refs g' a = refs g1 a" using same_bodies_refs(2) [OF marks_bodies [OF m]] by simp
      obtain new where f: "g' = g1\<lparr>objs := objs g', gray := new @ gray g1\<rparr>" using m by (auto simp: marks_def)
      from arg_cong [OF f, of gray] have gr: "set (gray g) \<subseteq> set (gray g')" by (simp add: ls)
      show "a \<in> set (gray g') \<union> waiting g' \<or> all_marked g' (refs g' a)"
      proof (cases "a \<in> set (gray g) \<union> waiting g")
        case False
        then have "all_marked g1 (refs g1 a - targets (vref v))" using st(2) nw nb by simp
        then have "all_marked g' (refs g1 a - targets (vref v))" by (rule all_marked_mono [OF m])
        then show ?thesis using am r by (auto simp: all_marked_def)
      qed (use gr waiting_marks [OF m] wt in blast)
    qed
  qed
  show ?thesis by (rule that [OF x up g1_def st(1) wt w(1) _ quiet marked]) (use w(3) in blast)+
qed

lemma barrier_forward:
  assumes i: "gc_inv R g" and s: "store_ok R g p b v" and ph: "phase g = GCpropagate"
  shows "\<exists>g'. ebind (upd_body p b g) (luaC_barrier p v) = Inr g' \<and> gc_inv R g'"
proof -
  obtain x g1 w where g1: "ob g p = Some x" "upd_body p b g = Inr g1" "g1 = set_obj p (x\<lparr>obj_body := b\<rparr>) g"
    "mark_inv R (insert p (waiting g)) g1" "waiting g1 = waiting g" "val_is_white v g1 = Inr w"
    "w \<Longrightarrow> \<exists>r. v = Ref r \<and> white g1 r \<and> r \<in> R"
    "\<not> w \<or> \<not> isblack (marked x) \<Longrightarrow> mark_inv R (waiting g) g1"
    "\<And>g'. marks R g1 g' \<Longrightarrow> isblack (marked x) \<Longrightarrow> all_marked g' (targets (vref v)) \<Longrightarrow> mark_inv R (waiting g') g'"
    by (rule after_store [OF i s]) blast
  have o1: "ob g1 p = Some (x\<lparr>obj_body := b\<rparr>)" using g1(1) by (simp add: g1(3))
  have ph1: "phase g1 = GCpropagate" using ph by (simp add: g1(3))
  show ?thesis
  proof (cases "w \<and> isblack (marked x)")
    case True
    then obtain r where r: "v = Ref r" "white g1 r" "r \<in> R" using g1(7) by blast
    have "heap_valid g1" "closed R g1" using g1(4) by (simp_all add: mark_inv_def)
    then obtain g' where g': "reallymarkobject r g1 = Inr g'" "marks R g1 g'" "nonwhite g' r"
      using reallymarkobject_ok r by blast
    have "mark_inv R (waiting g') g'" using g1(9) [OF g'(2)] True g'(3) r(1) by (simp add: all_marked_def)
    moreover have "luaC_barrier p v g1 = Inr g'"
      using g'(1) True g1(6) o1 r(1) ph1 by (simp add: luaC_barrier_def luaC_barrierf_def)
    ultimately show ?thesis using g1(2) by (simp add: gc_inv_def)
  next
    case False
    then have "mark_inv R (waiting g) g1" using g1(8) by blast
    moreover have "luaC_barrier p v g1 = Inr g1"
      using False g1(6) o1 by (cases v) (auto simp: luaC_barrier_def)
    ultimately show ?thesis using g1(2,5) by (simp add: gc_inv_def)
  qed
qed

lemma barrier_back:
  assumes i: "gc_inv R g" and s: "store_ok R g t b v" and k: "kind_at g t = Some KTable"
  shows "\<exists>g'. ebind (upd_body t b g) (luaC_barriert t v) = Inr g' \<and> gc_inv R g'"
proof -
  obtain x g1 w where g1: "ob g t = Some x" "upd_body t b g = Inr g1" "g1 = set_obj t (x\<lparr>obj_body := b\<rparr>) g"
    "mark_inv R (insert t (waiting g)) g1" "waiting g1 = waiting g" "val_is_white v g1 = Inr w"
    "w \<Longrightarrow> \<exists>r. v = Ref r \<and> white g1 r \<and> r \<in> R"
    "\<not> w \<or> \<not> isblack (marked x) \<Longrightarrow> mark_inv R (waiting g) g1"
    "\<And>g'. marks R g1 g' \<Longrightarrow> isblack (marked x) \<Longrightarrow> all_marked g' (targets (vref v)) \<Longrightarrow> mark_inv R (waiting g') g'"
    by (rule after_store [OF i s]) blast
  define y where "y = x\<lparr>obj_body := b\<rparr>"
  have o1: "ob g1 t = Some y" using g1(1) by (simp add: g1(3) y_def)
  show ?thesis
  proof (cases "w \<and> isblack (marked x)")
    case True
    then have c: "\<not> iswhite (marked x)" "t \<notin> set (gray g @ grayagain g @ weak g)" "t \<in> R"
      using s g1(1) by (simp_all add: store_ok_def)
    define g' where "g' = (set_obj t (y\<lparr>marked := black2gray (marked y)\<rparr>) g1)\<lparr>weak := weak g1, grayagain := t # grayagain g1\<rparr>"
    have m: "\<not> iswhite (marked y)" "\<not> iswhite (black2gray (marked y))" using c(1) by (simp_all add: y_def)
    have st: "tstep t R g1 g'" unfolding g'_def by (rule local_mark_step [OF o1 m])
    have v1: "heap_valid g1" "closed R g1" and l1: "lists_ok R g1" and t1: "tri (insert t (waiting g)) g1"
      using g1(4) by (simp_all add: mark_inv_def)
    have kt: "kind_at g1 t = Some KTable" using s g1(1) k by (auto simp: store_ok_def kind_at_def o1 y_def)
    have ls: "gray g' = gray g1" "weak g' = weak g1" "grayagain g' = t # grayagain g1" by (simp_all add: g'_def)
    have ls1: "gray g1 = gray g" "weak g1 = weak g" "grayagain g1 = grayagain g" by (simp_all add: g1(3))
    have kk: "kind_at g' = kind_at g1" by (rule tstep_kind [OF st])
    have "nonwhite g' = nonwhite g1" using o1 m by (simp add: fun_eq_iff nonwhite_def g'_def)
    moreover have "nonwhite g1 t" using m(1) by (simp add: nonwhite_def o1)
    ultimately have "lists_ok R g'"
      using l1 c(2,3) kt unfolding lists_ok_def container_at_def kk ls ls1 by auto
    moreover have "tri (insert t (waiting g)) g'" by (rule tri_tstep [OF st _ _ t1]) (auto simp: ls)
    ultimately have "mark_inv R (insert t (waiting g)) g'"
      using tstep_valid [OF st v1(1)] tstep_closed [OF st v1(2)] by (simp add: mark_inv_def)
    moreover have "insert t (waiting g1) \<subseteq> waiting g'"
    proof -
      have "gray_upvals g1 \<subseteq> gray_upvals g'"
        using o1 m by (auto simp: gray_upvals_def g'_def isgray_def)
      then show ?thesis by (auto simp: waiting_def ls)
    qed
    ultimately have "gc_inv R g'" using tri_weaken g1(5) by (simp add: gc_inv_def)
    moreover have "luaC_barriert t v g1 = Inr g'"
      using True g1(6) o1 by (simp add: luaC_barriert_def luaC_barrierback_def upd_mark_ob y_def g'_def set_obj_def)
    ultimately show ?thesis using g1(2) by simp
  next
    case False
    then have "mark_inv R (waiting g) g1" using g1(8) by blast
    moreover have "luaC_barriert t v g1 = Inr g1" using False g1(6) o1 by (auto simp: luaC_barriert_def y_def)
    ultimately show ?thesis using g1(2,5) by (simp add: gc_inv_def)
  qed
qed

end
