(* ===== verification/LGC_Sweep.thy ===== *)
theory LGC_Sweep
  imports LGC_Full
begin

text \<open>
  The sweep: a list of objects loses the dead ones, and the others get the current white.
\<close>

section \<open>Who survives\<close>

lemma survives_bits: "survives w m \<longleftrightarrow> (\<exists>n. bit m n \<noteq> (n = 0 \<or> n = 1) \<and> bit w n \<noteq> (n = 0 \<or> n = 1))"
  unfolding survives_def and_zero_bits by (auto simp: bit_xor_iff const_bits otherwhite_bit)

lemma nonwhite_survives: "\<not> iswhite m \<Longrightarrow> \<not> (bit w 0 \<and> bit w 1) \<Longrightarrow> survives w m"
  unfolding survives_bits by (auto simp: color_bits)

lemma dead_not_survives:
  assumes "dead_mark w m" "bit w 0 \<noteq> bit w 1" "\<And>n. 2 \<le> n \<Longrightarrow> \<not> (bit m n \<and> bit w n)"
  shows "\<not> survives w m"
proof
  assume "survives w m"
  then obtain n where n: "bit m n \<noteq> (n = 0 \<or> n = 1)" "bit w n \<noteq> (n = 0 \<or> n = 1)" by (auto simp: survives_bits)
  show False
  proof (cases "n < 2")
    case True
    then have "n = 0 \<or> n = 1" by linarith
    then show ?thesis using n assms(1,2) by (auto simp: dead_mark_bits)
  qed (use n assms(3) [of n] in auto)
qed

definition alive :: "gc_State \<Rightarrow> gaddr \<Rightarrow> bool" where
  "alive g a \<longleftrightarrow> (case ob g a of None \<Rightarrow> False | Some x \<Rightarrow> survives (gcwhite g) (marked x))"

definition whitened :: "gc_State \<Rightarrow> gobj \<Rightarrow> gobj" where
  "whitened g x = x\<lparr>marked := make_white (gcwhite g) (marked x)\<rparr>"

text \<open>The effect on the objects of a list.\<close>

definition swept :: "gaddr set \<Rightarrow> gc_State \<Rightarrow> gc_State \<Rightarrow> bool" where
  "swept S g g' \<longleftrightarrow> gcwhite g' = gcwhite g \<and>
     (\<forall>a. ob g' a = (if a \<in> S then (if alive g a then map_option (whitened g) (ob g a) else None) else ob g a))"

lemma swept_empty: "swept {} g g"
  by (simp add: swept_def)

lemma alive_cong: "ob g1 c = ob g c \<Longrightarrow> gcwhite g1 = gcwhite g \<Longrightarrow> alive g1 c = alive g c"
  by (simp only: alive_def)

lemma swept_union:
  assumes a: "swept S g g1" and b: "swept T g1 g2" and d: "S \<inter> T = {}"
  shows "swept (S \<union> T) g g2"
proof -
  have w: "gcwhite g1 = gcwhite g" using a by (simp add: swept_def)
  have o: "ob g1 c = ob g c" if "c \<in> T" for c using a d that by (auto simp: swept_def)
  have t: "alive g1 c = alive g c" "ob g1 c = ob g c" if "c \<in> T" for c using alive_cong [OF o [OF that] w] o [OF that] by this
  have wh: "whitened g1 = whitened g" using w by (simp add: whitened_def fun_eq_iff)
  show ?thesis
    unfolding swept_def
  proof (intro conjI allI)
    show "gcwhite g2 = gcwhite g" using b w by (simp add: swept_def)
    fix c
    show "ob g2 c = (if c \<in> S \<union> T then if alive g c then map_option (whitened g) (ob g c) else None else ob g c)"
    proof (cases "c \<in> T")
      case True
      then show ?thesis using b t [OF True] wh by (simp add: swept_def)
    next
      case False
      then have "ob g2 c = ob g1 c" using b by (simp add: swept_def)
      then show ?thesis using a False by (simp add: swept_def)
    qed
  qed
qed

section \<open>Lists of objects\<close>

lemma get_ob: "ob g a = Some x \<Longrightarrow> get_obj g a = Inr x"
  by simp

lemma ob_freed: "a < length (objs g) \<Longrightarrow> ob (g\<lparr>objs := (objs g)[a := None], totalbytes := t\<rparr>) b = (if b = a then None else ob g b)"
  by (auto simp: ob_def)

lemma free_mem_ob:
  assumes "ob g a = Some x"
  shows "\<exists>g'. free_mem H a g = Inr g' \<and> ob g' = (ob g)(a := None) \<and> gcwhite g' = gcwhite g \<and> rootgc g' = rootgc g \<and>
    sweepgc g' = sweepgc g \<and> hash_lists g' = hash_lists g \<and> mainthread g' = mainthread g \<and> nuse g' = nuse g"
  using assms ob_length [OF assms] ob_freed [OF ob_length [OF assms]] by (auto simp: free_mem_def fun_eq_iff)

text \<open>Objects that \<^verbatim>\<open>freeobj\<close> only has to release: no thread with open upvalues.\<close>

definition releasable :: "gc_State \<Rightarrow> gaddr \<Rightarrow> bool" where
  "releasable g a \<longleftrightarrow> (case ob g a of None \<Rightarrow> False | Some x \<Rightarrow> (case obj_body x of BThread t \<Rightarrow> openupval t = [] | _ \<Rightarrow> True))"

lemma freeobj_ok:
  assumes p: "releasable g a"
  shows "\<exists>g'. freeobj H a g = Inr g' \<and> ob g' = (ob g)(a := None) \<and> gcwhite g' = gcwhite g \<and> rootgc g' = rootgc g \<and>
    sweepgc g' = sweepgc g \<and> hash_lists g' = hash_lists g \<and> mainthread g' = mainthread g \<and>
    nuse g' = (if kind_at g a = Some KString then nuse g - 1 else nuse g)"
proof -
  obtain x where x: "ob g a = Some x" using p by (auto simp: releasable_def split: option.splits)
  note r = get_ob [OF x]
  show ?thesis
  proof (cases "obj_body x")
    case (BUpval u)
    let ?g = "case u of Open _ _ \<Rightarrow> unlinkupval a g | _ \<Rightarrow> g"
    have o: "ob ?g = ob g" by (simp add: unlinkupval_def split: upv.split)
    have f: "gcwhite ?g = gcwhite g" "rootgc ?g = rootgc g" "sweepgc ?g = sweepgc g" "hash_lists ?g = hash_lists g"
      "nuse ?g = nuse g" "mainthread ?g = mainthread g" by (simp_all add: unlinkupval_def split: upv.split)
    have "freeobj H a g = free_mem H a ?g"
      using BUpval by (simp add: freeobj_def r luaF_freeupval_def)
    then show ?thesis using free_mem_ob [of ?g a x H] x BUpval by (simp add: o f kind_at_def)
  next
    case (BThread t)
    then have t: "openupval t = []" using p x by (simp add: releasable_def)
    then have e: "t\<lparr>openupval := []\<rparr> = t" by simp
    have "x\<lparr>obj_body := BThread t\<rparr> = x" using BThread by simp
    then have "upd_body a (BThread (t\<lparr>openupval := []\<rparr>)) g = Inr g"
      using set_obj_same [OF x] unfolding e by (simp add: upd_body_ob x)
    then have "freeobj H a g = free_mem H a g"
      using BThread t by (simp add: freeobj_def r luaF_close_def get_thread_def)
    then show ?thesis using free_mem_ob [OF x, of H] BThread x by (simp add: kind_at_def)
  next
    case (BString s)
    have "freeobj H a g = free_mem H a (g\<lparr>nuse := nuse g - 1\<rparr>)" using BString by (simp add: freeobj_def r)
    then show ?thesis using free_mem_ob [of "g\<lparr>nuse := nuse g - 1\<rparr>" a x H] BString x by (simp add: kind_at_def)
  qed (use free_mem_ob [OF x, of H] x in \<open>simp_all add: freeobj_def kind_at_def\<close>)
qed

lemma whiten_ok:
  assumes "ob g a = Some x"
  shows "\<exists>g'. makewhite a g = Inr g' \<and> g' = set_obj a (whitened g x) g"
  using assms by (simp add: makewhite_def upd_mark_ob whitened_def)

lemma swept_whiten:
  assumes x: "ob g a = Some x" "alive g a"
  shows "swept {a} g (set_obj a (whitened g x) g)"
  using x by (simp add: swept_def)

lemma swept_free: "\<not> alive g a \<Longrightarrow> ob g' = (ob g)(a := None) \<Longrightarrow> gcwhite g' = gcwhite g \<Longrightarrow> swept {a} g g'"
  by (simp add: swept_def)

lemma swept_releasable: "swept S g g' \<Longrightarrow> a \<notin> S \<Longrightarrow> releasable g' a = releasable g a \<and> kind_at g' a = kind_at g a \<and> alive g' a = alive g a"
  using alive_cong [of g' a g] by (simp add: swept_def releasable_def kind_at_def)

text \<open>A bucket of the string table.\<close>

lemma sweepwholelist_ok:
  "\<forall>a \<in> set l. kind_at g a = Some KString \<Longrightarrow> distinct l \<Longrightarrow>
   \<exists>g'. sweepwholelist H l g = Inr (g', filter (alive g) l) \<and> swept (set l) g g' \<and> hash_lists g' = hash_lists g \<and>
     nuse g' = nuse g - length (filter (\<lambda>a. \<not> alive g a) l) \<and> rootgc g' = rootgc g"
proof (induction l arbitrary: g)
  case Nil
  then show ?case by (simp add: swept_empty)
next
  case (Cons a l)
  have k: "kind_at g a = Some KString" using Cons.prems(1) by simp
  then obtain x where x: "ob g a = Some x" by (auto simp: kind_at_def)
  have pl: "releasable g a" using k x by (cases "obj_body x") (simp_all add: releasable_def kind_at_def)
  have al: "alive g a \<longleftrightarrow> survives (gcwhite g) (marked x)" by (simp add: alive_def x)
  have "\<exists>g1. (if alive g a then makewhite a g else freeobj H a g) = Inr g1 \<and> swept {a} g g1 \<and> hash_lists g1 = hash_lists g \<and>
      nuse g1 = nuse g - (if alive g a then 0 else 1) \<and> rootgc g1 = rootgc g"
  proof (cases "alive g a")
    case True
    then show ?thesis using whiten_ok [OF x] swept_whiten [OF x True] by (auto simp: set_obj_def)
  next
    case False
    then show ?thesis using freeobj_ok [OF pl, of H] swept_free [OF False] k by auto
  qed
  then obtain g1 where g1: "(if alive g a then makewhite a g else freeobj H a g) = Inr g1" "swept {a} g g1"
    "hash_lists g1 = hash_lists g" "nuse g1 = nuse g - (if alive g a then 0 else 1)" "rootgc g1 = rootgc g" by blast
  have na: "a \<notin> set l" using Cons.prems(2) by simp
  have same: "kind_at g1 c = kind_at g c \<and> alive g1 c = alive g c" if "c \<in> set l" for c
    using swept_releasable [OF g1(2), of c] that na by auto
  then have "\<forall>c \<in> set l. kind_at g1 c = Some KString" using Cons.prems(1) by simp
  then obtain g2 where g2: "sweepwholelist H l g1 = Inr (g2, filter (alive g1) l)" "swept (set l) g1 g2"
    "hash_lists g2 = hash_lists g1" "nuse g2 = nuse g1 - length (filter (\<lambda>a. \<not> alive g1 a) l)" "rootgc g2 = rootgc g1"
    using Cons.IH Cons.prems(2) by (metis distinct.simps(2))
  have f: "filter (alive g1) l = filter (alive g) l" "filter (\<lambda>a. \<not> alive g1 a) l = filter (\<lambda>a. \<not> alive g a) l"
    using same by (auto intro: filter_cong)
  have sw: "swept (set (a # l)) g g2" using swept_union [OF g1(2) g2(2)] na by simp
  show ?case using g1 g2 x al f sw by (cases "alive g a") simp_all
qed

lemma sweep_bucket_ok:
  assumes i: "i < length (hash_lists g)" and l: "\<forall>a \<in> set (hash_lists g ! i). kind_at g a = Some KString" "distinct (hash_lists g ! i)"
  shows "\<exists>g'. sweep_bucket H i g = Inr g' \<and> swept (set (hash_lists g ! i)) g g' \<and>
    hash_lists g' = (hash_lists g)[i := filter (alive g) (hash_lists g ! i)] \<and>
    nuse g' = nuse g - length (filter (\<lambda>a. \<not> alive g a) (hash_lists g ! i)) \<and> rootgc g' = rootgc g"
  using sweepwholelist_ok [OF l, of H] i by (auto simp: sweep_bucket_def swept_def alive_def)

section \<open>The list of all objects\<close>

lemma remove1_middle: "a \<notin> set xs \<Longrightarrow> remove1 a (xs @ a # ys) = xs @ ys"
  by (induction xs) auto

text \<open>The position of the sweep: what is swept lies in front of it.\<close>

definition sweep_at :: "gaddr list \<Rightarrow> gaddr list \<Rightarrow> gc_State \<Rightarrow> bool" where
  "sweep_at xs ys g \<longleftrightarrow> rootgc g = xs @ ys \<and> distinct (xs @ ys) \<and> sweepgc g = (if xs = [] then None else Some (last xs))"

lemma unswept_at: "sweep_at xs ys g \<Longrightarrow> unswept g = ys"
proof (cases "xs = []")
  case False
  assume s: "sweep_at xs ys g"
  obtain zs p where xs: "xs = zs @ [p]" using False by (cases xs rule: rev_cases) auto
  have "p \<notin> set zs" using s by (simp add: sweep_at_def xs)
  then have "dropWhile (\<lambda>a. a \<noteq> p) (zs @ p # ys) = p # ys" by (induction zs) auto
  then show ?thesis using s by (simp add: unswept_def sweep_at_def xs)
qed (simp add: unswept_def sweep_at_def)

lemma sweep_one_ok:
  assumes at: "sweep_at xs (a # ys) g" and p: "releasable g a"
  shows "\<exists>g'. sweep_one H a g = Inr g' \<and> swept {a} g g' \<and> sweep_at (if alive g a then xs @ [a] else xs) ys g'"
proof -
  obtain x where x: "ob g a = Some x" using p by (auto simp: releasable_def split: option.splits)
  have al: "alive g a \<longleftrightarrow> survives (gcwhite g) (marked x)" by (simp add: alive_def x)
  have first: "(case obj_body x of
         BThread t \<Rightarrow> ebind (sweepwholelist H (openupval t) g) (\<lambda>(g, l). upd_body a (BThread (t\<lparr>openupval := l\<rparr>)) g)
       | _ \<Rightarrow> Inr g) = Inr g"
  proof (cases "obj_body x")
    case (BThread t)
    then have t: "openupval t = []" using p x by (simp add: releasable_def)
    then have e: "t\<lparr>openupval := []\<rparr> = t" by simp
    have "x\<lparr>obj_body := BThread t\<rparr> = x" using BThread by simp
    then have "upd_body a (BThread t) g = Inr g" using set_obj_same [OF x] by (simp add: upd_body_ob x)
    then show ?thesis using BThread t by (simp add: e)
  qed simp_all
  show ?thesis
  proof (cases "alive g a")
    case True
    let ?g = "(set_obj a (whitened g x) g)\<lparr>sweepgc := Some a\<rparr>"
    have "sweep_one H a g = Inr ?g"
      using True whiten_ok [OF x] x first al by (auto simp: sweep_one_def)
    moreover have "swept {a} g ?g" using swept_whiten [OF x True] by (simp add: swept_def)
    moreover have "sweep_at (xs @ [a]) ys ?g" using at by (simp add: sweep_at_def)
    ultimately show ?thesis using True by auto
  next
    case False
    let ?g = "g\<lparr>rootgc := remove1 a (rootgc g)\<rparr>"
    have pl: "releasable ?g a" using p by (simp add: releasable_def)
    obtain g' where g': "freeobj H a ?g = Inr g'" "ob g' = (ob ?g)(a := None)" "gcwhite g' = gcwhite ?g" "rootgc g' = rootgc ?g"
      "sweepgc g' = sweepgc ?g" using freeobj_ok [OF pl] by blast
    have "sweep_one H a g = Inr g'" using False x first al g'(1) by (simp add: sweep_one_def)
    moreover have "swept {a} g g'" using swept_free [OF False] g' by simp
    moreover have "sweep_at xs ys g'" using at g' by (auto simp: sweep_at_def remove1_middle)
    ultimately show ?thesis using False by auto
  qed
qed

lemma sweeplist_ok:
  "sweep_at xs ys g \<Longrightarrow> \<forall>a \<in> set ys. releasable g a \<Longrightarrow> length ys \<le> n \<Longrightarrow>
   \<exists>g'. sweeplist H n g = Inr g' \<and> swept (set ys) g g' \<and> rootgc g' = xs @ filter (alive g) ys \<and> unswept g' = []"
proof (induction ys arbitrary: xs g n)
  case Nil
  have "sweeplist H n g = Inr g" using unswept_at [OF Nil.prems(1)] by (cases n) simp_all
  then show ?case using Nil.prems(1) unswept_at [OF Nil.prems(1)] by (simp add: swept_empty sweep_at_def)
next
  case (Cons a ys)
  then obtain m where n: "n = Suc m" "length ys \<le> m" by (cases n) auto
  have na: "a \<notin> set ys" using Cons.prems(1) by (simp add: sweep_at_def)
  obtain g1 where g1: "sweep_one H a g = Inr g1" "swept {a} g g1" "sweep_at (if alive g a then xs @ [a] else xs) ys g1"
    using sweep_one_ok [OF Cons.prems(1)] Cons.prems(2) by auto
  have same: "releasable g1 c = releasable g c \<and> alive g1 c = alive g c" if "c \<in> set ys" for c
    using swept_releasable [OF g1(2), of c] that na by auto
  then have "\<forall>c \<in> set ys. releasable g1 c" using Cons.prems(2) by simp
  from Cons.IH [OF g1(3) this n(2)] obtain g2 where g2: "sweeplist H m g1 = Inr g2" "swept (set ys) g1 g2"
    "rootgc g2 = (if alive g a then xs @ [a] else xs) @ filter (alive g1) ys" "unswept g2 = []" by blast
  have "filter (alive g1) ys = filter (alive g) ys" using same by (auto intro: filter_cong)
  moreover have "swept (set (a # ys)) g g2" using swept_union [OF g1(2) g2(2)] na by simp
  ultimately show ?case
    using g1(1) g2 unswept_at [OF Cons.prems(1)] by (simp add: n(1))
qed

section \<open>A whole cycle\<close>

text \<open>What the mark phase left marked survives the sweep.\<close>

lemma two_whites: "bit w 0 \<noteq> bit w 1 \<Longrightarrow> bit (otherwhite_of w) 0 \<noteq> bit (otherwhite_of w) 1"
  by (simp add: otherwhite_bit)

lemma marked_alive: "nonwhite g a \<Longrightarrow> bit (gcwhite g) 0 \<noteq> bit (gcwhite g) 1 \<Longrightarrow> alive g a"
  by (auto simp: nonwhite_ob alive_def nonwhite_survives)

lemma swept_keeps_marked:
  assumes "swept S g g'" "nonwhite g a" "bit (gcwhite g) 0 \<noteq> bit (gcwhite g) 1"
  shows "ob g' a \<noteq> None"
  using assms(1) marked_alive [OF assms(2,3)] assms(2) by (auto simp: swept_def nonwhite_ob)

lemma collected_no_dangling:
  assumes c: "collected R L g g'" and w: "bit (gcwhite g) 0 \<noteq> bit (gcwhite g) 1"
  shows "\<forall>a \<in> roots L g \<union> set (tmudata g'). alive g' a" "\<forall>a r. nonwhite g' a \<longrightarrow> r \<in> refs g' a \<longrightarrow> alive g' r"
proof -
  have w': "bit (gcwhite g') 0 \<noteq> bit (gcwhite g') 1" using c two_whites [OF w] by (simp add: collected_def)
  show "\<forall>a \<in> roots L g \<union> set (tmudata g'). alive g' a"
    using c marked_alive [OF _ w'] unfolding collected_def all_marked_def by blast
  show "\<forall>a r. nonwhite g' a \<longrightarrow> r \<in> refs g' a \<longrightarrow> alive g' r"
    using c marked_alive [OF _ w'] unfolding collected_def consistent_def all_marked_def by blast
qed

lemma unreachable_dead:
  assumes c: "collected R L g g'" and w: "bit (gcwhite g) 0 \<noteq> bit (gcwhite g) 1"
    and x: "ob g a = Some x" "marked x = white_of (gcwhite g)" "kind_at g a \<noteq> Some KUserdata" "a \<notin> R"
  shows "\<not> alive g' a"
proof -
  have o: "ob g' a = Some x" and g': "gcwhite g' = otherwhite_of (gcwhite g)" using c x by (simp_all add: collected_def)
  have "dead_mark (gcwhite g') (marked x)" using w by (auto simp: g' x(2) dead_mark_bits white_of_bit otherwhite_bit)
  then have "\<not> survives (gcwhite g') (marked x)"
    by (rule dead_not_survives) (use two_whites [OF w] in \<open>simp_all add: g' x(2) white_of_bit\<close>)
  then show ?thesis using o by (simp add: alive_def)
qed

lemma unreachable_string_freed:
  assumes r: "mark_ready R L g" and w: "bit (gcwhite g) 0 \<noteq> bit (gcwhite g) 1"
    and x: "ob g a = Some x" "marked x = white_of (gcwhite g)" "a \<notin> R"
    and i: "i < length (hash_lists g)" "a \<in> set (hash_lists g ! i)"
    and l: "\<forall>a \<in> set (hash_lists g ! i). kind_at g a = Some KString" "distinct (hash_lists g ! i)"
  shows "\<exists>g1 g2. mark_phase H L g = Inr g1 \<and> sweep_bucket H i g1 = Inr g2 \<and> ob g2 a = None \<and>
    (\<forall>c. nonwhite g1 c \<longrightarrow> ob g2 c \<noteq> None)"
proof -
  obtain g1 where g1: "mark_phase H L g = Inr g1" "collected R L g g1" using mark_phase_collects [OF r] by blast
  have same: "hash_lists g1 = hash_lists g" "kind_at g1 = kind_at g" "gcwhite g1 = otherwhite_of (gcwhite g)"
    using g1(2) by (simp_all add: collected_def)
  have "kind_at g a \<noteq> Some KUserdata" using l(1) i(2) by auto
  then have dead: "\<not> alive g1 a" by (rule unreachable_dead [OF g1(2) w x(1,2) _ x(3)])
  obtain g2 where g2: "sweep_bucket H i g1 = Inr g2" "swept (set (hash_lists g1 ! i)) g1 g2"
    using sweep_bucket_ok [of i g1 H] i(1) l by (auto simp: same)
  have "ob g2 a = None" using g2(2) dead i(2) by (simp add: swept_def same)
  moreover have "ob g2 c \<noteq> None" if "nonwhite g1 c" for c
    using swept_keeps_marked [OF g2(2) that] two_whites [OF w] by (simp add: same)
  ultimately show ?thesis using g1(1) g2(1) by blast
qed

end
