(* ===== verification/LGC_Upval.thy ===== *)
theory LGC_Upval
  imports LGC_Trav
begin

text \<open>
  The open upvalues of a thread: lfunc.c keeps them ordered by falling levels, one for each slot.
\<close>

definition level_of :: "gc_State \<Rightarrow> gaddr \<Rightarrow> (gaddr \<times> nat) option" where
  "level_of g u = (case ob g u of
       None \<Rightarrow> None
     | Some x \<Rightarrow> (case obj_body x of BUpval w \<Rightarrow> (case w of Open th i \<Rightarrow> Some (th, i) | _ \<Rightarrow> None) | _ \<Rightarrow> None))"

definition thread_at :: "gc_State \<Rightarrow> gaddr \<Rightarrow> gthread option" where
  "thread_at g th = (case ob g th of None \<Rightarrow> None | Some x \<Rightarrow> (case obj_body x of BThread t \<Rightarrow> Some t | _ \<Rightarrow> None))"

definition open_list :: "gc_State \<Rightarrow> gaddr \<Rightarrow> gaddr list \<Rightarrow> bool" where
  "open_list g th us \<longleftrightarrow> (\<forall>u \<in> set us. \<exists>i. level_of g u = Some (th, i)) \<and>
     sorted_wrt (\<lambda>u v. snd (the (level_of g v)) < snd (the (level_of g u))) us"

definition open_ok :: "gc_State \<Rightarrow> gaddr \<Rightarrow> bool" where
  "open_ok g th \<longleftrightarrow> (case thread_at g th of None \<Rightarrow> False | Some t \<Rightarrow> open_list g th (openupval t))"

lemma level_ob:
  assumes "level_of g u = Some (th, i)"
  obtains x where "ob g u = Some x" "obj_body x = BUpval (Open th i)"
proof -
  obtain x where x: "ob g u = Some x" using assms by (cases "ob g u") (simp_all add: level_of_def)
  then obtain w where w: "obj_body x = BUpval w" using assms by (cases "obj_body x") (simp_all add: level_of_def)
  then show ?thesis using that [OF x] assms x by (cases w) (simp_all add: level_of_def)
qed

lemma open_level_ok: "level_of g u = Some (th, i) \<Longrightarrow> open_level g u = Inr i"
  by (erule level_ob) (simp add: open_level_def)

lemma find_open_ok:
  "open_list g th us \<Longrightarrow> \<exists>r. find_open g level us = Inr r \<and>
     (case r of
        Inl p \<Rightarrow> p \<in> set us \<and> level_of g p = Some (th, level)
      | Inr (xs, ys) \<Rightarrow> us = xs @ ys \<and> (\<forall>u \<in> set xs. level < snd (the (level_of g u))) \<and>
          (\<forall>u \<in> set ys. snd (the (level_of g u)) < level))"
proof (induction us)
  case Nil
  then show ?case by simp
next
  case (Cons u us)
  then obtain i where i: "level_of g u = Some (th, i)" and tl: "open_list g th us"
    and below: "\<forall>w \<in> set us. snd (the (level_of g w)) < i" by (auto simp: open_list_def)
  note l = open_level_ok [OF i]
  consider "i < level" | "i = level" | "level < i" by linarith
  then show ?case
  proof cases
    case 1
    then show ?thesis using below i l by auto
  next
    case 2
    then show ?thesis using i l by simp
  next
    case 3
    obtain r where r: "find_open g level us = Inr r" "case r of
        Inl p \<Rightarrow> p \<in> set us \<and> level_of g p = Some (th, level)
      | Inr (xs, ys) \<Rightarrow> us = xs @ ys \<and> (\<forall>u \<in> set xs. level < snd (the (level_of g u))) \<and>
          (\<forall>u \<in> set ys. snd (the (level_of g u)) < level)" using Cons.IH [OF tl] by blast
    then show ?thesis using 3 i l by (cases r) (auto split: prod.splits)
  qed
qed

lemma open_list_insert:
  assumes l: "open_list g th (xs @ ys)" and a: "level_of g a = Some (th, level)"
    and x: "\<forall>u \<in> set xs. level < snd (the (level_of g u))" and y: "\<forall>u \<in> set ys. snd (the (level_of g u)) < level"
  shows "open_list g th (xs @ a # ys)"
  using l a x y by (auto simp: open_list_def sorted_wrt_append)

lemma open_list_cong: "(\<And>u. u \<in> set us \<Longrightarrow> level_of g' u = level_of g u) \<Longrightarrow> open_list g' th us = open_list g th us"
  by (induction us) (auto simp: open_list_def)

text \<open>The upvalue of a slot: the one that is in the list, or a new one at its place.\<close>

lemma findupval_ok:
  assumes o: "open_ok g th" and f: "fresh_addr a g"
  shows "\<exists>g' u. luaF_findupval a th level g = Inr (g', u) \<and> open_ok g' th \<and> level_of g' u = Some (th, level) \<and>
    (\<exists>t'. thread_at g' th = Some t' \<and> u \<in> set (openupval t')) \<and>
    ((\<exists>t p. thread_at g th = Some t \<and> p \<in> set (openupval t) \<and> level_of g p = Some (th, level)) \<longrightarrow>
       u \<noteq> a \<and> ob g' a = None)"
proof -
  obtain x t where x: "ob g th = Some x" "obj_body x = BThread t" and t: "thread_at g th = Some t" "open_list g th (openupval t)"
  proof -
    obtain x where x: "ob g th = Some x" using o by (cases "ob g th") (simp_all add: open_ok_def thread_at_def)
    then obtain t where "obj_body x = BThread t" using o by (cases "obj_body x") (simp_all add: open_ok_def thread_at_def)
    then show ?thesis using that x o by (simp add: open_ok_def thread_at_def)
  qed
  have gt: "get_thread g th = Inr t" using x by (simp add: get_thread_def)
  have fresh: "ob g a = None" "a < length (objs g)" using f by (auto simp: fresh_addr_def ob_def)
  have la: "level_of g a = None" using fresh by (simp add: level_of_def)
  obtain r where r: "find_open g level (openupval t) = Inr r" "case r of
        Inl p \<Rightarrow> p \<in> set (openupval t) \<and> level_of g p = Some (th, level)
      | Inr (xs, ys) \<Rightarrow> openupval t = xs @ ys \<and> (\<forall>u \<in> set xs. level < snd (the (level_of g u))) \<and>
          (\<forall>u \<in> set ys. snd (the (level_of g u)) < level)" using find_open_ok [OF t(2)] by blast
  show ?thesis
  proof (cases r)
    case (Inl p)
    then have p: "p \<in> set (openupval t)" "level_of g p = Some (th, level)" using r(2) by simp_all
    from p(2) obtain y where y: "ob g p = Some y" "obj_body y = BUpval (Open th level)" by (rule level_ob)
    define g' where "g' = (if dead_mark (gcwhite g) (marked y) then set_obj p (y\<lparr>marked := change_white (marked y)\<rparr>) g else g)"
    have run: "luaF_findupval a th level g = Inr (g', p)"
      using r(1) Inl y(1) by (simp add: luaF_findupval_def gt upd_mark_ob g'_def)
    have bodies: "map_option obj_body (ob g' c) = map_option obj_body (ob g c)" for c
      using y(1) ob_set_obj [OF ob_length [OF y(1)]] by (simp add: g'_def)
    have lev: "level_of g' c = level_of g c" for c
      using bodies [of c] by (cases "ob g c"; cases "ob g' c") (simp_all add: level_of_def)
    have th: "thread_at g' th = thread_at g th"
      using bodies [of th] by (cases "ob g th"; cases "ob g' th") (simp_all add: thread_at_def)
    have "open_ok g' th" using t open_list_cong [of "openupval t" g' g th] lev by (simp add: open_ok_def th)
    moreover have "ob g' a = None" using bodies [of a] fresh by simp
    moreover have "p \<noteq> a" using p(2) la by auto
    ultimately show ?thesis using run p t(1) lev th by auto
  next
    case (Inr xy)
    then obtain xs ys where xy: "r = Inr (xs, ys)" by (cases xy) simp
    then have parts: "openupval t = xs @ ys" "\<forall>u \<in> set xs. level < snd (the (level_of g u))"
      "\<forall>u \<in> set ys. snd (the (level_of g u)) < level" using r(2) by simp_all
    define g1 where "g1 = g\<lparr>objs := (objs g)[a := Some \<lparr>marked = white_of (gcwhite g), obj_body = BUpval (Open th level)\<rparr>],
      uvhead := a # uvhead g\<rparr>"
    have "a \<noteq> th" using fresh x by auto
    have o1: "ob g1 c = (if c = a then Some \<lparr>marked = white_of (gcwhite g), obj_body = BUpval (Open th level)\<rparr> else ob g c)" for c
      using fresh(2) by (simp add: g1_def ob_def)
    then have x1: "ob g1 th = Some x" using x \<open>a \<noteq> th\<close> by simp
    define t' where "t' = t\<lparr>openupval := xs @ a # ys\<rparr>"
    define g2 where "g2 = set_obj th (x\<lparr>obj_body := BThread t'\<rparr>) g1"
    have o2: "ob g2 c = (if c = th then Some (x\<lparr>obj_body := BThread t'\<rparr>) else ob g1 c)" for c
      using ob_set_obj [OF ob_length [OF x1]] by (simp add: g2_def)
    have run: "luaF_findupval a th level g = Inr (g2, a)"
      using r(1) xy x1 by (simp add: luaF_findupval_def gt Let_def g1_def [symmetric] upd_body_ob g2_def t'_def)
    have lev: "level_of g2 c = (if c = a then Some (th, level) else level_of g c)" for c
      using x \<open>a \<noteq> th\<close> by (simp add: level_of_def o2 o1)
    have th: "thread_at g2 th = Some t'" by (simp add: thread_at_def o2)
    have na: "a \<notin> set (xs @ ys)" using t(2) la unfolding open_list_def parts(1) by (metis option.distinct(1))
    have "open_list g2 th (xs @ ys)"
      using t(2) open_list_cong [of "xs @ ys" g2 g th] lev na unfolding parts(1) by (metis)
    then have "open_list g2 th (xs @ a # ys)"
      by (rule open_list_insert [where level = level]) (use parts lev na in auto)
    then have ok: "open_ok g2 th" by (simp add: open_ok_def th t'_def)
    have none: "\<not> (\<exists>t p. thread_at g th = Some t \<and> p \<in> set (openupval t) \<and> level_of g p = Some (th, level))"
      using t(1) parts by force
    show ?thesis using run ok lev [of a] th none by (auto simp: t'_def)
  qed
qed

section \<open>Closing\<close>

lemma heap_valid_store:
  assumes v: "heap_valid g" and x: "ob g a = Some x" and k: "kind_of b = kind_of (obj_body x)" "kind_of b \<noteq> KThread"
    and b: "shape_ok g b" "\<forall>wr \<in> set (trefs g b). target_ok g wr" and g1: "ob g1 = (ob g)(a := Some (x\<lparr>obj_body := b\<rparr>))"
  shows "heap_valid g1" "stack_of g1 = stack_of g" "kind_at g1 = kind_at g"
proof -
  have nt: "\<nexists>t. b = BThread t" "\<nexists>t. obj_body x = BThread t" using k by auto
  have "stack_of g1 th = stack_of g th" for th using x nt by (auto simp: stack_of_def g1 split: gbody.splits)
  then show st: "stack_of g1 = stack_of g" by blast
  note tr = stack_trefs [OF st]
  show kk: "kind_at g1 = kind_at g" using x k(1) by (simp add: fun_eq_iff kind_at_def g1)
  have tk: "target_ok g1 = target_ok g" by (simp add: fun_eq_iff target_ok_def kk)
  show "heap_valid g1"
    unfolding heap_valid_def
  proof (intro allI impI)
    fix c y assume y: "ob g1 c = Some y"
    show "body_ok g1 (obj_body y)"
    proof (cases "c = a")
      case True
      then show ?thesis using y b by (auto simp: g1 body_ok_def tr tk list_all_iff)
    next
      case False
      then show ?thesis using y v by (simp add: g1 heap_valid_def body_ok_def tr tk)
    qed
  qed
qed

definition not_dead :: "gc_State \<Rightarrow> gaddr \<Rightarrow> bool" where
  "not_dead g c \<longleftrightarrow> (case ob g c of None \<Rightarrow> False | Some x \<Rightarrow> \<not> dead_mark (gcwhite g) (marked x))"

definition stays :: "gc_State \<Rightarrow> gc_State \<Rightarrow> bool" where
  "stays g g' \<longleftrightarrow> gcwhite g' = gcwhite g \<and> (\<forall>c. not_dead g c \<longrightarrow> not_dead g' c)"

lemma stays_refl [simp]: "stays g g"
  by (simp add: stays_def)

lemma stays_trans: "stays g g1 \<Longrightarrow> stays g1 g2 \<Longrightarrow> stays g g2"
  by (simp add: stays_def)

lemma nonwhite_not_dead: "\<not> iswhite m \<Longrightarrow> \<not> dead_mark w m"
  by (auto simp: color_bits dead_mark_bits)

lemma stays_mark:
  assumes x: "ob g u = Some x" and m: "\<not> dead_mark (gcwhite g) (marked x) \<Longrightarrow> \<not> dead_mark (gcwhite g) m"
  shows "stays g (set_obj u (x\<lparr>marked := m\<rparr>) g)" "same_bodies g (set_obj u (x\<lparr>marked := m\<rparr>) g)"
proof -
  let ?g = "set_obj u (x\<lparr>marked := m\<rparr>) g"
  have f: "gcwhite ?g = gcwhite g" by (simp add: set_obj_def)
  show "stays g ?g" unfolding stays_def not_dead_def f using x m by auto
  show "same_bodies g ?g" by (rule set_mark_bodies [OF x])
qed

lemma marks_stays: "marks R g g' \<Longrightarrow> stays g g'"
proof -
  assume m: "marks R g g'"
  obtain new where f: "g' = g\<lparr>objs := objs g', gray := new @ gray g\<rparr>" using m by (auto simp: marks_def)
  have "not_dead g' c" if "not_dead g c" for c
  proof -
    have "mark_point R g g' c" using m by (simp add: marks_def)
    then show ?thesis using that arg_cong [OF f, of gcwhite]
      by (auto simp: mark_point_def not_dead_def nonwhite_not_dead split: option.splits)
  qed
  with arg_cong [OF f, of gcwhite] show "stays g g'" by (simp add: stays_def)
qed

text \<open>A closed upvalue enters the list of all objects; only colours change.\<close>

lemma linkupval_ok:
  assumes v: "heap_valid g" and x: "ob g u = Some x" "obj_body x = BUpval (Closed w)"
  shows "\<exists>g'. luaC_linkupval u g = Inr g' \<and> same_bodies g g' \<and> stays g g'"
proof -
  define g0 where "g0 = g\<lparr>rootgc := u # rootgc g\<rparr>"
  have o0: "ob g0 = ob g" by (simp add: g0_def)
  have w0: "gcwhite g0 = gcwhite g" by (simp add: g0_def)
  have s0: "same_bodies g g0" "stays g g0"
    unfolding same_bodies_def stays_def not_dead_def o0 w0 by simp_all
  have bodies: "same_bodies g g'" if "same_bodies g0 g'" for g' using that by (simp add: same_bodies_def o0)
  show ?thesis
  proof (cases "isgray (marked x)")
    case False
    then have "luaC_linkupval u g = Inr g0" using x by (simp add: luaC_linkupval_def Let_def g0_def)
    then show ?thesis using s0 by blast
  next
    case gray: True
    show ?thesis
    proof (cases "phase g = GCpropagate")
      case False
      let ?m = "make_white (gcwhite g0) (marked x)"
      have "\<not> dead_mark (gcwhite g0) ?m" by (simp add: dead_mark_bits make_white_bit)
      then have st: "stays g0 (set_obj u (x\<lparr>marked := ?m\<rparr>) g0)" "same_bodies g0 (set_obj u (x\<lparr>marked := ?m\<rparr>) g0)"
        using stays_mark [of g0 u x ?m] x o0 by simp_all
      have "luaC_linkupval u g = Inr (set_obj u (x\<lparr>marked := ?m\<rparr>) g0)"
        using gray False x by (simp add: luaC_linkupval_def Let_def g0_def makewhite_def upd_mark_ob)
      then show ?thesis using st bodies stays_trans [OF s0(2)] by blast
    next
      case True
      define y where "y = x\<lparr>marked := gray2black (marked x)\<rparr>"
      define g1 where "g1 = set_obj u y g0"
      have nx: "\<not> dead_mark (gcwhite g0) (gray2black (marked x))" by (rule nonwhite_not_dead) (use gray in \<open>simp add: isgray_def\<close>)
      have st: "stays g0 g1" "same_bodies g0 g1"
        using stays_mark [of g0 u x "gray2black (marked x)"] x o0 nx by (simp_all add: g1_def y_def)
      have o1: "ob g1 u = Some y" using x o0 by (simp add: g1_def)
      have v1: "heap_valid g1" using v same_bodies_refs(5) [OF bodies [OF st(2)]] by simp
      have ph: "phase g1 = GCpropagate" using True by (simp add: g1_def g0_def set_obj_def)
      have eq: "luaC_linkupval u g = luaC_barrier u w g1"
        using gray True x o0 by (simp add: luaC_linkupval_def Let_def g0_def upd_mark_ob g1_def y_def)
      have "\<exists>g2. luaC_barrier u w g1 = Inr g2 \<and> marks UNIV g1 g2"
      proof (cases w)
        case (Ref r)
        have "(AnyValue, r) \<in> set (trefs g1 (obj_body y))" using x(2) by (simp add: y_def Ref)
        then have "target_ok g1 (AnyValue, r)" using body_okD [OF v1 o1] by blast
        then obtain z where z: "ob g1 r = Some z" by (cases "ob g1 r") (auto simp: target_ok_def kind_at_def)
        show ?thesis
        proof (cases "iswhite (marked z)")
          case True
          have c: "closed UNIV g1" by (simp add: closed_def)
          have "white g1 r" using True z by (simp add: white_def)
          then obtain g2 where "reallymarkobject r g1 = Inr g2" "marks UNIV g1 g2"
            using reallymarkobject_ok [OF v1 c UNIV_I] by blast
          moreover have "isblack (marked y)" by (simp add: y_def)
          ultimately show ?thesis using True Ref z o1 ph by (simp add: luaC_barrier_def val_is_white_def luaC_barrierf_def)
        next
          case False
          then show ?thesis using Ref z o1 marks_refl by (simp add: luaC_barrier_def val_is_white_def)
        qed
      qed (use o1 marks_refl in \<open>simp_all add: luaC_barrier_def val_is_white_def\<close>)
      then obtain g2 where g2: "luaC_barrier u w g1 = Inr g2" "marks UNIV g1 g2" by blast
      have "same_bodies g1 g2" by (rule marks_bodies [OF g2(2)])
      then have "same_bodies g g2" using bodies [OF st(2)] by (simp add: same_bodies_def)
      moreover have "stays g g2" by (rule stays_trans [OF stays_trans [OF s0(2) st(1)] marks_stays [OF g2(2)]])
      ultimately show ?thesis using eq g2(1) by auto
    qed
  qed
qed

text \<open>One open upvalue is closed: it holds the value of its slot.\<close>

definition closed_body :: "gc_State \<Rightarrow> gaddr \<Rightarrow> gbody option" where
  "closed_body g u = (case level_of g u of
       Some (th, i) \<Rightarrow> Some (BUpval (Closed (stack_of g th ! i)))
     | None \<Rightarrow> None)"

lemma close_one:
  assumes v: "heap_valid g" and u: "level_of g u = Some (th, i)"
    and x: "ob g u = Some x" "obj_body x = BUpval w"
  shows "\<exists>g'. ebind (upval_value g w) (\<lambda>val. ebind (upd_body u (BUpval (Closed val)) (unlinkupval u g)) (luaC_linkupval u)) = Inr g' \<and>
    heap_valid g' \<and> stays g g' \<and> stack_of g' = stack_of g \<and>
    (\<forall>c. map_option obj_body (ob g' c) = (if c = u then closed_body g u else map_option obj_body (ob g c)))"
proof -
  have w: "w = Open th i" using u x by (auto simp: level_of_def split: upv.splits)
  let ?val = "stack_of g th ! i"
  note ok = body_okD [OF v x(1)]
  have i: "i < length (stack_of g th)" using ok by (simp add: x(2) w)
  have nd: "?val \<noteq> DeadK" by (rule stack_no_dead [OF v i])
  have val: "upval_value g w = Inr ?val"
  proof -
    obtain t y where "ob g th = Some y" "obj_body y = BThread t" "stack_of g th = stack t"
      using i by (cases "ob g th") (auto simp: stack_of_def split: gbody.splits)
    then show ?thesis using i by (simp add: upval_value_def w)
  qed
  define g0 where "g0 = unlinkupval u g"
  have o0: "ob g0 = ob g" by (simp add: g0_def unlinkupval_def)
  define y where "y = x\<lparr>obj_body := BUpval (Closed ?val)\<rparr>"
  define g1 where "g1 = set_obj u y g0"
  have x0: "ob g0 u = Some x" by (simp add: o0 x)
  have o1: "ob g1 = (ob g)(u := Some (x\<lparr>obj_body := BUpval (Closed ?val)\<rparr>))" using x0 by (simp add: g1_def y_def o0)
  have up: "upd_body u (BUpval (Closed ?val)) g0 = Inr g1" by (simp add: upd_body_ob [OF x0] g1_def y_def)
  have "\<forall>wr \<in> set (trefs g (BUpval (Closed ?val))). target_ok g wr" using ok i by (simp add: x(2) w)
  note st = heap_valid_store [OF v x(1), of "BUpval (Closed ?val)" g1, unfolded x(2) kind_of.simps, OF refl _ _ this o1]
  have v1: "heap_valid g1" "stack_of g1 = stack_of g" by (rule st; simp add: nd)+
  have gw: "gcwhite g1 = gcwhite g" by (simp add: g1_def g0_def unlinkupval_def set_obj_def)
  have s1: "stays g g1" unfolding stays_def not_dead_def gw o1 using x(1) by auto
  have y1: "ob g1 u = Some y" "obj_body y = BUpval (Closed ?val)" using o1 by (simp_all add: y_def)
  obtain g2 where g2: "luaC_linkupval u g1 = Inr g2" "same_bodies g1 g2" "stays g1 g2"
    using linkupval_ok [OF v1(1) y1] by blast
  have "heap_valid g2" "stack_of g2 = stack_of g"
    using v1 same_bodies_refs(5) [OF g2(2)] same_bodies_stack [OF g2(2)] by simp_all
  moreover have "map_option obj_body (ob g2 c) = (if c = u then closed_body g u else map_option obj_body (ob g c))" for c
    using g2(2) u by (simp add: same_bodies_def o1 closed_body_def)
  ultimately show ?thesis using val up g2(1) stays_trans [OF s1 g2(3)] by (auto simp: g0_def)
qed

text \<open>\<^verbatim>\<open>luaF_close\<close> when no upvalue of the thread is dead.\<close>

definition closing :: "gc_State \<Rightarrow> gaddr \<Rightarrow> nat \<Rightarrow> gaddr \<Rightarrow> bool" where
  "closing g th level u \<longleftrightarrow> (case level_of g u of Some (t, i) \<Rightarrow> t = th \<and> level \<le> i | None \<Rightarrow> False)"

lemma level_bodies: "map_option obj_body (ob g' c) = map_option obj_body (ob g c) \<Longrightarrow> level_of g' c = level_of g c"
  by (cases "ob g c"; cases "ob g' c") (simp_all add: level_of_def)

lemma close_list_ok:
  "heap_valid g \<Longrightarrow> open_list g th us \<Longrightarrow> \<forall>u \<in> set us. not_dead g u \<Longrightarrow>
   \<exists>g'. close_list H level us g = Inr (g', filter (\<lambda>u. \<not> closing g th level u) us) \<and> heap_valid g' \<and> stack_of g' = stack_of g \<and>
     (\<forall>c. map_option obj_body (ob g' c) = (if c \<in> set us \<and> closing g th level c then closed_body g c else map_option obj_body (ob g c)))"
proof (induction us arbitrary: g)
  case Nil
  then show ?case by simp
next
  case (Cons u us)
  obtain i where i: "level_of g u = Some (th, i)" and tl: "open_list g th us"
    and below: "\<forall>w \<in> set us. snd (the (level_of g w)) < i" using Cons.prems(2) by (auto simp: open_list_def)
  have all: "\<exists>j. level_of g w = Some (th, j)" if "w \<in> set (u # us)" for w using Cons.prems(2) that by (auto simp: open_list_def)
  from i obtain x where x: "ob g u = Some x" "obj_body x = BUpval (Open th i)" by (rule level_ob)
  show ?case
  proof (cases "i < level")
    case True
    have "\<not> closing g th level w" if "w \<in> set (u # us)" for w
      using all [OF that] below i True that by (fastforce simp: closing_def)
    then show ?thesis using True Cons.prems(1) open_level_ok [OF i] by (auto simp: filter_id_conv)
  next
    case False
    have nd: "\<not> dead_mark (gcwhite g) (marked x)" using Cons.prems(3) x by (simp add: not_dead_def)
    obtain g1 where g1: "ebind (upval_value g (Open th i)) (\<lambda>val. ebind (upd_body u (BUpval (Closed val)) (unlinkupval u g)) (luaC_linkupval u)) = Inr g1"
      "heap_valid g1" "stays g g1" "stack_of g1 = stack_of g"
      "\<forall>c. map_option obj_body (ob g1 c) = (if c = u then closed_body g u else map_option obj_body (ob g c))"
      using close_one [OF Cons.prems(1) i x] by blast
    have nu: "u \<notin> set us" using below i by auto
    have lev: "level_of g1 c = level_of g c" if "c \<noteq> u" for c using g1(5) that by (intro level_bodies) simp
    have cl: "closing g1 th level c = closing g th level c" "closed_body g1 c = closed_body g c" if "c \<noteq> u" for c
      unfolding closing_def closed_body_def g1(4) lev [OF that] by (rule refl)+
    have "open_list g1 th us" using tl open_list_cong [of us g1 g th] lev nu by metis
    moreover have "\<forall>w \<in> set us. not_dead g1 w" using Cons.prems(3) g1(3) by (simp add: stays_def)
    ultimately obtain g2 where g2: "close_list H level us g1 = Inr (g2, filter (\<lambda>u. \<not> closing g1 th level u) us)" "heap_valid g2"
      "stack_of g2 = stack_of g1"
      "\<forall>c. map_option obj_body (ob g2 c) = (if c \<in> set us \<and> closing g1 th level c then closed_body g1 c else map_option obj_body (ob g1 c))"
      using Cons.IH [OF g1(2)] by blast
    have f: "filter (\<lambda>u. \<not> closing g1 th level u) us = filter (\<lambda>u. \<not> closing g th level u) us"
      using nu by (intro filter_cong [OF refl]) (metis cl(1))
    have cu: "closing g th level u" using i False by (simp add: closing_def)
    have run: "close_list H level (u # us) g = Inr (g2, filter (\<lambda>u. \<not> closing g th level u) us)"
      using False nd x g1(1) g2(1) f open_level_ok [OF i] by simp
    have "map_option obj_body (ob g2 c) = (if c \<in> set (u # us) \<and> closing g th level c then closed_body g c else map_option obj_body (ob g c))" for c
    proof (cases "c = u")
      case True
      then show ?thesis using g2(4) g1(5) nu cu by simp
    next
      case False
      then show ?thesis using g2(4) g1(5) cl [OF False] by simp
    qed
    then show ?thesis using run g2(2,3) g1(4) cu by simp
  qed
qed

lemma luaF_close_ok:
  assumes v: "heap_valid g" and o: "open_ok g th" and t: "thread_at g th = Some t" and d: "\<forall>u \<in> set (openupval t). not_dead g u"
  shows "\<exists>g'. luaF_close H th level g = Inr g' \<and> open_ok g' th \<and>
    thread_at g' th = Some (t\<lparr>openupval := filter (\<lambda>u. \<not> closing g th level u) (openupval t)\<rparr>) \<and>
    (\<forall>u \<in> set (openupval t). closing g th level u \<longrightarrow>
       (\<exists>x'. ob g' u = Some x' \<and> obj_body x' = BUpval (Closed (stack t ! snd (the (level_of g u)))))) \<and>
    (\<forall>c. c \<noteq> th \<longrightarrow> \<not> (c \<in> set (openupval t) \<and> closing g th level c) \<longrightarrow> map_option obj_body (ob g' c) = map_option obj_body (ob g c))"
proof -
  obtain x where x: "ob g th = Some x" "obj_body x = BThread t"
    using t by (cases "ob g th") (auto simp: thread_at_def split: gbody.splits)
  have ol: "open_list g th (openupval t)" using o t by (simp add: open_ok_def)
  let ?rest = "filter (\<lambda>u. \<not> closing g th level u) (openupval t)"
  obtain g1 where g1: "close_list H level (openupval t) g = Inr (g1, ?rest)" "heap_valid g1"
    "\<forall>c. map_option obj_body (ob g1 c) = (if c \<in> set (openupval t) \<and> closing g th level c then closed_body g c else map_option obj_body (ob g c))"
    using close_list_ok [OF v ol d] by blast
  have nth: "\<not> closing g th level th" using x by (simp add: closing_def level_of_def)
  then have "map_option obj_body (ob g1 th) = Some (BThread t)" using g1(3) x by simp
  then obtain x1 where x1: "ob g1 th = Some x1" "obj_body x1 = BThread t" by auto
  define g2 where "g2 = set_obj th (x1\<lparr>obj_body := BThread (t\<lparr>openupval := ?rest\<rparr>)\<rparr>) g1"
  have o2: "ob g2 = (ob g1)(th := Some (x1\<lparr>obj_body := BThread (t\<lparr>openupval := ?rest\<rparr>)\<rparr>))" using x1 by (simp add: g2_def)
  have run: "luaF_close H th level g = Inr g2"
    using x g1(1) x1 by (simp add: luaF_close_def get_thread_def upd_body_ob g2_def)
  have th2: "thread_at g2 th = Some (t\<lparr>openupval := ?rest\<rparr>)" by (simp add: thread_at_def o2)
  have st: "stack_of g th = stack t" using x by (simp add: stack_of_def)
  have closed: "\<exists>x'. ob g2 u = Some x' \<and> obj_body x' = BUpval (Closed (stack t ! snd (the (level_of g u))))"
    if u: "u \<in> set (openupval t)" "closing g th level u" for u
  proof -
    have "u \<noteq> th" using u nth by auto
    moreover have "closed_body g u = Some (BUpval (Closed (stack t ! snd (the (level_of g u)))))"
      using u(2) by (auto simp: closed_body_def closing_def st split: option.splits)
    ultimately have "map_option obj_body (ob g2 u) = Some (BUpval (Closed (stack t ! snd (the (level_of g u)))))"
      using g1(3) u by (simp add: o2)
    then show ?thesis by auto
  qed
  have rest: "map_option obj_body (ob g2 c) = map_option obj_body (ob g c)"
    if "c \<noteq> th" "\<not> (c \<in> set (openupval t) \<and> closing g th level c)" for c using g1(3) that by (auto simp: o2)
  have "open_list g th ?rest" using ol by (auto simp: open_list_def sorted_wrt_filter)
  moreover have "level_of g2 u = level_of g u" if "u \<in> set ?rest" for u
  proof -
    have "u \<noteq> th" using that ol x by (auto simp: open_list_def level_of_def)
    then show ?thesis using rest that by (intro level_bodies) simp
  qed
  ultimately have "open_ok g2 th" using open_list_cong [of ?rest g2 g th] by (simp add: open_ok_def th2)
  then show ?thesis using run th2 closed rest by blast
qed

end
