(* ===== verification/LGC_Example.thy ===== *)
theory LGC_Example
  imports LGC_Sweep LGC_Upval
begin

text \<open>
  Two small heaps on which the collector's theorems are applied, and the predicates over all addresses
  as tests of the list of objects.
\<close>

lemma all_objs:
  "(\<forall>a x. ob g a = Some x \<longrightarrow> P x) \<longleftrightarrow> list_all (\<lambda>z. case z of None \<Rightarrow> True | Some x \<Rightarrow> P x) (objs g)"
  unfolding list_all_length ob_def by (auto split: option.splits)

lemma heap_valid_list:
  "heap_valid g \<longleftrightarrow> list_all (\<lambda>z. case z of None \<Rightarrow> True | Some x \<Rightarrow> body_ok g (obj_body x)) (objs g)"
  unfolding heap_valid_def by (rule all_objs)

lemma all_white_list:
  "(\<forall>c. \<not> nonwhite g c) \<longleftrightarrow> list_all (\<lambda>z. case z of None \<Rightarrow> True | Some x \<Rightarrow> iswhite (marked x)) (objs g)"
  unfolding all_objs [symmetric] nonwhite_ob by blast

lemma tri_list:
  "tri U g \<longleftrightarrow> list_all (\<lambda>c. nonwhite g c \<longrightarrow> settled g c \<or> c \<in> set (gray g) \<or> c \<in> U) [0..<length (objs g)]"
proof -
  have "c < length (objs g)" if "nonwhite g c" for c using that ob_length by (auto simp: nonwhite_ob)
  then show ?thesis unfolding tri_def list_all_iff by auto
qed

lemma executable [code]:
  "container_at g a \<longleftrightarrow> (case kind_at g a of None \<Rightarrow> False | Some k \<Rightarrow> k \<in> {KTable, KFunction, KThread, KProto})"
  "unfinalized g u \<longleftrightarrow> (case ob g u of None \<Rightarrow> False | Some x \<Rightarrow> \<not> isfinalized (marked x))"
  "gray_upvals g = set (filter (\<lambda>u. case ob g u of None \<Rightarrow> False | Some x \<Rightarrow> isgray (marked x)) (uvhead g))"
  "open_list h th us \<longleftrightarrow> (\<forall>u \<in> set us. case level_of h u of None \<Rightarrow> False | Some ti \<Rightarrow> fst ti = th) \<and>
     sorted_wrt (\<lambda>u v. snd (the (level_of h v)) < snd (the (level_of h u))) us"
  by (auto simp: container_at_def unfinalized_def gray_upvals_def open_list_def split: option.splits)

text \<open>
  At rest: the main thread (0), the globals (1) with one string key (2), a string nothing refers to (3),
  an unused address.  The current white is the first; the bit of fixed objects is set in it.
\<close>

definition rest_heap :: gc_State where
  "rest_heap = \<lparr>
     objs = [Some \<lparr>marked = 33, obj_body = BThread \<lparr>l_gt = Ref 1, stack = [Ref 1, NilV, NilV], th_top = 1, ci_tops = [1], openupval = []\<rparr>\<rparr>,
             Some \<lparr>marked = 1, obj_body = BTable None [] [(Ref 2, ImmV)]\<rparr>,
             Some \<lparr>marked = 1, obj_body = BString [120]\<rparr>, Some \<lparr>marked = 1, obj_body = BString [121]\<rparr>, None],
     gcwhite = 33, phase = GCpause, hash_lists = [[2, 3]], nuse = 2, sweepstrgc = 0, rootgc = [1, 0], sweepgc = None,
     gray = [], grayagain = [], weak = [], tmudata = [], GCthreshold = 0, totalbytes = 1000, estimate = 1000, gcdept = 0,
     gcpause = 200, gcstepmul = 200, registry = Ref 1, mainthread = 0, uvhead = [], basic_mt = [None],
     tmname_mode = 2, tmname_gc = 2\<rparr>"

text \<open>
  The same before \<^verbatim>\<open>atomic\<close>, with an open upvalue (4): the globals are black, the thread waits in
  \<open>grayagain\<close>, the upvalue is gray.
\<close>

definition marked_heap :: gc_State where
  "marked_heap = rest_heap\<lparr>
     objs := [Some \<lparr>marked = 32, obj_body = BThread \<lparr>l_gt = Ref 1, stack = [Ref 1, NilV, NilV], th_top = 1, ci_tops = [1], openupval = [4]\<rparr>\<rparr>,
             Some \<lparr>marked = 4, obj_body = BTable None [] [(Ref 2, ImmV)]\<rparr>,
             Some \<lparr>marked = 0, obj_body = BString [120]\<rparr>, Some \<lparr>marked = 1, obj_body = BString [121]\<rparr>,
             Some \<lparr>marked = 0, obj_body = BUpval (Open 0 0)\<rparr>, None],
     phase := GCpropagate, grayagain := [0], uvhead := [4]\<rparr>"

text \<open>After \<^verbatim>\<open>markroot\<close> has marked the thread.\<close>

definition gray_heap :: gc_State where
  "gray_heap = rest_heap\<lparr>objs := (objs rest_heap)[0 := Some \<lparr>marked = 32, obj_body = BThread \<lparr>l_gt = Ref 1,
     stack = [Ref 1, NilV, NilV], th_top = 1, ci_tops = [1], openupval = []\<rparr>\<rparr>], phase := GCpropagate, gray := [0]\<rparr>"

text \<open>A host: sizes of 40 bytes, tag methods that do nothing.\<close>

definition gc_example_host :: gc_host where
  "gc_example_host = \<lparr>traversed_size = (\<lambda>b. 40), free_size = (\<lambda>b. 40), call_gctm = (\<lambda>tm u g. Inr g)\<rparr>"

lemma rest_ready: "mark_ready {0, 1, 2} 0 rest_heap"
  unfolding mark_ready_def heap_valid_list all_white_list by code_simp

lemma gray_inv: "mark_inv {0, 1, 2} {} gray_heap"
  unfolding mark_inv_def heap_valid_list tri_list by code_simp

lemma marked_inv: "gc_inv {0, 1, 2, 3, 4} marked_heap"
  unfolding gc_inv_def mark_inv_def heap_valid_list tri_list by code_simp

lemma marked_ready: "atomic_ready {0, 1, 2, 4} 0 marked_heap"
  unfolding atomic_ready_def mark_inv_def heap_valid_list tri_list by code_simp

lemma marked_store: "store_ok {0, 1, 2, 3, 4} marked_heap 1 (BTable None [] [(Ref 2, Ref 3)]) (Ref 3)"
  by code_simp

lemma marked_valid: "heap_valid marked_heap"
  unfolding heap_valid_list by code_simp

end
