(* ===== verification/Spec2Isabelle.thy ===== *)
theory Spec2Isabelle
  imports LTabLib LStrLang LLex Random_MT LVM_Flow LUndump OscCheck LGC_Example
begin

text \<open>
  Lua2SC (directory src/) is an environment for composing with SuperCollider in Lua.  Its C and C++
  code is the Lua 5.1.5 interpreter (src/lua-5.1.5/src), a random-number module (src/random), the
  oscpack library that builds and reads the OSC packets sent to SuperCollider
  (src/oscpack_1_1_0/osc), and thin bindings.  This library models the parts of that code with
  logic of their own; PROJECT.json maps every definition to the lines it translates.

  \<^bold>\<open>Conventions.\<close>  A C function is a function on explicit state that returns \<open>'a res\<close>: a result, a
  Lua error (\<open>ErrRun\<close>, \<open>ErrSyntax\<close>), \<open>ErrUB\<close> for a step the C language does not define (a read
  outside a buffer, a null pointer) or \<open>ErrLoop\<close> when the fuel of a loop has run out.
  \<open>ends r Q\<close> says that \<open>r\<close> is a Lua error or a result with \<open>Q\<close>, and so neither of the last two:
  the theorems of this form are both the memory safety and the termination of the code.
  Machine integers are words; lua_Number is its binary64 bit pattern (LNumber).

  \<^bold>\<open>The core.\<close>  LObject has the values of lobject.h, LProto the function prototypes, LOpcodes the
  instruction words.  LString is the string table of lstring.c: strings are interned, so the other
  theories use their contents.  LTable is ltable.c: an array part and a hash part with Brent's
  variation; LTable_Inv has the invariant \<open>tinv\<close>, LTable_Ins, LTable_Set, LTable_Resize and
  LTable_Rehash prove the steps of an insertion, LTable_Ops what clients rely on, LTable_Iter
  traversal, the length operator and the collector's removeentry.  LTM has the metatables and LVM
  the operations of lvm.c that values go through: conversions, indexing with metamethods,
  comparison, concatenation.

  \<^bold>\<open>Byte code.\<close>  LDebug is the checker luaG_checkcode of ldebug.c, LVM_Flow what luaV_execute fetches
  for each instruction: checked code never leaves its code, registers, constants, upvalues and
  prototypes.  LZio is the buffered input, LDump and LUndump write and read precompiled chunks.

  \<^bold>\<open>Source text.\<close>  LLex is the lexical analyser on LZio streams.

  \<^bold>\<open>Libraries.\<close>  LTabLib is the table library, LStrMatch the pattern matcher, LStrLib and LStrFormat
  the string library, LStrLang a reference semantics of patterns, Random_MT the Mersenne Twister
  module.

  \<^bold>\<open>The heap.\<close>  LGC and LGC_Cycle are the garbage collector of lgc.c and the upvalues of lfunc.c, on a
  heap of addressed objects of which the collector sees mark bytes and references.  LGC_Inv has the
  bits of a mark, the references of objects and well-formed heaps; LGC_Mark and LGC_Trav what marking
  and traversing change; LGC_Prop and LGC_Step one step of the propagation; LGC_Tri the tricolour
  invariant \<open>mark_inv\<close> and the termination of the propagation; LGC_Atomic and LGC_Collect the atomic
  phase; LGC_Full whole mark phases and the barriers; LGC_Sweep the sweep; LGC_Upval the open upvalues;
  LGC_Example two heaps for the witnesses.  The other theories of the interpreter abstract from
  collection: their objects are values.

  \<^bold>\<open>OSC.\<close>  OscOut is the writer OutboundPacketStream of oscpack, OscIn the readers ReceivedMessage,
  ReceivedBundle and their iterators on a packet in memory.  OscSend proves that the writer stays in its
  buffer, OscEncode that what it writes is the encoding of the packet, OscReceive that the readers give
  the packet back, OscCheck what the readers check of arbitrary bytes.

  \<^bold>\<open>Fuel.\<close>  A loop without a structural measure takes fuel, and a lemma shows that the fuel the
  definitions pass is enough: the size of the node vector for the chains of a table (LTable_Inv), one
  nested rehash (\<open>newkey_n 2\<close>, LTable_Ops), the length of the pattern for the matcher
  (\<open>do_match_ends\<close>), the length of the format for string.format, the length of the subject
  for gsub, and for the analyser any number above the characters that are left (\<open>llex_ends\<close>).  Marking
  an object nests three levels (\<open>enough_all\<close>), and the propagation takes as many rounds as there are
  white and gray objects (\<open>propagate_n_inv\<close>).

  \<^bold>\<open>Interfaces.\<close>  The table library moves elements through two accesses (locale \<open>int_array\<close>, interpreted on
  LTable); the analyser reads from a source of characters (locale \<open>char_source\<close>, interpreted on the
  streams of LZio).

  \<^bold>\<open>Not modelled.\<close>  The parser and code generator, the C stack and coroutines (ldo.c), the C API
  and the libraries that only call the operating system; of the collector the changes of capacity
  (checkSizes, checkstacksizes).  The C
  library (strcoll, strtod, sprintf) and the processor's arithmetic are parameters: the record
  \<open>host\<close> of LVM and arguments such as \<open>sprintf\<close>; what a theorem needs of them is a hypothesis.

  \<^bold>\<open>The properties\<close> below are numbered C1 onwards, grouped by component.
\<close>

section \<open>Strings\<close>

text \<open>
  C1. \<^verbatim>\<open>luaS_newlstr\<close> interns: on a well-formed string table it returns a live object with the
  requested contents, keeps the table well formed (every object in the bucket of its hash, no
  contents stored twice), and keeps every string that was there at its address.\<close>

theorem luaS_newlstr_correct:
  assumes "strt_inv (strt g)" "addr_fresh addr (strt g)" "white_ok g"
    and "luaS_newlstr g addr str = (g', ts)"
  shows "strt_inv (strt g') \<and> ts \<in> set (strings (strt g')) \<and> ts_str ts = str \<and> \<not> isdead g' ts \<and>
    (\<forall>s \<in> set (strings (strt g)). \<exists>s' \<in> set (strings (strt g')).
      ts_str s' = ts_str s \<and> ts_addr s' = ts_addr s)"
  using newlstr_result [OF assms(1,2,4)] assms(3) by blast

definition empty_strings :: global_State where
  "empty_strings = \<lparr>strt = \<lparr>st_hash = replicate 32 [], st_nuse = 0, st_size = 32\<rparr>,
     currentwhite = 1, gcstate = 0\<rparr>"

lemma luaS_newlstr_correct_witness:
  "\<exists>g' ts. luaS_newlstr empty_strings 64 (lit ''x'') = (g', ts) \<and>
    (strt_inv (strt g') \<and> ts \<in> set (strings (strt g')) \<and> ts_str ts = lit ''x'' \<and> \<not> isdead g' ts \<and>
    (\<forall>s \<in> set (strings (strt empty_strings)). \<exists>s' \<in> set (strings (strt g')).
      ts_str s' = ts_str s \<and> ts_addr s' = ts_addr s))"
proof -
  obtain g' ts where r: "luaS_newlstr empty_strings 64 (lit ''x'') = (g', ts)" by fastforce
  have "strt_inv (strt empty_strings)"
    by (auto simp: strt_inv_def empty_strings_def strings_def buckets_ok_def intro!: exI [of _ 5])
  moreover have "addr_fresh 64 (strt empty_strings)" "white_ok empty_strings"
    by (simp_all add: addr_fresh_def empty_strings_def strings_def white_ok_def luaC_white_def WHITEBITS_def)
  ultimately show ?thesis using luaS_newlstr_correct r by blast
qed

section \<open>Tables\<close>

definition empty_table :: Table where
  "empty_table = \<lparr>flags = 255, lsizenode = 0, metatable = None, array = [], node = None,
     lastfree = 0, sizearray = 0\<rparr>"

lemma empty_table_new: "luaH_new 0 0 = Inr empty_table"
  by (simp add: luaH_new_def setarrayvector_def setnodevector_def empty_table_def)

lemma empty_table_inv: "tinv empty_table" "tval empty_table k = VNil"
  using luaH_new_ok [of 0 0] by (simp_all add: empty_table_new MAXASIZE_def)

text \<open>
  C2. Storing a value under a key (\<^verbatim>\<open>luaH_set\<close> and the write through the pointer it returns) ends,
  keeps the table's invariant and changes the value of that key and of no other; the only
  error on a key that is not nil and not a NaN is the overflow of the node vector, and then the key
  had no value.\<close>

theorem luaH_set_correct:
  assumes "tinv t" "live key" "\<not> isnan key"
  shows "case write_to (luaH_set t key) v of
      Inr t' \<Rightarrow> tinv t' \<and> metatable t' = metatable t \<and>
        (\<forall>k. live k \<longrightarrow> tval t' k = (if luaO_rawequalObj key k then v else tval t k))
    | Inl e \<Rightarrow> e = ErrRun ''table overflow'' \<and> tval t key = VNil"
  using luaH_set_write [OF assms, of v] by (auto simp: updated_def table_overflow_def)

lemma luaH_set_correct_witness:
  "case write_to (luaH_set empty_table (VBoolean 1)) (VNumber 5) of
      Inr t' \<Rightarrow> tinv t' \<and> metatable t' = metatable empty_table \<and>
        (\<forall>k. live k \<longrightarrow> tval t' k = (if luaO_rawequalObj (VBoolean 1) k then VNumber 5 else tval empty_table k))
    | Inl e \<Rightarrow> e = ErrRun ''table overflow'' \<and> tval empty_table (VBoolean 1) = VNil"
  by (rule luaH_set_correct) (simp_all add: empty_table_inv isnan_def)

text \<open>
  C3. A look-up on a table that satisfies the invariant ends (no chain has a cycle) and returns
  the value of the key: the one of its array slot, or of the node that holds it, or nil.\<close>

theorem luaH_get_correct:
  assumes "tinv t" "live k"
  shows "\<exists>s. luaH_get t k = Inr s \<and> slot_val t s = tval t k"
  using luaH_get_val [of t k] assms by (simp add: tinv_def)

lemma luaH_get_correct_witness:
  "\<exists>s. luaH_get empty_table (VBoolean 0) = Inr s \<and> slot_val empty_table s = tval empty_table (VBoolean 0)"
  by (rule luaH_get_correct) (simp_all add: empty_table_inv)



text \<open>
  C5. \<^verbatim>\<open>computesizes\<close> is optimal: of all powers of two \<open>2 ^ l\<close> with a key in their upper half and
  more than half of \<open>1..2 ^ l\<close> in use it returns the largest, with the number of keys that fit.\<close>

theorem computesizes_optimal:
  "case computesizes nums (sum_list nums) of (n, na) \<Rightarrow>
     (n = 0 \<and> na = 0 \<or> (\<exists>l < length nums. n = 2 ^ l \<and> na = usage nums l \<and> n div 2 < na)) \<and>
     (\<forall>l < length nums. 0 < nums ! l \<longrightarrow> 2 ^ l div 2 < usage nums l \<longrightarrow> 2 ^ l \<le> n)"
  using computesizes_ok [of nums] by (simp add: sizes_ok_def)

lemma computesizes_optimal_witness:
  "case computesizes [1, 1, 0, 1] (sum_list [1, 1, 0, 1]) of (n, na) \<Rightarrow>
     (n = 0 \<and> na = 0 \<or> (\<exists>l < length [1, 1, 0, 1 :: nat]. n = 2 ^ l \<and> na = usage [1, 1, 0, 1] l \<and> n div 2 < na)) \<and>
     (\<forall>l < length [1, 1, 0, 1 :: nat]. 0 < [1, 1, 0, 1 :: nat] ! l \<longrightarrow> 2 ^ l div 2 < usage [1, 1, 0, 1] l \<longrightarrow> 2 ^ l \<le> n)"
  by (rule computesizes_optimal)

text \<open>
  C6. The length operator returns a border: \<^verbatim>\<open>luaH_getn\<close> ends, and its result is 0 or a present
  index, with an absent successor.\<close>

theorem luaH_getn_correct:
  assumes "tinv t"
  shows "\<exists>n. luaH_getn t = Inr n \<and> (n = 0 \<or> tnum t n \<noteq> VNil) \<and> tnum t (Suc n) = VNil"
  using luaH_getn_border [OF assms] by (simp add: border_def)

lemma luaH_getn_correct_witness:
  "\<exists>n. luaH_getn empty_table = Inr n \<and> (n = 0 \<or> tnum empty_table n \<noteq> VNil) \<and> tnum empty_table (Suc n) = VNil"
  by (rule luaH_getn_correct) (rule empty_table_inv)



section \<open>Byte code\<close>

text \<open>A function of two instructions, for the witnesses.\<close>

definition two_instrs :: "Instruction \<Rightarrow> Proto" where
  "two_instrs i = Proto (info luaF_newproto
     \<lparr>p_code := [i, CREATE_ABC OP_RETURN 0 1 0], p_k := [VNumber 7, VBoolean 1, VGC (GStr (lit ''x''))],
       p_lineinfo := [1, 1], p_source := Some (lit ''@f.lua''), p_maxstacksize := 2\<rparr>) []"

lemma two_instrs_checked:
  assumes "symb_instr (two_instrs i) 2 NO_REG 0 1 = Some (0, 1)"
    "symb_instr (two_instrs i) 2 NO_REG 1 1 = Some (1, 1)" "precheck (two_instrs i)"
  shows "luaG_checkcode (two_instrs i)"
proof (rule checkcodeI)
  have "sizecode (two_instrs i) = 2" by (simp add: two_instrs_def sizecode_def)
  with assms(1,2) show "symb_loop (two_instrs i) (sizecode (two_instrs i)) NO_REG 0 (sizecode (two_instrs i) - 1) = Some 1"
    by (simp add: symb_loop_step symb_loop_end)
  have "code_at (two_instrs i) 1 = CREATE_ABC OP_RETURN 0 1 0" by (simp add: two_instrs_def code_at_def)
  moreover have "CREATE_ABC OP_RETURN 0 1 0 \<noteq> 0" by code_simp
  ultimately show "code_at (two_instrs i) 1 \<noteq> 0" by simp
qed (rule assms(3))



text \<open>
  C9. The checker tests the skip of LOADBOOL only for C = 1, the interpreter skips for every C but 0:
  a function of two instructions passes the check and sends the \<^verbatim>\<open>pc\<close> past its end.\<close>

theorem loadbool_skip_unchecked:
  "luaG_checkcode (two_instrs (CREATE_ABC OP_LOADBOOL 0 1 2)) \<and>
   vm_pc (two_instrs (CREATE_ABC OP_LOADBOOL 0 1 2)) 2 \<and>
   sizecode (two_instrs (CREATE_ABC OP_LOADBOOL 0 1 2)) = 2"
proof (intro conjI)
  let ?pt = "two_instrs (CREATE_ABC OP_LOADBOOL 0 1 2)"
  show "luaG_checkcode ?pt" by (rule two_instrs_checked; code_simp)
  have "GET_OPCODE (CREATE_ABC OP_LOADBOOL 0 1 2) = Some OP_LOADBOOL"
    "GETARG_C (CREATE_ABC OP_LOADBOOL 0 1 2) = 2" by code_simp+
  then have "vm_targets ?pt 0 = [2]" by (simp add: two_instrs_def code_at_def vm_targets_def)
  then show "vm_pc ?pt 2" using vm_fetch [OF vm_entry, of 2 ?pt] by simp
  show "sizecode ?pt = 2" by code_simp
qed

text \<open>
  C10. Encoding and decoding of instructions: the fields given to \<^verbatim>\<open>CREATE_ABC\<close> and \<^verbatim>\<open>CREATE_ABx\<close>
  are the fields the interpreter reads back, and a constant index survives \<^verbatim>\<open>RKASK\<close>.\<close>

theorem instruction_roundtrip:
  assumes "a \<le> MAXARG_A" "b \<le> MAXARG_B" "c \<le> MAXARG_C" "bx \<le> MAXARG_Bx" "k \<le> MAXINDEXRK"
  shows "GET_OPCODE (CREATE_ABC op a b c) = Some op \<and> GETARG_A (CREATE_ABC op a b c) = a \<and>
    GETARG_B (CREATE_ABC op a b c) = b \<and> GETARG_C (CREATE_ABC op a b c) = c \<and>
    GET_OPCODE (CREATE_ABx op a bx) = Some op \<and> GETARG_A (CREATE_ABx op a bx) = a \<and>
    GETARG_Bx (CREATE_ABx op a bx) = bx \<and> ISK (RKASK k) \<and> INDEXK (RKASK k) = k \<and> \<not> ISK k"
  using CREATE_ABC_fields [OF assms(1-3)] CREATE_ABx_fields [OF assms(1,4)] RKASK_roundtrip [OF assms(5)] by simp

lemma instruction_roundtrip_witness:
  "GET_OPCODE (CREATE_ABC OP_SELF 3 4 5) = Some OP_SELF \<and> GETARG_A (CREATE_ABC OP_SELF 3 4 5) = 3 \<and>
    GETARG_B (CREATE_ABC OP_SELF 3 4 5) = 4 \<and> GETARG_C (CREATE_ABC OP_SELF 3 4 5) = 5 \<and>
    GET_OPCODE (CREATE_ABx OP_SELF 3 1000) = Some OP_SELF \<and> GETARG_A (CREATE_ABx OP_SELF 3 1000) = 3 \<and>
    GETARG_Bx (CREATE_ABx OP_SELF 3 1000) = 1000 \<and> ISK (RKASK 9) \<and> INDEXK (RKASK 9) = 9 \<and> \<not> ISK 9"
  by (rule instruction_roundtrip) (simp_all add: maxarg_defs field_defs MAXINDEXRK_def BITRK_def)

section \<open>Precompiled chunks\<close>

text \<open>
  C11. Reading from a buffered stream does not depend on how the reader cuts the input into blocks:
  \<^verbatim>\<open>luaZ_read\<close> returns the next \<open>n\<close> bytes of the input and 0, or, at its end, the rest of the input
  and the number of missing bytes.\<close>

theorem luaZ_read_stream:
  assumes "zstream reader z bs"
  shows "case luaZ_read reader z n of
      Inl e \<Rightarrow> False
    | Inr (z', missing, b) \<Rightarrow>
        b = take (unat n) bs \<and> missing = n - word_of_nat (length b) \<and>
        (missing = 0 \<longrightarrow> zstream reader z' (drop (unat n) bs))"
proof (cases "unat n \<le> length bs")
  case True
  then show ?thesis using read_stream [OF assms True] by (auto simp: min_def)
next
  case False
  then have "unat n \<noteq> length bs" "length bs < 2 ^ 64" using unsigned_less [of n, where 'a = nat] by auto
  then have "n \<noteq> word_of_nat (length bs)" using unat_of_length by metis
  with False show ?thesis using read_stream_short [OF assms, of n] by auto
qed

definition two_blocks :: "lstr list lua_Reader" where
  "two_blocks d = (case d of [] \<Rightarrow> (None, []) | b # bs \<Rightarrow> (Some b, bs))"

lemma two_blocks_delivers:
  "[] \<notin> set d \<Longrightarrow> \<forall>b \<in> set d. length b < 2 ^ 64 \<Longrightarrow> delivers two_blocks d (concat d)"
proof (induction d)
  case Nil
  then show ?case by (auto intro: delivers_null simp: two_blocks_def)
next
  case (Cons b d)
  moreover have "two_blocks (b # d) = (Some b, d)" "b \<noteq> []" using Cons.prems(1) by (auto simp: two_blocks_def)
  ultimately show ?case using delivers_block [of two_blocks "b # d" b d "concat d"] by simp
qed

lemma luaZ_read_stream_witness:
  "case luaZ_read two_blocks (luaZ_init [[1, 2], [3, 4, 5]]) 3 of
      Inl e \<Rightarrow> False
    | Inr (z', missing, b) \<Rightarrow>
        b = take (unat (3 :: u64)) [1, 2, 3, 4, 5] \<and> missing = 3 - word_of_nat (length b) \<and>
        (missing = 0 \<longrightarrow> zstream two_blocks z' (drop (unat (3 :: u64)) [1, 2, 3, 4, 5]))"
proof (rule luaZ_read_stream)
  have "delivers two_blocks [[1, 2], [3, 4, 5]] (concat [[1, 2], [3, 4, 5]])"
    by (rule two_blocks_delivers) auto
  then show "zstream two_blocks (luaZ_init [[1, 2], [3, 4, 5]]) [1, 2, 3, 4, 5]"
    using zstream_init by fastforce
qed

text \<open>
  C12. Saving and loading: \<^verbatim>\<open>luaU_undump\<close> of what \<^verbatim>\<open>luaU_dump\<close> wrote, whatever the blocks it arrives in,
  gives back the function; a stripped dump gives it without its lines and names.\<close>

theorem undump_dump_roundtrip:
  assumes "dumpable f" "all_checked f" "nesting f + nCcalls \<le> LUAI_MAXCCALLS"
    and "luaU_dump f append_writer [] strip = (0, bytes)" "delivers reader data bytes"
  shows "\<exists>z'. luaU_undump nCcalls reader name (luaZ_init data) =
    Inr (z', if strip then loaded True (Some (lit ''=?'')) f else f)"
  using undump_dump [OF assms(1-3), of reader data strip name] assms(4,5)
  by (auto simp: luaU_dump_bytes loaded_whole)

lemma move_chunk:
  defines "f \<equiv> two_instrs (CREATE_ABC OP_MOVE 1 0 0)"
  shows "all_checked f" "dumpable f" "nesting f + 0 \<le> LUAI_MAXCCALLS"
proof -
  have "luaG_checkcode f" unfolding f_def by (rule two_instrs_checked; code_simp)
  then show "all_checked f" by (simp add: f_def two_instrs_def)
  show "dumpable f"
    by (simp add: f_def two_instrs_def luaF_newproto_def string_ok_def lit_def nat_int_def is_int_def INT_MIN_def
        INT_MAX_def len_ok_def debug_ok_def const_ok_def)
  show "nesting f + 0 \<le> LUAI_MAXCCALLS" by (simp add: f_def two_instrs_def LUAI_MAXCCALLS_def)
qed

lemma two_instrs_dump:
  "length (concat (dump_blocks strip (two_instrs i))) < 2 ^ 64" "concat (dump_blocks strip (two_instrs i)) \<noteq> []"
  by (simp_all add: dump_blocks_def two_instrs_def luaF_newproto_def luaU_header_def LUA_SIGNATURE_def
      lit_def head_blocks_def string_blocks_def vector_blocks_def list_blocks_def const_blocks_def
      debug_blocks_def size_bytes_def int_bytes_def instr_bytes_def number_bytes_def)

lemma undump_dump_roundtrip_witness:
  defines "f \<equiv> two_instrs (CREATE_ABC OP_MOVE 1 0 0)"
  shows "\<exists>z'. luaU_undump 0 two_blocks ''=x'' (luaZ_init [concat (dump_blocks True f)]) =
    Inr (z', if True then loaded True (Some (lit ''=?'')) f else f)"
proof (rule undump_dump_roundtrip)
  show "all_checked f" "dumpable f" "nesting f + 0 \<le> LUAI_MAXCCALLS" unfolding f_def by (rule move_chunk)+
  show "luaU_dump f append_writer [] True = (0, concat (dump_blocks True f))" by (simp add: luaU_dump_bytes)
  show "delivers two_blocks [concat (dump_blocks True f)] (concat (dump_blocks True f))"
    using two_blocks_delivers [of "[concat (dump_blocks True f)]"] two_instrs_dump by (simp add: f_def)
qed

text \<open>
  C13. Whatever bytes arrive, a function that \<^verbatim>\<open>luaU_undump\<close> returns has passed \<^verbatim>\<open>luaG_checkcode\<close>, and so
  has every function inside it; they are nested at most as deep as the limit on C calls.\<close>

theorem undump_checked:
  assumes "luaU_undump nCcalls reader name z = Inr (z', f)"
  shows "all_checked f \<and> nesting f \<le> LUAI_MAXCCALLS - nCcalls"
  using assms loaded_checked by (fastforce simp: luaU_undump_def Let_def sbind_Inr_iff)

lemma undump_checked_witness:
  "\<exists>f. all_checked f \<and> nesting f \<le> LUAI_MAXCCALLS - 0"
proof -
  let ?f = "two_instrs (CREATE_ABC OP_MOVE 1 0 0)"
  let ?b = "concat (dump_blocks False ?f)"
  have "delivers two_blocks [?b] ?b"
    using two_blocks_delivers [of "[?b]"] two_instrs_dump by simp
  then obtain z' where "luaU_undump 0 two_blocks ''=x'' (luaZ_init [?b]) = Inr (z', loaded False (Some (lit ''=?'')) ?f)"
    using undump_dump [of ?f 0 two_blocks "[?b]" False "''=x''"] move_chunk by auto
  from undump_checked [OF this] show ?thesis by blast
qed

section \<open>Values in the virtual machine\<close>

text \<open>A state without tables, and one with a single table.\<close>

definition no_heap :: lstate where
  "no_heap = \<lparr>heap = \<lambda>_. None, umeta = \<lambda>_. None, gmt = \<lambda>_. None\<rparr>"

definition one_table :: "Table \<Rightarrow> lstate" where
  "one_table t = set_table 8 t no_heap"

lemma heap_ok_one: "tinv t \<Longrightarrow> cache_ok t \<Longrightarrow> heap_ok (one_table t)"
  by (auto simp: heap_ok_def one_table_def set_table_def no_heap_def)

text \<open>A host for the witnesses: no calls, strings compared byte by byte.\<close>

definition plain_host :: host where
  "plain_host = \<lparr>h_call = \<lambda>f args S. Inr (S, VNil),
     h_strcoll = \<lambda>a b. if a = b then 0 else if lex_less a b then - 1 else 1,
     h_strtod = \<lambda>s. (0, 0), h_strtoul16 = \<lambda>s. (0, 0), h_num2str = \<lambda>n. lit ''1'',
     h_arith = \<lambda>op a b. a\<rparr>"

lemma plain_collation: "c_collation plain_host"
  by (auto simp: c_collation_def plain_host_def dest: lex_less_asym)

text \<open>
  C14. With a collation that compares C strings byte by byte (\<^verbatim>\<open>strcoll\<close> in the C locale), \<^verbatim>\<open>l_strcmp\<close>
  compares Lua strings byte by byte, with their embedded zeros, to their full length.\<close>

theorem l_strcmp_bytewise:
  assumes "c_collation H"
  shows "(l_strcmp H l r = 0 \<longleftrightarrow> l = r) \<and> (l_strcmp H l r < 0 \<longleftrightarrow> lex_less l r)"
  by (rule l_strcmp_lex [OF assms])

lemma l_strcmp_bytewise_witness:
  "(l_strcmp plain_host [97, 0, 98] [97, 0, 99] = 0 \<longleftrightarrow> [97, 0, 98] = [97, 0, 99 :: lu_byte]) \<and>
   (l_strcmp plain_host [97, 0, 98] [97, 0, 99] < 0 \<longleftrightarrow> lex_less [97, 0, 98] [97, 0, 99])"
  by (rule l_strcmp_bytewise [OF plain_collation])

text \<open>
  C15. \<^verbatim>\<open>luaV_concat\<close> of two or more strings and numbers, whatever it joins in one pass, is the
  concatenation of their texts, and calls no tag method.\<close>

theorem luaV_concat_correct:
  assumes "list_all (\<lambda>v. tostring H v \<noteq> None) vs" "2 \<le> length vs"
    and "sum_list (map (length \<circ> the_str H) vs) < MAX_SIZET"
  shows "luaV_concat H S vs = Inr (S, VGC (GStr (concat (rev (map (the_str H) vs)))))"
  by (rule luaV_concat_strings [OF assms(1,3,2)])

lemma luaV_concat_correct_witness:
  defines "vs \<equiv> [VGC (GStr []), VNumber 7, VGC (GStr (lit ''ab''))]"
  shows "luaV_concat plain_host no_heap vs = Inr (no_heap, VGC (GStr (concat (rev (map (the_str plain_host) vs)))))"
  by (rule luaV_concat_correct)
    (simp_all add: vs_def tostring_def the_str_def plain_host_def lit_def MAX_SIZET_def)

text \<open>
  C16. \<^verbatim>\<open>fasttm\<close> is the look-up it avoids: on a heap whose metatables cache only absent methods it
  returns the method of the event, or nothing when there is none, and what it adds to the cache keeps
  the cache right.\<close>

theorem fasttm_is_lookup:
  assumes "heap_ok S" "e \<in> {TM_INDEX, TM_NEWINDEX, TM_GC, TM_MODE, TM_EQ}" "heap S p = Some t"
  shows "\<exists>S'. fasttm S (Some p) e =
      Inr (S', let v = tval t (VGC (GStr (tmname e))) in if v = VNil then None else Some v) \<and>
    heap_ok S' \<and> same_heap S S'"
  by (rule fasttm_lookup [OF assms])

lemma empty_heap_ok: "heap_ok (one_table empty_table)" "heap (one_table empty_table) 8 = Some empty_table"
  by (auto intro!: heap_ok_one simp: empty_table_inv cache_ok_def)
    (simp add: one_table_def set_table_def)

lemma fasttm_is_lookup_witness:
  "\<exists>S'. fasttm (one_table empty_table) (Some 8) TM_EQ =
      Inr (S', let v = tval empty_table (VGC (GStr (tmname TM_EQ))) in if v = VNil then None else Some v) \<and>
    heap_ok S' \<and> same_heap (one_table empty_table) S'"
  by (rule fasttm_is_lookup) (simp_all add: empty_heap_ok)



text \<open>
  C18. A table that is its own \<^verbatim>\<open>__index\<close> does not hang the interpreter: looking for a key it does not
  have ends with the error of the language.\<close>

theorem index_loop_error:
  assumes "heap_ok S" "heap S p = Some t" "live key" "metatable t = Some p" "tval t key = VNil"
    and "tval t (VGC (GStr (tmname TM_INDEX))) = VGC (GTable p)"
  shows "luaV_gettable H S (VGC (GTable p)) key = Inl (ErrRun ''loop in gettable'')"
  unfolding luaV_gettable_def by (rule gettable_loop_self [OF assms])

definition self_table :: Table where
  "self_table = \<lparr>flags = 0, lsizenode = 0, metatable = Some 8, array = [],
     node = Some [\<lparr>i_val = VGC (GTable 8), i_key = VGC (GStr (tmname TM_INDEX)), nk_next = None\<rparr>],
     lastfree = 0, sizearray = 0\<rparr>"

lemma self_table_inv: "tinv self_table" "cache_ok self_table" "metatable self_table = Some 8"
  "tval self_table (VGC (GStr s)) = (if s = tmname TM_INDEX then VGC (GTable 8) else VNil)"
proof -
  have n: "nodes self_table = [\<lparr>i_val = VGC (GTable 8), i_key = VGC (GStr (tmname TM_INDEX)), nk_next = None\<rparr>]"
    by (simp add: self_table_def nodes_def)
  have "mainposition self_table (VGC (GStr s)) = 0" for s
    by (simp add: hashstr_def sizenode_def twoto_def self_table_def lmod_def)
  then have "nodes_ok (mainposition self_table) (nodes self_table)"
    unfolding n by (auto simp: nodes_ok_def chains_ok_def keys_ok_def key_ok_def nx_def ranked_def isnan_def intro: reach.intros)
  then show "tinv self_table"
    unfolding tinv_def tinv0_def n
    by (simp add: self_table_def sizenode_def twoto_def in_array_def MAXASIZE_def MAXBITS_def)
  show "cache_ok self_table" "metatable self_table = Some 8" by (simp_all add: cache_ok_def self_table_def)
  show "tval self_table (VGC (GStr s)) = (if s = tmname TM_INDEX then VGC (GTable 8) else VNil)"
    unfolding tval_def n by (auto simp: hget_def in_array_def arrayindex_def)
qed

lemma index_loop_error_witness:
  "luaV_gettable plain_host (one_table self_table) (VGC (GTable 8)) (VGC (GStr [])) = Inl (ErrRun ''loop in gettable'')"
proof (rule index_loop_error)
  show "heap (one_table self_table) 8 = Some self_table" by (simp add: one_table_def set_table_def)
  have "tmname TM_INDEX \<noteq> []" by (simp add: tmname_def tm_num_def events_def event_names_def lit_def)
  then show "tval self_table (VGC (GStr [])) = VNil" by (simp add: self_table_inv)
qed (simp_all add: heap_ok_one self_table_inv)

section \<open>The table library\<close>

text \<open>A table with an array part only.\<close>

definition array_table :: "TValue list \<Rightarrow> Table" where
  "array_table vs = empty_table\<lparr>array := vs, sizearray := length vs\<rparr>"

lemma array_table_inv:
  assumes "length vs \<le> 2 ^ 26"
  shows "tinv (array_table vs)"
proof -
  have m: "mainposition (array_table vs) = mainposition empty_table"
    by (rule mainposition_cong) (simp add: array_table_def)
  have n: "nodes (array_table vs) = [dummynode]" "nodes empty_table = [dummynode]"
    by (simp_all add: array_table_def empty_table_def nodes_def)
  have "nodes_ok (mainposition empty_table) [dummynode]"
    using empty_table_inv(1) n(2) by (simp add: tinv_def tinv0_def)
  then show ?thesis using assms unfolding tinv_def tinv0_def m n
    by (simp add: array_table_def empty_table_def sizenode_def twoto_def MAXASIZE_def MAXBITS_def dummynode_def)
qed

lemma array_table_elems:
  assumes "length vs \<le> 2 ^ 26" "vs \<noteq> []" "last vs \<noteq> VNil"
    and "n = length vs"
  shows "luaH_getn (array_table vs) = Inr n" "elems (array_table vs) n = vs"
proof -
  show "luaH_getn (array_table vs) = Inr n"
    using assms(2-4) by (simp add: luaH_getn_def array_table_def empty_table_def Let_def last_conv_nth)
  have "ival (array_table vs) (int i + 1) = vs ! i" if "i < length vs" for i
  proof -
    have i: "is_int (int i + 1)" using that assms(1) by (simp add: is_int_def INT_MIN_def INT_MAX_def)
    have "int i + 1 = int (Suc i)" by simp
    moreover have "tnum (array_table vs) (Suc i) = vs ! i"
      using that assms(1) by (subst tnum_array) (simp_all add: array_table_def empty_table_def MAXASIZE_def MAXBITS_def)
    ultimately show ?thesis using i by (simp only: ival_def tnum_def if_True)
  qed
  then show "elems (array_table vs) n = vs" using assms(4) by (intro nth_equalityI) (simp_all add: elems_nth)
qed

lemma elems_ival: "1 \<le> k \<Longrightarrow> k \<le> int n \<Longrightarrow> ival t k = elems t n ! (nat k - 1)"
  by (simp add: elems_nth of_nat_diff)

text \<open>
  C19. \<^verbatim>\<open>table.sort\<close> with an order function that computes a strict weak order on the elements ends
  without error (one round per element is enough), leaves the elements in order, moves each of them
  exactly once and touches no other index.\<close>

theorem table_sort_correct:
  assumes "order_function cmp lt D" "tinv t" "luaH_getn t = Inr n" "n < fuel" "2 * int n \<le> INT_MAX"
    and "set (elems t n) \<subseteq> D"
  shows "\<exists>t'. table_sort fuel cmp t = Inr t' \<and> tinv t' \<and> mset (elems t' n) = mset (elems t n) \<and>
    sorted_wrt (\<lambda>x y. \<not> lt y x) (elems t' n) \<and> (\<forall>k. k < 1 \<or> int n < k \<longrightarrow> ival t' k = ival t k)"
proof (rule table_sort_val [OF assms(1-5)], intro allI impI)
  fix k assume "1 \<le> k \<and> k \<le> int n"
  then have "ival t k \<in> set (elems t n)" by (auto simp: elems_def)
  with assms(6) show "ival t k \<in> D" by blast
qed

lemma table_sort_correct_witness:
  defines "t \<equiv> array_table [VNumber (cast_num 3), VNumber (cast_num 1), VNumber (cast_num 2)]"
  shows "\<exists>t'. table_sort 4 (sort_default plain_host no_heap) t = Inr t' \<and> tinv t' \<and>
    mset (elems t' 3) = mset (elems t 3) \<and> sorted_wrt (\<lambda>x y. \<not> default_lt y x) (elems t' 3) \<and>
    (\<forall>k. k < 1 \<or> int 3 < k \<longrightarrow> ival t' k = ival t k)"
proof (rule table_sort_correct)
  let ?vs = "[VNumber (cast_num 3), VNumber (cast_num 1), VNumber (cast_num 2)]"
  show "order_function (sort_default plain_host no_heap) default_lt num_set" by (rule num_order.order_function_axioms)
  show "tinv t" unfolding t_def by (rule array_table_inv) simp
  show "luaH_getn t = Inr 3" unfolding t_def using array_table_elems(1) [of ?vs] by simp
  have "elems t 3 = ?vs" unfolding t_def by (rule array_table_elems) simp_all
  then show "set (elems t 3) \<subseteq> num_set"
    by (simp add: num_set_def is_int_def INT_MIN_def INT_MAX_def)
qed (simp_all add: INT_MAX_def)

text \<open>
  C20. \<^verbatim>\<open>table.insert\<close> and \<^verbatim>\<open>table.remove\<close> at a position of the sequence insert and remove that element of
  it and shift the others; the only error is the overflow of the node vector.\<close>

theorem insert_remove_correct:
  assumes "tinv t" "luaH_getn t = Inr n" "int n < INT_MAX"
    and "1 \<le> p" "p \<le> int n + 1" "1 \<le> q" "q \<le> int n"
  shows "(case tinsert 3 t p v of
      Inl e \<Rightarrow> e = ErrRun ''table overflow''
    | Inr t' \<Rightarrow> tinv t' \<and> elems t' (Suc n) = take (nat p - 1) (elems t n) @ v # drop (nat p - 1) (elems t n)) \<and>
    (case tremove t (Some q) of
      Inl e \<Rightarrow> e = ErrRun ''table overflow''
    | Inr (t', r) \<Rightarrow> tinv t' \<and> r = Some (elems t n ! (nat q - 1)) \<and>
        elems t' (n - 1) = take (nat q - 1) (elems t n) @ drop (nat q) (elems t n) \<and> ival t' (int n) = VNil)"
  using tinsert_elems [OF assms(1-5), of v] tremove_elems [OF assms(1,2) _ assms(6,7)] assms(3)
  by (auto simp: table_overflow_def)

lemma insert_remove_correct_witness:
  defines "t \<equiv> array_table [VBoolean 0, VBoolean 1]"
  shows "(case tinsert 3 t 1 (VNumber 0) of
      Inl e \<Rightarrow> e = ErrRun ''table overflow''
    | Inr t' \<Rightarrow> tinv t' \<and> elems t' (Suc 2) = take (nat 1 - 1) (elems t 2) @ VNumber 0 # drop (nat 1 - 1) (elems t 2)) \<and>
    (case tremove t (Some 2) of
      Inl e \<Rightarrow> e = ErrRun ''table overflow''
    | Inr (t', r) \<Rightarrow> tinv t' \<and> r = Some (elems t 2 ! (nat 2 - 1)) \<and>
        elems t' (2 - 1) = take (nat 2 - 1) (elems t 2) @ drop (nat 2) (elems t 2) \<and> ival t' (int 2) = VNil)"
proof (rule insert_remove_correct)
  show "tinv t" unfolding t_def by (rule array_table_inv) simp
  show "luaH_getn t = Inr 2" unfolding t_def using array_table_elems(1) [of "[VBoolean 0, VBoolean 1]"] by simp
qed (simp_all add: INT_MAX_def)

section \<open>The string library\<close>

text \<open>
  C21. Whatever the pattern, \<^verbatim>\<open>string.find\<close> and \<^verbatim>\<open>string.match\<close> end with results or a Lua error: the
  matcher never reads outside the pattern or the subject, never writes outside its 32 captures and
  does not run for ever; the iterator of \<^verbatim>\<open>string.gmatch\<close> does so too, and moves forward.\<close>

theorem string_search_safe:
  assumes "length s < 2 ^ 63"
  shows "ends (str_find_aux is_find s p i plain) (\<lambda>vs. True) \<and>
    ends (gmatch_aux s p start) (\<lambda>r. case r of None \<Rightarrow> True | Some (n, vs) \<Rightarrow> start < n \<and> n \<le> Suc (length s))"
  using str_find_aux_ends [OF assms] gmatch_loop_ends [OF assms, of new_state p start]
  by (simp add: gmatch_aux_def new_state_def gmatch_post_def [abs_def])

lemma string_search_safe_witness:
  "ends (str_find_aux False (lit ''f(a)'') (lit ''%b()'') 1 False) (\<lambda>vs. True) \<and>
    ends (gmatch_aux (lit ''f(a)'') (lit ''%b()'') 0)
      (\<lambda>r. case r of None \<Rightarrow> True | Some (n, vs) \<Rightarrow> 0 < n \<and> n \<le> Suc (length (lit ''f(a)'')))"
  by (rule string_search_safe) (simp add: lit_def)

text \<open>
  C22. For patterns without captures (\<open>render is\<close> is their text) \<^verbatim>\<open>string.find\<close> returns the leftmost
  match: the least position from \<open>init\<close> on where some substring belongs to the language of the
  pattern, and there the first of the matches in the order of preference of the quantifiers; it
  returns nil when no substring belongs to the language.\<close>

theorem str_find_correct:
  assumes "pattern_ok is"
  shows "\<exists>r. str_find s (render is) i False =
      Inr (case r of None \<Rightarrow> [VNil] | Some (j, e) \<Rightarrow> [VInt (int j + 1), VInt (int e)]) \<and>
    (case r of
       None \<Rightarrow> \<forall>j e. find_init s i \<le> j \<longrightarrow> \<not> matches_at is s j e
     | Some (j, e) \<Rightarrow> find_init s i \<le> j \<and> matches_at is s j e \<and> first_of (choices is s j) = Some e \<and>
         (\<forall>j' e'. find_init s i \<le> j' \<longrightarrow> j' < j \<longrightarrow> \<not> matches_at is s j' e'))"
  using str_find_leftmost [OF assms, of s i] leftmost_lang [of "is" s "find_init s i"] by blast

lemma str_find_correct_witness:
  "\<exists>r. str_find (lit ''xaab'') (render [(OneChar (ch CHR ''a''), Many), (OneChar (ch CHR ''b''), Once)]) 1 False =
      Inr (case r of None \<Rightarrow> [VNil] | Some (j, e) \<Rightarrow> [VInt (int j + 1), VInt (int e)])"
proof -
  have "pattern_ok [(OneChar (ch CHR ''a''), Many), (OneChar (ch CHR ''b''), Once)]"
    by (simp add: pattern_ok_def)
  from str_find_correct [OF this, of "lit ''xaab''" 1] show ?thesis by blast
qed



section \<open>The lexical analyser\<close>

text \<open>What the analyser has not consumed of a stream, the current character included.\<close>

definition unread :: "'d lua_Reader \<Rightarrow> 'd ZIO LexState \<Rightarrow> lstr \<Rightarrow> bool" where
  "unread reader ls bs \<longleftrightarrow> (case bs of [] \<Rightarrow> ls_current ls = EOZ
     | c # r \<Rightarrow> ls_current ls = char2int c \<and> zstream reader (ls_z ls) r)"

lemma unread_lastline [simp]: "unread reader (ls\<lparr>ls_lastline := n\<rparr>) bs = unread reader ls bs"
  by (simp add: unread_def split: list.splits)

lemma unread_at: "zs.at reader = unread reader"
  by (intro ext) (simp add: zs.at_def unread_def)

text \<open>
  C24. On every input \<^verbatim>\<open>llex\<close> returns a token or raises an error, without reading past the end of the
  stream or writing outside its buffer; a token other than \<^verbatim>\<open>TK_EOS\<close> consumes at least a character,
  so every chunk has finitely many tokens.\<close>

theorem llex_progress:
  assumes "unread reader ls bs" "buf_ok (ls_buff ls)" "length bs < f"
  shows "ends (llex f H dp (zgetc reader) ls) (\<lambda>(ls', t, s). buf_ok (ls_buff ls') \<and>
    (\<exists>bs'. unread reader ls' bs' \<and> (length bs' < length bs \<or> t = TK_EOS \<and> bs' = [])))"
proof -
  have "zs.st reader (length bs) 0 ls" using assms by (auto simp: zs.st_def unread_at)
  from zs.llex_ends [OF this assms(3)] show ?thesis
  proof (rule ends_weaken, clarify)
    fix ls' t s
    assume "(0 < length bs \<and> zs.st reader (length bs - 1) 0 ls') \<or>
      (t = TK_EOS \<and> zs.st reader (length bs) 0 ls' \<and> ls_current ls' = EOZ)"
    then show "buf_ok (ls_buff ls') \<and> (\<exists>bs'. unread reader ls' bs' \<and> (length bs' < length bs \<or> t = TK_EOS \<and> bs' = []))"
    proof
      assume "t = TK_EOS \<and> zs.st reader (length bs) 0 ls' \<and> ls_current ls' = EOZ"
      then show ?thesis by (auto simp: zs.st_def unread_def intro!: exI [of _ "[]"])
    next
      assume n: "0 < length bs \<and> zs.st reader (length bs - 1) 0 ls'"
      then obtain bs' where "length bs' \<le> length bs - 1" "unread reader ls' bs'" "buf_ok (ls_buff ls')"
        by (auto simp: zs.st_def unread_at)
      moreover from this n have "length bs' < length bs" by linarith
      ultimately show ?thesis by blast
    qed
  qed
qed

lemma lex_state_start:
  assumes "delivers reader d (c # bs)"
  shows "\<exists>ls. luaX_setinput (zgetc reader) (luaZ_init d) = Inr ls \<and> unread reader ls (c # bs) \<and>
    ls_buff ls = \<lparr>mb_bytes = [], mb_size = LUA_MINBUFFER\<rparr> \<and> ls_linenumber ls = 1 \<and>
    tk_token (ls_lookahead ls) = TK_EOS"
  using zgetc_stream [OF zstream_init [OF assms]]
  by (auto simp: luaX_setinput_def next_char_def unread_def)

lemma llex_progress_witness:
  "ends (ebind (luaX_setinput (zgetc two_blocks) (luaZ_init [[10, 97], [98]])) (llex 9 plain_host 46 (zgetc two_blocks)))
     (\<lambda>(ls', t, s). buf_ok (ls_buff ls') \<and>
       (\<exists>bs'. unread two_blocks ls' bs' \<and> (length bs' < 3 \<or> t = TK_EOS \<and> bs' = [])))"
proof -
  have "delivers two_blocks [[10, 97], [98]] (concat [[10, 97], [98]])" by (rule two_blocks_delivers) auto
  then obtain ls where ls: "luaX_setinput (zgetc two_blocks) (luaZ_init [[10, 97], [98]]) = Inr ls"
    "unread two_blocks ls [10, 97, 98]" "ls_buff ls = \<lparr>mb_bytes = [], mb_size = LUA_MINBUFFER\<rparr>"
    using lex_state_start [of two_blocks _ 10 "[97, 98]"] by auto
  then have "buf_ok (ls_buff ls)" by (simp add: buf_ok_def LUA_MINBUFFER_def)
  from llex_progress [OF ls(2) this, of 9 plain_host 46] show ?thesis
    unfolding ls(1) ebind_simps by (simp add: numeral_3_eq_3)
qed

text \<open>
  C25. What \<^verbatim>\<open>string.format("%q", s)\<close> writes is read back by the lexical analyser as one string token
  with the value \<open>s\<close>, for every string \<open>s\<close>, whatever the blocks the source arrives in.\<close>

theorem quoted_string_roundtrip:
  assumes "delivers reader d (t @ rest)" "str_format H sprintf (lit ''%q'') [VStr s] = Inr t"
    and "length s < f" "2 * int (length s) + 4 < MAX_INT"
  shows "\<exists>ls. ebind (luaX_setinput (zgetc reader) (luaZ_init d)) (luaX_next f H dp (zgetc reader)) = Inr ls \<and>
    ls_t ls = \<lparr>tk_token = TK_STRING, tk_seminfo = SemTs s\<rparr> \<and> unread reader ls rest"
proof -
  have t: "t = addquoted s []" using assms(2) by (simp add: format_q)
  then have "delivers reader d (0x22 # concat (map quoted s) @ 0x22 # rest)" using assms(1) by (simp add: addquoted_eq)
  from lex_state_start [OF this] obtain ls where
    ls: "luaX_setinput (zgetc reader) (luaZ_init d) = Inr ls" "unread reader ls (t @ rest)"
      "ls_buff ls = \<lparr>mb_bytes = [], mb_size = LUA_MINBUFFER\<rparr>" "ls_linenumber ls = 1"
      "tk_token (ls_lookahead ls) = TK_EOS" by (auto simp: t addquoted_eq)
  have "zs.at reader (ls\<lparr>ls_lastline := ls_linenumber ls\<rparr>) (addquoted s [] @ rest)"
    using ls(2) by (simp add: unread_at t)
  then have "\<exists>ls'. llex f H dp (zgetc reader) (ls\<lparr>ls_lastline := ls_linenumber ls\<rparr>) = Inr (ls', TK_STRING, SemTs s) \<and>
      zs.at reader ls' rest"
    using assms(3,4) ls(3,4) by (intro zs.llex_quoted) (auto simp: buf_ok_def LUA_MINBUFFER_def MAX_INT_def INT_MAX_def)
  with ls(1,5) show ?thesis by (auto simp: luaX_next_def unread_at [symmetric])
qed

lemma quoted_string_roundtrip_witness:
  "\<exists>ls. ebind (luaX_setinput (zgetc two_blocks) (luaZ_init [[0x22, 97, 92], [10, 0x22, 32]]))
      (luaX_next 9 plain_host 46 (zgetc two_blocks)) = Inr ls \<and>
    ls_t ls = \<lparr>tk_token = TK_STRING, tk_seminfo = SemTs [97, 10]\<rparr> \<and> unread two_blocks ls [32]"
proof (rule quoted_string_roundtrip)
  show "str_format plain_host (\<lambda>form a. []) (lit ''%q'') [VStr [97, 10]] = Inr [0x22, 97, 92, 10, 0x22]"
    by (simp add: format_q addquoted_eq quoted_def)
  have "delivers two_blocks [[0x22, 97, 92], [10, 0x22, 32]] (concat [[0x22, 97, 92], [10, 0x22, 32]])"
    by (rule two_blocks_delivers) auto
  then show "delivers two_blocks [[0x22, 97, 92], [10, 0x22, 32]] ([0x22, 97, 92, 10, 0x22] @ [32])" by simp
qed (simp_all add: MAX_INT_def INT_MAX_def)

section \<open>Random numbers\<close>

text \<open>A generator before seeding.\<close>

definition blank :: "'a::len word MT" where
  "blank = \<lparr>mt_v = replicate MT_N 0, mt_i = 0, mt_iset = False\<rparr>"

text \<open>
  C26. The generator computes the Mersenne Twister: after \<^verbatim>\<open>init_genrand\<close> the \<open>n\<close> first numbers of
  \<^verbatim>\<open>genrand_int32\<close>, over the ends of its blocks, are the tempered terms of the recurrence
  \<open>x (k + N) = twist (x k) (x (k + 1)) (x (k + M))\<close> that starts with the seeded words.\<close>

theorem mt_outputs_recurrence:
  assumes "length (mt_v m) = MT_N"
  shows "outputs n (init_genrand m s) =
      map (\<lambda>i. tempering (mt_rec (mt_v (init_genrand m s)) (MT_N + i))) [0..<n] \<and>
    (\<forall>v k. mt_rec v (MT_N + k) = twist (mt_rec v k) (mt_rec v (Suc k)) (mt_rec (v :: 'a::len word list) (k + MT_M)))"
  using seeded_outputs [OF assms, of n s] mt_rec_step by (auto simp del: mt_rec.simps)

lemma mt_outputs_recurrence_witness:
  "outputs 3 (init_genrand (blank :: 32 word MT) 2007) =
      map (\<lambda>i. tempering (mt_rec (mt_v (init_genrand (blank :: 32 word MT) 2007)) (MT_N + i))) [0..<3] \<and>
    (\<forall>v k. mt_rec v (MT_N + k) = twist (mt_rec v k) (mt_rec v (Suc k)) (mt_rec (v :: 32 word list) (k + MT_M)))"
  by (rule mt_outputs_recurrence) (simp add: blank_def)

section \<open>OSC packets\<close>



text \<open>
  C28. Sending a packet, a message or arbitrarily nested bundles, refines its encoding in the OSC format:
  the stream holds exactly \<^term>\<open>encode p\<close> (addresses and strings padded to four bytes, the type tags in
  order before the arguments, every element of a bundle behind its size) and is ready, if these bytes
  fit the buffer; otherwise sending throws \<^verbatim>\<open>OutOfBufferMemoryException\<close>.\<close>

theorem osc_send_encodes:
  assumes "length buffer \<le> 2 ^ 32"
  shows "if length (encode p) \<le> length buffer
    then \<exists>s. send p (OutboundPacketStream buffer) = Inr s \<and> packet_bytes s = encode p \<and> IsReady s
    else send p (OutboundPacketStream buffer) = Inl (Throw OutOfBufferMemory)"
  by (rule send_correct [OF assms])

lemma osc_send_encodes_witness:
  "if length (encode (Message (lit ''/a'') [AInt32 7])) \<le> length (replicate 12 (0 :: lu_byte))
    then \<exists>s. send (Message (lit ''/a'') [AInt32 7]) (OutboundPacketStream (replicate 12 0)) = Inr s \<and>
      packet_bytes s = encode (Message (lit ''/a'') [AInt32 7]) \<and> IsReady s
    else send (Message (lit ''/a'') [AInt32 7]) (OutboundPacketStream (replicate 12 0)) = Inl (Throw OutOfBufferMemory)"
  by (rule osc_send_encodes) simp

text \<open>
  C29. What was sent is received: the bytes of a packet whose strings have no zero byte, whose array
  brackets are balanced and whose messages do not start with a hash are read back by the classes of
  \<^verbatim>\<open>OscReceivedElements\<close> as the same packet, time tags, addresses and arguments of every type
  included.\<close>

theorem osc_roundtrip:
  assumes "packet_ok p" "length (encode p) \<le> 0x7FFFFFFC" "length (encode p) \<le> length buffer" "length buffer \<le> 2 ^ 32"
  shows "\<exists>s. send p (OutboundPacketStream buffer) = Inr s \<and> receive (packet_bytes s) = Inr p"
  using send_correct [OF assms(4), of p] receive_encode [OF assms(1,2)] assms(3) by auto

lemma osc_roundtrip_witness:
  "\<exists>s. send (Bundle 1 [Message (lit ''/a'') [AString (lit ''b''), AInt32 7]]) (OutboundPacketStream (replicate 64 0)) = Inr s \<and>
    receive (packet_bytes s) = Inr (Bundle 1 [Message (lit ''/a'') [AString (lit ''b''), AInt32 7]])"
  by (rule osc_roundtrip)
    (simp_all add: message_ok_def lit_def array_level_def encode_message_def str4_def padding_def RoundUp4_def
      tag_string_def sized_def FromUInt32_def FromInt32_def BundleTag_def)

text \<open>
  C30. A packet from the network is not trusted: on arbitrary bytes \<^verbatim>\<open>ReceivedMessage::Init\<close> reads
  nothing outside the message, and what it accepts can be read, address and all arguments, without
  leaving the memory of the packet, as long as no type tag is that of a blob.\<close>

theorem osc_message_safe:
  assumes "m + nat (sint sz) \<le> length mem" "no_blob mem m sz"
  shows "osafe (ReceivedMessage_Init mem m sz) (\<lambda>msg. osafe (read_message mem msg) (\<lambda>x. True))"
  by (rule message_safe [OF assms])

lemma osc_message_safe_witness:
  "osafe (ReceivedMessage_Init [47, 97, 0, 0, 44, 105, 0, 0] 0 8)
    (\<lambda>msg. osafe (read_message [47, 97, 0, 0, 44, 105, 0, 0] msg) (\<lambda>x. True))"
proof (rule osc_message_safe)
  show "no_blob [47, 97, 0, 0, 44, 105, 0, 0] 0 8"
    unfolding no_blob_def by code_simp
qed simp


text \<open>
  C32. \<^verbatim>\<open>ReceivedBundle::Init\<close> accepts exactly the bundles with a valid header whose elements, one
  behind the other, fill them to the last byte, and counts these elements.\<close>

theorem osc_bundle_accepted:
  assumes "m + nat (sint sz) \<le> length mem"
  shows "ReceivedBundle_Init mem m sz = Inr b \<longleftrightarrow>
    bundle_header mem m sz \<and> (\<exists>zs. elements_at mem (m + nat (sint sz)) (m + 16) zs \<and>
      b = \<lparr>timeTag_ptr = m + 8, bundle_end = m + nat (sint sz), elementCount = word_of_nat (length zs)\<rparr>)"
  by (rule bundle_accepted [OF assms])

lemma osc_bundle_accepted_witness:
  "ReceivedBundle_Init (BundleTag @ replicate 8 0) 0 16 = Inr \<lparr>timeTag_ptr = 8, bundle_end = 16, elementCount = 0\<rparr>"
proof -
  have "bundle_header (BundleTag @ replicate 8 0) 0 16"
    by (simp add: bundle_header_def IsValidElementSizeValue_def OSC_BUNDLE_ELEMENT_SIZE_MAX_def IsMultipleOf4_def BundleTag_def lit_def)
  then show ?thesis
    by (subst osc_bundle_accepted) (auto simp: BundleTag_def lit_def intro: exI [of _ "[]"])
qed


section \<open>The garbage collector\<close>

text \<open>
  C34. The propagation ends: from a heap that satisfies the tricolour invariant \<^verbatim>\<open>propagateall\<close> empties
  the list of gray objects without touching a freed or missing object; every marked object then refers
  (strongly, for a weak table) to marked objects only, but for those in the set that was exempt before;
  marks are never lost, and nothing outside the set \<open>R\<close>, closed under references, is touched.\<close>

theorem gc_propagation_ends:
  assumes "mark_inv R U g"
  shows "\<exists>g' m. propagateall H g = Inr (g', m) \<and> gray g' = [] \<and> (\<forall>a. nonwhite g' a \<longrightarrow> a \<in> U \<or> settled g' a) \<and>
    (\<forall>a. nonwhite g a \<longrightarrow> nonwhite g' a) \<and> (\<forall>a. a \<notin> R \<longrightarrow> ob g' a = ob g a)"
proof -
  obtain g' m where "propagateall H g = Inr (g', m)" "mark_inv R U g'" "progress R g g'" "gray g' = []"
    using propagateall_inv [OF assms] by blast
  then show ?thesis using progressD(3,5) by (auto simp: mark_inv_def tri_def)
qed

lemma gc_propagation_ends_witness:
  "\<exists>g' m. propagateall gc_example_host gray_heap = Inr (g', m) \<and> gray g' = [] \<and> ob g' 3 = ob gray_heap 3"
proof -
  have "3 \<notin> {0 :: nat, 1, 2}" by simp
  then show ?thesis using gc_propagation_ends [OF gray_inv, of gc_example_host] by metis
qed

text \<open>
  C35. No dangling references: when the mark phase ends, \<^verbatim>\<open>atomic\<close> succeeds, flips the current white, and
  leaves a heap in which the roots (the main and the running thread, the registry, the metatables of the
  basic types) and the userdata to finalize survive the sweep, and so does everything a marked object
  refers to, the entries of weak tables included.\<close>

theorem gc_atomic_no_dangling:
  assumes "atomic_ready R L g" "bit (gcwhite g) 0 \<noteq> bit (gcwhite g) 1"
  shows "\<exists>g'. atomic H L g = Inr g' \<and> phase g' = GCsweepstring \<and> gcwhite g' = otherwhite_of (gcwhite g) \<and>
    (\<forall>a \<in> roots L g \<union> set (tmudata g'). alive g' a) \<and> (\<forall>a r. nonwhite g' a \<longrightarrow> r \<in> refs g' a \<longrightarrow> alive g' r) \<and>
    (\<forall>a. nonwhite g a \<longrightarrow> nonwhite g' a)"
proof -
  obtain g' where g': "atomic H L g = Inr g'" "collected R L g g'" using atomic_collects [OF assms(1)] by blast
  with collected_no_dangling [OF g'(2) assms(2)] show ?thesis by (auto simp: collected_def)
qed

lemma gc_atomic_no_dangling_witness:
  "\<exists>g'. atomic gc_example_host 0 marked_heap = Inr g' \<and> phase g' = GCsweepstring \<and> (\<forall>a \<in> roots 0 marked_heap. alive g' a)"
proof -
  have "bit (gcwhite marked_heap) 0 \<noteq> bit (gcwhite marked_heap) 1" by code_simp
  from gc_atomic_no_dangling [OF marked_ready this, of gc_example_host] show ?thesis by blast
qed

text \<open>
  C36. Garbage is collected: from a heap at rest the mark phase succeeds, and the sweep of a bucket of the
  string table then frees every string in it that lies outside a set \<open>R\<close> with the roots and the
  userdata that may need a finalizer, closed under references; nothing that is marked is freed.\<close>

theorem gc_garbage_freed:
  assumes "mark_ready R L g" "bit (gcwhite g) 0 \<noteq> bit (gcwhite g) 1"
    and "ob g a = Some x" "marked x = white_of (gcwhite g)" "a \<notin> R"
    and "i < length (hash_lists g)" "a \<in> set (hash_lists g ! i)"
    and "\<forall>a \<in> set (hash_lists g ! i). kind_at g a = Some KString" "distinct (hash_lists g ! i)"
  shows "\<exists>g1 g2. mark_phase H L g = Inr g1 \<and> sweep_bucket H i g1 = Inr g2 \<and> ob g2 a = None \<and>
    (\<forall>c. nonwhite g1 c \<longrightarrow> ob g2 c \<noteq> None)"
  by (rule unreachable_string_freed [OF assms])

lemma gc_garbage_freed_witness:
  "\<exists>g1 g2. mark_phase gc_example_host 0 rest_heap = Inr g1 \<and> sweep_bucket gc_example_host 0 g1 = Inr g2 \<and> ob g2 3 = None \<and>
    (\<forall>c. nonwhite g1 c \<longrightarrow> ob g2 c \<noteq> None)"
proof (rule gc_garbage_freed)
  show "mark_ready {0, 1, 2} 0 rest_heap" by (rule rest_ready)
  show "ob rest_heap 3 = Some \<lparr>marked = 1, obj_body = BString [121]\<rparr>" by code_simp
  show "bit (gcwhite rest_heap) 0 \<noteq> bit (gcwhite rest_heap) 1" by code_simp
  show "marked \<lparr>marked = 1, obj_body = BString [121]\<rparr> = white_of (gcwhite rest_heap)" by code_simp
  show "\<forall>a \<in> set (hash_lists rest_heap ! 0). kind_at rest_heap a = Some KString" by code_simp
qed (simp_all add: rest_heap_def)

text \<open>
  C37. The write barriers keep the tricolour invariant between the steps of the mark phase: after an object
  gets a new reference to \<open>v\<close>, \<^verbatim>\<open>luaC_barriert\<close> (tables, which become gray again) and \<^verbatim>\<open>luaC_barrier\<close>
  (other objects, whose \<open>v\<close> is marked) succeed and restore the invariant.\<close>

theorem gc_barriers_keep_invariant:
  assumes "gc_inv R g" "store_ok R g a b v"
  shows "(kind_at g a = Some KTable \<longrightarrow> (\<exists>g'. ebind (upd_body a b g) (luaC_barriert a v) = Inr g' \<and> gc_inv R g')) \<and>
    (phase g = GCpropagate \<longrightarrow> (\<exists>g'. ebind (upd_body a b g) (luaC_barrier a v) = Inr g' \<and> gc_inv R g'))"
  using barrier_back [OF assms] barrier_forward [OF assms] by blast+

lemma gc_barriers_keep_invariant_witness:
  "\<exists>g'. ebind (upd_body 1 (BTable None [] [(Ref 2, Ref 3)]) marked_heap) (luaC_barriert 1 (Ref 3)) = Inr g' \<and> gc_inv {0, 1, 2, 3, 4} g'"
proof -
  have "kind_at marked_heap 1 = Some KTable" by code_simp
  then show ?thesis using gc_barriers_keep_invariant [OF marked_inv marked_store] by blast
qed



text \<open>
  C39. Closures share variables: \<^verbatim>\<open>luaF_findupval\<close> returns an open upvalue of the slot that is in the list
  of its thread, the same one again when the slot has one (nothing is allocated then), and keeps the
  list ordered by falling levels.\<close>

theorem luaF_findupval_shares:
  assumes "open_ok g th" "fresh_addr a g"
  shows "\<exists>g' u. luaF_findupval a th level g = Inr (g', u) \<and> open_ok g' th \<and> level_of g' u = Some (th, level) \<and>
    (\<exists>t'. thread_at g' th = Some t' \<and> u \<in> set (openupval t')) \<and>
    ((\<exists>t p. thread_at g th = Some t \<and> p \<in> set (openupval t) \<and> level_of g p = Some (th, level)) \<longrightarrow> u \<noteq> a \<and> ob g' a = None)"
  by (rule findupval_ok [OF assms])

lemma luaF_findupval_shares_witness:
  "\<exists>g' u. luaF_findupval 5 0 2 marked_heap = Inr (g', u) \<and> open_ok g' 0 \<and> level_of g' u = Some (0, 2)"
proof -
  have "open_ok marked_heap 0" "fresh_addr 5 marked_heap" by code_simp+
  from luaF_findupval_shares [OF this, of 2] show ?thesis by blast
qed

text \<open>
  C40. Closing keeps the values: \<^verbatim>\<open>luaF_close\<close> on a thread whose upvalues are not dead succeeds; every
  upvalue at the level or above holds the value its slot had, exactly these leave the list of the
  thread, and no other object but the thread changes its contents.\<close>

theorem luaF_close_keeps_values:
  assumes "heap_valid g" "open_ok g th" "thread_at g th = Some t" "\<forall>u \<in> set (openupval t). not_dead g u"
  shows "\<exists>g'. luaF_close H th level g = Inr g' \<and> open_ok g' th \<and>
    thread_at g' th = Some (t\<lparr>openupval := filter (\<lambda>u. \<not> closing g th level u) (openupval t)\<rparr>) \<and>
    (\<forall>u \<in> set (openupval t). closing g th level u \<longrightarrow>
       (\<exists>x'. ob g' u = Some x' \<and> obj_body x' = BUpval (Closed (stack t ! snd (the (level_of g u)))))) \<and>
    (\<forall>c. c \<noteq> th \<longrightarrow> \<not> (c \<in> set (openupval t) \<and> closing g th level c) \<longrightarrow> map_option obj_body (ob g' c) = map_option obj_body (ob g c))"
  by (rule luaF_close_ok [OF assms])

lemma luaF_close_keeps_values_witness:
  "\<exists>g'. luaF_close gc_example_host 0 0 marked_heap = Inr g' \<and> (\<exists>x'. ob g' 4 = Some x' \<and> obj_body x' = BUpval (Closed (Ref 1)))"
proof -
  let ?t = "\<lparr>l_gt = Ref 1, stack = [Ref 1, NilV, NilV], th_top = 1, ci_tops = [1], openupval = [4]\<rparr>"
  have "open_ok marked_heap 0" "thread_at marked_heap 0 = Some ?t" by code_simp+
  moreover have "\<forall>u \<in> set (openupval ?t). not_dead marked_heap u" by code_simp
  moreover have "closing marked_heap 0 0 4" "snd (the (level_of marked_heap 4)) = 0" by code_simp+
  ultimately show ?thesis
    using luaF_close_keeps_values [OF marked_valid, of 0 ?t gc_example_host 0] by fastforce
qed

end
